(* ===== verification/Mh_Prelude.thy ===== *)
theory Mh_Prelude
  imports Main "HOL-Library.Word"
begin

text \<open>
  Shared vocabulary of the development: the machine integer types of the C++ sources, byte
  buffers as lists, the C string view of a fixed character array, and the generic facts on
  words and lists that the component theories use.

  Conventions.  A buffer argument \<open>(const uint8_t *p, size_t len)\<close> is one byte list whose length
  is \<open>len\<close>; \<open>p + k\<close> is \<open>drop k\<close>.  A function that writes through an output pointer returns the
  bytes it wrote, or the updated buffer.  \<open>size_t\<close> values are lengths of real buffers and are
  modelled by \<open>nat\<close>; every other integer keeps its width as a word.
\<close>

unbundle bit_operations_syntax

type_synonym u8 = "8 word"
type_synonym u16 = "16 word"
type_synonym u32 = "32 word"
type_synonym u64 = "64 word"
type_synonym bytes = "u8 list"

named_theorems bit_bytes \<open>bits of byte-wise loads and stores\<close>
named_theorems buf_simps \<open>lengths and reads of encoded buffers\<close>

subsection \<open>Bits of a byte placed in a wider word\<close>

lemma bit_u8_lt: "bit (a :: u8) n \<Longrightarrow> n < 8"
  using bit_imp_le_length [of a n] by simp

lemma byte_at_shift:
  "(8 * i \<le> k \<and> bit (a :: u8) (k - 8 * i)) = (k div 8 = i \<and> bit a (k mod 8))"
proof
  assume *: "8 * i \<le> k \<and> bit a (k - 8 * i)"
  then have "k - 8 * i < 8" by (blast dest: bit_u8_lt)
  moreover from * obtain j where j: "k = 8 * i + j" by (auto simp: le_iff_add)
  ultimately have "j < 8" by simp
  with * j show "k div 8 = i \<and> bit a (k mod 8)" by simp
next
  assume *: "k div 8 = i \<and> bit a (k mod 8)"
  then show "8 * i \<le> k \<and> bit a (k - 8 * i)"
    using times_div_less_eq_dividend [of 8 k] minus_mult_div_eq_mod [of k 8] by auto
qed

lemma bit_byte_shift [bit_bytes]:
  "bit (push_bit (8 * i) (ucast (a :: u8) :: 'b::len word)) k =
     (k < LENGTH('b) \<and> k div 8 = i \<and> bit a (k mod 8))"
  using byte_at_shift [of i k a] by (auto simp: bit_simps)

lemma bit_byte_shift' [bit_bytes]:
  "bit (push_bit (i * 8) (ucast (a :: u8) :: 'b::len word)) k =
     (k < LENGTH('b) \<and> k div 8 = i \<and> bit a (k mod 8))"
  using bit_byte_shift [of i a k, where ?'b = 'b] by (simp only: mult.commute [of i 8])

lemmas bit_byte_8 = bit_byte_shift [of 1, simplified]
  and bit_byte_16 = bit_byte_shift [of 2, simplified]
  and bit_byte_24 = bit_byte_shift [of 3, simplified]

lemma bit_byte_0 [bit_bytes]:
  "bit (ucast (a :: u8) :: 'b::len word) k = (k < LENGTH('b) \<and> k div 8 = 0 \<and> bit a (k mod 8))"
  using bit_byte_shift [of 0 a k, where ?'b = 'b] by simp

lemma bit_byte_of [bit_bytes]:
  "bit (ucast (drop_bit m (v :: 'b::len word)) :: u8) k = (k < 8 \<and> bit v (m + k))"
  by (auto simp: bit_simps)

lemma unat_u8: "unat (v :: u8) < 256"
  using unsigned_less [of v, where ?'a = nat] by simp

lemma unat_u16: "unat (v :: u16) < 65536"
  using unsigned_less [of v, where ?'a = nat] by simp

lemma unat_of_nat_u8: "n < 256 \<Longrightarrow> unat (of_nat n :: u8) = n"
  by (simp add: unat_of_nat)

lemma unat_of_nat_u16: "n < 65536 \<Longrightarrow> unat (of_nat n :: u16) = n"
  by (simp add: unat_of_nat)

lemma unat_of_nat_u32: "n < 2 ^ 32 \<Longrightarrow> unat (of_nat n :: u32) = n"
  by (simp add: unat_of_nat)

lemma unat_ucast_u16: "unat (ucast (v :: u16) :: u32) = unat v"
  using unat_u16 [of v] by (simp add: unsigned_ucast_eq take_bit_nat_eq_self)

lemma unat_plus_1_u32: "x \<noteq> - 1 \<Longrightarrow> unat (x + 1) = unat x + 1" for x :: u32
proof -
  assume "x \<noteq> - 1"
  then have "unat x \<noteq> unat (- 1 :: u32)" by (simp only: word_unat_eq_iff) simp
  then have "unat x + 1 < 2 ^ 32"
    using unsigned_less [of x, where ?'a = nat] by (simp add: unsigned_minus_1_eq_mask mask_eq_exp_minus_1)
  then show ?thesis by (simp add: unat_word_ariths)
qed

lemma less_plus_1_u32: "x \<noteq> - 1 \<Longrightarrow> x < x + 1" for x :: u32
  by (simp add: word_less_nat_alt unat_plus_1_u32)

lemma le_iff_less_plus_1_u32: "x \<noteq> - 1 \<Longrightarrow> (y \<le> x) = (y < x + 1)" for x y :: u32
  by (simp add: word_less_nat_alt word_le_nat_alt unat_plus_1_u32 less_Suc_eq_le)

lemma lt_not_max: "x < n \<Longrightarrow> x \<noteq> - 1" for x n :: "'a::len word"
  using word_n1_ge [of n] by auto

lemma unat_Suc_lt_u32: "x < n \<Longrightarrow> unat (x + 1) = Suc (unat x)" for x n :: u32
  by (simp add: unat_plus_1_u32 lt_not_max)

lemma less4_cases:
  assumes "i < (4 :: nat)"
  obtains "i = 0" | "i = 1" | "i = 2" | "i = 3"
  using assms by linarith

lemma div8_cases2: "k < 16 \<Longrightarrow> k div 8 = 0 \<or> k div 8 = Suc 0" for k :: nat
  by auto

lemma div8_cases4:
  "k < 32 \<Longrightarrow> k div 8 = 0 \<or> k div 8 = Suc 0 \<or> k div 8 = 2 \<or> k div 8 = 3" for k :: nat
  by auto

subsection \<open>Copying into a buffer\<close>

text \<open>\<open>memcpy (dst + off, src, length src)\<close>: the bytes of \<open>dst\<close> outside the copied range stay.\<close>

definition memcpy_at :: "'a list \<Rightarrow> nat \<Rightarrow> 'a list \<Rightarrow> 'a list" where
  "memcpy_at dst off src = take off dst @ src @ drop (off + length src) dst"

lemma length_memcpy_at [simp]:
  "off + length src \<le> length dst \<Longrightarrow> length (memcpy_at dst off src) = length dst"
  by (simp add: memcpy_at_def)

lemma memcpy_at_read [buf_simps]:
  "off \<le> length dst \<Longrightarrow> take (length src) (drop off (memcpy_at dst off src)) = src"
  by (simp add: memcpy_at_def)

lemma nth_memcpy_at:
  assumes "off + length src \<le> length dst" and "i < length dst"
  shows "memcpy_at dst off src ! i =
    (if off \<le> i \<and> i < off + length src then src ! (i - off) else dst ! i)"
  using assms by (auto simp: memcpy_at_def nth_append min_def not_less)

lemma take_memcpy_at:
  "off \<le> length dst \<Longrightarrow> n = off + length src \<Longrightarrow> take n (memcpy_at dst off src) = take off dst @ src"
  by (simp add: memcpy_at_def)

lemma memcpy_at_nil [simp]: "off \<le> length dst \<Longrightarrow> memcpy_at dst off [] = dst"
  by (simp add: memcpy_at_def)

subsection \<open>C strings in fixed arrays\<close>

text \<open>The text a NUL-terminated reader sees: the bytes before the first NUL.\<close>

definition cstr :: "bytes \<Rightarrow> bytes" where
  "cstr s = takeWhile (\<lambda>c. c \<noteq> 0) s"

lemma cstr_no_nul: "0 \<notin> set (cstr s)"
  by (auto simp: cstr_def dest: set_takeWhileD)

lemma cstr_append_nul [simp]: "0 \<notin> set s \<Longrightarrow> cstr (s @ 0 # r) = s"
  unfolding cstr_def by (subst takeWhile_append2) auto

lemma cstr_idem [simp]: "cstr (cstr s) = cstr s"
  by (simp add: cstr_def takeWhile_idem)

lemma cstr_id: "0 \<notin> set s \<Longrightarrow> cstr s = s"
  unfolding cstr_def by (auto simp: takeWhile_eq_all_conv)

lemma length_cstr_le: "length (cstr s) \<le> length s"
  by (simp add: cstr_def length_takeWhile_le)

lemma set_take_cstr: "0 \<notin> set (take n (cstr s))"
  using cstr_no_nul in_set_takeD by fastforce

lemma cstr_memcpy_nul:
  assumes "0 \<notin> set s"
  shows "cstr (memcpy_at dst 0 (s @ [0])) = s"
  using assms by (simp add: memcpy_at_def)

subsection \<open>Reading encoded prefixes\<close>

lemma drop_pre [buf_simps]: "length a = n \<Longrightarrow> drop n (a @ b) = b"
  by simp

lemma take_pre [buf_simps]: "length a = n \<Longrightarrow> take n (a @ b) = a"
  by simp

lemma take_drop_chain: "m = k + n \<Longrightarrow> take n (drop k p) @ drop m p = drop k p"
  by (metis add.commute append_take_drop_id drop_drop)

lemma take_take_chain: "m = k + n \<Longrightarrow> take k p @ take n (drop k p) = take m p"
  by (simp add: take_add)

lemma take_1_drop: "k < length p \<Longrightarrow> take 1 (drop k p) = [p ! k]"
  by (simp add: Cons_nth_drop_Suc [symmetric])

lemma take_2_nth: "2 \<le> length p \<Longrightarrow> take 2 p = [p ! 0, p ! 1]"
  by (auto simp: numeral_2_eq_2 Suc_le_length_iff)

end
