(* ===== verification/Byteio.thy ===== *)
theory Byteio
  imports Mh_Prelude
begin

text \<open>
  The little- and big-endian byte helpers that every codec of the repository is written with
  (\<open>mh_net_proto/src/byteio.h\<close>, and the copies of the same four functions in
  \<open>net_wire.cpp\<close>, \<open>net_udp.cpp\<close>, \<open>net_crypto.cpp\<close> and \<open>order_codec.h\<close>), and the interface the codecs
  see: a fixed-width field that reads back what was written.
\<close>

definition put_u16 :: "u16 \<Rightarrow> bytes" where
  "put_u16 v = [ucast v, ucast (drop_bit 8 v)]"

definition put_u32 :: "u32 \<Rightarrow> bytes" where
  "put_u32 v =
     [ucast v, ucast (drop_bit 8 v), ucast (drop_bit 16 v), ucast (drop_bit 24 v)]"

definition get_u16 :: "bytes \<Rightarrow> u16" where
  "get_u16 p = ucast (p ! 0) OR push_bit 8 (ucast (p ! 1))"

definition get_u32 :: "bytes \<Rightarrow> u32" where
  "get_u32 p = ucast (p ! 0) OR push_bit 8 (ucast (p ! 1))
     OR push_bit 16 (ucast (p ! 2)) OR push_bit 24 (ucast (p ! 3))"

text \<open>The eight-byte pair of \<open>net_udp.cpp\<close> is a loop over the bytes.\<close>

definition put_u64 :: "u64 \<Rightarrow> bytes" where
  "put_u64 v = map (\<lambda>i. ucast (drop_bit (i * 8) v)) [0..<8]"

definition get_u64 :: "bytes \<Rightarrow> u64" where
  "get_u64 p = fold (\<lambda>i v. v OR push_bit (i * 8) (ucast (p ! i))) [0..<8] 0"

text \<open>The big-endian pair of \<open>net_crypto.cpp\<close> (SHA-256 words).\<close>

definition load_be32 :: "bytes \<Rightarrow> u32" where
  "load_be32 p = push_bit 24 (ucast (p ! 0)) OR push_bit 16 (ucast (p ! 1))
     OR push_bit 8 (ucast (p ! 2)) OR ucast (p ! 3)"

definition store_be32 :: "u32 \<Rightarrow> bytes" where
  "store_be32 v =
     [ucast (drop_bit 24 v), ucast (drop_bit 16 v), ucast (drop_bit 8 v), ucast v]"

subsection \<open>Lengths and bits\<close>

lemma length_put [simp, buf_simps]:
  "length (put_u16 v16) = 2" "length (put_u32 v32) = 4" "length (put_u64 v64) = 8"
  "length (store_be32 v32) = 4"
  by (simp_all add: put_u16_def put_u32_def put_u64_def store_be32_def)

lemma bit_get_u16 [bit_bytes]: "bit (get_u16 p) k = (k < 16 \<and> bit (p ! (k div 8)) (k mod 8))"
  using div8_cases2 [of k]
  by (auto simp: get_u16_def bit_or_iff bit_byte_0 bit_byte_8)

lemma bit_get_u32 [bit_bytes]: "bit (get_u32 p) k = (k < 32 \<and> bit (p ! (k div 8)) (k mod 8))"
  using div8_cases4 [of k]
  by (auto simp: get_u32_def bit_or_iff bit_byte_0 bit_byte_8 bit_byte_16 bit_byte_24)

lemma bit_get_u64 [bit_bytes]: "bit (get_u64 p) k = (k < 64 \<and> bit (p ! (k div 8)) (k mod 8))"
proof -
  have "bit (fold (\<lambda>i v. v OR push_bit (i * 8) (ucast (p ! i))) [0..<m] (0 :: u64)) k
     = (k < 64 \<and> k div 8 < m \<and> bit (p ! (k div 8)) (k mod 8))" for m
  proof (induction m)
    case 0
    show ?case by simp
  next
    case (Suc m)
    then show ?case by (simp add: bit_or_iff bit_byte_shift' less_Suc_eq) blast
  qed
  from this [of 8] show ?thesis unfolding get_u64_def by auto
qed

lemma bit_load_be32 [bit_bytes]:
  "bit (load_be32 p) k = (k < 32 \<and> bit (p ! (3 - k div 8)) (k mod 8))"
  using div8_cases4 [of k]
  by (auto simp: load_be32_def bit_or_iff bit_byte_0 bit_byte_8 bit_byte_16 bit_byte_24)

lemma bit_put_u16 [bit_bytes]: "i < 2 \<Longrightarrow> bit (put_u16 v ! i) k = (k < 8 \<and> bit v (8 * i + k))"
  by (auto simp: put_u16_def bit_simps less_2_cases_iff)

lemma bit_put_u32 [bit_bytes]: "i < 4 \<Longrightarrow> bit (put_u32 v ! i) k = (k < 8 \<and> bit v (8 * i + k))"
  by (erule less4_cases) (simp_all add: put_u32_def bit_simps)

lemma bit_put_u64 [bit_bytes]: "i < 8 \<Longrightarrow> bit (put_u64 v ! i) k = (k < 8 \<and> bit v (8 * i + k))"
  by (auto simp: put_u64_def bit_simps mult.commute)

lemma bit_store_be32 [bit_bytes]:
  "i < 4 \<Longrightarrow> bit (store_be32 v ! i) k = (k < 8 \<and> bit v (8 * (3 - i) + k))"
  by (erule less4_cases) (simp_all add: store_be32_def bit_simps)

subsection \<open>The interface: a fixed-width field\<close>

text \<open>
  What the codecs rely on: a field of \<open>width\<close> bytes whose reader, placed at the start of what the
  writer produced, returns the value, whatever follows; and whose writer reproduces any
  \<open>width\<close> bytes that were read.
\<close>

locale fixed_field =
  fixes width :: nat and enc :: "'a \<Rightarrow> bytes" and dec :: "bytes \<Rightarrow> 'a"
  assumes length_enc: "length (enc x) = width"
    and dec_enc: "dec (enc x @ r) = x"
    and enc_dec: "width \<le> length p \<Longrightarrow> enc (dec p) = take width p"
begin

lemma dec_enc_nil: "dec (enc x) = x"
  using dec_enc [of x "[]"] by simp

lemma enc_inj: "enc x = enc y \<Longrightarrow> x = y"
  by (metis dec_enc_nil)

lemma enc_prefix_free: "enc x @ r = enc y @ s \<Longrightarrow> x = y \<and> r = s"
  by (metis dec_enc append_same_eq same_append_eq)

lemma dec_at: "length a = n \<Longrightarrow> dec (drop n (a @ enc x @ r)) = x"
  by (simp add: dec_enc)

lemma dec_cong: "width \<le> length p \<Longrightarrow> width \<le> length q \<Longrightarrow> take width p = take width q \<Longrightarrow> dec p = dec q"
  by (metis enc_dec dec_enc_nil)

lemma dec_take: "width \<le> length p \<Longrightarrow> dec (take width p) = dec p"
  by (rule dec_cong) simp_all

end

lemma put_get_word:
  fixes p :: bytes
  assumes "n \<le> length p" and "length (put v) = n"
    and "\<And>i k. i < n \<Longrightarrow> bit (put v ! i) k = (k < 8 \<and> bit (p ! i) k)"
  shows "put v = take n p"
proof (rule nth_equalityI)
  show "length (put v) = length (take n p)" using assms(1,2) by simp
  fix i assume "i < length (put v)"
  then have i: "i < n" using assms(2) by simp
  have "bit (put v ! i) k = bit (p ! i) k" for k
    using assms(3) [OF i] bit_u8_lt [of "p ! i"] by blast
  then have "put v ! i = p ! i" by (simp add: bit_eq_iff)
  then show "put v ! i = take n p ! i" using i by simp
qed

interpretation le16: fixed_field 2 put_u16 get_u16
proof unfold_locales
  show "length (put_u16 x) = 2" for x by simp
  show "get_u16 (put_u16 x @ r) = x" for x r
    by (rule bit_word_eqI) (auto simp: bit_bytes nth_append)
  show "put_u16 (get_u16 p) = take 2 p" if "2 \<le> length p" for p
    using that by (rule put_get_word) (auto simp: bit_put_u16 bit_get_u16)
qed

interpretation le32: fixed_field 4 put_u32 get_u32
proof unfold_locales
  show "length (put_u32 x) = 4" for x by simp
  show "get_u32 (put_u32 x @ r) = x" for x r
    by (rule bit_word_eqI) (auto simp: bit_bytes nth_append)
  show "put_u32 (get_u32 p) = take 4 p" if "4 \<le> length p" for p
    using that by (rule put_get_word) (auto simp: bit_put_u32 bit_get_u32)
qed

interpretation le64: fixed_field 8 put_u64 get_u64
proof unfold_locales
  show "length (put_u64 x) = 8" for x by simp
  show "get_u64 (put_u64 x @ r) = x" for x r
    by (rule bit_word_eqI) (auto simp: bit_bytes nth_append)
  show "put_u64 (get_u64 p) = take 8 p" if "8 \<le> length p" for p
    using that by (rule put_get_word) (auto simp: bit_put_u64 bit_get_u64)
qed

interpretation be32: fixed_field 4 store_be32 load_be32
proof unfold_locales
  show "length (store_be32 x) = 4" for x by simp
  show "load_be32 (store_be32 x @ r) = x" for x r
  proof (rule bit_word_eqI)
    fix k assume "k < LENGTH(32)"
    then have k: "k < 32" "k div 8 < 4" by simp_all
    then have "3 - k div 8 < 4" and "3 - (3 - k div 8) = k div 8" by simp_all
    with k show "bit (load_be32 (store_be32 x @ r)) k = bit x k"
      by (simp add: bit_load_be32 nth_append bit_store_be32)
  qed
  show "store_be32 (load_be32 p) = take 4 p" if "4 \<le> length p" for p
    using that
  proof (rule put_get_word)
    fix i k :: nat assume "i < 4"
    then have "3 - (3 - i) = i" by simp
    with \<open>i < 4\<close> show "bit (store_be32 (load_be32 p) ! i) k = (k < 8 \<and> bit (p ! i) k)"
      by (auto simp: bit_store_be32 bit_load_be32)
  qed simp
qed

lemmas get_put [simp, buf_simps] =
  le16.dec_enc le32.dec_enc le64.dec_enc be32.dec_enc
  le16.dec_enc_nil le32.dec_enc_nil le64.dec_enc_nil be32.dec_enc_nil

lemmas put_get = le16.enc_dec le32.enc_dec le64.enc_dec be32.enc_dec

end
