(* ===== verification/Net_Wire.thy ===== *)
theory Net_Wire
  imports Byteio
begin

text \<open>
  The twelve-byte routing header of the stream transport (\<open>mh_net_proto/src/net_wire.cpp\<close>,
  \<open>include/mh_net_proto/net_wire.h\<close>): its fields, the control flags, and the little-endian codec.
  \<open>src\<close> and \<open>dst\<close> are signed 16-bit player ids; they are kept as 16-bit words and read with \<open>sint\<close>.
\<close>

definition WIRE_MAGIC :: u16 where "WIRE_MAGIC = 0x484D"
definition WIRE_HDR_SIZE :: nat where "WIRE_HDR_SIZE = 12"
definition BROADCAST :: u16 where "BROADCAST = -1"

datatype wire_flag =
    FLAG_DATA | FLAG_HELLO | FLAG_SESSION_INFO | FLAG_JOIN | FLAG_START | FLAG_LEAVE
  | FLAG_WELCOME | FLAG_ANNOUNCE | FLAG_PING | FLAG_HASH | FLAG_RECONCILE | FLAG_MESH

fun flag_code :: "wire_flag \<Rightarrow> u16" where
  "flag_code FLAG_DATA = 0"
| "flag_code FLAG_HELLO = 1"
| "flag_code FLAG_SESSION_INFO = 2"
| "flag_code FLAG_JOIN = 3"
| "flag_code FLAG_START = 4"
| "flag_code FLAG_LEAVE = 5"
| "flag_code FLAG_WELCOME = 6"
| "flag_code FLAG_ANNOUNCE = 7"
| "flag_code FLAG_PING = 8"
| "flag_code FLAG_HASH = 9"
| "flag_code FLAG_RECONCILE = 10"
| "flag_code FLAG_MESH = 11"

record wire_hdr =
  wh_magic :: u16
  wh_flags :: u16
  wh_src :: u16
  wh_dst :: u16
  wh_len :: u32

definition wire_hdr_encode :: "wire_hdr \<Rightarrow> bytes" where
  "wire_hdr_encode h =
     put_u16 (wh_magic h) @ put_u16 (wh_flags h) @ put_u16 (wh_src h) @ put_u16 (wh_dst h)
     @ put_u32 (wh_len h)"

text \<open>The decoder fills every field and then reports whether the magic matched.\<close>

definition wire_hdr_decode :: "bytes \<Rightarrow> bool \<times> wire_hdr" where
  "wire_hdr_decode inp =
     (let out = \<lparr> wh_magic = get_u16 inp,
                  wh_flags = get_u16 (drop 2 inp),
                  wh_src = get_u16 (drop 4 inp),
                  wh_dst = get_u16 (drop 6 inp),
                  wh_len = get_u32 (drop 8 inp) \<rparr>
      in (wh_magic out = WIRE_MAGIC, out))"

lemma length_wire_hdr_encode [simp, buf_simps]: "length (wire_hdr_encode h) = WIRE_HDR_SIZE"
  by (simp add: wire_hdr_encode_def WIRE_HDR_SIZE_def)

interpretation wire: fixed_field WIRE_HDR_SIZE wire_hdr_encode "\<lambda>p. snd (wire_hdr_decode p)"
proof unfold_locales
  show "length (wire_hdr_encode h) = WIRE_HDR_SIZE" for h by simp
  show "snd (wire_hdr_decode (wire_hdr_encode h @ r)) = h" for h r
    by (simp add: wire_hdr_decode_def wire_hdr_encode_def Let_def)
  show "wire_hdr_encode (snd (wire_hdr_decode p)) = take WIRE_HDR_SIZE p"
    if "WIRE_HDR_SIZE \<le> length p" for p
  proof -
    from that have "12 \<le> length p" by (simp add: WIRE_HDR_SIZE_def)
    then have "take 12 p = take 2 p @ take 2 (drop 2 p) @ take 2 (drop 4 p) @ take 2 (drop 6 p)
        @ take 4 (drop 8 p)"
      by (simp add: take_take_chain append_assoc [symmetric] del: append_assoc)
    with \<open>12 \<le> length p\<close> show ?thesis
      by (simp add: wire_hdr_decode_def wire_hdr_encode_def Let_def WIRE_HDR_SIZE_def
          le16.enc_dec le32.enc_dec)
  qed
qed

subsection \<open>Properties\<close>

text \<open>The routing header is twelve bytes; decoding what was encoded gives the header back and reports
  whether its magic is ours, and encoding what was decoded gives the same twelve bytes.\<close>

theorem wire_header_round_trip:
  "length (wire_hdr_encode h) = WIRE_HDR_SIZE \<and>
   wire_hdr_decode (wire_hdr_encode h @ r) = (wh_magic h = WIRE_MAGIC, h) \<and>
   (length p < WIRE_HDR_SIZE \<or> wire_hdr_encode (snd (wire_hdr_decode p)) = take WIRE_HDR_SIZE p)"
proof -
  have "wire_hdr_decode (wire_hdr_encode h @ r) = (wh_magic h = WIRE_MAGIC, h)"
    using wire.dec_enc [of h r] by (simp add: wire_hdr_decode_def Let_def)
  then show ?thesis using wire.enc_dec [of p] by (cases "length p < WIRE_HDR_SIZE") simp_all
qed

end
