(* ===== verification/Sha256.thy ===== *)
theory Sha256
  imports Byteio
begin

text \<open>
  SHA-256 and HMAC-SHA256 as \<open>mh_net_proto/src/net_crypto.cpp\<close> computes them: a streaming context
  that buffers up to one block, padded byte by byte at the end, and the HMAC over a list of
  pieces.  The reference definitions (\<open>sha256_ref\<close> on the whole padded message, \<open>hmac_ref\<close> of
  RFC 2104) are stated beside them, and the streaming code is proved to compute the references.
\<close>

subsection \<open>The compression function\<close>

definition ror32 :: "u32 \<Rightarrow> nat \<Rightarrow> u32" where
  "ror32 x n = drop_bit n x OR push_bit (32 - n) x"

definition rol32 :: "u32 \<Rightarrow> nat \<Rightarrow> u32" where
  "rol32 x n = push_bit n x OR drop_bit (32 - n) x"

definition K256 :: "u32 list" where
  "K256 = concat
    [[0x428a2f98, 0x71374491, 0xb5c0fbcf, 0xe9b5dba5, 0x3956c25b, 0x59f111f1, 0x923f82a4, 0xab1c5ed5],
     [0xd807aa98, 0x12835b01, 0x243185be, 0x550c7dc3, 0x72be5d74, 0x80deb1fe, 0x9bdc06a7, 0xc19bf174],
     [0xe49b69c1, 0xefbe4786, 0x0fc19dc6, 0x240ca1cc, 0x2de92c6f, 0x4a7484aa, 0x5cb0a9dc, 0x76f988da],
     [0x983e5152, 0xa831c66d, 0xb00327c8, 0xbf597fc7, 0xc6e00bf3, 0xd5a79147, 0x06ca6351, 0x14292967],
     [0x27b70a85, 0x2e1b2138, 0x4d2c6dfc, 0x53380d13, 0x650a7354, 0x766a0abb, 0x81c2c92e, 0x92722c85],
     [0xa2bfe8a1, 0xa81a664b, 0xc24b8b70, 0xc76c51a3, 0xd192e819, 0xd6990624, 0xf40e3585, 0x106aa070],
     [0x19a4c116, 0x1e376c08, 0x2748774c, 0x34b0bcb5, 0x391c0cb3, 0x4ed8aa4a, 0x5b9cca4f, 0x682e6ff3],
     [0x748f82ee, 0x78a5636f, 0x84c87814, 0x8cc70208, 0x90befffa, 0xa4506ceb, 0xbef9a3f7, 0xc67178f2]]"

definition SHA256_LEN :: nat where "SHA256_LEN = 32"

text \<open>The working variables \<open>a .. h\<close> of one block.\<close>

type_synonym sha_vars = "u32 \<times> u32 \<times> u32 \<times> u32 \<times> u32 \<times> u32 \<times> u32 \<times> u32"

definition sha_sched_step :: "u32 list \<Rightarrow> nat \<Rightarrow> u32 list" where
  "sha_sched_step w i =
     (let s0 = ror32 (w ! (i - 15)) 7 XOR ror32 (w ! (i - 15)) 18 XOR drop_bit 3 (w ! (i - 15));
          s1 = ror32 (w ! (i - 2)) 17 XOR ror32 (w ! (i - 2)) 19 XOR drop_bit 10 (w ! (i - 2))
      in w @ [w ! (i - 16) + s0 + w ! (i - 7) + s1])"

definition sha_schedule :: "bytes \<Rightarrow> u32 list" where
  "sha_schedule p =
     foldl sha_sched_step (map (\<lambda>i. load_be32 (drop (i * 4) p)) [0..<16]) [16..<64]"

fun sha_round :: "u32 list \<Rightarrow> sha_vars \<Rightarrow> nat \<Rightarrow> sha_vars" where
  "sha_round w (a, b, cc, d, e, f, g, h) i =
     (let S1 = ror32 e 6 XOR ror32 e 11 XOR ror32 e 25;
          ch = (e AND f) XOR (NOT e AND g);
          t1 = h + S1 + ch + K256 ! i + w ! i;
          S0 = ror32 a 2 XOR ror32 a 13 XOR ror32 a 22;
          mj = (a AND b) XOR (a AND cc) XOR (b AND cc);
          t2 = S0 + mj
      in (t1 + t2, a, b, cc, d + t1, e, f, g))"

fun sha_add :: "sha_vars \<Rightarrow> sha_vars \<Rightarrow> sha_vars" where
  "sha_add (a, b, c, d, e, f, g, h) (a', b', c', d', e', f', g', h') =
     (a + a', b + b', c + c', d + d', e + e', f + f', g + g', h + h')"

definition sha_compress :: "sha_vars \<Rightarrow> bytes \<Rightarrow> sha_vars" where
  "sha_compress v p = sha_add v (foldl (sha_round (sha_schedule p)) v [0..<64])"

definition sha_iv :: sha_vars where
  "sha_iv = (0x6a09e667, 0xbb67ae85, 0x3c6ef372, 0xa54ff53a,
             0x510e527f, 0x9b05688c, 0x1f83d9ab, 0x5be0cd19)"

fun sha_output :: "sha_vars \<Rightarrow> bytes" where
  "sha_output (a, b, c, d, e, f, g, h) = concat (map store_be32 [a, b, c, d, e, f, g, h])"

subsection \<open>The streaming context\<close>

record sha256_ctx =
  sha_h :: sha_vars
  sha_total :: u64
  sha_buf :: bytes
  sha_used :: nat

definition sha_init :: "sha256_ctx \<Rightarrow> sha256_ctx" where
  "sha_init c = c\<lparr> sha_h := sha_iv, sha_total := 0, sha_used := 0 \<rparr>"

definition sha_block :: "sha256_ctx \<Rightarrow> bytes \<Rightarrow> sha256_ctx" where
  "sha_block c p = c\<lparr> sha_h := sha_compress (sha_h c) p \<rparr>"

text \<open>
  The copy loop of \<open>sha_update\<close>.  The code keeps \<open>used < 64\<close> (\<open>sha_wf\<close> below), so the second
  disjunct of the guard never holds in a run; it makes the function total.
\<close>

function sha_feed :: "sha256_ctx \<Rightarrow> bytes \<Rightarrow> sha256_ctx" where
  "sha_feed c p =
     (if p = [] \<or> 64 \<le> sha_used c then c
      else let take_n = min (64 - sha_used c) (length p);
               c1 = c\<lparr> sha_buf := memcpy_at (sha_buf c) (sha_used c) (take take_n p),
                       sha_used := sha_used c + take_n \<rparr>;
               c2 = (if sha_used c1 = 64 then (sha_block c1 (sha_buf c1))\<lparr> sha_used := 0 \<rparr> else c1)
           in sha_feed c2 (drop take_n p))"
  by pat_completeness auto
termination
  by (relation "measure (\<lambda>(c, p). length p)") (auto simp: min_def)

declare sha_feed.simps [simp del]

definition sha_update :: "sha256_ctx \<Rightarrow> bytes \<Rightarrow> sha256_ctx" where
  "sha_update c p = sha_feed (c\<lparr> sha_total := sha_total c + of_nat (length p) \<rparr>) p"

subsection \<open>What the context stands for\<close>

text \<open>
  \<open>absorb\<close> is the abstract effect of feeding bytes: whole blocks are compressed, the rest is
  pending.  A context stands for its chaining value and its pending bytes.
\<close>

function absorb :: "sha_vars \<Rightarrow> bytes \<Rightarrow> sha_vars \<times> bytes" where
  "absorb v p = (if length p < 64 then (v, p) else absorb (sha_compress v (take 64 p)) (drop 64 p))"
  by pat_completeness auto
termination
  by (relation "measure (\<lambda>(v, p). length p)") auto

declare absorb.simps [simp del]

lemma absorb_small: "length p < 64 \<Longrightarrow> absorb v p = (v, p)"
  by (subst absorb.simps) simp

lemma absorb_block: "length b = 64 \<Longrightarrow> absorb v (b @ p) = absorb (sha_compress v b) p"
  by (subst absorb.simps) simp

lemma absorb_pending: "length (snd (absorb v p)) = length p mod 64"
proof (induction v p rule: absorb.induct)
  case (1 v p)
  then show ?case
    by (subst absorb.simps) (auto simp: not_less le_mod_geq)
qed

lemma absorb_append:
  "absorb v (p @ q) = (let (v', r) = absorb v p in absorb v' (r @ q))"
proof (induction v p rule: absorb.induct)
  case (1 v p)
  show ?case
  proof (cases "length p < 64")
    case True
    then show ?thesis by (simp add: absorb_small)
  next
    case False
    have "absorb v (p @ q) = absorb v (take 64 p @ drop 64 p @ q)"
      by (metis append_assoc append_take_drop_id)
    also have "\<dots> = absorb (sha_compress v (take 64 p)) (drop 64 p @ q)"
      using False by (intro absorb_block) simp
    also have "\<dots> = (let (v', r) = absorb (sha_compress v (take 64 p)) (drop 64 p) in absorb v' (r @ q))"
      using False by (rule "1.IH")
    also have "absorb (sha_compress v (take 64 p)) (drop 64 p) = absorb v p"
      using False absorb_block [of "take 64 p" v "drop 64 p"] by simp
    finally show ?thesis .
  qed
qed

definition sha_wf :: "sha256_ctx \<Rightarrow> bool" where
  "sha_wf c \<longleftrightarrow> length (sha_buf c) = 64 \<and> sha_used c < 64"

definition sha_rep :: "sha256_ctx \<Rightarrow> sha_vars \<times> bytes" where
  "sha_rep c = (sha_h c, take (sha_used c) (sha_buf c))"

lemma sha_wf_total [simp]: "sha_wf (c\<lparr> sha_total := t \<rparr>) = sha_wf c"
  by (simp add: sha_wf_def)

lemma sha_rep_total [simp]: "sha_rep (c\<lparr> sha_total := t \<rparr>) = sha_rep c"
  by (simp add: sha_rep_def)

lemma sha_feed_rep:
  assumes "sha_wf c"
  shows "sha_wf (sha_feed c p) \<and> sha_total (sha_feed c p) = sha_total c \<and>
    sha_rep (sha_feed c p) = absorb (sha_h c) (take (sha_used c) (sha_buf c) @ p)"
  using assms
proof (induction c p rule: sha_feed.induct)
  case (1 c p)
  let ?u = "sha_used c" and ?b = "sha_buf c"
  from "1.prems" have b: "length ?b = 64" and u: "?u < 64" by (simp_all add: sha_wf_def)
  show ?case
  proof (cases "p = []")
    case True
    with "1.prems" u b show ?thesis
      by (subst (1 2 3) sha_feed.simps) (simp add: sha_rep_def absorb_small)
  next
    case False
    let ?n = "min (64 - ?u) (length p)"
    let ?c1 = "c\<lparr> sha_buf := memcpy_at ?b ?u (take ?n p), sha_used := ?u + ?n \<rparr>"
    let ?c2 = "if sha_used ?c1 = 64 then (sha_block ?c1 (sha_buf ?c1))\<lparr> sha_used := 0 \<rparr> else ?c1"
    have step: "sha_feed c p = sha_feed ?c2 (drop ?n p)"
      using False u by (subst sha_feed.simps) (simp add: Let_def)
    have buf: "memcpy_at ?b ?u (take (64 - ?u) p) = take ?u ?b @ take (64 - ?u) p @ drop (?u + ?n) ?b"
      using b u by (simp add: memcpy_at_def min_def)
    have wf2: "sha_wf ?c2"
      using b u by (auto simp: sha_wf_def sha_block_def buf)
    have tot: "sha_total ?c2 = sha_total c" by (simp add: sha_block_def)
    have rep: "absorb (sha_h ?c2) (take (sha_used ?c2) (sha_buf ?c2) @ drop ?n p)
        = absorb (sha_h c) (take ?u ?b @ p)"
    proof (cases "?u + ?n = 64")
      case True
      then have "absorb (sha_h c) (take ?u ?b @ p)
          = absorb (sha_h c) ((take ?u ?b @ take ?n p) @ drop ?n p)" by simp
      also have "\<dots> = absorb (sha_compress (sha_h c) (take ?u ?b @ take ?n p)) (drop ?n p)"
        using True b u by (intro absorb_block) auto
      finally show ?thesis using True b by (simp add: sha_block_def buf)
    next
      case no: False
      then have "?n = length p" using u by (auto simp: min_def split: if_splits)
      with no b u show ?thesis by (simp add: memcpy_at_def)
    qed
    have IH: "sha_wf (sha_feed ?c2 (drop ?n p)) \<and>
        sha_total (sha_feed ?c2 (drop ?n p)) = sha_total ?c2 \<and>
        sha_rep (sha_feed ?c2 (drop ?n p))
          = absorb (sha_h ?c2) (take (sha_used ?c2) (sha_buf ?c2) @ drop ?n p)"
      using False u by (intro "1.IH" [OF _ refl refl refl wf2]) auto
    show ?thesis unfolding step using IH tot rep by simp
  qed
qed

lemma sha_update_rep:
  assumes "sha_wf c"
  shows "sha_wf (sha_update c p)"
    and "sha_rep (sha_update c p) = (case sha_rep c of (v, r) \<Rightarrow> absorb v (r @ p))"
    and "sha_total (sha_update c p) = sha_total c + of_nat (length p)"
  using sha_feed_rep [of "c\<lparr> sha_total := sha_total c + of_nat (length p) \<rparr>" p] assms
  by (simp_all add: sha_update_def sha_rep_def)

lemma sha_used_rep: "sha_wf c \<Longrightarrow> sha_used c = length (snd (sha_rep c))"
  by (simp add: sha_wf_def sha_rep_def)

lemma sha_update_used:
  assumes "sha_wf c"
  shows "sha_used (sha_update c p) = (sha_used c + length p) mod 64"
proof -
  have "sha_used (sha_update c p) = length (snd (sha_rep (sha_update c p)))"
    using sha_update_rep(1) [OF assms] by (rule sha_used_rep)
  also have "\<dots> = (length (snd (sha_rep c)) + length p) mod 64"
    by (simp add: sha_update_rep(2) [OF assms] case_prod_beta absorb_pending)
  finally show ?thesis by (simp add: sha_used_rep [OF assms])
qed

subsection \<open>Finalisation\<close>

text \<open>
  \<open>while (c.used != 56) sha_update(c, &zero, 1);\<close>  With \<open>used < 64\<close> the loop runs at most 63 times.
\<close>

lemma sha_update_zero_used:
  "sha_used c < 64 \<Longrightarrow>
     sha_used (sha_update c [0]) = (if sha_used c = 63 then 0 else Suc (sha_used c))"
  by (simp add: sha_update_def sha_feed.simps sha_block_def Let_def)

lemma pad_left: "(120 - n) mod 64 = (if n \<le> 56 then 56 - n else 120 - n)" if "n < 64" for n :: nat
proof (cases "n \<le> 56")
  case True
  then have "120 - n = (56 - n) + 64" by simp
  then have "(120 - n) mod 64 = (56 - n) mod 64" by (metis mod_add_self2)
  with True show ?thesis by simp
qed (use that in simp)

lemma pad_left_step:
  assumes "sha_used c < 64" and "sha_used c \<noteq> 56"
  shows "(120 - sha_used c) mod 64 = Suc ((120 - sha_used (sha_update c [0])) mod 64)"
proof (cases "sha_used c = 63")
  case False
  with assms have "sha_used (sha_update c [0]) = Suc (sha_used c)" "Suc (sha_used c) < 64"
    by (simp_all add: sha_update_zero_used)
  with assms show ?thesis
    using pad_left [of "sha_used c"] pad_left [of "Suc (sha_used c)"] by (simp split: if_splits)
qed (simp add: sha_update_zero_used)

function sha_pad :: "sha256_ctx \<Rightarrow> sha256_ctx" where
  "sha_pad c = (if sha_used c = 56 \<or> 64 \<le> sha_used c then c else sha_pad (sha_update c [0]))"
  by pat_completeness auto
termination
proof (relation "measure (\<lambda>c. (120 - sha_used c) mod 64)")
  fix c :: sha256_ctx assume "\<not> (sha_used c = 56 \<or> 64 \<le> sha_used c)"
  then have "(120 - sha_used (sha_update c [0])) mod 64 < (120 - sha_used c) mod 64"
    by (simp add: pad_left_step)
  then show "(sha_update c [0], c) \<in> measure (\<lambda>c. (120 - sha_used c) mod 64)" by simp
qed simp

declare sha_pad.simps [simp del]

definition sha_len_bytes :: "u64 \<Rightarrow> bytes" where
  "sha_len_bytes n = map (\<lambda>i. ucast (drop_bit (56 - i * 8) n)) [0..<8]"

definition sha_final :: "sha256_ctx \<Rightarrow> sha256_ctx \<times> bytes" where
  "sha_final c =
     (let nbits = sha_total c * 8;
          c1 = sha_update c [0x80];
          c2 = sha_pad c1;
          c3 = sha_update c2 (sha_len_bytes nbits)
      in (c3, sha_output (sha_h c3)))"

definition sha_ctx0 :: sha256_ctx where
  "sha_ctx0 = \<lparr> sha_h = sha_iv, sha_total = 0, sha_buf = replicate 64 0, sha_used = 0 \<rparr>"

definition sha256 :: "bytes \<Rightarrow> bytes" where
  "sha256 msg = snd (sha_final (sha_update (sha_init sha_ctx0) msg))"

subsection \<open>The reference: one pass over the padded message\<close>

definition sha_padding :: "bytes \<Rightarrow> bytes" where
  "sha_padding msg =
     0x80 # replicate ((119 - length msg mod 64) mod 64) 0
     @ sha_len_bytes (of_nat (length msg) * 8)"

fun sha_blocks :: "nat \<Rightarrow> sha_vars \<Rightarrow> bytes \<Rightarrow> sha_vars" where
  "sha_blocks 0 v p = v"
| "sha_blocks (Suc n) v p = sha_blocks n (sha_compress v (take 64 p)) (drop 64 p)"

definition sha256_ref :: "bytes \<Rightarrow> bytes" where
  "sha256_ref msg =
     (let m = msg @ sha_padding msg in sha_output (sha_blocks (length m div 64) sha_iv m))"

lemma absorb_blocks: "length p = 64 * n \<Longrightarrow> absorb v p = (sha_blocks n v p, [])"
proof (induction n arbitrary: v p)
  case 0
  then show ?case by (simp add: absorb_small)
next
  case (Suc n)
  then have "absorb v p = absorb (sha_compress v (take 64 p)) (drop 64 p)"
    by (subst absorb.simps) simp
  with Suc show ?case by simp
qed

lemma pad_count:
  "(119 - n mod 64) mod 64 = (if n mod 64 \<le> 55 then 55 - n mod 64 else 119 - n mod 64)"
  for n :: nat
proof (cases "n mod 64 \<le> 55")
  case True
  then have "119 - n mod 64 = (55 - n mod 64) + 64" by simp
  then have "(119 - n mod 64) mod 64 = (55 - n mod 64) mod 64" by (metis mod_add_self2)
  with True show ?thesis by simp
qed simp

lemma length_sha_padding: "64 dvd length msg + length (sha_padding msg)"
proof -
  let ?x = "length msg mod 64"
  have x: "?x < 64" by simp
  have l: "length (sha_padding msg) = 9 + (119 - ?x) mod 64"
    by (simp add: sha_padding_def sha_len_bytes_def)
  obtain q where q: "length msg = 64 * q + ?x" by (metis mult_div_mod_eq)
  have "length msg + length (sha_padding msg) = 64 * (q + (if ?x \<le> 55 then 1 else 2))"
  proof (cases "?x \<le> 55")
    case True
    then have "length (sha_padding msg) = 64 - ?x" unfolding l pad_count by simp
    with True q x show ?thesis by simp
  next
    case False
    then have "length (sha_padding msg) = 128 - ?x" using x unfolding l pad_count by simp
    with False q x show ?thesis by simp
  qed
  then show ?thesis by simp
qed

lemma sha_wf_init: "length (sha_buf c) = 64 \<Longrightarrow> sha_wf (sha_init c)"
  by (simp add: sha_wf_def sha_init_def)

lemma sha_rep_init: "sha_rep (sha_init c) = (sha_iv, [])"
  by (simp add: sha_rep_def sha_init_def)

lemma sha_total_init: "sha_total (sha_init c) = 0"
  by (simp add: sha_init_def)

lemma absorb_idem: "absorb v p = (v', r) \<Longrightarrow> absorb v' r = (v', r)"
  using absorb_pending [of v p] by (auto intro: absorb_small)

lemma sha_pad_rep:
  assumes "sha_wf c"
  shows "sha_wf (sha_pad c) \<and>
    sha_rep (sha_pad c) = (case sha_rep c of (v, r) \<Rightarrow>
      absorb v (r @ replicate ((120 - sha_used c) mod 64) 0))"
  using assms
proof (induction c rule: sha_pad.induct)
  case (1 c)
  from "1.prems" have u: "sha_used c < 64" by (simp add: sha_wf_def)
  show ?case
  proof (cases "sha_used c = 56")
    case True
    with "1.prems" show ?thesis
      by (subst (1 2) sha_pad.simps) (simp add: sha_rep_def sha_wf_def absorb_small)
  next
    case False
    let ?c1 = "sha_update c [0]"
    obtain v r where vr: "sha_rep c = (v, r)" by fastforce
    obtain v1 r1 where vr1: "absorb v (r @ [0]) = (v1, r1)" by fastforce
    have rep1: "sha_rep ?c1 = (v1, r1)"
      using sha_update_rep(2) [OF "1.prems", of "[0]"] vr vr1 by simp
    have n: "(120 - sha_used c) mod 64 = Suc ((120 - sha_used ?c1) mod 64)"
      using u False by (rule pad_left_step)
    have IH: "sha_wf (sha_pad ?c1) \<and>
        sha_rep (sha_pad ?c1) = absorb v1 (r1 @ replicate ((120 - sha_used ?c1) mod 64) 0)"
      using "1.IH" [OF _ sha_update_rep(1) [OF "1.prems"]] False u rep1 by simp
    have "absorb v (r @ replicate ((120 - sha_used c) mod 64) 0)
        = absorb v ((r @ [0]) @ replicate ((120 - sha_used ?c1) mod 64) 0)"
      by (simp add: n)
    also have "\<dots> = absorb v1 (r1 @ replicate ((120 - sha_used ?c1) mod 64) 0)"
      by (subst absorb_append) (simp only: vr1 Let_def prod.case)
    finally show ?thesis
      using IH vr False u by (subst (1 2) sha_pad.simps) simp
  qed
qed

lemma sha_final_spec:
  assumes wf: "sha_wf c" and rep: "sha_rep c = absorb sha_iv msg"
    and tot: "sha_total c = of_nat (length msg)"
  shows "snd (sha_final c) = sha256_ref msg"
    and "length (sha_buf (fst (sha_final c))) = 64"
proof -
  let ?c1 = "sha_update c [0x80]" and ?n = "(119 - length msg mod 64) mod 64"
  obtain v r where vr: "absorb sha_iv msg = (v, r)" by fastforce
  have used: "sha_used c = length msg mod 64"
    using sha_used_rep [OF wf] by (simp add: rep absorb_pending)
  have wf1: "sha_wf ?c1" using wf by (rule sha_update_rep(1))
  have rep1: "sha_rep ?c1 = absorb sha_iv (msg @ [0x80])"
    using sha_update_rep(2) [OF wf] absorb_append [of sha_iv msg "[0x80]"] by (simp add: rep)
  have "sha_used ?c1 = (if length msg mod 64 = 63 then 0 else length msg mod 64 + 1)"
    using sha_update_used [OF wf, of "[0x80]"] by (simp add: used mod_Suc)
  then have n: "(120 - sha_used ?c1) mod 64 = ?n" by (simp split: if_splits)
  let ?c2 = "sha_pad ?c1" and ?l = "sha_len_bytes (of_nat (length msg) * 8)"
  have wf2: "sha_wf ?c2" using sha_pad_rep [OF wf1] by simp
  have rep2: "sha_rep ?c2 = absorb sha_iv (msg @ 0x80 # replicate ?n 0)"
    using sha_pad_rep [OF wf1] absorb_append [of sha_iv "msg @ [0x80]" "replicate ?n 0"]
    by (simp add: rep1 n case_prod_beta)
  let ?c3 = "sha_update ?c2 ?l"
  have "sha_rep ?c3 = absorb sha_iv (msg @ sha_padding msg)"
    using sha_update_rep(2) [OF wf2, of ?l]
      absorb_append [of sha_iv "msg @ 0x80 # replicate ?n 0" ?l]
    by (simp add: rep2 case_prod_beta sha_padding_def)
  moreover have "length (msg @ sha_padding msg) = 64 * (length (msg @ sha_padding msg) div 64)"
    using length_sha_padding [of msg] by simp
  ultimately have "sha_h ?c3 = sha_blocks (length (msg @ sha_padding msg) div 64) sha_iv (msg @ sha_padding msg)"
    using absorb_blocks by (metis fst_conv sha_rep_def)
  then show "snd (sha_final c) = sha256_ref msg"
    by (simp add: sha_final_def sha256_ref_def Let_def tot)
  have "sha_wf ?c3" using wf2 by (rule sha_update_rep(1))
  then show "length (sha_buf (fst (sha_final c))) = 64"
    by (simp add: sha_final_def Let_def tot sha_wf_def)
qed

lemma length_sha_output [simp]: "length (sha_output v) = 32"
  by (cases v rule: sha_output.cases) simp

lemma sha256_eq_ref: "sha256 msg = sha256_ref msg"
proof -
  have wf: "sha_wf (sha_init sha_ctx0)" by (rule sha_wf_init) (simp add: sha_ctx0_def)
  have rep: "sha_rep (sha_init sha_ctx0) = (sha_iv, [])" by (rule sha_rep_init)
  have tot: "sha_total (sha_init sha_ctx0) = 0" by (simp add: sha_init_def)
  show ?thesis unfolding sha256_def
    using sha_update_rep [OF wf, of msg] rep tot by (intro sha_final_spec(1)) simp_all
qed

lemma length_sha256 [simp]: "length (sha256 msg) = 32"
  by (simp add: sha256_eq_ref sha256_ref_def Let_def)

subsection \<open>The interface: a streaming hash\<close>

text \<open>
  What the HMAC relies on: a context that stands for the bytes fed so far, whatever the pieces
  they came in, a finalisation that hashes exactly those bytes, and a finalised context that can
  be initialised again.
\<close>

locale streaming_hash =
  fixes ini :: "'c \<Rightarrow> 'c" and upd :: "'c \<Rightarrow> bytes \<Rightarrow> 'c" and fin :: "'c \<Rightarrow> 'c \<times> bytes"
    and hash :: "bytes \<Rightarrow> bytes" and fed :: "'c \<Rightarrow> bytes \<Rightarrow> bool" and usable :: "'c \<Rightarrow> bool"
  assumes fed_ini: "usable c \<Longrightarrow> fed (ini c) []"
    and fed_upd: "fed c m \<Longrightarrow> fed (upd c p) (m @ p)"
    and fin_hash: "fed c m \<Longrightarrow> snd (fin c) = hash m"
    and fin_usable: "fed c m \<Longrightarrow> usable (fst (fin c))"
begin

lemma fed_pieces:
  "fed c m \<Longrightarrow> fed (foldl (\<lambda>c p. if p \<noteq> [] then upd c p else c) c ps) (m @ concat ps)"
proof (induction ps arbitrary: c m)
  case (Cons p ps)
  from Cons.IH [OF fed_upd [OF Cons.prems, of p]] Cons.IH [OF Cons.prems] show ?case by simp
qed simp

lemma hash_once: "usable c \<Longrightarrow> snd (fin (upd (ini c) m)) = hash m"
  using fed_upd [OF fed_ini, of c m] fin_hash by simp

lemma hash_twice: "usable c \<Longrightarrow> snd (fin (upd (upd (ini c) m) m')) = hash (m @ m')"
  using fed_upd [OF fed_upd [OF fed_ini], of c m m'] fin_hash by simp

end

definition sha_fed :: "sha256_ctx \<Rightarrow> bytes \<Rightarrow> bool" where
  "sha_fed c m \<longleftrightarrow> sha_wf c \<and> sha_rep c = absorb sha_iv m \<and> sha_total c = of_nat (length m)"

interpretation sha: streaming_hash sha_init sha_update sha_final sha256_ref sha_fed
  "\<lambda>c. length (sha_buf c) = 64"
proof unfold_locales
  show "sha_fed (sha_init c) []" if "length (sha_buf c) = 64" for c
    using sha_wf_init [OF that] sha_rep_init [of c]
    by (simp add: sha_fed_def absorb_small sha_total_init)
  show "sha_fed (sha_update c p) (m @ p)" if "sha_fed c m" for c m p
    using that sha_update_rep [of c p] absorb_append [of sha_iv m p] by (simp add: sha_fed_def)
  show "snd (sha_final c) = sha256_ref m" and "length (sha_buf (fst (sha_final c))) = 64"
    if "sha_fed c m" for c m
    using that sha_final_spec [of c m] by (simp_all add: sha_fed_def)
qed

subsection \<open>HMAC\<close>

definition hmac_pieces :: "bytes \<Rightarrow> bytes list \<Rightarrow> bytes" where
  "hmac_pieces key pieces =
     (let k0 = replicate 64 0;
          k = (if length key > 64 then memcpy_at k0 0 (sha256 key) else memcpy_at k0 0 key);
          ipad = map (\<lambda>b. b XOR 0x36) k;
          opad = map (\<lambda>b. b XOR 0x5c) k;
          c1 = sha_update (sha_init sha_ctx0) ipad;
          c2 = foldl (\<lambda>c p. if p \<noteq> [] then sha_update c p else c) c1 pieces;
          (c3, inner) = sha_final c2;
          c4 = sha_init c3;
          c5 = sha_update c4 opad;
          c6 = sha_update c5 inner
      in snd (sha_final c6))"

definition hmac_sha256 :: "bytes \<Rightarrow> bytes \<Rightarrow> bytes" where
  "hmac_sha256 key msg = hmac_pieces key [msg]"

text \<open>RFC 2104: the key, hashed first when longer than a block, is padded with zeros to a block.\<close>

definition hmac_key_block :: "bytes \<Rightarrow> bytes" where
  "hmac_key_block key =
     (let k = if length key \<le> 64 then key else sha256_ref key in k @ replicate (64 - length k) 0)"

definition hmac_ref :: "bytes \<Rightarrow> bytes \<Rightarrow> bytes" where
  "hmac_ref key msg =
     (let k = hmac_key_block key in
      sha256_ref (map (\<lambda>b. b XOR 0x5c) k @ sha256_ref (map (\<lambda>b. b XOR 0x36) k @ msg)))"

lemma length_sha256_ref [simp]: "length (sha256_ref m) = 32"
  by (simp add: sha256_eq_ref [symmetric])

lemma hmac_key_pad:
  "(if length key > 64 then memcpy_at (replicate 64 0) 0 (sha256 key)
    else memcpy_at (replicate 64 0) 0 key) = hmac_key_block key"
  by (simp add: hmac_key_block_def memcpy_at_def sha256_eq_ref)

lemma hmac_pieces_eq_ref: "hmac_pieces key ps = hmac_ref key (concat ps)"
proof -
  let ?i = "map (\<lambda>b. b XOR 0x36) (hmac_key_block key)"
  let ?c2 = "foldl (\<lambda>c p. if p \<noteq> [] then sha_update c p else c) (sha_update (sha_init sha_ctx0) ?i) ps"
  have "sha_fed (sha_update (sha_init sha_ctx0) ?i) ([] @ ?i)"
    by (intro sha.fed_upd sha.fed_ini) (simp add: sha_ctx0_def)
  then have fed: "sha_fed ?c2 (?i @ concat ps)" using sha.fed_pieces by simp
  show ?thesis
    unfolding hmac_pieces_def hmac_key_pad hmac_ref_def Let_def case_prod_beta
    by (simp only: sha.hash_twice [OF sha.fin_usable [OF fed]] sha.fin_hash [OF fed])
qed

lemma hmac_concat: "concat ps = concat qs \<Longrightarrow> hmac_pieces key ps = hmac_pieces key qs"
  by (simp add: hmac_pieces_eq_ref)

lemma length_hmac_ref [simp]: "length (hmac_ref key msg) = 32"
  by (simp add: hmac_ref_def Let_def)

lemma length_hmac_pieces [simp]: "length (hmac_pieces key ps) = 32"
  by (simp add: hmac_pieces_eq_ref hmac_ref_def Let_def)

subsection \<open>Properties\<close>

text \<open>C5. The streaming SHA-256, which buffers partial blocks and pads byte by byte, computes the hash
  of the message padded as a whole and compressed block by block.\<close>

theorem sha256_streaming_correct: "sha256 msg = sha256_ref msg"
  by (rule sha256_eq_ref)

text \<open>The HMAC over a list of pieces is the HMAC of RFC 2104 over their concatenation, for keys of
  any length: empty pieces are skipped, long keys hashed first, and the context is reused.\<close>

theorem hmac_pieces_correct: "hmac_pieces key ps = hmac_ref key (concat ps)"
  by (rule hmac_pieces_eq_ref)

end
