(* ===== verification/Chacha20.thy ===== *)
theory Chacha20
  imports Sha256
begin

text \<open>
  ChaCha20 as \<open>mh_net_proto/src/net_crypto.cpp\<close> computes it (\<open>qr\<close>, \<open>chacha_block\<close>,
  \<open>chacha20_xor\<close>): the record sequence is the nonce, the block counter is a wrapping 32-bit
  integer that starts at 0.  The loop is proved to XOR the message with one key stream that only
  depends on key and sequence, so that applying it twice gives the message back.
\<close>

definition KEY_LEN :: nat where "KEY_LEN = 32"

fun qr :: "u32 \<Rightarrow> u32 \<Rightarrow> u32 \<Rightarrow> u32 \<Rightarrow> u32 \<times> u32 \<times> u32 \<times> u32" where
  "qr a b c d =
     (let a = a + b; d = rol32 (d XOR a) 16;
          c = c + d; b = rol32 (b XOR c) 12;
          a = a + b; d = rol32 (d XOR a) 8;
          c = c + d; b = rol32 (b XOR c) 7
      in (a, b, c, d))"

text \<open>A quarter round on four references into the state array.\<close>

definition qr_at :: "nat \<Rightarrow> nat \<Rightarrow> nat \<Rightarrow> nat \<Rightarrow> u32 list \<Rightarrow> u32 list" where
  "qr_at i j k l x =
     (let (a, b, c, d) = qr (x ! i) (x ! j) (x ! k) (x ! l)
      in x[i := a, j := b, k := c, l := d])"

definition double_round :: "u32 list \<Rightarrow> u32 list" where
  "double_round x =
     (let x = qr_at 0 4 8 12 x;
          x = qr_at 1 5 9 13 x;
          x = qr_at 2 6 10 14 x;
          x = qr_at 3 7 11 15 x;
          x = qr_at 0 5 10 15 x;
          x = qr_at 1 6 11 12 x;
          x = qr_at 2 7 8 13 x
      in qr_at 3 4 9 14 x)"

definition chacha_state :: "bytes \<Rightarrow> u32 \<Rightarrow> bytes \<Rightarrow> u32 list" where
  "chacha_state key counter nonce =
     [0x61707865, 0x3320646e, 0x79622d32, 0x6b206574]
     @ map (\<lambda>i. get_u32 (drop (i * 4) key)) [0..<8]
     @ [counter]
     @ map (\<lambda>i. get_u32 (drop (i * 4) nonce)) [0..<3]"

definition chacha_block :: "bytes \<Rightarrow> u32 \<Rightarrow> bytes \<Rightarrow> bytes" where
  "chacha_block key counter nonce =
     (let s = chacha_state key counter nonce;
          x = (double_round ^^ 10) s
      in concat (map (\<lambda>i. put_u32 (x ! i + s ! i)) [0..<16]))"

definition chacha_nonce :: "u64 \<Rightarrow> bytes" where
  "chacha_nonce seq = replicate 4 0 @ map (\<lambda>i. ucast (drop_bit (i * 8) seq)) [0..<8]"

text \<open>
  The loop of \<open>chacha20_xor\<close>: \<open>inp\<close> is \<open>in + done\<close>, the result what is written from \<open>out + done\<close> on.
\<close>

function chacha_loop :: "bytes \<Rightarrow> bytes \<Rightarrow> u32 \<Rightarrow> bytes \<Rightarrow> bytes" where
  "chacha_loop key nonce counter inp =
     (if inp = [] then []
      else let ks = chacha_block key counter nonce;
               take_n = min (length inp) 64
           in map (\<lambda>i. inp ! i XOR ks ! i) [0..<take_n]
              @ chacha_loop key nonce (counter + 1) (drop take_n inp))"
  by pat_completeness auto
termination
  by (relation "measure (\<lambda>(key, nonce, counter, inp). length inp)") (auto simp: min_def)

declare chacha_loop.simps [simp del]

definition chacha20_xor :: "bytes \<Rightarrow> u64 \<Rightarrow> bytes \<Rightarrow> bytes" where
  "chacha20_xor key seq inp = chacha_loop key (chacha_nonce seq) 0 inp"

subsection \<open>The key stream\<close>

text \<open>Byte \<open>i\<close> of the stream is byte \<open>i mod 64\<close> of block \<open>i div 64\<close>, the block number taken modulo \<open>2 ^ 32\<close>.\<close>

definition keystream :: "bytes \<Rightarrow> u64 \<Rightarrow> nat \<Rightarrow> u8" where
  "keystream key seq i =
     chacha_block key (of_nat (i div 64)) (chacha_nonce seq) ! (i mod 64)"

lemma div64: "(64 + x) div 64 = Suc (x div 64)" for x :: nat
  by simp

lemma chacha_loop_stream:
  "chacha_loop key nonce (of_nat n) inp =
     map (\<lambda>i. inp ! i XOR chacha_block key (of_nat (n + i div 64)) nonce ! (i mod 64)) [0..<length inp]"
proof (induction "length inp" arbitrary: n inp rule: less_induct)
  case less
  show ?case
  proof (cases "inp = []")
    case True
    then show ?thesis by (simp add: chacha_loop.simps)
  next
    case False
    let ?m = "min (length inp) 64"
    let ?f = "\<lambda>i. inp ! i XOR chacha_block key (of_nat (n + i div 64)) nonce ! (i mod 64)"
    from False have m: "?m \<le> length inp" "0 < ?m" by auto
    have "chacha_loop key nonce (of_nat (n + 1)) (drop ?m inp) = map ?f [?m..<length inp]"
    proof (cases "length inp \<le> 64")
      case True
      then show ?thesis by (simp add: chacha_loop.simps)
    next
      case long: False
      then have "chacha_loop key nonce (of_nat (n + 1)) (drop ?m inp) =
          map (\<lambda>i. drop 64 inp ! i XOR
            chacha_block key (of_nat (n + 1 + i div 64)) nonce ! (i mod 64)) [0..<length inp - 64]"
        using less [of "drop ?m inp" "n + 1"] by simp
      also have "\<dots> = map (\<lambda>i. ?f (i + 64)) [0..<length inp - 64]"
        using long by (intro map_cong refl) (simp add: add.commute [of _ 64] div64)
      also have "\<dots> = map ?f (map (\<lambda>i. i + 64) [0..<length inp - 64])" by simp
      also have "map (\<lambda>i. i + 64) [0..<length inp - 64] = [64..<length inp]"
        using long map_add_upt [of 64 "length inp - 64"] by simp
      finally show ?thesis using long by simp
    qed
    moreover have "map (\<lambda>i. inp ! i XOR chacha_block key (of_nat n) nonce ! i) [0..<?m] = map ?f [0..<?m]"
      by (intro map_cong refl) simp
    moreover have "[0..<length inp] = [0..<?m] @ [?m..<length inp]"
      using m upt_add_eq_append [of 0 ?m "length inp - ?m"] by simp
    ultimately show ?thesis
      using False by (subst chacha_loop.simps) (simp add: Let_def add.commute)
  qed
qed

lemma chacha20_xor_keystream:
  "chacha20_xor key seq inp = map (\<lambda>i. inp ! i XOR keystream key seq i) [0..<length inp]"
  using chacha_loop_stream [of key "chacha_nonce seq" 0 inp]
  by (simp add: chacha20_xor_def keystream_def)

lemma length_chacha20_xor [simp]: "length (chacha20_xor key seq inp) = length inp"
  by (simp add: chacha20_xor_keystream)

lemma chacha20_xor_involution [simp]: "chacha20_xor key seq (chacha20_xor key seq inp) = inp"
  by (rule nth_equalityI) (simp_all add: chacha20_xor_keystream xor.assoc)

subsection \<open>The interface: a length-preserving cipher and a tag\<close>

text \<open>
  What the record layer and the packet layer rely on: decryption undoes encryption without
  changing the length, and the tag has at least the width the packet carries.
\<close>

locale stream_cipher =
  fixes crypt :: "'k \<Rightarrow> u64 \<Rightarrow> bytes \<Rightarrow> bytes"
  assumes length_crypt: "length (crypt k s m) = length m"
    and crypt_crypt: "crypt k s (crypt k s m) = m"
begin

lemma crypt_inj: "crypt k s m = crypt k s m' \<Longrightarrow> m = m'"
  by (metis crypt_crypt)

lemma crypt_nil: "crypt k s [] = []"
  using length_crypt [of k s "[]"] by simp

end

interpretation chacha: stream_cipher chacha20_xor
  by unfold_locales simp_all

subsection \<open>Properties\<close>

text \<open>The cipher loop XORs the input with one key stream, fixed by key and sequence, and applying
  it twice gives the input back.\<close>

theorem chacha20_is_stream_cipher:
  "chacha20_xor key seq inp = map (\<lambda>i. inp ! i XOR keystream key seq i) [0..<length inp] \<and>
   chacha20_xor key seq (chacha20_xor key seq inp) = inp"
  by (rule conjI [OF chacha20_xor_keystream chacha20_xor_involution])

end
