(* ===== verification/Text_Bytes.thy ===== *)
theory Text_Bytes
  imports Mh_Prelude
begin

text \<open>
  Text as bytes: literals of the sources, characters of a C string, hexadecimal digits and what
  \<open>snprintf\<close> makes of a number.  The hexadecimal reader is the one of \<open>key_from_hex\<close> in
  \<open>mh_net_proto/src/net_crypto.cpp\<close>.
\<close>

definition ascii :: "string \<Rightarrow> bytes" where "ascii s = map of_char s"

text \<open>A C string is read up to its NUL: one past the text the reader finds \<open>0\<close>.\<close>

definition char_at :: "bytes \<Rightarrow> nat \<Rightarrow> u8" where
  "char_at s i = (if i < length s then s ! i else 0)"

subsection \<open>Hexadecimal digits\<close>

definition hex_digits :: bytes where "hex_digits = ascii ''0123456789abcdef''"

definition hex_nib :: "u8 \<Rightarrow> nat option" where
  "hex_nib ch =
     (if 0x30 \<le> ch \<and> ch \<le> 0x39 then Some (unat ch - 0x30)
      else if 0x61 \<le> ch \<and> ch \<le> 0x66 then Some (unat ch - 0x61 + 10)
      else if 0x41 \<le> ch \<and> ch \<le> 0x46 then Some (unat ch - 0x41 + 10)
      else None)"

text \<open>The case folding of the hexadecimal letters.\<close>

definition lower :: "u8 \<Rightarrow> u8" where
  "lower c = (if 0x41 \<le> c \<and> c \<le> 0x46 then c + 0x20 else c)"

lemma nib_or: "b < 16 \<Longrightarrow> push_bit 4 a OR b = 16 * a + b" for a b :: nat
proof -
  assume "b < 16"
  then have b: "b = take_bit 4 b" by (simp add: take_bit_eq_mod)
  have "push_bit 4 a AND take_bit 4 b = 0" by (rule bit_eqI) (auto simp: bit_simps)
  with b have "push_bit 4 a OR b = push_bit 4 a + b" using disjunctive_add_eq_or by metis
  then show ?thesis by (simp add: push_bit_eq_mult)
qed

lemma hex_digits_nth:
  "x < 16 \<Longrightarrow> hex_digits ! x = of_nat (if x < 10 then 48 + x else 87 + x)"
proof -
  assume "x < 16"
  then have "x \<in> set [0..<16]" by simp
  moreover have "\<forall>x\<in>set [0..<16]. hex_digits ! x = of_nat (if x < 10 then 48 + x else 87 + x)"
    by (simp add: hex_digits_def ascii_def upt_rec)
  ultimately show ?thesis by blast
qed

lemma unat_hex_digits: "x < 16 \<Longrightarrow> unat (hex_digits ! x) = (if x < 10 then 48 + x else 87 + x)"
  by (simp add: hex_digits_nth unat_of_nat)

lemma unat_lower: "unat (lower c) = (if 65 \<le> unat c \<and> unat c \<le> 70 then unat c + 32 else unat c)"
  by (auto simp: lower_def word_le_nat_alt unat_word_ariths)

lemma hex_nib_iff: "hex_nib c = Some x \<longleftrightarrow> x < 16 \<and> lower c = hex_digits ! x"
proof (cases "x < 16")
  case True
  then have "lower c = hex_digits ! x \<longleftrightarrow>
      (if 65 \<le> unat c \<and> unat c \<le> 70 then unat c + 32 else unat c) = (if x < 10 then 48 + x else 87 + x)"
    by (simp only: word_unat_eq_iff unat_lower unat_hex_digits)
  with True show ?thesis by (auto simp: hex_nib_def word_le_nat_alt split: if_splits)
next
  case False
  then show ?thesis by (auto simp: hex_nib_def word_le_nat_alt split: if_splits)
qed

lemma unat_nibble_hi: "unat (drop_bit 4 v) = unat v div 16" for v :: u8
  by (simp add: unsigned_drop_bit_eq drop_bit_eq_div unat_div)

lemma unat_nibble_lo: "unat (v AND 0xf) = unat v mod 16" for v :: u8
  using take_bit_eq_mask [of 4 "unat v"]
  by (simp add: unsigned_and_eq take_bit_eq_mod mask_eq_exp_minus_1)

lemma nibble_lt: "unat (drop_bit 4 v) < 16" "unat (v AND 0xf) < 16" for v :: u8
  using unat_u8 [of v] by (simp_all add: unat_nibble_hi unat_nibble_lo less_mult_imp_div_less)

lemma hex_nib_lt: "hex_nib c = Some x \<Longrightarrow> x < 16"
  by (simp add: hex_nib_iff)

lemma div_mod_16: "b < 16 \<Longrightarrow> (16 * a + b = m) = (a = m div 16 \<and> b = m mod 16)" for m :: nat
  by (metis add.commute div_mult_self2 mod_mult_self2 mod_less div_less add_0 mult_div_mod_eq
      zero_neq_numeral)

lemma byte_nibbles:
  "a < 16 \<Longrightarrow> b < 16 \<Longrightarrow> (of_nat (push_bit 4 a OR b) = v) = (a = unat (drop_bit 4 v) \<and> b = unat (v AND 0xf))"
  for v :: u8
proof -
  assume ab: "a < 16" "b < 16"
  then have "16 * a + b < 256" by simp
  then have "unat (of_nat (16 * a + b) :: u8) = 16 * a + b"
    by (simp only: unat_of_nat) simp
  then have "(of_nat (16 * a + b) = v) = (16 * a + b = unat v)"
    by (simp only: word_unat_eq_iff)
  moreover have "(16 * a + b = unat v) = (a = unat v div 16 \<and> b = unat v mod 16)"
    by (rule div_mod_16) (use ab in simp)
  ultimately show ?thesis using ab by (simp only: nib_or unat_nibble_hi unat_nibble_lo)
qed

subsection \<open>Printing\<close>

text \<open>\<open>snprintf\<close> into a buffer that is as long as its capacity, given the text it would print; and what
  \<open>%u\<close> and \<open>%08X\<close> print.\<close>

definition snprintf :: "bytes \<Rightarrow> bytes \<Rightarrow> bytes" where
  "snprintf out txt = (if length out = 0 then out else memcpy_at out 0 (take (length out - 1) txt @ [0]))"

fun dec_text :: "nat \<Rightarrow> bytes" where
  "dec_text n = (if n < 10 then [of_nat (48 + n)] else dec_text (n div 10) @ [of_nat (48 + n mod 10)])"

declare dec_text.simps [simp del]

definition upper_hex_digits :: bytes where "upper_hex_digits = ascii ''0123456789ABCDEF''"

definition hex8 :: "u32 \<Rightarrow> bytes" where
  "hex8 v = map (\<lambda>i. upper_hex_digits ! unat (drop_bit (28 - 4 * i) v AND 0xf)) [0..<8]"

lemma length_snprintf [simp]: "length (snprintf out txt) = length out"
  by (cases out) (auto simp: snprintf_def memcpy_at_def min_def)

lemma cstr_snprintf: "0 < length out \<Longrightarrow> 0 \<notin> set txt \<Longrightarrow> cstr (snprintf out txt) = take (length out - 1) txt"
  by (auto simp: snprintf_def intro!: cstr_memcpy_nul dest: in_set_takeD)

lemma length_hex8 [simp]: "length (hex8 v) = 8"
  by (simp add: hex8_def)

lemma length_dec_text: "n < 10 ^ k \<Longrightarrow> 0 < k \<Longrightarrow> length (dec_text n) \<le> k"
proof (induction n arbitrary: k rule: dec_text.induct)
  case (1 n)
  show ?case
  proof (cases "n < 10")
    case True
    with "1.prems" show ?thesis by (simp add: dec_text.simps)
  next
    case False
    with "1.prems" obtain j where k: "k = Suc j" by (cases k) auto
    with False "1.prems" have "0 < j" by (cases j) auto
    moreover have "n div 10 < 10 ^ j" using "1.prems" k by (simp add: less_mult_imp_div_less)
    ultimately show ?thesis using "1.IH" [of j] False k by (simp add: dec_text.simps)
  qed
qed

lemma dec_text_no_nul [simp]: "0 \<notin> set (dec_text n)"
proof (induction n rule: dec_text.induct)
  case (1 n)
  have "(of_nat (48 + m) :: u8) \<noteq> 0" if "m < 10" for m
  proof
    assume "(of_nat (48 + m) :: u8) = 0"
    then have "unat (of_nat (48 + m) :: u8) = 0" by simp
    moreover have "unat (of_nat (48 + m) :: u8) = 48 + m" using that by (intro unat_of_nat_u8) simp
    ultimately show False by simp
  qed
  then show ?case using 1 by (subst dec_text.simps) auto
qed

end
