(* ===== verification/Handshake.thy ===== *)
theory Handshake
  imports Chacha20 Text_Bytes
begin

text \<open>
  The rest of \<open>mh_net_proto/src/net_crypto.cpp\<close>: constant-time comparison, the key derivation
  with its six labels, the three handshake messages, the record layer (encrypt then MAC) and the
  textual form of a key.  An output parameter that a failing call may leave alone or half-written is
  passed in and returned.
\<close>

definition NONCE_LEN :: nat where "NONCE_LEN = 16"
definition MAC_LEN :: nat where "MAC_LEN = 16"
definition HS_MAGIC :: u32 where "HS_MAGIC = 0x314B484D"
definition HS_VERSION :: u16 where "HS_VERSION = 1"
definition REC_LEN_SIZE :: nat where "REC_LEN_SIZE = 4"

definition ct_equal :: "bytes \<Rightarrow> bytes \<Rightarrow> nat \<Rightarrow> bool" where
  "ct_equal a b len = (foldl (\<lambda>diff i. diff OR (a ! i XOR b ! i)) 0 [0..<len] = 0)"

lemma xor_eq_0: "(a XOR b = 0) = (a = b)" for a b :: "'a::len word"
  by (metis xor.assoc xor.right_neutral xor_self_eq)

lemma or_eq_0: "(a OR b = 0) = (a = 0 \<and> b = 0)" for a b :: "'a::len word"
  by (rule or_eq_0_iff)

lemma ct_equal_nth: "ct_equal a b len = (\<forall>i < len. a ! i = b ! i)"
proof -
  have "foldl (\<lambda>diff i. diff OR (a ! i XOR b ! i)) (0 :: u8) [0..<n] = 0 \<longleftrightarrow> (\<forall>i < n. a ! i = b ! i)" for n
    by (induction n) (auto simp: or_eq_0 xor_eq_0 less_Suc_eq)
  then show ?thesis by (simp add: ct_equal_def)
qed

lemma ct_equal_take:
  "len \<le> length a \<Longrightarrow> len \<le> length b \<Longrightarrow> ct_equal a b len = (take len a = take len b)"
  by (auto simp: ct_equal_nth list_eq_iff_nth_eq)

subsection \<open>Labels and key derivation\<close>

definition LBL_SERVER :: bytes where "LBL_SERVER = ascii ''mh-proof-server''"
definition LBL_CLIENT :: bytes where "LBL_CLIENT = ascii ''mh-proof-client''"
definition LBL_ENC_C2S :: bytes where "LBL_ENC_C2S = ascii ''mh-enc-c2s''"
definition LBL_ENC_S2C :: bytes where "LBL_ENC_S2C = ascii ''mh-enc-s2c''"
definition LBL_MAC_C2S :: bytes where "LBL_MAC_C2S = ascii ''mh-mac-c2s''"
definition LBL_MAC_S2C :: bytes where "LBL_MAC_S2C = ascii ''mh-mac-s2c''"

definition kdf :: "bytes \<Rightarrow> bytes \<Rightarrow> bytes \<Rightarrow> bytes \<Rightarrow> bytes" where
  "kdf psk label cn sn = hmac_pieces psk [label, cn, sn]"

lemmas labels = LBL_SERVER_def LBL_CLIENT_def LBL_ENC_C2S_def LBL_ENC_S2C_def LBL_MAC_C2S_def
  LBL_MAC_S2C_def ascii_def

definition kdf_labels :: "bytes list" where
  "kdf_labels = [LBL_SERVER, LBL_CLIENT, LBL_ENC_C2S, LBL_ENC_S2C, LBL_MAC_C2S, LBL_MAC_S2C]"

lemma kdf_labels_distinct: "distinct kdf_labels"
  by (simp add: kdf_labels_def labels)

lemma kdf_label_inj:
  assumes "l \<in> set kdf_labels" "l' \<in> set kdf_labels"
    and "length cn = NONCE_LEN" "length sn = NONCE_LEN" "length cn' = NONCE_LEN" "length sn' = NONCE_LEN"
    and eq: "l @ cn @ sn = l' @ cn' @ sn'"
  shows "l = l' \<and> cn = cn' \<and> sn = sn'"
proof -
  have "length l = length l'"
    using arg_cong [OF eq, of length] assms by simp
  with eq assms show ?thesis by simp
qed

lemma length_kdf [simp]: "length (kdf psk l cn sn) = 32"
  by (simp add: kdf_def)

subsection \<open>The handshake messages\<close>

definition hs_build_hello :: "bytes \<Rightarrow> bytes" where
  "hs_build_hello client_nonce =
     put_u32 HS_MAGIC @ [ucast HS_VERSION, ucast (drop_bit 8 HS_VERSION), 0, 0] @ client_nonce"

definition hs_parse_hello :: "bytes \<Rightarrow> bytes \<Rightarrow> u16 \<Rightarrow> bool \<times> bytes \<times> u16" where
  "hs_parse_hello inp client_nonce version =
     (if get_u32 inp \<noteq> HS_MAGIC then (False, client_nonce, version)
      else let version = get_u16 (drop 4 inp) in
           if version \<noteq> HS_VERSION then (False, client_nonce, version)
           else (True, take NONCE_LEN (drop 8 inp), version))"

definition hs_build_challenge :: "bytes \<Rightarrow> bytes \<Rightarrow> bytes \<Rightarrow> bytes" where
  "hs_build_challenge psk client_nonce server_nonce =
     put_u32 HS_MAGIC @ [ucast HS_VERSION, ucast (drop_bit 8 HS_VERSION), 0, 0] @ server_nonce
     @ kdf psk LBL_SERVER client_nonce server_nonce"

definition hs_check_challenge ::
    "bytes \<Rightarrow> bytes \<Rightarrow> bytes \<Rightarrow> bytes \<Rightarrow> u16 \<Rightarrow> bool \<times> bytes \<times> u16" where
  "hs_check_challenge psk client_nonce inp server_nonce version =
     (if get_u32 inp \<noteq> HS_MAGIC then (False, server_nonce, version)
      else let version = get_u16 (drop 4 inp) in
           if version \<noteq> HS_VERSION then (False, server_nonce, version)
           else let server_nonce = take NONCE_LEN (drop 8 inp);
                    expect = kdf psk LBL_SERVER client_nonce server_nonce
                in (ct_equal expect (drop 24 inp) SHA256_LEN, server_nonce, version))"

definition hs_build_response :: "bytes \<Rightarrow> bytes \<Rightarrow> bytes \<Rightarrow> bytes" where
  "hs_build_response psk client_nonce server_nonce = kdf psk LBL_CLIENT client_nonce server_nonce"

definition hs_check_response :: "bytes \<Rightarrow> bytes \<Rightarrow> bytes \<Rightarrow> bytes \<Rightarrow> bool" where
  "hs_check_response psk client_nonce server_nonce inp =
     ct_equal (kdf psk LBL_CLIENT client_nonce server_nonce) inp SHA256_LEN"

record session_keys =
  enc_c2s :: bytes
  enc_s2c :: bytes
  mac_c2s :: bytes
  mac_s2c :: bytes

definition hs_derive_keys :: "bytes \<Rightarrow> bytes \<Rightarrow> bytes \<Rightarrow> session_keys" where
  "hs_derive_keys psk client_nonce server_nonce =
     \<lparr> enc_c2s = kdf psk LBL_ENC_C2S client_nonce server_nonce,
       enc_s2c = kdf psk LBL_ENC_S2C client_nonce server_nonce,
       mac_c2s = kdf psk LBL_MAC_C2S client_nonce server_nonce,
       mac_s2c = kdf psk LBL_MAC_S2C client_nonce server_nonce \<rparr>"

lemma get_version:
  "get_u16 (ucast HS_VERSION # ucast (drop_bit 8 HS_VERSION) # r) = HS_VERSION"
  using le16.dec_enc [of HS_VERSION r] by (simp add: put_u16_def)

lemma hs_parse_build_hello:
  "length cn = NONCE_LEN \<Longrightarrow> hs_parse_hello (hs_build_hello cn) n0 v0 = (True, cn, HS_VERSION)"
  by (simp add: hs_parse_hello_def hs_build_hello_def get_version Let_def)

lemma hs_check_build_challenge:
  "length sn = NONCE_LEN \<Longrightarrow>
    hs_check_challenge psk cn (hs_build_challenge psk' cn' sn) n0 v0 =
      (kdf psk LBL_SERVER cn sn = kdf psk' LBL_SERVER cn' sn, sn, HS_VERSION)"
  by (simp add: hs_check_challenge_def hs_build_challenge_def get_version Let_def NONCE_LEN_def
      SHA256_LEN_def ct_equal_take)

lemma hs_check_challenge_iff:
  assumes "56 \<le> length inp"
  shows "fst (hs_check_challenge psk cn inp n0 v0) \<longleftrightarrow>
    get_u32 inp = HS_MAGIC \<and> get_u16 (drop 4 inp) = HS_VERSION \<and>
    take SHA256_LEN (drop 24 inp) = hmac_ref psk (LBL_SERVER @ cn @ take NONCE_LEN (drop 8 inp))"
  using assms
  by (auto simp: hs_check_challenge_def Let_def ct_equal_take SHA256_LEN_def kdf_def hmac_pieces_eq_ref
      hmac_ref_def)

lemma hs_check_response_iff:
  assumes "32 \<le> length inp"
  shows "hs_check_response psk cn sn inp \<longleftrightarrow> take SHA256_LEN inp = hmac_ref psk (LBL_CLIENT @ cn @ sn)"
  using assms
  by (auto simp: hs_check_response_def ct_equal_take SHA256_LEN_def kdf_def hmac_pieces_eq_ref
      hmac_ref_def Let_def)

subsection \<open>The record layer\<close>

definition rec_mac :: "bytes \<Rightarrow> u64 \<Rightarrow> bytes \<Rightarrow> u32 \<Rightarrow> bytes" where
  "rec_mac mac_key seq ct len =
     (let hdr = map (\<lambda>i. ucast (drop_bit (i * 8) seq)) [0..<8] @ put_u32 len
      in hmac_pieces mac_key [hdr, ct])"

text \<open>\<open>rec_seal\<close> returns the bytes it writes at \<open>out\<close>; their number is its result.\<close>

definition rec_seal :: "bytes \<Rightarrow> bytes \<Rightarrow> u64 \<Rightarrow> bytes \<Rightarrow> bytes" where
  "rec_seal enc_key mac_key seq plain =
     (let len = of_nat (length plain) :: u32;
          ct = chacha20_xor enc_key seq plain;
          full = rec_mac mac_key seq ct len
      in put_u32 len @ ct @ take MAC_LEN full)"

text \<open>\<open>io\<close> holds the \<open>len\<close> cipher bytes and is decrypted in place on success.\<close>

definition rec_open :: "bytes \<Rightarrow> bytes \<Rightarrow> u64 \<Rightarrow> bytes \<Rightarrow> bytes \<Rightarrow> bool \<times> bytes" where
  "rec_open enc_key mac_key seq io mac =
     (let full = rec_mac mac_key seq io (of_nat (length io)) in
      if \<not> ct_equal full mac MAC_LEN then (False, io)
      else (True, chacha20_xor enc_key seq io))"

lemma rec_mac_ref: "rec_mac k seq ct len = hmac_ref k (put_u64 seq @ put_u32 len @ ct)"
  by (simp add: rec_mac_def hmac_pieces_eq_ref put_u64_def)

lemma length_rec_mac [simp]: "length (rec_mac k seq ct len) = 32"
  by (simp add: rec_mac_ref hmac_ref_def Let_def)

lemma length_rec_seal: "length (rec_seal ek mk seq plain) = REC_LEN_SIZE + length plain + MAC_LEN"
  by (simp add: rec_seal_def Let_def REC_LEN_SIZE_def MAC_LEN_def)

lemma rec_open_accepts:
  assumes "MAC_LEN \<le> length mac"
  shows "rec_open ek mk seq io mac =
    (if take MAC_LEN mac = take MAC_LEN (hmac_ref mk (put_u64 seq @ put_u32 (of_nat (length io)) @ io))
     then (True, chacha20_xor ek seq io) else (False, io))"
proof -
  have "ct_equal (rec_mac mk seq io (of_nat (length io))) mac MAC_LEN \<longleftrightarrow>
      take MAC_LEN mac = take MAC_LEN (rec_mac mk seq io (of_nat (length io)))"
    using assms by (subst ct_equal_take) (auto simp: MAC_LEN_def)
  then show ?thesis by (simp add: rec_open_def Let_def rec_mac_ref)
qed

lemma rec_seal_open:
  "rec_open ek mk seq (take (length plain) (drop REC_LEN_SIZE (rec_seal ek mk seq plain)))
     (drop (REC_LEN_SIZE + length plain) (rec_seal ek mk seq plain)) = (True, plain)"
  by (simp add: rec_open_def rec_seal_def Let_def REC_LEN_SIZE_def MAC_LEN_def ct_equal_take)

text \<open>The authenticated bytes determine sequence, length and cipher text.\<close>

lemma rec_mac_input_inj:
  "put_u64 s @ put_u32 n @ ct = put_u64 s' @ put_u32 n' @ ct' \<Longrightarrow> s = s' \<and> n = n' \<and> ct = ct'"
  using le64.enc_prefix_free le32.enc_prefix_free by blast

subsection \<open>Keys as text\<close>

definition KEY_HEX_LEN :: nat where "KEY_HEX_LEN = KEY_LEN * 2"

definition key_to_hex :: "bytes \<Rightarrow> bytes" where
  "key_to_hex key =
     concat (map (\<lambda>i. [hex_digits ! unat (drop_bit 4 (key ! i)), hex_digits ! unat (key ! i AND 0xf)])
       [0..<KEY_LEN]) @ [0]"

definition is_ws :: "u8 \<Rightarrow> bool" where
  "is_ws c \<longleftrightarrow> c = 0x20 \<or> c = 0x09 \<or> c = 0x0d \<or> c = 0x0a"

fun hex_bytes :: "bytes \<Rightarrow> nat list \<Rightarrow> bytes option" where
  "hex_bytes hex [] = Some []"
| "hex_bytes hex (i # is) =
     (case hex_nib (char_at hex (i * 2)) of None \<Rightarrow> None | Some a \<Rightarrow>
      (case hex_nib (char_at hex (i * 2 + 1)) of None \<Rightarrow> None | Some b \<Rightarrow>
      (case hex_bytes hex is of None \<Rightarrow> None | Some v \<Rightarrow>
        Some (of_nat (push_bit 4 a OR b) # v))))"

text \<open>\<open>None\<close> is the null pointer; the result is the key, when \<open>out\<close> is written.\<close>

definition key_from_hex :: "bytes option \<Rightarrow> bytes option" where
  "key_from_hex hex =
     (case hex of None \<Rightarrow> None
      | Some s \<Rightarrow>
          (let h = dropWhile is_ws (cstr s) in
           case hex_bytes h [0..<KEY_LEN] of None \<Rightarrow> None
           | Some v \<Rightarrow> if list_all is_ws (drop KEY_HEX_LEN h) then Some v else None))"

text \<open>
  What the reader accepts: 64 hexadecimal digits of either case between white space.
\<close>

lemma hex_bytes_iff:
  "hex_bytes h js = Some v \<longleftrightarrow> length v = length js \<and>
    (\<forall>j < length js. lower (char_at h (2 * js ! j)) = hex_digits ! unat (drop_bit 4 (v ! j)) \<and>
                     lower (char_at h (2 * js ! j + 1)) = hex_digits ! unat (v ! j AND 0xf))"
proof (induction js arbitrary: v)
  case Nil
  then show ?case by auto
next
  case (Cons i js)
  show ?case
  proof (cases v)
    case Nil
    then show ?thesis by (auto split: option.splits)
  next
    case (Cons w ws)
    have "hex_bytes h (i # js) = Some (w # ws) \<longleftrightarrow>
        hex_nib (char_at h (2 * i)) = Some (unat (drop_bit 4 w)) \<and>
        hex_nib (char_at h (2 * i + 1)) = Some (unat (w AND 0xf)) \<and> hex_bytes h js = Some ws"
      using byte_nibbles [OF hex_nib_lt hex_nib_lt, where v = w] byte_nibbles [OF nibble_lt, of w w w]
      by (auto simp: mult.commute split: option.splits)
    then show ?thesis
      using Cons.IH [of ws] nibble_lt [of w] by (simp add: Cons hex_nib_iff All_less_Suc2 conj_ac)
  qed
qed

lemma key_to_hex_nth:
  assumes "j < 32"
  shows "key_to_hex key ! (2 * j) = hex_digits ! unat (drop_bit 4 (key ! j))"
    and "key_to_hex key ! (2 * j + 1) = hex_digits ! unat (key ! j AND 0xf)"
proof -
  have cc: "concat (map (\<lambda>i. [f i, g i]) [0..<n]) ! (2 * j) = f j \<and>
      concat (map (\<lambda>i. [f i, g i]) [0..<n]) ! (2 * j + 1) = g j \<and>
      length (concat (map (\<lambda>i. [f i, g i]) [0..<n])) = 2 * n"
    if "j < n" for n and f g :: "nat \<Rightarrow> u8"
    using that
  proof (induction n)
    case (Suc n)
    have len: "length (concat (map (\<lambda>i. [f i, g i]) [0..<n])) = 2 * n" by (induction n) simp_all
    show ?case
    proof (cases "j = n")
      case True
      with len show ?thesis by (simp add: nth_append)
    next
      case False
      with Suc len show ?thesis by (simp add: nth_append)
    qed
  qed simp
  show "key_to_hex key ! (2 * j) = hex_digits ! unat (drop_bit 4 (key ! j))"
    and "key_to_hex key ! (2 * j + 1) = hex_digits ! unat (key ! j AND 0xf)"
    using cc [of 32] assms by (simp_all add: key_to_hex_def KEY_LEN_def nth_append)
qed

lemma length_key_to_hex: "length (key_to_hex key) = 65"
proof -
  have "length (concat (map (\<lambda>i. [f i, g i]) [0..<n])) = 2 * n" for n and f g :: "nat \<Rightarrow> u8"
    by (induction n) simp_all
  then show ?thesis by (simp add: key_to_hex_def KEY_LEN_def)
qed

definition key_text :: "bytes \<Rightarrow> bytes \<Rightarrow> bool" where
  "key_text s key \<longleftrightarrow> length key = KEY_LEN \<and>
     (\<exists>pre digits post. cstr s = pre @ digits @ post \<and> list_all is_ws pre \<and> list_all is_ws post \<and>
        map lower digits = take KEY_HEX_LEN (key_to_hex key))"

lemma hex_digit_not_ws: "x < 16 \<Longrightarrow> lower c = hex_digits ! x \<Longrightarrow> \<not> is_ws c"
proof
  assume x: "x < 16" and c: "lower c = hex_digits ! x" and ws: "is_ws c"
  have "unat (lower c) \<ge> 48" using x by (simp add: c unat_hex_digits)
  with ws show False by (auto simp: is_ws_def lower_def)
qed

lemma all_less_double: "(\<forall>i < 2 * n. P i) = (\<forall>j < n. P (2 * j) \<and> P (2 * j + 1))" for n :: nat
proof (intro iffI allI impI)
  fix i assume *: "\<forall>j < n. P (2 * j) \<and> P (2 * j + 1)" and i: "i < 2 * n"
  show "P i"
  proof (cases "even i")
    case True
    with * i show ?thesis by auto
  next
    case False
    then obtain j where "i = 2 * j + 1" by (auto elim: oddE)
    with * i show ?thesis by auto
  qed
qed auto

lemma hex_key_iff:
  "hex_bytes h [0..<KEY_LEN] = Some key \<longleftrightarrow> length key = KEY_LEN \<and>
     (\<forall>i < 64. lower (char_at h i) = key_to_hex key ! i)"
  using all_less_double [of 32 "\<lambda>i. lower (char_at h i) = key_to_hex key ! i"]
    key_to_hex_nth [of _ key]
  by (auto simp: hex_bytes_iff KEY_LEN_def)

lemma key_to_hex_digit: "i < 64 \<Longrightarrow> \<exists>x < 16. key_to_hex key ! i = hex_digits ! x"
  using all_less_double [of 32 "\<lambda>i. \<exists>x < 16. key_to_hex key ! i = hex_digits ! x"]
    key_to_hex_nth [of _ key] nibble_lt by (fastforce simp del: One_nat_def)

lemma lower_digit: "i < 64 \<Longrightarrow> lower c = key_to_hex key ! i \<Longrightarrow> c \<noteq> 0 \<and> \<not> is_ws c"
proof -
  assume "i < 64" and c: "lower c = key_to_hex key ! i"
  then obtain x where x: "x < 16" "lower c = hex_digits ! x" using key_to_hex_digit by metis
  then have "unat (lower c) \<ge> 48" by (simp add: unat_hex_digits)
  then have "c \<noteq> 0" by (auto simp: lower_def)
  with hex_digit_not_ws x show ?thesis by blast
qed

lemma key_from_hex_spec: "key_from_hex (Some s) = Some key \<longleftrightarrow> key_text s key"
proof
  let ?h = "dropWhile is_ws (cstr s)"
  assume "key_from_hex (Some s) = Some key"
  then have "hex_bytes ?h [0..<KEY_LEN] = Some key" and post: "list_all is_ws (drop 64 ?h)"
    by (auto simp: key_from_hex_def Let_def KEY_HEX_LEN_def KEY_LEN_def split: option.splits if_splits)
  then have len: "length key = KEY_LEN" and dig: "\<forall>i < 64. lower (char_at ?h i) = key_to_hex key ! i"
    using hex_key_iff by blast+
  have "63 < length ?h"
    using dig [THEN spec, of 63] lower_digit [of 63 "char_at ?h 63" key] by (auto simp: char_at_def split: if_splits)
  then have "map lower (take 64 ?h) = take KEY_HEX_LEN (key_to_hex key)"
    using dig by (intro nth_equalityI) (auto simp: KEY_HEX_LEN_def KEY_LEN_def length_key_to_hex char_at_def)
  moreover have "cstr s = takeWhile is_ws (cstr s) @ take 64 ?h @ drop 64 ?h" by simp
  moreover have "list_all is_ws (takeWhile is_ws (cstr s))"
    by (auto simp: list_all_iff dest: set_takeWhileD)
  ultimately show "key_text s key" using len post unfolding key_text_def by blast
next
  assume "key_text s key"
  then obtain pre digits post where len: "length key = KEY_LEN"
    and s: "cstr s = pre @ digits @ post" and ws: "list_all is_ws pre" "list_all is_ws post"
    and low: "map lower digits = take KEY_HEX_LEN (key_to_hex key)"
    by (auto simp: key_text_def)
  have l: "length digits = 64"
    using arg_cong [OF low, of length] by (simp add: KEY_HEX_LEN_def KEY_LEN_def length_key_to_hex)
  have dig: "lower (digits ! i) = key_to_hex key ! i" if "i < 64" for i
    using arg_cong [OF low, of "\<lambda>l. l ! i"] that l by (simp add: KEY_HEX_LEN_def KEY_LEN_def)
  then have "\<not> is_ws (digits ! 0)" using lower_digit [of 0 "digits ! 0" key] by simp
  with l have "dropWhile is_ws (digits @ post) = digits @ post"
    by (cases digits) simp_all
  moreover have "dropWhile is_ws (pre @ r) = dropWhile is_ws r" for r
    using ws(1) by (simp add: list_all_iff dropWhile_append2)
  ultimately have h: "dropWhile is_ws (cstr s) = digits @ post" by (simp add: s)
  have "hex_bytes (digits @ post) [0..<KEY_LEN] = Some key"
    using dig l len by (simp add: hex_key_iff char_at_def nth_append)
  then show "key_from_hex (Some s) = Some key"
    using l ws(2) by (simp add: key_from_hex_def h Let_def KEY_HEX_LEN_def KEY_LEN_def)
qed

subsection \<open>Properties\<close>

text \<open>C7. A client and a host that hold the same key complete the handshake: the host reads the
  client's nonce from the hello, the client accepts the challenge and reads the host's nonce, and the
  host accepts the response.\<close>

theorem handshake_completes:
  assumes "length cn = NONCE_LEN" and "length sn = NONCE_LEN"
  shows "hs_parse_hello (hs_build_hello cn) n0 v0 = (True, cn, HS_VERSION) \<and>
    hs_check_challenge psk cn (hs_build_challenge psk cn sn) n1 v1 = (True, sn, HS_VERSION) \<and>
    hs_check_response psk cn sn (hs_build_response psk cn sn)"
  using assms hs_check_build_challenge [of sn psk cn psk cn n1 v1]
  by (simp add: hs_parse_build_hello hs_build_response_def hs_check_response_def ct_equal_take
      SHA256_LEN_def)

theorem handshake_completes_witness:
  "hs_parse_hello (hs_build_hello (replicate 16 1)) [] 0 = (True, replicate 16 1, 1) \<and>
    hs_check_challenge (replicate 32 9) (replicate 16 1)
      (hs_build_challenge (replicate 32 9) (replicate 16 1) (replicate 16 2)) [] 0 = (True, replicate 16 2, 1) \<and>
    hs_check_response (replicate 32 9) (replicate 16 1) (replicate 16 2)
      (hs_build_response (replicate 32 9) (replicate 16 1) (replicate 16 2))"
  using handshake_completes [of "replicate 16 1" "replicate 16 2" "[]" 0 "replicate 32 9" "[]" 0]
  by (simp add: NONCE_LEN_def HS_VERSION_def)

text \<open>C6. The host accepts a response, and the client a challenge, exactly when the proof is the HMAC of
  the role's label and both nonces under the key (and, for the challenge, magic and version match).\<close>

theorem handshake_accepts_only_proofs:
  assumes "56 \<le> length chal" and "32 \<le> length resp"
  shows "(fst (hs_check_challenge psk cn chal n0 v0) \<longleftrightarrow>
      get_u32 chal = HS_MAGIC \<and> get_u16 (drop 4 chal) = HS_VERSION \<and>
      take SHA256_LEN (drop 24 chal) = hmac_ref psk (LBL_SERVER @ cn @ take NONCE_LEN (drop 8 chal))) \<and>
    (hs_check_response psk cn sn resp \<longleftrightarrow> take SHA256_LEN resp = hmac_ref psk (LBL_CLIENT @ cn @ sn))"
  using assms hs_check_challenge_iff hs_check_response_iff by blast

theorem handshake_accepts_only_proofs_witness:
  "(fst (hs_check_challenge [1] [2] (replicate 56 0) [] 0) \<longleftrightarrow>
      get_u32 (replicate 56 0) = HS_MAGIC \<and> get_u16 (drop 4 (replicate 56 0)) = HS_VERSION \<and>
      take SHA256_LEN (drop 24 (replicate 56 0)) =
        hmac_ref [1] (LBL_SERVER @ [2] @ take NONCE_LEN (drop 8 (replicate 56 0)))) \<and>
    (hs_check_response [1] [2] [3] (replicate 32 0) \<longleftrightarrow>
      take SHA256_LEN (replicate 32 0) = hmac_ref [1] (LBL_CLIENT @ [2] @ [3]))"
  by (rule handshake_accepts_only_proofs) simp_all

text \<open>No derived value is usable in another position: the six label-and-nonces inputs of the key
  derivation are pairwise different, and each determines its label and both nonces.\<close>

theorem kdf_inputs_separate:
  assumes "l \<in> set kdf_labels" "l' \<in> set kdf_labels"
    and "length cn = NONCE_LEN" "length sn = NONCE_LEN" "length cn' = NONCE_LEN" "length sn' = NONCE_LEN"
  shows "kdf psk l cn sn = hmac_ref psk (l @ cn @ sn) \<and> length kdf_labels = 6 \<and> distinct kdf_labels \<and>
    (l @ cn @ sn = l' @ cn' @ sn' \<longleftrightarrow> l = l' \<and> cn = cn' \<and> sn = sn')"
  using kdf_label_inj [OF assms] kdf_labels_distinct
  by (auto simp: kdf_def hmac_pieces_eq_ref kdf_labels_def)

theorem kdf_inputs_separate_witness:
  "kdf [7] LBL_SERVER (replicate 16 1) (replicate 16 2) =
     hmac_ref [7] (LBL_SERVER @ replicate 16 1 @ replicate 16 2) \<and>
   length kdf_labels = 6 \<and> distinct kdf_labels \<and>
   (LBL_SERVER @ replicate 16 1 @ replicate 16 2 = LBL_CLIENT @ replicate 16 1 @ replicate 16 2 \<longleftrightarrow>
     LBL_SERVER = LBL_CLIENT \<and> replicate 16 (1 :: u8) = replicate 16 1 \<and> replicate 16 (2 :: u8) = replicate 16 2)"
  by (rule kdf_inputs_separate) (simp_all add: kdf_labels_def NONCE_LEN_def)

text \<open>C8. A record is opened exactly when its tag is the truncated HMAC of sequence, length and cipher
  text; a refused record is left as it was, an accepted one is decrypted; and what was sealed opens to
  the plain text at the same sequence.\<close>

theorem record_layer_correct:
  assumes "MAC_LEN \<le> length mac"
  shows "rec_open ek mk seq io mac =
      (if take MAC_LEN mac = take MAC_LEN (hmac_ref mk (put_u64 seq @ put_u32 (of_nat (length io)) @ io))
       then (True, chacha20_xor ek seq io) else (False, io)) \<and>
    rec_open ek mk seq (take (length plain) (drop REC_LEN_SIZE (rec_seal ek mk seq plain)))
      (drop (REC_LEN_SIZE + length plain) (rec_seal ek mk seq plain)) = (True, plain)"
  using rec_open_accepts [OF assms] rec_seal_open by blast

theorem record_layer_correct_witness:
  "rec_open [1] [2] 3 [4] (replicate 16 0) =
      (if take MAC_LEN (replicate 16 0) = take MAC_LEN (hmac_ref [2] (put_u64 3 @ put_u32 (of_nat (length [4 :: u8])) @ [4]))
       then (True, chacha20_xor [1] 3 [4]) else (False, [4])) \<and>
    rec_open [1] [2] 3 (take (length [9 :: u8, 9]) (drop REC_LEN_SIZE (rec_seal [1] [2] 3 [9, 9])))
      (drop (REC_LEN_SIZE + length [9 :: u8, 9]) (rec_seal [1] [2] 3 [9, 9])) = (True, [9, 9])"
  by (rule record_layer_correct) (simp add: MAC_LEN_def)

text \<open>The key reader accepts exactly a text of 64 hexadecimal digits of either case between white
  space, and returns the key whose canonical text it is; the null pointer is refused.\<close>

theorem key_from_hex_correct:
  "key_from_hex None = None \<and> (key_from_hex (Some s) = Some key \<longleftrightarrow> key_text s key)"
  using key_from_hex_spec by (simp add: key_from_hex_def)

end
