(* ===== verification/Replay_Window.thy ===== *)
theory Replay_Window
  imports Mh_Prelude
begin

text \<open>
  The 64-entry replay window of the UDP packet layer (\<open>ReplayWindow\<close> in
  \<open>mh_net_proto/include/mh_net_proto/net_udp.h\<close> and \<open>src/net_udp.cpp\<close>), its abstract
  specification (the set of sequences accepted so far), and the interface the packet decoder
  relies on: a guard that is asked before the MAC and committed after it.
\<close>

definition REPLAY_WINDOW :: nat where "REPLAY_WINDOW = 64"

record replay_window =
  win_newest :: u64
  win_bits :: u64
  win_seeded :: bool

definition win_reset :: replay_window where
  "win_reset = \<lparr> win_newest = 0, win_bits = 0, win_seeded = False \<rparr>"

definition win_check :: "replay_window \<Rightarrow> u64 \<Rightarrow> bool" where
  "win_check w seq =
     (if \<not> win_seeded w then True
      else if win_newest w < seq then True
      else let age = win_newest w - seq in
           if REPLAY_WINDOW \<le> unat age then False
           else win_bits w AND push_bit (unat age) 1 = 0)"

definition win_commit :: "replay_window \<Rightarrow> u64 \<Rightarrow> replay_window" where
  "win_commit w seq =
     (if \<not> win_check w seq then w
      else if \<not> win_seeded w then w\<lparr> win_seeded := True, win_newest := seq, win_bits := 1 \<rparr>
      else if win_newest w < seq then
        (let shift = seq - win_newest w;
             shifted = (if REPLAY_WINDOW \<le> unat shift then 0 else push_bit (unat shift) (win_bits w))
         in w\<lparr> win_bits := shifted OR 1, win_newest := seq \<rparr>)
      else w\<lparr> win_bits := win_bits w OR push_bit (unat (win_newest w - seq)) 1 \<rparr>)"

subsection \<open>The abstract window\<close>

text \<open>
  Abstractly the window is the set \<open>H\<close> of accepted sequences, and a sequence is acceptable when it
  is not in \<open>H\<close> and no accepted sequence is 64 or more ahead of it.
\<close>

definition win_spec :: "u64 set \<Rightarrow> u64 \<Rightarrow> bool" where
  "win_spec H s \<longleftrightarrow> s \<notin> H \<and> (\<forall>h\<in>H. unat h < unat s + REPLAY_WINDOW)"

definition win_abs :: "replay_window \<Rightarrow> u64 set \<Rightarrow> bool" where
  "win_abs w H \<longleftrightarrow>
     (if win_seeded w
      then win_newest w \<in> H \<and> (\<forall>h\<in>H. unat h \<le> unat (win_newest w)) \<and>
           (\<forall>i < 64. bit (win_bits w) i \<longleftrightarrow> (\<exists>h\<in>H. unat h + i = unat (win_newest w)))
      else H = {})"

lemma and_bit_zero: "(b AND push_bit n 1 = 0) = (\<not> bit b n)" if "n < 64" for b :: u64
proof
  assume "b AND push_bit n 1 = 0"
  then have "\<not> bit (b AND push_bit n 1) n" by simp
  then show "\<not> bit b n" using that by (simp add: bit_simps)
next
  assume "\<not> bit b n"
  then show "b AND push_bit n 1 = 0" by (intro bit_word_eqI) (auto simp: bit_simps)
qed

lemmas and_exp_zero = and_bit_zero [unfolded push_bit_of_1]

lemma unat_diff: "\<not> n < (s :: u64) \<Longrightarrow> unat (n - s) = unat n - unat s"
  by (simp add: not_less unat_sub)

lemma win_check_spec:
  assumes "win_abs w H"
  shows "win_check w s = win_spec H s"
proof (cases "win_seeded w")
  case False
  with assms show ?thesis by (simp add: win_abs_def win_check_def win_spec_def)
next
  case True
  let ?n = "unat (win_newest w)"
  from assms True have n: "win_newest w \<in> H" and mx: "\<And>h. h \<in> H \<Longrightarrow> unat h \<le> ?n"
    and bt: "\<And>i. i < 64 \<Longrightarrow> bit (win_bits w) i \<longleftrightarrow> (\<exists>h\<in>H. unat h + i = ?n)"
    by (auto simp: win_abs_def)
  show ?thesis
  proof (cases "win_newest w < s")
    case gt: True
    then have "unat s > ?n" by (simp add: word_less_nat_alt)
    with mx True gt show ?thesis
      by (fastforce simp: win_check_def win_spec_def REPLAY_WINDOW_def)
  next
    case le: False
    then have sn: "unat s \<le> ?n" by (simp add: word_less_nat_alt not_less)
    have age: "unat (win_newest w - s) = ?n - unat s" using le by (rule unat_diff)
    show ?thesis
    proof (cases "64 \<le> ?n - unat s")
      case old: True
      then have "\<not> win_spec H s" using n by (force simp: win_spec_def REPLAY_WINDOW_def)
      with True le old age show ?thesis by (simp add: win_check_def REPLAY_WINDOW_def)
    next
      case False
      have "bit (win_bits w) (?n - unat s) \<longleftrightarrow> s \<in> H"
      proof -
        have "unat h + (?n - unat s) = ?n \<longleftrightarrow> h = s" for h
          using sn by (auto simp: word_unat_eq_iff)
        then show ?thesis using False bt [of "?n - unat s"] by simp
      qed
      moreover have "\<And>h. h \<in> H \<Longrightarrow> unat h < unat s + 64" using mx False sn by fastforce
      ultimately show ?thesis
        using True le False age by (auto simp: win_check_def win_spec_def REPLAY_WINDOW_def and_exp_zero)
    qed
  qed
qed

lemma win_abs_reset: "win_abs win_reset {}"
  by (simp add: win_abs_def win_reset_def)

lemma win_commit_fresh:
  assumes abs: "win_abs w H" and sd: "win_seeded w" and gt: "win_newest w < s" and chk: "win_check w s"
  shows "win_abs (win_commit w s) (insert s H)"
proof -
  let ?n = "unat (win_newest w)" and ?d = "unat (s - win_newest w)"
  from abs sd have n: "win_newest w \<in> H" and mx: "\<And>h. h \<in> H \<Longrightarrow> unat h \<le> ?n"
    and bt: "\<And>i. i < 64 \<Longrightarrow> bit (win_bits w) i \<longleftrightarrow> (\<exists>h\<in>H. unat h + i = ?n)"
    by (auto simp: win_abs_def)
  from gt have lt: "?n < unat s" by (simp add: word_less_nat_alt)
  have d: "?d = unat s - ?n" using gt by (intro unat_diff) simp
  let ?b = "(if 64 \<le> ?d then 0 else push_bit ?d (win_bits w)) OR 1"
  have "bit ?b i \<longleftrightarrow> (\<exists>h\<in>insert s H. unat h + i = unat s)" if i: "i < 64" for i
  proof (cases "i < ?d")
    case True
    then have "\<not> (\<exists>h\<in>H. unat h + i = unat s)" using mx d lt by fastforce
    with True i show ?thesis by (auto simp: bit_simps)
  next
    case False
    then have "(\<exists>h\<in>H. unat h + i = unat s) \<longleftrightarrow> (\<exists>h\<in>H. unat h + (i - ?d) = ?n)"
      using d lt by (intro bex_cong refl) linarith
    moreover have "i \<noteq> 0" using False d lt by linarith
    moreover have "bit ?b i \<longleftrightarrow> bit (win_bits w) (i - ?d)"
      using False i \<open>i \<noteq> 0\<close> by (auto simp: bit_simps)
    ultimately show ?thesis using bt [of "i - ?d"] i by auto
  qed
  moreover have "win_commit w s = w\<lparr> win_bits := ?b, win_newest := s \<rparr>"
    using sd gt chk by (simp add: win_commit_def Let_def REPLAY_WINDOW_def)
  ultimately show ?thesis using sd mx lt by (force simp: win_abs_def)
qed

lemma win_commit_old:
  assumes abs: "win_abs w H" and sd: "win_seeded w" and le: "\<not> win_newest w < s" and chk: "win_check w s"
  shows "win_abs (win_commit w s) (insert s H)"
proof -
  let ?n = "unat (win_newest w)" and ?d = "unat (win_newest w - s)"
  from abs sd have n: "win_newest w \<in> H" and mx: "\<And>h. h \<in> H \<Longrightarrow> unat h \<le> ?n"
    and bt: "\<And>i. i < 64 \<Longrightarrow> bit (win_bits w) i \<longleftrightarrow> (\<exists>h\<in>H. unat h + i = ?n)"
    by (auto simp: win_abs_def)
  from le have sn: "unat s \<le> ?n" by (simp add: word_less_nat_alt not_less)
  have d: "?d = ?n - unat s" using le by (rule unat_diff)
  have "win_commit w s = w\<lparr> win_bits := win_bits w OR push_bit ?d 1 \<rparr>"
    using sd le chk by (simp add: win_commit_def)
  moreover have "bit (win_bits w OR push_bit ?d 1) i \<longleftrightarrow> (\<exists>h\<in>insert s H. unat h + i = ?n)"
    if "i < 64" for i
    using bt [OF that] that sn d by (auto simp: bit_simps)
  ultimately show ?thesis using sd n mx sn by (auto simp: win_abs_def)
qed

lemma win_commit_abs:
  assumes "win_abs w H" and "win_check w s"
  shows "win_abs (win_commit w s) (insert s H)"
proof (cases "win_seeded w")
  case True
  with assms show ?thesis using win_commit_fresh win_commit_old by blast
next
  case False
  with assms show ?thesis by (auto simp: win_abs_def win_commit_def bit_simps)
qed

lemma win_commit_rejected: "\<not> win_check w s \<Longrightarrow> win_commit w s = w"
  by (simp add: win_commit_def)

subsection \<open>The interface: a guard against repeats\<close>

text \<open>
  \<open>guard_run\<close> offers a list of sequences to a guard in order, commits the accepted ones and
  returns the final guard with the accepted sequences in order.
\<close>

fun guard_run :: "('w \<Rightarrow> 's \<Rightarrow> bool) \<Rightarrow> ('w \<Rightarrow> 's \<Rightarrow> 'w) \<Rightarrow> 'w \<Rightarrow> 's list \<Rightarrow> 'w \<times> 's list" where
  "guard_run chk com w [] = (w, [])"
| "guard_run chk com w (s # ss) =
     (if chk w s then let (w', acc) = guard_run chk com (com w s) ss in (w', s # acc)
      else guard_run chk com w ss)"

locale replay_guard =
  fixes init :: 'w and chk :: "'w \<Rightarrow> 's \<Rightarrow> bool" and com :: "'w \<Rightarrow> 's \<Rightarrow> 'w"
    and abs :: "'w \<Rightarrow> 's set \<Rightarrow> bool" and spec :: "'s set \<Rightarrow> 's \<Rightarrow> bool"
  assumes abs_init: "abs init {}"
    and chk_spec: "abs w H \<Longrightarrow> chk w s = spec H s"
    and com_abs: "abs w H \<Longrightarrow> chk w s \<Longrightarrow> abs (com w s) (insert s H)"
    and com_rejected: "\<not> chk w s \<Longrightarrow> com w s = w"
    and spec_fresh: "spec H s \<Longrightarrow> s \<notin> H"
begin

lemma run_abs: "abs w H \<Longrightarrow> abs (fst (guard_run chk com w ss)) (H \<union> set (snd (guard_run chk com w ss)))"
proof (induction ss arbitrary: w H)
  case Nil
  then show ?case by simp
next
  case (Cons s ss)
  show ?case
  proof (cases "chk w s")
    case True
    from Cons.IH [OF com_abs [OF Cons.prems True]] True show ?thesis
      by (simp add: case_prod_beta)
  next
    case False
    with Cons show ?thesis by simp
  qed
qed

lemma run_distinct:
  "abs w H \<Longrightarrow> distinct (snd (guard_run chk com w ss)) \<and> set (snd (guard_run chk com w ss)) \<inter> H = {}"
proof (induction ss arbitrary: w H)
  case Nil
  then show ?case by simp
next
  case (Cons s ss)
  show ?case
  proof (cases "chk w s")
    case True
    moreover have "s \<notin> H" using chk_spec Cons.prems True spec_fresh by blast
    ultimately show ?thesis
      using Cons.IH [OF com_abs [OF Cons.prems True]] by (auto simp: case_prod_beta)
  next
    case False
    with Cons show ?thesis by simp
  qed
qed

lemma never_twice: "abs w H \<Longrightarrow> chk w s \<Longrightarrow> \<not> chk (com w s) s"
  using com_abs chk_spec spec_fresh by blast

end

interpretation rw: replay_guard win_reset win_check win_commit win_abs win_spec
proof unfold_locales
  show "win_abs win_reset {}" by (rule win_abs_reset)
  show "win_abs w H \<Longrightarrow> win_check w s = win_spec H s" for w H s by (rule win_check_spec)
  show "win_abs w H \<Longrightarrow> win_check w s \<Longrightarrow> win_abs (win_commit w s) (insert s H)" for w H s
    by (rule win_commit_abs)
  show "\<not> win_check w s \<Longrightarrow> win_commit w s = w" for w s by (rule win_commit_rejected)
  show "win_spec H s \<Longrightarrow> s \<notin> H" for H s by (simp add: win_spec_def)
qed

subsection \<open>Properties\<close>

text \<open>C3. Whatever sequences are offered to a fresh window, in whatever order, the 64-bit map decides
  exactly as the set of accepted sequences does: a sequence is acceptable when it has not been
  accepted and no accepted sequence is 64 or more ahead of it.\<close>

theorem window_refines_accepted_set:
  "win_check (fst (guard_run win_check win_commit win_reset ss)) s =
     win_spec (set (snd (guard_run win_check win_commit win_reset ss))) s"
  using win_check_spec [OF rw.run_abs [OF rw.abs_init]] by simp

end
