(* ===== verification/Uuid7.thy ===== *)
theory Uuid7
  imports Text_Bytes
begin

text \<open>
  Match identifiers (\<open>mh_net_proto/src/uuid7.cpp\<close>): a UUIDv7 from a clock and ten random bytes that the
  caller supplies, its fields, its two text forms, the parser of both, and the relay connection id that is
  derived from it.  A text is written into a buffer whose length is the capacity.
\<close>

definition UUID7_BYTES :: nat where "UUID7_BYTES = 16"
definition UUID7_RAND_MAX :: nat where "UUID7_RAND_MAX = 10"
definition UUID7_HEX_CAP :: nat where "UUID7_HEX_CAP = 33"
definition UUID7_TEXT_CAP :: nat where "UUID7_TEXT_CAP = 37"
definition CONN_ID_BYTES :: nat where "CONN_ID_BYTES = 8"

definition hex_val :: "u8 \<Rightarrow> int" where
  "hex_val c =
     (if 0x30 \<le> c \<and> c \<le> 0x39 then uint c - 0x30
      else if 0x61 \<le> c \<and> c \<le> 0x66 then uint c - 0x61 + 10
      else if 0x41 \<le> c \<and> c \<le> 0x46 then uint c - 0x41 + 10
      else -1)"

definition uuid7_make :: "u64 \<Rightarrow> bytes \<Rightarrow> bytes" where
  "uuid7_make unix_ms rand10 =
     [ucast (drop_bit 40 unix_ms AND 0xff), ucast (drop_bit 32 unix_ms AND 0xff), ucast (drop_bit 24 unix_ms AND 0xff),
      ucast (drop_bit 16 unix_ms AND 0xff), ucast (drop_bit 8 unix_ms AND 0xff), ucast (unix_ms AND 0xff),
      0x70 OR (rand10 ! 0 AND 0x0f), rand10 ! 1, 0x80 OR (rand10 ! 2 AND 0x3f)] @ take 7 (drop 3 rand10)"

definition uuid7_unix_ms :: "bytes \<Rightarrow> u64" where
  "uuid7_unix_ms u = fold (\<lambda>i v. push_bit 8 v OR ucast (u ! i)) [0..<6] 0"

definition uuid7_version :: "bytes \<Rightarrow> u8" where
  "uuid7_version u = drop_bit 4 (u ! 6) AND 0x0f"

definition uuid7_variant :: "bytes \<Rightarrow> u8" where
  "uuid7_variant u = drop_bit 6 (u ! 8) AND 0x03"

definition uuid7_is_nil :: "bytes \<Rightarrow> bool" where
  "uuid7_is_nil u = list_all (\<lambda>i. u ! i = 0) [0..<UUID7_BYTES]"

definition hex_pair :: "u8 \<Rightarrow> bytes" where
  "hex_pair b = [hex_digits ! unat (drop_bit 4 b AND 0x0f), hex_digits ! unat (b AND 0x0f)]"

definition uuid7_hex :: "bytes \<Rightarrow> bytes \<Rightarrow> bytes" where
  "uuid7_hex u out =
     (if length out < UUID7_HEX_CAP then out
      else memcpy_at out 0 (concat (map (\<lambda>i. hex_pair (u ! i)) [0..<UUID7_BYTES]) @ [0]))"

text \<open>The state of the loop over the groups: the byte that comes next, and the text so far.\<close>

definition dashed_group :: "bytes \<Rightarrow> nat \<times> nat \<Rightarrow> nat \<times> bytes \<Rightarrow> nat \<times> bytes" where
  "dashed_group u =
     (\<lambda>(g, n) (b, o'). let o' = (if g \<noteq> 0 then o' @ [0x2d] else o')
        in (b + n, o' @ concat (map (\<lambda>k. hex_pair (u ! (b + k))) [0..<n])))"

definition uuid7_dashed :: "bytes \<Rightarrow> bytes \<Rightarrow> bytes" where
  "uuid7_dashed u out =
     (if length out < UUID7_TEXT_CAP then out
      else memcpy_at out 0 (snd (fold (dashed_group u) (zip [0..<5] [4, 2, 2, 2, 6]) (0, [])) @ [0]))"

text \<open>The loop of the parser at offset \<open>i\<close>, with the bytes read so far.\<close>

function parse_loop :: "bytes \<Rightarrow> nat \<Rightarrow> bytes \<Rightarrow> bytes option" where
  "parse_loop s i tmp =
     (let n = length s in
      if n \<le> i then Some tmp
      else if n = 36 \<and> (i = 8 \<or> i = 13 \<or> i = 18 \<or> i = 23)
      then (if s ! i \<noteq> 0x2d then None else parse_loop s (i + 1) tmp)
      else if i + 1 \<ge> n then None
      else let hi = hex_val (s ! i); lo = hex_val (s ! (i + 1)) in
           if hi < 0 \<or> lo < 0 \<or> length tmp \<ge> UUID7_BYTES then None
           else parse_loop s (i + 2) (tmp @ [word_of_int (push_bit 4 hi OR lo)]))"
  by pat_completeness auto
termination
  by (relation "measure (\<lambda>(s, i, tmp). length s - i)") auto

declare parse_loop.simps [simp del]

text \<open>\<open>None\<close> is the null pointer.\<close>

definition uuid7_parse :: "bytes option \<Rightarrow> bytes \<Rightarrow> bool \<times> bytes" where
  "uuid7_parse s out =
     (case s of None \<Rightarrow> (False, out)
      | Some s \<Rightarrow>
          (let s = cstr s; n = length s in
           if n \<noteq> 32 \<and> n \<noteq> 36 then (False, out)
           else case parse_loop s 0 [] of None \<Rightarrow> (False, out)
                | Some tmp \<Rightarrow> if length tmp \<noteq> UUID7_BYTES then (False, out)
                              else (True, memcpy_at out 0 (take UUID7_BYTES tmp))))"

definition conn_id_from_match :: "bytes \<Rightarrow> u8 \<Rightarrow> bytes" where
  "conn_id_from_match match_id slot =
     (let out = take CONN_ID_BYTES match_id
      in out[CONN_ID_BYTES - 1 := (out ! (CONN_ID_BYTES - 1)) XOR slot])"

subsection \<open>The fields\<close>

lemma and_ff: "x AND 0xff = take_bit 8 x" for x :: "'a::len word"
  by (simp add: take_bit_eq_mask mask_eq_exp_minus_1)

lemma byte_of: "bit (ucast (drop_bit m ms AND 0xff) :: u8) k \<longleftrightarrow> k < 8 \<and> bit ms (m + k)" for ms :: u64
  by (auto simp: and_ff bit_simps dest: bit_imp_le_length)

lemma byte_placed:
  "bit (push_bit m (ucast (ucast (drop_bit m ms AND 0xff) :: u8)) :: u64) k \<longleftrightarrow>
     k < 64 \<and> m \<le> k \<and> k < m + 8 \<and> bit ms k" for ms :: u64
  by (auto simp: bit_push_bit_iff bit_ucast_iff and_ff bit_take_bit_iff bit_drop_bit_eq dest: bit_imp_le_length)

lemma unix_ms_make: "uuid7_unix_ms (uuid7_make ms r) = take_bit 48 ms"
proof (rule bit_word_eqI)
  fix k assume k: "k < LENGTH(64)"
  have "uuid7_unix_ms (uuid7_make ms r) =
      push_bit 40 (ucast (ucast (drop_bit 40 ms AND 0xff) :: u8)) OR push_bit 32 (ucast (ucast (drop_bit 32 ms AND 0xff) :: u8)) OR
      push_bit 24 (ucast (ucast (drop_bit 24 ms AND 0xff) :: u8)) OR push_bit 16 (ucast (ucast (drop_bit 16 ms AND 0xff) :: u8)) OR
      push_bit 8 (ucast (ucast (drop_bit 8 ms AND 0xff) :: u8)) OR push_bit 0 (ucast (ucast (drop_bit 0 ms AND 0xff) :: u8))"
    by (simp add: uuid7_unix_ms_def uuid7_make_def upt_rec push_bit_or or.assoc)
  moreover have "(40 \<le> k \<and> k < 40 + 8 \<or> 32 \<le> k \<and> k < 32 + 8 \<or> 24 \<le> k \<and> k < 24 + 8 \<or> 16 \<le> k \<and> k < 16 + 8 \<or>
      8 \<le> k \<and> k < 8 + 8 \<or> 0 \<le> k \<and> k < 0 + 8) = (k < 48)" by linarith
  ultimately show "bit (uuid7_unix_ms (uuid7_make ms r)) k = bit (take_bit 48 ms) k"
    using k by (simp only: bit_or_iff byte_placed bit_take_bit_iff) auto
qed

lemma version_make: "uuid7_version (uuid7_make ms r) = 7"
  by (simp add: uuid7_version_def uuid7_make_def drop_bit_or drop_bit_and)

lemma variant_make: "uuid7_variant (uuid7_make ms r) = 2"
  by (simp add: uuid7_variant_def uuid7_make_def drop_bit_or drop_bit_and)

lemma or_top_inj:
  assumes "(t :: u8) AND m = 0"
  shows "t OR (x AND m) = t OR (y AND m) \<longleftrightarrow> x AND m = y AND m"
proof
  assume e: "t OR (x AND m) = t OR (y AND m)"
  have "(t OR (z AND m)) AND m = z AND m" for z
    using assms by (simp add: bit.conj_disj_distrib2 and.assoc)
  with e show "x AND m = y AND m" by metis
qed simp

lemma make_eq_iff:
  assumes "length r = UUID7_RAND_MAX" "length r' = UUID7_RAND_MAX"
  shows "uuid7_make ms r = uuid7_make ms' r' \<longleftrightarrow> take_bit 48 ms = take_bit 48 ms' \<and>
    r ! 0 AND 0x0f = r' ! 0 AND 0x0f \<and> r ! 1 = r' ! 1 \<and> r ! 2 AND 0x3f = r' ! 2 AND 0x3f \<and> drop 3 r = drop 3 r'"
    (is "?l \<longleftrightarrow> ?r")
proof
  assume ?l
  then have "take_bit 48 ms = take_bit 48 ms'" by (metis unix_ms_make)
  with \<open>?l\<close> assms show ?r
    using or_top_inj [of "0x70" "0x0f" "r ! 0" "r' ! 0"] or_top_inj [of "0x80" "0x3f" "r ! 2" "r' ! 2"]
    by (simp add: uuid7_make_def UUID7_RAND_MAX_def)
next
  assume r: ?r
  have b: "ucast (drop_bit k ms AND 0xff) = (ucast (drop_bit k ms' AND 0xff) :: u8)" if "k \<le> 40" for k
  proof (rule bit_word_eqI)
    fix j assume j: "j < LENGTH(8)"
    have "bit (take_bit 48 ms) (k + j) = bit (take_bit 48 ms') (k + j)" using r by simp
    then show "bit (ucast (drop_bit k ms AND 0xff) :: u8) j = bit (ucast (drop_bit k ms' AND 0xff) :: u8) j"
      using that j by (simp add: byte_of bit_take_bit_iff)
  qed
  from r b [of 40] b [of 32] b [of 24] b [of 16] b [of 8] b [of 0] show ?l by (simp add: uuid7_make_def)
qed

text \<open>A minted identifier is a UUIDv7: sixteen bytes with version 7 and variant 2, never the nil
  identifier; the clock reads back (its low 48 bits); and two identifiers are equal exactly when those 48
  bits and the 74 random bits that the version and variant do not overwrite are.\<close>

theorem uuid7_fields:
  assumes "length r = UUID7_RAND_MAX" "length r' = UUID7_RAND_MAX"
  shows "length (uuid7_make ms r) = UUID7_BYTES \<and> uuid7_unix_ms (uuid7_make ms r) = take_bit 48 ms \<and>
    uuid7_version (uuid7_make ms r) = 7 \<and> uuid7_variant (uuid7_make ms r) = 2 \<and> \<not> uuid7_is_nil (uuid7_make ms r) \<and>
    (uuid7_make ms r = uuid7_make ms' r' \<longleftrightarrow> take_bit 48 ms = take_bit 48 ms' \<and>
       r ! 0 AND 0x0f = r' ! 0 AND 0x0f \<and> r ! 1 = r' ! 1 \<and> r ! 2 AND 0x3f = r' ! 2 AND 0x3f \<and> drop 3 r = drop 3 r')"
proof -
  have "uuid7_make ms r ! 6 \<noteq> 0"
    using version_make [of ms r] by (auto simp: uuid7_version_def)
  then have "\<not> uuid7_is_nil (uuid7_make ms r)"
    by (auto simp: uuid7_is_nil_def list_all_iff UUID7_BYTES_def)
  moreover have "length (uuid7_make ms r) = UUID7_BYTES"
    using assms(1) by (simp add: uuid7_make_def UUID7_RAND_MAX_def UUID7_BYTES_def)
  ultimately show ?thesis using unix_ms_make version_make variant_make make_eq_iff [OF assms] by blast
qed

theorem uuid7_fields_witness:
  "length (uuid7_make 5 (replicate 10 3)) = UUID7_BYTES \<and> uuid7_unix_ms (uuid7_make 5 (replicate 10 3)) = take_bit 48 5"
  using uuid7_fields [of "replicate 10 3" "replicate 10 3" 5 5] by (simp add: UUID7_RAND_MAX_def)

subsection \<open>The text forms\<close>

lemma hex_val_nib: "hex_val c = (case hex_nib c of None \<Rightarrow> -1 | Some n \<Rightarrow> int n)"
  unfolding hex_val_def hex_nib_def word_le_nat_alt by (auto simp: of_nat_diff)

lemma hex_val_neg: "hex_val c < 0 \<longleftrightarrow> hex_nib c = None"
  by (simp add: hex_val_nib split: option.split)

lemma nibble_or_int: "push_bit 4 (int a) OR int b = int (push_bit 4 a OR b)"
  by (simp only: of_nat_or_eq of_nat_push_bit)

lemma hex_pair_eq: "hex_pair b = [hex_digits ! unat (drop_bit 4 b), hex_digits ! unat (b AND 0xf)]"
proof -
  have "drop_bit 4 b AND 0x0f = drop_bit 4 b"
    using nibble_lt(1) [of b] by (simp add: word_unat_eq_iff unat_nibble_lo)
  then show ?thesis by (simp add: hex_pair_def)
qed

text \<open>A stretch of \<open>k\<close> bytes without a dash place.\<close>

definition dash_place :: "bytes \<Rightarrow> nat \<Rightarrow> bool" where
  "dash_place s i \<longleftrightarrow> length s = 36 \<and> (i = 8 \<or> i = 13 \<or> i = 18 \<or> i = 23)"

lemma parse_byte:
  assumes "\<not> dash_place s i" "i + 2 \<le> length s" "length tmp < UUID7_BYTES"
  shows "parse_loop s i tmp = Some r \<longleftrightarrow>
    (\<exists>b. map lower (take 2 (drop i s)) = hex_pair b \<and> parse_loop s (i + 2) (tmp @ [b]) = Some r)"
proof -
  have two: "take 2 (drop i s) = [s ! i, s ! (i + 1)]" using assms(2) by (simp add: take_2_nth)
  have "parse_loop s i tmp = (case hex_nib (s ! i) of None \<Rightarrow> None | Some a \<Rightarrow>
      (case hex_nib (s ! (i + 1)) of None \<Rightarrow> None | Some b \<Rightarrow> parse_loop s (i + 2) (tmp @ [of_nat (push_bit 4 a OR b)])))"
    using assms by (subst parse_loop.simps)
      (auto simp: dash_place_def hex_val_neg hex_val_nib nibble_or_int Let_def split: option.split)
  also have "\<dots> = Some r \<longleftrightarrow> (\<exists>b. hex_nib (s ! i) = Some (unat (drop_bit 4 b)) \<and>
      hex_nib (s ! (i + 1)) = Some (unat (b AND 0xf)) \<and> parse_loop s (i + 2) (tmp @ [b]) = Some r)"
    using byte_nibbles [OF hex_nib_lt hex_nib_lt] by (auto split: option.splits) metis+
  finally show ?thesis using nibble_lt by (simp add: two hex_pair_eq hex_nib_iff)
qed

lemma ex_length_Suc: "(\<exists>xs. length xs = Suc n \<and> P xs) \<longleftrightarrow> (\<exists>x xs. length xs = n \<and> P (x # xs))"
  by (auto simp: length_Suc_conv)

lemma parse_bytes:
  assumes "\<And>j. j < k \<Longrightarrow> \<not> dash_place s (i + 2 * j)" "i + 2 * k \<le> length s" "length tmp + k \<le> UUID7_BYTES"
  shows "parse_loop s i tmp = Some r \<longleftrightarrow>
    (\<exists>bs. length bs = k \<and> map lower (take (2 * k) (drop i s)) = concat (map hex_pair bs) \<and>
      parse_loop s (i + 2 * k) (tmp @ bs) = Some r)"
  using assms
proof (induction k arbitrary: i tmp)
  case (Suc k)
  have d: "\<not> dash_place s (i + 2 + 2 * j)" if "j < k" for j using Suc.prems(1) [of "Suc j"] that by simp
  have "\<not> dash_place s i" using Suc.prems(1) [of 0] by simp
  from parse_byte [OF this, of tmp r] Suc.prems
  have "parse_loop s i tmp = Some r \<longleftrightarrow>
      (\<exists>b. map lower (take 2 (drop i s)) = hex_pair b \<and> parse_loop s (i + 2) (tmp @ [b]) = Some r)" by simp
  also have "\<dots> \<longleftrightarrow> (\<exists>b bs. map lower (take 2 (drop i s)) = hex_pair b \<and> length bs = k \<and>
      map lower (take (2 * k) (drop (i + 2) s)) = concat (map hex_pair bs) \<and>
      parse_loop s (i + 2 * Suc k) (tmp @ b # bs) = Some r)"
    using Suc.IH [of "i + 2" "tmp @ [_]", OF d] Suc.prems(2,3) by (simp add: add.commute)
  also have "\<dots> \<longleftrightarrow> (\<exists>b bs. length bs = k \<and> map lower (take (2 * Suc k) (drop i s)) = hex_pair b @ concat (map hex_pair bs) \<and>
      parse_loop s (i + 2 * Suc k) (tmp @ b # bs) = Some r)"
  proof -
    have "take (2 * Suc k) (drop i s) = take 2 (drop i s) @ take (2 * k) (drop (i + 2) s)"
      using take_add [of 2 "2 * k" "drop i s"] by (simp add: add.commute)
    moreover have "map lower (take 2 (drop i s)) @ xs = hex_pair b @ ys \<longleftrightarrow> map lower (take 2 (drop i s)) = hex_pair b \<and> xs = ys"
      for b xs ys by (rule append_eq_append_conv) (use Suc.prems(2) in \<open>simp add: hex_pair_def\<close>)
    ultimately show ?thesis by (simp only: map_append) blast
  qed
  also have "\<dots> \<longleftrightarrow> (\<exists>bs. length bs = Suc k \<and> map lower (take (2 * Suc k) (drop i s)) = concat (map hex_pair bs) \<and>
      parse_loop s (i + 2 * Suc k) (tmp @ bs) = Some r)"
    by (simp only: ex_length_Suc list.map concat.simps)
  finally show ?case .
qed auto

lemma parse_dash:
  "dash_place s i \<Longrightarrow> i < length s \<Longrightarrow> parse_loop s i tmp = Some r \<longleftrightarrow> s ! i = 0x2d \<and> parse_loop s (i + 1) tmp = Some r"
  by (subst parse_loop.simps) (simp add: dash_place_def Let_def)

lemma parse_end: "length s \<le> i \<Longrightarrow> parse_loop s i tmp = Some r \<longleftrightarrow> tmp = r"
  by (subst parse_loop.simps) (simp add: Let_def)

definition hex_text :: "bytes \<Rightarrow> bytes" where
  "hex_text u = concat (map hex_pair u)"

definition dashed_text :: "bytes \<Rightarrow> bytes" where
  "dashed_text u = hex_text (take 4 u) @ [0x2d] @ hex_text (take 2 (drop 4 u)) @ [0x2d] @ hex_text (take 2 (drop 6 u)) @ [0x2d]
     @ hex_text (take 2 (drop 8 u)) @ [0x2d] @ hex_text (drop 10 u)"

lemma length_hex_text: "length (hex_text u) = 2 * length u"
  by (induction u) (simp_all add: hex_text_def hex_pair_def)

lemma hex_text_no_nul [simp]: "0 \<notin> set (hex_text u)"
proof -
  have "hex_digits ! unat (drop_bit 4 b) \<noteq> 0" "hex_digits ! unat (b AND 0xf) \<noteq> 0" for b :: u8
    using unat_hex_digits [OF nibble_lt(1) [of b]] unat_hex_digits [OF nibble_lt(2) [of b]] by (auto split: if_splits)
  then show "0 \<notin> set (hex_text u)" by (auto simp: hex_text_def hex_pair_eq)
qed

lemma parse_plain:
  assumes "length s = 32"
  shows "parse_loop s 0 [] = Some r \<longleftrightarrow> length r = UUID7_BYTES \<and> map lower s = hex_text r"
  using parse_bytes [of 16 s 0 "[]" r] parse_end [of s 32] assms
  by (auto simp: dash_place_def UUID7_BYTES_def hex_text_def)

lemma lower_dash: "lower c = 0x2d \<longleftrightarrow> c = 0x2d"
  by (auto simp: word_unat_eq_iff unat_lower)

lemma parse_group:
  assumes "length s = 36" "\<And>j. j < k \<Longrightarrow> \<not> dash_place s (i + 2 * j)" "dash_place s (i + 2 * k)" "length tmp + k \<le> UUID7_BYTES"
  shows "parse_loop s i tmp = Some r \<longleftrightarrow>
    (\<exists>bs. length bs = k \<and> map lower (take (2 * k + 1) (drop i s)) = hex_text bs @ [0x2d] \<and>
      parse_loop s (i + 2 * k + 1) (tmp @ bs) = Some r)"
proof -
  have i: "i + 2 * k < length s" using assms(1,3) by (auto simp: dash_place_def)
  then have "take (2 * k + 1) (drop i s) = take (2 * k) (drop i s) @ [s ! (i + 2 * k)]"
    using take_1_drop [of "i + 2 * k" s] take_add [of "2 * k" 1 "drop i s"] by (simp add: add.commute)
  then have "map lower (take (2 * k + 1) (drop i s)) = hex_text bs @ [0x2d] \<longleftrightarrow>
      map lower (take (2 * k) (drop i s)) = hex_text bs \<and> s ! (i + 2 * k) = 0x2d" for bs
    by (simp add: lower_dash)
  then show ?thesis
    using parse_bytes [OF assms(2), where tmp = tmp and r = r] i assms(4) parse_dash [OF assms(3) i, of _ r]
    by (simp add: hex_text_def)
qed

lemma parse_dashed:
  assumes l: "length s = 36"
  shows "parse_loop s 0 [] = Some r \<longleftrightarrow> length r = UUID7_BYTES \<and> map lower s = dashed_text r"
proof -
  have dp: "dash_place s i \<longleftrightarrow> i = 8 \<or> i = 13 \<or> i = 18 \<or> i = 23" for i by (simp add: dash_place_def l)
  have nd: "\<not> dash_place s (9 + 2 * j)" "\<not> dash_place s (14 + 2 * j)" "\<not> dash_place s (19 + 2 * j)" if "j < 2" for j
    using that by (auto simp: dp)
  have nd0: "\<not> dash_place s (0 + 2 * j)" if "j < 4" for j using that by (auto simp: dp)
  have nd4: "\<not> dash_place s (24 + 2 * j)" if "j < 6" for j using that by (simp add: dp)
  have g: "parse_loop s 0 [] = Some r \<longleftrightarrow> (\<exists>a. length a = 4 \<and> map lower (take 9 s) = hex_text a @ [0x2d] \<and> parse_loop s 9 a = Some r)"
    "length t = 4 \<Longrightarrow> parse_loop s 9 t = Some r \<longleftrightarrow>
      (\<exists>a. length a = 2 \<and> map lower (take 5 (drop 9 s)) = hex_text a @ [0x2d] \<and> parse_loop s 14 (t @ a) = Some r)"
    "length t = 6 \<Longrightarrow> parse_loop s 14 t = Some r \<longleftrightarrow>
      (\<exists>a. length a = 2 \<and> map lower (take 5 (drop 14 s)) = hex_text a @ [0x2d] \<and> parse_loop s 19 (t @ a) = Some r)"
    "length t = 8 \<Longrightarrow> parse_loop s 19 t = Some r \<longleftrightarrow>
      (\<exists>a. length a = 2 \<and> map lower (take 5 (drop 19 s)) = hex_text a @ [0x2d] \<and> parse_loop s 24 (t @ a) = Some r)"
    "length t = 10 \<Longrightarrow> parse_loop s 24 t = Some r \<longleftrightarrow> (\<exists>a. length a = 6 \<and> map lower (drop 24 s) = hex_text a \<and> t @ a = r)" for t
    using parse_group [where k = 4 and i = 0 and tmp = "[]" and r = r, OF l nd0]
      parse_group [where k = 2 and i = 9 and tmp = t and r = r, OF l nd(1)]
      parse_group [where k = 2 and i = 14 and tmp = t and r = r, OF l nd(2)]
      parse_group [where k = 2 and i = 19 and tmp = t and r = r, OF l nd(3)]
      parse_bytes [where k = 6 and i = 24 and tmp = t and r = r, OF nd4] parse_end [of s 36 _ r] l
    by (simp_all add: dp UUID7_BYTES_def hex_text_def)
  show ?thesis
  proof
    assume "parse_loop s 0 [] = Some r"
    then obtain a b c d e where len: "length a = 4" "length b = 2" "length c = 2" "length d = 2" "length e = 6"
      and m: "map lower (take 9 s) = hex_text a @ [0x2d]" "map lower (take 5 (drop 9 s)) = hex_text b @ [0x2d]"
        "map lower (take 5 (drop 14 s)) = hex_text c @ [0x2d]" "map lower (take 5 (drop 19 s)) = hex_text d @ [0x2d]"
        "map lower (drop 24 s) = hex_text e" and r: "r = a @ b @ c @ d @ e"
      using g by (auto simp: append_assoc) 
    have "map lower s = map lower (take 9 s) @ map lower (take 5 (drop 9 s)) @ map lower (take 5 (drop 14 s)) @
        map lower (take 5 (drop 19 s)) @ map lower (drop 24 s)"
      by (simp only: map_append [symmetric] take_drop_chain append_take_drop_id)
    then show "length r = UUID7_BYTES \<and> map lower s = dashed_text r"
      unfolding m r by (simp add: len dashed_text_def UUID7_BYTES_def)
  next
    assume r: "length r = UUID7_BYTES \<and> map lower s = dashed_text r"
    then have len: "length r = 16" by (simp add: UUID7_BYTES_def)
    have m: "map lower (take n (drop k s)) = take n (drop k (dashed_text r))" for n k
      using r by (simp flip: drop_map take_map)
    have m': "map lower (drop 24 s) = drop 24 (dashed_text r)" using r by (simp flip: drop_map)
    have d: "take 9 (dashed_text r) = hex_text (take 4 r) @ [0x2d]" "take 5 (drop 9 (dashed_text r)) = hex_text (take 2 (drop 4 r)) @ [0x2d]"
      "take 5 (drop 14 (dashed_text r)) = hex_text (take 2 (drop 6 r)) @ [0x2d]"
      "take 5 (drop 19 (dashed_text r)) = hex_text (take 2 (drop 8 r)) @ [0x2d]"
      "drop 24 (dashed_text r) = hex_text (drop 10 r)"
      by (simp_all add: dashed_text_def length_hex_text len)
    have t: "take 4 r @ take 2 (drop 4 r) = take 6 r" "take 6 r @ take 2 (drop 6 r) = take 8 r"
      "take 8 r @ take 2 (drop 8 r) = take 10 r" by (simp_all add: take_take_chain)
    have "parse_loop s 24 (take 10 r) = Some r"
      using g(5) [of "take 10 r"] len d(5) m' by (auto intro!: exI [of _ "drop 10 r"])
    then have "parse_loop s 19 (take 8 r) = Some r"
      using g(4) [of "take 8 r"] len d(4) m t(3) by (auto intro!: exI [of _ "take 2 (drop 8 r)"])
    then have "parse_loop s 14 (take 6 r) = Some r"
      using g(3) [of "take 6 r"] len d(3) m t(2) by (auto intro!: exI [of _ "take 2 (drop 6 r)"])
    then have "parse_loop s 9 (take 4 r) = Some r"
      using g(2) [of "take 4 r"] len d(2) m t(1) by (auto intro!: exI [of _ "take 2 (drop 4 r)"])
    then show "parse_loop s 0 [] = Some r"
      using g(1) len d(1) m [of 9 0] by (auto intro!: exI [of _ "take 4 r"])
  qed
qed

lemma uuid7_hex_text:
  assumes "length u = UUID7_BYTES" "UUID7_HEX_CAP \<le> length out"
  shows "cstr (uuid7_hex u out) = hex_text u"
proof -
  have "map (\<lambda>i. hex_pair (u ! i)) [0..<UUID7_BYTES] = map hex_pair u"
    using assms(1) by (intro nth_equalityI) simp_all
  then have "concat (map (\<lambda>i. hex_pair (u ! i)) [0..<UUID7_BYTES]) = hex_text u" by (simp add: hex_text_def)
  then show ?thesis using assms(2) by (simp add: uuid7_hex_def cstr_memcpy_nul)
qed

lemma uuid7_dashed_text:
  assumes "length u = UUID7_BYTES" "UUID7_TEXT_CAP \<le> length out"
  shows "cstr (uuid7_dashed u out) = dashed_text u"
proof -
  have s: "concat (map (\<lambda>k. hex_pair (u ! (b + k))) [0..<n]) = hex_text (take n (drop b u))" if "b + n \<le> 16" for b n
  proof -
    have "map (\<lambda>k. hex_pair (u ! (b + k))) [0..<n] = map hex_pair (take n (drop b u))"
      using assms(1) that by (intro nth_equalityI) (simp_all add: UUID7_BYTES_def)
    then show ?thesis by (simp add: hex_text_def)
  qed
  have z: "zip [0..<5] [4, 2, 2, 2, 6 :: nat] = [(0, 4), (1, 2), (2, 2), (3, 2), (4, 6)]" by (simp add: upt_rec)
  have "snd (fold (dashed_group u) (zip [0..<5] [4, 2, 2, 2, 6]) (0, [])) = dashed_text u"
    using assms(1) s [of 0 4] s [of 4 2] s [of 6 2] s [of 8 2] s [of 10 6]
    by (simp add: z dashed_group_def dashed_text_def UUID7_BYTES_def)
  moreover have "0 \<notin> set (dashed_text u)" by (simp add: dashed_text_def)
  ultimately show ?thesis using assms(2) by (simp add: uuid7_dashed_def cstr_memcpy_nul)
qed

lemma uuid7_parse_iff:
  assumes "length out = UUID7_BYTES"
  shows "uuid7_parse (Some s) out = (True, u) \<longleftrightarrow> (length (cstr s) = 32 \<or> length (cstr s) = 36) \<and>
    parse_loop (cstr s) 0 [] = Some u \<and> length u = UUID7_BYTES"
proof (cases "parse_loop (cstr s) 0 []")
  case (Some v)
  have "length v = UUID7_BYTES \<Longrightarrow> memcpy_at out 0 (take UUID7_BYTES v) = v" using assms by (simp add: memcpy_at_def)
  with Some show ?thesis by (cases "length v = UUID7_BYTES") (auto simp: uuid7_parse_def Let_def)
qed (simp add: uuid7_parse_def Let_def)

lemma length_texts: "length u = UUID7_BYTES \<Longrightarrow> length (hex_text u) = 32 \<and> length (dashed_text u) = 36"
  by (simp add: length_hex_text dashed_text_def UUID7_BYTES_def)

text \<open>The parser reads exactly the two text forms, in either case of the letters: it accepts a text and
  gives the sixteen bytes \<open>u\<close> exactly when the text, in lower case, is the plain or the dashed form of
  \<open>u\<close>; and whatever it refuses leaves the output alone.\<close>

theorem uuid7_parse_correct:
  assumes "length out = UUID7_BYTES" "UUID7_HEX_CAP \<le> length b1" "UUID7_TEXT_CAP \<le> length b2"
  shows "(uuid7_parse (Some s) out = (True, u) \<longleftrightarrow> length u = UUID7_BYTES \<and>
      (map lower (cstr s) = cstr (uuid7_hex u b1) \<or> map lower (cstr s) = cstr (uuid7_dashed u b2))) \<and>
    (\<not> fst (uuid7_parse q out) \<longrightarrow> snd (uuid7_parse q out) = out)"
proof
  show "uuid7_parse (Some s) out = (True, u) \<longleftrightarrow> length u = UUID7_BYTES \<and>
      (map lower (cstr s) = cstr (uuid7_hex u b1) \<or> map lower (cstr s) = cstr (uuid7_dashed u b2))"
  proof (cases "length u = UUID7_BYTES")
    case False
    then show ?thesis by (simp add: uuid7_parse_iff [OF assms(1)])
  next
    case True
    note t = uuid7_hex_text [OF True assms(2)] uuid7_dashed_text [OF True assms(3)]
    have "map lower (cstr s) = x \<Longrightarrow> length (cstr s) = length x" for x by (metis length_map)
    with True length_texts [OF True] show ?thesis
      unfolding uuid7_parse_iff [OF assms(1)] t
      using parse_plain [of "cstr s" u] parse_dashed [of "cstr s" u] by fastforce
  qed
  show "\<not> fst (uuid7_parse q out) \<longrightarrow> snd (uuid7_parse q out) = out"
    by (auto simp: uuid7_parse_def Let_def split: option.split)
qed

theorem uuid7_parse_correct_witness:
  "uuid7_parse (Some (uuid7_hex (replicate 16 7) (replicate 33 0))) (replicate 16 0) = (True, replicate 16 7) \<longleftrightarrow>
    length (replicate 16 (7 :: u8)) = UUID7_BYTES \<and>
      (map lower (cstr (uuid7_hex (replicate 16 7) (replicate 33 0))) = cstr (uuid7_hex (replicate 16 7) (replicate 33 0)) \<or>
       map lower (cstr (uuid7_hex (replicate 16 7) (replicate 33 0))) = cstr (uuid7_dashed (replicate 16 7) (replicate 37 0)))"
  using uuid7_parse_correct [of "replicate 16 0" "replicate 33 0" "replicate 37 0"]
  by (simp add: UUID7_BYTES_def UUID7_HEX_CAP_def UUID7_TEXT_CAP_def)

end
