(* ===== verification/Udp_Packet.thy ===== *)
theory Udp_Packet
  imports Handshake Replay_Window Uuid7
begin

text \<open>
  The datagram of the UDP transport (\<open>mh_net_proto/src/net_udp.cpp\<close>, \<open>net_udp.h\<close>): header,
  verdicts, sealing and opening.  A decoder call works on its output parameters and on the
  direction's replay window; \<open>decode_state\<close> collects them.
\<close>

definition MAX_DATAGRAM :: nat where "MAX_DATAGRAM = 1200"
definition HDR_SIZE :: nat where "HDR_SIZE = 18"
definition TAG_SIZE :: nat where "TAG_SIZE = MAC_LEN"
definition MAX_BODY :: nat where "MAX_BODY = MAX_DATAGRAM - HDR_SIZE - TAG_SIZE"
definition MIN_DATAGRAM :: nat where "MIN_DATAGRAM = HDR_SIZE + TAG_SIZE"
definition MAGIC_NIBBLE :: u8 where "MAGIC_NIBBLE = 0x4"
definition VERSION :: u8 where "VERSION = 1"
definition MAGIC_VER :: u8 where "MAGIC_VER = push_bit 4 MAGIC_NIBBLE OR VERSION"
definition PKT_TYPE_MAX :: u8 where "PKT_TYPE_MAX = 4"

lemmas udp_sizes = MAX_DATAGRAM_def HDR_SIZE_def TAG_SIZE_def MAC_LEN_def MAX_BODY_def
  MIN_DATAGRAM_def CONN_ID_BYTES_def

datatype verdict =
    Ok | TooLong | TooShort | BadMagic | BadVersion | BadType | WrongConn | Replay | BadMac
  | Malformed | BodyTooLong

fun verdict_name :: "verdict \<Rightarrow> string" where
  "verdict_name Ok = ''ok''"
| "verdict_name TooLong = ''too_long''"
| "verdict_name TooShort = ''too_short''"
| "verdict_name BadMagic = ''bad_magic''"
| "verdict_name BadVersion = ''bad_version''"
| "verdict_name BadType = ''bad_type''"
| "verdict_name WrongConn = ''wrong_conn''"
| "verdict_name Replay = ''replay''"
| "verdict_name BadMac = ''bad_mac''"
| "verdict_name Malformed = ''malformed''"
| "verdict_name BodyTooLong = ''body_too_long''"

record header =
  hd_type :: u8
  hd_conn :: bytes
  hd_seq :: u64

definition packet_tag :: "bytes \<Rightarrow> bytes \<Rightarrow> nat \<Rightarrow> bytes" where
  "packet_tag mac_key pkt aad_plus_ct = take MAC_LEN (hmac_sha256 mac_key (take aad_plus_ct pkt))"

definition read_header :: "bytes \<Rightarrow> header \<Rightarrow> header" where
  "read_header pkt out =
     out\<lparr> hd_type := pkt ! 1, hd_conn := take CONN_ID_BYTES (drop 2 pkt),
          hd_seq := get_u64 (drop 10 pkt) \<rparr>"

definition hdr_peek :: "bytes \<Rightarrow> header \<Rightarrow> bool \<times> header" where
  "hdr_peek pkt out =
     (if length pkt < MIN_DATAGRAM \<or> length pkt > MAX_DATAGRAM then (False, out)
      else if drop_bit 4 (pkt ! 0) \<noteq> MAGIC_NIBBLE then (False, out)
      else if pkt ! 0 AND 0x0f \<noteq> VERSION then (False, out)
      else if pkt ! 1 > PKT_TYPE_MAX then (False, out)
      else (True, read_header pkt out))"

definition packet_encode ::
    "u8 \<Rightarrow> bytes \<Rightarrow> u64 \<Rightarrow> bytes \<Rightarrow> bytes \<Rightarrow> bytes \<Rightarrow> verdict + bytes" where
  "packet_encode type conn_id seq enc_key mac_key body =
     (if type > PKT_TYPE_MAX then Inl BadType
      else if length body > MAX_BODY then Inl BodyTooLong
      else let pre = [MAGIC_VER, type] @ conn_id @ put_u64 seq;
               ct = (if body \<noteq> [] then chacha20_xor enc_key seq body else []);
               out = pre @ ct
           in Inr (out @ packet_tag mac_key out (HDR_SIZE + length body)))"

record decode_state =
  dg :: bytes
  dwin :: "replay_window option"
  dhdr :: header
  dbody_len :: nat

definition packet_decode ::
    "bytes option \<Rightarrow> bytes \<Rightarrow> bytes \<Rightarrow> decode_state \<Rightarrow> verdict \<times> decode_state" where
  "packet_decode expect_conn enc_key mac_key d =
     (let pkt = dg d; len = length pkt in
      if len > MAX_DATAGRAM then (TooLong, d)
      else if len < MIN_DATAGRAM then (TooShort, d)
      else if drop_bit 4 (pkt ! 0) \<noteq> MAGIC_NIBBLE then (BadMagic, d)
      else if pkt ! 0 AND 0x0f \<noteq> VERSION then (BadVersion, d)
      else if pkt ! 1 > PKT_TYPE_MAX then (BadType, d)
      else
        let d = d\<lparr> dhdr := read_header pkt (dhdr d) \<rparr>; hdr = dhdr d in
        if expect_conn \<noteq> None \<and> hd_conn hdr \<noteq> the expect_conn then (WrongConn, d)
        else if dwin d \<noteq> None \<and> \<not> win_check (the (dwin d)) (hd_seq hdr) then (Replay, d)
        else
          let ct_len = len - HDR_SIZE - TAG_SIZE;
              want = packet_tag mac_key pkt (HDR_SIZE + ct_len) in
          if \<not> ct_equal want (drop (HDR_SIZE + ct_len) pkt) MAC_LEN then (BadMac, d)
          else
            let pkt = (if ct_len \<noteq> 0
                       then memcpy_at pkt HDR_SIZE
                              (chacha20_xor enc_key (hd_seq hdr) (take ct_len (drop HDR_SIZE pkt)))
                       else pkt)
            in (Ok, d\<lparr> dg := pkt, dwin := map_option (\<lambda>w. win_commit w (hd_seq hdr)) (dwin d),
                       dbody_len := ct_len \<rparr>))"

subsection \<open>When a datagram is accepted\<close>

definition hdr_ok :: "bytes \<Rightarrow> bool" where
  "hdr_ok pkt \<longleftrightarrow> MIN_DATAGRAM \<le> length pkt \<and> length pkt \<le> MAX_DATAGRAM \<and>
     drop_bit 4 (pkt ! 0) = MAGIC_NIBBLE \<and> pkt ! 0 AND 0x0f = VERSION \<and> pkt ! 1 \<le> PKT_TYPE_MAX"

definition tag_ok :: "bytes \<Rightarrow> bytes \<Rightarrow> bool" where
  "tag_ok mac_key pkt \<longleftrightarrow>
     drop (length pkt - TAG_SIZE) pkt =
     take TAG_SIZE (hmac_ref mac_key (take (length pkt - TAG_SIZE) pkt))"

definition pkt_seq :: "bytes \<Rightarrow> u64" where "pkt_seq pkt = get_u64 (drop 10 pkt)"

definition pkt_conn :: "bytes \<Rightarrow> bytes" where "pkt_conn pkt = take CONN_ID_BYTES (drop 2 pkt)"

lemma length_packet_tag [simp]: "length (packet_tag k p n) = 16"
  by (simp add: packet_tag_def hmac_sha256_def MAC_LEN_def)

lemma tag_check:
  assumes "MIN_DATAGRAM \<le> length pkt"
  shows "ct_equal (packet_tag mk pkt (HDR_SIZE + (length pkt - HDR_SIZE - TAG_SIZE)))
      (drop (HDR_SIZE + (length pkt - HDR_SIZE - TAG_SIZE)) pkt) MAC_LEN = tag_ok mk pkt"
proof -
  have n: "HDR_SIZE + (length pkt - HDR_SIZE - TAG_SIZE) = length pkt - TAG_SIZE"
    and l: "length (drop (length pkt - TAG_SIZE) pkt) = MAC_LEN"
    using assms by (simp_all add: udp_sizes)
  show ?thesis
    unfolding n using l
    by (subst ct_equal_take)
      (auto simp: tag_ok_def packet_tag_def hmac_sha256_def hmac_pieces_eq_ref TAG_SIZE_def
        MAC_LEN_def)
qed

lemma hdr_peek_iff: "hdr_peek pkt out = (if hdr_ok pkt then (True, read_header pkt out) else (False, out))"
  by (auto simp: hdr_peek_def hdr_ok_def)

lemma packet_decode_ok_iff:
  "fst (packet_decode ec ek mk d) = Ok \<longleftrightarrow>
     hdr_ok (dg d) \<and> (\<forall>c. ec = Some c \<longrightarrow> pkt_conn (dg d) = c) \<and>
     (\<forall>w. dwin d = Some w \<longrightarrow> win_check w (pkt_seq (dg d))) \<and> tag_ok mk (dg d)"
  using tag_check [of "dg d" mk]
  by (cases ec; cases "dwin d")
    (auto simp: packet_decode_def Let_def hdr_ok_def read_header_def pkt_seq_def pkt_conn_def)

lemma packet_decode_ok:
  assumes "fst (packet_decode ec ek mk d) = Ok"
  shows "snd (packet_decode ec ek mk d) = d\<lparr>
     dg := take HDR_SIZE (dg d) @
           chacha20_xor ek (pkt_seq (dg d)) (take (length (dg d) - 34) (drop HDR_SIZE (dg d))) @
           drop (length (dg d) - TAG_SIZE) (dg d),
     dwin := map_option (\<lambda>w. win_commit w (pkt_seq (dg d))) (dwin d),
     dhdr := read_header (dg d) (dhdr d),
     dbody_len := length (dg d) - 34 \<rparr>"
proof -
  from assms have ok: "hdr_ok (dg d)" "\<And>c. ec = Some c \<Longrightarrow> pkt_conn (dg d) = c"
      "\<And>w. dwin d = Some w \<Longrightarrow> win_check w (pkt_seq (dg d))" "tag_ok mk (dg d)"
    by (auto simp: packet_decode_ok_iff)
  then have l: "34 \<le> length (dg d)" by (simp add: hdr_ok_def udp_sizes)
  have "take 18 (dg d) @ drop 18 (dg d) = dg d" by simp
  then show ?thesis
    using ok l tag_check [of "dg d" mk]
    by (cases ec; cases "dwin d")
      (auto simp: packet_decode_def Let_def hdr_ok_def read_header_def pkt_seq_def pkt_conn_def
        memcpy_at_def udp_sizes chacha.crypt_nil)
qed

text \<open>A refused datagram changes neither the buffer nor the window; at most the header is filled in.\<close>

lemma packet_decode_refused:
  assumes "fst (packet_decode ec ek mk d) \<noteq> Ok"
  shows "snd (packet_decode ec ek mk d) = d \<or>
    snd (packet_decode ec ek mk d) = d\<lparr> dhdr := read_header (dg d) (dhdr d) \<rparr>"
  using assms by (auto simp: packet_decode_def Let_def)

lemma packet_decode_refused_window:
  "fst (packet_decode ec ek mk d) \<noteq> Ok \<Longrightarrow>
     dwin (snd (packet_decode ec ek mk d)) = dwin d \<and> dg (snd (packet_decode ec ek mk d)) = dg d
     \<and> dbody_len (snd (packet_decode ec ek mk d)) = dbody_len d"
  using packet_decode_refused by (metis (no_types, lifting) decode_state.ext_inject
    decode_state.surjective decode_state.update_convs(3))

subsection \<open>Sealing, then opening\<close>

lemma magic_ver: "drop_bit 4 MAGIC_VER = MAGIC_NIBBLE" "MAGIC_VER AND 0x0f = VERSION"
  by (simp_all add: MAGIC_VER_def MAGIC_NIBBLE_def VERSION_def)

lemma magic_ver_unique:
  assumes "drop_bit 4 b = MAGIC_NIBBLE" "b AND 0x0f = VERSION"
  shows "b = MAGIC_VER"
proof -
  have "unat b div 16 = 4" using arg_cong [OF assms(1), of unat] unfolding unat_nibble_hi
    by (simp add: MAGIC_NIBBLE_def)
  moreover have "unat b mod 16 = 1" using arg_cong [OF assms(2), of unat] unfolding unat_nibble_lo
    by (simp add: VERSION_def)
  ultimately have "unat b = 65" using mult_div_mod_eq [of 16 "unat b"] by simp
  then show ?thesis by (simp add: MAGIC_VER_def MAGIC_NIBBLE_def VERSION_def word_unat_eq_iff)
qed

lemma packet_encode_shape:
  assumes "packet_encode ty conn seq ek mk body = Inr out" and "length conn = CONN_ID_BYTES"
  shows "ty \<le> PKT_TYPE_MAX" "length body \<le> MAX_BODY"
    "out = ([MAGIC_VER, ty] @ conn @ put_u64 seq @ chacha20_xor ek seq body) @
       take TAG_SIZE (hmac_ref mk ([MAGIC_VER, ty] @ conn @ put_u64 seq @ chacha20_xor ek seq body))"
  using assms
  by (auto simp: packet_encode_def Let_def packet_tag_def hmac_sha256_def hmac_pieces_eq_ref
      udp_sizes chacha.crypt_nil split: if_splits)

lemma packet_encode_length:
  assumes "packet_encode ty conn seq ek mk body = Inr out" and "length conn = CONN_ID_BYTES"
  shows "length out = HDR_SIZE + length body + TAG_SIZE" "length out \<le> MAX_DATAGRAM"
  using packet_encode_shape [OF assms] assms(2) by (simp_all add: udp_sizes)

lemma tag_ok_sealed: "tag_ok mk (p @ take TAG_SIZE (hmac_ref mk p))"
  by (simp add: tag_ok_def udp_sizes)

lemma packet_encode_fields:
  assumes "packet_encode ty conn seq ek mk body = Inr out" and "length conn = CONN_ID_BYTES"
  shows "hdr_ok out" "tag_ok mk out" "pkt_seq out = seq" "pkt_conn out = conn" "out ! 1 = ty"
    "take (length out - 34) (drop HDR_SIZE out) = chacha20_xor ek seq body"
proof -
  note sh = packet_encode_shape [OF assms]
  show "tag_ok mk out" by (subst sh(3)) (rule tag_ok_sealed)
  show "hdr_ok out" "pkt_seq out = seq" "pkt_conn out = conn" "out ! 1 = ty"
    "take (length out - 34) (drop HDR_SIZE out) = chacha20_xor ek seq body"
    using sh packet_encode_length [OF assms] assms(2)
    by (simp_all add: hdr_ok_def pkt_seq_def pkt_conn_def magic_ver udp_sizes)
qed

lemma packet_seal_open:
  assumes enc: "packet_encode ty conn seq ek mk body = Inr out" and conn: "length conn = CONN_ID_BYTES"
    and ec: "ec = None \<or> ec = Some conn" and dg: "dg d = out"
    and win: "\<And>w. dwin d = Some w \<Longrightarrow> win_check w seq"
  shows "packet_decode ec ek mk d =
    (Ok, d\<lparr> dg := take HDR_SIZE out @ body @ drop (length out - TAG_SIZE) out,
            dwin := map_option (\<lambda>w. win_commit w seq) (dwin d),
            dhdr := (dhdr d)\<lparr> hd_type := ty, hd_conn := conn, hd_seq := seq \<rparr>,
            dbody_len := length body \<rparr>)"
proof -
  note f = packet_encode_fields [OF enc conn]
  have ok: "fst (packet_decode ec ek mk d) = Ok"
    using f ec win by (auto simp: packet_decode_ok_iff dg)
  have len: "length out - 34 = length body"
    using packet_encode_length [OF enc conn] by (simp add: udp_sizes)
  have body: "chacha20_xor ek seq (take (length body) (drop HDR_SIZE out)) = body"
    using f(6) by (simp add: len)
  have hdr: "read_header out (dhdr d) = (dhdr d)\<lparr> hd_type := ty, hd_conn := conn, hd_seq := seq \<rparr>"
    using f by (simp add: read_header_def pkt_seq_def pkt_conn_def)
  show ?thesis
    using packet_decode_ok [OF ok] ok by (simp add: dg f(3) len body hdr prod_eq_iff)
qed

subsection \<open>A stream of datagrams\<close>

text \<open>
  A receiver with one session: each arriving datagram is decoded against the direction's window,
  which the call updates.  \<open>receive\<close> returns the final window and the sequences accepted in order.
\<close>

definition receive1 :: "bytes option \<Rightarrow> bytes \<Rightarrow> bytes \<Rightarrow> replay_window \<Rightarrow> bytes \<Rightarrow> verdict \<times> decode_state" where
  "receive1 ec ek mk w pkt =
     packet_decode ec ek mk
       \<lparr> dg = pkt, dwin = Some w, dhdr = \<lparr> hd_type = 0, hd_conn = [], hd_seq = 0 \<rparr>, dbody_len = 0 \<rparr>"

fun receive :: "bytes option \<Rightarrow> bytes \<Rightarrow> bytes \<Rightarrow> replay_window \<Rightarrow> bytes list \<Rightarrow> replay_window \<times> u64 list" where
  "receive ec ek mk w [] = (w, [])"
| "receive ec ek mk w (pkt # pkts) =
     (let (v, d) = receive1 ec ek mk w pkt;
          (w', seqs) = receive ec ek mk (the (dwin d)) pkts
      in (w', if v = Ok then hd_seq (dhdr d) # seqs else seqs))"

text \<open>The packet layer offers the window exactly the authenticated sequences.\<close>

definition authentic :: "bytes option \<Rightarrow> bytes \<Rightarrow> bytes \<Rightarrow> bool" where
  "authentic ec mk pkt \<longleftrightarrow> hdr_ok pkt \<and> (\<forall>c. ec = Some c \<longrightarrow> pkt_conn pkt = c) \<and> tag_ok mk pkt"

lemma receive1_window:
  "the (dwin (snd (receive1 ec ek mk w pkt))) =
     (if authentic ec mk pkt then win_commit w (pkt_seq pkt) else w)"
  "fst (receive1 ec ek mk w pkt) = Ok \<longleftrightarrow> authentic ec mk pkt \<and> win_check w (pkt_seq pkt)"
  "fst (receive1 ec ek mk w pkt) = Ok \<Longrightarrow> hd_seq (dhdr (snd (receive1 ec ek mk w pkt))) = pkt_seq pkt"
proof -
  let ?d = "\<lparr> dg = pkt, dwin = Some w, dhdr = \<lparr> hd_type = 0, hd_conn = [], hd_seq = 0 \<rparr>, dbody_len = 0 \<rparr>"
  show iff: "fst (receive1 ec ek mk w pkt) = Ok \<longleftrightarrow> authentic ec mk pkt \<and> win_check w (pkt_seq pkt)"
    by (auto simp: receive1_def packet_decode_ok_iff authentic_def)
  show "the (dwin (snd (receive1 ec ek mk w pkt))) =
     (if authentic ec mk pkt then win_commit w (pkt_seq pkt) else w)"
  proof (cases "fst (receive1 ec ek mk w pkt) = Ok")
    case True
    then show ?thesis
      using packet_decode_ok [of ec ek mk ?d] iff by (simp add: receive1_def)
  next
    case False
    then show ?thesis
      using packet_decode_refused_window [of ec ek mk ?d] iff
      by (auto simp: receive1_def win_commit_rejected)
  qed
  show "hd_seq (dhdr (snd (receive1 ec ek mk w pkt))) = pkt_seq pkt" if "fst (receive1 ec ek mk w pkt) = Ok"
    using packet_decode_ok [of ec ek mk ?d] that by (simp add: receive1_def read_header_def pkt_seq_def)
qed

lemma receive_guard_run:
  "receive ec ek mk w pkts = guard_run win_check win_commit w (map pkt_seq (filter (authentic ec mk) pkts))"
proof (induction pkts arbitrary: w)
  case (Cons pkt pkts)
  show ?case
    using receive1_window [of ec ek mk w pkt] Cons
    by (auto simp: case_prod_beta win_commit_rejected prod_eq_iff)
qed simp

lemma receive_distinct: "distinct (snd (receive ec ek mk win_reset pkts))"
  using rw.run_distinct [OF rw.abs_init] by (simp add: receive_guard_run)

lemma read_header_eq:
  "read_header pkt h = h\<lparr> hd_type := pkt ! 1, hd_conn := pkt_conn pkt, hd_seq := pkt_seq pkt \<rparr>"
  by (simp add: read_header_def pkt_conn_def pkt_seq_def)

lemma packet_decode_canonical:
  assumes ok: "fst (packet_decode ec ek mk d) = Ok"
  shows "packet_encode (dg d ! 1) (pkt_conn (dg d)) (pkt_seq (dg d)) ek mk
    (chacha20_xor ek (pkt_seq (dg d)) (take (length (dg d) - 34) (drop HDR_SIZE (dg d)))) = Inr (dg d)"
proof -
  let ?p = "dg d"
  define n where "n = length ?p - 34"
  from ok have h: "hdr_ok ?p" and tag: "tag_ok mk ?p" by (simp_all add: packet_decode_ok_iff)
  then have len: "length ?p = n + 34" "n \<le> 1166" by (auto simp: n_def hdr_ok_def udp_sizes)
  have b0: "?p ! 0 = MAGIC_VER" using h by (intro magic_ver_unique) (simp_all add: hdr_ok_def)
  have ty: "\<not> PKT_TYPE_MAX < ?p ! 1" using h by (simp add: hdr_ok_def not_less)
  let ?ct = "take n (drop 18 ?p)"
  have "take (18 + n) ?p = take 2 ?p @ take 8 (drop 2 ?p) @ take 8 (drop 10 ?p) @ ?ct"
    by (simp add: take_take_chain append_assoc [symmetric] del: append_assoc)
  also have "take 2 ?p = [MAGIC_VER, ?p ! 1]" using take_2_nth [of ?p] b0 len by simp
  also have "take 8 (drop 2 ?p) = pkt_conn ?p" by (simp add: pkt_conn_def CONN_ID_BYTES_def)
  also have "take 8 (drop 10 ?p) = put_u64 (pkt_seq ?p)" using len by (simp add: pkt_seq_def le64.enc_dec)
  finally have pre: "[MAGIC_VER, ?p ! 1] @ pkt_conn ?p @ put_u64 (pkt_seq ?p) @ ?ct = take (18 + n) ?p" ..
  have "drop (18 + n) ?p = take 16 (hmac_ref mk (take (18 + n) ?p))"
    using tag len by (simp add: tag_ok_def udp_sizes)
  then have whole: "take (18 + n) ?p @ take 16 (hmac_ref mk (take (18 + n) ?p)) = ?p"
    by (metis append_take_drop_id)
  have conn: "length (pkt_conn ?p) = CONN_ID_BYTES" using len by (simp add: pkt_conn_def CONN_ID_BYTES_def)
  obtain out where out: "packet_encode (?p ! 1) (pkt_conn ?p) (pkt_seq ?p) ek mk
      (chacha20_xor ek (pkt_seq ?p) ?ct) = Inr out"
    using ty len by (auto simp: packet_encode_def Let_def udp_sizes)
  from packet_encode_shape(3) [OF out conn] have "out = ?p"
    by (simp only: chacha20_xor_involution pre TAG_SIZE_def MAC_LEN_def whole)
  with out show ?thesis by (simp add: n_def HDR_SIZE_def)
qed

subsection \<open>Properties\<close>

text \<open>C1. No sequence is accepted twice: whatever datagrams arrive, forged, replayed or reordered, the
  sequences that a receiver accepts on one window are pairwise different.\<close>

theorem receive_never_repeats: "distinct (snd (receive ec ek mk win_reset pkts))"
  by (rule receive_distinct)

text \<open>A datagram sealed for a body of at most 1166 bytes is at most 1200 bytes long, and the receiver
  with the same keys, the same connection and a window that has not seen the sequence opens it to the
  same type, sequence and body, and commits the sequence.\<close>

theorem sealed_packet_opens:
  assumes "ty \<le> PKT_TYPE_MAX" "length body \<le> MAX_BODY" "length conn = CONN_ID_BYTES"
    and "dwin d = Some w" "win_check w seq"
  shows "\<exists>out. packet_encode ty conn seq ek mk body = Inr out \<and> length out \<le> MAX_DATAGRAM \<and>
    packet_decode (Some conn) ek mk (d\<lparr> dg := out \<rparr>) =
      (Ok, d\<lparr> dg := take HDR_SIZE out @ body @ drop (length out - TAG_SIZE) out,
              dwin := Some (win_commit w seq),
              dhdr := (dhdr d)\<lparr> hd_type := ty, hd_conn := conn, hd_seq := seq \<rparr>,
              dbody_len := length body \<rparr>)"
proof -
  obtain out where out: "packet_encode ty conn seq ek mk body = Inr out"
    using assms(1,2) by (auto simp: packet_encode_def Let_def not_less)
  from packet_seal_open [OF out assms(3), of "Some conn" "d\<lparr> dg := out \<rparr>"] out
    packet_encode_length(2) [OF out assms(3)] assms(4,5)
  show ?thesis by simp
qed

theorem sealed_packet_opens_witness:
  "\<exists>out. packet_encode 0 (replicate 8 7) 5 [1] [2] [3, 4] = Inr out \<and> length out \<le> MAX_DATAGRAM \<and>
    packet_decode (Some (replicate 8 7)) [1] [2]
      (\<lparr> dg = [], dwin = Some win_reset, dhdr = \<lparr> hd_type = 0, hd_conn = [], hd_seq = 0 \<rparr>, dbody_len = 0 \<rparr>\<lparr> dg := out \<rparr>) =
      (Ok, \<lparr> dg = [], dwin = Some win_reset, dhdr = \<lparr> hd_type = 0, hd_conn = [], hd_seq = 0 \<rparr>, dbody_len = 0 \<rparr>
        \<lparr> dg := take HDR_SIZE out @ [3, 4] @ drop (length out - TAG_SIZE) out,
          dwin := Some (win_commit win_reset 5),
          dhdr := (dhdr \<lparr> dg = [], dwin = Some win_reset, dhdr = \<lparr> hd_type = 0, hd_conn = [], hd_seq = 0 \<rparr>, dbody_len = 0 \<rparr>)
            \<lparr> hd_type := 0, hd_conn := replicate 8 7, hd_seq := 5 \<rparr>,
          dbody_len := length [3 :: u8, 4] \<rparr>)"
  by (rule sealed_packet_opens) (simp_all add: PKT_TYPE_MAX_def udp_sizes win_check_def win_reset_def)

text \<open>C2. The decoder accepts a datagram exactly when it is, byte for byte, what the encoder makes of
  some type, connection id, sequence and body under the same keys, the connection id is the expected
  one and the window admits the sequence.\<close>

theorem packet_accepted_iff:
  "fst (packet_decode ec ek mk d) = Ok \<longleftrightarrow>
     (\<exists>ty conn seq body. length conn = CONN_ID_BYTES \<and>
        packet_encode ty conn seq ek mk body = Inr (dg d) \<and> (ec = None \<or> ec = Some conn) \<and>
        (dwin d = None \<or> win_check (the (dwin d)) seq))"
proof
  assume ok: "fst (packet_decode ec ek mk d) = Ok"
  have "length (pkt_conn (dg d)) = CONN_ID_BYTES"
    using ok by (auto simp: packet_decode_ok_iff hdr_ok_def pkt_conn_def udp_sizes)
  moreover have "ec = None \<or> ec = Some (pkt_conn (dg d))"
      "dwin d = None \<or> win_check (the (dwin d)) (pkt_seq (dg d))"
    using ok unfolding packet_decode_ok_iff by (cases ec; cases "dwin d"; simp)+
  ultimately show "\<exists>ty conn seq body. length conn = CONN_ID_BYTES \<and>
      packet_encode ty conn seq ek mk body = Inr (dg d) \<and> (ec = None \<or> ec = Some conn) \<and>
      (dwin d = None \<or> win_check (the (dwin d)) seq)"
    using packet_decode_canonical [OF ok] by blast
next
  assume "\<exists>ty conn seq body. length conn = CONN_ID_BYTES \<and>
      packet_encode ty conn seq ek mk body = Inr (dg d) \<and> (ec = None \<or> ec = Some conn) \<and>
      (dwin d = None \<or> win_check (the (dwin d)) seq)"
  then obtain ty conn seq body where conn: "length conn = CONN_ID_BYTES"
    and enc: "packet_encode ty conn seq ek mk body = Inr (dg d)"
    and ec: "ec = None \<or> ec = Some conn" and win: "dwin d = None \<or> win_check (the (dwin d)) seq"
    by blast
  show "fst (packet_decode ec ek mk d) = Ok"
    using packet_encode_fields [OF enc conn] ec win by (auto simp: packet_decode_ok_iff)
qed

text \<open>A datagram that is refused, for whatever reason, changes neither the replay window nor the
  buffer nor the body length: a forged packet cannot push the window forward.\<close>

theorem refused_packet_changes_nothing:
  "fst (packet_decode ec ek mk d) = Ok \<or>
   (dwin (snd (packet_decode ec ek mk d)) = dwin d \<and> dg (snd (packet_decode ec ek mk d)) = dg d \<and>
    dbody_len (snd (packet_decode ec ek mk d)) = dbody_len d)"
  using packet_decode_refused_window by blast

end
