(* ===== verification/Delimited.thy ===== *)
theory Delimited
  imports Mh_Prelude
begin

text \<open>
  Self-delimiting items.  Channel frames, latest-wins records and step-input entries are all
  written one after the other and walked by a reader that learns each item's extent from its own
  head.  \<open>items\<close> is that walk; \<open>delimited\<close> is what an item codec promises, and the round trip of the
  walk is proved from it once.
\<close>

text \<open>\<open>dec p\<close> reads one item at the start of \<open>p\<close> and its extent, or refuses.\<close>

function items :: "(bytes \<Rightarrow> ('i \<times> nat) option) \<Rightarrow> bytes \<Rightarrow> 'i list option" where
  "items dec p =
     (if p = [] then Some []
      else case dec p of
             None \<Rightarrow> None
           | Some (i, n) \<Rightarrow> if n = 0 then None else map_option ((#) i) (items dec (drop n p)))"
  by pat_completeness auto
termination
  by (relation "measure (\<lambda>(dec, p). length p)") auto

declare items.simps [simp del]

lemma items_nil [simp]: "items dec [] = Some []"
  by (simp add: items.simps)

locale delimited =
  fixes enc :: "'i \<Rightarrow> bytes" and dec :: "bytes \<Rightarrow> ('i \<times> nat) option" and valid :: "'i \<Rightarrow> bool"
  assumes enc_nonempty: "enc i \<noteq> []"
    and dec_enc: "valid i \<Longrightarrow> dec (enc i @ r) = Some (i, length (enc i))"
    and dec_valid: "dec p = Some (i, n) \<Longrightarrow> valid i \<and> n = length (enc i) \<and> n \<le> length p \<and> take n p = enc i"
begin

lemma items_enc: "list_all valid xs \<Longrightarrow> items dec (concat (map enc xs)) = Some xs"
proof (induction xs)
  case (Cons i xs)
  then show ?case using enc_nonempty [of i] by (subst items.simps) (simp add: dec_enc)
qed simp

lemma items_append:
  "list_all valid xs \<Longrightarrow>
     items dec (concat (map enc xs) @ r) = map_option ((@) xs) (items dec r)"
proof (induction xs)
  case Nil
  show ?case by (cases "items dec r") simp_all
next
  case (Cons i xs)
  then show ?case
    using enc_nonempty [of i]
    by (subst items.simps) (cases "items dec r", simp_all add: dec_enc)
qed

lemma items_canonical: "items dec p = Some xs \<Longrightarrow> list_all valid xs \<and> concat (map enc xs) = p"
proof (induction "length p" arbitrary: p xs rule: less_induct)
  case less
  show ?case
  proof (cases "p = []")
    case True
    with less.prems show ?thesis by simp
  next
    case False
    with less.prems obtain i n ys where d: "dec p = Some (i, n)" and n: "n \<noteq> 0"
      and ys: "items dec (drop n p) = Some ys" and xs: "xs = i # ys"
      by (subst (asm) items.simps) (auto split: option.splits if_splits)
    from dec_valid [OF d] have "valid i" "take n p = enc i" by auto
    moreover have "list_all valid ys \<and> concat (map enc ys) = drop n p"
      using less.hyps [OF _ ys] False n by simp
    ultimately show ?thesis by (metis append_take_drop_id concat.simps(2) list.pred_inject(2)
      list.simps(9) xs)
  qed
qed

end

end
