(* ===== verification/Udp_Frames.thy ===== *)
theory Udp_Frames
  imports Udp_Packet Delimited
begin

text \<open>
  The sealed body of a datagram (\<open>mh_net_proto/src/net_udp.cpp\<close>): the channel mux, channel A
  (step inputs, redundant) and channel B (latest-wins records).  A pointer into the payload is
  modelled by the bytes it points to.
\<close>

subsection \<open>Channel mux\<close>

definition FRAME_HDR :: nat where "FRAME_HDR = 3"

record frame =
  fr_id :: u8
  fr_data :: bytes

definition frame_append :: "bytes \<Rightarrow> nat \<Rightarrow> nat \<Rightarrow> u8 \<Rightarrow> bytes \<Rightarrow> bool \<times> bytes \<times> nat" where
  "frame_append body cap used chan payload =
     (if length payload > 0xffff then (False, body, used)
      else if used + FRAME_HDR + length payload > cap then (False, body, used)
      else (True, memcpy_at body used (chan # put_u16 (of_nat (length payload)) @ payload),
            used + FRAME_HDR + length payload))"

text \<open>\<open>frame_next body off out\<close> returns its result, \<open>ok\<close>, the offset and \<open>out\<close>.\<close>

definition frame_next :: "bytes \<Rightarrow> nat \<Rightarrow> frame \<Rightarrow> bool \<times> bool \<times> nat \<times> frame" where
  "frame_next body off out =
     (if off = length body then (False, True, off, out)
      else if off + FRAME_HDR > length body then (False, False, off, out)
      else let flen = unat (get_u16 (drop (off + 1) body)) in
           if off + FRAME_HDR + flen > length body then (False, False, off, out)
           else (True, True, off + FRAME_HDR + flen,
                 \<lparr> fr_id = body ! off, fr_data = take flen (drop (off + FRAME_HDR) body) \<rparr>))"

text \<open>The receiver's loop: frames until \<open>frame_next\<close> returns false, with the final \<open>ok\<close>.\<close>

function frames_walk :: "bytes \<Rightarrow> nat \<Rightarrow> frame list \<times> bool" where
  "frames_walk body off =
     (let (got, ok, off', f) = frame_next body off \<lparr> fr_id = 0, fr_data = [] \<rparr>
      in if got then (let (fs, ok') = frames_walk body off' in (f # fs, ok')) else ([], ok))"
  by pat_completeness auto
termination
  by (relation "measure (\<lambda>(body, off). length body - off)")
    (auto simp: frame_next_def FRAME_HDR_def Let_def split: if_splits)

declare frames_walk.simps [simp del]

definition frame_enc :: "frame \<Rightarrow> bytes" where
  "frame_enc f = fr_id f # put_u16 (of_nat (length (fr_data f))) @ fr_data f"

definition frame_dec :: "bytes \<Rightarrow> (frame \<times> nat) option" where
  "frame_dec p =
     (case frame_next p 0 \<lparr> fr_id = 0, fr_data = [] \<rparr> of
        (got, ok, off', f) \<Rightarrow> if got then Some (f, off') else None)"

definition frame_fits :: "frame \<Rightarrow> bool" where
  "frame_fits f \<longleftrightarrow> length (fr_data f) \<le> 0xffff"

interpretation frames: delimited frame_enc frame_dec frame_fits
proof unfold_locales
  show "frame_enc f \<noteq> []" for f by (simp add: frame_enc_def)
  show "frame_dec (frame_enc f @ r) = Some (f, length (frame_enc f))" if "frame_fits f" for f r
    using that
    by (simp add: frame_fits_def frame_dec_def frame_next_def frame_enc_def FRAME_HDR_def
        unat_of_nat_u16 Let_def)
  show "frame_fits f \<and> n = length (frame_enc f) \<and> n \<le> length p \<and> take n p = frame_enc f"
    if "frame_dec p = Some (f, n)" for p f n
  proof -
    from that have p: "3 \<le> length p"
      and n: "n = 3 + unat (get_u16 (drop 1 p))" "n \<le> length p"
      and f: "f = \<lparr> fr_id = p ! 0, fr_data = take (unat (get_u16 (drop 1 p))) (drop 3 p) \<rparr>"
      by (auto simp: frame_dec_def frame_next_def FRAME_HDR_def Let_def split: if_splits)
    have l: "length (fr_data f) = unat (get_u16 (drop 1 p))" using n f by simp
    have "unat (get_u16 (drop 1 p)) \<le> 0xffff"
      using unat_u16 [of "get_u16 (drop 1 p)"] by simp
    moreover have "take n p = frame_enc f"
    proof -
      obtain a b c q where q: "p = a # b # c # q"
        using p by (auto simp: numeral_3_eq_3 Suc_le_length_iff)
      have "put_u16 (get_u16 (b # c # q)) = [b, c]"
        using le16.enc_dec [of "b # c # q"] by (simp add: numeral_2_eq_2)
      then show ?thesis
        using l by (simp add: frame_enc_def f n(1) q numeral_3_eq_3)
    qed
    ultimately show ?thesis using l n by (simp add: frame_fits_def frame_enc_def)
  qed
qed

lemma frame_next_dec:
  assumes "off < length body"
  shows "case frame_dec (drop off body) of
      Some (f, n) \<Rightarrow> frame_next body off out = (True, True, off + n, f) \<and> 0 < n \<and> off + n \<le> length body
    | None \<Rightarrow> frame_next body off out = (False, False, off, out)"
  using assms
  by (auto simp: frame_dec_def frame_next_def FRAME_HDR_def Let_def add.commute add.left_commute)

lemma frames_walk_items:
  assumes "off \<le> length body"
  shows "case items frame_dec (drop off body) of
      Some fs \<Rightarrow> frames_walk body off = (fs, True)
    | None \<Rightarrow> \<not> snd (frames_walk body off)"
  using assms
proof (induction "length body - off" arbitrary: off rule: less_induct)
  case less
  show ?case
  proof (cases "off = length body")
    case True
    then show ?thesis by (subst frames_walk.simps) (simp add: frame_next_def)
  next
    case False
    with less.prems have lt: "off < length body" by simp
    note nxt = frame_next_dec [OF lt, of "\<lparr> fr_id = 0, fr_data = [] \<rparr>"]
    show ?thesis
    proof (cases "frame_dec (drop off body)")
      case None
      with nxt lt show ?thesis
        by (subst frames_walk.simps, subst items.simps) simp
    next
      case (Some fn)
      obtain f n where fn: "fn = (f, n)" by fastforce
      with Some nxt have step: "frame_next body off \<lparr> fr_id = 0, fr_data = [] \<rparr> = (True, True, off + n, f)"
        and n: "0 < n" "off + n \<le> length body" by auto
      have IH: "case items frame_dec (drop (off + n) body) of
          Some fs \<Rightarrow> frames_walk body (off + n) = (fs, True)
        | None \<Rightarrow> \<not> snd (frames_walk body (off + n))"
        using n by (intro less.hyps) simp_all
      have "items frame_dec (drop off body) = map_option ((#) f) (items frame_dec (drop (off + n) body))"
        using Some fn n lt by (subst items.simps) (simp add: add.commute)
      moreover have "frames_walk body off =
          (f # fst (frames_walk body (off + n)), snd (frames_walk body (off + n)))"
        by (subst frames_walk.simps) (simp add: step case_prod_beta)
      ultimately show ?thesis using IH by (auto split: option.splits)
    qed
  qed
qed

text \<open>Writing a list of frames with \<open>frame_append\<close>, as a sender does.\<close>

fun frames_append :: "bytes \<Rightarrow> nat \<Rightarrow> nat \<Rightarrow> frame list \<Rightarrow> bool \<times> bytes \<times> nat" where
  "frames_append body cap used [] = (True, body, used)"
| "frames_append body cap used (f # fs) =
     (case frame_append body cap used (fr_id f) (fr_data f) of
        (ok, body', used') \<Rightarrow> if ok then frames_append body' cap used' fs else (False, body', used'))"

lemma frame_append_ok:
  assumes "frame_append body cap used i pl = (ok, body', used')" and "used \<le> cap" "cap \<le> length body"
  shows "length body' = length body"
    "ok \<Longrightarrow> take used' body' = take used body @ frame_enc \<lparr> fr_id = i, fr_data = pl \<rparr>"
    "ok \<Longrightarrow> used' \<le> cap" "ok \<Longrightarrow> length pl \<le> 0xffff"
    "\<not> ok \<Longrightarrow> body' = body \<and> used' = used"
  using assms
  by (auto simp: frame_append_def frame_enc_def FRAME_HDR_def take_memcpy_at split: if_splits)

lemma frames_append_enc:
  assumes "frames_append body cap used fs = (True, body', used')" and "used \<le> cap" "cap \<le> length body"
  shows "take used' body' = take used body @ concat (map frame_enc fs) \<and> list_all frame_fits fs
    \<and> used' \<le> length body'"
  using assms
proof (induction fs arbitrary: body used)
  case Nil
  then show ?case by simp
next
  case (Cons f fs)
  obtain b u where 1: "frame_append body cap used (fr_id f) (fr_data f) = (True, b, u)"
    and 2: "frames_append b cap u fs = (True, body', used')"
    using Cons.prems(1) by (auto split: prod.splits if_splits)
  note a = frame_append_ok [OF 1 Cons.prems(2,3)]
  have "\<lparr> fr_id = fr_id f, fr_data = fr_data f \<rparr> = f" by simp
  with Cons.IH [OF 2] a Cons.prems(3) show ?case by (simp add: frame_fits_def)
qed

lemma frames_round_trip:
  assumes "frames_append body cap 0 fs = (True, body', used')" and "cap \<le> length body"
  shows "frames_walk (take used' body') 0 = (fs, True)"
  using frames_append_enc [OF assms(1) _ assms(2)] frames.items_enc [of fs]
    frames_walk_items [of 0 "take used' body'"] by simp

lemma frames_walk_canonical:
  assumes "frames_walk body 0 = (fs, True)"
  shows "concat (map frame_enc fs) = body"
  using assms frames_walk_items [of 0 body] frames.items_canonical [of body fs]
  by (auto split: option.splits)

subsection \<open>Properties\<close>

text \<open>Frames appended one after the other are walked back as the same frames, to a clean end; and a
  body whose walk ends cleanly is exactly the frames it yielded, so no byte is skipped.\<close>

theorem frame_mux_round_trip:
  assumes "frames_append body cap 0 fs = (True, body', used')" and "cap \<le> length body"
    and "frames_walk other 0 = (gs, True)"
  shows "frames_walk (take used' body') 0 = (fs, True) \<and> concat (map frame_enc gs) = other"
  using frames_round_trip [OF assms(1,2)] frames_walk_canonical [OF assms(3)] by simp

theorem frame_mux_round_trip_witness:
  "frames_walk (take 9 (snd (1 :: nat, [1, 2, 0, 5, 6, 3, 1, 0, 9, 0 :: u8]))) 0 =
     ([\<lparr> fr_id = 1, fr_data = [5, 6] \<rparr>, \<lparr> fr_id = 3, fr_data = [9] \<rparr>], True) \<and>
   concat (map frame_enc [\<lparr> fr_id = 1, fr_data = [] \<rparr>]) = [1, 0, 0]"
  using frame_mux_round_trip
    [of "replicate 10 0" 10 "[\<lparr> fr_id = 1, fr_data = [5, 6] \<rparr>, \<lparr> fr_id = 3, fr_data = [9] \<rparr>]"
      "[1, 2, 0, 5, 6, 3, 1, 0, 9, 0]" 9 "[1, 0, 0]" "[\<lparr> fr_id = 1, fr_data = [] \<rparr>]"]
  by (simp add: frame_append_def FRAME_HDR_def memcpy_at_def put_u16_def frames_walk.simps
      frame_next_def get_u16_def Let_def)

end
