(* ===== verification/Udp_Input.thy ===== *)
theory Udp_Input
  imports Udp_Packet Delimited
begin

text \<open>
  Channel A of the datagram body (\<open>input_encode\<close>, \<open>input_decode\<close> in
  \<open>mh_net_proto/src/net_udp.cpp\<close>): the inputs of the last \<open>K\<close> steps, newest first, the step numbers
  implied.  Step numbers are 32-bit and wrap.
\<close>

definition INPUT_K_MIN :: u8 where "INPUT_K_MIN = 1"
definition INPUT_K_MAX :: u8 where "INPUT_K_MAX = 8"
definition INPUT_ENTRY_MAX :: nat where "INPUT_ENTRY_MAX = 255"

record input_entry =
  ie_step :: u32
  ie_bytes :: bytes

text \<open>The checking loop: the space needed, or \<open>None\<close> where the code returns 0.\<close>

fun input_need :: "input_entry list \<Rightarrow> nat list \<Rightarrow> nat \<Rightarrow> nat option" where
  "input_need entries [] need = Some need"
| "input_need entries (i # is) need =
     (if length (ie_bytes (entries ! i)) > INPUT_ENTRY_MAX then None
      else if ie_step (entries ! i) \<noteq> ie_step (entries ! 0) - of_nat i then None
      else input_need entries is (need + 1 + length (ie_bytes (entries ! i))))"

definition input_entry_enc :: "bytes \<Rightarrow> bytes" where
  "input_entry_enc b = of_nat (length b) # b"

text \<open>The bytes written; the empty list is the refusal \<open>0\<close>.\<close>

definition input_encode :: "input_entry list \<Rightarrow> u8 \<Rightarrow> nat \<Rightarrow> bytes" where
  "input_encode entries count cap =
     (if count < INPUT_K_MIN \<or> count > INPUT_K_MAX then []
      else case input_need entries [0..<unat count] 5 of
             None \<Rightarrow> []
           | Some need \<Rightarrow>
               if need > cap then []
               else [count] @ put_u32 (ie_step (entries ! 0))
                    @ concat (map (\<lambda>i. input_entry_enc (ie_bytes (entries ! i))) [0..<unat count]))"

text \<open>The decoding loop: \<open>None\<close> is the early return, with the entries written so far.\<close>

fun input_read :: "bytes \<Rightarrow> u32 \<Rightarrow> nat list \<Rightarrow> nat \<Rightarrow> input_entry list \<Rightarrow> nat option \<times> input_entry list" where
  "input_read payload newest [] off out = (Some off, out)"
| "input_read payload newest (i # is) off out =
     (if off + 1 > length payload then (None, out)
      else let elen = unat (payload ! off); off = off + 1 in
           if off + elen > length payload then (None, out)
           else input_read payload newest is (off + elen)
                  (out[i := \<lparr> ie_step = newest - of_nat i, ie_bytes = take elen (drop off payload) \<rparr>]))"

definition input_decode :: "bytes \<Rightarrow> input_entry list \<Rightarrow> u8 \<times> verdict \<times> input_entry list" where
  "input_decode payload out =
     (if length payload < 5 then (0, Malformed, out)
      else let count = payload ! 0 in
           if count < INPUT_K_MIN \<or> count > INPUT_K_MAX then (0, Malformed, out)
           else let newest = get_u32 (drop 1 payload) in
                case input_read payload newest [0..<unat count] 5 out of
                  (None, out) \<Rightarrow> (0, Malformed, out)
                | (Some off, out) \<Rightarrow>
                    if off \<noteq> length payload then (0, Malformed, out) else (count, Ok, out))"

subsection \<open>The entries as delimited items\<close>

definition input_entry_dec :: "bytes \<Rightarrow> (bytes \<times> nat) option" where
  "input_entry_dec p =
     (if p = [] then None
      else let n = unat (p ! 0) in
           if 1 + n > length p then None else Some (take n (drop 1 p), 1 + n))"

definition input_entry_fits :: "bytes \<Rightarrow> bool" where
  "input_entry_fits b \<longleftrightarrow> length b \<le> INPUT_ENTRY_MAX"

interpretation inputs: delimited input_entry_enc input_entry_dec input_entry_fits
proof unfold_locales
  show "input_entry_enc b \<noteq> []" for b by (simp add: input_entry_enc_def)
  show "input_entry_dec (input_entry_enc b @ r) = Some (b, length (input_entry_enc b))"
    if "input_entry_fits b" for b r
    using that by (simp add: input_entry_fits_def INPUT_ENTRY_MAX_def input_entry_dec_def
        input_entry_enc_def unat_of_nat_u8 Let_def)
  show "input_entry_fits b \<and> n = length (input_entry_enc b) \<and> n \<le> length p \<and> take n p = input_entry_enc b"
    if "input_entry_dec p = Some (b, n)" for p b n
  proof (cases p)
    case (Cons a q)
    with that unat_u8 [of a] show ?thesis
      by (auto simp: input_entry_dec_def input_entry_fits_def INPUT_ENTRY_MAX_def input_entry_enc_def
          Let_def split: if_splits)
  qed (use that in \<open>simp add: input_entry_dec_def\<close>)
qed

text \<open>
  Reading \<open>k\<close> entries from \<open>off\<close> on: the loop succeeds exactly when the bytes up to the offset it
  returns are \<open>k\<close> entries.
\<close>

fun entries_at :: "u32 \<Rightarrow> nat \<Rightarrow> bytes list \<Rightarrow> input_entry list" where
  "entries_at newest i [] = []"
| "entries_at newest i (b # bs) = \<lparr> ie_step = newest - of_nat i, ie_bytes = b \<rparr> # entries_at newest (Suc i) bs"

lemma length_entries_at [simp]: "length (entries_at n i bs) = length bs"
  by (induction bs arbitrary: i) simp_all

lemma nth_entries_at:
  "k < length bs \<Longrightarrow> entries_at n i bs ! k = \<lparr> ie_step = n - of_nat (i + k), ie_bytes = bs ! k \<rparr>"
  by (induction bs arbitrary: i k) (auto simp: nth_Cons split: nat.splits)

lemma drop_nth_Cons: "off < length p \<Longrightarrow> drop off p = p ! off # drop (Suc off) p"
  by (simp add: Cons_nth_drop_Suc)

lemma input_read_sound:
  assumes "input_read p newest [i..<i + k] off out = (Some off', out')"
    and "off \<le> length p" "i + k \<le> length out"
  shows "\<exists>bs. length bs = k \<and> list_all input_entry_fits bs \<and> off' \<le> length p \<and>
    drop off p = concat (map input_entry_enc bs) @ drop off' p \<and>
    out' = take i out @ entries_at newest i bs @ drop (i + k) out"
  using assms
proof (induction k arbitrary: i off out)
  case 0
  then show ?case by simp
next
  case (Suc k)
  have upt: "[i..<i + Suc k] = i # [Suc i..<Suc i + k]" by (simp add: upt_rec)
  let ?e = "unat (p ! off)"
  let ?b = "take ?e (drop (Suc off) p)"
  let ?o = "out[i := \<lparr> ie_step = newest - of_nat i, ie_bytes = ?b \<rparr>]"
  from Suc.prems(1) have lt: "off < length p" "Suc off + ?e \<le> length p"
    and rest: "input_read p newest [Suc i..<Suc i + k] (Suc off + ?e) ?o = (Some off', out')"
    unfolding upt by (auto simp: Let_def split: if_splits)
  obtain bs where bs: "length bs = k" "list_all input_entry_fits bs" "off' \<le> length p"
      "drop (Suc off + ?e) p = concat (map input_entry_enc bs) @ drop off' p"
      "out' = take (Suc i) ?o @ entries_at newest (Suc i) bs @ drop (Suc i + k) ?o"
    using Suc.IH [OF rest] lt Suc.prems(3) by auto
  have "drop off p = input_entry_enc ?b @ drop (Suc off + ?e) p"
  proof -
    have "drop (Suc off) p = ?b @ drop (Suc off + ?e) p"
      by (metis append_take_drop_id drop_drop add.commute)
    moreover have "of_nat (length ?b) = p ! off" using lt by simp
    ultimately show ?thesis using lt by (simp add: input_entry_enc_def drop_nth_Cons)
  qed
  moreover have "input_entry_fits ?b" using unat_u8 [of "p ! off"]
    by (simp add: input_entry_fits_def INPUT_ENTRY_MAX_def)
  moreover have "out' = take i out @ entries_at newest i (?b # bs) @ drop (i + Suc k) out"
    using bs(5) Suc.prems(3) by (simp add: take_Suc_conv_app_nth take_update_cancel)
  ultimately show ?case using bs by (intro exI [of _ "?b # bs"]) simp
qed

lemma input_read_complete:
  assumes "drop off p = concat (map input_entry_enc bs) @ r" and "list_all input_entry_fits bs"
    and "i + length bs \<le> length out" and "off \<le> length p"
  shows "input_read p newest [i..<i + length bs] off out =
    (Some (length p - length r), take i out @ entries_at newest i bs @ drop (i + length bs) out)"
  using assms
proof (induction bs arbitrary: i off out)
  case Nil
  then have "length p - off = length r" by (metis append_Nil concat.simps(1) length_drop list.simps(8))
  with Nil show ?case by auto
next
  case (Cons b bs)
  have upt: "[i..<i + length (b # bs)] = i # [Suc i..<Suc i + length bs]" by (simp add: upt_rec)
  from Cons.prems(1) have d: "drop off p = of_nat (length b) # b @ concat (map input_entry_enc bs) @ r"
    by (simp add: input_entry_enc_def [of b])
  have lt: "off < length p" using d by (metis drop_eq_Nil2 leI list.distinct(1))
  from d lt have po: "p ! off = of_nat (length b)"
    and d1: "drop (Suc off) p = b @ concat (map input_entry_enc bs) @ r"
    by (simp_all add: drop_nth_Cons)
  have e: "unat (p ! off) = length b"
    using Cons.prems(2) po by (simp add: input_entry_fits_def INPUT_ENTRY_MAX_def unat_of_nat_u8)
  have le: "Suc off + length b \<le> length p"
    using arg_cong [OF d1, of length] lt by simp
  have d2: "drop (Suc off + length b) p = concat (map input_entry_enc bs) @ r"
    using arg_cong [OF d1, of "drop (length b)"] by (simp add: add.commute)
  let ?o = "out[i := \<lparr> ie_step = newest - of_nat i, ie_bytes = b \<rparr>]"
  have "input_read p newest [i..<i + length (b # bs)] off out =
      input_read p newest [Suc i..<Suc i + length bs] (Suc off + length b) ?o"
    unfolding upt using lt e le d1 by (simp add: Let_def)
  also have "\<dots> = (Some (length p - length r),
      take (Suc i) ?o @ entries_at newest (Suc i) bs @ drop (Suc i + length bs) ?o)"
    by (rule Cons.IH [OF d2]) (use Cons.prems le in simp_all)
  finally show ?case
    using Cons.prems(3) by (simp add: take_Suc_conv_app_nth take_update_cancel)
qed

subsection \<open>Round trip and canonicity\<close>

lemma input_need_iff:
  "input_need es js need =
     (if \<forall>j\<in>set js. length (ie_bytes (es ! j)) \<le> INPUT_ENTRY_MAX \<and> ie_step (es ! j) = ie_step (es ! 0) - of_nat j
      then Some (need + length (concat (map (\<lambda>j. input_entry_enc (ie_bytes (es ! j))) js))) else None)"
  by (induction js arbitrary: need) (auto simp: input_entry_enc_def)

definition input_run_ok :: "input_entry list \<Rightarrow> bool" where
  "input_run_ok es \<longleftrightarrow> 1 \<le> length es \<and> length es \<le> 8 \<and>
     (\<forall>j < length es. length (ie_bytes (es ! j)) \<le> INPUT_ENTRY_MAX \<and>
                       ie_step (es ! j) = ie_step (es ! 0) - of_nat j)"

definition input_bytes :: "input_entry list \<Rightarrow> bytes" where
  "input_bytes es = [of_nat (length es)] @ put_u32 (ie_step (es ! 0))
     @ concat (map input_entry_enc (map ie_bytes es))"

lemma count_ok:
  "(c < INPUT_K_MIN \<or> c > INPUT_K_MAX) = (\<not> (1 \<le> unat c \<and> unat c \<le> 8))"
  by (simp add: INPUT_K_MIN_def INPUT_K_MAX_def word_less_nat_alt not_le not_less)

lemma input_encode_iff:
  assumes "length es = unat count"
  shows "input_encode es count cap =
    (if input_run_ok es \<and> length (input_bytes es) \<le> cap then input_bytes es else [])"
proof -
  define Q where "Q \<longleftrightarrow> (\<forall>j\<in>set [0..<unat count]. length (ie_bytes (es ! j)) \<le> INPUT_ENTRY_MAX \<and>
      ie_step (es ! j) = ie_step (es ! 0) - of_nat j)"
  have cat: "map (\<lambda>j. input_entry_enc (ie_bytes (es ! j))) [0..<unat count] = map input_entry_enc (map ie_bytes es)"
    by (rule nth_equalityI) (simp_all add: assms)
  have "input_need es [0..<unat count] 5 = (if Q then Some (length (input_bytes es)) else None)"
    unfolding input_need_iff Q_def [symmetric] cat by (simp add: input_bytes_def)
  moreover have "input_run_ok es \<longleftrightarrow> 1 \<le> unat count \<and> unat count \<le> 8 \<and> Q"
    unfolding input_run_ok_def Q_def assms by (simp add: atLeast0LessThan Ball_def)
  moreover have "[count] @ put_u32 (ie_step (es ! 0)) @ concat (map input_entry_enc (map ie_bytes es)) = input_bytes es"
    by (simp add: input_bytes_def assms)
  ultimately show ?thesis
    by (simp only: input_encode_def count_ok cat) (simp only: not_less not_not split: if_splits option.splits, auto)
qed

lemma entries_at_run:
  assumes "input_run_ok es"
  shows "entries_at (ie_step (es ! 0)) 0 (map ie_bytes es) = es"
proof (rule nth_equalityI)
  fix k assume "k < length (entries_at (ie_step (es ! 0)) 0 (map ie_bytes es))"
  then have k: "k < length es" by simp
  with assms have "ie_step (es ! k) = ie_step (es ! 0) - of_nat k" unfolding input_run_ok_def by blast
  then show "entries_at (ie_step (es ! 0)) 0 (map ie_bytes es) ! k = es ! k"
    using k by (simp add: nth_entries_at)
qed simp

lemma input_round_trip:
  assumes "input_encode es (of_nat (length es)) cap = p" "p \<noteq> []" "length es < 256" "8 \<le> length out"
  shows "input_decode p out = (of_nat (length es), Ok, es @ drop (length es) out)"
proof -
  from assms have run: "input_run_ok es" and p: "p = input_bytes es"
    by (auto simp: input_encode_iff unat_of_nat_u8 split: if_splits)
  from run have len: "1 \<le> length es" "length es \<le> 8"
    and fits: "list_all input_entry_fits (map ie_bytes es)"
    by (auto simp: input_run_ok_def list_all_length input_entry_fits_def)
  have u: "unat (of_nat (length es) :: u8) = length es" using len by (simp add: unat_of_nat_u8)
  have d5: "drop 5 p = concat (map input_entry_enc (map ie_bytes es)) @ []"
    by (simp add: p input_bytes_def)
  have "5 \<le> length p" by (simp add: p input_bytes_def)
  moreover have "input_read p (ie_step (es ! 0)) [0..<0 + length (map ie_bytes es)] 5 out =
      (Some (length p - length ([] :: bytes)),
       take 0 out @ entries_at (ie_step (es ! 0)) 0 (map ie_bytes es) @ drop (0 + length (map ie_bytes es)) out)"
    using len assms(4) \<open>5 \<le> length p\<close> by (intro input_read_complete [OF d5 fits]) simp_all
  moreover have "p ! 0 = of_nat (length es)" "get_u32 (drop 1 p) = ie_step (es ! 0)"
    by (simp_all add: p input_bytes_def)
  ultimately show ?thesis
    using len u by (simp add: input_decode_def count_ok entries_at_run [OF run])
qed

lemma input_decode_canonical:
  assumes dec: "input_decode p out = (c, Ok, out')" and out: "8 \<le> length out"
  shows "input_run_ok (take (unat c) out')" "input_bytes (take (unat c) out') = p"
    "length (take (unat c) out') = unat c" "drop (unat c) out' = drop (unat c) out"
proof -
  let ?n = "get_u32 (drop 1 p)"
  from dec have len: "5 \<le> length p" and c: "c = p ! 0" "1 \<le> unat c" "unat c \<le> 8"
    and rd: "input_read p ?n [0..<0 + unat c] 5 out = (Some (length p), out')"
    by (auto simp: input_decode_def Let_def count_ok split: if_splits prod.splits option.splits)
  obtain bs where bs: "length bs = unat c" "list_all input_entry_fits bs"
      "drop 5 p = concat (map input_entry_enc bs) @ drop (length p) p"
      "out' = take 0 out @ entries_at ?n 0 bs @ drop (0 + unat c) out"
    using input_read_sound [OF rd] len c out by auto
  have es: "take (unat c) out' = entries_at ?n 0 bs" using bs by simp
  show "input_run_ok (take (unat c) out')"
    using c bs(1,2) unfolding es
    by (auto simp: input_run_ok_def nth_entries_at list_all_length input_entry_fits_def)
  show "length (take (unat c) out') = unat c" "drop (unat c) out' = drop (unat c) out"
    using bs(1,4) by simp_all
  have "map ie_bytes (entries_at ?n 0 bs) = bs"
    by (rule nth_equalityI) (simp_all add: nth_entries_at)
  moreover have "p = p ! 0 # take 4 (drop 1 p) @ drop 5 p"
    using len by (cases p) (simp_all add: drop_Suc_Cons [of 4, symmetric] numeral_eq_Suc)
  moreover have "put_u32 ?n = take 4 (drop 1 p)" using len by (intro le32.enc_dec) simp
  ultimately show "input_bytes (take (unat c) out') = p"
    using bs(1,3) c unfolding es by (simp add: input_bytes_def nth_entries_at)
qed

subsection \<open>Properties\<close>

text \<open>The step inputs that the encoder takes are decoded with the same step numbers and bytes; the
  encoder refuses a list whose numbering is not the implied one.\<close>

theorem step_inputs_round_trip:
  assumes "input_encode es (of_nat (length es)) cap \<noteq> []" "length es < 256" "8 \<le> length out"
  shows "input_decode (input_encode es (of_nat (length es)) cap) out =
      (of_nat (length es), Ok, es @ drop (length es) out) \<and>
    (\<forall>j < length es. ie_step (es ! j) = ie_step (es ! 0) - of_nat j)"
proof -
  have "input_run_ok es"
    using assms by (auto simp: input_encode_iff unat_of_nat_u8 split: if_splits)
  then show ?thesis
    using input_round_trip [OF refl assms] unfolding input_run_ok_def by blast
qed

theorem step_inputs_round_trip_witness:
  "input_decode (input_encode [\<lparr> ie_step = 0, ie_bytes = [7] \<rparr>, \<lparr> ie_step = -1, ie_bytes = [] \<rparr>]
        (of_nat (length [\<lparr> ie_step = 0, ie_bytes = [7] \<rparr>, \<lparr> ie_step = -1, ie_bytes = [] \<rparr>])) 50)
      (replicate 8 \<lparr> ie_step = 0, ie_bytes = [] \<rparr>) =
    (of_nat (length [\<lparr> ie_step = 0, ie_bytes = [7] \<rparr>, \<lparr> ie_step = -1, ie_bytes = [] \<rparr>]), Ok,
      [\<lparr> ie_step = 0, ie_bytes = [7] \<rparr>, \<lparr> ie_step = -1, ie_bytes = [] \<rparr>]
      @ drop (length [\<lparr> ie_step = 0, ie_bytes = [7] \<rparr>, \<lparr> ie_step = -1, ie_bytes = [] \<rparr>])
          (replicate 8 \<lparr> ie_step = 0, ie_bytes = [] \<rparr>))"
  by (rule step_inputs_round_trip [THEN conjunct1])
    (simp_all add: input_encode_def INPUT_K_MIN_def INPUT_K_MAX_def INPUT_ENTRY_MAX_def input_entry_enc_def
      upt_rec)

text \<open>What the decoder accepts is canonical: between one and eight entries with the implied
  numbering, re-encoding gives the payload back byte for byte, and the rest of the output array is
  not touched.\<close>

theorem step_inputs_canonical:
  assumes "input_decode p out = (c, Ok, out')" and "8 \<le> length out" and "length p \<le> cap"
  shows "input_encode (take (unat c) out') c cap = p \<and> drop (unat c) out' = drop (unat c) out"
  using input_decode_canonical [OF assms(1,2)] assms(3) by (simp add: input_encode_iff)

theorem step_inputs_canonical_witness:
  "input_encode (take (unat (1 :: u8)) (\<lparr> ie_step = 4, ie_bytes = [9] \<rparr> # replicate 7 \<lparr> ie_step = 0, ie_bytes = [] \<rparr>)) 1 50
     = [1, 4, 0, 0, 0, 1, 9] \<and>
   drop (unat (1 :: u8)) (\<lparr> ie_step = 4, ie_bytes = [9] \<rparr> # replicate 7 \<lparr> ie_step = 0, ie_bytes = [] \<rparr>) =
     drop (unat (1 :: u8)) (replicate 8 \<lparr> ie_step = 0, ie_bytes = [] \<rparr>)"
proof (rule step_inputs_canonical)
  show "input_decode [1, 4, 0, 0, 0, 1, 9] (replicate 8 \<lparr> ie_step = 0, ie_bytes = [] \<rparr>) =
      (1, Ok, \<lparr> ie_step = 4, ie_bytes = [9] \<rparr> # replicate 7 \<lparr> ie_step = 0, ie_bytes = [] \<rparr>)"
    by code_simp
qed simp_all

end
