(* ===== verification/Udp_Records.thy ===== *)
theory Udp_Records
  imports Udp_Packet Delimited
begin

text \<open>
  Channel B of the datagram body (\<open>record_append\<close>, \<open>records_absorb\<close>, \<open>ping_from\<close> and their
  siblings in \<open>mh_net_proto/src/net_udp.cpp\<close>): small records of which the receiver keeps the
  newest per id, in a fixed table of slots.
\<close>

definition REC_PING :: u8 where "REC_PING = 1"
definition REC_PONG :: u8 where "REC_PONG = 2"
definition REC_STEP_HASH :: u8 where "REC_STEP_HASH = 3"
definition REC_TELEMETRY :: u8 where "REC_TELEMETRY = 4"
definition REC_ID_MAX :: u8 where "REC_ID_MAX = 4"
definition REC_LEN_MAX :: nat where "REC_LEN_MAX = 64"

lemmas rec_ids = REC_PING_def REC_PONG_def REC_STEP_HASH_def REC_TELEMETRY_def REC_ID_MAX_def
  REC_LEN_MAX_def

record ping_record =
  t_origin_ms :: u32
  t_echo_ms :: u32

record step_hash_record =
  sh_step :: u32
  sh_hash :: u32

record telemetry_record =
  srtt_us :: u32
  rttvar_us :: u32
  loss_q16 :: u32
  last_step :: u32

definition record_append :: "bytes \<Rightarrow> nat \<Rightarrow> nat \<Rightarrow> u8 \<Rightarrow> bytes \<Rightarrow> nat \<times> bytes \<times> nat" where
  "record_append payload cap used rid b =
     (if length b > REC_LEN_MAX then (0, payload, used)
      else if used + 2 + length b > cap then (0, payload, used)
      else (2 + length b, memcpy_at payload used (rid # of_nat (length b) # b), used + 2 + length b))"

definition record_append_ping :: "bytes \<Rightarrow> nat \<Rightarrow> nat \<Rightarrow> u8 \<Rightarrow> ping_record \<Rightarrow> nat \<times> bytes \<times> nat" where
  "record_append_ping payload cap used rid r =
     record_append payload cap used rid (put_u32 (t_origin_ms r) @ put_u32 (t_echo_ms r))"

definition record_append_step_hash :: "bytes \<Rightarrow> nat \<Rightarrow> nat \<Rightarrow> step_hash_record \<Rightarrow> nat \<times> bytes \<times> nat" where
  "record_append_step_hash payload cap used r =
     record_append payload cap used REC_STEP_HASH (put_u32 (sh_step r) @ put_u32 (sh_hash r))"

definition record_append_telemetry :: "bytes \<Rightarrow> nat \<Rightarrow> nat \<Rightarrow> telemetry_record \<Rightarrow> nat \<times> bytes \<times> nat" where
  "record_append_telemetry payload cap used r =
     record_append payload cap used REC_TELEMETRY
       (put_u32 (srtt_us r) @ put_u32 (rttvar_us r) @ put_u32 (loss_q16 r) @ put_u32 (last_step r))"

record latest_slots =
  sl_present :: "bool list"
  sl_len :: "u8 list"
  sl_bytes :: "bytes list"

definition slots0 :: latest_slots where
  "slots0 = \<lparr> sl_present = replicate 5 False, sl_len = replicate 5 0,
              sl_bytes = replicate 5 (replicate REC_LEN_MAX 0) \<rparr>"

text \<open>The body of the walk for one record: an id that is not ours, or a record too long for its slot, is skipped.\<close>

definition slot_put :: "u8 \<Rightarrow> bytes \<Rightarrow> latest_slots \<Rightarrow> latest_slots" where
  "slot_put rid b s =
     (if rid \<ge> 1 \<and> rid \<le> REC_ID_MAX \<and> length b \<le> REC_LEN_MAX
      then let k = unat rid in
        s\<lparr> sl_present := (sl_present s)[k := True],
           sl_len := (sl_len s)[k := of_nat (length b)],
           sl_bytes := (sl_bytes s)[k := memcpy_at (sl_bytes s ! k) 0 b] \<rparr>
      else s)"

function records_walk :: "bytes \<Rightarrow> nat \<Rightarrow> latest_slots \<Rightarrow> bool \<times> verdict \<times> latest_slots" where
  "records_walk payload off slots =
     (if off = length payload then (True, Ok, slots)
      else if off + 2 > length payload then (False, Malformed, slots)
      else let rid = payload ! off; rlen = unat (payload ! (off + 1)) in
           if off + 2 + rlen > length payload then (False, Malformed, slots)
           else records_walk payload (off + 2 + rlen)
                  (slot_put rid (take rlen (drop (off + 2) payload)) slots))"
  by pat_completeness auto
termination
  by (relation "measure (\<lambda>(payload, off, slots). length payload - off)") auto

declare records_walk.simps [simp del]

definition records_absorb :: "bytes \<Rightarrow> latest_slots \<Rightarrow> bool \<times> verdict \<times> latest_slots" where
  "records_absorb payload slots = records_walk payload 0 slots"

text \<open>\<open>None\<close> is \<open>false\<close>: the output parameter is not written.\<close>

definition ping_from :: "latest_slots \<Rightarrow> u8 \<Rightarrow> ping_record option" where
  "ping_from s rid =
     (if rid \<noteq> REC_PING \<and> rid \<noteq> REC_PONG then None
      else if \<not> sl_present s ! unat rid \<or> sl_len s ! unat rid \<noteq> 8 then None
      else let b = sl_bytes s ! unat rid in
           Some \<lparr> t_origin_ms = get_u32 b, t_echo_ms = get_u32 (drop 4 b) \<rparr>)"

definition step_hash_from :: "latest_slots \<Rightarrow> step_hash_record option" where
  "step_hash_from s =
     (if \<not> sl_present s ! unat REC_STEP_HASH \<or> sl_len s ! unat REC_STEP_HASH \<noteq> 8 then None
      else let b = sl_bytes s ! unat REC_STEP_HASH in
           Some \<lparr> sh_step = get_u32 b, sh_hash = get_u32 (drop 4 b) \<rparr>)"

definition telemetry_from :: "latest_slots \<Rightarrow> telemetry_record option" where
  "telemetry_from s =
     (if \<not> sl_present s ! unat REC_TELEMETRY \<or> sl_len s ! unat REC_TELEMETRY \<noteq> 16 then None
      else let b = sl_bytes s ! unat REC_TELEMETRY in
           Some \<lparr> srtt_us = get_u32 b, rttvar_us = get_u32 (drop 4 b),
                  loss_q16 = get_u32 (drop 8 b), last_step = get_u32 (drop 12 b) \<rparr>)"

subsection \<open>Records as delimited items\<close>

fun rec_enc :: "u8 \<times> bytes \<Rightarrow> bytes" where
  "rec_enc (rid, b) = rid # of_nat (length b) # b"

definition rec_dec :: "bytes \<Rightarrow> ((u8 \<times> bytes) \<times> nat) option" where
  "rec_dec p =
     (if length p < 2 then None
      else let n = unat (p ! 1) in
           if 2 + n > length p then None else Some ((p ! 0, take n (drop 2 p)), 2 + n))"

interpretation recs: delimited rec_enc rec_dec "\<lambda>r. length (snd r) \<le> 255"
proof unfold_locales
  show "rec_enc r \<noteq> []" for r by (cases r) simp
  show "rec_dec (rec_enc r @ q) = Some (r, length (rec_enc r))" if "length (snd r) \<le> 255" for r q
    using that by (cases r) (simp add: rec_dec_def unat_of_nat_u8 Let_def)
  show "length (snd r) \<le> 255 \<and> n = length (rec_enc r) \<and> n \<le> length p \<and> take n p = rec_enc r"
    if d: "rec_dec p = Some (r, n)" for p r n
  proof -
    from d have "2 \<le> length p" by (auto simp: rec_dec_def split: if_splits)
    then obtain a c q where "p = a # c # q" by (auto simp: numeral_2_eq_2 Suc_le_length_iff)
    with d unat_u8 [of c] show ?thesis by (auto simp: rec_dec_def Let_def split: if_splits)
  qed
qed

definition slots_wf :: "latest_slots \<Rightarrow> bool" where
  "slots_wf s \<longleftrightarrow> length (sl_present s) = 5 \<and> length (sl_len s) = 5 \<and> length (sl_bytes s) = 5 \<and>
     (\<forall>b\<in>set (sl_bytes s). length b = REC_LEN_MAX) \<and> (\<forall>n\<in>set (sl_len s). unat n \<le> REC_LEN_MAX)"

text \<open>What a slot holds.\<close>

definition slot_view :: "latest_slots \<Rightarrow> nat \<Rightarrow> bytes option" where
  "slot_view s k = (if sl_present s ! k then Some (take (unat (sl_len s ! k)) (sl_bytes s ! k)) else None)"

lemma slots0_wf: "slots_wf slots0"
  by (simp add: slots_wf_def slots0_def)

lemma slot_put_wf:
  assumes wf: "slots_wf s"
  shows "slots_wf (slot_put rid b s)"
proof (cases "rid \<ge> 1 \<and> rid \<le> REC_ID_MAX \<and> length b \<le> REC_LEN_MAX")
  case True
  then have "unat rid < 5" by (simp add: REC_ID_MAX_def word_le_nat_alt)
  moreover have "unat (of_nat (length b) :: u8) \<le> REC_LEN_MAX"
    using True by (simp add: REC_LEN_MAX_def unat_of_nat_u8)
  ultimately show ?thesis
    using wf True
    by (auto simp: slot_put_def Let_def slots_wf_def dest!: set_update_subset_insert [THEN subsetD])
qed (use wf in \<open>auto simp: slot_put_def\<close>)

lemma slot_put_view:
  assumes "slots_wf s" and "1 \<le> k" "k \<le> 4"
  shows "slot_view (slot_put rid b s) k =
    (if unat rid = k \<and> length b \<le> REC_LEN_MAX then Some b else slot_view s k)"
proof (cases "unat rid = k \<and> length b \<le> REC_LEN_MAX")
  case True
  then have r: "rid \<ge> 1 \<and> rid \<le> REC_ID_MAX"
    using assms(2,3) by (simp add: REC_ID_MAX_def word_le_nat_alt)
  have "unat (of_nat (length b) :: u8) = length b"
    using True by (intro unat_of_nat_u8) (simp add: REC_LEN_MAX_def)
  then show ?thesis
    using True r assms by (simp add: slot_put_def slot_view_def Let_def slots_wf_def memcpy_at_def)
next
  case False
  then show ?thesis by (auto simp: slot_put_def slot_view_def Let_def)
qed

lemma records_walk_items:
  assumes "off \<le> length p"
  shows "case items rec_dec (drop off p) of
      Some rs \<Rightarrow> records_walk p off s = (True, Ok, fold (\<lambda>(rid, b). slot_put rid b) rs s)
    | None \<Rightarrow> \<exists>s'. records_walk p off s = (False, Malformed, s')"
  using assms
proof (induction "length p - off" arbitrary: off s rule: less_induct)
  case less
  show ?case
  proof (cases "off = length p")
    case True
    then show ?thesis by (simp add: records_walk.simps)
  next
    case False
    with less.prems have lt: "off < length p" by simp
    show ?thesis
    proof (cases "rec_dec (drop off p)")
      case None
      then have "records_walk p off s = (False, Malformed, s)"
        using lt by (subst records_walk.simps) (auto simp: rec_dec_def Let_def split: if_splits)
      with None lt show ?thesis by (subst items.simps) simp
    next
      case (Some rn)
      then obtain rid b n where r: "rec_dec (drop off p) = Some ((rid, b), n)"
        by (metis prod.collapse)
      then have n: "0 < n" "off + n \<le> length p"
        and step: "records_walk p off s = records_walk p (off + n) (slot_put rid b s)"
        using lt by (auto simp: rec_dec_def Let_def add.assoc records_walk.simps [of p off]
            split: if_splits)
      have "items rec_dec (drop off p) = map_option ((#) (rid, b)) (items rec_dec (drop (off + n) p))"
        using r n lt by (subst items.simps) (simp add: add.commute)
      with less.hyps [of "off + n" "slot_put rid b s"] n step show ?thesis
        by (auto split: option.splits)
    qed
  qed
qed

subsection \<open>The newest record per id\<close>

definition latest :: "nat \<Rightarrow> (u8 \<times> bytes) list \<Rightarrow> bytes option" where
  "latest k rs =
     map_option snd (find (\<lambda>(rid, b). unat rid = k \<and> length b \<le> REC_LEN_MAX) (rev rs))"

lemma find_append: "find P (xs @ ys) = (case find P xs of None \<Rightarrow> find P ys | Some x \<Rightarrow> Some x)"
  by (induction xs) auto

lemma latest_snoc:
  "latest k (rs @ [(rid, b)]) = (if unat rid = k \<and> length b \<le> REC_LEN_MAX then Some b else latest k rs)"
  by (simp add: latest_def)

lemma fold_slot_put:
  assumes "slots_wf s"
  shows "slots_wf (fold (\<lambda>(rid, b). slot_put rid b) rs s) \<and>
    (\<forall>k. 1 \<le> k \<longrightarrow> k \<le> 4 \<longrightarrow> slot_view (fold (\<lambda>(rid, b). slot_put rid b) rs s) k =
       (case latest k rs of None \<Rightarrow> slot_view s k | Some b \<Rightarrow> Some b))"
proof (induction rs rule: rev_induct)
  case Nil
  then show ?case using assms by (simp add: latest_def)
next
  case (snoc r rs)
  obtain rid b where r: "r = (rid, b)" by fastforce
  with snoc show ?case by (simp add: slot_put_wf slot_put_view latest_snoc)
qed

lemma records_absorb_spec:
  assumes "slots_wf s" and "items rec_dec p = Some rs"
  shows "\<exists>s'. records_absorb p s = (True, Ok, s') \<and> slots_wf s' \<and>
    (\<forall>k. 1 \<le> k \<longrightarrow> k \<le> 4 \<longrightarrow>
       slot_view s' k = (case latest k rs of None \<Rightarrow> slot_view s k | Some b \<Rightarrow> Some b))"
  using records_walk_items [of 0 p s] fold_slot_put [OF assms(1), of rs] assms(2)
  by (simp add: records_absorb_def)

lemma records_absorb_iff:
  "fst (records_absorb p s) \<longleftrightarrow> (\<exists>rs. list_all (\<lambda>r. length (snd r) \<le> 255) rs \<and> p = concat (map rec_enc rs))"
  using records_walk_items [of 0 p s] recs.items_canonical [of p] recs.items_enc
  by (cases "items rec_dec p") (force simp: records_absorb_def)+

lemma record_append_enc:
  assumes "record_append payload cap used rid b = (n, payload', used')" and "n \<noteq> 0"
    and "used \<le> cap" "cap \<le> length payload"
  shows "take used' payload' = take used payload @ rec_enc (rid, b)" "used' \<le> cap"
    "length payload' = length payload" "length b \<le> REC_LEN_MAX" "n = 2 + length b" "used' = used + n"
  using assms
  by (auto simp: record_append_def take_memcpy_at split: if_splits)

lemma get_u32_take: "4 \<le> n \<Longrightarrow> n \<le> length p \<Longrightarrow> get_u32 (take n p) = get_u32 p"
  by (rule le32.dec_cong) (simp_all add: min_def)

lemma slot_view_iff:
  assumes "slots_wf s" "k < 5" "n \<le> 64"
  shows "(sl_present s ! k \<and> sl_len s ! k = of_nat n) = (\<exists>b. slot_view s k = Some b \<and> length b = n)"
    and "slot_view s k = Some b \<Longrightarrow> take (length b) (sl_bytes s ! k) = b \<and> length b \<le> length (sl_bytes s ! k)"
proof -
  from assms have l: "length (sl_bytes s ! k) = 64" "unat (sl_len s ! k) \<le> 64"
    by (simp_all add: slots_wf_def REC_LEN_MAX_def)
  have "sl_len s ! k = of_nat n \<longleftrightarrow> unat (sl_len s ! k) = n"
    using assms(3) unat_of_nat_u8 [of n] by (auto simp: word_unat_eq_iff)
  with l show "(sl_present s ! k \<and> sl_len s ! k = of_nat n) = (\<exists>b. slot_view s k = Some b \<and> length b = n)"
    by (auto simp: slot_view_def)
  show "slot_view s k = Some b \<Longrightarrow> take (length b) (sl_bytes s ! k) = b \<and> length b \<le> length (sl_bytes s ! k)"
    using l by (auto simp: slot_view_def split: if_splits)
qed

lemma get_u32_slot:
  assumes "slots_wf s" "k < 5" "slot_view s k = Some b" "j + 4 \<le> length b"
  shows "get_u32 (drop j (sl_bytes s ! k)) = get_u32 (drop j b)"
proof -
  from slot_view_iff(2) [OF assms(1,2) _ assms(3), of 0]
  have b: "take (length b) (sl_bytes s ! k) = b" "length b \<le> length (sl_bytes s ! k)" by simp_all
  then have "drop j b = take (length b - j) (drop j (sl_bytes s ! k))" by (metis drop_take)
  then show ?thesis using assms(4) b(2) get_u32_take [of "length b - j" "drop j (sl_bytes s ! k)"] by simp
qed

lemma ping_from_view:
  assumes "slots_wf s" "rid = REC_PING \<or> rid = REC_PONG"
  shows "ping_from s rid =
    (case slot_view s (unat rid) of None \<Rightarrow> None
     | Some b \<Rightarrow> if length b = 8 then Some \<lparr> t_origin_ms = get_u32 b, t_echo_ms = get_u32 (drop 4 b) \<rparr> else None)"
proof -
  have k: "unat rid < 5" using assms(2) by (auto simp: rec_ids)
  have "(sl_present s ! unat rid \<and> sl_len s ! unat rid = 8) = (\<exists>b. slot_view s (unat rid) = Some b \<and> length b = 8)"
    using slot_view_iff(1) [OF assms(1) k, of 8] by simp
  then show ?thesis
    using assms(2) get_u32_slot [OF assms(1) k, of _ 0] get_u32_slot [OF assms(1) k, of _ 4]
    by (auto simp: ping_from_def Let_def split: option.splits)
qed

lemma items_rec_append:
  "items rec_dec p = Some rs \<Longrightarrow> length b \<le> 255 \<Longrightarrow> items rec_dec (p @ rec_enc (rid, b)) = Some (rs @ [(rid, b)])"
  using recs.items_canonical [of p rs] recs.items_enc [of "rs @ [(rid, b)]"] by simp

lemma latest_ping_received:
  assumes wf: "slots_wf s" and ok: "items rec_dec (take used payload) = Some rs"
    and app: "record_append_ping payload cap used rid r = (n, payload', used')" "n \<noteq> 0"
    and rid: "rid = REC_PING \<or> rid = REC_PONG" and cap: "used \<le> cap" "cap \<le> length payload"
  shows "\<exists>s'. records_absorb (take used' payload') s = (True, Ok, s') \<and> ping_from s' rid = Some r"
proof -
  let ?b = "put_u32 (t_origin_ms r) @ put_u32 (t_echo_ms r)"
  have "take used' payload' = take used payload @ rec_enc (rid, ?b)"
    using record_append_enc(1) [OF app(1) [unfolded record_append_ping_def] app(2) cap] .
  then have it: "items rec_dec (take used' payload') = Some (rs @ [(rid, ?b)])"
    using items_rec_append [OF ok, of ?b rid] by simp
  have k: "1 \<le> unat rid" "unat rid \<le> 4" using rid by (auto simp: rec_ids)
  obtain s' where s': "records_absorb (take used' payload') s = (True, Ok, s')" "slots_wf s'"
      "slot_view s' (unat rid) = (case latest (unat rid) (rs @ [(rid, ?b)]) of None \<Rightarrow> slot_view s (unat rid) | Some b \<Rightarrow> Some b)"
    using records_absorb_spec [OF wf it] k by blast
  then have "slot_view s' (unat rid) = Some ?b" by (simp add: latest_snoc REC_LEN_MAX_def)
  then have "ping_from s' rid = Some r" using ping_from_view [OF s'(2) rid] by simp
  with s'(1) show ?thesis by blast
qed

subsection \<open>Properties\<close>

text \<open>Latest wins: absorbing a payload succeeds exactly when it is a sequence of whole records, and
  afterwards each slot holds the last record of its id that fits the slot, or what it held before;
  unknown ids and oversized records change nothing.\<close>

theorem records_latest_wins:
  assumes "slots_wf s"
  shows "(fst (records_absorb p s) \<longleftrightarrow>
      (\<exists>rs. list_all (\<lambda>r. length (snd r) \<le> 255) rs \<and> p = concat (map rec_enc rs))) \<and>
    (case items rec_dec p of
       None \<Rightarrow> fst (snd (records_absorb p s)) = Malformed
     | Some rs \<Rightarrow>
         (\<forall>k\<in>{1, 2, 3, 4}. slot_view (snd (snd (records_absorb p s))) k =
            (case latest k rs of None \<Rightarrow> slot_view s k | Some b \<Rightarrow> Some b)))"
proof (cases "items rec_dec p")
  case None
  then show ?thesis
    using records_absorb_iff [of p s] records_walk_items [of 0 p s] by (auto simp: records_absorb_def)
next
  case (Some rs)
  then show ?thesis
    using records_absorb_iff [of p s] records_absorb_spec [OF assms Some] by auto
qed

theorem records_latest_wins_witness:
  "(fst (records_absorb [1, 1, 5] slots0) \<longleftrightarrow>
      (\<exists>rs. list_all (\<lambda>r. length (snd r) \<le> 255) rs \<and> [1, 1, 5] = concat (map rec_enc rs))) \<and>
    (case items rec_dec [1, 1, 5] of
       None \<Rightarrow> fst (snd (records_absorb [1, 1, 5] slots0)) = Malformed
     | Some rs \<Rightarrow>
         (\<forall>k\<in>{1, 2, 3, 4}. slot_view (snd (snd (records_absorb [1, 1, 5] slots0))) k =
            (case latest k rs of None \<Rightarrow> slot_view slots0 k | Some b \<Rightarrow> Some b)))"
  by (rule records_latest_wins [OF slots0_wf])

text \<open>A ping or pong record appended to a payload of whole records is what \<open>ping_from\<close> reads after
  the payload was absorbed, whatever the slots held before.\<close>

theorem appended_ping_is_read:
  assumes "slots_wf s" and "items rec_dec (take used payload) = Some rs"
    and "record_append_ping payload cap used rid r = (n, payload', used')" "n \<noteq> 0"
    and "rid = REC_PING \<or> rid = REC_PONG" and "used \<le> cap" "cap \<le> length payload"
  shows "\<exists>s'. records_absorb (take used' payload') s = (True, Ok, s') \<and> ping_from s' rid = Some r"
  by (rule latest_ping_received [OF assms])

theorem appended_ping_is_read_witness:
  "\<exists>s'. records_absorb (take 10 ([1, 8, 7, 0, 0, 0, 9, 0, 0, 0, 0, 0])) slots0 = (True, Ok, s') \<and>
     ping_from s' REC_PING = Some \<lparr> t_origin_ms = 7, t_echo_ms = 9 \<rparr>"
proof (rule appended_ping_is_read)
  show "record_append_ping (replicate 12 0) 12 0 REC_PING \<lparr> t_origin_ms = 7, t_echo_ms = 9 \<rparr> =
      (10, [1, 8, 7, 0, 0, 0, 9, 0, 0, 0, 0, 0], 10)"
    by code_simp
qed (simp_all add: slots0_wf)

end
