(* ===== verification/Udp_Bulk.thy ===== *)
theory Udp_Bulk
  imports Udp_Packet
begin

text \<open>
  Channel C of the datagram body (\<open>piece_count\<close>, \<open>piece_encode\<close>, \<open>piece_decode\<close>, \<open>piece_for\<close>,
  \<open>ack_encode\<close>, \<open>ack_decode\<close> in \<open>mh_net_proto/src/net_udp.cpp\<close>): a chunk of at most 16 KiB is cut
  into pieces at a stride that is a property of the link.
\<close>

definition CHUNK_MAX :: u32 where "CHUNK_MAX = 16 * 1024"
definition PIECE_MAX :: nat where "PIECE_MAX = 1100"
definition PIECE_HDR :: nat where "PIECE_HDR = 51"
definition ACK_LEN :: nat where "ACK_LEN = 9"
definition BULK_PIECE :: u8 where "BULK_PIECE = 0"
definition BULK_ACK :: u8 where "BULK_ACK = 1"
definition PIECE_TOTAL_MAX :: u16 where "PIECE_TOTAL_MAX = 16"
definition PIECE_MAX_RELAYED :: nat where "PIECE_MAX_RELAYED = 1024"

lemmas bulk_sizes = CHUNK_MAX_def PIECE_MAX_def PIECE_HDR_def ACK_LEN_def BULK_PIECE_def BULK_ACK_def
  PIECE_TOTAL_MAX_def PIECE_MAX_RELAYED_def

record piece =
  pc_chunk_id :: u32
  pc_index :: u16
  pc_total :: u16
  pc_chunk_len :: u32
  pc_sha :: bytes
  pc_seq :: u32
  pc_bytes :: bytes

record ack =
  ack_seq :: u32
  ack_bits :: u32

definition piece_count :: "u32 \<Rightarrow> nat \<Rightarrow> u16" where
  "piece_count chunk_len piece_max =
     (if chunk_len = 0 \<or> chunk_len > CHUNK_MAX then 0
      else if piece_max = 0 \<or> piece_max > PIECE_MAX then 0
      else of_nat ((unat chunk_len + piece_max - 1) div piece_max))"

text \<open>The bytes written; the empty list is the refusal \<open>0\<close>.\<close>

definition piece_encode :: "piece \<Rightarrow> nat \<Rightarrow> bytes" where
  "piece_encode p cap =
     (if length (pc_bytes p) > PIECE_MAX then []
      else if pc_chunk_len p = 0 \<or> pc_chunk_len p > CHUNK_MAX then []
      else if pc_total p = 0 \<or> pc_total p > PIECE_TOTAL_MAX \<or> pc_index p \<ge> pc_total p then []
      else if PIECE_HDR + length (pc_bytes p) > cap then []
      else [BULK_PIECE] @ put_u32 (pc_chunk_id p) @ put_u16 (pc_index p) @ put_u16 (pc_total p)
           @ put_u32 (pc_chunk_len p) @ pc_sha p @ put_u32 (pc_seq p)
           @ put_u16 (of_nat (length (pc_bytes p))) @ pc_bytes p)"

definition piece_decode :: "bytes \<Rightarrow> nat \<Rightarrow> piece \<Rightarrow> bool \<times> verdict \<times> piece" where
  "piece_decode payload piece_max out =
     (if length payload < PIECE_HDR \<or> payload ! 0 \<noteq> BULK_PIECE then (False, Malformed, out)
      else
        let out = out\<lparr> pc_chunk_id := get_u32 (drop 1 payload),
                       pc_index := get_u16 (drop 5 payload),
                       pc_total := get_u16 (drop 7 payload),
                       pc_chunk_len := get_u32 (drop 9 payload),
                       pc_sha := take SHA256_LEN (drop 13 payload),
                       pc_seq := get_u32 (drop 45 payload) \<rparr>;
            plen = unat (get_u16 (drop 49 payload)) in
        if piece_max = 0 \<or> piece_max > PIECE_MAX then (False, Malformed, out)
        else if plen > piece_max then (False, Malformed, out)
        else if PIECE_HDR + plen \<noteq> length payload then (False, Malformed, out)
        else if pc_chunk_len out = 0 \<or> pc_chunk_len out > CHUNK_MAX then (False, Malformed, out)
        else if pc_total out = 0 \<or> pc_total out > PIECE_TOTAL_MAX \<or> pc_index out \<ge> pc_total out
          then (False, Malformed, out)
        else if pc_total out \<noteq> piece_count (pc_chunk_len out) piece_max then (False, Malformed, out)
        else (True, Ok, out\<lparr> pc_bytes := take plen (drop PIECE_HDR payload) \<rparr>))"

definition ack_encode :: "ack \<Rightarrow> nat \<Rightarrow> bytes" where
  "ack_encode a cap =
     (if cap < ACK_LEN then [] else [BULK_ACK] @ put_u32 (ack_seq a) @ put_u32 (ack_bits a))"

definition ack_decode :: "bytes \<Rightarrow> ack option" where
  "ack_decode payload =
     (if length payload \<noteq> ACK_LEN \<or> payload ! 0 \<noteq> BULK_ACK then None
      else Some \<lparr> ack_seq = get_u32 (drop 1 payload), ack_bits = get_u32 (drop 5 payload) \<rparr>)"

definition piece_for :: "bytes \<Rightarrow> u32 \<Rightarrow> u32 \<Rightarrow> u16 \<Rightarrow> u32 \<Rightarrow> bytes \<Rightarrow> nat \<Rightarrow> piece option" where
  "piece_for chunk chunk_len chunk_id index piece_seq sha piece_max =
     (let total = piece_count chunk_len piece_max in
      if total = 0 \<or> index \<ge> total then None
      else let start = ucast index * of_nat piece_max :: u32;
               take_n = chunk_len - start;
               take_n = (if unat take_n > piece_max then of_nat piece_max else take_n)
           in Some \<lparr> pc_chunk_id = chunk_id, pc_index = index, pc_total = total,
                     pc_chunk_len = chunk_len, pc_sha = sha, pc_seq = piece_seq,
                     pc_bytes = take (unat take_n) (drop (unat start) chunk) \<rparr>)"

subsection \<open>How many pieces\<close>

definition stride_ok :: "u32 \<Rightarrow> nat \<Rightarrow> bool" where
  "stride_ok n m \<longleftrightarrow> 1 \<le> unat n \<and> unat n \<le> 16384 \<and> 1 \<le> m \<and> m \<le> 1100"

lemma stride_ok_iff:
  "stride_ok n m \<longleftrightarrow> \<not> (n = 0 \<or> CHUNK_MAX < n) \<and> \<not> (m = 0 \<or> PIECE_MAX < m)"
  using unat_gt_0 [of n]
  by (simp add: stride_ok_def bulk_sizes word_less_nat_alt not_less Suc_le_eq del: unat_gt_0)

lemma less_ceil_div: "0 < m \<Longrightarrow> (i < (n + m - 1) div m) = (i * m < n)" for n m i :: nat
  using div_less_iff_less_mult [of m "n + m - 1" "Suc i"] by (simp add: less_Suc_eq_le not_less [symmetric]) linarith

lemma unat_piece_count:
  "unat (piece_count n m) = (if stride_ok n m then (unat n + m - 1) div m else 0)"
proof (cases "stride_ok n m")
  case True
  then have "\<not> 16384 < (unat n + m - 1) div m"
    by (subst less_ceil_div) (auto simp: stride_ok_def)
  with True show ?thesis
    by (auto simp: piece_count_def stride_ok_def bulk_sizes word_less_nat_alt unat_of_nat_u16 unat_eq_0)
next
  case False
  then show ?thesis
    by (auto simp: piece_count_def stride_ok_def bulk_sizes word_less_nat_alt unat_eq_0)
qed

lemma piece_index_iff: "i < unat (piece_count n m) \<longleftrightarrow> stride_ok n m \<and> i * m < unat n"
  using less_ceil_div [of m i "unat n"] by (cases "stride_ok n m") (auto simp: unat_piece_count stride_ok_def)

lemma piece_count_relayed: "unat (piece_count n m) \<le> 16 \<longleftrightarrow> \<not> stride_ok n m \<or> unat n \<le> 16 * m"
  using piece_index_iff [of 16 n m] by auto

subsection \<open>Cutting a chunk and putting it together\<close>

lemma piece_for_bytes:
  assumes "length chunk = unat n" and "unat i < unat (piece_count n m)"
  shows "\<exists>p. piece_for chunk n cid i sq sha m = Some p \<and> pc_chunk_id p = cid \<and> pc_index p = i \<and>
    pc_total p = piece_count n m \<and> pc_chunk_len p = n \<and> pc_sha p = sha \<and> pc_seq p = sq \<and>
    pc_bytes p = take m (drop (unat i * m) chunk)"
proof -
  from assms(2) have ok: "stride_ok n m" and im: "unat i * m < unat n" by (simp_all add: piece_index_iff)
  then have m: "1 \<le> m" "m \<le> 1100" and n: "unat n \<le> 16384" by (simp_all add: stride_ok_def)
  let ?start = "ucast i * of_nat m :: u32"
  have um: "unat (of_nat m :: u32) = m" using m by (simp add: unat_of_nat_u32)
  have ui: "unat (ucast i :: u32) = unat i" by (rule unat_ucast_u16)
  have start: "unat ?start = unat i * m"
    using im n um ui by (simp add: unat_word_ariths)
  then have "?start \<le> n" using im by (simp add: word_le_nat_alt)
  then have left: "unat (n - ?start) = unat n - unat i * m" by (simp add: unat_sub start)
  have "take (unat (if unat (n - ?start) > m then of_nat m else n - ?start)) (drop (unat ?start) chunk)
      = take m (drop (unat i * m) chunk)"
    using assms(1) by (simp add: left start um)
  moreover have "piece_count n m \<noteq> 0" "\<not> piece_count n m \<le> i"
    using assms(2) by (auto simp: word_le_nat_alt)
  ultimately show ?thesis by (simp add: piece_for_def Let_def)
qed

lemma piece_for_none:
  "piece_for chunk n cid i sq sha m = None \<longleftrightarrow> unat (piece_count n m) \<le> unat i"
  by (auto simp: piece_for_def Let_def word_le_nat_alt)

lemma concat_strides:
  "concat (map (\<lambda>i. take m (drop (i * m) xs)) [0..<k]) = take (k * m) xs"
proof (induction k)
  case (Suc k)
  have "Suc k * m = k * m + m" by simp
  then have "take (Suc k * m) xs = take (k * m) xs @ take m (drop (k * m) xs)"
    by (simp only: take_add)
  with Suc show ?case by simp
qed simp

lemma pieces_of_chunk:
  assumes "length chunk = unat n" and "stride_ok n m"
  shows "concat (map (\<lambda>i. pc_bytes (the (piece_for chunk n cid (of_nat i) (sq i) sha m)))
      [0..<unat (piece_count n m)]) = chunk"
proof -
  have eq: "map (\<lambda>i. pc_bytes (the (piece_for chunk n cid (of_nat i) (sq i) sha m))) [0..<unat (piece_count n m)]
      = map (\<lambda>i. take m (drop (i * m) chunk)) [0..<unat (piece_count n m)]"
  proof (rule map_cong [OF refl])
    fix i assume "i \<in> set [0..<unat (piece_count n m)]"
    then have i: "i < unat (piece_count n m)" by simp
    then have "i < 65536" using unat_u16 [of "piece_count n m"] by linarith
    then have u: "unat (of_nat i :: u16) = i" by (rule unat_of_nat_u16)
    then obtain p where "piece_for chunk n cid (of_nat i) (sq i) sha m = Some p"
        "pc_bytes p = take m (drop (i * m) chunk)"
      using piece_for_bytes [OF assms(1), of "of_nat i" m cid "sq i" sha] i by auto
    then show "pc_bytes (the (piece_for chunk n cid (of_nat i) (sq i) sha m)) = take m (drop (i * m) chunk)"
      by simp
  qed
  have "unat n \<le> unat (piece_count n m) * m"
    using piece_index_iff [of "unat (piece_count n m)" n m] assms(2) by simp
  then show ?thesis using assms(1) unfolding eq concat_strides by simp
qed

subsection \<open>The piece codec\<close>

definition piece_ok :: "piece \<Rightarrow> nat \<Rightarrow> bool" where
  "piece_ok p m \<longleftrightarrow> stride_ok (pc_chunk_len p) m \<and> pc_total p = piece_count (pc_chunk_len p) m \<and>
     unat (pc_total p) \<le> 16 \<and> pc_index p < pc_total p \<and> length (pc_bytes p) \<le> m \<and>
     length (pc_sha p) = SHA256_LEN"

lemma piece_decode_encode:
  assumes "piece_ok p m" and "PIECE_HDR + length (pc_bytes p) \<le> cap"
  shows "piece_encode p cap \<noteq> [] \<and> piece_decode (piece_encode p cap) m out = (True, Ok, p)"
proof -
  from assms(1) have l: "length (pc_bytes p) \<le> 1100" and sha: "length (pc_sha p) = 32"
    by (simp_all add: piece_ok_def stride_ok_def SHA256_LEN_def)
  have ul: "unat (of_nat (length (pc_bytes p)) :: u16) = length (pc_bytes p)"
    using l by (intro unat_of_nat_u16) simp
  from assms(1) have g: "\<not> PIECE_MAX < length (pc_bytes p)"
      "\<not> (pc_chunk_len p = 0 \<or> CHUNK_MAX < pc_chunk_len p)"
      "\<not> (pc_total p = 0 \<or> PIECE_TOTAL_MAX < pc_total p \<or> pc_total p \<le> pc_index p)"
      "\<not> (m = 0 \<or> PIECE_MAX < m)"
    using l by (auto simp: piece_ok_def stride_ok_def bulk_sizes word_less_nat_alt word_le_nat_alt not_less)
  then have e: "piece_encode p cap = [BULK_PIECE] @ put_u32 (pc_chunk_id p) @ put_u16 (pc_index p) @
      put_u16 (pc_total p) @ put_u32 (pc_chunk_len p) @ pc_sha p @ put_u32 (pc_seq p) @
      put_u16 (of_nat (length (pc_bytes p))) @ pc_bytes p"
    using assms(2) by (simp add: piece_encode_def)
  have le: "length (piece_encode p cap) = 51 + length (pc_bytes p)" by (simp add: e sha)
  have "piece_decode (piece_encode p cap) m out = (True, Ok, p)"
    using g assms(1) ul le
    by (simp add: piece_decode_def e sha SHA256_LEN_def PIECE_HDR_def Let_def piece_ok_def)
  then show ?thesis using e by simp
qed

lemma piece_decode_ok:
  assumes "piece_decode payload m out = (True, v, p)"
  shows "v = Ok" "piece_ok p m" "piece_encode p (length payload) = payload"
proof -
  define n where "n = unat (get_u16 (drop 49 payload))"
  let ?p = "out\<lparr> pc_chunk_id := get_u32 (drop 1 payload), pc_index := get_u16 (drop 5 payload),
      pc_total := get_u16 (drop 7 payload), pc_chunk_len := get_u32 (drop 9 payload),
      pc_sha := take 32 (drop 13 payload), pc_seq := get_u32 (drop 45 payload),
      pc_bytes := take n (drop 51 payload) \<rparr>"
  from assms have len: "length payload = 51 + n" "n \<le> m" and p0: "payload ! 0 = BULK_PIECE"
    and m1: "\<not> (m = 0 \<or> PIECE_MAX < m)"
    and g': "\<not> (pc_chunk_len ?p = 0 \<or> CHUNK_MAX < pc_chunk_len ?p)"
      "\<not> (pc_total ?p = 0 \<or> PIECE_TOTAL_MAX < pc_total ?p \<or> pc_total ?p \<le> pc_index ?p)"
      "pc_total ?p = piece_count (pc_chunk_len ?p) m"
    and p: "p = ?p" and v: "v = Ok"
    unfolding piece_decode_def Let_def PIECE_HDR_def SHA256_LEN_def n_def by (simp_all split: if_splits)
  note g = m1 g' [folded p]
  have f: "pc_chunk_id p = get_u32 (drop 1 payload)" "pc_index p = get_u16 (drop 5 payload)"
      "pc_total p = get_u16 (drop 7 payload)" "pc_chunk_len p = get_u32 (drop 9 payload)"
      "pc_sha p = take 32 (drop 13 payload)" "pc_seq p = get_u32 (drop 45 payload)"
      "pc_bytes p = take n (drop 51 payload)"
    by (simp_all add: p)
  show "v = Ok" by (fact v)
  have bl: "length (pc_bytes p) = n" by (simp add: f(7) len(1))
  have st: "stride_ok (pc_chunk_len p) m"
    using g(1,2) by (simp only: stride_ok_iff simp_thms)
  moreover have "unat (pc_total p) \<le> 16" "pc_index p < pc_total p"
    using g(3) by (simp_all add: PIECE_TOTAL_MAX_def word_less_nat_alt word_le_nat_alt not_less not_le)
  moreover have "length (pc_sha p) = SHA256_LEN" by (simp add: f(5) len(1) SHA256_LEN_def)
  ultimately show "piece_ok p m" using g(4) bl len(2) by (simp add: piece_ok_def)
  have m: "m \<le> 1100" using st by (simp add: stride_ok_def)
  have "piece_encode p (length payload) = [BULK_PIECE] @ put_u32 (pc_chunk_id p) @ put_u16 (pc_index p) @
      put_u16 (pc_total p) @ put_u32 (pc_chunk_len p) @ pc_sha p @ put_u32 (pc_seq p) @
      put_u16 (of_nat (length (pc_bytes p))) @ pc_bytes p"
    using g(1-3) m len(2) by (simp add: piece_encode_def bl len(1) PIECE_HDR_def PIECE_MAX_def)
  also have "\<dots> = take 1 payload @ take 4 (drop 1 payload) @ take 2 (drop 5 payload) @
      take 2 (drop 7 payload) @ take 4 (drop 9 payload) @ take 32 (drop 13 payload) @
      take 4 (drop 45 payload) @ take 2 (drop 49 payload) @ drop 51 payload"
  proof -
    have "[BULK_PIECE] = take 1 payload" using p0 len(1) by (cases payload) simp_all
    moreover have "51 \<le> length payload" by (simp add: len(1))
    moreover have "of_nat (length (pc_bytes p)) = get_u16 (drop 49 payload)" by (simp add: bl n_def)
    moreover have "pc_bytes p = drop 51 payload" by (simp add: f(7) len(1))
    ultimately show ?thesis by (simp add: f(1-6) put_get)
  qed
  also have "\<dots> = payload"
    by (simp add: take_drop_chain)
  finally show "piece_encode p (length payload) = payload" .
qed

lemma ack_round_trip: "ACK_LEN \<le> cap \<Longrightarrow> ack_decode (ack_encode a cap) = Some a"
  by (simp add: ack_decode_def ack_encode_def ACK_LEN_def)

subsection \<open>Properties\<close>

text \<open>A chunk is exactly its pieces: for every usable stride the pieces that \<open>piece_for\<close> cuts for
  the indices below \<open>piece_count\<close> concatenate to the chunk, and no other index has a piece.\<close>

theorem pieces_reassemble:
  assumes "length chunk = unat n" and "stride_ok n m"
  shows "concat (map (\<lambda>i. pc_bytes (the (piece_for chunk n cid (of_nat i) (sq i) sha m)))
      [0..<unat (piece_count n m)]) = chunk \<and>
    (piece_for chunk n cid j sq' sha m = None \<longleftrightarrow> unat (piece_count n m) \<le> unat j)"
  using pieces_of_chunk [OF assms] piece_for_none by blast

theorem pieces_reassemble_witness:
  "concat (map (\<lambda>i. pc_bytes (the (piece_for [1, 2, 3, 4, 5] 5 0 (of_nat i) 0 [] 2)))
      [0..<unat (piece_count 5 2)]) = [1, 2, 3, 4, 5] \<and>
    (piece_for [1, 2, 3, 4, 5] 5 0 7 0 [] 2 = None \<longleftrightarrow> unat (piece_count 5 2) \<le> unat (7 :: u16))"
  using pieces_reassemble [of "[1, 2, 3, 4, 5]" 5 2 0 "\<lambda>_. 0" "[]" 7 0] by (simp add: stride_ok_def)

text \<open>A piece cut at a stride that the wire admits (at most 16 pieces) decodes, at the same stride,
  to the piece it was; and a payload that decodes is byte for byte the encoding of its piece, which
  lies within its chunk.\<close>

theorem piece_codec_round_trip:
  assumes "length chunk = unat n" "unat i < unat (piece_count n m)" "unat n \<le> 16 * m"
    and "length sha = SHA256_LEN" and "piece_decode payload m out = (True, v, q)"
  shows "(\<exists>p. piece_for chunk n cid i sq sha m = Some p \<and>
      piece_decode (piece_encode p (PIECE_HDR + PIECE_MAX)) m out = (True, Ok, p)) \<and>
    piece_encode q (length payload) = payload \<and> pc_index q < pc_total q \<and>
    unat (pc_index q) * m < unat (pc_chunk_len q)"
proof -
  obtain p where p: "piece_for chunk n cid i sq sha m = Some p" "pc_index p = i" "pc_total p = piece_count n m"
      "pc_chunk_len p = n" "pc_sha p = sha" "pc_bytes p = take m (drop (unat i * m) chunk)"
    using piece_for_bytes [OF assms(1,2)] by blast
  have st: "stride_ok n m" using assms(2) by (simp add: piece_index_iff)
  then have "piece_ok p m" "length (pc_bytes p) \<le> PIECE_MAX"
    using p assms(2-4) piece_count_relayed [of n m]
    by (simp_all add: piece_ok_def word_less_nat_alt PIECE_MAX_def stride_ok_def min.coboundedI2)
  then have "piece_decode (piece_encode p (PIECE_HDR + PIECE_MAX)) m out = (True, Ok, p)"
    using piece_decode_encode by simp
  moreover have "pc_index q < pc_total q" "unat (pc_index q) * m < unat (pc_chunk_len q)"
    using piece_decode_ok(2) [OF assms(5)] piece_index_iff [of "unat (pc_index q)" "pc_chunk_len q" m]
    by (auto simp: piece_ok_def word_less_nat_alt)
  ultimately show ?thesis using p(1) piece_decode_ok(3) [OF assms(5)] by blast
qed


definition ex_piece :: piece where
  "ex_piece = \<lparr> pc_chunk_id = 7, pc_index = 2, pc_total = 3, pc_chunk_len = 5, pc_sha = replicate 32 0,
                 pc_seq = 9, pc_bytes = [5] \<rparr>"

theorem piece_codec_round_trip_witness:
  "(\<exists>p. piece_for [1, 2, 3, 4, 5] 5 7 2 9 (replicate 32 0) 2 = Some p \<and>
      piece_decode (piece_encode p (PIECE_HDR + PIECE_MAX)) 2 ex_piece = (True, Ok, p)) \<and>
    piece_encode ex_piece (length (piece_encode ex_piece 100)) = piece_encode ex_piece 100 \<and>
    pc_index ex_piece < pc_total ex_piece \<and> unat (pc_index ex_piece) * 2 < unat (pc_chunk_len ex_piece)"
proof (rule piece_codec_round_trip)
  have n: "unat (piece_count 5 2) = 3" by (simp add: unat_piece_count stride_ok_def)
  then have c: "piece_count 5 2 = 3" by (simp add: word_unat_eq_iff)
  show "unat (2 :: u16) < unat (piece_count 5 2)" by (simp add: n)
  have "piece_ok ex_piece 2" by (simp add: piece_ok_def ex_piece_def c stride_ok_def SHA256_LEN_def)
  then show "piece_decode (piece_encode ex_piece 100) 2 ex_piece = (True, Ok, ex_piece)"
    using piece_decode_encode [of ex_piece 2 100] by (simp add: PIECE_HDR_def ex_piece_def)
qed (simp_all add: SHA256_LEN_def)

end
