(* ===== verification/Udp_Token.thy ===== *)
theory Udp_Token
  imports Udp_Packet
begin

text \<open>
  The connect token (\<open>token_keys\<close>, \<open>token_seal\<close>, \<open>token_open\<close> in
  \<open>mh_net_proto/src/net_udp.cpp\<close>): minted by the host, sealed with keys derived from the host key,
  with the routing copies of the connection id and the expiry outside the sealed part.
\<close>

definition TOKEN_KIND :: u8 where "TOKEN_KIND = 1"
definition TOKEN_PRIVATE :: nat where "TOKEN_PRIVATE = 168"
definition TOKEN_WIRE :: nat where "TOKEN_WIRE = 26 + TOKEN_PRIVATE + MAC_LEN"
definition TOKEN_SLOT_MAX :: u8 where "TOKEN_SLOT_MAX = 7"
definition TOKEN_LBL_ENC :: bytes where "TOKEN_LBL_ENC = ascii ''mh-token-enc''"
definition TOKEN_LBL_MAC :: bytes where "TOKEN_LBL_MAC = ascii ''mh-token-mac''"

lemmas token_sizes = TOKEN_PRIVATE_def TOKEN_WIRE_def UUID7_BYTES_def MAC_LEN_def CONN_ID_BYTES_def
  KEY_LEN_def

record connect_token =
  tk_match_id :: bytes
  tk_conn_id :: bytes
  tk_slot :: u8
  tk_expire :: u64
  tk_keys :: session_keys

definition token_keys :: "bytes \<Rightarrow> bytes \<times> bytes" where
  "token_keys host_key = (hmac_sha256 host_key TOKEN_LBL_ENC, hmac_sha256 host_key TOKEN_LBL_MAC)"

text \<open>The private part: the fields copied into a zeroed array; bytes 25 to 31 are reserved and stay zero.\<close>

definition token_private :: "connect_token \<Rightarrow> bytes" where
  "token_private tok =
     tk_match_id tok @ tk_conn_id tok @ [tk_slot tok] @ replicate 7 0 @ put_u64 (tk_expire tok)
     @ enc_c2s (tk_keys tok) @ enc_s2c (tk_keys tok) @ mac_c2s (tk_keys tok) @ mac_s2c (tk_keys tok)"

text \<open>The bytes written; the empty list is the refusal \<open>0\<close>.\<close>

definition token_seal :: "bytes \<Rightarrow> u64 \<Rightarrow> connect_token \<Rightarrow> bytes" where
  "token_seal host_key nonce tok =
     (if tk_slot tok > TOKEN_SLOT_MAX then []
      else let (enc, mac) = token_keys host_key;
               priv = token_private tok;
               out = [MAGIC_VER, TOKEN_KIND] @ put_u64 nonce @ tk_conn_id tok @ put_u64 (tk_expire tok)
                     @ chacha20_xor enc nonce priv
           in out @ take MAC_LEN (hmac_sha256 mac out))"

definition token_reserved_ok :: "bytes \<Rightarrow> bool" where
  "token_reserved_ok priv \<longleftrightarrow> list_all (\<lambda>i. priv ! i = 0) [25..<32]"

text \<open>Result, \<open>expired\<close>, and the output token, which a failing call may leave half-written.\<close>

definition token_open :: "bytes \<Rightarrow> bytes \<Rightarrow> u64 \<Rightarrow> connect_token \<Rightarrow> verdict \<times> bool \<times> connect_token" where
  "token_open host_key inp now out =
     (if length inp \<noteq> TOKEN_WIRE then (TooShort, False, out)
      else if drop_bit 4 (inp ! 0) \<noteq> MAGIC_NIBBLE then (BadMagic, False, out)
      else if inp ! 0 AND 0x0f \<noteq> VERSION then (BadVersion, False, out)
      else if inp ! 1 \<noteq> TOKEN_KIND then (BadType, False, out)
      else
        let (enc, mac) = token_keys host_key;
            full = hmac_sha256 mac (take (26 + TOKEN_PRIVATE) inp) in
        if \<not> ct_equal full (drop (26 + TOKEN_PRIVATE) inp) MAC_LEN then (BadMac, False, out)
        else
          let nonce = get_u64 (drop 2 inp);
              priv = chacha20_xor enc nonce (take TOKEN_PRIVATE (drop 26 inp));
              out = out\<lparr> tk_match_id := take UUID7_BYTES priv,
                         tk_conn_id := take CONN_ID_BYTES (drop 16 priv),
                         tk_slot := priv ! 24 \<rparr> in
          if \<not> token_reserved_ok priv then (Malformed, False, out)
          else
            let out = out\<lparr> tk_expire := get_u64 (drop 32 priv),
                           tk_keys := \<lparr> enc_c2s = take KEY_LEN (drop 40 priv),
                                        enc_s2c = take KEY_LEN (drop 72 priv),
                                        mac_c2s = take KEY_LEN (drop 104 priv),
                                        mac_s2c = take KEY_LEN (drop 136 priv) \<rparr> \<rparr> in
            if tk_conn_id out \<noteq> take CONN_ID_BYTES (drop 10 inp) then (Malformed, False, out)
            else if tk_expire out \<noteq> get_u64 (drop 18 inp) then (Malformed, False, out)
            else if tk_slot out > TOKEN_SLOT_MAX then (Malformed, False, out)
            else if now \<noteq> 0 \<and> now > tk_expire out then (BadMac, True, out)
            else (Ok, False, out))"

definition token_wf :: "connect_token \<Rightarrow> bool" where
  "token_wf tok \<longleftrightarrow> length (tk_match_id tok) = UUID7_BYTES \<and> length (tk_conn_id tok) = CONN_ID_BYTES \<and>
     tk_slot tok \<le> TOKEN_SLOT_MAX \<and> length (enc_c2s (tk_keys tok)) = KEY_LEN \<and>
     length (enc_s2c (tk_keys tok)) = KEY_LEN \<and> length (mac_c2s (tk_keys tok)) = KEY_LEN \<and>
     length (mac_s2c (tk_keys tok)) = KEY_LEN"

lemma length_token_private: "token_wf tok \<Longrightarrow> length (token_private tok) = 168"
  by (simp add: token_private_def token_wf_def token_sizes)

lemma token_seal_layout:
  assumes "token_wf tok"
  shows "token_seal hk nonce tok =
    ([MAGIC_VER, TOKEN_KIND] @ put_u64 nonce @ tk_conn_id tok @ put_u64 (tk_expire tok)
       @ chacha20_xor (fst (token_keys hk)) nonce (token_private tok))
    @ take MAC_LEN (hmac_sha256 (snd (token_keys hk))
        ([MAGIC_VER, TOKEN_KIND] @ put_u64 nonce @ tk_conn_id tok @ put_u64 (tk_expire tok)
          @ chacha20_xor (fst (token_keys hk)) nonce (token_private tok)))"
  using assms by (simp add: token_seal_def token_wf_def Let_def case_prod_beta not_less)

lemma length_hmac [simp]: "length (hmac_sha256 k m) = 32"
  by (simp add: hmac_sha256_def)

lemma length_token_seal: "token_wf tok \<Longrightarrow> length (token_seal hk nonce tok) = TOKEN_WIRE"
  by (simp add: token_seal_layout length_token_private) (simp add: token_wf_def token_sizes)

lemma ct_equal_refl: "len \<le> length a \<Longrightarrow> ct_equal a (take len a) len"
  by (simp add: ct_equal_take min_def)

lemma token_seal_open:
  assumes wf: "token_wf tok"
  shows "token_open hk (token_seal hk nonce tok) now out =
    (if now \<noteq> 0 \<and> tk_expire tok < now then (BadMac, True, tok) else (Ok, False, tok))"
proof -
  let ?enc = "fst (token_keys hk)" and ?mac = "snd (token_keys hk)"
  let ?pre = "[MAGIC_VER, TOKEN_KIND] @ put_u64 nonce @ tk_conn_id tok @ put_u64 (tk_expire tok)
       @ chacha20_xor ?enc nonce (token_private tok)"
  let ?inp = "token_seal hk nonce tok"
  have conn: "length (tk_conn_id tok) = 8" "length (tk_match_id tok) = 16"
    and keys: "length (enc_c2s (tk_keys tok)) = 32" "length (enc_s2c (tk_keys tok)) = 32"
      "length (mac_c2s (tk_keys tok)) = 32" "length (mac_s2c (tk_keys tok)) = 32"
    and slot: "\<not> TOKEN_SLOT_MAX < tk_slot tok"
    using wf by (simp_all add: token_wf_def token_sizes not_less)
  have inp: "?inp = ?pre @ take MAC_LEN (hmac_sha256 ?mac ?pre)"
    using token_seal_layout [OF wf] .
  have lp: "length ?pre = 194" using conn by (simp add: length_token_private [OF wf])
  have len: "length ?inp = TOKEN_WIRE" by (rule length_token_seal [OF wf])
  have b: "?inp ! 0 = MAGIC_VER" "?inp ! Suc 0 = TOKEN_KIND" by (simp_all add: inp)
  have t: "take (26 + TOKEN_PRIVATE) ?inp = ?pre" "drop (26 + TOKEN_PRIVATE) ?inp = take MAC_LEN (hmac_sha256 ?mac ?pre)"
    using lp by (simp_all add: inp TOKEN_PRIVATE_def)
  have mac: "ct_equal (hmac_sha256 ?mac (take (26 + TOKEN_PRIVATE) ?inp)) (drop (26 + TOKEN_PRIVATE) ?inp) MAC_LEN"
    unfolding t by (rule ct_equal_refl) (simp add: MAC_LEN_def)
  have f: "get_u64 (drop 2 ?inp) = nonce" "take CONN_ID_BYTES (drop 10 ?inp) = tk_conn_id tok"
    "get_u64 (drop 18 ?inp) = tk_expire tok"
    using conn by (simp_all add: inp CONN_ID_BYTES_def)
  have "take TOKEN_PRIVATE (drop 26 ?inp) = chacha20_xor ?enc nonce (token_private tok)"
    using conn by (simp add: inp TOKEN_PRIVATE_def length_token_private [OF wf])
  then have priv: "chacha20_xor ?enc nonce (take TOKEN_PRIVATE (drop 26 ?inp)) = token_private tok" by simp
  have p: "take UUID7_BYTES (token_private tok) = tk_match_id tok"
    "take CONN_ID_BYTES (drop 16 (token_private tok)) = tk_conn_id tok"
    "token_private tok ! 24 = tk_slot tok" "token_reserved_ok (token_private tok)"
    "get_u64 (drop 32 (token_private tok)) = tk_expire tok"
    "take KEY_LEN (drop 40 (token_private tok)) = enc_c2s (tk_keys tok)"
    "take KEY_LEN (drop 72 (token_private tok)) = enc_s2c (tk_keys tok)"
    "take KEY_LEN (drop 104 (token_private tok)) = mac_c2s (tk_keys tok)"
    "take KEY_LEN (drop 136 (token_private tok)) = mac_s2c (tk_keys tok)"
    using conn keys by (simp_all add: token_private_def token_reserved_ok_def token_sizes nth_append upt_rec)
  show ?thesis
    unfolding token_open_def
    by (simp add: len b magic_ver case_prod_beta mac f priv p slot Let_def)
qed

lemma reserved_zero:
  assumes "token_reserved_ok priv" "32 \<le> length priv"
  shows "take 7 (drop 25 priv) = replicate 7 0"
proof (rule nth_equalityI)
  fix i assume "i < length (take 7 (drop 25 priv))"
  then have i: "i < 7" by simp
  then have "25 + i \<in> set [25..<32]" by auto
  then have "priv ! (25 + i) = 0" using assms(1) unfolding token_reserved_ok_def list_all_iff by blast
  with i assms(2) show "take 7 (drop 25 priv) ! i = replicate 7 0 ! i" by simp
qed (use assms in simp)

lemma token_open_ok:
  assumes "token_open hk inp now out = (Ok, ex, tok)"
  shows "token_wf tok" "\<not> ex" "now = 0 \<or> now \<le> tk_expire tok"
    "inp = token_seal hk (get_u64 (drop 2 inp)) tok"
proof -
  let ?enc = "fst (token_keys hk)" and ?mac = "snd (token_keys hk)"
  define nonce where "nonce = get_u64 (drop 2 inp)"
  define priv where "priv = chacha20_xor ?enc nonce (take TOKEN_PRIVATE (drop 26 inp))"
  from assms have len: "length inp = TOKEN_WIRE" and b0: "drop_bit 4 (inp ! 0) = MAGIC_NIBBLE" "inp ! 0 AND 0x0f = VERSION"
    and b1: "inp ! 1 = TOKEN_KIND"
    and mac: "ct_equal (hmac_sha256 ?mac (take (26 + TOKEN_PRIVATE) inp)) (drop (26 + TOKEN_PRIVATE) inp) MAC_LEN"
    and res: "token_reserved_ok priv"
    and tok: "tok = out\<lparr> tk_match_id := take UUID7_BYTES priv, tk_conn_id := take CONN_ID_BYTES (drop 16 priv),
                         tk_slot := priv ! 24, tk_expire := get_u64 (drop 32 priv),
                         tk_keys := \<lparr> enc_c2s = take KEY_LEN (drop 40 priv), enc_s2c = take KEY_LEN (drop 72 priv),
                            mac_c2s = take KEY_LEN (drop 104 priv), mac_s2c = take KEY_LEN (drop 136 priv) \<rparr> \<rparr>"
    and conn: "take CONN_ID_BYTES (drop 16 priv) = take CONN_ID_BYTES (drop 10 inp)"
    and exp: "get_u64 (drop 32 priv) = get_u64 (drop 18 inp)"
    and slot: "priv ! 24 \<le> TOKEN_SLOT_MAX"
    and now: "now = 0 \<or> now \<le> get_u64 (drop 32 priv)" and ex: "\<not> ex"
    unfolding token_open_def Let_def case_prod_beta nonce_def priv_def
    by (auto simp: not_less split: if_splits)
  have lp: "length priv = 168" using len by (simp add: priv_def token_sizes)
  have li: "length inp = 210" using len by (simp add: token_sizes)
  show wf: "token_wf tok" using slot lp by (simp add: tok token_wf_def token_sizes)
  show "\<not> ex" by (fact ex)
  show "now = 0 \<or> now \<le> tk_expire tok" using now by (simp add: tok)
  have "token_private tok = take 16 priv @ take 8 (drop 16 priv) @ [priv ! 24] @ take 7 (drop 25 priv) @
      take 8 (drop 32 priv) @ take 32 (drop 40 priv) @ take 32 (drop 72 priv) @ take 32 (drop 104 priv) @
      drop 136 priv"
    using reserved_zero [OF res] lp by (simp add: token_private_def tok token_sizes le64.enc_dec)
  also have "[priv ! 24] = take 1 (drop 24 priv)" using lp take_1_drop [of 24 priv] by simp
  finally have "token_private tok = priv" by (simp add: take_drop_chain)
  then have ct: "chacha20_xor ?enc nonce (token_private tok) = take 168 (drop 26 inp)"
    by (simp add: priv_def TOKEN_PRIVATE_def)
  have mv: "inp ! 0 = MAGIC_VER" using b0 by (rule magic_ver_unique)
  have "take 194 inp = take 2 inp @ take 8 (drop 2 inp) @ take 8 (drop 10 inp) @ take 8 (drop 18 inp)
      @ take 168 (drop 26 inp)"
    by (simp add: take_take_chain append_assoc [symmetric] del: append_assoc)
  also have "take 2 inp = [MAGIC_VER, TOKEN_KIND]" using take_2_nth [of inp] li mv b1 by simp
  also have "take 8 (drop 2 inp) = put_u64 nonce" using li by (simp add: nonce_def le64.enc_dec)
  also have "take 8 (drop 10 inp) = tk_conn_id tok" using conn by (simp add: tok CONN_ID_BYTES_def)
  also have "take 8 (drop 18 inp) = put_u64 (tk_expire tok)" using li by (simp add: tok exp le64.enc_dec)
  also note ct [symmetric]
  finally have pre: "take 194 inp = [MAGIC_VER, TOKEN_KIND] @ put_u64 nonce @ tk_conn_id tok @ put_u64 (tk_expire tok)
      @ chacha20_xor ?enc nonce (token_private tok)" .
  have "take 16 (hmac_sha256 ?mac (take 194 inp)) = drop 194 inp"
    using mac li by (simp add: ct_equal_take token_sizes)
  then have "inp = take 194 inp @ take MAC_LEN (hmac_sha256 ?mac (take 194 inp))"
    by (simp add: MAC_LEN_def)
  then show "inp = token_seal hk (get_u64 (drop 2 inp)) tok"
    unfolding token_seal_layout [OF wf] pre nonce_def .
qed

subsection \<open>Properties\<close>

text \<open>C4. The host opens exactly the tokens that were sealed with its key: a byte string is accepted as
  a token when it is the sealing of that token under some nonce and the token has not expired.\<close>

theorem token_opens_iff_sealed:
  "token_open hk inp now out = (Ok, False, tok) \<longleftrightarrow>
     token_wf tok \<and> (\<exists>nonce. inp = token_seal hk nonce tok) \<and> (now = 0 \<or> now \<le> tk_expire tok)"
proof
  assume "token_open hk inp now out = (Ok, False, tok)"
  from token_open_ok [OF this]
  show "token_wf tok \<and> (\<exists>nonce. inp = token_seal hk nonce tok) \<and> (now = 0 \<or> now \<le> tk_expire tok)" by blast
next
  assume "token_wf tok \<and> (\<exists>nonce. inp = token_seal hk nonce tok) \<and> (now = 0 \<or> now \<le> tk_expire tok)"
  then show "token_open hk inp now out = (Ok, False, tok)"
    using token_seal_open [of tok hk _ now out] by (auto simp: not_less)
qed

end
