(* ===== verification/Origin_Ring.thy ===== *)
theory Origin_Ring
  imports Mh_Prelude
begin

text \<open>
  The retention ring of the exactly-once layer (\<open>Ring\<close> in \<open>mh_dll/mh_net_udp/origin_seq.h\<close>): a
  bounded circular array of entries whose payloads live in a circular byte arena.  The array and
  the arena are kept as the code has them; \<open>ring_view\<close> is what they stand for, the list of retained
  entries with their bytes, and the operations are proved to act on that list.

  Indices, counts and pool offsets are natural numbers: \<open>ring_wf\<close> bounds them by the sizes of the
  arrays, so no subtraction of the code wraps.  Sequence numbers and ticks are 32-bit words.
\<close>

definition PAYLOAD_MAX :: nat where "PAYLOAD_MAX = 2048"
definition WINDOW_MS :: int where "WINDOW_MS = 30000"
definition RING_POOL :: nat where "RING_POOL = 128 * 1024"
definition RING_ENTRIES :: nat where "RING_ENTRIES = 2048"

lemmas ring_sizes = PAYLOAD_MAX_def RING_POOL_def RING_ENTRIES_def

text \<open>Wrap-safe ``a is older than b'' over a millisecond tick.\<close>

definition tick_before :: "u32 \<Rightarrow> u32 \<Rightarrow> bool" where
  "tick_before a b \<longleftrightarrow> sint (a - b) < 0"

record ent =
  e_lo :: u32
  e_hi :: u32
  e_t :: u32
  e_off :: nat
  e_len :: nat
  e_sup :: bool

record ring =
  rg_ent :: "ent list"
  rg_pool :: bytes
  rg_head :: nat
  rg_count :: nat
  rg_ho :: nat
  rg_te :: nat
  rg_wrapped :: bool
  rg_early_evict :: nat

definition ring_clear :: "ring \<Rightarrow> ring" where
  "ring_clear r = r\<lparr> rg_head := 0, rg_count := 0, rg_ho := 0, rg_te := 0, rg_wrapped := False \<rparr>"

definition ring_idx :: "ring \<Rightarrow> nat \<Rightarrow> nat" where
  "ring_idx r i = (rg_head r + i) mod RING_ENTRIES"

definition ring_at :: "ring \<Rightarrow> nat \<Rightarrow> ent" where
  "ring_at r i = rg_ent r ! ring_idx r i"

definition oldest_lo :: "ring \<Rightarrow> u32" where
  "oldest_lo r = (if rg_count r \<noteq> 0 then e_lo (ring_at r 0) else 0)"

definition newest_hi :: "ring \<Rightarrow> u32" where
  "newest_hi r = (if rg_count r \<noteq> 0 then e_hi (ring_at r (rg_count r - 1)) else 0)"

definition evict_front :: "ring \<Rightarrow> ring" where
  "evict_front r =
     (if rg_count r = 0 then r
      else let old_ho = rg_ho r;
               r = r\<lparr> rg_head := (rg_head r + 1) mod RING_ENTRIES, rg_count := rg_count r - 1 \<rparr>
           in if rg_count r = 0 then r\<lparr> rg_ho := 0, rg_te := 0, rg_wrapped := False \<rparr>
              else let r = r\<lparr> rg_ho := e_off (ring_at r 0) \<rparr>
                   in if rg_wrapped r \<and> rg_ho r < old_ho then r\<lparr> rg_wrapped := False \<rparr> else r)"

lemma evict_front_count [simp]: "rg_count (evict_front r) = rg_count r - 1"
  by (simp add: evict_front_def Let_def)

text \<open>\<open>now - at(0).t > WINDOW_MS\<close> as signed numbers.\<close>

definition outlived :: "ring \<Rightarrow> u32 \<Rightarrow> bool" where
  "outlived r now \<longleftrightarrow> sint (now - e_t (ring_at r 0)) > WINDOW_MS"

function expire :: "ring \<Rightarrow> u32 \<Rightarrow> ring" where
  "expire r now = (if rg_count r \<noteq> 0 \<and> outlived r now then expire (evict_front r) now else r)"
  by pat_completeness auto
termination
  by (relation "measure (\<lambda>(r, now). rg_count r)") auto

declare expire.simps [simp del]

definition note_early :: "ring \<Rightarrow> u32 \<Rightarrow> ring" where
  "note_early r now =
     (if \<not> tick_before now (e_t (ring_at r 0)) \<and> sint (now - e_t (ring_at r 0)) \<le> WINDOW_MS
      then r\<lparr> rg_early_evict := rg_early_evict r + 1 \<rparr> else r)"

lemma note_early_count [simp]: "rg_count (note_early r now) = rg_count r"
  by (simp add: note_early_def)

text \<open>\<open>None\<close> is \<open>false\<close>; otherwise the ring with the offset reserved.\<close>

function place_loop :: "ring \<Rightarrow> nat \<Rightarrow> u32 \<Rightarrow> ring \<times> nat" where
  "place_loop r n now =
     (if rg_count r = 0 then (r\<lparr> rg_ho := 0, rg_te := n, rg_wrapped := False \<rparr>, 0)
      else if \<not> rg_wrapped r \<and> RING_POOL - rg_te r \<ge> n then (r\<lparr> rg_te := rg_te r + n \<rparr>, rg_te r)
      else if \<not> rg_wrapped r \<and> rg_ho r \<ge> n then (r\<lparr> rg_wrapped := True, rg_te := n \<rparr>, 0)
      else if rg_wrapped r \<and> rg_ho r - rg_te r \<ge> n then (r\<lparr> rg_te := rg_te r + n \<rparr>, rg_te r)
      else place_loop (evict_front (note_early r now)) n now)"
  by pat_completeness auto
termination
  by (relation "measure (\<lambda>(r, n, now). rg_count r)") auto

declare place_loop.simps [simp del]

definition place :: "ring \<Rightarrow> nat \<Rightarrow> u32 \<Rightarrow> (ring \<times> nat) option" where
  "place r n now = (if n > RING_POOL then None else Some (place_loop r n now))"

text \<open>A bare horizon advert (\<open>sup\<close>) coalesces into such a neighbour of equal length.\<close>

definition coalesces :: "ring \<Rightarrow> u32 \<Rightarrow> bytes \<Rightarrow> bool \<Rightarrow> bool" where
  "coalesces r lo data bare \<longleftrightarrow>
     bare \<and> rg_count r \<noteq> 0 \<and>
     (let n = ring_at r (rg_count r - 1) in e_sup n \<and> e_len n = length data \<and> e_hi n + 1 = lo)"

definition ring_add :: "ring \<Rightarrow> u32 \<Rightarrow> u32 \<Rightarrow> u32 \<Rightarrow> bytes \<Rightarrow> bool \<Rightarrow> ring" where
  "ring_add r lo hi now data bare =
     (let r = expire r now in
      if coalesces r lo data bare
      then let k = ring_idx r (rg_count r - 1); n = rg_ent r ! k in
           r\<lparr> rg_pool := memcpy_at (rg_pool r) (e_off n) data,
              rg_ent := (rg_ent r)[k := n\<lparr> e_hi := hi, e_t := now \<rparr>] \<rparr>
      else
        let r = (if rg_count r = RING_ENTRIES then evict_front (note_early r now) else r) in
        case place r (if length data > 0 then length data else 1) now of
          None \<Rightarrow> r
        | Some (r, off) \<Rightarrow>
            r\<lparr> rg_ent := (rg_ent r)[ring_idx r (rg_count r) :=
                 \<lparr> e_lo = lo, e_hi = hi, e_t = now, e_off = off, e_len = length data, e_sup = bare \<rparr>],
               rg_pool := memcpy_at (rg_pool r) off data,
               rg_count := rg_count r + 1 \<rparr>)"

subsection \<open>What the ring stands for\<close>

record held =
  h_lo :: u32
  h_hi :: u32
  h_t :: u32
  h_data :: bytes
  h_bare :: bool

definition view_ent :: "bytes \<Rightarrow> ent \<Rightarrow> held" where
  "view_ent pool e = \<lparr> h_lo = e_lo e, h_hi = e_hi e, h_t = e_t e,
     h_data = take (e_len e) (drop (e_off e) pool), h_bare = e_sup e \<rparr>"

definition live :: "ring \<Rightarrow> ent list" where
  "live r = map (ring_at r) [0..<rg_count r]"

definition ring_view :: "ring \<Rightarrow> held list" where
  "ring_view r = map (view_ent (rg_pool r)) (live r)"

definition ent_size :: "ent \<Rightarrow> nat" where
  "ent_size e = (if e_len e > 0 then e_len e else 1)"

fun contig :: "nat \<Rightarrow> ent list \<Rightarrow> nat \<Rightarrow> bool" where
  "contig a [] b = (a = b)"
| "contig a (e # es) b = (e_off e = a \<and> contig (a + ent_size e) es b)"

text \<open>Either the live payloads fill one interval of the arena, or they fill its end and then its start.\<close>

definition layout :: "nat \<Rightarrow> nat \<Rightarrow> bool \<Rightarrow> ent list \<Rightarrow> bool" where
  "layout ho te wrapped es \<longleftrightarrow>
     (if wrapped
      then \<exists>xs ys b. es = xs @ ys \<and> xs \<noteq> [] \<and> ys \<noteq> [] \<and> contig ho xs b \<and> b \<le> RING_POOL \<and>
             contig 0 ys te \<and> te \<le> ho
      else contig ho es te \<and> te \<le> RING_POOL)"

definition ring_wf :: "ring \<Rightarrow> bool" where
  "ring_wf r \<longleftrightarrow> length (rg_ent r) = RING_ENTRIES \<and> length (rg_pool r) = RING_POOL \<and>
     rg_head r < RING_ENTRIES \<and> rg_count r \<le> RING_ENTRIES \<and>
     layout (rg_ho r) (rg_te r) (rg_wrapped r) (live r)"

lemma ent_size_pos [simp]: "0 < ent_size e"
  by (simp add: ent_size_def)

lemma e_len_le_size: "e_len e \<le> ent_size e"
  by (simp add: ent_size_def)

lemma contig_append: "contig a (xs @ ys) c \<longleftrightarrow> (\<exists>b. contig a xs b \<and> contig b ys c)"
  by (induction xs arbitrary: a) auto

lemma contig_bounds:
  assumes "contig a es b"
  shows "a \<le> b" "\<And>e. e \<in> set es \<Longrightarrow> a \<le> e_off e \<and> e_off e + ent_size e \<le> b"
proof -
  have "a \<le> b \<and> (\<forall>e\<in>set es. a \<le> e_off e \<and> e_off e + ent_size e \<le> b)"
    using assms by (induction es arbitrary: a) (auto dest: add_leD1)
  then show "a \<le> b" "\<And>e. e \<in> set es \<Longrightarrow> a \<le> e_off e \<and> e_off e + ent_size e \<le> b" by auto
qed

lemma contig_nonempty: "contig a es b \<Longrightarrow> es \<noteq> [] \<Longrightarrow> a < b"
  using contig_bounds(2) [of a es b "hd es"] ent_size_pos [of "hd es"] hd_in_set [of es] by linarith

lemma layout_wrappedI:
  "contig ho xs b \<Longrightarrow> b \<le> RING_POOL \<Longrightarrow> contig 0 ys te \<Longrightarrow> te \<le> ho \<Longrightarrow> xs \<noteq> [] \<Longrightarrow> ys \<noteq> [] \<Longrightarrow>
     es = xs @ ys \<Longrightarrow> layout ho te True es"
  unfolding layout_def by (simp only: if_True) blast

lemma layout_bounds:
  assumes "layout ho te w es" and "e \<in> set es"
  shows "e_off e + ent_size e \<le> RING_POOL"
proof (cases w)
  case False
  with assms contig_bounds(2) [of ho es te e] show ?thesis by (auto simp: layout_def)
next
  case True
  with assms obtain xs ys b where es: "es = xs @ ys" "contig ho xs b" "b \<le> RING_POOL"
      "contig 0 ys te" "te \<le> ho" by (auto simp: layout_def)
  with assms(2) contig_bounds(2) [of ho xs b e] contig_bounds(2) [of 0 ys te e] contig_bounds(1) [of ho xs b]
  show ?thesis by auto
qed

text \<open>The payload of the newest entry does not meet that of any other.\<close>

lemma layout_disjoint:
  assumes "layout ho te w (es @ [e])" and "e' \<in> set es"
  shows "e_off e' + ent_size e' \<le> e_off e \<or> e_off e + ent_size e \<le> e_off e'"
proof (cases w)
  case False
  with assms(1) have c: "contig ho (es @ [e]) te" by (simp add: layout_def)
  then obtain b where "contig ho es b" "e_off e = b" by (auto simp: contig_append)
  with assms(2) contig_bounds(2) show ?thesis by blast
next
  case True
  with assms(1) obtain xs ys b where es: "es @ [e] = xs @ ys" and ne: "ys \<noteq> []"
    and c: "contig ho xs b" "contig 0 ys te" "te \<le> ho" by (auto simp: layout_def)
  from es ne obtain zs where ys: "ys = zs @ [e]" and xz: "es = xs @ zs"
    by (metis append_butlast_last_id append_assoc append1_eq_conv)
  from c(2) ys obtain d where d: "contig 0 zs d" "e_off e = d" "d + ent_size e = te"
    by (auto simp: contig_append)
  from assms(2) xz have "e' \<in> set xs \<or> e' \<in> set zs" by auto
  then show ?thesis
  proof
    assume "e' \<in> set xs"
    with contig_bounds(2) [OF c(1)] d c(3) show ?thesis by fastforce
  next
    assume "e' \<in> set zs"
    with contig_bounds(2) [OF d(1)] d(2) show ?thesis by blast
  qed
qed

lemma contig_replace: "ent_size e' = ent_size e \<Longrightarrow> e_off e' = e_off e \<Longrightarrow> contig a (xs @ [e']) b = contig a (xs @ [e]) b"
  by (simp add: contig_append)

lemma layout_replace:
  assumes "layout ho te w (es @ [e])" "ent_size e' = ent_size e" "e_off e' = e_off e"
  shows "layout ho te w (es @ [e'])"
proof (cases w)
  case False
  with assms show ?thesis by (simp add: layout_def contig_append)
next
  case True
  with assms(1) obtain xs ys b where es: "es @ [e] = xs @ ys" and ne: "xs \<noteq> []" "ys \<noteq> []"
    and c: "contig ho xs b" "b \<le> RING_POOL" "contig 0 ys te" "te \<le> ho" by (auto simp: layout_def)
  from es ne obtain zs where ys: "ys = zs @ [e]" and xz: "es = xs @ zs"
    by (metis append_butlast_last_id append_assoc append1_eq_conv)
  have "contig 0 (zs @ [e']) te" using c(3) ys contig_replace [OF assms(2,3), of 0 zs te] by simp
  then show ?thesis using layout_wrappedI [OF c(1,2) _ c(4) ne(1), of "zs @ [e']"] True xz by simp
qed

subsection \<open>Evicting the oldest\<close>

lemma ring_at_evict:
  "rg_count r \<noteq> 0 \<Longrightarrow> ring_at (evict_front r) i = ring_at r (Suc i)"
  by (simp add: evict_front_def ring_at_def ring_idx_def Let_def mod_add_left_eq)

lemma live_evict: "live (evict_front r) = tl (live r)"
proof (cases "rg_count r")
  case (Suc n)
  then have "live (evict_front r) = map (\<lambda>i. ring_at r (Suc i)) [0..<n]"
    by (simp add: live_def ring_at_evict)
  also have "\<dots> = map (ring_at r) [1..<Suc n]"
    by (simp add: map_Suc_upt [symmetric] comp_def del: upt_Suc)
  finally show ?thesis using Suc by (simp add: live_def upt_conv_Cons del: upt_Suc)
qed (simp add: live_def evict_front_def)

lemma live_nth: "i < rg_count r \<Longrightarrow> live r ! i = ring_at r i"
  by (simp add: live_def)

lemma length_live [simp]: "length (live r) = rg_count r"
  by (simp add: live_def)

lemma evict_frame [simp]:
  "rg_ent (evict_front r) = rg_ent r" "rg_pool (evict_front r) = rg_pool r"
  by (simp_all add: evict_front_def Let_def)

lemma evict_layout:
  assumes "layout (rg_ho r) (rg_te r) (rg_wrapped r) (live r)"
  shows "layout (rg_ho (evict_front r)) (rg_te (evict_front r)) (rg_wrapped (evict_front r)) (live (evict_front r))"
proof (cases "live r")
  case Nil
  then have "rg_count r = 0" using length_live [of r] by simp
  then show ?thesis using assms by (simp add: evict_front_def)
next
  case (Cons e es)
  then have n: "rg_count r = Suc (length es)" using length_live [of r] by simp
  show ?thesis
  proof (cases es)
    case Nil
    with n Cons have "live (evict_front r) = []" by (simp add: live_evict)
    then show ?thesis using n Nil by (simp add: evict_front_def Let_def layout_def)
  next
    case (Cons e2 es2)
    have "ring_at (evict_front r) 0 = live (evict_front r) ! 0"
      using n Cons by (intro live_nth [symmetric]) simp
    then have "ring_at (evict_front r) 0 = e2"
      using \<open>live r = e # es\<close> Cons by (simp add: live_evict)
    moreover have "ring_at (evict_front r) 0 = ring_at (r\<lparr> rg_head := (rg_head r + 1) mod RING_ENTRIES, rg_count := rg_count r - 1 \<rparr>) 0"
      using n by (simp add: evict_front_def ring_at_def ring_idx_def Let_def)
    ultimately have ho: "rg_ho (evict_front r) = e_off e2" and te: "rg_te (evict_front r) = rg_te r"
      and w: "rg_wrapped (evict_front r) \<longleftrightarrow> rg_wrapped r \<and> \<not> e_off e2 < rg_ho r"
      using n Cons by (auto simp: evict_front_def Let_def)
    have lv: "live (evict_front r) = e2 # es2" using \<open>live r = e # es\<close> Cons by (simp add: live_evict)
    show ?thesis
    proof (cases "rg_wrapped r")
      case False
      with assms \<open>live r = e # es\<close> Cons show ?thesis
        by (auto simp: layout_def ho te w lv)
    next
      case True
      with assms \<open>live r = e # es\<close> obtain xs ys b where split: "e # es = xs @ ys" "xs \<noteq> []" "ys \<noteq> []"
        and c: "contig (rg_ho r) xs b" "b \<le> RING_POOL" "contig 0 ys (rg_te r)" "rg_te r \<le> rg_ho r"
        by (auto simp: layout_def)
      then obtain xs' where xs: "xs = e # xs'" and es: "es = xs' @ ys" by (cases xs) auto
      from c(1) xs have c': "contig (rg_ho r + ent_size e) xs' b" by simp
      have te0: "0 < rg_te r" using contig_nonempty [OF c(3) split(3)] .
      show ?thesis
      proof (cases xs')
        case Nil
        with es Cons c(3) have "e_off e2 = 0" by (cases ys) auto
        moreover have "rg_ho r \<le> RING_POOL" using contig_bounds(1) [OF c(1)] c(2) by simp
        ultimately show ?thesis
          using c te0 es Nil Cons by (simp add: layout_def ho te w lv)
      next
        case (Cons e3 xs2)
        then have e2: "e2 = e3" "e_off e2 = rg_ho r + ent_size e" using es \<open>es = e2 # es2\<close> c' by auto
        have "layout (e_off e2) (rg_te r) True (e2 # es2)"
          using es \<open>es = e2 # es2\<close> c c' e2 Cons split(3)
            layout_wrappedI [of "e_off e2" xs' b ys "rg_te r"] by simp
        then show ?thesis using True e2(2) by (simp add: ho te w lv)
      qed
    qed
  qed
qed

lemma evict_wf: "ring_wf r \<Longrightarrow> ring_wf (evict_front r)"
  using evict_layout [of r] by (auto simp: ring_wf_def) (auto simp: evict_front_def Let_def RING_ENTRIES_def)

subsection \<open>Expiry and the early-eviction counter\<close>

lemma note_early_frame [simp]:
  "rg_ent (note_early r now) = rg_ent r" "rg_pool (note_early r now) = rg_pool r"
  "rg_head (note_early r now) = rg_head r" "rg_ho (note_early r now) = rg_ho r"
  "rg_te (note_early r now) = rg_te r" "rg_wrapped (note_early r now) = rg_wrapped r"
  by (simp_all add: note_early_def)

lemma live_note_early [simp]: "live (note_early r now) = live r"
  by (simp add: live_def ring_at_def [abs_def] ring_idx_def)

lemma note_early_wf [simp]: "ring_wf (note_early r now) = ring_wf r"
  by (simp add: ring_wf_def)

lemma expire_suffix:
  "ring_wf r \<Longrightarrow> ring_wf (expire r now) \<and> rg_pool (expire r now) = rg_pool r \<and>
     (\<exists>k. live (expire r now) = drop k (live r))"
proof (induction r now rule: expire.induct)
  case (1 r now)
  show ?case
  proof (cases "rg_count r \<noteq> 0 \<and> outlived r now")
    case True
    with "1.IH" [OF True evict_wf [OF "1.prems"]]
    have IH: "ring_wf (expire (evict_front r) now)" "rg_pool (expire (evict_front r) now) = rg_pool r"
      "\<exists>k. live (expire (evict_front r) now) = drop k (tl (live r))"
      by (simp_all add: live_evict)
    moreover have "expire r now = expire (evict_front r) now"
      using True by (subst expire.simps) simp
    moreover have "drop k (tl (live r)) = drop (Suc k) (live r)" for k by (simp add: drop_Suc)
    ultimately show ?thesis by metis
  next
    case False
    then have "expire r now = r" by (subst expire.simps) auto
    with "1.prems" show ?thesis by (metis drop0)
  qed
qed

text \<open>After expiry the oldest entry is within the window.\<close>

lemma expire_oldest: "rg_count (expire r now) = 0 \<or> \<not> outlived (expire r now) now"
proof (induction r now rule: expire.induct)
  case (1 r now)
  then show ?case by (cases "rg_count r \<noteq> 0 \<and> outlived r now") (simp_all add: expire.simps [of r now])
qed

subsection \<open>Reserving space\<close>

lemma place_loop_spec:
  assumes "ring_wf r" and "1 \<le> n" "n \<le> RING_POOL" and "place_loop r n now = (r', off)"
  shows "rg_ent r' = rg_ent r \<and> rg_pool r' = rg_pool r \<and> rg_head r' < RING_ENTRIES \<and> rg_count r' \<le> rg_count r \<and>
    (\<exists>k. live r' = drop k (live r)) \<and>
    (\<forall>e. e_off e = off \<longrightarrow> ent_size e = n \<longrightarrow> layout (rg_ho r') (rg_te r') (rg_wrapped r') (live r' @ [e]))"
  using assms
proof (induction r n now rule: place_loop.induct)
  case (1 r n now)
  have l: "layout (rg_ho r) (rg_te r) (rg_wrapped r) (live r)" and hd: "rg_head r < RING_ENTRIES"
    using "1.prems"(1) by (simp_all add: ring_wf_def)
  have lv: "live (r\<lparr> rg_ho := x, rg_te := y, rg_wrapped := z \<rparr>) = live r"
    "live (r\<lparr> rg_te := y \<rparr>) = live r" "live (r\<lparr> rg_wrapped := z, rg_te := y \<rparr>) = live r" for x y z
    by (simp_all add: live_def ring_at_def ring_idx_def)
  have d0: "\<exists>k. live r = drop k (live r)" by (rule exI [of _ 0]) simp
  consider (empty) "rg_count r = 0"
    | (tail) "rg_count r \<noteq> 0" "\<not> rg_wrapped r" "RING_POOL - rg_te r \<ge> n"
    | (wrap) "rg_count r \<noteq> 0" "\<not> rg_wrapped r" "\<not> RING_POOL - rg_te r \<ge> n" "rg_ho r \<ge> n"
    | (gap) "rg_count r \<noteq> 0" "rg_wrapped r" "rg_ho r - rg_te r \<ge> n"
    | (evict) "rg_count r \<noteq> 0" "\<not> (\<not> rg_wrapped r \<and> RING_POOL - rg_te r \<ge> n)"
        "\<not> (\<not> rg_wrapped r \<and> rg_ho r \<ge> n)" "\<not> (rg_wrapped r \<and> rg_ho r - rg_te r \<ge> n)"
    by blast
  then show ?case
  proof cases
    case empty
    then have "live r = []" by (simp add: live_def)
    with empty "1.prems" hd show ?thesis
      by (auto simp: place_loop.simps [of r n now] lv layout_def)
  next
    case tail
    then have "r' = r\<lparr> rg_te := rg_te r + n \<rparr>" "off = rg_te r"
      using "1.prems"(4) by (auto simp: place_loop.simps [of r n now])
    moreover have "rg_te r + n \<le> RING_POOL" using tail "1.prems"(2) by linarith
    ultimately show ?thesis using tail(2) l hd d0
      by (auto simp: lv layout_def contig_append)
  next
    case wrap
    then have r': "r' = r\<lparr> rg_wrapped := True, rg_te := n \<rparr>" "off = 0"
      using "1.prems"(4) by (simp_all add: place_loop.simps [of r n now])
    have "live r \<noteq> []" using wrap(1) length_live [of r] by (metis list.size(3))
    with wrap l hd have "layout (rg_ho r) n True (live r @ [e])" if "e_off e = 0" "ent_size e = n" for e
      using that layout_wrappedI [of "rg_ho r" "live r" "rg_te r" "[e]" n] by (simp add: layout_def)
    with r' hd d0 show ?thesis by (auto simp: lv)
  next
    case gap
    then have r': "r' = r\<lparr> rg_te := rg_te r + n \<rparr>" "off = rg_te r"
      using "1.prems"(4) by (auto simp: place_loop.simps [of r n now])
    from gap l obtain xs ys b where x: "live r = xs @ ys" "xs \<noteq> []" "ys \<noteq> []" "contig (rg_ho r) xs b"
        "b \<le> RING_POOL" "contig 0 ys (rg_te r)" "rg_te r \<le> rg_ho r" by (auto simp: layout_def)
    have "rg_te r + n \<le> rg_ho r" using gap(3) x(7) by linarith
    with x have "layout (rg_ho r) (rg_te r + n) True (live r @ [e])" if "e_off e = rg_te r" "ent_size e = n" for e
      using that layout_wrappedI [of "rg_ho r" xs b "ys @ [e]" "rg_te r + n"] by (simp add: contig_append)
    with r' gap(2) hd d0 show ?thesis by (auto simp: lv)
  next
    case evict
    have "place_loop r n now = place_loop (evict_front (note_early r now)) n now"
      using evict by (subst place_loop.simps) auto
    with "1.prems"(4) have step: "place_loop (evict_front (note_early r now)) n now = (r', off)" by simp
    have "ring_wf (evict_front (note_early r now))" using "1.prems"(1) by (intro evict_wf) simp
    from "1.IH" [OF _ _ _ _ this "1.prems"(2,3) step] evict
    have IH: "rg_ent r' = rg_ent r" "rg_pool r' = rg_pool r" "rg_head r' < RING_ENTRIES" "rg_count r' \<le> rg_count r - 1"
      "\<exists>k. live r' = drop k (tl (live r))"
      "\<forall>e. e_off e = off \<longrightarrow> ent_size e = n \<longrightarrow> layout (rg_ho r') (rg_te r') (rg_wrapped r') (live r' @ [e])"
      by (auto simp: live_evict)
    moreover have "drop k (tl (live r)) = drop (Suc k) (live r)" for k by (simp add: drop_Suc)
    ultimately show ?thesis by (metis diff_le_self order_trans)
  qed
qed

subsection \<open>Adding an entry\<close>

lemma view_ent_memcpy:
  assumes "off + length data \<le> length pool"
    and "e_off e + e_len e \<le> off \<or> off + length data \<le> e_off e"
  shows "view_ent (memcpy_at pool off data) e = view_ent pool e"
proof -
  have "take (e_len e) (drop (e_off e) (memcpy_at pool off data)) = take (e_len e) (drop (e_off e) pool)"
  proof (cases "e_off e + e_len e \<le> length pool")
    case True
    then show ?thesis
      using assms by (intro nth_equalityI) (auto simp: nth_memcpy_at)
  next
    case False
    with assms have right: "off + length data \<le> e_off e" by linarith
    then have "drop (e_off e) (memcpy_at pool off data) = drop (e_off e) pool"
      using assms(1) by (intro nth_equalityI) (auto simp: nth_memcpy_at)
    then show ?thesis by simp
  qed
  then show ?thesis by (simp add: view_ent_def)
qed

lemma ring_idx_lt [simp]: "ring_idx r i < RING_ENTRIES"
  by (simp add: ring_idx_def RING_ENTRIES_def)

lemma ring_idx_inj:
  assumes "i < RING_ENTRIES" "j < RING_ENTRIES" "ring_idx r i = ring_idx r j"
  shows "i = j"
proof -
  have *: "i = j" if "i \<le> j" "j < RING_ENTRIES" "(h + i) mod RING_ENTRIES = (h + j) mod RING_ENTRIES" for h i j :: nat
  proof -
    from that(3) have "RING_ENTRIES dvd j - i"
      using that(1) mod_eq_dvd_iff_nat [of "h + i" "h + j" RING_ENTRIES] by simp
    then show ?thesis using that by (auto dest: dvd_imp_le)
  qed
  show ?thesis
    using assms *[of i j "rg_head r"] *[of j i "rg_head r"] by (cases "i \<le> j") (auto simp: ring_idx_def)
qed

lemma live_push:
  assumes "length (rg_ent r) = RING_ENTRIES" "rg_count r < RING_ENTRIES"
  shows "live (r\<lparr> rg_ent := (rg_ent r)[ring_idx r (rg_count r) := e], rg_pool := q, rg_count := rg_count r + 1 \<rparr>)
    = live r @ [e]"
proof -
  let ?r = "r\<lparr> rg_ent := (rg_ent r)[ring_idx r (rg_count r) := e], rg_pool := q, rg_count := rg_count r + 1 \<rparr>"
  have "ring_at ?r i = ring_at r i" if "i < rg_count r" for i
    using that assms ring_idx_inj [of i "rg_count r" r]
    by (auto simp: ring_at_def ring_idx_def nth_list_update)
  moreover have "ring_at ?r (rg_count r) = e"
    using assms by (simp add: ring_at_def) (simp add: ring_idx_def RING_ENTRIES_def)
  ultimately show ?thesis by (simp add: live_def)
qed

lemma live_update_last:
  assumes "length (rg_ent r) = RING_ENTRIES" "rg_count r \<le> RING_ENTRIES" "rg_count r \<noteq> 0"
  shows "live (r\<lparr> rg_pool := q, rg_ent := (rg_ent r)[ring_idx r (rg_count r - 1) := e] \<rparr>)
    = butlast (live r) @ [e]"
proof -
  let ?r = "r\<lparr> rg_pool := q, rg_ent := (rg_ent r)[ring_idx r (rg_count r - 1) := e] \<rparr>"
  have at: "ring_at ?r i = (if i = rg_count r - 1 then e else ring_at r i)" if "i < rg_count r" for i
  proof -
    have "ring_idx ?r i = ring_idx r i" by (simp add: ring_idx_def)
    moreover have "ring_idx r (rg_count r - 1) = ring_idx r i \<longleftrightarrow> i = rg_count r - 1"
      using that assms(2) ring_idx_inj [of "rg_count r - 1" i r] by auto
    ultimately show ?thesis using assms(1) by (simp add: ring_at_def nth_list_update)
  qed
  show ?thesis
  proof (rule nth_equalityI)
    fix i assume "i < length (live ?r)"
    then have "i < rg_count r" by simp
    then show "live ?r ! i = (butlast (live r) @ [e]) ! i"
      using assms(3) at [of i] by (simp add: live_def nth_append nth_butlast)
  qed (use assms(3) in simp)
qed

lemma wf_after_expire:
  fixes now :: u32
  assumes "ring_wf r"
  defines "r1 \<equiv> expire r now"
  defines "r2 \<equiv> (if rg_count r1 = RING_ENTRIES then evict_front (note_early r1 now) else r1)"
  shows "ring_wf r1" "ring_wf r2" "rg_count r2 < RING_ENTRIES" "rg_pool r1 = rg_pool r" "rg_pool r2 = rg_pool r"
    "\<exists>k. live r1 = drop k (live r)" "\<exists>k. live r2 = drop k (live r)"
proof -
  from expire_suffix [OF assms(1)] show 1: "ring_wf r1" "rg_pool r1 = rg_pool r" "\<exists>k. live r1 = drop k (live r)"
    by (auto simp: r1_def)
  then show "ring_wf r2" "rg_pool r2 = rg_pool r" by (simp_all add: r2_def evict_wf)
  show "rg_count r2 < RING_ENTRIES"
    using 1(1) by (auto simp: r2_def ring_wf_def RING_ENTRIES_def)
  obtain k where "live r1 = drop k (live r)" using 1(3) by blast
  then have "tl (live r1) = drop (Suc k) (live r)" by (simp add: tl_drop drop_Suc)
  with 1(3) show "\<exists>k. live r2 = drop k (live r)" by (auto simp: r2_def live_evict)
qed

lemma ring_add_push:
  assumes wf: "ring_wf r" and len: "length data \<le> PAYLOAD_MAX"
    and nc: "\<not> coalesces (expire r now) lo data bare"
  shows "ring_wf (ring_add r lo hi now data bare) \<and>
    (\<exists>k. ring_view (ring_add r lo hi now data bare) = drop k (ring_view r) @
       [\<lparr> h_lo = lo, h_hi = hi, h_t = now, h_data = data, h_bare = bare \<rparr>])"
proof -
  let ?r1 = "expire r now"
  let ?r2 = "if rg_count ?r1 = RING_ENTRIES then evict_front (note_early ?r1 now) else ?r1"
  let ?n = "if length data > 0 then length data else 1"
  note w = wf_after_expire [OF wf, where now = now]
  have n: "1 \<le> ?n" "?n \<le> RING_POOL" using len by (auto simp: ring_sizes Suc_le_eq)
  obtain r3 off where pl: "place_loop ?r2 ?n now = (r3, off)" by fastforce
  let ?e = "\<lparr> e_lo = lo, e_hi = hi, e_t = now, e_off = off, e_len = length data, e_sup = bare \<rparr>"
  have sz: "ent_size ?e = ?n" by (simp add: ent_size_def)
  from place_loop_spec [OF w(2) n pl]
  have p: "rg_ent r3 = rg_ent ?r2" "rg_pool r3 = rg_pool r" "rg_head r3 < RING_ENTRIES" "rg_count r3 < RING_ENTRIES"
    and suf: "\<exists>k. live r3 = drop k (live ?r2)"
    and lay: "layout (rg_ho r3) (rg_te r3) (rg_wrapped r3) (live r3 @ [?e])"
    using w(3,5) sz by (auto simp: )
  let ?r4 = "r3\<lparr> rg_ent := (rg_ent r3)[ring_idx r3 (rg_count r3) := ?e],
               rg_pool := memcpy_at (rg_pool r3) off data, rg_count := rg_count r3 + 1 \<rparr>"
  have add: "ring_add r lo hi now data bare = ?r4"
    using nc n(2) pl by (simp add: ring_add_def Let_def place_def)
  have le: "length (rg_ent r3) = RING_ENTRIES" "length (rg_pool r3) = RING_POOL"
    using w(2) p(1,2) wf by (auto simp: ring_wf_def)
  have lv: "live ?r4 = live r3 @ [?e]" using le(1) p(4) by (rule live_push)
  have top: "off + ?n \<le> RING_POOL" using layout_bounds [OF lay, of ?e] sz by simp
  then have fit: "off + length data \<le> length (rg_pool r3)" using le(2) by (simp split: if_splits)
  have "ring_wf ?r4"
    using le p(3,4) lay fit lv by (simp add: ring_wf_def)
  moreover have "view_ent (memcpy_at (rg_pool r3) off data) e = view_ent (rg_pool r) e" if "e \<in> set (live r3)" for e
    using layout_disjoint [OF lay that] e_len_le_size [of e] e_len_le_size [of ?e] sz fit
    by (subst view_ent_memcpy) (auto simp: p(2))
  moreover have "view_ent (memcpy_at (rg_pool r3) off data) ?e =
      \<lparr> h_lo = lo, h_hi = hi, h_t = now, h_data = data, h_bare = bare \<rparr>"
    using memcpy_at_read [of off "rg_pool r3" data] fit by (simp add: view_ent_def)
  ultimately have view: "ring_view ?r4 = map (view_ent (rg_pool r)) (live r3) @
      [\<lparr> h_lo = lo, h_hi = hi, h_t = now, h_data = data, h_bare = bare \<rparr>]"
    unfolding ring_view_def lv by simp
  obtain j k where "live r3 = drop j (live ?r2)" "live ?r2 = drop k (live r)" using suf w(7) by metis
  then have "map (view_ent (rg_pool r)) (live r3) = drop (j + k) (ring_view r)"
    by (simp add: ring_view_def drop_map)
  with view \<open>ring_wf ?r4\<close> show ?thesis unfolding add by auto
qed

lemma ring_add_coalesce:
  assumes wf: "ring_wf r" and c: "coalesces (expire r now) lo data bare"
  shows "ring_wf (ring_add r lo hi now data bare) \<and>
    (\<exists>k. drop k (ring_view r) \<noteq> [] \<and> h_hi (last (drop k (ring_view r))) + 1 = lo \<and>
       h_bare (last (drop k (ring_view r))) \<and> bare \<and>
       ring_view (ring_add r lo hi now data bare) = butlast (drop k (ring_view r)) @
         [\<lparr> h_lo = h_lo (last (drop k (ring_view r))), h_hi = hi, h_t = now, h_data = data, h_bare = True \<rparr>])"
proof -
  let ?r1 = "expire r now"
  let ?k = "ring_idx ?r1 (rg_count ?r1 - 1)"
  let ?n = "rg_ent ?r1 ! ?k"
  let ?e = "?n\<lparr> e_hi := hi, e_t := now \<rparr>"
  note w = wf_after_expire [OF wf, where now = now]
  have n: "ring_at ?r1 (rg_count ?r1 - 1) = ?n" by (simp add: ring_at_def)
  from c have c0: "rg_count ?r1 \<noteq> 0" and nb: "e_sup ?n" "bare" "e_len ?n = length data" "e_hi ?n + 1 = lo"
    unfolding coalesces_def Let_def n by auto
  let ?r2 = "?r1\<lparr> rg_pool := memcpy_at (rg_pool ?r1) (e_off ?n) data, rg_ent := (rg_ent ?r1)[?k := ?e] \<rparr>"
  have add: "ring_add r lo hi now data bare = ?r2"
    using c by (simp add: ring_add_def Let_def)
  have le: "length (rg_ent ?r1) = RING_ENTRIES" "length (rg_pool ?r1) = RING_POOL" "rg_count ?r1 \<le> RING_ENTRIES"
      "rg_head ?r1 < RING_ENTRIES"
    and lay: "layout (rg_ho ?r1) (rg_te ?r1) (rg_wrapped ?r1) (live ?r1)"
    using w(1) by (simp_all add: ring_wf_def)
  have lv: "live ?r2 = butlast (live ?r1) @ [?e]" using le(1,3) c0 by (rule live_update_last)
  have ne: "live ?r1 \<noteq> []" using c0 length_live [of ?r1] by (metis list.size(3))
  have last: "last (live ?r1) = ?n"
    using ne c0 live_nth [of "rg_count ?r1 - 1" ?r1] n by (simp add: last_conv_nth)
  have split: "live ?r1 = butlast (live ?r1) @ [?n]" using ne last by (metis append_butlast_last_id)
  have sz: "ent_size ?e = ent_size ?n" by (simp add: ent_size_def)
  have lay1: "layout (rg_ho ?r1) (rg_te ?r1) (rg_wrapped ?r1) (butlast (live ?r1) @ [?n])"
    by (subst split [symmetric]) (rule lay)
  have lay2: "layout (rg_ho ?r1) (rg_te ?r1) (rg_wrapped ?r1) (butlast (live ?r1) @ [?e])"
    by (rule layout_replace [OF lay1 sz]) simp
  have fit: "e_off ?n + length data \<le> length (rg_pool ?r1)"
    using layout_bounds [OF lay, of ?n] last_in_set [OF ne] last e_len_le_size [of ?n] nb(3) le(2) by simp
  have wf2: "ring_wf ?r2" using le lay2 fit lv by (simp add: ring_wf_def)
  have old: "view_ent (memcpy_at (rg_pool ?r1) (e_off ?n) data) e = view_ent (rg_pool r) e"
    if "e \<in> set (butlast (live ?r1))" for e
    using layout_disjoint [OF lay1 that] e_len_le_size [of e] e_len_le_size [of ?n] nb(3) fit
    by (subst view_ent_memcpy) (auto simp: w(4))
  have new: "view_ent (memcpy_at (rg_pool ?r1) (e_off ?n) data) ?e =
      \<lparr> h_lo = e_lo ?n, h_hi = hi, h_t = now, h_data = data, h_bare = True \<rparr>"
    using memcpy_at_read [of "e_off ?n" "rg_pool ?r1" data] fit nb by (simp add: view_ent_def)
  have view: "ring_view ?r2 = map (view_ent (rg_pool r)) (butlast (live ?r1)) @
      [\<lparr> h_lo = e_lo ?n, h_hi = hi, h_t = now, h_data = data, h_bare = True \<rparr>]"
    unfolding ring_view_def lv using old new by simp
  obtain k where k: "live ?r1 = drop k (live r)" using w(6) by blast
  then have v: "drop k (ring_view r) = map (view_ent (rg_pool r)) (live ?r1)"
    by (simp add: ring_view_def drop_map)
  have "drop k (ring_view r) \<noteq> []" using v ne by simp
  moreover have "last (drop k (ring_view r)) = view_ent (rg_pool r) ?n" using v ne last by (simp add: last_map)
  moreover have "butlast (drop k (ring_view r)) = map (view_ent (rg_pool r)) (butlast (live ?r1))"
    using v by (simp add: map_butlast)
  ultimately show ?thesis
    unfolding add using wf2 view nb by (intro conjI exI [of _ k]) (simp_all add: view_ent_def)
qed

lemma ring_clear_wf:
  "length (rg_ent r) = RING_ENTRIES \<Longrightarrow> length (rg_pool r) = RING_POOL \<Longrightarrow>
     ring_wf (ring_clear r) \<and> ring_view (ring_clear r) = []"
  by (simp add: ring_wf_def ring_clear_def layout_def live_def ring_view_def RING_ENTRIES_def)

subsection \<open>Properties\<close>

text \<open>Adding a frame to the retention ring keeps the ring well formed and every retained payload
  intact: what the ring holds afterwards is a suffix of what it held (the oldest entries are expired
  or evicted), followed by the new frame, or with its last entry extended when both are bare adverts
  of the same length and the sequences meet.  In particular the circular byte arena never overwrites
  a live payload.\<close>

theorem ring_add_keeps_payloads:
  assumes "ring_wf r" and "length data \<le> PAYLOAD_MAX"
  shows "ring_wf (ring_add r lo hi now data bare) \<and>
    (\<exists>k. ring_view (ring_add r lo hi now data bare) = drop k (ring_view r) @
           [\<lparr> h_lo = lo, h_hi = hi, h_t = now, h_data = data, h_bare = bare \<rparr>] \<or>
         (drop k (ring_view r) \<noteq> [] \<and> bare \<and> h_bare (last (drop k (ring_view r))) \<and>
          h_hi (last (drop k (ring_view r))) + 1 = lo \<and>
          ring_view (ring_add r lo hi now data bare) = butlast (drop k (ring_view r)) @
            [\<lparr> h_lo = h_lo (last (drop k (ring_view r))), h_hi = hi, h_t = now, h_data = data, h_bare = True \<rparr>]))"
  using ring_add_push [OF assms, of now lo bare hi] ring_add_coalesce [OF assms(1), of now lo data bare hi]
  by (cases "coalesces (expire r now) lo data bare") blast+

definition ring0 :: ring where
  "ring0 = \<lparr> rg_ent = replicate RING_ENTRIES \<lparr> e_lo = 0, e_hi = 0, e_t = 0, e_off = 0, e_len = 0, e_sup = False \<rparr>,
     rg_pool = replicate RING_POOL 0, rg_head = 0, rg_count = 0, rg_ho = 0, rg_te = 0, rg_wrapped = False,
     rg_early_evict = 0 \<rparr>"

lemma ring0_wf: "ring_wf ring0" "ring_view ring0 = []"
  by (simp_all add: ring_wf_def ring0_def layout_def live_def ring_view_def RING_ENTRIES_def)

theorem ring_add_keeps_payloads_witness:
  "ring_wf (ring_add ring0 1 1 5 [7, 8] False) \<and>
    (\<exists>k. ring_view (ring_add ring0 1 1 5 [7, 8] False) = drop k (ring_view ring0) @
           [\<lparr> h_lo = 1, h_hi = 1, h_t = 5, h_data = [7, 8], h_bare = False \<rparr>] \<or>
         (drop k (ring_view ring0) \<noteq> [] \<and> False \<and> h_bare (last (drop k (ring_view ring0))) \<and>
          h_hi (last (drop k (ring_view ring0))) + 1 = 1 \<and>
          ring_view (ring_add ring0 1 1 5 [7, 8] False) = butlast (drop k (ring_view ring0)) @
            [\<lparr> h_lo = h_lo (last (drop k (ring_view ring0))), h_hi = 1, h_t = 5, h_data = [7, 8], h_bare = True \<rparr>]))"
  by (rule ring_add_keeps_payloads) (simp_all add: ring0_wf PAYLOAD_MAX_def)

end
