(* ===== verification/Origin_Plan.thy ===== *)
theory Origin_Plan
  imports Byteio Origin_Ring
begin

text \<open>
  The wire vocabulary and the reconcile planner of the exactly-once layer
  (\<open>mh_dll/mh_net_udp/origin_seq.h\<close>): the seven-byte prefix, the report and range records, and
  \<open>plan\<close>, which turns the survivors' reports into fetches.
\<close>

definition ORIGINS :: nat where "ORIGINS = 8"
definition ORIGIN_MAGIC :: u8 where "ORIGIN_MAGIC = 0xC3"
definition PREFIX_BYTES :: nat where "PREFIX_BYTES = 7"
definition CAP_VERSION :: u8 where "CAP_VERSION = 3"
definition REPORT_WIRE_BYTES :: nat where "REPORT_WIRE_BYTES = 1 + ORIGINS * 10"
definition RANGE_HDR_BYTES :: nat where "RANGE_HDR_BYTES = 13"

subsection \<open>The prefix\<close>

definition prefix_encode :: "u16 \<Rightarrow> u32 \<Rightarrow> bytes" where
  "prefix_encode inc sq =
     [ORIGIN_MAGIC, ucast (inc AND 0xff), ucast (drop_bit 8 inc),
      ucast (sq AND 0xff), ucast (drop_bit 8 sq AND 0xff),
      ucast (drop_bit 16 sq AND 0xff), ucast (drop_bit 24 sq AND 0xff)]"

text \<open>\<open>None\<close> as argument is the null pointer.\<close>

definition prefix_decode :: "bytes option \<Rightarrow> (u16 \<times> u32) option" where
  "prefix_decode p =
     (case p of None \<Rightarrow> None
      | Some p \<Rightarrow>
          if length p < PREFIX_BYTES \<or> p ! 0 \<noteq> ORIGIN_MAGIC then None
          else Some (get_u16 (drop 1 p), get_u32 (drop 3 p)))"

lemma low_byte_mask: "v AND 0xff = take_bit 8 v" for v :: "'a::len word"
  using take_bit_eq_mask [of 8 v] by (simp add: mask_eq_exp_minus_1)

lemma ucast_low_byte: "ucast (v AND 0xff) = (ucast v :: u8)" for v :: "'a::len word"
  unfolding low_byte_mask by (rule bit_word_eqI) (auto simp: bit_simps)

lemma prefix_encode_eq: "prefix_encode inc sq = ORIGIN_MAGIC # put_u16 inc @ put_u32 sq"
  by (simp only: prefix_encode_def ucast_low_byte put_u16_def put_u32_def append_Cons append_Nil)

lemma prefix_round_trip: "prefix_decode (Some (prefix_encode inc sq @ payload)) = Some (inc, sq)"
  by (simp add: prefix_encode_eq prefix_decode_def PREFIX_BYTES_def)

lemma prefix_decode_iff:
  "prefix_decode (Some p) = Some (inc, sq) \<longleftrightarrow> (\<exists>payload. p = prefix_encode inc sq @ payload)"
proof
  assume *: "prefix_decode (Some p) = Some (inc, sq)"
  then have len: "7 \<le> length p" and p0: "p ! 0 = ORIGIN_MAGIC"
    and f: "inc = get_u16 (drop 1 p)" "sq = get_u32 (drop 3 p)"
    by (auto simp: prefix_decode_def PREFIX_BYTES_def split: if_splits)
  have "put_u16 inc = take 2 (drop 1 p)" "put_u32 sq = take 4 (drop 3 p)"
    using len by (simp_all add: f put_get)
  moreover have "[ORIGIN_MAGIC] = take 1 p" using len p0 by (cases p) simp_all
  ultimately have "prefix_encode inc sq @ drop 7 p = take 1 p @ take 2 (drop 1 p) @ take 4 (drop 3 p) @ drop 7 p"
    by (simp add: prefix_encode_eq)
  also have "\<dots> = p" by (simp add: take_drop_chain)
  finally show "\<exists>payload. p = prefix_encode inc sq @ payload" by metis
next
  assume "\<exists>payload. p = prefix_encode inc sq @ payload"
  then show "prefix_decode (Some p) = Some (inc, sq)" using prefix_round_trip by metis
qed

subsection \<open>Reports\<close>

record report =
  rp_front :: "u32 list"
  rp_oldest :: "u32 list"
  rp_inc :: "u16 list"

definition report_encode :: "report \<Rightarrow> bytes" where
  "report_encode r =
     [CAP_VERSION] @
     concat (map (\<lambda>i. put_u32 (rp_front r ! i) @ put_u32 (rp_oldest r ! i) @ put_u16 (rp_inc r ! i))
       [0..<ORIGINS])"

definition report_decode :: "bytes \<Rightarrow> report option" where
  "report_decode inp =
     (if length inp \<noteq> REPORT_WIRE_BYTES \<or> inp ! 0 \<noteq> CAP_VERSION then None
      else Some \<lparr> rp_front = map (\<lambda>i. get_u32 (drop (1 + i * 10) inp)) [0..<ORIGINS],
                  rp_oldest = map (\<lambda>i. get_u32 (drop (1 + i * 10 + 4) inp)) [0..<ORIGINS],
                  rp_inc = map (\<lambda>i. get_u16 (drop (1 + i * 10 + 8) inp)) [0..<ORIGINS] \<rparr>)"

definition report_wf :: "report \<Rightarrow> bool" where
  "report_wf r \<longleftrightarrow> length (rp_front r) = ORIGINS \<and> length (rp_oldest r) = ORIGINS \<and> length (rp_inc r) = ORIGINS"

lemma concat_stride:
  assumes "\<And>i. i < n \<Longrightarrow> length (f i) = k" and "i < n"
  shows "\<exists>r. drop (i * k) (concat (map f [0..<n])) = f i @ r"
  using assms
proof (induction n arbitrary: i)
  case (Suc n)
  have len: "length (concat (map f [0..<m])) = m * k" if "m \<le> n" for m
    using that Suc.prems(1) by (induction m) auto
  show ?case
  proof (cases "i = n")
    case True
    then show ?thesis using len [of n] by simp
  next
    case False
    with Suc obtain r where "drop (i * k) (concat (map f [0..<n])) = f i @ r" by (metis less_Suc_eq)
    moreover have "i * k \<le> length (concat (map f [0..<n]))" using False Suc.prems(2) len [of n] by simp
    ultimately show ?thesis by simp
  qed
qed simp

lemma report_round_trip:
  assumes "report_wf r"
  shows "length (report_encode r) = REPORT_WIRE_BYTES" "report_decode (report_encode r) = Some r"
proof -
  let ?f = "\<lambda>i. put_u32 (rp_front r ! i) @ put_u32 (rp_oldest r ! i) @ put_u16 (rp_inc r ! i)"
  show len: "length (report_encode r) = REPORT_WIRE_BYTES"
    by (simp add: report_encode_def REPORT_WIRE_BYTES_def ORIGINS_def upt_rec)
  have at: "\<exists>q. drop (1 + i * 10) (report_encode r) = ?f i @ q" if "i < ORIGINS" for i
    using concat_stride [of ORIGINS ?f 10 i] that by (simp add: report_encode_def)
  have "get_u32 (drop (1 + i * 10) (report_encode r)) = rp_front r ! i"
    "get_u32 (drop (1 + i * 10 + 4) (report_encode r)) = rp_oldest r ! i"
    "get_u16 (drop (1 + i * 10 + 8) (report_encode r)) = rp_inc r ! i" if i: "i < ORIGINS" for i
  proof -
    obtain q where q: "drop (1 + i * 10) (report_encode r) = ?f i @ q" using at [OF i] by blast
    have d: "drop (1 + i * 10 + k) (report_encode r) = drop k (?f i @ q)" for k
      using arg_cong [OF q, of "drop k"] by (simp add: add.commute)
    show "get_u32 (drop (1 + i * 10) (report_encode r)) = rp_front r ! i"
      "get_u32 (drop (1 + i * 10 + 4) (report_encode r)) = rp_oldest r ! i"
      "get_u16 (drop (1 + i * 10 + 8) (report_encode r)) = rp_inc r ! i"
      unfolding d q by simp_all
  qed
  then have "map (\<lambda>i. get_u32 (drop (1 + i * 10) (report_encode r))) [0..<ORIGINS] = rp_front r"
    "map (\<lambda>i. get_u32 (drop (1 + i * 10 + 4) (report_encode r))) [0..<ORIGINS] = rp_oldest r"
    "map (\<lambda>i. get_u16 (drop (1 + i * 10 + 8) (report_encode r))) [0..<ORIGINS] = rp_inc r"
    using assms by (auto simp: report_wf_def intro!: nth_equalityI)
  moreover have "report_encode r ! 0 = CAP_VERSION" by (simp add: report_encode_def)
  ultimately show "report_decode (report_encode r) = Some r"
    by (simp only: report_decode_def len) simp
qed

subsection \<open>Served ranges\<close>

definition range_encode :: "nat \<Rightarrow> nat \<Rightarrow> u16 \<Rightarrow> u32 \<Rightarrow> u32 \<Rightarrow> bytes \<Rightarrow> bytes" where
  "range_encode cap origin inc lo hi data =
     (if cap < RANGE_HDR_BYTES + length data then []
      else [of_nat origin] @ put_u16 inc @ put_u32 lo @ put_u32 hi @ put_u16 (of_nat (length data)) @ data)"

text \<open>The bytes consumed, origin, incarnation, range and data; \<open>None\<close> is the result \<open>0\<close>.\<close>

definition range_decode :: "bytes \<Rightarrow> (nat \<times> nat \<times> u16 \<times> u32 \<times> u32 \<times> bytes) option" where
  "range_decode inp =
     (if length inp < RANGE_HDR_BYTES then None
      else let origin = unat (inp ! 0); inc = get_u16 (drop 1 inp); lo = get_u32 (drop 3 inp);
               hi = get_u32 (drop 7 inp); len = unat (get_u16 (drop 11 inp)) in
           if origin \<ge> ORIGINS \<or> len > PAYLOAD_MAX \<or> lo = 0 \<or> hi < lo \<or> length inp < RANGE_HDR_BYTES + len
           then None
           else Some (RANGE_HDR_BYTES + len, origin, inc, lo, hi, take len (drop RANGE_HDR_BYTES inp)))"

lemma range_round_trip:
  assumes "origin < ORIGINS" "length data \<le> PAYLOAD_MAX" "lo \<noteq> 0" "lo \<le> hi" "13 + length data \<le> cap"
  shows "range_decode (range_encode cap origin inc lo hi data @ rest) =
    Some (13 + length data, origin, inc, lo, hi, data)"
proof -
  have "unat (of_nat origin :: u8) = origin" using assms(1) by (simp add: ORIGINS_def unat_of_nat_u8)
  moreover have "unat (of_nat (length data) :: u16) = length data"
    using assms(2) by (simp add: PAYLOAD_MAX_def unat_of_nat_u16)
  ultimately show ?thesis using assms
    by (simp add: range_decode_def range_encode_def RANGE_HDR_BYTES_def Let_def not_le not_less)
qed

subsection \<open>The planner\<close>

record fetch =
  f_origin :: u8
  f_to_peer :: u8
  f_holder :: u8
  f_from :: u32
  f_to :: u32

text \<open>The highest frontier any survivor holds for origin \<open>k\<close>, and the first survivor that holds it.\<close>

definition best_front :: "report list \<Rightarrow> nat \<Rightarrow> u32 \<times> nat option" where
  "best_front rep k =
     foldl (\<lambda>(best, bi) p. if rp_front (rep ! p) ! k > best then (rp_front (rep ! p) ! k, Some p) else (best, bi))
       (0, None) [0..<length rep]"

definition fetch_start :: "report list \<Rightarrow> nat \<Rightarrow> nat \<Rightarrow> nat \<Rightarrow> u32" where
  "fetch_start rep k p q =
     (if rp_front (rep ! p) ! k \<noteq> 0 then rp_front (rep ! p) ! k + 1 else rp_oldest (rep ! q) ! k)"

definition find_holder :: "report list \<Rightarrow> nat \<Rightarrow> u32 \<Rightarrow> u16 \<Rightarrow> nat \<Rightarrow> nat option" where
  "find_holder rep k best inc p =
     find (\<lambda>q. \<not> (rp_front (rep ! q) ! k \<noteq> best \<or> rp_inc (rep ! q) ! k \<noteq> inc) \<and>
               rp_oldest (rep ! q) ! k \<noteq> 0 \<and> rp_oldest (rep ! q) ! k \<le> fetch_start rep k p q)
       [0..<length rep]"

text \<open>The body of the loop over the survivors, on the fetches written so far and \<open>*unrecoverable\<close>.\<close>

definition plan_peer ::
    "report list \<Rightarrow> nat \<Rightarrow> nat \<Rightarrow> u32 \<Rightarrow> u16 \<Rightarrow> nat \<Rightarrow> fetch list \<times> bool \<Rightarrow> fetch list \<times> bool" where
  "plan_peer rep cap k best inc p =
     (\<lambda>(out, unrec).
        if rp_front (rep ! p) ! k \<ge> best then (out, unrec)
        else if rp_front (rep ! p) ! k \<noteq> 0 \<and> rp_inc (rep ! p) ! k \<noteq> inc then (out, True)
        else case find_holder rep k best inc p of
               None \<Rightarrow> (out, True)
             | Some h \<Rightarrow>
                 if length out < cap
                 then (out @ [\<lparr> f_origin = of_nat k, f_to_peer = of_nat p, f_holder = of_nat h,
                                f_from = fetch_start rep k p h, f_to = best \<rparr>], unrec)
                 else (out, True))"

definition plan_origin :: "report list \<Rightarrow> nat \<Rightarrow> nat \<Rightarrow> fetch list \<times> bool \<Rightarrow> fetch list \<times> bool" where
  "plan_origin rep cap k st =
     (case best_front rep k of
        (best, None) \<Rightarrow> st
      | (best, Some bi) \<Rightarrow> fold (plan_peer rep cap k best (rp_inc (rep ! bi) ! k)) [0..<length rep] st)"

text \<open>The fetches, \<open>*unrecoverable\<close> and \<open>target[]\<close>.\<close>

definition plan :: "report list \<Rightarrow> nat \<Rightarrow> fetch list \<times> bool \<times> u32 list" where
  "plan rep cap =
     (let (out, unrec) = fold (plan_origin rep cap) [0..<ORIGINS] ([], False)
      in (out, unrec, map (\<lambda>k. fst (best_front rep k)) [0..<ORIGINS]))"

subsection \<open>What a plan guarantees\<close>

lemma best_front_max:
  "(case best_front rep k of (best, bi) \<Rightarrow>
      (\<forall>p < length rep. rp_front (rep ! p) ! k \<le> best) \<and>
      (case bi of None \<Rightarrow> best = 0 | Some b \<Rightarrow> b < length rep \<and> rp_front (rep ! b) ! k = best \<and> 0 < best))"
proof -
  have "case foldl (\<lambda>(best, bi) p. if rp_front (rep ! p) ! k > best then (rp_front (rep ! p) ! k, Some p) else (best, bi))
       (0 :: u32, None) [0..<n] of (best, bi) \<Rightarrow>
      (\<forall>p < n. rp_front (rep ! p) ! k \<le> best) \<and>
      (case bi of None \<Rightarrow> best = 0 | Some b \<Rightarrow> b < n \<and> rp_front (rep ! b) ! k = best \<and> 0 < best)" for n
  proof (induction n)
    case (Suc n)
    then show ?case
      by (auto simp: case_prod_beta less_Suc_eq word_neq_0_conv not_less split: option.splits intro: le_less_trans)
  qed simp
  then show ?thesis unfolding best_front_def .
qed

text \<open>
  A fetch that repairs survivor \<open>p\<close> for origin \<open>k\<close>: it ends at the highest frontier, starts right
  above what \<open>p\<close> holds (or at the oldest frame the holder retains, when \<open>p\<close> holds nothing), and its
  holder has that frontier, is of the same incarnation and still retains the start.
\<close>

definition repairs :: "report list \<Rightarrow> nat \<Rightarrow> nat \<Rightarrow> fetch \<Rightarrow> bool" where
  "repairs rep k p f \<longleftrightarrow>
     f_origin f = of_nat k \<and> f_to_peer f = of_nat p \<and> f_to f = fst (best_front rep k) \<and>
     (\<exists>h < length rep. f_holder f = of_nat h \<and> rp_front (rep ! h) ! k = f_to f \<and>
        f_from f = fetch_start rep k p h \<and> rp_oldest (rep ! h) ! k \<noteq> 0 \<and> rp_oldest (rep ! h) ! k \<le> f_from f \<and>
        (rp_front (rep ! p) ! k = 0 \<or> rp_inc (rep ! p) ! k = rp_inc (rep ! h) ! k))"

definition behind :: "report list \<Rightarrow> nat \<Rightarrow> nat \<Rightarrow> bool" where
  "behind rep k p \<longleftrightarrow> rp_front (rep ! p) ! k < fst (best_front rep k)"

lemma plan_peer_step:
  assumes "plan_peer rep cap k best inc p (out, unrec) = (out', unrec')" and "best = fst (best_front rep k)"
  shows "(\<exists>new. out' = out @ new \<and> (\<forall>f\<in>set new. behind rep k p \<and> repairs rep k p f) \<and>
      (unrec' \<or> \<not> behind rep k p \<or> new \<noteq> [])) \<and> (unrec \<longrightarrow> unrec') \<and> (length out \<le> cap \<longrightarrow> length out' \<le> cap)"
proof (cases "find_holder rep k best inc p")
  case None
  with assms show ?thesis
    by (auto simp: plan_peer_def behind_def not_less split: if_splits)
next
  case (Some h)
  then have h: "h < length rep" "rp_front (rep ! h) ! k = best" "rp_inc (rep ! h) ! k = inc"
    "rp_oldest (rep ! h) ! k \<noteq> 0" "rp_oldest (rep ! h) ! k \<le> fetch_start rep k p h"
    by (auto simp: find_holder_def find_Some_iff)
  let ?f = "\<lparr> f_origin = of_nat k, f_to_peer = of_nat p, f_holder = of_nat h,
      f_from = fetch_start rep k p h, f_to = best \<rparr>"
  consider (up) "rp_front (rep ! p) ! k \<ge> best" "out' = out" "unrec' = unrec"
    | (life) "rp_front (rep ! p) ! k \<noteq> 0" "rp_inc (rep ! p) ! k \<noteq> inc" "out' = out" "unrec'"
    | (add) "rp_front (rep ! p) ! k < best" "rp_front (rep ! p) ! k = 0 \<or> rp_inc (rep ! p) ! k = inc"
        "out' = out @ [?f]" "length out < cap" "unrec' = unrec"
    | (full) "out' = out" "unrec'"
    using assms(1) Some by (auto simp: plan_peer_def not_le split: if_splits)
  then show ?thesis
  proof cases
    case add
    then have "behind rep k p" by (simp add: behind_def assms(2))
    moreover have "repairs rep k p ?f"
      using h add assms(2) by (auto simp: repairs_def)
    ultimately show ?thesis using add by auto
  qed (use assms(2) in \<open>auto simp: behind_def not_less\<close>)
qed

text \<open>The loop over a list of survivors, and over the origins.\<close>

definition plan_inv :: "report list \<Rightarrow> nat \<Rightarrow> (nat \<times> nat) set \<Rightarrow> fetch list \<times> bool \<Rightarrow> bool" where
  "plan_inv rep cap seen st \<longleftrightarrow> length (fst st) \<le> cap \<and>
     (\<forall>f\<in>set (fst st). \<exists>x\<in>seen. behind rep (fst x) (snd x) \<and> repairs rep (fst x) (snd x) f) \<and>
     (snd st \<or> (\<forall>x\<in>seen. behind rep (fst x) (snd x) \<longrightarrow> (\<exists>f\<in>set (fst st). repairs rep (fst x) (snd x) f)))"

lemma plan_peer_inv:
  assumes inv: "plan_inv rep cap seen st" and best: "best = fst (best_front rep k)"
  shows "plan_inv rep cap (insert (k, p) seen) (plan_peer rep cap k best inc p st)"
proof -
  obtain out unrec where st: "st = (out, unrec)" by fastforce
  obtain out' unrec' where st': "plan_peer rep cap k best inc p (out, unrec) = (out', unrec')" by fastforce
  from plan_peer_step [OF st' best] obtain new where new: "out' = out @ new"
      "\<forall>f\<in>set new. behind rep k p \<and> repairs rep k p f" "unrec' \<or> \<not> behind rep k p \<or> new \<noteq> []"
      "unrec \<longrightarrow> unrec'" "length out \<le> cap \<longrightarrow> length out' \<le> cap" by blast
  have "length out' \<le> cap" using inv new(5) by (simp add: plan_inv_def st)
  moreover have "\<exists>x\<in>insert (k, p) seen. behind rep (fst x) (snd x) \<and> repairs rep (fst x) (snd x) f"
    if "f \<in> set out'" for f
    using that inv new(1,2) by (auto simp: plan_inv_def st)
  moreover have "unrec' \<or> (\<forall>x\<in>insert (k, p) seen. behind rep (fst x) (snd x) \<longrightarrow>
      (\<exists>f\<in>set out'. repairs rep (fst x) (snd x) f))"
  proof (cases unrec')
    case False
    then have "\<forall>x\<in>seen. behind rep (fst x) (snd x) \<longrightarrow> (\<exists>f\<in>set out. repairs rep (fst x) (snd x) f)"
      using inv new(4) by (auto simp: plan_inv_def st)
    moreover have "behind rep k p \<longrightarrow> (\<exists>f\<in>set new. repairs rep k p f)"
      using False new(2,3) by (cases new) auto
    ultimately show ?thesis using new(1) by auto
  qed simp
  ultimately show ?thesis by (simp add: plan_inv_def st st')
qed

lemma plan_peers_inv:
  assumes "plan_inv rep cap seen st" and "best = fst (best_front rep k)"
  shows "plan_inv rep cap (seen \<union> {k} \<times> set ps) (fold (plan_peer rep cap k best inc) ps st)"
  using assms(1)
proof (induction ps arbitrary: seen st)
  case (Cons p ps)
  have "insert (k, p) seen \<union> {k} \<times> set ps = seen \<union> {k} \<times> set (p # ps)" by auto
  with Cons.IH [OF plan_peer_inv [OF Cons.prems assms(2), of p inc]] show ?case by simp
qed simp

lemma plan_origin_inv:
  assumes "plan_inv rep cap seen st"
  shows "plan_inv rep cap (seen \<union> {k} \<times> {..<length rep}) (plan_origin rep cap k st)"
proof (cases "snd (best_front rep k)")
  case None
  then have "\<not> behind rep k p" for p
    using best_front_max [of rep k] by (simp add: behind_def case_prod_beta)
  then have "plan_inv rep cap (seen \<union> {k} \<times> {..<length rep}) st"
    using assms by (auto simp: plan_inv_def)
  with None show ?thesis by (simp add: plan_origin_def case_prod_beta)
next
  case (Some b)
  with plan_peers_inv [OF assms, of "fst (best_front rep k)" k "[0..<length rep]"] show ?thesis
    by (simp add: plan_origin_def case_prod_beta atLeast0LessThan)
qed

lemma plan_origins_inv:
  "plan_inv rep cap seen st \<Longrightarrow>
     plan_inv rep cap (seen \<union> set ks \<times> {..<length rep}) (fold (plan_origin rep cap) ks st)"
proof (induction ks arbitrary: seen st)
  case (Cons k ks)
  have "(seen \<union> {k} \<times> {..<length rep}) \<union> set ks \<times> {..<length rep} = seen \<union> set (k # ks) \<times> {..<length rep}"
    by auto
  with Cons.IH [OF plan_origin_inv [OF Cons.prems, of k]] show ?case by simp
qed simp

lemma plan_spec:
  assumes "plan rep cap = (fs, unrec, target)"
  shows "length fs \<le> cap"
    and "f \<in> set fs \<Longrightarrow> \<exists>k < ORIGINS. \<exists>p < length rep. behind rep k p \<and> repairs rep k p f"
    and "\<not> unrec \<Longrightarrow> k < ORIGINS \<Longrightarrow> p < length rep \<Longrightarrow> behind rep k p \<Longrightarrow> \<exists>f\<in>set fs. repairs rep k p f"
    and "k < ORIGINS \<Longrightarrow> target ! k = fst (best_front rep k)"
proof -
  have "plan_inv rep cap {} ([], False)" by (simp add: plan_inv_def)
  from plan_origins_inv [OF this, of "[0..<ORIGINS]"]
  have i0: "plan_inv rep cap ({..<ORIGINS} \<times> {..<length rep}) (fold (plan_origin rep cap) [0..<ORIGINS] ([], False))"
    by (simp add: atLeast0LessThan)
  obtain out u where st: "fold (plan_origin rep cap) [0..<ORIGINS] ([], False) = (out, u)" by fastforce
  from assms have inv: "plan_inv rep cap ({..<ORIGINS} \<times> {..<length rep}) (fs, unrec)"
    and t: "target = map (\<lambda>k. fst (best_front rep k)) [0..<ORIGINS]"
    using i0 by (simp_all add: plan_def st)
  show "length fs \<le> cap" using inv by (simp add: plan_inv_def)
  show "\<exists>k < ORIGINS. \<exists>p < length rep. behind rep k p \<and> repairs rep k p f" if "f \<in> set fs"
    using inv that unfolding plan_inv_def by force
  show "\<exists>f\<in>set fs. repairs rep k p f" if "\<not> unrec" "k < ORIGINS" "p < length rep" "behind rep k p"
    using inv that unfolding plan_inv_def by force
  show "k < ORIGINS \<Longrightarrow> target ! k = fst (best_front rep k)" by (simp add: t)
qed

subsection \<open>Properties\<close>

text \<open>C12. The reconcile plan is sound and complete: every fetch brings some survivor that lags behind
  an origin's highest frontier up to it, from a survivor that has that frontier, is of the same
  incarnation and still retains the first missing frame; and unless the plan says unrecoverable,
  every lagging survivor has such a fetch, none dropped for want of room.\<close>

theorem plan_sound_and_complete:
  assumes "plan rep cap = (fs, unrec, target)"
  shows "length fs \<le> cap \<and>
    (\<forall>f\<in>set fs. \<exists>k < ORIGINS. \<exists>p < length rep. behind rep k p \<and> repairs rep k p f) \<and>
    (unrec \<or> (\<forall>k < ORIGINS. \<forall>p < length rep. behind rep k p \<longrightarrow> (\<exists>f\<in>set fs. repairs rep k p f))) \<and>
    (\<forall>k < ORIGINS. \<forall>p < length rep. rp_front (rep ! p) ! k \<le> target ! k)"
  using plan_spec [OF assms] best_front_max [of rep] by (auto simp: case_prod_beta)

definition ex_reports :: "report list" where
  "ex_reports =
     [\<lparr> rp_front = 5 # replicate 7 0, rp_oldest = 2 # replicate 7 0, rp_inc = 1 # replicate 7 0 \<rparr>,
      \<lparr> rp_front = 3 # replicate 7 0, rp_oldest = 1 # replicate 7 0, rp_inc = 1 # replicate 7 0 \<rparr>]"

theorem plan_sound_and_complete_witness:
  "length [\<lparr> f_origin = 0, f_to_peer = 1, f_holder = 0, f_from = 4, f_to = 5 \<rparr>] \<le> (10 :: nat) \<and>
    (\<exists>k < ORIGINS. \<exists>p < length ex_reports. behind ex_reports k p \<and>
      repairs ex_reports k p \<lparr> f_origin = 0, f_to_peer = 1, f_holder = 0, f_from = 4, f_to = 5 \<rparr>)"
proof -
  have "plan ex_reports 10 = ([\<lparr> f_origin = 0, f_to_peer = 1, f_holder = 0, f_from = 4, f_to = 5 \<rparr>], False, 5 # replicate 7 0)"
    by code_simp
  from plan_sound_and_complete [OF this] show ?thesis by simp
qed

text \<open>The wire records of the layer: the prefix reader accepts exactly the payloads that start with
  a written prefix and reads its incarnation and sequence; a report of eight origins is 81 bytes and
  is read back; a served range with a payload of at most 2048 bytes is read back with its extent,
  whatever follows it in the batch.\<close>

theorem origin_wire_round_trip:
  assumes "report_wf r" and "origin < ORIGINS" "length data \<le> PAYLOAD_MAX" "lo \<noteq> 0" "lo \<le> hi" "13 + length data \<le> cap"
  shows "(prefix_decode (Some p) = Some (inc, sq) \<longleftrightarrow> (\<exists>payload. p = prefix_encode inc sq @ payload)) \<and>
    length (report_encode r) = REPORT_WIRE_BYTES \<and> report_decode (report_encode r) = Some r \<and>
    range_decode (range_encode cap origin inc lo hi data @ rest) = Some (13 + length data, origin, inc, lo, hi, data)"
  using prefix_decode_iff report_round_trip [OF assms(1)] range_round_trip [OF assms(2-)] by blast

theorem origin_wire_round_trip_witness:
  "(prefix_decode (Some [0xC3, 1, 0, 2, 0, 0, 0, 9]) = Some (1, 2) \<longleftrightarrow>
      (\<exists>payload. [0xC3, 1, 0, 2, 0, 0, 0, 9] = prefix_encode 1 2 @ payload)) \<and>
    length (report_encode (ex_reports ! 0)) = REPORT_WIRE_BYTES \<and>
    report_decode (report_encode (ex_reports ! 0)) = Some (ex_reports ! 0) \<and>
    range_decode (range_encode 100 3 1 7 9 [5, 6] @ [1]) = Some (13 + length [5 :: u8, 6], 3, 1, 7, 9, [5, 6])"
  by (rule origin_wire_round_trip)
    (simp_all add: report_wf_def ex_reports_def ORIGINS_def PAYLOAD_MAX_def)

end
