(* ===== verification/Origin_Layer.thy ===== *)
theory Origin_Layer
  imports Origin_Plan
begin

text \<open>
  The exactly-once layer (\<open>Layer\<close> in \<open>mh_dll/mh_net_udp/origin_seq.h\<close>): per origin a frontier, a
  bounded set of frames waiting above a hole, and the retention ring.  The sink the code calls for
  every deliverable frame is modelled by the list of deliveries of the call; a delivery also records
  the sequence range that the code hands to the ring with it, from the frontier to the end of the frame.  (That this
  range lies within the frame's own is not by construction: it is part of \<open>delivered_exactly_once_in_order\<close>.)
\<close>

definition AHEAD_SLOTS :: nat where "AHEAD_SLOTS = 16"
definition GAP_FORCE_MS :: u32 where "GAP_FORCE_MS = 5000"

record ahead_slot =
  ah_used :: bool
  ah_sup :: bool
  ah_lo :: u32
  ah_hi :: u32
  ah_data :: bytes

record origin =
  og_have :: bool
  og_inc :: u16
  og_next :: u32
  og_ahead_t :: u32
  og_ahead_n :: nat
  og_ring :: ring
  og_ahead :: "ahead_slot list"

record counters =
  c_delivered :: int
  c_dup :: int
  c_ahead :: int
  c_ahead_dropped :: int
  c_gap_skipped :: int
  c_resets :: int
  c_legacy_refused :: int
  c_early_evict :: int
  c_skip_origin :: int
  c_skip_from :: int
  c_skip_to :: int

record layer =
  ly_o :: "origin list"
  ly_my_inc :: u16
  ly_local :: int
  ly_gap_force :: u32
  ly_c :: counters

record delivery =
  dv_origin :: nat
  dv_lo :: u32
  dv_hi :: u32
  dv_data :: bytes

datatype rx_result = Delivered | Duplicate | Ahead | Dropped

definition counters0 :: counters where
  "counters0 = \<lparr> c_delivered = 0, c_dup = 0, c_ahead = 0, c_ahead_dropped = 0, c_gap_skipped = 0,
     c_resets = 0, c_legacy_refused = 0, c_early_evict = 0, c_skip_origin = 0, c_skip_from = 0, c_skip_to = 0 \<rparr>"

definition clear_ahead :: "ahead_slot list \<Rightarrow> ahead_slot list" where
  "clear_ahead as = map (\<lambda>a. a\<lparr> ah_used := False \<rparr>) as"

definition layer_reset :: "layer \<Rightarrow> u16 \<Rightarrow> layer" where
  "layer_reset l incarnation =
     l\<lparr> ly_o := map (\<lambda>g. g\<lparr> og_have := False, og_inc := 0, og_next := 0, og_ahead_n := 0, og_ahead_t := 0,
                              og_ring := (ring_clear (og_ring g))\<lparr> rg_early_evict := 0 \<rparr>,
                              og_ahead := clear_ahead (og_ahead g) \<rparr>) (ly_o l),
         ly_my_inc := incarnation, ly_local := -1, ly_gap_force := GAP_FORCE_MS, ly_c := counters0 \<rparr>"

definition set_local :: "layer \<Rightarrow> int \<Rightarrow> layer" where
  "set_local l i = l\<lparr> ly_local := (if 0 \<le> i \<and> i < int ORIGINS then i else -1) \<rparr>"

definition layer_counters :: "layer \<Rightarrow> counters" where
  "layer_counters l =
     foldl (\<lambda>r g. r\<lparr> c_early_evict := c_early_evict r + int (rg_early_evict (og_ring g)) \<rparr>) (ly_c l) (ly_o l)"

subsection \<open>Send side\<close>

text \<open>The sequence assigned (\<open>0\<close> for an unsequenced frame) and the layer.\<close>

definition layer_tx :: "layer \<Rightarrow> int \<Rightarrow> bytes \<Rightarrow> bool \<Rightarrow> u32 \<Rightarrow> u32 \<times> layer" where
  "layer_tx l k payload bare now =
     (if k < 0 \<or> k \<ge> int ORIGINS \<or> length payload > PAYLOAD_MAX then (0, l)
      else
        let g = ly_o l ! nat k;
            g = (if \<not> og_have g \<or> og_inc g \<noteq> ly_my_inc l
                 then g\<lparr> og_ring := ring_clear (og_ring g), og_have := True, og_inc := ly_my_inc l, og_next := 1 \<rparr>
                 else g);
            sq = og_next g;
            g = g\<lparr> og_next := og_next g + 1, og_ring := ring_add (og_ring g) sq sq now payload bare \<rparr>
        in (sq, l\<lparr> ly_o := (ly_o l)[nat k := g] \<rparr>))"

subsection \<open>Receive side\<close>

definition deliver_one ::
    "nat \<Rightarrow> origin \<Rightarrow> counters \<Rightarrow> u32 \<Rightarrow> bytes \<Rightarrow> bool \<Rightarrow> u32 \<Rightarrow> origin \<times> counters \<times> delivery" where
  "deliver_one k g c hi p bare now =
     (let lo = og_next g;
          g = g\<lparr> og_next := hi + 1, og_ring := ring_add (og_ring g) lo hi now p bare \<rparr>
      in (g, c\<lparr> c_delivered := c_delivered c + 1 \<rparr>,
          \<lparr> dv_origin = k, dv_lo = lo, dv_hi = hi, dv_data = p \<rparr>))"

type_synonym drain_state = "bool \<times> origin \<times> counters \<times> delivery list"

text \<open>The body of the inner loop of \<open>drain_ahead\<close>, for slot \<open>s\<close>.\<close>

definition drain_slot :: "nat \<Rightarrow> u32 \<Rightarrow> nat \<Rightarrow> drain_state \<Rightarrow> drain_state" where
  "drain_slot k now s =
     (\<lambda>(again, g, c, out).
        let a = og_ahead g ! s in
        if \<not> ah_used a then (again, g, c, out)
        else if ah_hi a < og_next g then
          (True, g\<lparr> og_ahead := (og_ahead g)[s := a\<lparr> ah_used := False \<rparr>], og_ahead_n := og_ahead_n g - 1 \<rparr>,
           c\<lparr> c_dup := c_dup c + 1 \<rparr>, out)
        else if ah_lo a \<le> og_next g then
          (let g = g\<lparr> og_ahead := (og_ahead g)[s := a\<lparr> ah_used := False \<rparr>], og_ahead_n := og_ahead_n g - 1 \<rparr>;
               (g, c, d) = deliver_one k g c (ah_hi a) (ah_data a) (ah_sup a) now
           in (True, g, c, out @ [d]))
        else (again, g, c, out))"

definition drain_pass :: "nat \<Rightarrow> u32 \<Rightarrow> origin \<times> counters \<times> delivery list \<Rightarrow> drain_state" where
  "drain_pass k now st = fold (drain_slot k now) [0..<AHEAD_SLOTS] (False, st)"

definition used_slots :: "origin \<Rightarrow> nat set" where
  "used_slots g = {s. s < length (og_ahead g) \<and> ah_used (og_ahead g ! s)}"

lemma finite_used_slots [simp]: "finite (used_slots g)"
  by (simp add: used_slots_def)

lemma deliver_one_ahead:
  "og_ahead (fst (deliver_one k g c hi p bare now)) = og_ahead g"
  "og_ahead_n (fst (deliver_one k g c hi p bare now)) = og_ahead_n g"
  by (simp_all add: deliver_one_def Let_def)

lemma used_slots_unuse:
  "used_slots (g\<lparr> og_ahead := (og_ahead g)[s := a\<lparr> ah_used := False \<rparr>], og_ahead_n := n \<rparr>) = used_slots g - {s}"
proof -
  have "ah_used ((og_ahead g)[s := a\<lparr> ah_used := False \<rparr>] ! x) \<longleftrightarrow> x \<noteq> s \<and> ah_used (og_ahead g ! x)"
    if "x < length (og_ahead g)" for x
    using that by (cases "x = s") auto
  then show ?thesis by (auto simp: used_slots_def)
qed

lemma drain_slot_used:
  assumes "drain_slot k now s (again, g, c, out) = (again', g', c', out')" and "s < length (og_ahead g)"
  shows "length (og_ahead g') = length (og_ahead g) \<and>
    (again' = again \<and> used_slots g' = used_slots g \<or> again' \<and> s \<in> used_slots g \<and> used_slots g' = used_slots g - {s})"
proof -
  have ahead: "used_slots (fst (deliver_one k h d hi p b t)) = used_slots h" for h d hi p b t
    by (simp add: used_slots_def deliver_one_ahead)
  show ?thesis
    using assms
    by (auto simp: drain_slot_def Let_def case_prod_beta used_slots_unuse ahead deliver_one_ahead split: if_splits)
      (auto simp: used_slots_def)
qed

lemma drain_slots_used:
  assumes "fold (drain_slot k now) ss (again, g, c, out) = (again', g', c', out')"
    and "\<forall>s\<in>set ss. s < length (og_ahead g)"
  shows "length (og_ahead g') = length (og_ahead g) \<and> used_slots g' \<subseteq> used_slots g \<and>
    (again' = again \<and> used_slots g' = used_slots g \<or> again' \<and> (again \<or> used_slots g' \<noteq> used_slots g))"
  using assms
proof (induction ss arbitrary: again g c out)
  case (Cons s ss)
  obtain a1 g1 c1 o1 where 1: "drain_slot k now s (again, g, c, out) = (a1, g1, c1, o1)"
    by (metis prod_cases4)
  with Cons.prems have 2: "fold (drain_slot k now) ss (a1, g1, c1, o1) = (again', g', c', out')" by simp
  from drain_slot_used [OF 1] Cons.prems have s: "length (og_ahead g1) = length (og_ahead g)"
    "a1 = again \<and> used_slots g1 = used_slots g \<or> a1 \<and> s \<in> used_slots g \<and> used_slots g1 = used_slots g - {s}"
    by auto
  from Cons.IH [OF 2] Cons.prems s(1) show ?case using s by auto
qed simp

lemma drain_pass_decr:
  assumes "length (og_ahead g) = AHEAD_SLOTS" and "(True, g', c', out') = drain_pass k now (g, c, out)"
  shows "card (used_slots g') < card (used_slots g)"
proof -
  from assms(2) have f: "fold (drain_slot k now) [0..<AHEAD_SLOTS] (False, g, c, out) = (True, g', c', out')"
    by (simp add: drain_pass_def)
  from drain_slots_used [OF f] assms(1) have "used_slots g' \<subset> used_slots g" by auto
  then show ?thesis by (simp add: psubset_card_mono)
qed

text \<open>
  \<open>for (again = ...; again;)\<close>: passes until one changes nothing.  The slots are an array of sixteen
  (\<open>origin_wf\<close> below); the first guard only makes the function total.
\<close>

function drain_loop :: "nat \<Rightarrow> u32 \<Rightarrow> origin \<Rightarrow> counters \<Rightarrow> delivery list \<Rightarrow> origin \<times> counters \<times> delivery list" where
  "drain_loop k now g c out =
     (if length (og_ahead g) \<noteq> AHEAD_SLOTS then (g, c, out)
      else case drain_pass k now (g, c, out) of
             (again, g', c', out') \<Rightarrow> if again then drain_loop k now g' c' out' else (g', c', out'))"
  by pat_completeness auto
termination
  by (relation "measure (\<lambda>(k, now, g, c, out). card (used_slots g))") (auto intro: drain_pass_decr)

declare drain_loop.simps [simp del]

definition drain_ahead :: "nat \<Rightarrow> u32 \<Rightarrow> origin \<Rightarrow> counters \<Rightarrow> origin \<times> counters \<times> delivery list" where
  "drain_ahead k now g c =
     (let (g, c, out) = (if og_ahead_n g > 0 then drain_loop k now g c [] else (g, c, []))
      in (if og_ahead_n g = 0 then g\<lparr> og_ahead_t := 0 \<rparr> else g, c, out))"

definition layer_rx ::
    "layer \<Rightarrow> int \<Rightarrow> u16 \<Rightarrow> u32 \<Rightarrow> u32 \<Rightarrow> bytes \<Rightarrow> bool \<Rightarrow> u32 \<Rightarrow> rx_result \<times> layer \<times> delivery list" where
  "layer_rx l k inc lo hi p bare now =
     (if k < 0 \<or> k \<ge> int ORIGINS \<or> length p > PAYLOAD_MAX \<or> lo = 0 \<or> hi < lo then (Dropped, l, [])
      else if k = ly_local l then (Duplicate, l\<lparr> ly_c := (ly_c l)\<lparr> c_dup := c_dup (ly_c l) + 1 \<rparr> \<rparr>, [])
      else
        let g = ly_o l ! nat k; c = ly_c l;
            (g, c) =
              (if \<not> og_have g \<or> og_inc g \<noteq> inc
               then (g\<lparr> og_ring := ring_clear (og_ring g), og_ahead_n := 0, og_ahead := clear_ahead (og_ahead g),
                        og_have := True, og_inc := inc, og_next := lo \<rparr>,
                     if og_have g then c\<lparr> c_resets := c_resets c + 1 \<rparr> else c)
               else (g, c));
            put = (\<lambda>g c. l\<lparr> ly_o := (ly_o l)[nat k := g], ly_c := c \<rparr>) in
        if hi < og_next g then (Duplicate, put g (c\<lparr> c_dup := c_dup c + 1 \<rparr>), [])
        else if lo \<le> og_next g then
          (let (g, c, d) = deliver_one (nat k) g c hi p bare now;
               (g, c, out) = drain_ahead (nat k) now g c
           in (Delivered, put g c, d # out))
        else if \<exists>a\<in>set (og_ahead g). ah_used a \<and> ah_lo a = lo \<and> ah_hi a = hi
          then (Duplicate, put g (c\<lparr> c_dup := c_dup c + 1 \<rparr>), [])
        else case find (\<lambda>s. \<not> ah_used (og_ahead g ! s)) [0..<AHEAD_SLOTS] of
            None \<Rightarrow> (Dropped, put g (c\<lparr> c_ahead_dropped := c_ahead_dropped c + 1 \<rparr>), [])
          | Some s \<Rightarrow>
              let a = \<lparr> ah_used = True, ah_sup = bare, ah_lo = lo, ah_hi = hi, ah_data = p \<rparr>;
                  g = g\<lparr> og_ahead := (og_ahead g)[s := a],
                         og_ahead_t := (if og_ahead_n g = 0 then (if now \<noteq> 0 then now else 1) else og_ahead_t g),
                         og_ahead_n := og_ahead_n g + 1 \<rparr>
              in (Ahead, put g (c\<lparr> c_ahead := c_ahead c + 1 \<rparr>), []))"

text \<open>The lowest sequence waiting, \<open>0xffffffff\<close> when none is.\<close>

definition lowest_ahead :: "origin \<Rightarrow> u32" where
  "lowest_ahead g =
     foldl (\<lambda>lowest a. if ah_used a \<and> ah_lo a < lowest then ah_lo a else lowest) 0xffffffff (og_ahead g)"

definition tick_origin :: "u32 \<Rightarrow> layer \<times> delivery list \<Rightarrow> nat \<Rightarrow> layer \<times> delivery list" where
  "tick_origin now =
     (\<lambda>(l, out) i.
        let g = ly_o l ! i; c = ly_c l in
        if og_ahead_n g = 0 then (l, out)
        else if sint (now - og_ahead_t g) < sint (ly_gap_force l) then (l, out)
        else
          let lowest = lowest_ahead g;
              (g, c) =
                (if lowest \<noteq> 0xffffffff \<and> lowest > og_next g
                 then (g\<lparr> og_next := lowest \<rparr>,
                       c\<lparr> c_gap_skipped := c_gap_skipped c + 1, c_skip_origin := int i,
                          c_skip_from := sint (og_next g), c_skip_to := sint lowest \<rparr>)
                 else (g, c));
              (g, c, new) = drain_ahead i now g c;
              g = (if og_ahead_n g \<noteq> 0 then g\<lparr> og_ahead_t := (if now \<noteq> 0 then now else 1) \<rparr> else g)
          in (l\<lparr> ly_o := (ly_o l)[i := g], ly_c := c \<rparr>, out @ new))"

definition layer_tick :: "layer \<Rightarrow> u32 \<Rightarrow> layer \<times> delivery list" where
  "layer_tick l now =
     (if ly_gap_force l = 0 then (l, []) else foldl (tick_origin now) (l, []) [0..<ORIGINS])"

subsection \<open>Reconcile\<close>

definition layer_report :: "layer \<Rightarrow> report" where
  "layer_report l =
     \<lparr> rp_front = map (\<lambda>g. if og_have g then og_next g - 1 else 0) (ly_o l),
       rp_oldest = map (\<lambda>g. if og_have g then oldest_lo (og_ring g) else 0) (ly_o l),
       rp_inc = map (\<lambda>g. if og_have g then og_inc g else 0) (ly_o l) \<rparr>"

text \<open>The loop of \<open>serve\<close> over the retained entries, in order.\<close>

fun serve_from :: "held list \<Rightarrow> u32 \<Rightarrow> u32 \<Rightarrow> held list" where
  "serve_from [] from_seq to_seq = []"
| "serve_from (e # es) from_seq to_seq =
     (if h_hi e < from_seq then serve_from es from_seq to_seq
      else if h_lo e > to_seq then []
      else e # serve_from es from_seq to_seq)"

text \<open>The result and the entries handed to \<open>fn\<close>, with the incarnation.\<close>

definition layer_serve :: "layer \<Rightarrow> int \<Rightarrow> u32 \<Rightarrow> u32 \<Rightarrow> int \<times> u16 \<times> held list" where
  "layer_serve l k from_seq to_seq =
     (if k < 0 \<or> k \<ge> int ORIGINS \<or> from_seq = 0 \<or> to_seq < from_seq then (0, 0, [])
      else
        let g = ly_o l ! nat k in
        if \<not> og_have g \<or> rg_count (og_ring g) = 0 then (0, 0, [])
        else if from_seq < oldest_lo (og_ring g) then (-1, 0, [])
        else let es = serve_from (ring_view (og_ring g)) from_seq to_seq
             in (int (length es), og_inc g, es))"

subsection \<open>The invariant of an origin\<close>

definition slot_ok :: "ahead_slot \<Rightarrow> bool" where
  "slot_ok a \<longleftrightarrow> 0 < ah_lo a \<and> ah_lo a \<le> ah_hi a \<and> length (ah_data a) \<le> PAYLOAD_MAX"

definition origin_ok :: "origin \<Rightarrow> bool" where
  "origin_ok g \<longleftrightarrow> length (og_ahead g) = AHEAD_SLOTS \<and> og_ahead_n g = card (used_slots g) \<and> ring_wf (og_ring g) \<and>
     (\<forall>s\<in>used_slots g. slot_ok (og_ahead g ! s))"

text \<open>No frame is held that could be delivered: all start above the frontier.\<close>

definition nothing_waits :: "origin \<Rightarrow> bool" where
  "nothing_waits g \<longleftrightarrow> (\<forall>s\<in>used_slots g. og_next g < ah_lo (og_ahead g ! s))"

definition layer_wf :: "layer \<Rightarrow> bool" where
  "layer_wf l \<longleftrightarrow> length (ly_o l) = ORIGINS \<and> (\<forall>g\<in>set (ly_o l). origin_ok g)"

lemma ring_add_wf: "ring_wf r \<Longrightarrow> length data \<le> PAYLOAD_MAX \<Longrightarrow> ring_wf (ring_add r lo hi now data bare)"
  using ring_add_push [of r data now lo bare hi] ring_add_coalesce [of r now lo data bare hi] by blast

lemma deliver_one_ok:
  assumes "origin_ok g" "length p \<le> PAYLOAD_MAX"
  shows "origin_ok (fst (deliver_one k g c hi p bare now))"
  using assms ring_add_wf [of "og_ring g" p]
  by (simp add: origin_ok_def deliver_one_def Let_def used_slots_def)

lemma unuse_ok:
  assumes "origin_ok g" "s \<in> used_slots g"
  shows "origin_ok (g\<lparr> og_ahead := (og_ahead g)[s := a\<lparr> ah_used := False \<rparr>], og_ahead_n := og_ahead_n g - 1 \<rparr>)"
  using assms unfolding origin_ok_def used_slots_unuse
  by (auto simp: used_slots_def nth_list_update)

subsection \<open>Deliveries in order\<close>

text \<open>
  The deliveries of an origin take its frontier from \<open>n\<close> to \<open>n'\<close> without a hole and without a repeat:
  each range starts at the frontier and moves it past its end.
\<close>

fun in_order :: "u32 \<Rightarrow> delivery list \<Rightarrow> u32 \<Rightarrow> bool" where
  "in_order n [] n' = (n = n')"
| "in_order n (d # ds) n' =
     (dv_lo d = n \<and> n \<le> dv_hi d \<and> dv_hi d \<noteq> - 1 \<and> in_order (dv_hi d + 1) ds n')"

lemma in_order_append: "in_order n (ds @ es) n' \<longleftrightarrow> (\<exists>m. in_order n ds m \<and> in_order m es n')"
  by (induction ds arbitrary: n) auto

text \<open>The retained entries of an origin are consecutive and end right below the frontier.\<close>

fun consecutive :: "held list \<Rightarrow> u32 \<Rightarrow> bool" where
  "consecutive [] n = True"
| "consecutive (v # vs) n =
     (h_lo v \<le> h_hi v \<and> h_hi v \<noteq> - 1 \<and> (case vs of [] \<Rightarrow> h_hi v + 1 = n | w # _ \<Rightarrow> h_hi v + 1 = h_lo w) \<and>
      consecutive vs n)"

lemma consecutive_drop: "consecutive vs n \<Longrightarrow> consecutive (drop k vs) n"
proof (induction vs arbitrary: k)
  case (Cons v vs)
  then show ?case by (cases k) auto
qed simp

lemma consecutive_snoc:
  "consecutive (vs @ [v]) n \<longleftrightarrow> consecutive vs (h_lo v) \<and> h_lo v \<le> h_hi v \<and> h_hi v \<noteq> - 1 \<and> h_hi v + 1 = n"
proof (induction vs)
  case (Cons a vs)
  then show ?case by (cases vs) auto
qed simp

definition no_wrap :: "origin \<Rightarrow> bool" where
  "no_wrap g \<longleftrightarrow> (\<forall>s\<in>used_slots g. ah_hi (og_ahead g ! s) \<noteq> - 1)"

definition retained_ok :: "origin \<Rightarrow> bool" where
  "retained_ok g \<longleftrightarrow> consecutive (ring_view (og_ring g)) (og_next g)"

lemma ring_add_consecutive:
  assumes wf: "ring_wf r" and len: "length data \<le> PAYLOAD_MAX"
    and c: "consecutive (ring_view r) n" and hi: "n \<le> hi" "hi \<noteq> - 1"
  shows "consecutive (ring_view (ring_add r n hi now data bare)) (hi + 1)"
proof (cases "coalesces (expire r now) n data bare")
  case False
  from ring_add_push [OF wf len False, of hi] obtain k where
    "ring_view (ring_add r n hi now data bare) = drop k (ring_view r) @
       [\<lparr> h_lo = n, h_hi = hi, h_t = now, h_data = data, h_bare = bare \<rparr>]" by blast
  with consecutive_drop [OF c, of k] hi show ?thesis by (simp add: consecutive_snoc)
next
  case True
  from ring_add_coalesce [OF wf True, of hi] obtain k where ne: "drop k (ring_view r) \<noteq> []"
    and v: "ring_view (ring_add r n hi now data bare) = butlast (drop k (ring_view r)) @
       [\<lparr> h_lo = h_lo (last (drop k (ring_view r))), h_hi = hi, h_t = now, h_data = data, h_bare = True \<rparr>]"
    and last: "h_hi (last (drop k (ring_view r))) + 1 = n" by blast
  let ?w = "last (drop k (ring_view r))"
  have "consecutive (butlast (drop k (ring_view r)) @ [?w]) n"
    using consecutive_drop [OF c, of k] append_butlast_last_id [OF ne] by simp
  then have w: "consecutive (butlast (drop k (ring_view r))) (h_lo ?w)" "h_lo ?w \<le> h_hi ?w" "h_hi ?w \<noteq> - 1"
    by (simp_all add: consecutive_snoc)
  have "h_hi ?w < h_hi ?w + 1" using w(3) by (rule less_plus_1_u32)
  then have "h_lo ?w \<le> hi" using w(2) last hi(1) by simp
  with w(1) hi(2) show ?thesis by (simp add: v consecutive_snoc)
qed

text \<open>The ranges held above a hole, with their payloads.\<close>

type_synonym span = "u32 \<times> u32 \<times> bytes"

definition waiting :: "origin \<Rightarrow> span set" where
  "waiting g = (\<lambda>s. (ah_lo (og_ahead g ! s), ah_hi (og_ahead g ! s), ah_data (og_ahead g ! s))) ` used_slots g"

text \<open>
  What a stretch of the code does to an origin: \<open>ds\<close> are its deliveries.  Each hands up the payload of a frame that had
  arrived (in \<open>A\<close>) or was held, whose own range starts at or below the place where it is delivered and ends with it.
\<close>

definition drained :: "nat \<Rightarrow> span set \<Rightarrow> origin \<Rightarrow> delivery list \<Rightarrow> origin \<Rightarrow> bool" where
  "drained k A g ds g' \<longleftrightarrow> origin_ok g' \<and> og_have g' = og_have g \<and> og_inc g' = og_inc g \<and>
     waiting g' \<subseteq> A \<union> waiting g \<and>
     (\<forall>d\<in>set ds. dv_origin d = k \<and> (\<exists>lo. (lo, dv_hi d, dv_data d) \<in> A \<union> waiting g \<and> lo \<le> dv_lo d)) \<and>
     (no_wrap g \<and> (\<forall>x\<in>A. fst (snd x) \<noteq> - 1) \<longrightarrow>
        no_wrap g' \<and> in_order (og_next g) ds (og_next g') \<and> (retained_ok g \<longrightarrow> retained_ok g'))"

lemma no_wrap_waiting: "no_wrap g \<longleftrightarrow> (\<forall>x\<in>waiting g. fst (snd x) \<noteq> - 1)"
  by (simp add: no_wrap_def waiting_def)

lemma drained_refl: "origin_ok g \<Longrightarrow> drained k A g [] g"
  by (simp add: drained_def)

lemma drained_trans:
  assumes "drained k A g ds g1" "drained k A g1 es g2"
  shows "drained k A g (ds @ es) g2"
proof -
  have w: "A \<union> waiting g1 \<subseteq> A \<union> waiting g" using assms(1) by (simp add: drained_def)
  then have "waiting g2 \<subseteq> A \<union> waiting g" using assms(2) by (auto simp: drained_def)
  moreover have "dv_origin d = k \<and> (\<exists>lo. (lo, dv_hi d, dv_data d) \<in> A \<union> waiting g \<and> lo \<le> dv_lo d)" if "d \<in> set (ds @ es)" for d
    using that assms w unfolding drained_def by fastforce
  ultimately show ?thesis using assms unfolding drained_def in_order_append by simp blast
qed

lemma drained_widen: "drained k A g ds g' \<Longrightarrow> A \<subseteq> B \<union> waiting g \<Longrightarrow> drained k B g ds g'"
  unfolding drained_def no_wrap_waiting [of g] by blast

lemma deliver_one_drained:
  assumes ok: "origin_ok g" and len: "length p \<le> PAYLOAD_MAX" and hi: "og_next g \<le> hi"
    and src: "(lo, hi, p) \<in> A" "lo \<le> og_next g"
    and d: "deliver_one k g c hi p bare now = (g', c', d)"
  shows "drained k A g [d] g'"
proof -
  have "origin_ok g'" using deliver_one_ok [OF ok len, of k c hi bare now] d by simp
  moreover have "no_wrap g' \<and> in_order (og_next g) [d] (og_next g') \<and> (retained_ok g \<longrightarrow> retained_ok g')"
    if "no_wrap g" "hi \<noteq> - 1"
    using d hi that ok len ring_add_consecutive [of "og_ring g" p "og_next g" hi now bare]
    by (auto simp: deliver_one_def Let_def no_wrap_def used_slots_def retained_ok_def origin_ok_def)
  moreover have "hi \<noteq> - 1" if "\<forall>x\<in>A. fst (snd x) \<noteq> - 1" using that src(1) by fastforce
  moreover have "waiting g' = waiting g" "og_have g' = og_have g" "og_inc g' = og_inc g" "dv_origin d = k" "dv_lo d = og_next g"
    "dv_hi d = hi" "dv_data d = p"
    using d by (auto simp: deliver_one_def Let_def waiting_def used_slots_def)
  ultimately show ?thesis using src unfolding drained_def by auto
qed

lemma waiting_unuse:
  "waiting (g\<lparr> og_ahead := (og_ahead g)[s := a\<lparr> ah_used := False \<rparr>], og_ahead_n := n \<rparr>) \<subseteq> waiting g"
  unfolding waiting_def used_slots_unuse by auto

lemma unuse_drained:
  assumes "origin_ok g" "s \<in> used_slots g"
  shows "drained k A g [] (g\<lparr> og_ahead := (og_ahead g)[s := a\<lparr> ah_used := False \<rparr>], og_ahead_n := og_ahead_n g - 1 \<rparr>)"
  using unuse_ok [OF assms] subsetD [OF waiting_unuse [where g = g and s = s and a = a and n = "og_ahead_n g - 1"]] unfolding drained_def no_wrap_waiting
  by (auto simp: retained_ok_def)

lemma drain_slot_drained:
  assumes ok: "origin_ok g" and s: "s < AHEAD_SLOTS"
    and step: "drain_slot k now s (again, g, c, out) = (again', g', c', out')"
  shows "(\<exists>ds. out' = out @ ds \<and> drained k A g ds g') \<and>
    (again' \<or> \<not> again \<and> g' = g \<and> (s \<in> used_slots g \<longrightarrow> og_next g < ah_lo (og_ahead g ! s)))"
proof -
  let ?a = "og_ahead g ! s"
  let ?g1 = "g\<lparr> og_ahead := (og_ahead g)[s := ?a\<lparr> ah_used := False \<rparr>], og_ahead_n := og_ahead_n g - 1 \<rparr>"
  have l: "s < length (og_ahead g)" using ok s by (simp add: origin_ok_def)
  consider (unused) "\<not> ah_used ?a"
    | (old) "ah_used ?a" "ah_hi ?a < og_next g"
    | (due) "ah_used ?a" "og_next g \<le> ah_hi ?a" "ah_lo ?a \<le> og_next g"
    | (wait) "ah_used ?a" "og_next g \<le> ah_hi ?a" "og_next g < ah_lo ?a"
    by force
  then show ?thesis
  proof cases
    case unused
    then have "again' = again" "g' = g" "out' = out" using step by (simp_all add: drain_slot_def)
    with unused ok show ?thesis by (auto simp: used_slots_def intro: drained_refl)
  next
    case old
    then have "again'" "g' = ?g1" "out' = out" using step by (simp_all add: drain_slot_def Let_def)
    moreover have "s \<in> used_slots g" using old l by (simp add: used_slots_def)
    ultimately show ?thesis using unuse_drained [OF ok, where k = k and A = A] by (intro conjI exI [of _ "[]"] disjI1) simp_all
  next
    case due
    then have u: "s \<in> used_slots g" using l by (simp add: used_slots_def)
    then have "slot_ok ?a" using ok by (simp add: origin_ok_def)
    then have len: "length (ah_data ?a) \<le> PAYLOAD_MAX" by (simp add: slot_ok_def)
    obtain g2 c2 d where del: "deliver_one k ?g1 c (ah_hi ?a) (ah_data ?a) (ah_sup ?a) now = (g2, c2, d)"
      by (metis prod_cases3)
    then have "again'" "g' = g2" "out' = out @ [d]"
      using step due(1,3) leD [OF due(2)] by (simp_all add: drain_slot_def Let_def)
    moreover have "drained k A g [d] g2"
    proof -
      define x where "x = (ah_lo ?a, ah_hi ?a, ah_data ?a)"
      have hi: "og_next ?g1 \<le> ah_hi ?a" and lo: "ah_lo ?a \<le> og_next ?g1" using due by simp_all
      have "drained k {x} ?g1 [d] g2"
        using deliver_one_drained [OF unuse_ok [OF ok u] len hi _ lo del, of "{x}"] by (simp only: x_def insert_iff simp_thms)
      moreover have "drained k {x} g [] ?g1" by (rule unuse_drained [OF ok u])
      ultimately have "drained k {x} g ([] @ [d]) g2" by (intro drained_trans)
      moreover have "{x} \<subseteq> A \<union> waiting g" using u unfolding waiting_def x_def by blast
      ultimately show ?thesis unfolding append_Nil by (rule drained_widen)
    qed
    ultimately show ?thesis by auto
  next
    case wait
    then have "again' = again" "g' = g" "out' = out"
      using step leD [OF wait(2)] wait(3) [unfolded not_le [symmetric]]
      by (simp_all add: drain_slot_def Let_def)
    with wait ok show ?thesis by (auto intro: drained_refl)
  qed
qed

lemma drain_slots_drained:
  assumes "fold (drain_slot k now) ss (again, g, c, out) = (again', g', c', out')"
    and "origin_ok g" "\<forall>s\<in>set ss. s < AHEAD_SLOTS"
  shows "(\<exists>ds. out' = out @ ds \<and> drained k A g ds g') \<and>
    (again' \<or> \<not> again \<and> g' = g \<and> (\<forall>s\<in>set ss. s \<in> used_slots g \<longrightarrow> og_next g < ah_lo (og_ahead g ! s)))"
  using assms
proof (induction ss arbitrary: again g c out)
  case Nil
  then show ?case by (auto intro: drained_refl)
next
  case (Cons s ss)
  obtain a1 g1 c1 o1 where 1: "drain_slot k now s (again, g, c, out) = (a1, g1, c1, o1)"
    by (metis prod_cases4)
  with Cons.prems have 2: "fold (drain_slot k now) ss (a1, g1, c1, o1) = (again', g', c', out')" by simp
  from Cons.prems have s: "s < AHEAD_SLOTS" by simp
  from drain_slot_drained [OF Cons.prems(2) s 1, where A = A] obtain ds where d1: "o1 = out @ ds" "drained k A g ds g1"
    and st1: "a1 \<or> \<not> again \<and> g1 = g \<and> (s \<in> used_slots g \<longrightarrow> og_next g < ah_lo (og_ahead g ! s))" by blast
  have "origin_ok g1" using d1(2) by (simp add: drained_def)
  with Cons.IH [OF 2] Cons.prems(3) obtain es where d2: "out' = o1 @ es" "drained k A g1 es g'"
    and st2: "again' \<or> \<not> a1 \<and> g' = g1 \<and> (\<forall>s\<in>set ss. s \<in> used_slots g1 \<longrightarrow> og_next g1 < ah_lo (og_ahead g1 ! s))"
    by auto
  show ?case using d1 d2 st1 st2 drained_trans [OF d1(2) d2(2)] by auto
qed

lemma drain_loop_drained:
  assumes "drain_loop k now g c out = (g', c', out')" "origin_ok g"
  shows "(\<exists>ds. out' = out @ ds \<and> drained k A g ds g') \<and> nothing_waits g'"
  using assms
proof (induction k now g c out rule: drain_loop.induct)
  case (1 k now g c out)
  obtain again g1 c1 o1 where p: "drain_pass k now (g, c, out) = (again, g1, c1, o1)" by (metis prod_cases4)
  then have f: "fold (drain_slot k now) [0..<AHEAD_SLOTS] (False, g, c, out) = (again, g1, c1, o1)"
    by (simp add: drain_pass_def)
  have len: "length (og_ahead g) = AHEAD_SLOTS" using "1.prems"(2) by (simp add: origin_ok_def)
  from drain_slots_drained [OF f "1.prems"(2), where A = A] obtain ds where ds: "o1 = out @ ds" "drained k A g ds g1"
    and st: "again \<or> g1 = g \<and> (\<forall>s < AHEAD_SLOTS. s \<in> used_slots g \<longrightarrow> og_next g < ah_lo (og_ahead g ! s))"
    by auto
  show ?case
  proof (cases again)
    case True
    then have step: "drain_loop k now g1 c1 o1 = (g', c', out')"
      using "1.prems"(1) len p by (subst (asm) drain_loop.simps) simp
    have "origin_ok g1" using ds(2) by (simp add: drained_def)
    then obtain es where "out' = o1 @ es" "drained k A g1 es g'" "nothing_waits g'"
      using "1.IH" [OF _ p [symmetric] refl refl True step] len by auto
    with ds drained_trans show ?thesis by (metis append_assoc)
  next
    case False
    then have "(g', c', out') = (g1, c1, o1)"
      using "1.prems"(1) len p by (subst (asm) drain_loop.simps) simp
    then have "g' = g1" "out' = o1" by simp_all
    moreover have "nothing_waits g1"
      using st False len by (auto simp: nothing_waits_def used_slots_def)
    ultimately show ?thesis using ds by auto
  qed
qed

lemma no_used: "origin_ok g \<Longrightarrow> og_ahead_n g = 0 \<Longrightarrow> used_slots g = {}"
  by (simp add: origin_ok_def)

lemma origin_frame [simp]:
  "origin_ok (g\<lparr> og_ahead_t := t \<rparr>) = origin_ok g" "nothing_waits (g\<lparr> og_ahead_t := t \<rparr>) = nothing_waits g"
  "no_wrap (g\<lparr> og_ahead_t := t \<rparr>) = no_wrap g" "retained_ok (g\<lparr> og_ahead_t := t \<rparr>) = retained_ok g"
  "waiting (g\<lparr> og_ahead_t := t \<rparr>) = waiting g"
  by (simp_all add: origin_ok_def nothing_waits_def no_wrap_def retained_ok_def used_slots_def waiting_def)

lemma drain_ahead_drained:
  assumes "drain_ahead k now g c = (g', c', ds)" "origin_ok g"
  shows "drained k A g ds g' \<and> nothing_waits g'"
proof (cases "og_ahead_n g > 0")
  case True
  obtain g1 c1 o1 where l: "drain_loop k now g c [] = (g1, c1, o1)" by (metis prod_cases3)
  from drain_loop_drained [OF l assms(2), where A = A] have "drained k A g o1 g1" "nothing_waits g1" by auto
  moreover have "ds = o1" "g' = g1 \<or> g' = g1\<lparr> og_ahead_t := 0 \<rparr>"
    using assms(1) True l by (auto simp: drain_ahead_def split: if_splits)
  ultimately show ?thesis by (auto simp: drained_def)
next
  case False
  then have "used_slots g = {}" using no_used [OF assms(2)] by simp
  then have "nothing_waits g" by (simp add: nothing_waits_def)
  moreover have "ds = []" "g' = g\<lparr> og_ahead_t := 0 \<rparr>"
    using assms(1) False by (auto simp: drain_ahead_def)
  ultimately show ?thesis using drained_refl [OF assms(2)] by (auto simp: drained_def)
qed

subsection \<open>The layer keeps its invariant\<close>

lemma drained_ok: "drained k A g ds g' \<Longrightarrow> origin_ok g'"
  by (simp add: drained_def)

lemma layer_wf_nth: "layer_wf l \<Longrightarrow> k < ORIGINS \<Longrightarrow> origin_ok (ly_o l ! k)"
  by (simp add: layer_wf_def)

lemma layer_wf_put:
  "layer_wf l \<Longrightarrow> origin_ok g \<Longrightarrow> layer_wf (l\<lparr> ly_o := (ly_o l)[k := g], ly_c := c \<rparr>)"
  "layer_wf l \<Longrightarrow> origin_ok g \<Longrightarrow> layer_wf (l\<lparr> ly_o := (ly_o l)[k := g] \<rparr>)"
  by (auto simp: layer_wf_def dest!: set_update_subset_insert [THEN subsetD])

lemma ring_clear_ok: "ring_wf r \<Longrightarrow> ring_wf (ring_clear r) \<and> ring_view (ring_clear r) = []"
  by (intro ring_clear_wf) (simp_all add: ring_wf_def)

lemma used_slots_clear: "used_slots (g\<lparr> og_ahead := clear_ahead (og_ahead g) \<rparr>) = {}"
  by (auto simp: used_slots_def clear_ahead_def)

text \<open>The origin after the incarnation test of \<open>rx\<close>.\<close>

definition rx_base :: "origin \<Rightarrow> u16 \<Rightarrow> u32 \<Rightarrow> origin" where
  "rx_base g inc lo =
     (if \<not> og_have g \<or> og_inc g \<noteq> inc
      then g\<lparr> og_ring := ring_clear (og_ring g), og_ahead_n := 0, og_ahead := clear_ahead (og_ahead g),
              og_have := True, og_inc := inc, og_next := lo \<rparr>
      else g)"

lemma rx_base_ok: "origin_ok g \<Longrightarrow> origin_ok (rx_base g inc lo)"
  using ring_clear_ok [of "og_ring g"]
  by (auto simp: rx_base_def origin_ok_def used_slots_def clear_ahead_def)

lemma rx_base_waits: "nothing_waits g \<Longrightarrow> nothing_waits (rx_base g inc lo)"
  by (auto simp: rx_base_def nothing_waits_def used_slots_def clear_ahead_def)

lemma rx_base_fresh:
  assumes "origin_ok g" "\<not> og_have g \<or> og_inc g \<noteq> inc"
  shows "og_next (rx_base g inc lo) = lo" "used_slots (rx_base g inc lo) = {}" "retained_ok (rx_base g inc lo)"
  using assms ring_clear_ok [of "og_ring g"]
  by (auto simp: rx_base_def used_slots_def clear_ahead_def retained_ok_def origin_ok_def)

text \<open>One arrival on one origin, after the tests that need no origin.\<close>

definition rx_origin ::
    "nat \<Rightarrow> origin \<Rightarrow> counters \<Rightarrow> u32 \<Rightarrow> u32 \<Rightarrow> bytes \<Rightarrow> bool \<Rightarrow> u32 \<Rightarrow> rx_result \<times> origin \<times> counters \<times> delivery list" where
  "rx_origin k g c lo hi p bare now =
     (if hi < og_next g then (Duplicate, g, c\<lparr> c_dup := c_dup c + 1 \<rparr>, [])
      else if lo \<le> og_next g then
        (let (g, c, d) = deliver_one k g c hi p bare now;
             (g, c, out) = drain_ahead k now g c
         in (Delivered, g, c, d # out))
      else if \<exists>a\<in>set (og_ahead g). ah_used a \<and> ah_lo a = lo \<and> ah_hi a = hi
        then (Duplicate, g, c\<lparr> c_dup := c_dup c + 1 \<rparr>, [])
      else case find (\<lambda>s. \<not> ah_used (og_ahead g ! s)) [0..<AHEAD_SLOTS] of
          None \<Rightarrow> (Dropped, g, c\<lparr> c_ahead_dropped := c_ahead_dropped c + 1 \<rparr>, [])
        | Some s \<Rightarrow>
            (Ahead, g\<lparr> og_ahead := (og_ahead g)[s := \<lparr> ah_used = True, ah_sup = bare, ah_lo = lo, ah_hi = hi, ah_data = p \<rparr>],
                       og_ahead_t := (if og_ahead_n g = 0 then (if now \<noteq> 0 then now else 1) else og_ahead_t g),
                       og_ahead_n := og_ahead_n g + 1 \<rparr>, c\<lparr> c_ahead := c_ahead c + 1 \<rparr>, []))"

definition rx_valid :: "layer \<Rightarrow> int \<Rightarrow> u32 \<Rightarrow> u32 \<Rightarrow> bytes \<Rightarrow> bool" where
  "rx_valid l k lo hi p \<longleftrightarrow> 0 \<le> k \<and> k < int ORIGINS \<and> length p \<le> PAYLOAD_MAX \<and> 0 < lo \<and> lo \<le> hi \<and> k \<noteq> ly_local l"

lemma layer_rx_eq:
  assumes "rx_valid l k lo hi p"
  shows "layer_rx l k inc lo hi p bare now =
    (case rx_origin (nat k) (rx_base (ly_o l ! nat k) inc lo)
        (if og_have (ly_o l ! nat k) \<and> og_inc (ly_o l ! nat k) \<noteq> inc
         then (ly_c l)\<lparr> c_resets := c_resets (ly_c l) + 1 \<rparr> else ly_c l) lo hi p bare now of
       (r, g, c, out) \<Rightarrow> (r, l\<lparr> ly_o := (ly_o l)[nat k := g], ly_c := c \<rparr>, out))"
proof -
  have g: "(k < 0 \<or> k \<ge> int ORIGINS \<or> length p > PAYLOAD_MAX \<or> lo = 0 \<or> hi < lo) = False" "(k = ly_local l) = False"
    using assms by (auto simp: rx_valid_def)
  show ?thesis
    unfolding layer_rx_def g if_False rx_origin_def rx_base_def
    by (cases "\<not> og_have (ly_o l ! nat k) \<or> og_inc (ly_o l ! nat k) \<noteq> inc")
      (auto simp: Let_def case_prod_beta split: option.split)
qed

lemma layer_rx_invalid:
  assumes "\<not> rx_valid l k lo hi p"
  shows "\<exists>r c. layer_rx l k inc lo hi p bare now = (r, l\<lparr> ly_c := c \<rparr>, []) \<and> (r = Dropped \<or> r = Duplicate)"
proof (cases "k < 0 \<or> k \<ge> int ORIGINS \<or> length p > PAYLOAD_MAX \<or> lo = 0 \<or> hi < lo")
  case True
  then have "layer_rx l k inc lo hi p bare now = (Dropped, l\<lparr> ly_c := ly_c l \<rparr>, [])"
    by (simp only: layer_rx_def if_True) simp
  then show ?thesis by blast
next
  case False
  have n: "0 < lo" using False by (simp add: word_neq_0_conv)
  have "k = ly_local l"
    using assms False n unfolding rx_valid_def by (meson not_le)
  with False show ?thesis by (simp only: layer_rx_def if_False if_True refl) blast
qed

text \<open>What one arrival does to its origin.\<close>

lemma hold_ok:
  assumes ok: "origin_ok g" and s: "s < AHEAD_SLOTS" "\<not> ah_used (og_ahead g ! s)" and a: "ah_used a" "slot_ok a" "og_next g < ah_lo a"
    and h: "h = g\<lparr> og_ahead := (og_ahead g)[s := a], og_ahead_t := t, og_ahead_n := og_ahead_n g + 1 \<rparr>"
  shows "origin_ok h" "used_slots h = insert s (used_slots g)" "nothing_waits g \<Longrightarrow> nothing_waits h"
    "waiting h \<subseteq> insert (ah_lo a, ah_hi a, ah_data a) (waiting g)"
proof -
  have l: "length (og_ahead g) = AHEAD_SLOTS" using ok by (simp add: origin_ok_def)
  show u: "used_slots h = insert s (used_slots g)"
    using l s a(1) by (auto simp: h used_slots_def nth_list_update)
  have n: "s \<notin> used_slots g" using s(2) by (simp add: used_slots_def)
  have at: "og_ahead h ! x = (if x = s then a else og_ahead g ! x)" for x
    using l s(1) by (simp add: h nth_list_update)
  show "origin_ok h"
    using ok l s n a unfolding origin_ok_def u at by (auto simp: h)
  show "nothing_waits h" if "nothing_waits g"
    using that a(3) unfolding nothing_waits_def u at by (auto simp: h)
  show "waiting h \<subseteq> insert (ah_lo a, ah_hi a, ah_data a) (waiting g)"
    unfolding waiting_def u at by auto
qed

lemma free_slot:
  "find (\<lambda>s. \<not> ah_used (og_ahead g ! s)) [0..<AHEAD_SLOTS] = Some s \<Longrightarrow> s < AHEAD_SLOTS \<and> \<not> ah_used (og_ahead g ! s)"
  by (auto simp: find_Some_iff)

lemma rx_origin_drained:
  assumes ok: "origin_ok g" and v: "length p \<le> PAYLOAD_MAX" "0 < lo" "lo \<le> hi"
    and rx: "rx_origin k g c lo hi p bare now = (r, g', c', ds)"
  shows "drained k {(lo, hi, p)} g ds g' \<and> (nothing_waits g \<longrightarrow> nothing_waits g')"
proof -
  consider (dup) "hi < og_next g" | (now) "og_next g \<le> hi" "lo \<le> og_next g" | (ahead) "og_next g \<le> hi" "og_next g < lo"
    by force
  then show ?thesis
  proof cases
    case dup
    then have "g' = g" "ds = []" using rx by (simp_all add: rx_origin_def)
    with ok show ?thesis by (simp add: drained_refl)
  next
    case now
    obtain g1 c1 d where 1: "deliver_one k g c hi p bare now = (g1, c1, d)" by (metis prod_cases3)
    obtain g2 c2 es where 2: "drain_ahead k now g1 c1 = (g2, c2, es)" by (metis prod_cases3)
    have e: "g' = g2" "ds = [d] @ es" using rx leD [OF now(1)] now(2) 1 2 by (simp_all add: rx_origin_def)
    have "drained k {(lo, hi, p)} g [d] g1"
      using deliver_one_drained [OF ok v(1) now(1) _ now(2) 1, of "{(lo, hi, p)}"] by simp
    moreover from drain_ahead_drained [OF 2 drained_ok [OF this]]
    have "drained k {(lo, hi, p)} g1 es g2" "nothing_waits g2" by simp_all
    ultimately show ?thesis using e drained_trans by blast
  next
    case ahead
    note n = leD [OF ahead(1)] leD [OF order_less_imp_le [OF ahead(2)]]
    have nle: "\<not> lo \<le> og_next g" using ahead(2) by simp
    let ?a = "\<lparr> ah_used = True, ah_sup = bare, ah_lo = lo, ah_hi = hi, ah_data = p \<rparr>"
    show ?thesis
    proof (cases "\<exists>a\<in>set (og_ahead g). ah_used a \<and> ah_lo a = lo \<and> ah_hi a = hi")
      case True
      then have "g' = g" "ds = []" using rx n(1) nle unfolding rx_origin_def by simp_all
      with ok show ?thesis by (simp add: drained_refl)
    next
      case False
      show ?thesis
      proof (cases "find (\<lambda>s. \<not> ah_used (og_ahead g ! s)) [0..<AHEAD_SLOTS]")
        case None
        then have "g' = g" "ds = []" using rx n(1) nle False unfolding rx_origin_def by simp_all
        with ok show ?thesis by (simp add: drained_refl)
      next
        case (Some s)
        define t where "t = (if og_ahead_n g = 0 then (if now \<noteq> 0 then now else 1) else og_ahead_t g)"
        have e: "g' = g\<lparr> og_ahead := (og_ahead g)[s := ?a], og_ahead_t := t, og_ahead_n := og_ahead_n g + 1 \<rparr>" "ds = []"
          using rx n(1) nle False Some unfolding rx_origin_def t_def by simp_all
        have s: "s < AHEAD_SLOTS" "\<not> ah_used (og_ahead g ! s)" using free_slot [OF Some] by simp_all
        have "slot_ok ?a" using v by (simp add: slot_ok_def)
        note h = hold_ok [OF ok s _ this _ e(1), simplified, OF ahead(2)]
        have frame: "og_have g' = og_have g" "og_inc g' = og_inc g" "og_next g' = og_next g" "og_ring g' = og_ring g"
          using e(1) by simp_all
        have "no_wrap g'" if "hi \<noteq> - 1" "no_wrap g"
          using that h(4) unfolding no_wrap_waiting by auto
        then have "drained k {(lo, hi, p)} g [] g'"
          using h(1,4) frame unfolding drained_def by (auto simp: retained_ok_def)
        with e(2) h(3) show ?thesis by simp
      qed
    qed
  qed
qed

text \<open>Only the skip of a hole moves the counter of skipped holes.\<close>

lemma deliver_one_skips: "c_gap_skipped (fst (snd (deliver_one k g c hi p bare now))) = c_gap_skipped c"
  by (simp add: deliver_one_def Let_def)

lemma drain_slot_skips:
  "drain_slot k now s (again, g, c, out) = (again', g', c', out') \<Longrightarrow> c_gap_skipped c' = c_gap_skipped c"
  by (auto simp: drain_slot_def deliver_one_def Let_def split: if_splits)

lemma drain_slots_skips:
  "fold (drain_slot k now) ss (again, g, c, out) = (again', g', c', out') \<Longrightarrow> c_gap_skipped c' = c_gap_skipped c"
proof (induction ss arbitrary: again g c out)
  case (Cons s ss)
  obtain a1 g1 c1 o1 where 1: "drain_slot k now s (again, g, c, out) = (a1, g1, c1, o1)" by (metis prod_cases4)
  with Cons show ?case using drain_slot_skips [OF 1] by auto
qed simp

lemma drain_loop_skips: "drain_loop k now g c out = (g', c', out') \<Longrightarrow> c_gap_skipped c' = c_gap_skipped c"
proof (induction k now g c out rule: drain_loop.induct)
  case (1 k now g c out)
  show ?case
  proof (cases "length (og_ahead g) = AHEAD_SLOTS")
    case False
    with "1.prems" show ?thesis by (subst (asm) drain_loop.simps) simp
  next
    case True
    obtain again g1 c1 o1 where p: "drain_pass k now (g, c, out) = (again, g1, c1, o1)" by (metis prod_cases4)
    have c1: "c_gap_skipped c1 = c_gap_skipped c" by (rule drain_slots_skips [OF p [unfolded drain_pass_def]])
    show ?thesis
    proof (cases again)
      case True
      then have "drain_loop k now g1 c1 o1 = (g', c', out')"
        using "1.prems" \<open>length (og_ahead g) = AHEAD_SLOTS\<close> p by (subst (asm) drain_loop.simps) simp
      with "1.IH" [OF _ p [symmetric] refl refl True] \<open>length (og_ahead g) = AHEAD_SLOTS\<close> c1 show ?thesis by simp
    next
      case False
      then show ?thesis using "1.prems" \<open>length (og_ahead g) = AHEAD_SLOTS\<close> p c1 by (subst (asm) drain_loop.simps) simp
    qed
  qed
qed

lemma drain_ahead_skips: "drain_ahead k now g c = (g', c', ds) \<Longrightarrow> c_gap_skipped c' = c_gap_skipped c"
  by (auto simp: drain_ahead_def drain_loop_skips split: prod.splits if_splits)

lemma rx_origin_skips: "rx_origin k g c lo hi p bare now = (r, g', c', ds) \<Longrightarrow> c_gap_skipped c' = c_gap_skipped c"
  using drain_ahead_skips deliver_one_skips [of k g c hi p bare now]
  by (auto simp: rx_origin_def Let_def split: prod.splits if_splits option.splits)

subsection \<open>The life of a layer\<close>

text \<open>
  What the endpoint does with its layer from one \<open>start\<close> to the next (\<open>udp_endpoint.cpp\<close>), with the deliveries each entry
  makes: it sends as its own origin only (\<open>m_osq.tx(m_my_id, ...)\<close>), which is the guard of the first rule; a WELCOME
  gives it an identity, at any time and any number of times; a reconcile, and the test hook, set the gap timeout; a peer
  without the layer is counted.
\<close>

datatype layer_event =
    Tx int bytes bool u32
  | Rx int u16 u32 u32 bytes bool u32
  | Tick u32
  | Local int
  | GapForce u32
  | Legacy

definition osq_gap_force :: "layer \<Rightarrow> u32 \<Rightarrow> layer" where
  "osq_gap_force l ms = l\<lparr> ly_gap_force := ms \<rparr>"

definition legacy_refused :: "layer \<Rightarrow> layer" where
  "legacy_refused l = l\<lparr> ly_c := (ly_c l)\<lparr> c_legacy_refused := c_legacy_refused (ly_c l) + 1 \<rparr> \<rparr>"

inductive layer_step :: "layer \<Rightarrow> layer_event \<Rightarrow> delivery list \<Rightarrow> layer \<Rightarrow> bool" where
  step_tx: "k = ly_local l \<Longrightarrow> layer_tx l k p bare now = (sq, l') \<Longrightarrow> layer_step l (Tx k p bare now) [] l'"
| step_rx: "layer_rx l k inc lo hi p bare now = (r, l', ds) \<Longrightarrow> layer_step l (Rx k inc lo hi p bare now) ds l'"
| step_tick: "layer_tick l now = (l', ds) \<Longrightarrow> layer_step l (Tick now) ds l'"
| step_local: "layer_step l (Local k) [] (set_local l k)"
| step_gap: "layer_step l (GapForce ms) [] (osq_gap_force l ms)"
| step_legacy: "layer_step l Legacy [] (legacy_refused l)"

inductive layer_run :: "layer \<Rightarrow> layer_event list \<Rightarrow> delivery list \<Rightarrow> layer \<Rightarrow> bool" where
  run_nil: "layer_run l [] [] l"
| run_cons: "layer_step l e ds l1 \<Longrightarrow> layer_run l1 es fs l' \<Longrightarrow> layer_run l (e # es) (ds @ fs) l'"

definition layer_inv :: "layer \<Rightarrow> bool" where
  "layer_inv l \<longleftrightarrow> layer_wf l \<and> - 1 \<le> ly_local l \<and> ly_local l < int ORIGINS"

lemma layer_wf_len: "layer_wf l \<Longrightarrow> length (ly_o l) = ORIGINS"
  by (simp add: layer_wf_def)

text \<open>The origin after the incarnation test of \<open>tx\<close>, and after the frame is retained.\<close>

definition tx_base :: "origin \<Rightarrow> u16 \<Rightarrow> origin" where
  "tx_base g inc =
     (if \<not> og_have g \<or> og_inc g \<noteq> inc
      then g\<lparr> og_ring := ring_clear (og_ring g), og_have := True, og_inc := inc, og_next := 1 \<rparr> else g)"

definition tx_origin :: "origin \<Rightarrow> bytes \<Rightarrow> bool \<Rightarrow> u32 \<Rightarrow> origin" where
  "tx_origin g p bare now =
     g\<lparr> og_next := og_next g + 1, og_ring := ring_add (og_ring g) (og_next g) (og_next g) now p bare \<rparr>"

lemma layer_tx_eq:
  assumes "0 \<le> k" "k < int ORIGINS" "length p \<le> PAYLOAD_MAX"
  shows "layer_tx l k p bare now =
    (let g = tx_base (ly_o l ! nat k) (ly_my_inc l)
     in (og_next g, l\<lparr> ly_o := (ly_o l)[nat k := tx_origin g p bare now] \<rparr>))"
proof -
  have e: "(k < 0 \<or> k \<ge> int ORIGINS \<or> length p > PAYLOAD_MAX) = False" using assms by simp
  show ?thesis unfolding layer_tx_def e if_False tx_base_def [symmetric] tx_origin_def Let_def by (rule refl)
qed

lemma tx_origin_ok:
  assumes ok: "origin_ok g" and len: "length p \<le> PAYLOAD_MAX"
  shows "origin_ok (tx_origin (tx_base g inc) p bare now)"
proof -
  have "ring_wf (og_ring (tx_base g inc))"
    using ok ring_clear_ok [of "og_ring g"] by (simp add: tx_base_def origin_ok_def)
  then have "ring_wf (og_ring (tx_origin (tx_base g inc) p bare now))" using len by (simp add: tx_origin_def ring_add_wf)
  then show ?thesis using ok by (simp add: tx_origin_def tx_base_def origin_ok_def used_slots_def)
qed

lemma tx_step:
  assumes inv: "layer_inv l" and tx: "layer_tx l k p bare now = (sq, l')"
  shows "layer_inv l' \<and> ly_c l' = ly_c l \<and> (\<forall>j. int j \<noteq> k \<longrightarrow> ly_o l' ! j = ly_o l ! j)"
proof (cases "k < 0 \<or> k \<ge> int ORIGINS \<or> length p > PAYLOAD_MAX")
  case True
  then have "l' = l" using tx unfolding layer_tx_def by simp
  with inv show ?thesis by simp
next
  case False
  let ?h = "tx_origin (tx_base (ly_o l ! nat k) (ly_my_inc l)) p bare now"
  have kk: "0 \<le> k" "k < int ORIGINS" "nat k < ORIGINS" and len: "length p \<le> PAYLOAD_MAX"
    using False by (simp_all add: nat_less_iff not_less)
  have e: "l' = l\<lparr> ly_o := (ly_o l)[nat k := ?h] \<rparr>"
    using tx unfolding layer_tx_eq [OF kk(1,2) len] Let_def by simp
  have wf: "layer_wf l" using inv by (simp add: layer_inv_def)
  have "layer_wf l'" using layer_wf_put(2) [OF wf tx_origin_ok [OF layer_wf_nth [OF wf kk(3)] len]] e by simp
  moreover have "ly_o l' ! j = ly_o l ! j" if "int j \<noteq> k" for j using e that kk(1) by auto
  ultimately show ?thesis using inv e by (simp add: layer_inv_def)
qed

lemma rx_step:
  assumes inv: "layer_inv l" and rx: "layer_rx l k inc lo hi p bare now = (r, l', ds)"
  shows "layer_inv l' \<and> c_gap_skipped (ly_c l') = c_gap_skipped (ly_c l) \<and>
    (\<forall>j. int j \<noteq> k \<longrightarrow> ly_o l' ! j = ly_o l ! j) \<and>
    (if rx_valid l k lo hi p
     then drained (nat k) {(lo, hi, p)} (rx_base (ly_o l ! nat k) inc lo) ds (ly_o l' ! nat k) \<and>
       (nothing_waits (rx_base (ly_o l ! nat k) inc lo) \<longrightarrow> nothing_waits (ly_o l' ! nat k))
     else ly_o l' = ly_o l \<and> ds = [])"
proof (cases "rx_valid l k lo hi p")
  case False
  then have "ly_o l' = ly_o l \<and> ds = [] \<and> ly_local l' = ly_local l \<and> c_gap_skipped (ly_c l') = c_gap_skipped (ly_c l)"
    using rx unfolding layer_rx_def rx_valid_def by (auto simp: word_neq_0_conv split: if_splits)
  with inv False show ?thesis by (simp add: layer_inv_def layer_wf_def)
next
  case True
  let ?g = "rx_base (ly_o l ! nat k) inc lo"
  have kk: "0 \<le> k" "nat k < ORIGINS" and v: "length p \<le> PAYLOAD_MAX" "0 < lo" "lo \<le> hi"
    using True by (auto simp: rx_valid_def)
  define d where "d = (if og_have (ly_o l ! nat k) \<and> og_inc (ly_o l ! nat k) \<noteq> inc
         then (ly_c l)\<lparr> c_resets := c_resets (ly_c l) + 1 \<rparr> else ly_c l)"
  obtain g c where e: "l' = l\<lparr> ly_o := (ly_o l)[nat k := g], ly_c := c \<rparr>" "rx_origin (nat k) ?g d lo hi p bare now = (r, g, c, ds)"
    using rx unfolding layer_rx_eq [OF True] d_def [symmetric] by (auto split: prod.splits)
  have wf: "layer_wf l" using inv by (simp add: layer_inv_def)
  note g = rx_origin_drained [OF rx_base_ok [OF layer_wf_nth [OF wf kk(2)]] v e(2)]
  have "layer_wf l'" using layer_wf_put(1) [OF wf drained_ok] g e(1) by blast
  moreover have "ly_o l' ! j = ly_o l ! j" if "int j \<noteq> k" for j using e(1) that kk(1) by auto
  moreover have "ly_o l' ! nat k = g" using e(1) layer_wf_len [OF wf] kk by simp
  moreover have "c_gap_skipped c = c_gap_skipped (ly_c l)" using rx_origin_skips [OF e(2)] by (simp add: d_def)
  ultimately show ?thesis using inv True g e(1) unfolding layer_inv_def by auto
qed

lemma origin_ok_next: "origin_ok (g\<lparr> og_next := n \<rparr>) = origin_ok g"
  by (simp add: origin_ok_def used_slots_def)

text \<open>What a tick does to each origin, unless it skips a hole.\<close>

definition ticked :: "layer \<Rightarrow> delivery list \<Rightarrow> layer \<Rightarrow> bool" where
  "ticked l ds l' \<longleftrightarrow> layer_inv l' \<and> c_gap_skipped (ly_c l) \<le> c_gap_skipped (ly_c l') \<and>
     (\<forall>k<ORIGINS. (nothing_waits (ly_o l ! k) \<longrightarrow> nothing_waits (ly_o l' ! k)) \<and>
        (c_gap_skipped (ly_c l') = c_gap_skipped (ly_c l) \<longrightarrow>
           drained k {} (ly_o l ! k) (filter (\<lambda>d. dv_origin d = k) ds) (ly_o l' ! k)))"

lemma ticked_refl: "layer_inv l \<Longrightarrow> ticked l [] l"
  using layer_wf_nth drained_refl unfolding ticked_def by (simp add: layer_inv_def)

lemma ticked_trans:
  assumes "ticked l ds l1" "ticked l1 es l2"
  shows "ticked l (ds @ es) l2"
proof -
  have "drained k {} (ly_o l ! k) (filter (\<lambda>d. dv_origin d = k) (ds @ es)) (ly_o l2 ! k)"
    if "k < ORIGINS" "c_gap_skipped (ly_c l2) = c_gap_skipped (ly_c l)" for k
  proof -
    have "c_gap_skipped (ly_c l1) = c_gap_skipped (ly_c l)" "c_gap_skipped (ly_c l2) = c_gap_skipped (ly_c l1)"
      using assms that(2) by (simp_all add: ticked_def)
    then show ?thesis using assms that(1) unfolding filter_append ticked_def by (blast intro: drained_trans)
  qed
  then show ?thesis using assms unfolding ticked_def by auto
qed

lemma drained_elsewhere: "drained j A g ds g' \<Longrightarrow> j \<noteq> k \<Longrightarrow> filter (\<lambda>d. dv_origin d = k) ds = []"
  by (auto simp: drained_def filter_empty_conv)

lemma drained_here: "drained k A g ds g' \<Longrightarrow> filter (\<lambda>d. dv_origin d = k) ds = ds"
  by (auto simp: drained_def filter_id_conv)

lemma drained_timer: "drained k A g ds g' \<Longrightarrow> drained k A g ds (g'\<lparr> og_ahead_t := t \<rparr>)"
  by (simp add: drained_def)

lemma tick_origin_ticked:
  assumes inv: "layer_inv l" and i: "i < ORIGINS" and t: "tick_origin now (l, out) i = (l', out')"
  shows "\<exists>ds. out' = out @ ds \<and> ticked l ds l'"
proof (cases "og_ahead_n (ly_o l ! i) = 0 \<or> sint (now - og_ahead_t (ly_o l ! i)) < sint (ly_gap_force l)")
  case True
  then have "l' = l" "out' = out"
    using t unfolding tick_origin_def by (cases "og_ahead_n (ly_o l ! i) = 0"; simp add: Let_def)+
  with ticked_refl [OF inv] show ?thesis by simp
next
  case False
  let ?g = "ly_o l ! i" and ?m = "lowest_ahead (ly_o l ! i)"
  have wf: "layer_wf l" and ok: "origin_ok ?g"
    using inv layer_wf_nth [of l i] i by (simp_all add: layer_inv_def)
  define g1 where "g1 = (if ?m \<noteq> 0xffffffff \<and> ?m > og_next ?g then ?g\<lparr> og_next := ?m \<rparr> else ?g)"
  have ok1: "origin_ok g1" using ok by (simp add: g1_def origin_ok_next)
  define c1 where "c1 = (if ?m \<noteq> 0xffffffff \<and> ?m > og_next ?g
     then (ly_c l)\<lparr> c_gap_skipped := c_gap_skipped (ly_c l) + 1, c_skip_origin := int i,
                    c_skip_from := sint (og_next ?g), c_skip_to := sint ?m \<rparr> else ly_c l)"
  obtain g2 c2 ds where d: "drain_ahead i now g1 c1 = (g2, c2, ds)" by (metis prod_cases3)
  define h where "h = (if og_ahead_n g2 \<noteq> 0 then g2\<lparr> og_ahead_t := (if now \<noteq> 0 then now else 1) \<rparr> else g2)"
  have p: "(if ?m \<noteq> 0xffffffff \<and> ?m > og_next ?g
       then (?g\<lparr> og_next := ?m \<rparr>, (ly_c l)\<lparr> c_gap_skipped := c_gap_skipped (ly_c l) + 1, c_skip_origin := int i,
              c_skip_from := sint (og_next ?g), c_skip_to := sint ?m \<rparr>)
       else (?g, ly_c l)) = (g1, c1)"
    by (simp add: g1_def c1_def)
  have n: "(og_ahead_n ?g = 0) = False" "(sint (now - og_ahead_t ?g) < sint (ly_gap_force l)) = False"
    using False by simp_all
  have l': "l' = l\<lparr> ly_o := (ly_o l)[i := h], ly_c := c2 \<rparr>" and out': "out' = out @ ds"
    using t unfolding tick_origin_def Let_def prod.case n if_False p d h_def by simp_all
  from drain_ahead_drained [OF d ok1] have dr: "drained i {} g1 ds h" "nothing_waits h"
    by (simp_all add: h_def drained_timer)
  have skips: "c_gap_skipped c2 = c_gap_skipped c1" by (rule drain_ahead_skips [OF d])
  have "c1 = ly_c l \<and> g1 = ?g \<or> c_gap_skipped c1 = c_gap_skipped (ly_c l) + 1" by (simp add: c1_def g1_def)
  then have skip: "c_gap_skipped (ly_c l') = c_gap_skipped (ly_c l) \<Longrightarrow> drained i {} ?g ds h"
    and mono: "c_gap_skipped (ly_c l) \<le> c_gap_skipped (ly_c l')"
    using dr(1) skips l' by auto
  have here: "ly_o l' ! i = h" and other: "k \<noteq> i \<Longrightarrow> ly_o l' ! k = ly_o l ! k" for k
    using l' layer_wf_len [OF wf] i by simp_all
  have "drained k {} (ly_o l ! k) (filter (\<lambda>d. dv_origin d = k) ds) (ly_o l' ! k)"
    if "k < ORIGINS" "c_gap_skipped (ly_c l') = c_gap_skipped (ly_c l)" for k
  proof (cases "k = i")
    case True
    then show ?thesis using skip [OF that(2)] drained_here here by simp
  next
    case other_k: False
    have "filter (\<lambda>d. dv_origin d = k) ds = []" using drained_elsewhere [OF dr(1)] other_k by simp
    then show ?thesis using other [OF other_k] drained_refl [OF layer_wf_nth [OF wf that(1)]] by simp
  qed
  moreover have "layer_inv l'" using layer_wf_put(1) [OF wf drained_ok [OF dr(1)]] l' inv by (simp add: layer_inv_def)
  moreover have "nothing_waits (ly_o l' ! k)" if "nothing_waits (ly_o l ! k)" for k
    using that here other dr(2) by (cases "k = i") simp_all
  ultimately show ?thesis using out' mono unfolding ticked_def by blast
qed

lemma tick_fold_ticked:
  assumes "foldl (tick_origin now) (l, out) is = (l', out')" "layer_inv l" "\<forall>i\<in>set is. i < ORIGINS"
  shows "\<exists>ds. out' = out @ ds \<and> ticked l ds l'"
  using assms
proof (induction "is" arbitrary: l out)
  case Nil
  then show ?case using ticked_refl by simp
next
  case (Cons i "is")
  obtain l1 o1 where 1: "tick_origin now (l, out) i = (l1, o1)" by (metis surj_pair)
  from tick_origin_ticked [OF Cons.prems(2) _ 1] Cons.prems(3) obtain ds where ds: "o1 = out @ ds" "ticked l ds l1" by auto
  then have "layer_inv l1" by (simp add: ticked_def)
  with Cons.IH [of l1 o1] Cons.prems 1 obtain es where "out' = o1 @ es" "ticked l1 es l'" by auto
  with ds ticked_trans [OF ds(2)] show ?case by auto
qed

lemma layer_tick_ticked:
  assumes "layer_inv l" "layer_tick l now = (l', ds)"
  shows "ticked l ds l'"
  using tick_fold_ticked [of now l "[]" "[0..<ORIGINS]" l' ds] assms ticked_refl
  unfolding layer_tick_def by (auto split: if_splits)

text \<open>The arrivals of an event on origin \<open>k\<close>.\<close>

fun arrivals :: "nat \<Rightarrow> layer_event \<Rightarrow> span set" where
  "arrivals k (Rx j inc lo hi p bare now) = (if j = int k then {(lo, hi, p)} else {})"
| "arrivals k _ = {}"

text \<open>
  An event that belongs to one life of the remote origin \<open>k\<close>: what arrives for it has its incarnation and does not use the
  very last sequence, and the endpoint does not itself send as \<open>k\<close>.
\<close>

fun same_life :: "nat \<Rightarrow> u16 \<Rightarrow> layer_event \<Rightarrow> bool" where
  "same_life k inc (Rx j i lo hi p bare now) = (j = int k \<longrightarrow> i = inc \<and> hi \<noteq> - 1)"
| "same_life k inc (Tx j p bare now) = (j \<noteq> int k)"
| "same_life k inc _ = True"

lemma rx_base_same: "og_have g \<Longrightarrow> og_inc g = inc \<Longrightarrow> rx_base g inc lo = g"
  by (simp add: rx_base_def)

lemma layer_step_inv:
  assumes "layer_step l e ds l'" "layer_inv l"
  shows "layer_inv l' \<and> c_gap_skipped (ly_c l) \<le> c_gap_skipped (ly_c l')"
  using assms(1)
proof cases
  case (step_tx k p bare now sq)
  with tx_step [OF assms(2) step_tx(4)] show ?thesis by simp
next
  case (step_rx k inc lo hi p bare now r)
  with rx_step [OF assms(2) step_rx(2)] show ?thesis by simp
next
  case (step_tick now)
  with layer_tick_ticked [OF assms(2) step_tick(2)] show ?thesis by (simp add: ticked_def)
qed (use assms(2) in \<open>simp_all add: layer_inv_def layer_wf_def set_local_def osq_gap_force_def legacy_refused_def\<close>)

text \<open>What one step does to an origin the endpoint does not send as.\<close>

lemma layer_step_waits:
  assumes step: "layer_step l e ds l'" and inv: "layer_inv l" and k: "k < ORIGINS"
    and e: "\<And>p bare now. e \<noteq> Tx (int k) p bare now" and w: "nothing_waits (ly_o l ! k)"
  shows "nothing_waits (ly_o l' ! k)"
  using step
proof cases
  case (step_tx j p bare now sq)
  with e tx_step [OF inv step_tx(4)] w show ?thesis by metis
next
  case (step_rx j inc lo hi p bare now r)
  note rx = rx_step [OF inv step_rx(2)]
  show ?thesis
  proof (cases "j = int k \<and> rx_valid l j lo hi p")
    case True
    then have j: "j = int k" "rx_valid l (int k) lo hi p" by auto
    from rx [unfolded j(1) nat_int] j(2) rx_base_waits [OF w] show ?thesis by simp
  next
    case False
    then have "ly_o l' ! k = ly_o l ! k" using rx by (cases "j = int k") auto
    with w show ?thesis by simp
  qed
next
  case (step_tick now)
  with layer_tick_ticked [OF inv step_tick(2)] k w show ?thesis by (simp add: ticked_def)
qed (use w in \<open>simp_all add: set_local_def osq_gap_force_def legacy_refused_def\<close>)

lemma layer_step_drained:
  assumes step: "layer_step l e ds l'" and inv: "layer_inv l" and k: "k < ORIGINS"
    and skip: "c_gap_skipped (ly_c l') = c_gap_skipped (ly_c l)" and life: "same_life k (og_inc (ly_o l ! k)) e"
    and have_g: "og_have (ly_o l ! k)"
  shows "drained k (arrivals k e) (ly_o l ! k) (filter (\<lambda>d. dv_origin d = k) ds) (ly_o l' ! k)"
proof -
  have ok: "origin_ok (ly_o l ! k)" using inv k layer_wf_nth by (simp add: layer_inv_def)
  have same: ?thesis if "ly_o l' ! k = ly_o l ! k" "filter (\<lambda>d. dv_origin d = k) ds = []"
    using that drained_refl [OF ok] by simp
  from step show ?thesis
  proof cases
    case (step_tx j p bare now sq)
    with life tx_step [OF inv step_tx(4)] show ?thesis by (intro same) auto
  next
    case (step_rx j inc lo hi p bare now r)
    note rx = rx_step [OF inv step_rx(2)]
    show ?thesis
    proof (cases "rx_valid l j lo hi p")
      case False
      with rx show ?thesis by (intro same) simp_all
    next
      case valid: True
      then have d: "drained (nat j) {(lo, hi, p)} (rx_base (ly_o l ! nat j) inc lo) ds (ly_o l' ! nat j)" using rx by simp
      show ?thesis
      proof (cases "j = int k")
        case True
        then have "drained k {(lo, hi, p)} (ly_o l ! k) ds (ly_o l' ! k)"
          using d life step_rx(1) have_g by (simp add: rx_base_same)
        with drained_here [OF this] step_rx(1) True show ?thesis by simp
      next
        case False
        moreover have "nat j \<noteq> k" using False valid by (auto simp: rx_valid_def)
        ultimately show ?thesis using rx drained_elsewhere [OF d] by (intro same) auto
      qed
    qed
  next
    case (step_tick now)
    with layer_tick_ticked [OF inv step_tick(2)] k skip show ?thesis by (simp add: ticked_def)
  qed (use same in \<open>simp_all add: set_local_def osq_gap_force_def legacy_refused_def\<close>)
qed

lemma layer_run_inv:
  "layer_run l es ds l' \<Longrightarrow> layer_inv l \<Longrightarrow> layer_inv l' \<and> c_gap_skipped (ly_c l) \<le> c_gap_skipped (ly_c l')"
  by (induction rule: layer_run.induct) (use layer_step_inv in \<open>force+\<close>)

lemma layer_run_waits:
  assumes "layer_run l es ds l'" "layer_inv l" "k < ORIGINS" "\<And>p bare now. Tx (int k) p bare now \<notin> set es" "nothing_waits (ly_o l ! k)"
  shows "nothing_waits (ly_o l' ! k)"
  using assms
proof (induction rule: layer_run.induct)
  case (run_cons l e ds l1 es fs l')
  from run_cons.prems(3) have e: "e \<noteq> Tx (int k) p bare now" "Tx (int k) p bare now \<notin> set es" for p bare now by auto
  have "layer_inv l1" using layer_step_inv [OF run_cons.hyps(1) run_cons.prems(1)] by simp
  moreover have "nothing_waits (ly_o l1 ! k)"
    by (rule layer_step_waits [OF run_cons.hyps(1) run_cons.prems(1,2) e(1) run_cons.prems(4)])
  ultimately show ?case using run_cons.IH run_cons.prems(2) e(2) by blast
qed simp

lemma layer_run_drained:
  assumes "layer_run l es ds l'" "layer_inv l" "k < ORIGINS"
    "c_gap_skipped (ly_c l') = c_gap_skipped (ly_c l)" "\<forall>e\<in>set es. same_life k (og_inc (ly_o l ! k)) e"
    "og_have (ly_o l ! k)"
  shows "drained k (\<Union>e\<in>set es. arrivals k e) (ly_o l ! k) (filter (\<lambda>d. dv_origin d = k) ds) (ly_o l' ! k)"
  using assms
proof (induction rule: layer_run.induct)
  case (run_nil l)
  then show ?case using layer_wf_nth by (simp add: layer_inv_def drained_refl)
next
  case (run_cons l e ds l1 es fs l')
  note i1 = layer_step_inv [OF run_cons.hyps(1) run_cons.prems(1)]
  then have "c_gap_skipped (ly_c l1) \<le> c_gap_skipped (ly_c l')" using layer_run_inv [OF run_cons.hyps(2)] by simp
  with i1 run_cons.prems(3) have skip: "c_gap_skipped (ly_c l1) = c_gap_skipped (ly_c l)"
    "c_gap_skipped (ly_c l') = c_gap_skipped (ly_c l1)" by simp_all
  have "same_life k (og_inc (ly_o l ! k)) e" using run_cons.prems(4) by simp
  from layer_step_drained [OF run_cons.hyps(1) run_cons.prems(1,2) skip(1) this run_cons.prems(5)]
  have d: "drained k (arrivals k e) (ly_o l ! k) (filter (\<lambda>d. dv_origin d = k) ds) (ly_o l1 ! k)" .
  then have "og_inc (ly_o l1 ! k) = og_inc (ly_o l ! k)" "og_have (ly_o l1 ! k)" using run_cons.prems(5) by (simp_all add: drained_def)
  with run_cons.IH i1 run_cons.prems skip(2)
  have "drained k (\<Union>e\<in>set es. arrivals k e) (ly_o l1 ! k) (filter (\<lambda>d. dv_origin d = k) fs) (ly_o l' ! k)" by simp
  then have "drained k (\<Union>e\<in>set (e # es). arrivals k e) (ly_o l1 ! k) (filter (\<lambda>d. dv_origin d = k) fs) (ly_o l' ! k)"
    by (rule drained_widen) auto
  moreover have "drained k (\<Union>e\<in>set (e # es). arrivals k e) (ly_o l ! k) (filter (\<lambda>d. dv_origin d = k) ds) (ly_o l1 ! k)"
    using d by (rule drained_widen) auto
  ultimately show ?case unfolding filter_append by (blast intro: drained_trans)
qed

text \<open>A layer as the endpoint allocates it: arrays of the declared sizes.\<close>

definition layer_shape :: "layer \<Rightarrow> bool" where
  "layer_shape l \<longleftrightarrow> length (ly_o l) = ORIGINS \<and>
     (\<forall>g\<in>set (ly_o l). length (og_ahead g) = AHEAD_SLOTS \<and>
        length (rg_ent (og_ring g)) = RING_ENTRIES \<and> length (rg_pool (og_ring g)) = RING_POOL)"

lemma reset_inv:
  assumes "layer_shape l"
  shows "layer_inv (set_local (layer_reset l inc) me)" "k < ORIGINS \<Longrightarrow> used_slots (ly_o (set_local (layer_reset l inc) me) ! k) = {}"
proof -
  define f where "f = (\<lambda>g :: origin. g\<lparr> og_have := False, og_inc := 0, og_next := 0, og_ahead_n := 0, og_ahead_t := 0,
      og_ring := (ring_clear (og_ring g))\<lparr> rg_early_evict := 0 \<rparr>, og_ahead := clear_ahead (og_ahead g) \<rparr>)"
  have o: "ly_o (set_local (layer_reset l inc) me) = map f (ly_o l)" by (simp add: set_local_def layer_reset_def f_def)
  have u: "used_slots (f g) = {}" for g by (auto simp: f_def used_slots_def clear_ahead_def)
  have g: "origin_ok (f g)" if "g \<in> set (ly_o l)" for g
  proof -
    have "(ring_clear (og_ring g))\<lparr> rg_early_evict := 0 \<rparr> = ring_clear ((og_ring g)\<lparr> rg_early_evict := 0 \<rparr>)"
      by (simp add: ring_clear_def)
    then have "length (og_ahead g) = AHEAD_SLOTS" "ring_wf ((ring_clear (og_ring g))\<lparr> rg_early_evict := 0 \<rparr>)"
      using assms that ring_clear_wf [of "(og_ring g)\<lparr> rg_early_evict := 0 \<rparr>"] by (auto simp: layer_shape_def)
    then show ?thesis unfolding origin_ok_def u by (simp add: f_def clear_ahead_def)
  qed
  have len: "length (ly_o l) = ORIGINS" using assms by (simp add: layer_shape_def)
  then show "layer_inv (set_local (layer_reset l inc) me)"
    using g unfolding layer_inv_def layer_wf_def o by (auto simp: set_local_def layer_reset_def)
  show "used_slots (ly_o (set_local (layer_reset l inc) me) ! k) = {}" if "k < ORIGINS"
    using that len by (simp add: o u)
qed

subsection \<open>What a holder serves\<close>

lemma consecutive_first:
  "consecutive vs n \<Longrightarrow> vs \<noteq> [] \<Longrightarrow> h_lo (hd vs) < n"
proof (induction vs)
  case (Cons v vs)
  have "h_lo v \<le> h_hi v" "h_hi v < h_hi v + 1" using Cons.prems(1) by (simp_all add: less_plus_1_u32)
  then have v: "h_lo v < h_hi v + 1" by (rule le_less_trans)
  show ?case
  proof (cases vs)
    case Nil
    with v Cons.prems(1) show ?thesis by simp
  next
    case (Cons w ws)
    with v Cons.prems(1) Cons.IH have "h_lo v < h_lo w" "h_lo w < n" by simp_all
    then show ?thesis by simp
  qed
qed simp

lemma serve_from_covers:
  "consecutive vs n \<Longrightarrow> vs \<noteq> [] \<Longrightarrow> h_lo (hd vs) \<le> s \<Longrightarrow> s < n \<Longrightarrow> a \<le> s \<Longrightarrow> s \<le> b \<Longrightarrow>
     \<exists>e\<in>set (serve_from vs a b). h_lo e \<le> s \<and> s \<le> h_hi e"
proof (induction vs)
  case (Cons v vs)
  have lo: "\<not> b < h_lo v" using Cons.prems by auto
  show ?case
  proof (cases "s \<le> h_hi v")
    case True
    then have "\<not> h_hi v < a" using Cons.prems by auto
    then show ?thesis using lo Cons.prems(3) True by simp
  next
    case False
    then have next_le: "h_hi v + 1 \<le> s" by (simp add: inc_le)
    then have ne: "vs \<noteq> []" using Cons.prems(1,4) by (auto simp: not_le)
    then have "h_lo (hd vs) \<le> s" using next_le Cons.prems(1) by (cases vs) simp_all
    then obtain e where "e \<in> set (serve_from vs a b)" "h_lo e \<le> s" "s \<le> h_hi e"
      using Cons.IH ne Cons.prems by auto
    then show ?thesis using lo by auto
  qed
qed simp

lemma oldest_lo_view: "oldest_lo r = (if ring_view r = [] then 0 else h_lo (hd (ring_view r)))"
proof (cases "rg_count r = 0")
  case False
  then have e: "[0..<rg_count r] = 0 # [1..<rg_count r]" by (simp add: upt_conv_Cons)
  show ?thesis using False by (simp add: oldest_lo_def ring_view_def live_def e view_ent_def)
qed (simp add: oldest_lo_def ring_view_def live_def)

lemma ring_view_empty: "ring_view r = [] \<longleftrightarrow> rg_count r = 0"
  by (simp add: ring_view_def live_def)

text \<open>A holder whose retained frames are consecutive serves every sequence from its oldest to its front.\<close>

lemma serve_covers:
  assumes g: "g = ly_o l ! nat k" "0 \<le> k" "k < int ORIGINS" and ok: "retained_ok g" and life: "og_have g"
    and old: "oldest_lo (og_ring g) \<noteq> 0" "oldest_lo (og_ring g) \<le> a" and ab: "a \<le> b" "b \<le> og_next g - 1"
  shows "\<exists>es. layer_serve l k a b = (int (length es), og_inc g, es) \<and> es \<noteq> [] \<and>
    (\<forall>s. a \<le> s \<and> s \<le> b \<longrightarrow> (\<exists>e\<in>set es. h_lo e \<le> s \<and> s \<le> h_hi e))"
proof -
  let ?vs = "ring_view (og_ring g)"
  have ne: "?vs \<noteq> []" and lo: "h_lo (hd ?vs) \<le> a" "0 < a"
    using old by (auto simp: oldest_lo_view word_neq_0_conv split: if_splits)
  have c: "consecutive ?vs (og_next g)" using ok by (simp add: retained_ok_def)
  have "og_next g \<noteq> 0" using consecutive_first [OF c ne] by auto
  then have "og_next g - 1 < og_next g" using less_plus_1_u32 [of "og_next g - 1"] by (simp add: diff_eq_eq)
  with ab(2) have b: "b < og_next g" by simp
  have cov: "\<exists>e\<in>set (serve_from ?vs a b). h_lo e \<le> s \<and> s \<le> h_hi e" if "a \<le> s" "s \<le> b" for s
    using serve_from_covers [OF c ne] that lo b by auto
  have n: "(k < 0 \<or> k \<ge> int ORIGINS \<or> a = 0 \<or> b < a) = False"
    "(\<not> og_have g \<or> rg_count (og_ring g) = 0) = False" "(a < oldest_lo (og_ring g)) = False"
    using g(2,3) lo(2) ab(1) life ne old(2) by (auto simp: ring_view_empty)
  have "layer_serve l k a b = (int (length (serve_from ?vs a b)), og_inc g, serve_from ?vs a b)"
    unfolding layer_serve_def Let_def g(1) [symmetric] n if_False by (rule refl)
  moreover have "serve_from ?vs a b \<noteq> []" using cov [of a] ab(1) by auto
  ultimately show ?thesis using cov by blast
qed

lemma planned_fetch:
  assumes r: "repairs (map layer_report ls) k p f" and b: "behind (map layer_report ls) k p"
    and k: "k < ORIGINS" and p: "p < length ls" and len: "length ls \<le> 256"
    and ok: "\<forall>l\<in>set ls. layer_inv l \<and> (\<forall>g\<in>set (ly_o l). retained_ok g)"
  shows "\<exists>n inc es. layer_serve (ls ! unat (f_holder f)) (int (unat (f_origin f))) (f_from f) (f_to f) = (n, inc, es) \<and>
    0 < n \<and> (\<forall>s. f_from f \<le> s \<and> s \<le> f_to f \<longrightarrow> (\<exists>e\<in>set es. h_lo e \<le> s \<and> s \<le> h_hi e))"
proof -
  let ?rep = "map layer_report ls"
  obtain h where h: "h < length ls" "f_holder f = of_nat h" "rp_front (?rep ! h) ! k = f_to f"
      "f_from f = fetch_start ?rep k p h" "rp_oldest (?rep ! h) ! k \<noteq> 0" "rp_oldest (?rep ! h) ! k \<le> f_from f"
    using r by (auto simp: repairs_def)
  let ?l = "ls ! h"
  let ?g = "ly_o ?l ! k"
  have in_ls: "?l \<in> set ls" "ls ! p \<in> set ls" using h(1) p by simp_all
  then have l2: "length (ly_o ?l) = ORIGINS" and pl: "length (ly_o (ls ! p)) = ORIGINS"
    using ok by (simp_all add: layer_inv_def layer_wf_def)
  have l3: "retained_ok ?g" using ok in_ls(1) l2 k nth_mem by fastforce
  have u: "unat (f_holder f) = h" "unat (f_origin f) = k"
    using h(1,2) len k r by (simp_all add: repairs_def unat_of_nat_u8 ORIGINS_def)
  have life: "og_have ?g" and old: "oldest_lo (og_ring ?g) \<noteq> 0" "oldest_lo (og_ring ?g) \<le> f_from f"
    and front: "f_to f = og_next ?g - 1"
    using h(1,3,5,6) k l2 by (auto simp: layer_report_def split: if_splits)
  have "f_from f \<le> f_to f"
  proof (cases "rp_front (?rep ! p) ! k = 0")
    case True
    then have "f_from f = oldest_lo (og_ring ?g)"
      using h(1,4) k l2 life by (simp add: fetch_start_def layer_report_def)
    moreover have ne: "ring_view (og_ring ?g) \<noteq> []" using old(1) by (auto simp: oldest_lo_view)
    then have "oldest_lo (og_ring ?g) < og_next ?g"
      using consecutive_first [OF l3 [unfolded retained_ok_def] ne] by (simp add: oldest_lo_view)
    ultimately show ?thesis using front by unat_arith
  next
    case False
    then have "f_from f = rp_front (?rep ! p) ! k + 1" using h(4) by (simp add: fetch_start_def)
    moreover have "rp_front (?rep ! p) ! k < f_to f" using b r by (simp add: behind_def repairs_def)
    ultimately show ?thesis by (simp add: inc_le)
  qed
  from serve_covers [OF refl _ _ _ _ _ _ this] life l3 old front k obtain es where
    "layer_serve ?l (int k) (f_from f) (f_to f) = (int (length es), og_inc ?g, es)" "es \<noteq> []"
    "\<forall>s. f_from f \<le> s \<and> s \<le> f_to f \<longrightarrow> (\<exists>e\<in>set es. h_lo e \<le> s \<and> s \<le> h_hi e)"
    by (metis nat_int of_nat_0_le_iff of_nat_less_iff order_refl)
  then show ?thesis by (simp add: u)
qed

lemma drain_ahead_origin_eq: "drain_ahead k now g c = (g', c', ds) \<Longrightarrow> og_ahead_n g = 0 \<Longrightarrow> ds = [] \<and> og_next g' = og_next g"
  by (auto simp: drain_ahead_def)

lemma full_slots:
  assumes "origin_ok g" "find (\<lambda>s. \<not> ah_used (og_ahead g ! s)) [0..<AHEAD_SLOTS] = None"
  shows "card (used_slots g) = AHEAD_SLOTS"
proof -
  have "used_slots g = {..<AHEAD_SLOTS}"
    using assms by (auto simp: used_slots_def origin_ok_def find_None_iff)
  then show ?thesis by simp
qed

lemma rx_origin_outcome:
  assumes ok: "origin_ok g" and rx: "rx_origin k g c lo hi p bare now = (r, g', c', ds)"
  shows "(hi < og_next g \<longrightarrow> r = Duplicate \<and> ds = [] \<and> g' = g) \<and>
    (lo \<le> og_next g \<and> og_next g \<le> hi \<longrightarrow>
       r = Delivered \<and> ds \<noteq> [] \<and> hd ds = \<lparr> dv_origin = k, dv_lo = og_next g, dv_hi = hi, dv_data = p \<rparr>) \<and>
    (og_next g < lo \<and> og_next g \<le> hi \<longrightarrow> ds = [] \<and> og_next g' = og_next g \<and>
       (r = Ahead \<and> (\<exists>s\<in>used_slots g'. og_ahead g' ! s =
            \<lparr> ah_used = True, ah_sup = bare, ah_lo = lo, ah_hi = hi, ah_data = p \<rparr>) \<or>
        r = Duplicate \<and> g' = g \<and> (\<exists>s\<in>used_slots g. ah_lo (og_ahead g ! s) = lo \<and> ah_hi (og_ahead g ! s) = hi) \<or>
        r = Dropped \<and> g' = g \<and> card (used_slots g) = AHEAD_SLOTS))"
proof -
  have dup: "hi < og_next g \<Longrightarrow> r = Duplicate \<and> ds = [] \<and> g' = g" using rx by (simp add: rx_origin_def)
  have del: "r = Delivered \<and> ds \<noteq> [] \<and> hd ds = \<lparr> dv_origin = k, dv_lo = og_next g, dv_hi = hi, dv_data = p \<rparr>"
    if a: "lo \<le> og_next g \<and> og_next g \<le> hi"
  proof -
    have n: "(hi < og_next g) = False" "(lo \<le> og_next g) = True" using a by auto
    show ?thesis
    using rx unfolding rx_origin_def n if_True if_False by (auto simp: deliver_one_def Let_def split: prod.splits)
  qed
  have len: "length (og_ahead g) = AHEAD_SLOTS" using ok by (simp add: origin_ok_def)
  have hold: "ds = [] \<and> og_next g' = og_next g \<and>
       (r = Ahead \<and> (\<exists>s\<in>used_slots g'. og_ahead g' ! s =
            \<lparr> ah_used = True, ah_sup = bare, ah_lo = lo, ah_hi = hi, ah_data = p \<rparr>) \<or>
        r = Duplicate \<and> g' = g \<and> (\<exists>s\<in>used_slots g. ah_lo (og_ahead g ! s) = lo \<and> ah_hi (og_ahead g ! s) = hi) \<or>
        r = Dropped \<and> g' = g \<and> card (used_slots g) = AHEAD_SLOTS)"
    if a: "og_next g < lo \<and> og_next g \<le> hi"
  proof (cases "\<exists>a\<in>set (og_ahead g). ah_used a \<and> ah_lo a = lo \<and> ah_hi a = hi")
    case True
    have n: "(hi < og_next g) = False" "(lo \<le> og_next g) = False" using a by auto
    from True have "\<exists>s\<in>used_slots g. ah_lo (og_ahead g ! s) = lo \<and> ah_hi (og_ahead g ! s) = hi"
      by (auto simp: used_slots_def in_set_conv_nth)
    with rx n True show ?thesis unfolding rx_origin_def by auto
  next
    case False
    have n: "(hi < og_next g) = False" "(lo \<le> og_next g) = False" using a by auto
    from False have f: "(\<exists>a\<in>set (og_ahead g). ah_used a \<and> ah_lo a = lo \<and> ah_hi a = hi) = False" by blast
    show ?thesis
    proof (cases "find (\<lambda>s. \<not> ah_used (og_ahead g ! s)) [0..<AHEAD_SLOTS]")
      case None
      with rx full_slots [OF ok None] show ?thesis unfolding rx_origin_def n f if_False None by auto
    next
      case (Some s)
      note s = free_slot [OF Some]
      have "ds = []" "r = Ahead" "og_next g' = og_next g"
        "og_ahead g' = (og_ahead g)[s := \<lparr> ah_used = True, ah_sup = bare, ah_lo = lo, ah_hi = hi, ah_data = p \<rparr>]"
        using rx unfolding rx_origin_def n f if_False Some by auto
      moreover from this(4) s len have "s \<in> used_slots g'" by (simp add: used_slots_def)
      ultimately show ?thesis using s len by (intro conjI disjI1 bexI [of _ s]) simp_all
    qed
  qed
  from dup del hold show ?thesis by blast
qed

subsection \<open>Properties\<close>

definition origin0 :: origin where
  "origin0 = \<lparr> og_have = False, og_inc = 0, og_next = 0, og_ahead_t = 0, og_ahead_n = 0, og_ring = ring0,
     og_ahead = replicate AHEAD_SLOTS \<lparr> ah_used = False, ah_sup = False, ah_lo = 0, ah_hi = 0, ah_data = [] \<rparr> \<rparr>"

text \<open>A layer in which origin \<open>0\<close> is known and stands at sequence \<open>5\<close>.\<close>

definition layer5 :: layer where
  "layer5 = \<lparr> ly_o = origin0\<lparr> og_have := True, og_inc := 7, og_next := 5 \<rparr> # replicate 7 origin0,
     ly_my_inc = 3, ly_local = 2, ly_gap_force = 0, ly_c = counters0 \<rparr>"

lemma origin0_unused: "used_slots (origin0\<lparr> og_have := h, og_inc := i, og_next := n \<rparr>) = {}" "used_slots origin0 = {}"
  by (auto simp: used_slots_def origin0_def)

lemma origin0_ok: "origin_ok (origin0\<lparr> og_have := h, og_inc := i, og_next := n \<rparr>)" "origin_ok origin0"
  unfolding origin_ok_def origin0_unused by (simp_all add: origin0_def ring0_wf)

lemma layer5_inv: "layer_inv layer5"
proof -
  have "layer_wf layer5" using origin0_ok by (auto simp: layer_wf_def layer5_def ORIGINS_def)
  then show ?thesis by (simp add: layer_inv_def layer5_def ORIGINS_def origin0_unused)
qed

lemma layer5_rx:
  "\<exists>l. layer_rx layer5 0 7 5 5 [9] False 10 = (Delivered, l, [\<lparr> dv_origin = 0, dv_lo = 5, dv_hi = 5, dv_data = [9] \<rparr>])"
  by (auto simp: layer_rx_eq rx_valid_def layer5_def ORIGINS_def PAYLOAD_MAX_def rx_origin_def rx_base_def origin0_def
      deliver_one_def drain_ahead_def Let_def)

text \<open>C11. From a reset on, the layer stays well formed through everything the endpoint does with it - sending, arrivals,
  ticks, a WELCOME that gives the endpoint an identity, changes of the gap timeout, refused legacy peers, in any order:
  there are eight origins, the ahead buffer of each counts its used slots and holds well-formed frames within the payload
  limit, and its retention ring is intact.  And no frame is held that could be delivered - each starts above the
  frontier - for every origin the endpoint did not itself send as.\<close>

theorem layer_stays_well_formed:
  assumes "layer_shape l0" and "layer_run (set_local (layer_reset l0 inc) me) es ds l"
  shows "length (ly_o l) = ORIGINS \<and> (\<forall>g\<in>set (ly_o l). origin_ok g) \<and>
    (\<forall>k < ORIGINS. (\<forall>p bare now. Tx (int k) p bare now \<notin> set es) \<longrightarrow>
       (\<forall>s < AHEAD_SLOTS. ah_used (og_ahead (ly_o l ! k) ! s) \<longrightarrow> og_next (ly_o l ! k) < ah_lo (og_ahead (ly_o l ! k) ! s)))"
proof -
  have inv: "layer_inv l" using layer_run_inv [OF assms(2) reset_inv(1) [OF assms(1)]] by simp
  have "og_next (ly_o l ! k) < ah_lo (og_ahead (ly_o l ! k) ! s)"
    if k: "k < ORIGINS" "\<forall>p bare now. Tx (int k) p bare now \<notin> set es" and s: "s < AHEAD_SLOTS" "ah_used (og_ahead (ly_o l ! k) ! s)" for k s
  proof -
    have "nothing_waits (ly_o (set_local (layer_reset l0 inc) me) ! k)"
      unfolding nothing_waits_def reset_inv(2) [OF assms(1) k(1)] by simp
    from layer_run_waits [OF assms(2) reset_inv(1) [OF assms(1)] k(1) _ this] k(2) have w: "nothing_waits (ly_o l ! k)" by blast
    have "length (og_ahead (ly_o l ! k)) = AHEAD_SLOTS" using inv layer_wf_nth k(1) by (simp add: layer_inv_def origin_ok_def)
    with s have "s \<in> used_slots (ly_o l ! k)" by (simp add: used_slots_def)
    with w show ?thesis by (simp add: nothing_waits_def)
  qed
  with inv show ?thesis by (simp add: layer_inv_def layer_wf_def)
qed

theorem layer_stays_well_formed_witness:
  "\<exists>ds l. layer_run (set_local (layer_reset layer5 3) 2) [Local 3, Rx 0 7 5 5 [9] False 10, GapForce 0, Tick 20] ds l \<and>
    length (ly_o l) = ORIGINS"
proof -
  let ?l = "set_local (layer_reset layer5 3) 2"
  obtain r l1 d1 where 1: "layer_rx (set_local ?l 3) 0 7 5 5 [9] False 10 = (r, l1, d1)" by (metis prod_cases3)
  obtain l2 d2 where 2: "layer_tick (osq_gap_force l1 0) 20 = (l2, d2)" by (metis surj_pair)
  have "layer_shape layer5"
    by (auto simp: layer_shape_def layer5_def origin0_def ring0_def ORIGINS_def)
  moreover have "layer_run ?l [Local 3, Rx 0 7 5 5 [9] False 10, GapForce 0, Tick 20] ([] @ d1 @ [] @ d2 @ []) l2"
    by (rule run_cons [OF step_local run_cons [OF step_rx [OF 1] run_cons [OF step_gap run_cons [OF step_tick [OF 2] run_nil]]]])
  ultimately show ?thesis using layer_stays_well_formed by blast
qed

text \<open>C9. Exactly once and in order.  While an origin keeps its incarnation, the endpoint does not itself send as it, and no
  hole is skipped (the counter \<open>gap_skipped\<close> stands still), what any run of arrivals, repeats, reorderings, ticks and
  changes of the endpoint's identity hands up for it joins end to end from its old frontier to its new one, each
  sequence exactly once.  And what is handed up is what arrived there: each delivery is the payload of a frame of that
  origin that arrived in the run or was held before it, whose own range ends where the delivery ends and starts no later
  than the delivery, so nothing is delivered across a hole.  What the layer retains for the origin stays consecutive up
  to the frontier.\<close>

theorem delivered_exactly_once_in_order:
  assumes "layer_run l es ds l'" and "layer_inv l" and "k < ORIGINS"
    and "c_gap_skipped (ly_c l') = c_gap_skipped (ly_c l)"
    and "\<forall>e\<in>set es. same_life k (og_inc (ly_o l ! k)) e"
    and "og_have (ly_o l ! k)" and "no_wrap (ly_o l ! k)"
  shows "in_order (og_next (ly_o l ! k)) (filter (\<lambda>d. dv_origin d = k) ds) (og_next (ly_o l' ! k)) \<and>
    (\<forall>d\<in>set ds. dv_origin d = k \<longrightarrow>
       (\<exists>lo. (lo, dv_hi d, dv_data d) \<in> (\<Union>e\<in>set es. arrivals k e) \<union> waiting (ly_o l ! k) \<and> lo \<le> dv_lo d)) \<and>
    (retained_ok (ly_o l ! k) \<longrightarrow> retained_ok (ly_o l' ! k))"
proof -
  note d = layer_run_drained [OF assms(1-6)]
  have "hi \<noteq> - 1" if "(lo, hi, p) \<in> arrivals k e" "same_life k i e" for lo hi p e i
    using that by (cases e) (auto split: if_splits)
  with assms(5) have "\<forall>x\<in>\<Union>e\<in>set es. arrivals k e. fst (snd x) \<noteq> - 1" by fastforce
  with d assms(7) show ?thesis unfolding drained_def by auto
qed

theorem delivered_exactly_once_in_order_witness:
  "\<exists>l' :: layer. in_order 5 [\<lparr> dv_origin = 0, dv_lo = 5, dv_hi = 5, dv_data = [9] \<rparr>] (og_next (ly_o l' ! 0)) \<and>
    (5, 5, [9]) \<in> arrivals 0 (Rx 0 7 5 5 [9] False 10)"
proof -
  obtain l where r: "layer_rx layer5 0 7 5 5 [9] False 10 =
      (Delivered, l, [\<lparr> dv_origin = 0, dv_lo = 5, dv_hi = 5, dv_data = [9] \<rparr>])"
    using layer5_rx by blast
  have run: "layer_run layer5 [Rx 0 7 5 5 [9] False 10] ([\<lparr> dv_origin = 0, dv_lo = 5, dv_hi = 5, dv_data = [9] \<rparr>] @ []) l"
    by (rule run_cons [OF step_rx [OF r] run_nil])
  have skip: "c_gap_skipped (ly_c l) = c_gap_skipped (ly_c layer5)" using rx_step [OF layer5_inv r] by simp
  have c: "0 < ORIGINS" "og_have (ly_o layer5 ! 0)"
    "no_wrap (ly_o layer5 ! 0)" "\<forall>e\<in>set [Rx 0 7 5 5 [9] False 10]. same_life 0 (og_inc (ly_o layer5 ! 0)) e"
    "og_next (ly_o layer5 ! 0) = 5"
    by (simp_all add: layer5_def ORIGINS_def no_wrap_def origin0_unused)
  from delivered_exactly_once_in_order [OF run layer5_inv c(1) skip c(4,2,3), unfolded c(5)]
  show ?thesis by (auto intro: exI [of _ l])
qed

text \<open>The outcome of one arrival: below the frontier it is a duplicate and changes nothing; across the
  frontier it is delivered at once, from the frontier on; above it, nothing is delivered and the
  frontier stays, and the frame is held, already held, or dropped because all sixteen slots are used.
  An arrival that names no other player's origin, a zero or inverted range or too long a payload
  never reaches an origin.\<close>

theorem arrival_outcome:
  assumes "layer_inv l" and "layer_rx l k inc lo hi p bare now = (r, l', ds)" and "g = rx_base (ly_o l ! nat k) inc lo"
  shows "if rx_valid l k lo hi p
    then (hi < og_next g \<longrightarrow> r = Duplicate \<and> ds = [] \<and> ly_o l' ! nat k = g) \<and>
      (lo \<le> og_next g \<and> og_next g \<le> hi \<longrightarrow>
         r = Delivered \<and> ds \<noteq> [] \<and> hd ds = \<lparr> dv_origin = nat k, dv_lo = og_next g, dv_hi = hi, dv_data = p \<rparr>) \<and>
      (og_next g < lo \<and> og_next g \<le> hi \<longrightarrow> ds = [] \<and> og_next (ly_o l' ! nat k) = og_next g \<and>
         (r = Ahead \<and> (\<exists>s\<in>used_slots (ly_o l' ! nat k). og_ahead (ly_o l' ! nat k) ! s =
              \<lparr> ah_used = True, ah_sup = bare, ah_lo = lo, ah_hi = hi, ah_data = p \<rparr>) \<or>
          r = Duplicate \<and> ly_o l' ! nat k = g \<and>
            (\<exists>s\<in>used_slots g. ah_lo (og_ahead g ! s) = lo \<and> ah_hi (og_ahead g ! s) = hi) \<or>
          r = Dropped \<and> ly_o l' ! nat k = g \<and> card (used_slots g) = AHEAD_SLOTS))
    else ly_o l' = ly_o l \<and> ds = [] \<and> (r = Dropped \<or> r = Duplicate)"
proof (cases "rx_valid l k lo hi p")
  case True
  have k: "nat k < ORIGINS" using True by (simp add: rx_valid_def nat_less_iff)
  have wf: "layer_wf l" using assms(1) by (simp add: layer_inv_def)
  obtain g' c d where e: "l' = l\<lparr> ly_o := (ly_o l)[nat k := g'], ly_c := c \<rparr>"
      "rx_origin (nat k) g d lo hi p bare now = (r, g', c, ds)"
    using assms(2) unfolding layer_rx_eq [OF True] assms(3) by (auto split: prod.splits)
  have "ly_o l' ! nat k = g'" using e(1) layer_wf_len [OF wf] k by simp
  moreover have "origin_ok g" using assms(3) rx_base_ok [OF layer_wf_nth [OF wf k]] by simp
  ultimately show ?thesis using rx_origin_outcome [OF \<open>origin_ok g\<close> e(2)] True by (simp only: if_True)
next
  case False
  with layer_rx_invalid [OF False, of inc bare now] assms(2) show ?thesis by auto
qed

theorem arrival_outcome_witness:
  "\<exists>l' :: layer. if rx_valid layer5 0 5 5 [9]
    then ((5 :: u32) < 5 \<longrightarrow> Delivered = Duplicate \<and> [\<lparr> dv_origin = 0, dv_lo = 5, dv_hi = 5, dv_data = [9] \<rparr>] = [] \<and>
        ly_o l' ! 0 = ly_o layer5 ! 0) \<and>
      ((5 :: u32) \<le> 5 \<and> (5 :: u32) \<le> 5 \<longrightarrow> Delivered = Delivered \<and>
         hd [\<lparr> dv_origin = 0, dv_lo = 5, dv_hi = 5, dv_data = [9] \<rparr>] = \<lparr> dv_origin = nat 0, dv_lo = 5, dv_hi = 5, dv_data = [9] \<rparr>)
    else ly_o l' = ly_o layer5"
proof -
  obtain l where r: "layer_rx layer5 0 7 5 5 [9] False 10 =
      (Delivered, l, [\<lparr> dv_origin = 0, dv_lo = 5, dv_hi = 5, dv_data = [9] \<rparr>])"
    using layer5_rx by blast
  have g: "ly_o layer5 ! nat 0 = rx_base (ly_o layer5 ! nat 0) 7 5" "og_next (ly_o layer5 ! nat 0) = 5"
    by (simp_all add: layer5_def rx_base_def)
  from arrival_outcome [OF layer5_inv r g(1)] g(2) show ?thesis by auto
qed

text \<open>The send side numbers frames consecutively, from 1 in each life of the process, and retains each
  one; what is retained stays consecutive up to the frontier.  Frames of an invalid origin or too long
  a payload get no sequence and change nothing.\<close>

theorem sent_frames_are_numbered:
  assumes "layer_inv l" and "k = ly_local l" and "layer_tx l k p bare now = (sq, l')"
  shows "if 0 \<le> k \<and> length p \<le> PAYLOAD_MAX
    then sq = (if og_have (ly_o l ! nat k) \<and> og_inc (ly_o l ! nat k) = ly_my_inc l then og_next (ly_o l ! nat k) else 1) \<and>
      og_have (ly_o l' ! nat k) \<and> og_inc (ly_o l' ! nat k) = ly_my_inc l \<and> og_next (ly_o l' ! nat k) = sq + 1 \<and>
      (retained_ok (ly_o l ! nat k) \<and> sq \<noteq> - 1 \<longrightarrow> retained_ok (ly_o l' ! nat k))
    else sq = 0 \<and> l' = l"
proof (cases "0 \<le> k \<and> length p \<le> PAYLOAD_MAX")
  case True
  let ?g = "ly_o l ! nat k" and ?b = "tx_base (ly_o l ! nat k) (ly_my_inc l)"
  have k: "k < int ORIGINS" "nat k < ORIGINS" and wf: "layer_wf l"
    using assms(1,2) True by (simp_all add: layer_inv_def nat_less_iff)
  have e: "sq = og_next ?b" "l' = l\<lparr> ly_o := (ly_o l)[nat k := tx_origin ?b p bare now] \<rparr>"
    using assms(3) True k(1) by (simp_all add: layer_tx_eq Let_def)
  have l': "ly_o l' ! nat k = tx_origin ?b p bare now" using e(2) layer_wf_len [OF wf] k(2) by simp
  have ring: "ring_wf (og_ring ?g)" using layer_wf_nth [OF wf k(2)] by (simp add: origin_ok_def)
  have "retained_ok (tx_origin ?b p bare now)" if r: "retained_ok ?g" and sq: "sq \<noteq> - 1"
  proof -
    have "ring_wf (og_ring ?b)" "consecutive (ring_view (og_ring ?b)) (og_next ?b)"
      using ring ring_clear_ok [OF ring] r by (simp_all add: tx_base_def retained_ok_def)
    from ring_add_consecutive [OF this(1) _ this(2) order_refl] sq e(1) True show ?thesis
      by (simp add: tx_origin_def retained_ok_def)
  qed
  then show ?thesis using True e(1) unfolding l' by (auto simp: tx_base_def tx_origin_def)
next
  case False
  then have "(k < 0 \<or> k \<ge> int ORIGINS \<or> length p > PAYLOAD_MAX) = True" by auto
  then have "sq = 0 \<and> l' = l" using assms(3) unfolding layer_tx_def by simp
  with False show ?thesis by (simp only: if_False)
qed

theorem sent_frames_are_numbered_witness:
  "if (0 :: int) \<le> 2 \<and> length [4 :: u8] \<le> PAYLOAD_MAX
    then fst (layer_tx layer5 2 [4] False 9) = 1 \<and> og_next (ly_o (snd (layer_tx layer5 2 [4] False 9)) ! nat 2) =
           fst (layer_tx layer5 2 [4] False 9) + 1
    else fst (layer_tx layer5 2 [4] False 9) = 0"
  using sent_frames_are_numbered [OF layer5_inv, of 2 "[4]" False 9 "fst (layer_tx layer5 2 [4] False 9)"
      "snd (layer_tx layer5 2 [4] False 9)"]
  by (simp add: layer5_def origin0_def PAYLOAD_MAX_def)

text \<open>C10. The reconcile closes, as long as no survivor has skipped a hole: when the survivors' reports come from their layers
  and what each layer retains of each origin is consecutive up to its frontier - which is kept while no hole is
  skipped (\<open>delivered_exactly_once_in_order\<close>), and which \<open>tick\<close> breaks when the gap timeout gives a hole up - every
  fetch of the plan is answered in full by the holder it names, each sequence from the first to the last one asked
  for being in one of the retained frames it sends.\<close>

theorem planned_fetches_are_served:
  assumes "plan (map layer_report ls) cap = (fs, unrec, target)" and "length ls \<le> 256"
    and "\<forall>l\<in>set ls. layer_inv l \<and> (\<forall>g\<in>set (ly_o l). retained_ok g)"
  shows "\<forall>f\<in>set fs. \<exists>n inc es.
    layer_serve (ls ! unat (f_holder f)) (int (unat (f_origin f))) (f_from f) (f_to f) = (n, inc, es) \<and>
    0 < n \<and> (\<forall>s. f_from f \<le> s \<and> s \<le> f_to f \<longrightarrow> (\<exists>e\<in>set es. h_lo e \<le> s \<and> s \<le> h_hi e))"
proof
  fix f assume "f \<in> set fs"
  from plan_spec(2) [OF assms(1) this] obtain k p where "k < ORIGINS" "p < length ls"
      "behind (map layer_report ls) k p" "repairs (map layer_report ls) k p f"
    unfolding length_map by blast
  with planned_fetch assms(2,3) show "\<exists>n inc es.
    layer_serve (ls ! unat (f_holder f)) (int (unat (f_origin f))) (f_from f) (f_to f) = (n, inc, es) \<and>
    0 < n \<and> (\<forall>s. f_from f \<le> s \<and> s \<le> f_to f \<longrightarrow> (\<exists>e\<in>set es. h_lo e \<le> s \<and> s \<le> h_hi e))"
    by blast
qed

definition layer_sent :: layer where
  "layer_sent = snd (layer_tx layer5 2 [4] False 9)"

lemma layer_sent_eq:
  "layer_sent = layer5\<lparr> ly_o := (ly_o layer5)[2 := tx_origin (tx_base origin0 3) [4] False 9] \<rparr>"
  by (simp add: layer_sent_def layer_tx_eq ORIGINS_def PAYLOAD_MAX_def layer5_def Let_def)

lemma sent_view:
  "ring_view (og_ring (tx_origin (tx_base origin0 3) [4] False 9)) =
     [\<lparr> h_lo = 1, h_hi = 1, h_t = 9, h_data = [4], h_bare = False \<rparr>]"
proof -
  have r: "ring_clear ring0 = ring0" by (simp add: ring_clear_def ring0_def)
  have "\<not> coalesces (expire ring0 9) 1 [4] False" by (simp add: coalesces_def)
  from ring_add_push [OF ring0_wf(1) _ this, of 1] show ?thesis
    by (auto simp: tx_origin_def tx_base_def origin0_def r ring0_wf(2) PAYLOAD_MAX_def)
qed

lemma sent_report:
  "layer_report layer_sent = \<lparr> rp_front = [4, 0, 1, 0, 0, 0, 0, 0], rp_oldest = [0, 0, 1, 0, 0, 0, 0, 0], rp_inc = [7, 0, 3, 0, 0, 0, 0, 0] \<rparr>"
  "layer_report layer5 = \<lparr> rp_front = [4, 0, 0, 0, 0, 0, 0, 0], rp_oldest = replicate 8 0, rp_inc = [7, 0, 0, 0, 0, 0, 0, 0] \<rparr>"
proof -
  have t: "og_have (tx_origin (tx_base origin0 3) [4] False 9)" "og_next (tx_origin (tx_base origin0 3) [4] False 9) = 2"
    "og_inc (tx_origin (tx_base origin0 3) [4] False 9) = 3"
    by (simp_all add: tx_origin_def tx_base_def origin0_def)
  show "layer_report layer_sent = \<lparr> rp_front = [4, 0, 1, 0, 0, 0, 0, 0], rp_oldest = [0, 0, 1, 0, 0, 0, 0, 0], rp_inc = [7, 0, 3, 0, 0, 0, 0, 0] \<rparr>"
    by (simp add: layer_report_def layer_sent_eq layer5_def t oldest_lo_view sent_view numeral_nat)
      (simp add: origin0_def ring0_wf)
  show "layer_report layer5 = \<lparr> rp_front = [4, 0, 0, 0, 0, 0, 0, 0], rp_oldest = replicate 8 0, rp_inc = [7, 0, 0, 0, 0, 0, 0, 0] \<rparr>"
    by (simp add: layer_report_def layer5_def oldest_lo_view numeral_nat) (simp add: origin0_def ring0_wf)
qed

lemma ex_layers: "\<forall>l\<in>set [layer_sent, layer5]. layer_inv l \<and> (\<forall>g\<in>set (ly_o l). retained_ok g)"
proof -
  have inv: "layer_inv layer_sent"
    using tx_step [OF layer5_inv, of 2 "[4]" False 9 "fst (layer_tx layer5 2 [4] False 9)" layer_sent]
    by (simp add: layer_sent_def)
  have o: "retained_ok origin0" "retained_ok (origin0\<lparr> og_have := True, og_inc := 7, og_next := 5 \<rparr>)"
    by (simp_all add: retained_ok_def origin0_def ring0_wf)
  have "retained_ok (tx_origin (tx_base origin0 3) [4] False 9)"
    unfolding retained_ok_def sent_view by (simp add: tx_origin_def tx_base_def origin0_def)
  with o have "\<forall>g\<in>set (ly_o layer_sent). retained_ok g" "\<forall>g\<in>set (ly_o layer5). retained_ok g"
    by (auto simp: layer_sent_eq layer5_def numeral_nat)
  with inv layer5_inv show ?thesis by simp
qed

theorem planned_fetches_are_served_witness:
  "\<exists>n inc es. layer_serve layer_sent (int (unat (2 :: u8))) 1 1 = (n, inc, es) \<and> 0 < n \<and>
    (\<exists>e\<in>set es. h_lo e \<le> 1 \<and> 1 \<le> h_hi e)"
proof -
  let ?f = "\<lparr> f_origin = 2, f_to_peer = 1, f_holder = 0, f_from = 1, f_to = 1 \<rparr>"
  have "plan (map layer_report [layer_sent, layer5]) 4 = ([?f], False, [4, 0, 1, 0, 0, 0, 0, 0])"
    unfolding list.map sent_report by code_simp
  from planned_fetches_are_served [OF this _ ex_layers] obtain n inc es where
    "layer_serve layer_sent (int (unat (2 :: u8))) 1 1 = (n, inc, es)" "0 < n"
    "\<forall>s. 1 \<le> s \<and> s \<le> 1 \<longrightarrow> (\<exists>e\<in>set es. h_lo e \<le> s \<and> s \<le> h_hi e)"
    by auto
  then show ?thesis by auto
qed

end
