(* ===== verification/Bulk_State.thy ===== *)
theory Bulk_State
  imports Udp_Bulk Sha256
begin

text \<open>
  The state of channel C, the bulk chunk transfer (\<open>Channel\<close> in \<open>mh_dll/mh_net_udp/udp_channel_c.h\<close>
  and \<open>udp_channel_c.cpp\<close>): the sender's window, the receiver's window, the lane of completed chunks and
  the statistics, with the constructor, the settings and the edge to the endpoint.

  The edge \<open>m_emit\<close> is code of the endpoint: it is a field of the state, a function of everything
  handed to it before (so it may be stateful), the connection and the payload; what the channel hands
  to it is logged in \<open>ch_out\<close>.  The opaque context of a byte source is a number, \<open>0\<close> for the null
  pointer.  \<open>GetTickCount ()\<close> is an argument.
\<close>

definition PIECES_PER_CHUNK :: u32 where "PIECES_PER_CHUNK = 16"
definition CHUNK_BYTES :: u32 where "CHUNK_BYTES = CHUNK_MAX"
definition WINDOW_CHUNKS :: nat where "WINDOW_CHUNKS = 2"
definition LANE_SLOTS :: nat where "LANE_SLOTS = 4"
definition KIND_BULK_ACK :: u8 where "KIND_BULK_ACK = 2"
definition BULK_ACK_LEN :: nat where "BULK_ACK_LEN = 9"
definition BULK_RTO_MS :: u32 where "BULK_RTO_MS = 250"
definition BULK_ACK_MS :: u32 where "BULK_ACK_MS = 20"
definition FAST_RETX_MS :: u32 where "FAST_RETX_MS = 30"
definition BULK_BURST :: nat where "BULK_BURST = 8"

record stats =
  st_tx_pieces :: int
  st_tx_retx :: int
  st_tx_chunks :: int
  st_tx_base_chunk :: u32
  st_tx_chunks_total :: u32
  st_tx_resumes :: int
  st_tx_cancelled :: int
  st_rx_pieces :: int
  st_rx_dup :: int
  st_rx_out_of_window :: int
  st_rx_mismatch :: int
  st_rx_sha_fail :: int
  st_rx_chunks :: int
  st_rx_base_chunk :: u32
  st_lane_depth :: nat
  st_lane_high_water :: nat
  st_lane_cap :: nat
  st_lane_drained :: int
  st_lane_refused :: int
  st_lane_evicted :: int
  st_verify_ok :: int
  st_verify_fail :: int
  st_tx_active :: bool
  st_tx_done :: bool

definition stats0 :: stats where
  "stats0 = \<lparr> st_tx_pieces = 0, st_tx_retx = 0, st_tx_chunks = 0, st_tx_base_chunk = 0, st_tx_chunks_total = 0,
     st_tx_resumes = 0, st_tx_cancelled = 0, st_rx_pieces = 0, st_rx_dup = 0, st_rx_out_of_window = 0,
     st_rx_mismatch = 0, st_rx_sha_fail = 0, st_rx_chunks = 0, st_rx_base_chunk = 0, st_lane_depth = 0,
     st_lane_high_water = 0, st_lane_cap = 0, st_lane_drained = 0, st_lane_refused = 0, st_lane_evicted = 0,
     st_verify_ok = 0, st_verify_fail = 0, st_tx_active = False, st_tx_done = False \<rparr>"

record tx_chunk =
  tc_index :: u32
  tc_len :: u32
  tc_total :: u16
  tc_acked :: u16
  tc_ack_ms :: u32
  tc_valid :: bool
  tc_sent :: "u32 list"
  tc_sha :: bytes
  tc_data :: bytes

record rx_chunk =
  rc_index :: u32
  rc_len :: u32
  rc_total :: u16
  rc_have :: u16
  rc_valid :: bool
  rc_complete :: bool
  rc_sha :: bytes
  rc_data :: bytes

record lane_slot =
  ls_chunk_id :: u32
  ls_len :: u32
  ls_data :: bytes

type_synonym byte_source = "u32 \<Rightarrow> u32 \<Rightarrow> bytes"

record tx_state =
  tx_active :: bool
  tx_done :: bool
  tx_conn :: int
  tx_player :: int
  tx_blob :: "bytes option"
  tx_src :: "byte_source option"
  tx_src_ctx :: nat
  tx_drop_cancels :: bool
  tx_blob_len :: u32
  tx_chunks :: u32
  tx_base :: u32
  tx_win :: "tx_chunk list"
  tx_last_progress_ms :: u32

record rx_state =
  rx_base :: u32
  rx_win :: "rx_chunk list"
  rx_last_ack_ms :: u32
  rx_last_piece_ms :: u32
  rx_ack_due :: bool
  rx_conn :: int

record lane_state =
  ln_slot :: "lane_slot list"
  ln_head :: nat
  ln_count :: nat
  ln_high_water :: nat
  ln_refused :: int
  ln_evicted :: int

type_synonym emission = "int \<times> bytes"

record channel =
  ch_tx :: tx_state
  ch_rx :: rx_state
  ch_lane :: lane_state
  ch_emit :: "(emission list \<Rightarrow> int \<Rightarrow> bytes \<Rightarrow> bool) option"
  ch_out :: "emission list"
  ch_piece_max :: nat
  ch_link_rto_ms :: u32
  ch_link_fast_ms :: u32
  ch_selftest_mb :: int
  ch_selftest_step :: u32
  ch_selftest_armed :: bool
  ch_s :: stats
  ch_prev_logged :: stats

subsection \<open>Construction and settings\<close>

definition zero_chunk :: bytes where
  "zero_chunk = replicate (unat CHUNK_BYTES) 0"

definition tx_chunk0 :: tx_chunk where
  "tx_chunk0 = \<lparr> tc_index = 0, tc_len = 0, tc_total = 0, tc_acked = 0, tc_ack_ms = 0, tc_valid = False,
     tc_sent = replicate (unat PIECES_PER_CHUNK) 0, tc_sha = replicate SHA256_LEN 0, tc_data = zero_chunk \<rparr>"

definition rx_chunk0 :: rx_chunk where
  "rx_chunk0 = \<lparr> rc_index = 0, rc_len = 0, rc_total = 0, rc_have = 0, rc_valid = False, rc_complete = False,
     rc_sha = replicate SHA256_LEN 0, rc_data = zero_chunk \<rparr>"

definition tx0 :: tx_state where
  "tx0 = \<lparr> tx_active = False, tx_done = False, tx_conn = 0, tx_player = 0, tx_blob = None, tx_src = None,
     tx_src_ctx = 0, tx_drop_cancels = False, tx_blob_len = 0, tx_chunks = 0, tx_base = 0,
     tx_win = replicate WINDOW_CHUNKS tx_chunk0, tx_last_progress_ms = 0 \<rparr>"

definition rx0 :: rx_state where
  "rx0 = \<lparr> rx_base = 0, rx_win = replicate WINDOW_CHUNKS rx_chunk0, rx_last_ack_ms = 0, rx_last_piece_ms = 0,
     rx_ack_due = False, rx_conn = 0 \<rparr>"

definition lane0 :: lane_state where
  "lane0 = \<lparr> ln_slot = replicate LANE_SLOTS \<lparr> ls_chunk_id = 0, ls_len = 0, ls_data = zero_chunk \<rparr>,
     ln_head = 0, ln_count = 0, ln_high_water = 0, ln_refused = 0, ln_evicted = 0 \<rparr>"

text \<open>The constructor.\<close>

definition channel0 :: channel where
  "channel0 = \<lparr> ch_tx = tx0\<lparr> tx_conn := -1, tx_player := -1 \<rparr>, ch_rx = rx0\<lparr> rx_conn := -1 \<rparr>, ch_lane = lane0,
     ch_emit = None, ch_out = [], ch_piece_max = PIECE_MAX, ch_link_rto_ms = 0, ch_link_fast_ms = 0,
     ch_selftest_mb = 0, ch_selftest_step = 0, ch_selftest_armed = False,
     ch_s = stats0\<lparr> st_lane_cap := LANE_SLOTS \<rparr>, ch_prev_logged = stats0 \<rparr>"

definition bind_edge :: "channel \<Rightarrow> (emission list \<Rightarrow> int \<Rightarrow> bytes \<Rightarrow> bool) option \<Rightarrow> channel" where
  "bind_edge ch fn = ch\<lparr> ch_emit := fn \<rparr>"

definition configure :: "channel \<Rightarrow> int \<Rightarrow> u32 \<Rightarrow> channel" where
  "configure ch selftest_mb selftest_step =
     ch\<lparr> ch_selftest_mb := (if selftest_mb < 0 then 0 else selftest_mb), ch_selftest_step := selftest_step \<rparr>"

definition set_piece_max :: "channel \<Rightarrow> nat \<Rightarrow> channel" where
  "set_piece_max ch n = ch\<lparr> ch_piece_max := (if n = 0 \<or> n > PIECE_MAX then PIECE_MAX else n) \<rparr>"

definition set_link_timing :: "channel \<Rightarrow> u32 \<Rightarrow> u32 \<Rightarrow> channel" where
  "set_link_timing ch rto_ms fast_ms = ch\<lparr> ch_link_rto_ms := rto_ms, ch_link_fast_ms := fast_ms \<rparr>"

text \<open>A payload handed to the edge: its answer, \<open>False\<close> without an edge.\<close>

definition emit_on :: "channel \<Rightarrow> int \<Rightarrow> bytes \<Rightarrow> bool \<times> channel" where
  "emit_on ch conn pay =
     (case ch_emit ch of
        None \<Rightarrow> (False, ch)
      | Some f \<Rightarrow> (f (ch_out ch) conn pay, ch\<lparr> ch_out := ch_out ch @ [(conn, pay)] \<rparr>))"

text \<open>A tick as a stamp: \<open>0\<close> stands for "never".\<close>

definition stamp :: "u32 \<Rightarrow> u32" where
  "stamp now = (if now = 0 then 1 else now)"

definition synth_byte :: "u32 \<Rightarrow> u8" where
  "synth_byte off =
     (let x = off * 2654435761 + 0x9e3779b9;
          x = x XOR drop_bit 15 x;
          x = x * 0x85ebca6b;
          x = x XOR drop_bit 13 x
      in ucast (x AND 0xff))"

definition full_mask :: "u16 \<Rightarrow> u16" where
  "full_mask n = ucast (push_bit (unat n) (1 :: u32) - 1)"

subsection \<open>The statistics\<close>

definition channel_stats :: "channel \<Rightarrow> stats" where
  "channel_stats ch =
     (ch_s ch)\<lparr> st_lane_depth := ln_count (ch_lane ch), st_lane_high_water := ln_high_water (ch_lane ch),
                st_lane_cap := LANE_SLOTS, st_lane_refused := ln_refused (ch_lane ch),
                st_lane_evicted := ln_evicted (ch_lane ch), st_tx_base_chunk := tx_base (ch_tx ch),
                st_rx_base_chunk := rx_base (ch_rx ch) \<rparr>"

text \<open>The decision of \<open>rollup_line\<close>; the text it renders is not modelled.\<close>

definition rollup_moved :: "channel \<Rightarrow> bool \<times> channel" where
  "rollup_moved ch =
     (let s = channel_stats ch; q = ch_prev_logged ch;
          moved = (st_tx_pieces s \<noteq> st_tx_pieces q \<or> st_tx_chunks s \<noteq> st_tx_chunks q \<or>
                   st_rx_pieces s \<noteq> st_rx_pieces q \<or> st_rx_chunks s \<noteq> st_rx_chunks q \<or>
                   st_lane_refused s \<noteq> st_lane_refused q \<or> st_lane_evicted s \<noteq> st_lane_evicted q \<or>
                   st_lane_high_water s \<noteq> st_lane_high_water q \<or> st_rx_sha_fail s \<noteq> st_rx_sha_fail q \<or>
                   st_verify_ok s \<noteq> st_verify_ok q \<or> st_verify_fail s \<noteq> st_verify_fail q)
      in if \<not> moved then (False, ch) else (True, ch\<lparr> ch_prev_logged := s \<rparr>))"

end
