(* ===== verification/Bulk_Sender.thy ===== *)
theory Bulk_Sender
  imports Bulk_State
begin

text \<open>
  The sending half of channel C (\<open>udp_channel_c.cpp\<close>): loading the window from the source of bytes,
  following the receiver's frontier, starting and aborting a transfer, putting a piece on the wire and
  reading an acknowledgement.
\<close>

subsection \<open>The window\<close>

definition chunk_len_of :: "tx_state \<Rightarrow> u32 \<Rightarrow> u32" where
  "chunk_len_of tx index =
     (if index \<ge> tx_chunks tx then 0
      else let start = index * CHUNK_BYTES; left = tx_blob_len tx - start
           in if left > CHUNK_BYTES then CHUNK_BYTES else left)"

definition fill_chunk :: "tx_state \<Rightarrow> u32 \<Rightarrow> bytes \<Rightarrow> u32 \<Rightarrow> bytes" where
  "fill_chunk tx index out len =
     (let start = index * CHUNK_BYTES in
      case tx_src tx of
        Some src \<Rightarrow> memcpy_at out 0 (src start len)
      | None \<Rightarrow>
          (case tx_blob tx of
             Some blob \<Rightarrow> memcpy_at out 0 (take (unat len) (drop (unat start) blob))
           | None \<Rightarrow> memcpy_at out 0 (map (\<lambda>i. synth_byte (start + of_nat i)) [0..<unat len])))"

definition tx_load :: "nat \<Rightarrow> nat \<Rightarrow> u32 \<Rightarrow> tx_state \<Rightarrow> tx_state" where
  "tx_load piece_max w chunk_index tx =
     (let c = (tx_win tx ! w)\<lparr> tc_sent := replicate (unat PIECES_PER_CHUNK) 0, tc_acked := 0, tc_ack_ms := 0,
                               tc_index := chunk_index \<rparr>;
          c = (if chunk_index \<ge> tx_chunks tx then c\<lparr> tc_valid := False, tc_len := 0, tc_total := 0 \<rparr>
               else let c = c\<lparr> tc_len := chunk_len_of tx chunk_index \<rparr>;
                        c = c\<lparr> tc_data := fill_chunk tx chunk_index (tc_data c) (tc_len c) \<rparr>;
                        c = c\<lparr> tc_total := piece_count (tc_len c) piece_max \<rparr>;
                        c = c\<lparr> tc_sha := sha256 (take (unat (tc_len c)) (tc_data c)) \<rparr>
                    in c\<lparr> tc_valid := (tc_total c \<noteq> 0) \<rparr>)
      in tx\<lparr> tx_win := (tx_win tx)[w := c] \<rparr>)"

text \<open>\<open>for (w < WINDOW_CHUNKS) tx_load(w, base + w)\<close>.\<close>

definition tx_load_all :: "nat \<Rightarrow> tx_state \<Rightarrow> tx_state" where
  "tx_load_all piece_max tx = fold (\<lambda>w tx. tx_load piece_max w (tx_base tx + of_nat w) tx) [0..<WINDOW_CHUNKS] tx"

text \<open>The body of the forward loop: \<open>win[w] = win[w + 1]\<close>, then the freed slot is loaded.\<close>

definition tx_shift :: "nat \<Rightarrow> tx_state \<Rightarrow> tx_state" where
  "tx_shift piece_max tx =
     (let tx = tx\<lparr> tx_win := fold (\<lambda>w win. win[w := win ! (w + 1)]) [0..<WINDOW_CHUNKS - 1] (tx_win tx),
                   tx_base := tx_base tx + 1 \<rparr>
      in tx_load piece_max (WINDOW_CHUNKS - 1) (tx_base tx + of_nat (WINDOW_CHUNKS - 1)) tx)"

lemma tx_load_base [simp]: "tx_base (tx_load m w i tx) = tx_base tx"
  by (simp add: tx_load_def Let_def)

lemma tx_shift_base [simp]: "tx_base (tx_shift m tx) = tx_base tx + 1"
  by (simp add: tx_shift_def Let_def)

function tx_advance :: "nat \<Rightarrow> u32 \<Rightarrow> tx_state \<Rightarrow> tx_state" where
  "tx_advance piece_max new_base tx =
     (if tx_base tx < new_base then tx_advance piece_max new_base (tx_shift piece_max tx) else tx)"
  by pat_completeness auto
termination
  by (relation "measure (\<lambda>(m, n, tx). unat n - unat (tx_base tx))")
    (auto simp: unat_Suc_lt_u32 word_less_nat_alt)

declare tx_advance.simps [simp del]

text \<open>Following the receiver's frontier, in either direction.\<close>

definition tx_seek :: "channel \<Rightarrow> u32 \<Rightarrow> channel" where
  "tx_seek ch new_base =
     (let m = ch_piece_max ch; tx = ch_tx ch; s = ch_s ch;
          new_base = (if new_base > tx_chunks tx then tx_chunks tx else new_base);
          (tx, s) = (if new_base < tx_base tx
                     then (tx_load_all m (tx\<lparr> tx_base := new_base \<rparr>), s\<lparr> st_tx_resumes := st_tx_resumes s + 1 \<rparr>)
                     else (tx, s));
          tx = tx_advance m new_base tx
      in ch\<lparr> ch_tx := tx, ch_s := s\<lparr> st_tx_chunks := uint (tx_base tx), st_tx_base_chunk := tx_base tx \<rparr> \<rparr>)"

subsection \<open>Starting and aborting\<close>

definition start_send :: "channel \<Rightarrow> int \<Rightarrow> int \<Rightarrow> bytes option \<Rightarrow> u32 \<Rightarrow> u32 \<Rightarrow> bool \<times> channel" where
  "start_send ch conn_idx player_id blob len clock =
     (if tx_active (ch_tx ch) then (False, ch)
      else if len = 0 then (False, ch)
      else
        let chunks = (ucast len + ucast CHUNK_BYTES - 1) div ucast CHUNK_BYTES :: u64 in
        if chunks = 0 \<or> chunks > 0x0fffffff then (False, ch)
        else
          let tx = tx0\<lparr> tx_active := True, tx_conn := conn_idx, tx_player := player_id, tx_blob := blob,
                        tx_blob_len := len, tx_chunks := ucast chunks, tx_base := 0, tx_last_progress_ms := clock \<rparr>;
              tx = fold (\<lambda>w tx. tx_load (ch_piece_max ch) w (of_nat w) tx) [0..<WINDOW_CHUNKS] tx
          in (True, ch\<lparr> ch_tx := tx, ch_s := (ch_s ch)\<lparr> st_tx_active := True, st_tx_done := False,
                        st_tx_chunks_total := tx_chunks tx, st_tx_base_chunk := 0 \<rparr> \<rparr>))"

definition start_send_src ::
    "channel \<Rightarrow> int \<Rightarrow> int \<Rightarrow> byte_source option \<Rightarrow> nat \<Rightarrow> u32 \<Rightarrow> bool \<Rightarrow> u32 \<Rightarrow> bool \<times> channel" where
  "start_send_src ch conn_idx player_id src ctx len drop_cancels clock =
     (if src = None then (False, ch)
      else case start_send ch conn_idx player_id None len clock of
          (False, ch) \<Rightarrow> (False, ch)
        | (True, ch) \<Rightarrow>
            let tx = (ch_tx ch)\<lparr> tx_src := src, tx_src_ctx := ctx, tx_drop_cancels := drop_cancels \<rparr>
            in (True, ch\<lparr> ch_tx := tx_load_all (ch_piece_max ch) tx \<rparr>))"

definition abort_send :: "channel \<Rightarrow> channel" where
  "abort_send ch =
     ch\<lparr> ch_tx := (ch_tx ch)\<lparr> tx_active := False, tx_src := None, tx_src_ctx := 0, tx_blob := None,
                              tx_drop_cancels := False,
                              tx_win := map (\<lambda>c. c\<lparr> tc_valid := False \<rparr>) (tx_win (ch_tx ch)) \<rparr>,
         ch_s := (ch_s ch)\<lparr> st_tx_active := False, st_tx_chunks_total := 0 \<rparr> \<rparr>"

definition count_cancelled :: "channel \<Rightarrow> channel" where
  "count_cancelled ch = ch\<lparr> ch_s := (ch_s ch)\<lparr> st_tx_cancelled := st_tx_cancelled (ch_s ch) + 1 \<rparr> \<rparr>"

definition abort_src :: "channel \<Rightarrow> nat \<Rightarrow> bool \<times> channel" where
  "abort_src ch ctx =
     (if ctx = 0 \<or> tx_src_ctx (ch_tx ch) \<noteq> ctx then (False, ch)
      else let was = tx_active (ch_tx ch); ch = abort_send ch
           in (was, if was then count_cancelled ch else ch))"

definition on_conn_dropped :: "channel \<Rightarrow> int \<Rightarrow> bool \<times> channel" where
  "on_conn_dropped ch conn_idx =
     (let ch = (if rx_conn (ch_rx ch) = conn_idx
                then ch\<lparr> ch_rx := (ch_rx ch)\<lparr> rx_conn := -1, rx_last_piece_ms := 0, rx_ack_due := False \<rparr> \<rparr>
                else ch)
      in if \<not> tx_active (ch_tx ch) \<or> tx_conn (ch_tx ch) \<noteq> conn_idx \<or> \<not> tx_drop_cancels (ch_tx ch) then (False, ch)
         else (True, count_cancelled (abort_send ch)))"

subsection \<open>Pieces out, acknowledgements in\<close>

definition send_piece :: "nat \<Rightarrow> u16 \<Rightarrow> u32 \<Rightarrow> bool \<Rightarrow> channel \<Rightarrow> channel" where
  "send_piece w pc now retx ch =
     (let c = tx_win (ch_tx ch) ! w in
      if \<not> tc_valid c \<or> pc \<ge> tc_total c then ch
      else case piece_for (tc_data c) (tc_len c) (tc_index c) pc (tc_index c * PIECES_PER_CHUNK + ucast pc)
                  (tc_sha c) (ch_piece_max ch) of
          None \<Rightarrow> ch
        | Some p \<Rightarrow>
            let buf = piece_encode p (PIECE_HDR + PIECE_MAX) in
            if buf = [] then ch
            else case emit_on ch (tx_conn (ch_tx ch)) buf of
                (False, ch) \<Rightarrow> ch
              | (True, ch) \<Rightarrow>
                  let s = ch_s ch; s = s\<lparr> st_tx_pieces := st_tx_pieces s + 1 \<rparr>;
                      s = (if retx then s\<lparr> st_tx_retx := st_tx_retx s + 1 \<rparr> else s)
                  in ch\<lparr> ch_tx := (ch_tx ch)\<lparr> tx_win := (tx_win (ch_tx ch))[w := c\<lparr> tc_sent := (tc_sent c)[unat pc := stamp now] \<rparr>] \<rparr>,
                         ch_s := s \<rparr>)"

text \<open>The bits of an acknowledgement, as piece bits of the base chunk.\<close>

definition acked_by :: "u32 \<Rightarrow> u16 \<Rightarrow> u16 \<Rightarrow> u16" where
  "acked_by ackbits n a =
     fold (\<lambda>i a. if ackbits AND push_bit i 1 = 0 then a
                 else if 15 - i < unat n then a OR ucast (push_bit (15 - i) (1 :: u32)) else a) [0..<16] a"

text \<open>Following the frontier \<open>base\<close> of an acknowledgement of a live transfer.\<close>

definition follow_ack :: "channel \<Rightarrow> u32 \<Rightarrow> u32 \<Rightarrow> u32 \<Rightarrow> channel" where
  "follow_ack ch base abits now =
     (let ch = (if base \<noteq> tx_base (ch_tx ch) then tx_seek ch base else ch);
          c = tx_win (ch_tx ch) ! 0;
          ch = (if tc_valid c \<and> tc_index c = base \<and> base = tx_base (ch_tx ch)
                then ch\<lparr> ch_tx := (ch_tx ch)\<lparr> tx_win := (tx_win (ch_tx ch))
                       [0 := c\<lparr> tc_acked := acked_by abits (tc_total c) (tc_acked c), tc_ack_ms := stamp now \<rparr>] \<rparr> \<rparr>
                else ch)
      in if tx_base (ch_tx ch) \<ge> tx_chunks (ch_tx ch)
         then ch\<lparr> ch_tx := (ch_tx ch)\<lparr> tx_active := False, tx_done := True \<rparr>,
                 ch_s := (ch_s ch)\<lparr> st_tx_active := False, st_tx_done := True \<rparr> \<rparr>
         else ch)"

definition on_ack :: "channel \<Rightarrow> int \<Rightarrow> bytes \<Rightarrow> u32 \<Rightarrow> bool \<times> channel" where
  "on_ack ch conn_idx payload now =
     (if length payload \<noteq> BULK_ACK_LEN \<or> payload ! 0 \<noteq> KIND_BULK_ACK then (False, ch)
      else
        let aseq = get_u32 (drop 1 payload); abits = get_u32 (drop 5 payload) in
        if \<not> tx_active (ch_tx ch) then (True, ch)
        else if tx_conn (ch_tx ch) \<noteq> conn_idx then (True, ch)
        else if aseq < PIECES_PER_CHUNK \<or> aseq mod PIECES_PER_CHUNK \<noteq> 0 then (True, ch)
        else
          let base = aseq div PIECES_PER_CHUNK - 1;
              base = (if base > tx_chunks (ch_tx ch) then tx_chunks (ch_tx ch) else base)
          in (True, follow_ack ch base abits now))"

text \<open>The sending half of \<open>tick\<close>: piece \<open>i\<close> of window slot \<open>w\<close>, with the budget that is left.\<close>

definition tick_piece :: "u32 \<Rightarrow> u32 \<Rightarrow> u32 \<Rightarrow> nat \<Rightarrow> nat \<Rightarrow> channel \<times> nat \<Rightarrow> channel \<times> nat" where
  "tick_piece now rto fast w i =
     (\<lambda>(ch, budget).
        let c = tx_win (ch_tx ch) ! w in
        if budget = 0 then (ch, budget)
        else if tc_acked c AND ucast (push_bit i (1 :: u32)) \<noteq> 0 then (ch, budget)
        else
          let sent = tc_sent c ! i in
          if sent \<noteq> 0 \<and> \<not> (tc_ack_ms c \<noteq> 0 \<and> sint (tc_ack_ms c - sent) \<ge> sint fast) \<and> now - sent < rto
          then (ch, budget)
          else (send_piece w (of_nat i) now (sent \<noteq> 0) ch, budget - 1))"

definition tick_slot :: "u32 \<Rightarrow> u32 \<Rightarrow> u32 \<Rightarrow> nat \<Rightarrow> channel \<times> nat \<Rightarrow> channel \<times> nat" where
  "tick_slot now rto fast w =
     (\<lambda>(ch, budget).
        let c = tx_win (ch_tx ch) ! w in
        if budget = 0 \<or> \<not> tc_valid c then (ch, budget)
        else fold (tick_piece now rto fast w) [0..<unat (tc_total c)] (ch, budget))"

definition tick_send :: "channel \<Rightarrow> u32 \<Rightarrow> channel" where
  "tick_send ch now =
     (let rto = (if ch_link_rto_ms ch > BULK_RTO_MS then ch_link_rto_ms ch else BULK_RTO_MS);
          fast = (if ch_link_fast_ms ch > FAST_RETX_MS then ch_link_fast_ms ch else FAST_RETX_MS)
      in fst (fold (tick_slot now rto fast) [0..<WINDOW_CHUNKS] (ch, BULK_BURST)))"

definition DSNC_MAGIC :: u32 where "DSNC_MAGIC = 0x434e5344"
definition DSNC_STEP_OFF :: nat where "DSNC_STEP_OFF = 16"
definition DSNC_MIN_BYTES :: nat where "DSNC_MIN_BYTES = DSNC_STEP_OFF + 4"

text \<open>The self-test trigger.\<close>

definition note_hash_frame :: "channel \<Rightarrow> int \<Rightarrow> int \<Rightarrow> bytes \<Rightarrow> u32 \<Rightarrow> channel" where
  "note_hash_frame ch conn_idx player_id payload clock =
     (if ch_selftest_mb ch \<le> 0 \<or> ch_selftest_armed ch \<or> tx_active (ch_tx ch) then ch
      else if length payload < DSNC_MIN_BYTES then ch
      else if get_u32 payload \<noteq> DSNC_MAGIC then ch
      else if get_u32 (drop DSNC_STEP_OFF payload) < ch_selftest_step ch then ch
      else snd (start_send (ch\<lparr> ch_selftest_armed := True \<rparr>) conn_idx player_id None
                  (word_of_int (ch_selftest_mb ch) * 1024 * 1024) clock))"

end
