(* ===== verification/Bulk_Receiver.thy ===== *)
theory Bulk_Receiver
  imports Bulk_State
begin

text \<open>
  The receiving half of channel C (\<open>udp_channel_c.cpp\<close>): assembling pieces into chunks, admitting a
  verified chunk to the lane, publishing the frontier and draining the lane.
\<close>

subsection \<open>The window and the frontier\<close>

definition rx_shift_1 :: "rx_state \<Rightarrow> rx_state" where
  "rx_shift_1 rx =
     (let win = fold (\<lambda>w win. win[w := win ! (w + 1)]) [0..<WINDOW_CHUNKS - 1] (rx_win rx);
          tail = win ! (WINDOW_CHUNKS - 1)
      in rx\<lparr> rx_win := win[WINDOW_CHUNKS - 1 := tail\<lparr> rc_valid := False, rc_complete := False, rc_have := 0 \<rparr>],
             rx_base := rx_base rx + 1 \<rparr>)"

lemma rx_shift_1_base [simp]: "rx_base (rx_shift_1 rx) = rx_base rx + 1"
  by (simp add: rx_shift_1_def Let_def)

function rx_shift_loop :: "u32 \<Rightarrow> rx_state \<Rightarrow> rx_state" where
  "rx_shift_loop new_base rx =
     (if rx_base rx < new_base then rx_shift_loop new_base (rx_shift_1 rx) else rx)"
  by pat_completeness auto
termination
  by (relation "measure (\<lambda>(n, rx). unat n - unat (rx_base rx))")
    (auto simp: unat_Suc_lt_u32 word_less_nat_alt)

declare rx_shift_loop.simps [simp del]

definition rx_shift :: "channel \<Rightarrow> u32 \<Rightarrow> channel" where
  "rx_shift ch new_base =
     (let rx = rx_shift_loop new_base (ch_rx ch)
      in ch\<lparr> ch_rx := rx, ch_s := (ch_s ch)\<lparr> st_rx_base_chunk := rx_base rx \<rparr> \<rparr>)"

text \<open>The bitmap of an acknowledgement: bit \<open>i\<close> is piece \<open>15 - i\<close> of the base chunk.\<close>

definition ack_bitmap :: "u16 \<Rightarrow> u32 \<Rightarrow> u32" where
  "ack_bitmap have_bits base =
     (let b = fold (\<lambda>i b. if have_bits AND ucast (push_bit (15 - i) (1 :: u32)) \<noteq> 0 then b OR push_bit i 1 else b)
                [0..<16] (0 :: u32)
      in if base > 0 then b OR 0xffff0000 else b)"

definition ack_payload :: "rx_state \<Rightarrow> bytes" where
  "ack_payload rx =
     (let c = rx_win rx ! 0;
          have_bits = (if rc_valid c \<and> rc_index c = rx_base rx then rc_have c else 0)
      in [KIND_BULK_ACK] @ put_u32 ((rx_base rx + 1) * PIECES_PER_CHUNK) @ put_u32 (ack_bitmap have_bits (rx_base rx)))"

definition send_ack :: "channel \<Rightarrow> u32 \<Rightarrow> channel" where
  "send_ack ch now =
     (if ch_emit ch = None \<or> rx_conn (ch_rx ch) < 0 then ch
      else let ch = snd (emit_on ch (rx_conn (ch_rx ch)) (ack_payload (ch_rx ch)))
           in ch\<lparr> ch_rx := (ch_rx ch)\<lparr> rx_last_ack_ms := stamp now, rx_ack_due := False \<rparr> \<rparr>)"

definition rx_resume_at :: "channel \<Rightarrow> u32 \<Rightarrow> u32 \<Rightarrow> channel" where
  "rx_resume_at ch chunk_index clock =
     (let rx = (ch_rx ch)\<lparr> rx_base := chunk_index,
                           rx_win := map (\<lambda>c. c\<lparr> rc_valid := False, rc_complete := False, rc_have := 0 \<rparr>) (rx_win (ch_rx ch)) \<rparr>;
          ch = ch\<lparr> ch_rx := rx, ch_s := (ch_s ch)\<lparr> st_rx_base_chunk := rx_base rx \<rparr> \<rparr>
      in if rx_conn (ch_rx ch) \<ge> 0 then send_ack ch clock else ch)"

subsection \<open>The lane\<close>

text \<open>The queue operations the code writes out: a chunk into the slot behind the last one, and the head out.\<close>

definition lane_push :: "u32 \<times> u32 \<times> bytes \<Rightarrow> lane_state \<Rightarrow> lane_state" where
  "lane_push =
     (\<lambda>(chunk_id, len, data) ln.
        let i = (ln_head ln + ln_count ln) mod LANE_SLOTS;
            slot = ln_slot ln ! i;
            slot = slot\<lparr> ls_chunk_id := chunk_id, ls_len := len,
                         ls_data := memcpy_at (ls_data slot) 0 (take (unat len) data) \<rparr>;
            ln = ln\<lparr> ln_slot := (ln_slot ln)[i := slot], ln_count := ln_count ln + 1 \<rparr>
        in if ln_count ln > ln_high_water ln then ln\<lparr> ln_high_water := ln_count ln \<rparr> else ln)"

definition lane_pop :: "lane_state \<Rightarrow> lane_state" where
  "lane_pop ln = ln\<lparr> ln_head := (ln_head ln + 1) mod LANE_SLOTS, ln_count := ln_count ln - 1 \<rparr>"

text \<open>One drained slot of \<open>verify_drain\<close>, and its loop.\<close>

definition verify_head :: "channel \<Rightarrow> channel" where
  "verify_head ch =
     (let ln = ch_lane ch; s = ch_s ch;
          slot = ln_slot ln ! ln_head ln;
          off = ls_chunk_id slot * CHUNK_BYTES;
          ok = list_all (\<lambda>i. ls_data slot ! i = synth_byte (off + of_nat i)) [0..<unat (ls_len slot)];
          s = (if ok then s\<lparr> st_verify_ok := st_verify_ok s + 1 \<rparr> else s\<lparr> st_verify_fail := st_verify_fail s + 1 \<rparr>);
          ln = lane_pop ln
      in ch\<lparr> ch_lane := ln, ch_s := s\<lparr> st_lane_drained := st_lane_drained s + 1, st_lane_depth := ln_count ln \<rparr> \<rparr>)"

function verify_drain :: "channel \<Rightarrow> channel" where
  "verify_drain ch = (if ln_count (ch_lane ch) > 0 then verify_drain (verify_head ch) else ch)"
  by pat_completeness auto
termination
  by (relation "measure (\<lambda>ch. ln_count (ch_lane ch))") (auto simp: verify_head_def lane_pop_def Let_def)

declare verify_drain.simps [simp del]

text \<open>The body of the loop of \<open>rx_try_admit\<close>: whether it goes round again, and the state.\<close>

definition admit_step :: "channel \<Rightarrow> bool \<times> channel" where
  "admit_step ch =
     (let c = rx_win (ch_rx ch) ! 0; ln = ch_lane ch; s = ch_s ch in
      if \<not> rc_valid c \<or> \<not> rc_complete c then (False, ch)
      else if ln_count ln \<ge> LANE_SLOTS then
        (let ln = ln\<lparr> ln_refused := ln_refused ln + 1 \<rparr>
         in (False, ch\<lparr> ch_lane := ln, ch_s := s\<lparr> st_lane_refused := ln_refused ln \<rparr> \<rparr>))
      else
        let ln = lane_push (rc_index c, rc_len c, rc_data c) ln;
            ch = ch\<lparr> ch_lane := ln, ch_s := s\<lparr> st_lane_depth := ln_count ln, st_lane_high_water := ln_high_water ln,
                                           st_rx_chunks := st_rx_chunks s + 1 \<rparr> \<rparr>;
            ch = rx_shift ch (rx_base (ch_rx ch) + 1)
        in (True, if ch_selftest_mb ch > 0 then verify_drain ch else ch))"

text \<open>
  \<open>rx_try_admit\<close>.  Every round that goes on moves the frontier, which invalidates the last window slot,
  so \<open>WINDOW_CHUNKS + 1\<close> rounds are enough (\<open>try_admit_stops\<close> below); at the very last chunk
  index the frontier would wrap, which the sender's limit of \<open>0x0fffffff\<close> chunks excludes.
\<close>

primrec admit_rounds :: "nat \<Rightarrow> channel \<Rightarrow> channel" where
  "admit_rounds 0 ch = ch"
| "admit_rounds (Suc n) ch = (case admit_step ch of (again, ch) \<Rightarrow> if again then admit_rounds n ch else ch)"

definition rx_try_admit :: "channel \<Rightarrow> channel" where
  "rx_try_admit ch = admit_rounds (WINDOW_CHUNKS + 1) ch"

text \<open>\<open>recv_chunk\<close> with a buffer of \<open>cap\<close> bytes: the chunk id and the bytes, when there is one.\<close>

definition recv_chunk :: "channel \<Rightarrow> nat \<Rightarrow> u32 \<Rightarrow> (u32 \<times> bytes) option \<times> channel" where
  "recv_chunk ch cap clock =
     (let ln = ch_lane ch in
      if ln_count ln = 0 then (None, ch)
      else
        let slot = ln_slot ln ! ln_head ln in
        if unat (ls_len slot) > cap then (None, ch)
        else
          let ln = lane_pop ln;
              s = ch_s ch;
              ch = ch\<lparr> ch_lane := ln, ch_s := s\<lparr> st_lane_drained := st_lane_drained s + 1, st_lane_depth := ln_count ln \<rparr> \<rparr>;
              was = rx_base (ch_rx ch);
              ch = rx_try_admit ch;
              ch = (if rx_base (ch_rx ch) \<noteq> was then send_ack ch clock else ch)
          in (Some (ls_chunk_id slot, take (unat (ls_len slot)) (ls_data slot)), ch))"

subsection \<open>A piece in\<close>

definition piece_init :: piece where
  "piece_init = \<lparr> pc_chunk_id = 0, pc_index = 0, pc_total = 0, pc_chunk_len = 0, pc_sha = replicate SHA256_LEN 0,
     pc_seq = 0, pc_bytes = [] \<rparr>"

definition put_slot :: "channel \<Rightarrow> nat \<Rightarrow> rx_chunk \<Rightarrow> channel" where
  "put_slot ch w c = ch\<lparr> ch_rx := (ch_rx ch)\<lparr> rx_win := (rx_win (ch_rx ch))[w := c] \<rparr> \<rparr>"

text \<open>The statistics that \<open>on_piece\<close> counts.\<close>

definition count_dup :: "channel \<Rightarrow> channel" where
  "count_dup ch = ch\<lparr> ch_s := (ch_s ch)\<lparr> st_rx_dup := st_rx_dup (ch_s ch) + 1 \<rparr> \<rparr>"

definition count_mismatch :: "channel \<Rightarrow> channel" where
  "count_mismatch ch = ch\<lparr> ch_s := (ch_s ch)\<lparr> st_rx_mismatch := st_rx_mismatch (ch_s ch) + 1 \<rparr> \<rparr>"

definition count_out_of_window :: "channel \<Rightarrow> channel" where
  "count_out_of_window ch = ch\<lparr> ch_s := (ch_s ch)\<lparr> st_rx_out_of_window := st_rx_out_of_window (ch_s ch) + 1 \<rparr> \<rparr>"

definition count_sha_fail :: "channel \<Rightarrow> channel" where
  "count_sha_fail ch = ch\<lparr> ch_s := (ch_s ch)\<lparr> st_rx_sha_fail := st_rx_sha_fail (ch_s ch) + 1 \<rparr> \<rparr>"

text \<open>The tail of \<open>on_piece\<close>: the piece is for window slot \<open>w\<close>, which describes its chunk.\<close>

definition take_piece :: "channel \<Rightarrow> nat \<Rightarrow> piece \<Rightarrow> u32 \<Rightarrow> channel" where
  "take_piece ch w p now =
     (let c = rx_win (ch_rx ch) ! w; bt = ucast (push_bit (unat (pc_index p)) (1 :: u32)) :: u16 in
      if pc_index p \<ge> rc_total c \<or> ucast (pc_index p) \<ge> PIECES_PER_CHUNK then ch
      else if rc_have c AND bt \<noteq> 0 then count_dup ch
      else
        let pm = of_nat (ch_piece_max ch) :: u32;
            off = ucast (pc_index p) * pm;
            want = (if rc_len c - off > pm then pm else rc_len c - off) in
        if rc_len c > CHUNK_BYTES \<or> off \<ge> rc_len c \<or> of_nat (length (pc_bytes p)) \<noteq> want then count_mismatch ch
        else
          let c = c\<lparr> rc_data := memcpy_at (rc_data c) (unat off) (pc_bytes p), rc_have := rc_have c OR bt \<rparr> in
          if rc_have c = full_mask (rc_total c) \<and> \<not> rc_complete c then
            if sha256 (take (unat (rc_len c)) (rc_data c)) \<noteq> rc_sha c
            then count_sha_fail (put_slot ch w (c\<lparr> rc_have := 0 \<rparr>))
            else send_ack (rx_try_admit (put_slot ch w (c\<lparr> rc_complete := True \<rparr>))) now
          else put_slot ch w c)"

definition on_piece :: "channel \<Rightarrow> int \<Rightarrow> bytes \<Rightarrow> u32 \<Rightarrow> bool \<times> channel" where
  "on_piece ch conn_idx payload now =
     (case piece_decode payload (ch_piece_max ch) piece_init of
        (False, v, p) \<Rightarrow> (False, ch)
      | (True, v, p) \<Rightarrow>
          let ch = ch\<lparr> ch_rx := (ch_rx ch)\<lparr> rx_conn := conn_idx, rx_last_piece_ms := stamp now \<rparr>,
                       ch_s := (ch_s ch)\<lparr> st_rx_pieces := st_rx_pieces (ch_s ch) + 1 \<rparr> \<rparr> in
          if pc_chunk_id p < rx_base (ch_rx ch) then (True, send_ack (count_dup ch) now)
          else if pc_chunk_id p \<ge> rx_base (ch_rx ch) + of_nat WINDOW_CHUNKS then (True, count_out_of_window ch)
          else
            let w = unat (pc_chunk_id p - rx_base (ch_rx ch)); c = rx_win (ch_rx ch) ! w in
            if \<not> rc_valid c
            then (True, take_piece (put_slot ch w (c\<lparr> rc_valid := True, rc_complete := False, rc_index := pc_chunk_id p,
                          rc_len := pc_chunk_len p, rc_total := pc_total p, rc_have := 0, rc_sha := pc_sha p \<rparr>)) w p now)
            else if rc_index c \<noteq> pc_chunk_id p \<or> rc_len c \<noteq> pc_chunk_len p \<or> rc_total c \<noteq> pc_total p \<or> rc_sha c \<noteq> pc_sha p
            then (True, count_mismatch ch)
            else (True, take_piece ch w p now))"

end
