(* ===== verification/Bulk_Lane.thy ===== *)
theory Bulk_Lane
  imports Bulk_Receiver
begin

text \<open>
  The receiving half of channel C keeps its promises: the lane is a bounded queue (a locale,
  interpreted on the code's ring of four slots), and the chunks that enter it are verified, in order
  and each once, whatever pieces arrive.
\<close>

subsection \<open>Bounded queues\<close>

locale bounded_fifo =
  fixes inv :: "'q \<Rightarrow> bool" and view :: "'q \<Rightarrow> 'x list" and push :: "'a \<Rightarrow> 'q \<Rightarrow> 'q" and pop :: "'q \<Rightarrow> 'q"
    and content :: "'a \<Rightarrow> 'x" and fits :: "'a \<Rightarrow> bool" and cap :: nat
  assumes bounded: "inv q \<Longrightarrow> length (view q) \<le> cap"
    and push_inv: "inv q \<Longrightarrow> fits a \<Longrightarrow> length (view q) < cap \<Longrightarrow> inv (push a q)"
    and push_view: "inv q \<Longrightarrow> fits a \<Longrightarrow> length (view q) < cap \<Longrightarrow> view (push a q) = view q @ [content a]"
    and pop_inv: "inv q \<Longrightarrow> view q \<noteq> [] \<Longrightarrow> inv (pop q)"
    and pop_view: "inv q \<Longrightarrow> view q \<noteq> [] \<Longrightarrow> view (pop q) = tl (view q)"
begin

text \<open>Pushes that fit and pops of a queue that is not empty; what comes out and what stays is what went in.\<close>

fun serve :: "'a option list \<Rightarrow> 'q \<Rightarrow> 'x list \<times> 'q" where
  "serve [] q = ([], q)"
| "serve (Some a # ops) q = (if fits a \<and> length (view q) < cap then serve ops (push a q) else serve ops q)"
| "serve (None # ops) q = (if view q = [] then serve ops q else (case serve ops (pop q) of (xs, q') \<Rightarrow> (hd (view q) # xs, q')))"

fun taken :: "'a option list \<Rightarrow> 'q \<Rightarrow> 'x list" where
  "taken [] q = []"
| "taken (Some a # ops) q = (if fits a \<and> length (view q) < cap then content a # taken ops (push a q) else taken ops q)"
| "taken (None # ops) q = (if view q = [] then taken ops q else taken ops (pop q))"

lemma conserved: "inv q \<Longrightarrow> serve ops q = (xs, q') \<Longrightarrow> inv q' \<and> xs @ view q' = view q @ taken ops q"
proof (induction ops q arbitrary: xs q' rule: serve.induct)
  case (2 a ops q)
  then show ?case by (auto simp: push_inv push_view split: if_splits)
next
  case (3 ops q)
  show ?case
  proof (cases "view q = []")
    case False
    obtain ys q1 where s: "serve ops (pop q) = (ys, q1)" by fastforce
    from 3(2) [OF False pop_inv [OF 3(3) False] s] 3(4) s False show ?thesis
      by (auto simp: pop_view [OF 3(3)])
  qed (use 3 in simp)
qed simp

end

subsection \<open>The lane is one\<close>

definition lane_inv :: "lane_state \<Rightarrow> bool" where
  "lane_inv ln \<longleftrightarrow> length (ln_slot ln) = LANE_SLOTS \<and> ln_head ln < LANE_SLOTS \<and> ln_count ln \<le> LANE_SLOTS \<and>
     (\<forall>s\<in>set (ln_slot ln). length (ls_data s) = unat CHUNK_BYTES)"

definition slot_chunk :: "lane_slot \<Rightarrow> u32 \<times> bytes" where
  "slot_chunk s = (ls_chunk_id s, take (unat (ls_len s)) (ls_data s))"

text \<open>The completed chunks in the lane, oldest first.\<close>

definition lane_view :: "lane_state \<Rightarrow> (u32 \<times> bytes) list" where
  "lane_view ln = map (\<lambda>i. slot_chunk (ln_slot ln ! ((ln_head ln + i) mod LANE_SLOTS))) [0..<ln_count ln]"

lemma length_lane_view [simp]: "length (lane_view ln) = ln_count ln"
  by (simp add: lane_view_def)

lemma lane_view_nil [simp]: "lane_view ln = [] \<longleftrightarrow> ln_count ln = 0"
  by (simp add: lane_view_def)

fun chunk_fits :: "u32 \<times> u32 \<times> bytes \<Rightarrow> bool" where
  "chunk_fits (k, n, d) = (unat n \<le> length d \<and> unat n \<le> unat CHUNK_BYTES)"

fun chunk_content :: "u32 \<times> u32 \<times> bytes \<Rightarrow> u32 \<times> bytes" where
  "chunk_content (k, n, d) = (k, take (unat n) d)"

lemma slot_distinct:
  "i < n \<Longrightarrow> n < m \<Longrightarrow> (h + n) mod m \<noteq> (h + i) mod (m :: nat)"
  using mod_eq_dvd_iff_nat [of "h + i" "h + n" m] dvd_imp_le [of m "n - i"] by auto

lemma lane_push_fields:
  "ln_head (lane_push (k, n, d) ln) = ln_head ln" "ln_count (lane_push (k, n, d) ln) = Suc (ln_count ln)"
  "ln_slot (lane_push (k, n, d) ln) = (let i = (ln_head ln + ln_count ln) mod LANE_SLOTS; slot = ln_slot ln ! i
     in (ln_slot ln)[i := slot\<lparr> ls_chunk_id := k, ls_len := n, ls_data := memcpy_at (ls_data slot) 0 (take (unat n) d) \<rparr>])"
  by (simp_all add: lane_push_def Let_def)

lemma lane_push_inv:
  assumes "lane_inv ln" "chunk_fits a" "ln_count ln < LANE_SLOTS"
  shows "lane_inv (lane_push a ln)"
proof -
  obtain k n d where a: "a = (k, n, d)" by (metis prod_cases3)
  let ?j = "(ln_head ln + ln_count ln) mod LANE_SLOTS"
  have "?j < length (ln_slot ln)" using assms(1) by (simp add: lane_inv_def LANE_SLOTS_def)
  then have "length (ls_data (ln_slot ln ! ?j)) = unat CHUNK_BYTES" using assms(1) by (simp add: lane_inv_def)
  then have "length (memcpy_at (ls_data (ln_slot ln ! ?j)) 0 (take (unat n) d)) = unat CHUNK_BYTES"
    using assms(2) a by simp
  then show ?thesis
    using assms(1,3) unfolding a lane_inv_def lane_push_fields Let_def
    by (auto dest!: set_update_subset_insert [THEN subsetD])
qed

lemma lane_push_view:
  assumes "lane_inv ln" "chunk_fits a" "ln_count ln < LANE_SLOTS"
  shows "lane_view (lane_push a ln) = lane_view ln @ [chunk_content a]"
proof -
  obtain k n d where a: "a = (k, n, d)" by (metis prod_cases3)
  let ?j = "(ln_head ln + ln_count ln) mod LANE_SLOTS"
  define slot where "slot = (ln_slot ln ! ?j)\<lparr> ls_chunk_id := k, ls_len := n,
     ls_data := memcpy_at (ls_data (ln_slot ln ! ?j)) 0 (take (unat n) d) \<rparr>"
  have f: "ln_slot (lane_push a ln) = (ln_slot ln)[?j := slot]" "ln_count (lane_push a ln) = Suc (ln_count ln)"
    "ln_head (lane_push a ln) = ln_head ln"
    by (simp_all add: lane_push_def a Let_def slot_def)
  have j: "?j < length (ln_slot ln)" using assms(1) by (simp add: lane_inv_def LANE_SLOTS_def)
  then have "length (ls_data (ln_slot ln ! ?j)) = unat CHUNK_BYTES" using assms(1) by (simp add: lane_inv_def)
  then have "slot_chunk slot = chunk_content a"
    using assms(2) a by (simp add: slot_chunk_def slot_def memcpy_at_def)
  moreover have "?j \<noteq> (ln_head ln + i) mod LANE_SLOTS" if "i < ln_count ln" for i
    using that assms(3) by (rule slot_distinct)
  ultimately show ?thesis using j by (simp add: lane_view_def f)
qed

lemma lane_pop_inv: "lane_inv ln \<Longrightarrow> lane_inv (lane_pop ln)"
  by (auto simp: lane_inv_def lane_pop_def LANE_SLOTS_def)

lemma lane_pop_view:
  assumes "0 < ln_count ln"
  shows "lane_view (lane_pop ln) = tl (lane_view ln)"
proof -
  have e: "(Suc h mod LANE_SLOTS + i) mod LANE_SLOTS = Suc (h + i) mod LANE_SLOTS" for h i
    by (simp add: mod_simps)
  have "[0..<ln_count ln] = 0 # map Suc [0..<ln_count ln - 1]"
    using assms by (simp add: map_Suc_upt upt_conv_Cons)
  then show ?thesis by (simp add: lane_view_def lane_pop_def e comp_def)
qed

interpretation lane: bounded_fifo lane_inv lane_view lane_push lane_pop chunk_content chunk_fits LANE_SLOTS
  by unfold_locales (simp_all add: lane_push_inv lane_push_view lane_pop_inv lane_pop_view, simp add: lane_inv_def)

lemma lane_head:
  assumes "lane_inv ln" "0 < ln_count ln"
  shows "hd (lane_view ln) = slot_chunk (ln_slot ln ! ln_head ln)"
  using assms by (simp add: lane_view_def hd_map lane_inv_def upt_conv_Cons)

end
