(* ===== verification/Bulk_Delivery.thy ===== *)
theory Bulk_Delivery
  imports Bulk_Lane
begin

text \<open>
  What the receiver of channel C delivers (\<open>on_piece\<close>, \<open>rx_try_admit\<close>, \<open>recv_chunk\<close> in
  \<open>udp_channel_c.cpp\<close>): the invariant of its window, and the chunks that reach the lane and the
  application over any run of pieces and reads.  \<open>S\<close> is the set of pieces decoded so far.
\<close>

definition declared :: "piece set \<Rightarrow> rx_chunk \<Rightarrow> bool" where
  "declared S c \<longleftrightarrow> (\<exists>p\<in>S. pc_chunk_id p = rc_index c \<and> pc_chunk_len p = rc_len c \<and> pc_sha p = rc_sha c)"

text \<open>A delivered chunk: some piece announced its index, its length and the SHA-256 it has.\<close>

definition vouched :: "piece set \<Rightarrow> u32 \<times> bytes \<Rightarrow> bool" where
  "vouched S kd \<longleftrightarrow> (\<exists>p\<in>S. pc_chunk_id p = fst kd \<and> unat (pc_chunk_len p) = length (snd kd) \<and> pc_sha p = sha256 (snd kd))"

definition slot_inv :: "piece set \<Rightarrow> u32 \<Rightarrow> nat \<Rightarrow> rx_chunk \<Rightarrow> bool" where
  "slot_inv S base w c \<longleftrightarrow> length (rc_data c) = unat CHUNK_BYTES \<and>
     (rc_valid c \<longrightarrow> rc_index c = base + of_nat w \<and> unat base + w + 1 < 2 ^ 32 \<and> rc_len c \<le> CHUNK_BYTES \<and> declared S c \<and>
        unat (rc_total c) \<le> 16 \<and>
        (rc_complete c \<longrightarrow> rc_have c = full_mask (rc_total c) \<and> sha256 (take (unat (rc_len c)) (rc_data c)) = rc_sha c))"

definition win_inv :: "piece set \<Rightarrow> rx_state \<Rightarrow> bool" where
  "win_inv S rx \<longleftrightarrow> length (rx_win rx) = WINDOW_CHUNKS \<and> (\<forall>w < WINDOW_CHUNKS. slot_inv S (rx_base rx) w (rx_win rx ! w))"

definition rx_inv :: "piece set \<Rightarrow> channel \<Rightarrow> bool" where
  "rx_inv S ch \<longleftrightarrow> win_inv S (ch_rx ch) \<and> lane_inv (ch_lane ch) \<and> ch_selftest_mb ch \<le> 0"

lemma declared_mono: "declared S c \<Longrightarrow> S \<subseteq> T \<Longrightarrow> declared T c"
  by (auto simp: declared_def)

lemma rx_inv_mono: "rx_inv S ch \<Longrightarrow> S \<subseteq> T \<Longrightarrow> rx_inv T ch"
  using declared_mono by (fastforce simp: rx_inv_def win_inv_def slot_inv_def)

subsection \<open>The window as a pair\<close>

lemma win2: "length xs = WINDOW_CHUNKS \<longleftrightarrow> (\<exists>a b. xs = [a, b])"
  by (auto simp: WINDOW_CHUNKS_def numeral_2_eq_2 length_Suc_conv)

lemma less_window: "w < WINDOW_CHUNKS \<longleftrightarrow> w = 0 \<or> w = 1"
  by (auto simp: WINDOW_CHUNKS_def)

lemma win_inv_pair:
  "rx_win rx = [a, b] \<Longrightarrow> win_inv S rx \<longleftrightarrow> slot_inv S (rx_base rx) 0 a \<and> slot_inv S (rx_base rx) 1 b"
  by (auto simp: win_inv_def less_window) (simp add: WINDOW_CHUNKS_def)

lemma rx_shift_1_pair:
  "rx_win rx = [a, b] \<Longrightarrow> rx_shift_1 rx =
     rx\<lparr> rx_win := [b, b\<lparr> rc_valid := False, rc_complete := False, rc_have := 0 \<rparr>], rx_base := rx_base rx + 1 \<rparr>"
  by (simp add: rx_shift_1_def WINDOW_CHUNKS_def Let_def)

lemma rx_shift_next:
  assumes "unat (rx_base (ch_rx ch)) + 1 < 2 ^ 32" and "n = rx_base (ch_rx ch) + 1"
  shows "ch_rx (rx_shift ch n) = rx_shift_1 (ch_rx ch)"
proof -
  have "rx_base (ch_rx ch) < rx_base (ch_rx ch) + 1"
    using assms(1) by (intro less_plus_1_u32) (auto simp: unsigned_minus_1_eq_mask mask_eq_exp_minus_1)
  then show ?thesis
    by (simp add: assms(2) rx_shift_def Let_def rx_shift_loop.simps [of _ "ch_rx ch"] rx_shift_loop.simps [of _ "rx_shift_1 (ch_rx ch)"])
qed

lemma rx_shift_frame [simp]:
  "ch_lane (rx_shift ch n) = ch_lane ch" "ch_selftest_mb (rx_shift ch n) = ch_selftest_mb ch"
  by (simp_all add: rx_shift_def Let_def)

text \<open>What the bookkeeping and an acknowledgement leave alone.\<close>

lemma send_ack_frame [simp]:
  "ch_lane (send_ack ch now) = ch_lane ch" "ch_selftest_mb (send_ack ch now) = ch_selftest_mb ch"
  "rx_base (ch_rx (send_ack ch now)) = rx_base (ch_rx ch)" "rx_win (ch_rx (send_ack ch now)) = rx_win (ch_rx ch)"
  "ch_piece_max (send_ack ch now) = ch_piece_max ch"
  by (auto simp: send_ack_def emit_on_def Let_def split: option.split)

lemma count_frame [simp]:
  "ch_lane (count_dup ch) = ch_lane ch" "ch_rx (count_dup ch) = ch_rx ch" "ch_selftest_mb (count_dup ch) = ch_selftest_mb ch"
  "ch_lane (count_mismatch ch) = ch_lane ch" "ch_rx (count_mismatch ch) = ch_rx ch"
  "ch_selftest_mb (count_mismatch ch) = ch_selftest_mb ch"
  "ch_lane (count_out_of_window ch) = ch_lane ch" "ch_rx (count_out_of_window ch) = ch_rx ch"
  "ch_selftest_mb (count_out_of_window ch) = ch_selftest_mb ch"
  "ch_lane (count_sha_fail ch) = ch_lane ch" "ch_rx (count_sha_fail ch) = ch_rx ch"
  "ch_selftest_mb (count_sha_fail ch) = ch_selftest_mb ch"
  by (simp_all add: count_dup_def count_mismatch_def count_out_of_window_def count_sha_fail_def)

lemma put_slot_frame [simp]:
  "ch_lane (put_slot ch w c) = ch_lane ch" "ch_selftest_mb (put_slot ch w c) = ch_selftest_mb ch"
  "rx_base (ch_rx (put_slot ch w c)) = rx_base (ch_rx ch)" "rx_win (ch_rx (put_slot ch w c)) = (rx_win (ch_rx ch))[w := c]"
  "ch_piece_max (put_slot ch w c) = ch_piece_max ch"
  by (simp_all add: put_slot_def)

lemma rx_inv_cong:
  "ch_lane ch' = ch_lane ch \<Longrightarrow> rx_base (ch_rx ch') = rx_base (ch_rx ch) \<Longrightarrow> rx_win (ch_rx ch') = rx_win (ch_rx ch) \<Longrightarrow>
     ch_selftest_mb ch' = ch_selftest_mb ch \<Longrightarrow> rx_inv S ch' = rx_inv S ch"
  by (simp add: rx_inv_def win_inv_def)

lemma rx_inv_put:
  "rx_inv S ch \<Longrightarrow> w < WINDOW_CHUNKS \<Longrightarrow> slot_inv S (rx_base (ch_rx ch)) w c \<Longrightarrow> rx_inv S (put_slot ch w c)"
  by (auto simp: rx_inv_def win_inv_def nth_list_update)

subsection \<open>Admission\<close>

text \<open>Chunks in order from \<open>b\<close>, each vouched for.\<close>

fun chunks_from :: "piece set \<Rightarrow> u32 \<Rightarrow> (u32 \<times> bytes) list \<Rightarrow> u32 \<Rightarrow> bool" where
  "chunks_from S b [] b' = (b = b')"
| "chunks_from S b (kd # r) b' = (fst kd = b \<and> vouched S kd \<and> chunks_from S (b + 1) r b')"

lemma chunks_from_append:
  "chunks_from S b (xs @ ys) b' \<longleftrightarrow> (\<exists>m. chunks_from S b xs m \<and> chunks_from S m ys b')"
  by (induction xs arbitrary: b) auto

lemma chunks_from_mono: "chunks_from S b xs b' \<Longrightarrow> S \<subseteq> T \<Longrightarrow> chunks_from T b xs b'"
  by (induction xs arbitrary: b) (auto simp: vouched_def)

lemma chunks_from_ids: "chunks_from S b xs b' \<Longrightarrow> map fst xs = map (\<lambda>i. b + of_nat i) [0..<length xs] \<and> b' = b + of_nat (length xs)"
proof (induction xs arbitrary: b)
  case (Cons x xs)
  then have "map fst xs = map (\<lambda>i. b + 1 + of_nat i) [0..<length xs]" "b' = b + 1 + of_nat (length xs)" "fst x = b" by auto
  moreover have "[0..<length (x # xs)] = 0 # map Suc [0..<length xs]" by (simp add: map_Suc_upt upt_conv_Cons del: upt_Suc)
  ultimately show ?case by (simp add: add.assoc)
qed simp

definition admits :: "piece set \<Rightarrow> channel \<Rightarrow> (u32 \<times> bytes) list \<Rightarrow> channel \<Rightarrow> bool" where
  "admits S ch new ch' \<longleftrightarrow> rx_inv S ch' \<and> lane_view (ch_lane ch') = lane_view (ch_lane ch) @ new \<and>
     chunks_from S (rx_base (ch_rx ch)) new (rx_base (ch_rx ch'))"

lemma admits_refl: "rx_inv S ch \<Longrightarrow> admits S ch [] ch"
  by (simp add: admits_def)

lemma admits_trans: "admits S ch xs ch1 \<Longrightarrow> admits S ch1 ys ch2 \<Longrightarrow> admits S ch (xs @ ys) ch2"
  by (auto simp: admits_def chunks_from_append)

definition slot_content :: "rx_chunk \<Rightarrow> u32 \<times> bytes" where
  "slot_content c = (rc_index c, take (unat (rc_len c)) (rc_data c))"

lemma admit_step_admits:
  assumes inv: "rx_inv S ch" and step: "admit_step ch = (again, ch')"
  shows "if again then admits S ch [slot_content (rx_win (ch_rx ch) ! 0)] ch' \<and> rx_win (ch_rx ch') ! 0 = rx_win (ch_rx ch) ! 1 \<and> \<not> rc_valid (rx_win (ch_rx ch') ! 1)
    else admits S ch [] ch' \<and> ch_rx ch' = ch_rx ch \<and>
      (\<not> rc_valid (rx_win (ch_rx ch) ! 0) \<or> \<not> rc_complete (rx_win (ch_rx ch) ! 0) \<or> ln_count (ch_lane ch) = LANE_SLOTS)"
proof -
  obtain a b where win: "rx_win (ch_rx ch) = [a, b]" using inv by (auto simp: rx_inv_def win_inv_def win2)
  let ?base = "rx_base (ch_rx ch)"
  have si: "slot_inv S ?base 0 a" "slot_inv S ?base 1 b" and ln: "lane_inv (ch_lane ch)" and st: "ch_selftest_mb ch \<le> 0"
    using inv win_inv_pair [OF win] by (simp_all add: rx_inv_def)
  consider (wait) "\<not> (rc_valid a \<and> rc_complete a)" | (full) "rc_valid a" "rc_complete a" "ln_count (ch_lane ch) = LANE_SLOTS"
    | (room) "rc_valid a" "rc_complete a" "ln_count (ch_lane ch) < LANE_SLOTS"
    using ln by (fastforce simp: lane_inv_def)
  then show ?thesis
  proof cases
    case wait
    then have "again = False" "ch' = ch" using step win by (auto simp: admit_step_def Let_def)
    with wait win inv show ?thesis by (auto simp: admits_refl)
  next
    case full
    then have "again = False" and ch': "ch' = ch\<lparr> ch_lane := (ch_lane ch)\<lparr> ln_refused := ln_refused (ch_lane ch) + 1 \<rparr>,
        ch_s := (ch_s ch)\<lparr> st_lane_refused := ln_refused (ch_lane ch) + 1 \<rparr> \<rparr>"
      using step win by (auto simp: admit_step_def Let_def)
    moreover have "rx_inv S ch'" "lane_view (ch_lane ch') = lane_view (ch_lane ch)"
      using inv by (simp_all add: ch' rx_inv_def lane_inv_def lane_view_def)
    ultimately show ?thesis using full by (simp add: admits_def)
  next
    case room
    let ?a = "(rc_index a, rc_len a, rc_data a)"
    have fit: "chunk_fits ?a" using si(1) room(1) by (simp add: slot_inv_def word_le_nat_alt)
    have base: "unat ?base + 1 < 2 ^ 32" using si(1) room(1) by (simp add: slot_inv_def)
    then have ub: "unat (?base + 1) = unat ?base + 1"
      by (intro unat_plus_1_u32) (auto simp: unsigned_minus_1_eq_mask mask_eq_exp_minus_1)
    have e: "again = True" "ch_lane ch' = lane_push ?a (ch_lane ch)" "ch_rx ch' = rx_shift_1 (ch_rx ch)"
      "ch_selftest_mb ch' = ch_selftest_mb ch"
      using step win room st base by (auto simp: admit_step_def Let_def rx_shift_next)
    have push: "lane_inv (ch_lane ch')" "lane_view (ch_lane ch') = lane_view (ch_lane ch) @ [(rc_index a, take (unat (rc_len a)) (rc_data a))]"
      using lane.push_inv [OF ln fit] lane.push_view [OF ln fit] room(3) by (simp_all add: e(2))
    have "rx_win (ch_rx ch') = [b, b\<lparr> rc_valid := False, rc_complete := False, rc_have := 0 \<rparr>]" "rx_base (ch_rx ch') = ?base + 1"
      using rx_shift_1_pair [OF win] by (simp_all add: e(3))
    moreover from this si(2) ub have "win_inv S (ch_rx ch')"
      by (subst win_inv_pair) (auto simp: slot_inv_def)
    moreover have "vouched S (rc_index a, take (unat (rc_len a)) (rc_data a))"
      using si(1) room(1,2) fit by (auto simp: slot_inv_def declared_def vouched_def)
    moreover have "rc_index a = ?base" using si(1) room(1) by (simp add: slot_inv_def)
    ultimately show ?thesis using push st e(1,4) win by (auto simp: admits_def rx_inv_def slot_content_def)
  qed
qed

lemma admit_rounds_admits: "rx_inv S ch \<Longrightarrow> \<exists>new. admits S ch new (admit_rounds n ch)"
proof (induction n arbitrary: ch)
  case 0
  then show ?case using admits_refl by auto
next
  case (Suc n)
  obtain again ch1 where step: "admit_step ch = (again, ch1)" by fastforce
  note a = admit_step_admits [OF Suc.prems step]
  show ?case
  proof (cases again)
    case True
    let ?kd = "slot_content (rx_win (ch_rx ch) ! 0)"
    have 1: "admits S ch [?kd] ch1" using a True by simp
    then obtain new where 2: "admits S ch1 new (admit_rounds n ch1)" using Suc.IH [of ch1] by (auto simp: admits_def)
    have "admits S ch ([?kd] @ new) (admit_rounds (Suc n) ch)" using admits_trans [OF 1 2] True step by simp
    then show ?thesis ..
  next
    case False
    then have "admits S ch [] ch1" using a by simp
    with False step show ?thesis by auto
  qed
qed

text \<open>More rounds than \<open>rx_try_admit\<close> is given change nothing: its loop has ended.\<close>

lemma try_admit_stops:
  assumes inv: "rx_inv S ch"
  shows "admit_rounds (WINDOW_CHUNKS + 1 + n) ch = rx_try_admit ch"
proof -
  obtain g1 ch1 where 1: "admit_step ch = (g1, ch1)" by fastforce
  obtain g2 ch2 where 2: "admit_step ch1 = (g2, ch2)" by fastforce
  obtain g3 ch3 where 3: "admit_step ch2 = (g3, ch3)" by fastforce
  have "\<not> g3" if g: "g1" "g2"
  proof -
    from admit_step_admits [OF inv 1] g have i1: "rx_inv S ch1" "\<not> rc_valid (rx_win (ch_rx ch1) ! 1)" by (auto simp: admits_def)
    from admit_step_admits [OF i1(1) 2] g i1(2) have "\<not> rc_valid (rx_win (ch_rx ch2) ! 0)" by auto
    then show ?thesis using 3 by (simp add: admit_step_def Let_def)
  qed
  then show ?thesis using 1 2 3 by (simp add: rx_try_admit_def WINDOW_CHUNKS_def numeral_2_eq_2 numeral_3_eq_3)
qed

subsection \<open>A piece\<close>

lemma bit_full_mask: "unat n \<le> 16 \<Longrightarrow> bit (full_mask n) i \<longleftrightarrow> i < unat n"
  by (auto simp: full_mask_def bit_simps mask_eq_exp_minus_1 [symmetric] push_bit_eq_mult [of _ 1, simplified])

lemma and_bit_u16: "i < 16 \<Longrightarrow> x AND ucast (push_bit i (1 :: u32)) \<noteq> 0 \<longleftrightarrow> bit x i" for x :: u16
proof
  assume i: "i < 16" and n: "x AND ucast (push_bit i (1 :: u32)) \<noteq> 0"
  then obtain j where "bit (x AND ucast (push_bit i (1 :: u32))) j" by (metis bit_word_eqI zero_word_def bit_0_eq bot_apply bot_bool_def)
  then show "bit x i" by (auto simp: bit_simps)
next
  assume "i < 16" "bit x i"
  then have "bit (x AND ucast (push_bit i (1 :: u32))) i" by (auto simp: bit_simps)
  then show "x AND ucast (push_bit i (1 :: u32)) \<noteq> 0" by auto
qed

text \<open>Only the acknowledgement and the bookkeeping differ between two states with the same delivery part.\<close>

lemma admits_cong:
  "admits S ch new ch1 \<Longrightarrow> ch_lane ch' = ch_lane ch1 \<Longrightarrow> rx_base (ch_rx ch') = rx_base (ch_rx ch1) \<Longrightarrow>
     rx_win (ch_rx ch') = rx_win (ch_rx ch1) \<Longrightarrow> ch_selftest_mb ch' = ch_selftest_mb ch1 \<Longrightarrow> admits S ch new ch'"
  by (simp add: admits_def rx_inv_def win_inv_def)

lemma admits_from:
  "admits S ch1 new ch' \<Longrightarrow> ch_lane ch1 = ch_lane ch \<Longrightarrow> rx_base (ch_rx ch1) = rx_base (ch_rx ch) \<Longrightarrow> admits S ch new ch'"
  by (simp add: admits_def)

lemma piece_span:
  fixes off n pm :: u32
  assumes "off < n" and "n \<le> CHUNK_BYTES" and "k < 2 ^ 32" and "of_nat k = (if n - off > pm then pm else n - off)"
  shows "unat off + k \<le> unat n" "unat off + k \<le> unat CHUNK_BYTES"
proof -
  have "unat (of_nat k :: u32) = k" using assms(3) by (rule unat_of_nat_u32)
  then have "k \<le> unat (n - off)"
    using assms(4) by (cases "n - off > pm") (auto simp: word_less_nat_alt)
  moreover have "unat (n - off) = unat n - unat off" using assms(1) by (simp add: unat_sub order_less_imp_le)
  ultimately show "unat off + k \<le> unat n" using assms(1) by (simp add: word_less_nat_alt)
  then show "unat off + k \<le> unat CHUNK_BYTES" using assms(2) by (simp add: word_le_nat_alt)
qed

text \<open>The end of \<open>on_piece\<close>: the slot with the piece in it is stored, dropped or completed.\<close>

lemma absorb_admits:
  assumes inv: "rx_inv S ch" and w: "w < WINDOW_CHUNKS"
    and c: "slot_inv S (rx_base (ch_rx ch)) w c" "\<not> rc_complete c" "rc_valid c"
  shows "\<exists>new. admits S ch new
      (if rc_have c = full_mask (rc_total c) then
         if sha256 (take (unat (rc_len c)) (rc_data c)) \<noteq> rc_sha c then count_sha_fail (put_slot ch w (c\<lparr> rc_have := 0 \<rparr>))
         else send_ack (rx_try_admit (put_slot ch w (c\<lparr> rc_complete := True \<rparr>))) now
       else put_slot ch w c)"
proof -
  have s: "slot_inv S (rx_base (ch_rx ch)) w (c\<lparr> rc_have := 0 \<rparr>)"
    using c by (auto simp: slot_inv_def declared_def)
  consider (part) "rc_have c \<noteq> full_mask (rc_total c)"
    | (bad) "rc_have c = full_mask (rc_total c)" "sha256 (take (unat (rc_len c)) (rc_data c)) \<noteq> rc_sha c"
    | (good) "rc_have c = full_mask (rc_total c)" "sha256 (take (unat (rc_len c)) (rc_data c)) = rc_sha c"
    by blast
  then show ?thesis
  proof cases
    case part
    with rx_inv_put [OF inv w c(1)] show ?thesis by (intro exI [of _ "[]"]) (simp add: admits_def)
  next
    case bad
    have "rx_inv S (count_sha_fail (put_slot ch w (c\<lparr> rc_have := 0 \<rparr>)))"
      using rx_inv_put [OF inv w s] by (simp add: rx_inv_cong [of "count_sha_fail _" "put_slot ch w (c\<lparr> rc_have := 0 \<rparr>)"])
    with bad show ?thesis by (intro exI [of _ "[]"]) (simp add: admits_def)
  next
    case good
    let ?ch = "put_slot ch w (c\<lparr> rc_complete := True \<rparr>)"
    have "slot_inv S (rx_base (ch_rx ch)) w (c\<lparr> rc_complete := True \<rparr>)"
      using c good by (auto simp: slot_inv_def declared_def)
    then obtain new where "admits S ?ch new (rx_try_admit ?ch)"
      using admit_rounds_admits [OF rx_inv_put [OF inv w]] unfolding rx_try_admit_def by blast
    then have "admits S ch new (rx_try_admit ?ch)" by (rule admits_from) simp_all
    then have "admits S ch new (send_ack (rx_try_admit ?ch) now)" by (rule admits_cong) simp_all
    with good show ?thesis by auto
  qed
qed

lemma take_piece_admits:
  assumes inv: "rx_inv S ch" and w: "w < WINDOW_CHUNKS" and v: "rc_valid (rx_win (ch_rx ch) ! w)" and k: "length (pc_bytes p) < 2 ^ 32"
  shows "\<exists>new. admits S ch new (take_piece ch w p now)"
proof -
  let ?c = "rx_win (ch_rx ch) ! w" and ?base = "rx_base (ch_rx ch)"
  let ?bt = "ucast (push_bit (unat (pc_index p)) (1 :: u32)) :: u16"
  let ?pm = "of_nat (ch_piece_max ch) :: u32"
  let ?off = "ucast (pc_index p) * ?pm"
  let ?idx = "pc_index p \<ge> rc_total ?c \<or> ucast (pc_index p) \<ge> PIECES_PER_CHUNK" and ?dup = "rc_have ?c AND ?bt \<noteq> 0"
  let ?span = "rc_len ?c > CHUNK_BYTES \<or> ?off \<ge> rc_len ?c \<or> of_nat (length (pc_bytes p)) \<noteq>
         (if rc_len ?c - ?off > ?pm then ?pm else rc_len ?c - ?off)"
  define c1 where "c1 = ?c\<lparr> rc_data := memcpy_at (rc_data ?c) (unat ?off) (pc_bytes p), rc_have := rc_have ?c OR ?bt \<rparr>"
  have si: "slot_inv S ?base w ?c" using inv w by (simp add: rx_inv_def win_inv_def)
  note r = admits_refl [OF inv]
  have keep: "\<exists>new. admits S ch new ch" "\<exists>new. admits S ch new (count_dup ch)" "\<exists>new. admits S ch new (count_mismatch ch)"
    using r admits_cong [OF r, of "count_dup ch"] admits_cong [OF r, of "count_mismatch ch"] by auto
  show ?thesis
  proof (cases "?idx \<or> ?dup \<or> ?span")
    case True
    then consider "?idx" | "\<not> ?idx" "?dup" | "\<not> ?idx" "\<not> ?dup" "?span" by blast
    then show ?thesis unfolding take_piece_def Let_def by cases (simp_all only: if_True if_False keep not_False_eq_True)
  next
    case False
    then have i: "unat (pc_index p) < 16" "unat (pc_index p) < unat (rc_total ?c)"
      by (auto simp: PIECES_PER_CHUNK_def word_le_nat_alt unat_ucast_u16 not_le)
    have "unat (rc_total ?c) \<le> 16" using si v by (simp add: slot_inv_def)
    then have "full_mask (rc_total ?c) AND ?bt \<noteq> 0" using i by (simp only: and_bit_u16 bit_full_mask)
    then have nc: "\<not> rc_complete ?c" using False si v by (auto simp: slot_inv_def)
    have "unat ?off + length (pc_bytes p) \<le> unat CHUNK_BYTES"
      using False k by (intro piece_span(2) [of ?off "rc_len ?c"]) auto
    then have "slot_inv S ?base w c1" "\<not> rc_complete c1" "rc_valid c1"
      using si nc v by (auto simp: slot_inv_def c1_def declared_def)
    from absorb_admits [OF inv w this] show ?thesis
      using False nc unfolding take_piece_def Let_def c1_def by simp
  qed
qed

definition decoded :: "nat \<Rightarrow> bytes \<Rightarrow> piece set" where
  "decoded m payload = (case piece_decode payload m piece_init of (good, v, p) \<Rightarrow> if good then {p} else {})"

lemma window_index:
  fixes base k :: u32
  assumes "\<not> k < base" "\<not> base + of_nat WINDOW_CHUNKS \<le> k"
  shows "unat (k - base) < WINDOW_CHUNKS" "unat base + unat (k - base) + 1 < 2 ^ 32" "k = base + of_nat (unat (k - base))"
proof -
  have le: "base \<le> k" "k < base + 2" using assms by (simp_all add: WINDOW_CHUNKS_def not_less not_le)
  then have nb: "base < base + 2" by simp
  have m: "unat (base + 2) = (unat base + 2) mod 2 ^ 32" by (simp add: unat_word_ariths)
  have "unat base + 2 < 2 ^ 32"
  proof (rule ccontr)
    assume "\<not> unat base + 2 < 2 ^ 32"
    then have "(unat base + 2) mod 2 ^ 32 = unat base + 2 - 2 ^ 32"
      using unsigned_less [of base, where ?'a = nat] by (simp add: mod_if)
    then show False using nb m unsigned_less [of base, where ?'a = nat] by (simp add: word_less_nat_alt)
  qed
  then have "unat (base + 2) = unat base + 2" using m by simp
  moreover have d: "unat (k - base) = unat k - unat base" using le(1) by (rule unat_sub)
  ultimately show "unat (k - base) < WINDOW_CHUNKS" "unat base + unat (k - base) + 1 < 2 ^ 32"
    using le unsigned_less [of "base + 2", where ?'a = nat] by (auto simp: word_less_nat_alt word_le_nat_alt WINDOW_CHUNKS_def)
  show "k = base + of_nat (unat (k - base))" by simp
qed

lemma on_piece_admits:
  assumes inv: "rx_inv S ch" and on: "on_piece ch conn payload now = (good, ch')"
  shows "\<exists>new. admits (S \<union> decoded (ch_piece_max ch) payload) ch new ch'"
proof -
  obtain g v p where dec: "piece_decode payload (ch_piece_max ch) piece_init = (g, v, p)" by (metis prod_cases3)
  let ?T = "S \<union> decoded (ch_piece_max ch) payload"
  have invT: "rx_inv ?T ch" using inv by (rule rx_inv_mono) simp
  show ?thesis
  proof (cases g)
    case False
    then have "ch' = ch" using on dec by (simp add: on_piece_def)
    with admits_refl [OF invT] show ?thesis by auto
  next
    case True
    have pT: "p \<in> ?T" and ok: "piece_ok p (ch_piece_max ch)"
      using dec True piece_decode_ok(2) [of payload "ch_piece_max ch" piece_init v p] by (simp_all add: decoded_def)
    define c0 where "c0 = ch\<lparr> ch_rx := (ch_rx ch)\<lparr> rx_conn := conn, rx_last_piece_ms := stamp now \<rparr>,
        ch_s := (ch_s ch)\<lparr> st_rx_pieces := st_rx_pieces (ch_s ch) + 1 \<rparr> \<rparr>"
    have f: "ch_lane c0 = ch_lane ch" "rx_base (ch_rx c0) = rx_base (ch_rx ch)" "rx_win (ch_rx c0) = rx_win (ch_rx ch)"
      "ch_selftest_mb c0 = ch_selftest_mb ch" by (simp_all add: c0_def)
    have inv0: "rx_inv ?T c0" using invT by (simp add: rx_inv_cong [OF f])
    let ?base = "rx_base (ch_rx c0)" and ?k = "pc_chunk_id p"
    let ?w = "unat (?k - ?base)"
    let ?c = "rx_win (ch_rx c0) ! ?w"
    let ?n = "?c\<lparr> rc_valid := True, rc_complete := False, rc_index := ?k, rc_len := pc_chunk_len p, rc_total := pc_total p,
        rc_have := 0, rc_sha := pc_sha p \<rparr>"
    have e: "ch' = (if ?k < ?base then send_ack (count_dup c0) now
        else if ?k \<ge> ?base + of_nat WINDOW_CHUNKS then count_out_of_window c0
        else if \<not> rc_valid ?c then take_piece (put_slot c0 ?w ?n) ?w p now
        else if rc_index ?c \<noteq> ?k \<or> rc_len ?c \<noteq> pc_chunk_len p \<or> rc_total ?c \<noteq> pc_total p \<or> rc_sha ?c \<noteq> pc_sha p
          then count_mismatch c0
        else take_piece c0 ?w p now)"
      using on dec True unfolding on_piece_def Let_def c0_def [symmetric] by (auto split: if_splits)
    have k: "length (pc_bytes p) < 2 ^ 32" using ok by (simp add: piece_ok_def stride_ok_def)
    note r = admits_refl [OF inv0]
    have keep: "\<exists>new. admits ?T c0 new (send_ack (count_dup c0) now)" "\<exists>new. admits ?T c0 new (count_out_of_window c0)"
      "\<exists>new. admits ?T c0 new (count_mismatch c0)"
      using admits_cong [OF r, of "send_ack (count_dup c0) now"] admits_cong [OF r, of "count_out_of_window c0"]
        admits_cong [OF r, of "count_mismatch c0"] by auto
    have "\<exists>new. admits ?T c0 new ch'"
    proof (cases "?k < ?base \<or> ?k \<ge> ?base + of_nat WINDOW_CHUNKS")
      case True
      then show ?thesis unfolding e using keep by auto
    next
      case False
      then have w: "?w < WINDOW_CHUNKS" "unat ?base + ?w + 1 < 2 ^ 32" "?k = ?base + of_nat ?w"
        using window_index [of ?k ?base] by simp_all
      have "length (rc_data ?c) = unat CHUNK_BYTES" using inv0 w(1) by (simp add: rx_inv_def win_inv_def slot_inv_def)
      then have "slot_inv ?T ?base ?w ?n"
        using w(2,3) ok pT by (auto simp: slot_inv_def declared_def piece_ok_def stride_ok_def word_le_nat_alt CHUNK_BYTES_def CHUNK_MAX_def)
      then have inv1: "rx_inv ?T (put_slot c0 ?w ?n)" by (rule rx_inv_put [OF inv0 w(1)])
      have "length (rx_win (ch_rx c0)) = WINDOW_CHUNKS" using inv0 by (simp add: rx_inv_def win_inv_def)
      then have v1: "rc_valid (rx_win (ch_rx (put_slot c0 ?w ?n)) ! ?w)" using w(1) by simp
      have "\<exists>new. admits ?T c0 new (take_piece (put_slot c0 ?w ?n) ?w p now)"
        using take_piece_admits [OF inv1 w(1) v1 k] admits_from [where ch = c0] by fastforce
      moreover have "\<exists>new. admits ?T c0 new (take_piece c0 ?w p now)" if "rc_valid ?c"
        by (rule take_piece_admits [OF inv0 w(1) that k])
      ultimately show ?thesis unfolding e using False keep by auto
    qed
    then show ?thesis using admits_from f by blast
  qed
qed

lemma recv_chunk_admits:
  assumes inv: "rx_inv S ch" and rc: "recv_chunk ch cap clock = (r, ch')"
  shows "rx_inv S ch' \<and> (\<exists>new. (case r of None \<Rightarrow> [] | Some kd \<Rightarrow> [kd]) @ lane_view (ch_lane ch') = lane_view (ch_lane ch) @ new \<and>
    chunks_from S (rx_base (ch_rx ch)) new (rx_base (ch_rx ch')))"
proof (cases "ln_count (ch_lane ch) = 0 \<or> unat (ls_len (ln_slot (ch_lane ch) ! ln_head (ch_lane ch))) > cap")
  case True
  then have "r = None" "ch' = ch"
    using rc unfolding recv_chunk_def by (cases "ln_count (ch_lane ch) = 0"; simp add: Let_def)+
  with inv show ?thesis by simp
next
  case False
  let ?ln = "ch_lane ch" and ?s = "ch_s ch"
  let ?slot = "ln_slot ?ln ! ln_head ?ln"
  define c1 where "c1 = ch\<lparr> ch_lane := lane_pop ?ln,
     ch_s := ?s\<lparr> st_lane_drained := st_lane_drained ?s + 1, st_lane_depth := ln_count (lane_pop ?ln) \<rparr> \<rparr>"
  have ln: "lane_inv ?ln" "0 < ln_count ?ln" using inv False by (simp_all add: rx_inv_def)
  have "rx_inv S c1" using inv lane.pop_inv [OF ln(1)] ln(2) by (simp add: rx_inv_def c1_def)
  then obtain new where a: "admits S c1 new (rx_try_admit c1)" using admit_rounds_admits unfolding rx_try_admit_def by blast
  have e: "r = Some (slot_chunk ?slot)"
    "ch' = (if rx_base (ch_rx (rx_try_admit c1)) \<noteq> rx_base (ch_rx c1) then send_ack (rx_try_admit c1) clock else rx_try_admit c1)"
    using rc False unfolding recv_chunk_def Let_def slot_chunk_def c1_def by (auto split: if_splits)
  have "admits S c1 new ch'" unfolding e using admits_cong [OF a, of "send_ack (rx_try_admit c1) clock"] a by simp
  then have "rx_inv S ch'" "lane_view (ch_lane ch') = tl (lane_view ?ln) @ new"
    "chunks_from S (rx_base (ch_rx ch)) new (rx_base (ch_rx ch'))"
    using lane.pop_view [OF ln(1)] ln(2) by (simp_all add: admits_def c1_def)
  moreover have "slot_chunk ?slot # tl (lane_view ?ln) = lane_view ?ln"
    using lane_head [OF ln] ln(2) by (metis lane_view_nil list.collapse not_gr_zero)
  ultimately show ?thesis using e(1) by (metis append_Cons append_Nil option.simps(5))
qed

subsection \<open>Runs\<close>

datatype rx_event = Piece_In int bytes u32 | Read nat u32

fun rx_event_step :: "rx_event \<Rightarrow> channel \<Rightarrow> (u32 \<times> bytes) list \<times> channel" where
  "rx_event_step (Piece_In conn payload now) ch = ([], snd (on_piece ch conn payload now))"
| "rx_event_step (Read cap clock) ch =
     (case recv_chunk ch cap clock of (r, ch') \<Rightarrow> (case r of None \<Rightarrow> [] | Some kd \<Rightarrow> [kd], ch'))"

fun rx_run :: "rx_event list \<Rightarrow> channel \<Rightarrow> (u32 \<times> bytes) list \<times> channel" where
  "rx_run [] ch = ([], ch)"
| "rx_run (e # es) ch = (case rx_event_step e ch of (xs, ch1) \<Rightarrow> case rx_run es ch1 of (ys, ch') \<Rightarrow> (xs @ ys, ch'))"

fun event_pieces :: "nat \<Rightarrow> rx_event \<Rightarrow> piece set" where
  "event_pieces m (Piece_In conn payload now) = decoded m payload"
| "event_pieces m (Read cap clock) = {}"

lemma admit_step_max [simp]:
  "ch_selftest_mb ch \<le> 0 \<Longrightarrow> ch_piece_max (snd (admit_step ch)) = ch_piece_max ch \<and> ch_selftest_mb (snd (admit_step ch)) = ch_selftest_mb ch"
  by (simp add: admit_step_def rx_shift_def Let_def)

lemma admit_rounds_max:
  "ch_selftest_mb ch \<le> 0 \<Longrightarrow> ch_piece_max (admit_rounds n ch) = ch_piece_max ch"
proof (induction n arbitrary: ch)
  case (Suc n)
  obtain again ch1 where "admit_step ch = (again, ch1)" by fastforce
  with admit_step_max [OF Suc.prems] Suc.IH [of ch1] Suc.prems show ?case by simp
qed simp

lemma try_admit_max [simp]: "ch_selftest_mb ch \<le> 0 \<Longrightarrow> ch_piece_max (rx_try_admit ch) = ch_piece_max ch"
  unfolding rx_try_admit_def by (rule admit_rounds_max)

lemma count_max [simp]:
  "ch_piece_max (count_dup ch) = ch_piece_max ch" "ch_piece_max (count_mismatch ch) = ch_piece_max ch"
  "ch_piece_max (count_out_of_window ch) = ch_piece_max ch" "ch_piece_max (count_sha_fail ch) = ch_piece_max ch"
  by (simp_all add: count_dup_def count_mismatch_def count_out_of_window_def count_sha_fail_def)

lemma take_piece_max: "ch_selftest_mb ch \<le> 0 \<Longrightarrow> ch_piece_max (take_piece ch w p now) = ch_piece_max ch"
  by (simp add: take_piece_def Let_def)

lemma on_piece_max: "ch_selftest_mb ch \<le> 0 \<Longrightarrow> ch_piece_max (snd (on_piece ch conn payload now)) = ch_piece_max ch"
  by (auto simp: on_piece_def Let_def take_piece_max split: prod.split bool.split)

lemma recv_chunk_max: "ch_selftest_mb ch \<le> 0 \<Longrightarrow> ch_piece_max (snd (recv_chunk ch cap clock)) = ch_piece_max ch"
  by (simp add: recv_chunk_def Let_def)

lemma rx_event_step_spec:
  assumes inv: "rx_inv S ch" and step: "rx_event_step e ch = (xs, ch')"
  shows "let T = S \<union> event_pieces (ch_piece_max ch) e in rx_inv T ch' \<and> ch_piece_max ch' = ch_piece_max ch \<and>
    (\<exists>new. xs @ lane_view (ch_lane ch') = lane_view (ch_lane ch) @ new \<and>
      chunks_from T (rx_base (ch_rx ch)) new (rx_base (ch_rx ch')))"
proof (cases e)
  case (Piece_In conn payload now)
  obtain g c where on: "on_piece ch conn payload now = (g, c)" by fastforce
  then have "on_piece ch conn payload now = (g, ch')" "xs = []" using step Piece_In by simp_all
  with on_piece_admits [OF inv] on_piece_max [of ch conn payload now] inv show ?thesis
    by (fastforce simp: Piece_In admits_def rx_inv_def)
next
  case (Read cap clock)
  obtain r where "recv_chunk ch cap clock = (r, ch')" "xs = (case r of None \<Rightarrow> [] | Some kd \<Rightarrow> [kd])"
    using step Read by (auto split: prod.splits)
  with recv_chunk_admits [OF inv] recv_chunk_max [of ch cap clock] inv show ?thesis
    by (fastforce simp: Read rx_inv_def)
qed

lemma rx_run_spec:
  assumes "rx_run es ch = (outs, ch')" and "rx_inv S ch"
  shows "let T = S \<union> (\<Union>e\<in>set es. event_pieces (ch_piece_max ch) e) in rx_inv T ch' \<and>
    (\<exists>adm. outs @ lane_view (ch_lane ch') = lane_view (ch_lane ch) @ adm \<and>
      chunks_from T (rx_base (ch_rx ch)) adm (rx_base (ch_rx ch')))"
  using assms
proof (induction es arbitrary: ch outs S)
  case (Cons e es)
  obtain xs ch1 where 1: "rx_event_step e ch = (xs, ch1)" by fastforce
  obtain ys where 2: "rx_run es ch1 = (ys, ch')" "outs = xs @ ys" using Cons.prems(1) 1 by (auto split: prod.splits)
  let ?T1 = "S \<union> event_pieces (ch_piece_max ch) e"
  let ?T = "S \<union> (\<Union>e\<in>set (e # es). event_pieces (ch_piece_max ch) e)"
  from rx_event_step_spec [OF Cons.prems(2) 1] obtain new where a: "rx_inv ?T1 ch1" "ch_piece_max ch1 = ch_piece_max ch"
    "xs @ lane_view (ch_lane ch1) = lane_view (ch_lane ch) @ new" "chunks_from ?T1 (rx_base (ch_rx ch)) new (rx_base (ch_rx ch1))"
    by (auto simp: Let_def)
  have T: "?T1 \<union> (\<Union>e\<in>set es. event_pieces (ch_piece_max ch1) e) = ?T" using a(2) by auto
  from Cons.IH [OF 2(1) a(1)] obtain adm where b: "rx_inv ?T ch'" "ys @ lane_view (ch_lane ch') = lane_view (ch_lane ch1) @ adm"
    "chunks_from ?T (rx_base (ch_rx ch1)) adm (rx_base (ch_rx ch'))"
    unfolding T Let_def by blast
  have "chunks_from ?T (rx_base (ch_rx ch)) new (rx_base (ch_rx ch1))" using a(4) by (rule chunks_from_mono) auto
  then have "chunks_from ?T (rx_base (ch_rx ch)) (new @ adm) (rx_base (ch_rx ch'))"
    using b(3) by (auto simp: chunks_from_append)
  moreover have "outs @ lane_view (ch_lane ch') = lane_view (ch_lane ch) @ new @ adm"
    using a(3) b(2) 2(2) by (metis append.assoc)
  ultimately show ?case using b(1) unfolding Let_def by blast
qed simp

lemma chunks_from_vouched: "chunks_from S b xs b' \<Longrightarrow> \<forall>kd\<in>set xs. vouched S kd"
  by (induction xs arbitrary: b) auto

lemma channel0_inv: "rx_inv S (channel0\<lparr> ch_piece_max := m, ch_emit := f \<rparr>)"
  by (auto simp: rx_inv_def channel0_def win_inv_def rx0_def slot_inv_def rx_chunk0_def zero_chunk_def lane_inv_def lane0_def LANE_SLOTS_def)

subsection \<open>Every piece of a chunk delivers it\<close>

text \<open>Slot \<open>c\<close> assembles \<open>chunk\<close> at stride \<open>m\<close>: the pieces it has are the chunk's.\<close>

definition assembles :: "bytes \<Rightarrow> nat \<Rightarrow> rx_chunk \<Rightarrow> bool" where
  "assembles chunk m c \<longleftrightarrow> length chunk = unat (rc_len c) \<and> rc_sha c = sha256 chunk \<and> rc_total c = piece_count (rc_len c) m \<and>
     (\<forall>i < unat (rc_total c). bit (rc_have c) i \<longrightarrow>
        take m (drop (i * m) (take (unat (rc_len c)) (rc_data c))) = take m (drop (i * m) chunk))"

lemma take_drop_memcpy_same:
  assumes "off + length src \<le> n" "n \<le> length dst" "length src = min m (n - off)"
  shows "take m (drop off (take n (memcpy_at dst off src))) = src"
proof -
  have "take n (memcpy_at dst off src) = take off dst @ src @ take (n - off - length src) (drop (off + length src) dst)"
  proof -
    have "off \<le> n" "length src \<le> n - off" "off \<le> length dst" using assms(1,2) by auto
    then show ?thesis by (simp add: memcpy_at_def min.absorb2)
  qed
  moreover have "length src = m \<or> n - off - length src = 0" using assms(3) by auto
  ultimately show ?thesis using assms by auto
qed

lemma take_drop_memcpy_other:
  assumes "off + length src \<le> length dst" "b + m \<le> off \<or> off + length src \<le> b"
  shows "take m (drop b (take n (memcpy_at dst off src))) = take m (drop b (take n dst))"
proof (rule nth_equalityI)
  show "length (take m (drop b (take n (memcpy_at dst off src)))) = length (take m (drop b (take n dst)))"
    using assms(1) by simp
next
  fix i assume "i < length (take m (drop b (take n (memcpy_at dst off src))))"
  then have "i < m" "b + i < n" "b + i < length dst" using assms(1) by (simp_all add: less_diff_conv add.commute)
  then show "take m (drop b (take n (memcpy_at dst off src))) ! i = take m (drop b (take n dst)) ! i"
    using assms by (auto simp: nth_memcpy_at)
qed

lemma assembled_all:
  assumes a: "assembles chunk m c" and st: "stride_ok (rc_len c) m" and n: "unat (rc_total c) \<le> 16"
    and full: "rc_have c = full_mask (rc_total c)"
    and len: "unat (rc_len c) \<le> length (rc_data c)"
  shows "take (unat (rc_len c)) (rc_data c) = chunk"
proof -
  let ?n = "unat (rc_len c)" and ?k = "unat (rc_total c)"
  let ?d = "take ?n (rc_data c)"
  have cnt: "rc_total c = piece_count (rc_len c) m" and lc: "length chunk = ?n" using a by (simp_all add: assembles_def)
  have "take m (drop (i * m) ?d) = take m (drop (i * m) chunk)" if "i < ?k" for i
    using a that full bit_full_mask [OF n] by (simp add: assembles_def)
  then have "map (\<lambda>i. take m (drop (i * m) ?d)) [0..<?k] = map (\<lambda>i. take m (drop (i * m) chunk)) [0..<?k]" by simp
  then have "take (?k * m) ?d = take (?k * m) chunk" using concat_strides [of m _ ?k] by metis
  moreover have "?n \<le> ?k * m" using piece_index_iff [of ?k "rc_len c" m] st cnt by simp
  ultimately show ?thesis using len lc by simp
qed

text \<open>Slot \<open>c\<close> is open for \<open>chunk\<close>, the chunk with index \<open>k\<close>, and has the pieces \<open>D\<close>.\<close>

definition open_for :: "u32 \<Rightarrow> bytes \<Rightarrow> nat \<Rightarrow> nat set \<Rightarrow> rx_chunk \<Rightarrow> bool" where
  "open_for k chunk m D c \<longleftrightarrow> rc_valid c \<and> \<not> rc_complete c \<and> rc_index c = k \<and> assembles chunk m c \<and>
     stride_ok (rc_len c) m \<and> unat (rc_total c) \<le> 16 \<and> (\<forall>i < unat (rc_total c). bit (rc_have c) i \<longleftrightarrow> i \<in> D) \<and>
     (\<forall>i. bit (rc_have c) i \<longrightarrow> i < unat (rc_total c)) \<and> length (rc_data c) = unat CHUNK_BYTES"

lemma bit_or_u16: "i < 16 \<Longrightarrow> bit (x OR ucast (push_bit i (1 :: u32))) j \<longleftrightarrow> bit x j \<or> i = j" for x :: u16
  by (auto simp: bit_simps)

lemma open_for_add:
  assumes o: "open_for k chunk m D c" and i: "i < unat (rc_total c)"
    and c1: "c1 = c\<lparr> rc_data := memcpy_at (rc_data c) (i * m) (take m (drop (i * m) chunk)), rc_have := rc_have c OR ucast (push_bit i (1 :: u32)) \<rparr>"
  shows "open_for k chunk m (insert i D) c1"
proof -
  let ?n = "unat (rc_len c)"
  have a: "assembles chunk m c" and st: "stride_ok (rc_len c) m" and t: "unat (rc_total c) \<le> 16"
    and dl: "length (rc_data c) = unat CHUNK_BYTES" using o by (simp_all add: open_for_def)
  have lc: "length chunk = ?n" and cnt: "rc_total c = piece_count (rc_len c) m" using a by (simp_all add: assembles_def)
  have n: "?n \<le> length (rc_data c)" using st dl by (simp add: stride_ok_def CHUNK_BYTES_def CHUNK_MAX_def)
  have im: "i * m < ?n" using i st by (simp add: cnt piece_index_iff)
  have src: "length (take m (drop (i * m) chunk)) = min m (?n - i * m)" by (simp add: lc min.commute)
  have fit: "i * m + length (take m (drop (i * m) chunk)) \<le> ?n" using im lc by simp
  have h: "bit (rc_have c1) j \<longleftrightarrow> bit (rc_have c) j \<or> i = j" for j using bit_or_u16 [of i "rc_have c" j] i t by (simp add: c1)
  have new: "take m (drop (j * m) (take ?n (rc_data c1))) = take m (drop (j * m) chunk)"
    if j: "j < unat (rc_total c)" "bit (rc_have c1) j" for j
  proof (cases "j = i")
    case True
    with take_drop_memcpy_same [OF fit n src] show ?thesis by (simp add: c1)
  next
    case False
    then have "bit (rc_have c) j" using j(2) h by blast
    then have old: "take m (drop (j * m) (take ?n (rc_data c))) = take m (drop (j * m) chunk)"
      using a j(1) by (simp add: assembles_def)
    have "j * m + m \<le> i * m \<or> i * m + m \<le> j * m"
    proof (cases "j < i")
      case True
      then have "Suc j * m \<le> i * m" by (intro mult_le_mono1) simp
      then show ?thesis by simp
    next
      case False
      then have "Suc i * m \<le> j * m" using \<open>j \<noteq> i\<close> by (intro mult_le_mono1) simp
      then show ?thesis by simp
    qed
    then have "j * m + m \<le> i * m \<or> i * m + length (take m (drop (i * m) chunk)) \<le> j * m" using src by auto
    then have "take m (drop (j * m) (take ?n (rc_data c1))) = take m (drop (j * m) (take ?n (rc_data c)))"
      using take_drop_memcpy_other [of "i * m" "take m (drop (i * m) chunk)" "rc_data c" "j * m" m ?n] fit n by (simp add: c1)
    with old show ?thesis by simp
  qed
  have "assembles chunk m c1" using a new by (simp add: assembles_def) (simp add: c1)
  moreover have "length (rc_data c1) = unat CHUNK_BYTES" using fit n dl by (simp add: c1)
  ultimately show ?thesis using o h i by (auto simp: open_for_def c1)
qed

lemma bits_full: "unat n \<le> 16 \<Longrightarrow> \<forall>i. bit h i \<longleftrightarrow> i < unat n \<Longrightarrow> h = full_mask n" for h :: u16
  by (rule bit_word_eqI) (simp add: bit_full_mask)

text \<open>The tests of \<open>take_piece\<close> for the next piece of an open slot.\<close>

lemma take_piece_next:
  assumes o: "open_for k chunk (ch_piece_max ch) D c" and c: "c = rx_win (ch_rx ch) ! w"
    and i: "i < unat (rc_total c)" "i \<notin> D"
    and p: "unat (pc_index p) = i" "pc_bytes p = take (ch_piece_max ch) (drop (i * ch_piece_max ch) chunk)"
    and c1: "c1 = c\<lparr> rc_data := memcpy_at (rc_data c) (i * ch_piece_max ch) (take (ch_piece_max ch) (drop (i * ch_piece_max ch) chunk)),
        rc_have := rc_have c OR ucast (push_bit i (1 :: u32)) \<rparr>"
  shows "take_piece ch w p now =
      (if rc_have c1 = full_mask (rc_total c1) then
         if sha256 (take (unat (rc_len c1)) (rc_data c1)) \<noteq> rc_sha c1 then count_sha_fail (put_slot ch w (c1\<lparr> rc_have := 0 \<rparr>))
         else send_ack (rx_try_admit (put_slot ch w (c1\<lparr> rc_complete := True \<rparr>))) now
       else put_slot ch w c1)"
proof -
  let ?m = "ch_piece_max ch" and ?n = "unat (rc_len c)"
  let ?pm = "of_nat ?m :: u32" and ?bt = "ucast (push_bit (unat (pc_index p)) (1 :: u32)) :: u16"
  let ?off = "ucast (pc_index p) * ?pm"
  have a: "assembles chunk ?m c" and st: "stride_ok (rc_len c) ?m" and t: "unat (rc_total c) \<le> 16" and nc: "\<not> rc_complete c"
    using o by (simp_all add: open_for_def)
  have lc: "length chunk = ?n" and cnt: "rc_total c = piece_count (rc_len c) ?m" using a by (simp_all add: assembles_def)
  have m: "1 \<le> ?m" "?m \<le> 1100" and n: "?n \<le> 16384" using st by (simp_all add: stride_ok_def)
  have im: "i * ?m < ?n" using i(1) st by (simp add: cnt piece_index_iff)
  have um: "unat ?pm = ?m" using m by (simp add: unat_of_nat_u32)
  have ui: "unat (ucast (pc_index p) :: u32) = i" using p(1) by (simp add: unat_ucast_u16)
  have off: "unat ?off = i * ?m" using im n um ui by (simp add: unat_word_ariths)
  then have lt: "?off < rc_len c" using im by (simp add: word_less_nat_alt)
  then have left: "unat (rc_len c - ?off) = ?n - i * ?m" by (simp add: unat_sub off order_less_imp_le)
  have idx: "(pc_index p \<ge> rc_total c \<or> ucast (pc_index p) \<ge> PIECES_PER_CHUNK) = False"
    using i(1) t p(1) ui by (simp add: word_le_nat_alt PIECES_PER_CHUNK_def not_le)
  have "\<not> bit (rc_have c) (unat (pc_index p))" using o i p(1) by (simp add: open_for_def)
  then have dup: "(rc_have c AND ?bt \<noteq> 0) = False" using i(1) t p(1) by (simp only: and_bit_u16)
  have "unat (of_nat (length (pc_bytes p)) :: u32) = length (pc_bytes p)" using p(2) m by (intro unat_of_nat_u32) simp
  then have want: "of_nat (length (pc_bytes p)) = (if rc_len c - ?off > ?pm then ?pm else rc_len c - ?off)"
    using p(2) lc left um by (auto simp: word_unat_eq_iff word_less_nat_alt)
  have "?n \<le> unat CHUNK_BYTES" using n by (simp add: CHUNK_BYTES_def CHUNK_MAX_def)
  then have span: "(rc_len c > CHUNK_BYTES \<or> ?off \<ge> rc_len c \<or> of_nat (length (pc_bytes p)) \<noteq>
         (if rc_len c - ?off > ?pm then ?pm else rc_len c - ?off)) = False"
    using lt want by (simp add: word_less_nat_alt not_le not_less)
  have cs: "c1 = c\<lparr> rc_data := memcpy_at (rc_data c) (unat ?off) (pc_bytes p), rc_have := rc_have c OR ?bt \<rparr>"
    unfolding off c1 p by (rule refl)
  then have "rc_complete c1 = False" using nc by simp
  then show ?thesis
    unfolding take_piece_def Let_def c [symmetric] idx dup span if_False cs [symmetric] by simp
qed

text \<open>One piece of the chunk into an open slot: the slot stays open, or the chunk is admitted.\<close>

definition still_open :: "channel \<Rightarrow> u32 \<Rightarrow> bytes \<Rightarrow> u32 \<Rightarrow> nat set \<Rightarrow> channel \<Rightarrow> bool" where
  "still_open ch k chunk n D ch' \<longleftrightarrow> ch_lane ch' = ch_lane ch \<and> rx_base (ch_rx ch') = k \<and> ch_piece_max ch' = ch_piece_max ch \<and>
     D \<noteq> {..<unat (piece_count n (ch_piece_max ch))} \<and>
     open_for k chunk (ch_piece_max ch) D (rx_win (ch_rx ch') ! 0) \<and> rc_len (rx_win (ch_rx ch') ! 0) = n"

lemma completed_slot_admits:
  assumes inv: "rx_inv S ch" and room: "ln_count (ch_lane ch) < LANE_SLOTS"
    and c: "slot_inv S (rx_base (ch_rx ch)) 0 (c\<lparr> rc_complete := True \<rparr>)" "rc_valid c"
    and sc: "slot_content c = (k, chunk)"
  shows "\<exists>rest. admits S ch ((k, chunk) # rest) (send_ack (rx_try_admit (put_slot ch 0 (c\<lparr> rc_complete := True \<rparr>))) now)"
proof -
  let ?ch = "put_slot ch 0 (c\<lparr> rc_complete := True \<rparr>)"
  have win: "length (rx_win (ch_rx ch)) = WINDOW_CHUNKS" "0 < WINDOW_CHUNKS"
    using inv by (simp_all add: rx_inv_def win_inv_def WINDOW_CHUNKS_def)
  have inv1: "rx_inv S ?ch" using rx_inv_put [OF inv win(2) c(1)] .
  obtain g ch2 where s: "admit_step ?ch = (g, ch2)" by fastforce
  have w0: "rx_win (ch_rx ?ch) ! 0 = c\<lparr> rc_complete := True \<rparr>" using win by simp
  have g: "g" using admit_step_admits [OF inv1 s] w0 room c(2) by (auto split: if_splits)
  then have 1: "admits S ?ch [(k, chunk)] ch2"
    using admit_step_admits [OF inv1 s] sc unfolding w0 by (simp add: slot_content_def)
  then obtain rest where "admits S ch2 rest (admit_rounds WINDOW_CHUNKS ch2)"
    using admit_rounds_admits [of S ch2] by (auto simp: admits_def)
  with 1 have "admits S ?ch ((k, chunk) # rest) (rx_try_admit ?ch)"
    using admits_trans [of S ?ch "[(k, chunk)]" ch2 rest] g s by (simp add: rx_try_admit_def)
  then have "admits S ch ((k, chunk) # rest) (rx_try_admit ?ch)" by (rule admits_from) simp_all
  then have "admits S ch ((k, chunk) # rest) (send_ack (rx_try_admit ?ch) now)"
    by (rule admits_cong) simp_all
  then show ?thesis ..
qed

lemma take_piece_open:
  assumes inv: "rx_inv S ch" and room: "ln_count (ch_lane ch) < LANE_SLOTS" and k: "k = rx_base (ch_rx ch)"
    and o: "still_open ch k chunk n D ch" and i: "i < unat (piece_count n (ch_piece_max ch))"
    and p: "unat (pc_index p) = i" "pc_bytes p = take (ch_piece_max ch) (drop (i * ch_piece_max ch) chunk)"
  shows "(\<exists>rest. admits S ch ((k, chunk) # rest) (take_piece ch 0 p now)) \<or> still_open ch k chunk n (insert i D) (take_piece ch 0 p now)"
proof -
  let ?c = "rx_win (ch_rx ch) ! 0" and ?m = "ch_piece_max ch"
  define c1 where "c1 = ?c\<lparr> rc_data := memcpy_at (rc_data ?c) (i * ?m) (take ?m (drop (i * ?m) chunk)),
      rc_have := rc_have ?c OR ucast (push_bit i (1 :: u32)) \<rparr>"
  have oc: "open_for k chunk ?m D ?c" and n: "rc_len ?c = n" and D: "D \<noteq> {..<unat (piece_count n ?m)}"
    using o by (simp_all add: still_open_def)
  have t: "rc_total ?c = piece_count n ?m" "unat (rc_total ?c) \<le> 16" using oc n by (auto simp: open_for_def assembles_def)
  have it: "i < unat (rc_total ?c)" using i t by simp
  have win: "length (rx_win (ch_rx ch)) = WINDOW_CHUNKS" "0 < WINDOW_CHUNKS"
    using inv by (simp_all add: rx_inv_def win_inv_def WINDOW_CHUNKS_def)
  show ?thesis
  proof (cases "i \<in> D")
    case True
    then have "bit (rc_have ?c) (unat (pc_index p))" using oc it p(1) by (simp add: open_for_def)
    then have dup: "(rc_have ?c AND ucast (push_bit (unat (pc_index p)) (1 :: u32)) \<noteq> 0) = True" using it t p(1) by (simp only: and_bit_u16)
    have idx: "(pc_index p \<ge> rc_total ?c \<or> ucast (pc_index p) \<ge> PIECES_PER_CHUNK) = False"
      using it t p(1) by (simp add: word_le_nat_alt PIECES_PER_CHUNK_def not_le unat_ucast_u16)
    have "take_piece ch 0 p now = count_dup ch" unfolding take_piece_def Let_def dup idx if_True if_False by (rule refl)
    with o True show ?thesis by (simp add: still_open_def insert_absorb)
  next
    case False
    note e = take_piece_next [OF oc refl it False p c1_def, of now]
    have o1: "open_for k chunk ?m (insert i D) c1" by (rule open_for_add [OF oc it c1_def])
    have f1: "rc_len c1 = n" "rc_total c1 = rc_total ?c" "rc_sha c1 = rc_sha ?c" by (simp_all add: c1_def n)
    show ?thesis
    proof (cases "rc_have c1 = full_mask (rc_total c1)")
      case True
      have chunk: "take (unat (rc_len c1)) (rc_data c1) = chunk"
        using o1 t True f1 by (intro assembled_all [of chunk ?m]) (auto simp: open_for_def stride_ok_def CHUNK_BYTES_def CHUNK_MAX_def)
      have sha: "rc_sha c1 = sha256 chunk" using o1 by (simp add: open_for_def assembles_def)
      have "slot_inv S k 0 ?c" using inv k win by (simp add: rx_inv_def win_inv_def)
      then have "slot_inv S k 0 (c1\<lparr> rc_complete := True \<rparr>)"
        using o1 oc True chunk sha f1 t by (auto simp: slot_inv_def open_for_def declared_def c1_def)
      moreover have "slot_content c1 = (k, chunk)" "rc_valid c1" using o1 chunk by (simp_all add: slot_content_def open_for_def)
      ultimately show ?thesis
        using completed_slot_admits [OF inv room, of c1 k chunk now] k True chunk sha unfolding e by simp
    next
      case False
      have "insert i D \<noteq> {..<unat (rc_total c1)}"
      proof
        assume "insert i D = {..<unat (rc_total c1)}"
        then have "\<forall>j. bit (rc_have c1) j \<longleftrightarrow> j < unat (rc_total c1)" using o1 unfolding open_for_def by blast
        with bits_full [of "rc_total c1" "rc_have c1"] False t f1 show "False" by simp
      qed
      then have "insert i D \<noteq> {..<unat (piece_count n ?m)}" using f1 t by simp
      then show ?thesis using False o1 f1 win k unfolding e by (simp add: still_open_def)
    qed
  qed
qed

text \<open>The datagram payload of piece \<open>i\<close> of a chunk, as the sender writes it.\<close>

definition piece_payload :: "nat \<Rightarrow> bytes \<Rightarrow> u32 \<Rightarrow> nat \<Rightarrow> bytes" where
  "piece_payload m chunk k i =
     piece_encode (the (piece_for chunk (of_nat (length chunk)) k (of_nat i) (k * PIECES_PER_CHUNK + of_nat i) (sha256 chunk) m))
       (PIECE_HDR + PIECE_MAX)"

definition usable :: "nat \<Rightarrow> bytes \<Rightarrow> bool" where
  "usable m chunk \<longleftrightarrow> 0 < length chunk \<and> length chunk \<le> 16384 \<and> 1 \<le> m \<and> m \<le> 1100 \<and> length chunk \<le> 16 * m"

lemma usable_stride:
  assumes "usable m chunk"
  shows "unat (of_nat (length chunk) :: u32) = length chunk" "stride_ok (of_nat (length chunk)) m"
    "unat (piece_count (of_nat (length chunk)) m) \<le> 16"
proof -
  show l: "unat (of_nat (length chunk) :: u32) = length chunk" using assms by (intro unat_of_nat_u32) (simp add: usable_def)
  show "stride_ok (of_nat (length chunk)) m" using assms l by (simp add: stride_ok_def usable_def Suc_le_eq)
  show "unat (piece_count (of_nat (length chunk)) m) \<le> 16" using assms l by (simp add: piece_count_relayed usable_def)
qed

lemma piece_payload_decodes:
  assumes u: "usable m chunk" and i: "i < unat (piece_count (of_nat (length chunk)) m)"
  shows "\<exists>p. piece_decode (piece_payload m chunk k i) m piece_init = (True, Ok, p) \<and> pc_chunk_id p = k \<and> unat (pc_index p) = i \<and>
    pc_chunk_len p = of_nat (length chunk) \<and> pc_total p = piece_count (of_nat (length chunk)) m \<and> pc_sha p = sha256 chunk \<and>
    pc_bytes p = take m (drop (i * m) chunk)"
proof -
  note us = usable_stride [OF u]
  have ui: "unat (of_nat i :: u16) = i" using i us(3) by (intro unat_of_nat_u16) simp
  obtain p where p: "piece_for chunk (of_nat (length chunk)) k (of_nat i) (k * PIECES_PER_CHUNK + of_nat i) (sha256 chunk) m = Some p"
      "pc_chunk_id p = k" "pc_index p = of_nat i" "pc_total p = piece_count (of_nat (length chunk)) m"
      "pc_chunk_len p = of_nat (length chunk)" "pc_sha p = sha256 chunk" "pc_bytes p = take m (drop (i * m) chunk)"
    using piece_for_bytes [of chunk "of_nat (length chunk)" "of_nat i" m k "k * PIECES_PER_CHUNK + of_nat i" "sha256 chunk"] us(1) i ui by auto
  have "piece_ok p m" "length (pc_bytes p) \<le> PIECE_MAX"
    using p us i ui u length_sha256 by (simp_all add: piece_ok_def word_less_nat_alt PIECE_MAX_def usable_def SHA256_LEN_def min.coboundedI2)
  then show ?thesis using piece_decode_encode [of p m "PIECE_HDR + PIECE_MAX" piece_init] p ui by (auto simp: piece_payload_def)
qed

text \<open>The receiver waits for chunk \<open>k\<close> and has the pieces \<open>D\<close> of it.\<close>

definition ready :: "channel \<Rightarrow> u32 \<Rightarrow> bytes \<Rightarrow> nat set \<Rightarrow> channel \<Rightarrow> bool" where
  "ready ch k chunk D ch' \<longleftrightarrow> still_open ch k chunk (of_nat (length chunk)) D ch' \<or>
     (ch_lane ch' = ch_lane ch \<and> rx_base (ch_rx ch') = k \<and> ch_piece_max ch' = ch_piece_max ch \<and> D = {} \<and>
      \<not> rc_valid (rx_win (ch_rx ch') ! 0))"

lemma take_piece_ready:
  assumes inv: "rx_inv T c" and o: "still_open c k chunk (of_nat (length chunk)) D c"
    and ch: "ch_lane c = ch_lane ch" "ch_piece_max c = ch_piece_max ch" "rx_base (ch_rx c) = k" "rx_base (ch_rx ch) = k"
    and room: "ln_count (ch_lane ch) < LANE_SLOTS" and i: "i < unat (piece_count (of_nat (length chunk)) (ch_piece_max ch))"
    and p: "unat (pc_index p) = i" "pc_bytes p = take (ch_piece_max ch) (drop (i * ch_piece_max ch) chunk)" "length (pc_bytes p) < 2 ^ 32"
  shows "(\<exists>rest. admits T ch ((k, chunk) # rest) (take_piece c 0 p now)) \<or>
      (rx_inv T (take_piece c 0 p now) \<and> ready ch k chunk (insert i D) (take_piece c 0 p now))"
proof -
  have v: "rc_valid (rx_win (ch_rx c) ! 0)" using o by (simp add: still_open_def open_for_def)
  have w: "0 < WINDOW_CHUNKS" by (simp add: WINDOW_CHUNKS_def)
  have "rx_inv T (take_piece c 0 p now)" using take_piece_admits [OF inv w v p(3)] by (auto simp: admits_def)
  moreover have "ready ch k chunk (insert i D) (take_piece c 0 p now)"
    if "still_open c k chunk (of_nat (length chunk)) (insert i D) (take_piece c 0 p now)"
    using that ch by (simp add: ready_def still_open_def)
  moreover have "admits T ch new ch'" if "admits T c new ch'" for new ch'
    using that by (rule admits_from) (simp_all add: ch)
  moreover have "(\<exists>rest. admits T c ((k, chunk) # rest) (take_piece c 0 p now)) \<or>
      still_open c k chunk (of_nat (length chunk)) (insert i D) (take_piece c 0 p now)"
    using take_piece_open [OF inv _ ch(3) [symmetric] o, of i p now] room ch i p(1,2) by simp
  ultimately show ?thesis by blast
qed

lemma on_piece_ready:
  assumes inv: "rx_inv S ch" and room: "ln_count (ch_lane ch) < LANE_SLOTS"
    and k: "unat k + 2 < 2 ^ 32" and u: "usable (ch_piece_max ch) chunk"
    and r: "ready ch k chunk D ch" and i: "i < unat (piece_count (of_nat (length chunk)) (ch_piece_max ch))"
  shows "\<exists>T. (\<exists>rest. admits T ch ((k, chunk) # rest) (snd (on_piece ch conn (piece_payload (ch_piece_max ch) chunk k i) now))) \<or>
    (rx_inv T (snd (on_piece ch conn (piece_payload (ch_piece_max ch) chunk k i) now)) \<and>
     ready ch k chunk (insert i D) (snd (on_piece ch conn (piece_payload (ch_piece_max ch) chunk k i) now)))"
proof -
  let ?m = "ch_piece_max ch" and ?n = "of_nat (length chunk) :: u32"
  obtain p where p: "piece_decode (piece_payload ?m chunk k i) ?m piece_init = (True, Ok, p)" "pc_chunk_id p = k" "unat (pc_index p) = i"
    "pc_chunk_len p = ?n" "pc_total p = piece_count ?n ?m" "pc_sha p = sha256 chunk" "pc_bytes p = take ?m (drop (i * ?m) chunk)"
    using piece_payload_decodes [OF u i] by blast
  note us = usable_stride [OF u]
  have base: "rx_base (ch_rx ch) = k" using r by (auto simp: ready_def still_open_def)
  have ok: "piece_ok p ?m" using piece_decode_ok(2) [OF p(1)] .
  define c0 where "c0 = ch\<lparr> ch_rx := (ch_rx ch)\<lparr> rx_conn := conn, rx_last_piece_ms := stamp now \<rparr>,
      ch_s := (ch_s ch)\<lparr> st_rx_pieces := st_rx_pieces (ch_s ch) + 1 \<rparr> \<rparr>"
  have f: "ch_lane c0 = ch_lane ch" "rx_base (ch_rx c0) = k" "rx_win (ch_rx c0) = rx_win (ch_rx ch)"
    "ch_selftest_mb c0 = ch_selftest_mb ch" "ch_piece_max c0 = ?m" by (simp_all add: c0_def base)
  let ?c = "rx_win (ch_rx c0) ! 0"
  let ?o = "?c\<lparr> rc_valid := True, rc_complete := False, rc_index := k, rc_len := ?n, rc_total := piece_count ?n ?m,
        rc_have := 0, rc_sha := sha256 chunk \<rparr>"
  have nlt: "(k \<ge> k + of_nat WINDOW_CHUNKS) = False" "unat (k - k) = 0"
    using k by (simp_all add: WINDOW_CHUNKS_def word_le_nat_alt unat_word_ariths)
  have e: "snd (on_piece ch conn (piece_payload ?m chunk k i) now) =
      (if \<not> rc_valid ?c then take_piece (put_slot c0 0 ?o) 0 p now
       else if rc_index ?c \<noteq> k \<or> rc_len ?c \<noteq> ?n \<or> rc_total ?c \<noteq> piece_count ?n ?m \<or> rc_sha ?c \<noteq> sha256 chunk
         then count_mismatch c0
       else take_piece c0 0 p now)"
    using p(1-6) unfolding on_piece_def Let_def c0_def [symmetric] f(2) by (simp add: nlt)
  define T where "T = insert p S"
  have inv0: "rx_inv T c0" using rx_inv_mono [OF inv, of T] f base by (simp add: rx_inv_cong [of c0 ch] T_def subset_insertI)
  have win: "length (rx_win (ch_rx c0)) = WINDOW_CHUNKS" "0 < WINDOW_CHUNKS"
    using inv0 by (simp_all add: rx_inv_def win_inv_def WINDOW_CHUNKS_def)
  have l: "length (pc_bytes p) < 2 ^ 32" using ok by (simp add: piece_ok_def stride_ok_def)
  have step: "(\<exists>rest. admits T ch ((k, chunk) # rest) (take_piece c 0 p now)) \<or>
      (rx_inv T (take_piece c 0 p now) \<and> ready ch k chunk (insert i D) (take_piece c 0 p now))"
    if "rx_inv T c" "still_open c k chunk ?n D c" "ch_lane c = ch_lane ch" "ch_piece_max c = ?m" "rx_base (ch_rx c) = k" for c
    by (rule take_piece_ready [OF that(1-5) base room i p(3,7) l])
  show ?thesis
  proof (cases "rc_valid ?c")
    case True
    then have so: "still_open c0 k chunk ?n D c0" using r f by (simp add: ready_def still_open_def)
    then have ln: "rc_len ?c = ?n" and oc: "open_for k chunk ?m D ?c" unfolding still_open_def f(5) by blast+
    have "rc_index ?c = k" "rc_total ?c = piece_count ?n ?m" "rc_sha ?c = sha256 chunk"
      using oc unfolding open_for_def assembles_def ln by blast+
    then have "snd (on_piece ch conn (piece_payload ?m chunk k i) now) = take_piece c0 0 p now"
      using True \<open>rc_index ?c = k\<close> \<open>rc_total ?c = piece_count ?n ?m\<close> \<open>rc_sha ?c = sha256 chunk\<close> ln
      unfolding e by (simp only: if_False not_True_eq_False simp_thms)
    then show ?thesis using step [OF inv0 so f(1,5,2)] by auto
  next
    case False
    then have D: "D = {}" using r f by (auto simp: ready_def still_open_def open_for_def)
    have dl: "length (rc_data ?c) = unat CHUNK_BYTES" using inv0 win by (simp add: rx_inv_def win_inv_def slot_inv_def)
    have "declared T ?o" using p by (auto simp: declared_def T_def)
    then have "slot_inv T (rx_base (ch_rx c0)) 0 ?o"
      using dl k us u by (auto simp: slot_inv_def f usable_def word_le_nat_alt CHUNK_BYTES_def CHUNK_MAX_def)
    then have i1: "rx_inv T (put_slot c0 0 ?o)" by (rule rx_inv_put [OF inv0 win(2)])
    have "0 < unat (piece_count ?n ?m)" using i by simp
    then have "{} \<noteq> {..<unat (piece_count ?n ?m)}" by blast
    then have so: "still_open (put_slot c0 0 ?o) k chunk ?n D (put_slot c0 0 ?o)"
      using win dl us by (simp add: D still_open_def f open_for_def assembles_def)
    have "snd (on_piece ch conn (piece_payload ?m chunk k i) now) = take_piece (put_slot c0 0 ?o) 0 p now"
      using False unfolding e by simp
    then show ?thesis using step [OF i1 so] by (auto simp: f)
  qed
qed

definition feed :: "nat \<Rightarrow> bytes \<Rightarrow> u32 \<Rightarrow> int \<Rightarrow> (nat \<Rightarrow> u32) \<Rightarrow> nat list \<Rightarrow> channel \<Rightarrow> channel" where
  "feed m chunk k conn now is ch = foldl (\<lambda>ch i. snd (on_piece ch conn (piece_payload m chunk k i) (now i))) ch is"

lemma feed_grows:
  assumes "rx_inv S ch"
  shows "\<exists>new. lane_view (ch_lane (feed m chunk k conn now is ch)) = lane_view (ch_lane ch) @ new"
  using assms
proof (induction "is" arbitrary: S ch)
  case (Cons i "is")
  obtain g c where on: "on_piece ch conn (piece_payload m chunk k i) (now i) = (g, c)" by fastforce
  from on_piece_admits [OF Cons.prems on] Cons.IH [of _ c] on show ?case
    by (fastforce simp: admits_def feed_def)
qed (simp add: feed_def)

lemma feed_delivers:
  assumes "rx_inv S c" and "ready ch k chunk D c" and "ln_count (ch_lane ch) < LANE_SLOTS" and "unat k + 2 < 2 ^ 32"
    and "usable (ch_piece_max ch) chunk" and "D \<subseteq> {..<unat (piece_count (of_nat (length chunk)) (ch_piece_max ch))}"
    and "D \<union> set is = {..<unat (piece_count (of_nat (length chunk)) (ch_piece_max ch))}"
  shows "\<exists>rest. lane_view (ch_lane (feed (ch_piece_max ch) chunk k conn now is c)) = lane_view (ch_lane ch) @ (k, chunk) # rest"
  using assms
proof (induction "is" arbitrary: S c D)
  case Nil
  have "0 < length chunk" using Nil.prems(5) by (simp add: usable_def)
  then have "0 < unat (piece_count (of_nat (length chunk)) (ch_piece_max ch))"
    using piece_index_iff [of 0] usable_stride [OF Nil.prems(5)] by simp
  then have "{} \<noteq> {..<unat (piece_count (of_nat (length chunk)) (ch_piece_max ch))}" by blast
  with Nil.prems(2,7) show ?case by (auto simp: ready_def still_open_def)
next
  case (Cons i "is")
  let ?m = "ch_piece_max ch"
  let ?c = "snd (on_piece c conn (piece_payload ?m chunk k i) (now i))"
  have f: "ch_lane c = ch_lane ch" "ch_piece_max c = ?m" using Cons.prems(2) by (auto simp: ready_def still_open_def)
  have r: "ready c k chunk D c" using Cons.prems(2) f by (simp add: ready_def still_open_def)
  have i: "i < unat (piece_count (of_nat (length chunk)) ?m)" using Cons.prems(7) by auto
  have feed: "feed ?m chunk k conn now (i # is) c = feed ?m chunk k conn now is ?c" by (simp add: feed_def)
  from on_piece_ready [OF Cons.prems(1) _ Cons.prems(4) _ r, of i conn "now i"] Cons.prems(3,5) f i
  obtain T where "(\<exists>rest. admits T c ((k, chunk) # rest) ?c) \<or> (rx_inv T ?c \<and> ready c k chunk (insert i D) ?c)" by auto
  then show ?case
  proof
    assume "\<exists>rest. admits T c ((k, chunk) # rest) ?c"
    then obtain rest where a: "rx_inv T ?c" "lane_view (ch_lane ?c) = lane_view (ch_lane ch) @ (k, chunk) # rest"
      using f by (auto simp: admits_def)
    obtain new where "lane_view (ch_lane (feed ?m chunk k conn now is ?c)) = lane_view (ch_lane ?c) @ new"
      using feed_grows [OF a(1)] by blast
    with a(2) show ?thesis unfolding feed by simp
  next
    assume a: "rx_inv T ?c \<and> ready c k chunk (insert i D) ?c"
    then have "ready ch k chunk (insert i D) ?c" using f by (simp add: ready_def still_open_def)
    then show ?thesis unfolding feed using Cons.IH [of T ?c "insert i D"] a Cons.prems(3-7) by auto
  qed
qed

subsection \<open>Properties\<close>

text \<open>C13. Whatever pieces arrive, in whatever order, repeated, forged or damaged, and however the application
  reads, the chunks that leave the receiver (read, or waiting in the lane) are what was there before
  followed by chunks with consecutive indices from the old frontier to the new one, each once and none
  lost to an eviction; and each is vouched for: a decoded piece announced its index, its length and
  exactly the SHA-256 that its bytes have.\<close>

theorem chunks_delivered_in_order:
  assumes "rx_inv S ch" and "rx_run es ch = (outs, ch')"
  shows "\<exists>adm. outs @ lane_view (ch_lane ch') = lane_view (ch_lane ch) @ adm \<and>
    map fst adm = map (\<lambda>i. rx_base (ch_rx ch) + of_nat i) [0..<length adm] \<and>
    rx_base (ch_rx ch') = rx_base (ch_rx ch) + of_nat (length adm) \<and>
    (\<forall>kd\<in>set adm. vouched (S \<union> (\<Union>e\<in>set es. event_pieces (ch_piece_max ch) e)) kd)"
proof -
  obtain adm where a: "outs @ lane_view (ch_lane ch') = lane_view (ch_lane ch) @ adm"
    and c: "chunks_from (S \<union> (\<Union>e\<in>set es. event_pieces (ch_piece_max ch) e)) (rx_base (ch_rx ch)) adm (rx_base (ch_rx ch'))"
    using rx_run_spec [OF assms(2,1)] unfolding Let_def by blast
  show ?thesis using a chunks_from_ids [OF c] chunks_from_vouched [OF c] by blast
qed

theorem chunks_delivered_in_order_witness:
  "\<exists>outs ch' adm. rx_run [Piece_In 1 (piece_payload 1100 [7, 8] 0 0) 5, Read 100 9] (channel0\<lparr> ch_piece_max := 1100, ch_emit := None \<rparr>) = (outs, ch') \<and>
    outs @ lane_view (ch_lane ch') = lane_view (ch_lane (channel0\<lparr> ch_piece_max := 1100, ch_emit := None \<rparr>)) @ adm \<and>
    rx_base (ch_rx ch') = 0 + of_nat (length adm)"
proof -
  let ?ch = "channel0\<lparr> ch_piece_max := 1100, ch_emit := None \<rparr>"
  obtain outs ch' where r: "rx_run [Piece_In 1 (piece_payload 1100 [7, 8] 0 0) 5, Read 100 9] ?ch = (outs, ch')" by fastforce
  have "rx_base (ch_rx ?ch) = 0" by (simp add: channel0_def rx0_def)
  with chunks_delivered_in_order [OF channel0_inv [where S = "{}" and m = 1100 and f = None] r] r show ?thesis by auto
qed

text \<open>C14. A chunk arrives when its pieces do: once every piece that the sender cuts from a chunk has reached a
  receiver that waits for that chunk and has room in the lane, in any order and with any repeats, the
  chunk is in the lane, byte for byte and under its index.\<close>

theorem all_pieces_deliver:
  assumes "rx_inv S ch" and "ln_count (ch_lane ch) < LANE_SLOTS" and "\<not> rc_valid (rx_win (ch_rx ch) ! 0)"
    and "unat (rx_base (ch_rx ch)) + 2 < 2 ^ 32" and "usable (ch_piece_max ch) chunk"
    and "set is = {..<unat (piece_count (of_nat (length chunk)) (ch_piece_max ch))}"
  shows "\<exists>rest. lane_view (ch_lane (feed (ch_piece_max ch) chunk (rx_base (ch_rx ch)) conn now is ch)) =
    lane_view (ch_lane ch) @ (rx_base (ch_rx ch), chunk) # rest"
proof (rule feed_delivers [OF assms(1) _ assms(2,4,5), of "{}"])
  show "ready ch (rx_base (ch_rx ch)) chunk {} ch" using assms(3) by (simp add: ready_def)
qed (use assms(6) in simp_all)

theorem all_pieces_deliver_witness:
  "\<exists>rest. lane_view (ch_lane (feed 1100 [7, 8] 0 1 (\<lambda>_. 5) [0, 0] (channel0\<lparr> ch_piece_max := 1100, ch_emit := None \<rparr>))) =
    lane_view (ch_lane (channel0\<lparr> ch_piece_max := 1100, ch_emit := None \<rparr>)) @ (0, [7, 8]) # rest"
proof -
  let ?ch = "channel0\<lparr> ch_piece_max := 1100, ch_emit := None \<rparr>"
  have b: "rx_base (ch_rx ?ch) = 0" "ch_piece_max ?ch = 1100" by (simp_all add: channel0_def rx0_def)
  have "unat (piece_count 2 1100) = 1" by (simp add: unat_piece_count stride_ok_def)
  then have "set [0, 0] = {..<unat (piece_count (of_nat (length [7 :: u8, 8])) (ch_piece_max ?ch))}" using b by auto
  with all_pieces_deliver [OF channel0_inv [where S = "{}" and m = 1100 and f = None], of "[7, 8]" "[0, 0]" 1 "\<lambda>_. 5"] show ?thesis
    unfolding b by (simp add: channel0_def lane0_def rx0_def rx_chunk0_def LANE_SLOTS_def WINDOW_CHUNKS_def usable_def)
qed

end
