(* ===== verification/Bulk_Image.thy ===== *)
theory Bulk_Image
  imports Bulk_Sender Bulk_Delivery
begin

text \<open>
  What the sender of channel C puts on the wire (\<open>udp_channel_c.cpp\<close>): its window always holds chunks of
  the image it was started with, so every piece it emits is a piece of that image.
\<close>

subsection \<open>The image\<close>

definition image_chunk :: "tx_state \<Rightarrow> u32 \<Rightarrow> bytes" where
  "image_chunk tx k =
     (let start = k * CHUNK_BYTES; n = chunk_len_of tx k in
      case tx_src tx of
        Some src \<Rightarrow> src start n
      | None \<Rightarrow> (case tx_blob tx of
            Some blob \<Rightarrow> take (unat n) (drop (unat start) blob)
          | None \<Rightarrow> map (\<lambda>i. synth_byte (start + of_nat i)) [0..<unat n]))"

text \<open>The contract of the sources: a composer fills all it is asked for, a buffer is as long as announced.\<close>

definition source_ok :: "tx_state \<Rightarrow> bool" where
  "source_ok tx \<longleftrightarrow> (\<forall>src off n. tx_src tx = Some src \<longrightarrow> length (src off n) = unat n) \<and>
     (\<forall>blob. tx_blob tx = Some blob \<longrightarrow> unat (tx_blob_len tx) \<le> length blob)"

text \<open>The number of chunks is the one \<open>start_send\<close> computes.\<close>

definition chunks_ok :: "tx_state \<Rightarrow> bool" where
  "chunks_ok tx \<longleftrightarrow> unat (tx_chunks tx) = (unat (tx_blob_len tx) + 16383) div 16384 \<and> unat (tx_chunks tx) \<le> 0x0fffffff"

lemma CHUNK_BYTES_eq: "CHUNK_BYTES = 16384"
  by (simp add: CHUNK_BYTES_def CHUNK_MAX_def)

lemma chunk_start:
  assumes "chunks_ok tx" "k < tx_chunks tx"
  shows "unat (k * CHUNK_BYTES) = unat k * 16384" "unat k * 16384 < unat (tx_blob_len tx)"
proof -
  have k: "unat k < (unat (tx_blob_len tx) + 16383) div 16384" using assms by (simp add: chunks_ok_def word_less_nat_alt)
  then show lt: "unat k * 16384 < unat (tx_blob_len tx)" using less_ceil_div [of 16384 "unat k" "unat (tx_blob_len tx)"] by simp
  then show "unat (k * CHUNK_BYTES) = unat k * 16384"
    using unsigned_less [of "tx_blob_len tx", where ?'a = nat] by (simp add: unat_word_ariths CHUNK_BYTES_eq)
qed

lemma chunk_len:
  assumes "chunks_ok tx" "k < tx_chunks tx"
  shows "unat (chunk_len_of tx k) = min 16384 (unat (tx_blob_len tx) - unat k * 16384)"
proof -
  note s = chunk_start [OF assms]
  have "k * CHUNK_BYTES \<le> tx_blob_len tx" using s by (simp add: word_le_nat_alt)
  then have "unat (tx_blob_len tx - k * CHUNK_BYTES) = unat (tx_blob_len tx) - unat k * 16384" by (simp add: unat_sub s(1))
  then show ?thesis
    using assms(2) by (auto simp: chunk_len_of_def Let_def word_less_nat_alt word_le_nat_alt CHUNK_BYTES_eq)
qed

lemma chunk_len_pos: "chunks_ok tx \<Longrightarrow> k < tx_chunks tx \<Longrightarrow> 0 < unat (chunk_len_of tx k) \<and> unat (chunk_len_of tx k) \<le> 16384"
  using chunk_start(2) by (simp add: chunk_len)

lemma length_image_chunk:
  assumes "source_ok tx" "chunks_ok tx" "k < tx_chunks tx"
  shows "length (image_chunk tx k) = unat (chunk_len_of tx k)"
  using assms chunk_len [OF assms(2,3)] chunk_start [OF assms(2,3)]
  by (auto simp: image_chunk_def source_ok_def Let_def min_def split: option.split)

text \<open>The image is the whole blob: its chunks in order.\<close>

lemma image_is_blob:
  assumes "chunks_ok tx" "tx_src tx = None" "tx_blob tx = Some blob" "length blob = unat (tx_blob_len tx)"
  shows "concat (map (\<lambda>i. image_chunk tx (of_nat i)) [0..<unat (tx_chunks tx)]) = blob"
proof -
  have "image_chunk tx (of_nat i) = take 16384 (drop (i * 16384) blob)" if i: "i < unat (tx_chunks tx)" for i
  proof -
    have u: "unat (of_nat i :: u32) = i" using i assms(1) by (intro unat_of_nat_u32) (simp add: chunks_ok_def)
    then have lt: "of_nat i < tx_chunks tx" using i by (simp add: word_less_nat_alt)
    show ?thesis using chunk_len [OF assms(1) lt] chunk_start(1) [OF assms(1) lt] assms(2-4) u
      by (simp add: image_chunk_def Let_def min_def)
  qed
  then have "concat (map (\<lambda>i. image_chunk tx (of_nat i)) [0..<unat (tx_chunks tx)]) =
      concat (map (\<lambda>i. take 16384 (drop (i * 16384) blob)) [0..<unat (tx_chunks tx)])"
    by (intro arg_cong [where f = concat] map_cong) simp_all
  also have "\<dots> = take (unat (tx_chunks tx) * 16384) blob" by (rule concat_strides)
  also have "\<dots> = blob"
  proof -
    have "\<not> unat (tx_chunks tx) * 16384 < unat (tx_blob_len tx)"
      using less_ceil_div [of 16384 "unat (tx_chunks tx)" "unat (tx_blob_len tx)"] assms(1) by (simp add: chunks_ok_def)
    then show ?thesis using assms(4) by simp
  qed
  finally show ?thesis .
qed

subsection \<open>The window\<close>

text \<open>What a transfer keeps for its whole life.\<close>

definition same_image :: "tx_state \<Rightarrow> tx_state \<Rightarrow> bool" where
  "same_image tx tx' \<longleftrightarrow> tx_src tx' = tx_src tx \<and> tx_blob tx' = tx_blob tx \<and> tx_blob_len tx' = tx_blob_len tx \<and>
     tx_chunks tx' = tx_chunks tx"

lemma same_image_refl [simp]: "same_image tx tx"
  by (simp add: same_image_def)

lemma same_image_trans: "same_image a b \<Longrightarrow> same_image b c \<Longrightarrow> same_image a c"
  by (simp add: same_image_def)

lemma same_image_eqs:
  assumes "same_image tx tx'"
  shows "chunk_len_of tx' k = chunk_len_of tx k" "image_chunk tx' k = image_chunk tx k" "source_ok tx' = source_ok tx"
    "chunks_ok tx' = chunks_ok tx" "tx_chunks tx' = tx_chunks tx"
  using assms by (simp_all add: same_image_def chunk_len_of_def image_chunk_def source_ok_def chunks_ok_def Let_def cong: option.case_cong)

definition slot_holds :: "nat \<Rightarrow> tx_state \<Rightarrow> u32 \<Rightarrow> tx_chunk \<Rightarrow> bool" where
  "slot_holds m tx k c \<longleftrightarrow>
     (tc_valid c \<longrightarrow> tc_index c = k \<and> k < tx_chunks tx \<and> tc_len c = chunk_len_of tx k \<and> tc_total c = piece_count (tc_len c) m \<and>
        take (unat (tc_len c)) (tc_data c) = image_chunk tx k \<and> tc_sha c = sha256 (image_chunk tx k))"

definition tx_inv :: "nat \<Rightarrow> tx_state \<Rightarrow> bool" where
  "tx_inv m tx \<longleftrightarrow> source_ok tx \<and> chunks_ok tx \<and> length (tx_win tx) = WINDOW_CHUNKS \<and>
     (\<forall>w < WINDOW_CHUNKS. slot_holds m tx (tx_base tx + of_nat w) (tx_win tx ! w))"

lemma slot_holds_same: "same_image tx tx' \<Longrightarrow> slot_holds m tx' k c = slot_holds m tx k c"
  by (simp add: slot_holds_def same_image_eqs)

lemma tx_load_same: "same_image tx (tx_load m w k tx)"
  by (simp add: same_image_def tx_load_def Let_def)

lemma tx_load_win:
  "v \<noteq> w \<Longrightarrow> tx_win (tx_load m w k tx) ! v = tx_win tx ! v"
  "length (tx_win (tx_load m w k tx)) = length (tx_win tx)"
  by (simp_all add: tx_load_def Let_def)

lemma tx_load_holds:
  assumes "source_ok tx" "chunks_ok tx" "w < length (tx_win tx)"
  shows "slot_holds m tx k (tx_win (tx_load m w k tx) ! w)"
proof (cases "k < tx_chunks tx")
  case False
  then show ?thesis using assms(3) by (simp add: slot_holds_def tx_load_def Let_def not_less)
next
  case True
  note l = length_image_chunk [OF assms(1,2) True]
  have "fill_chunk tx k out (chunk_len_of tx k) = memcpy_at out 0 (image_chunk tx k)" for out
    by (simp add: fill_chunk_def image_chunk_def Let_def split: option.split)
  then have "take (unat (chunk_len_of tx k)) (fill_chunk tx k out (chunk_len_of tx k)) = image_chunk tx k" for out
    using l by (simp add: memcpy_at_def)
  then show ?thesis using assms(3) True by (simp add: slot_holds_def tx_load_def Let_def)
qed

lemma tx_load_all_inv:
  assumes "source_ok tx" "chunks_ok tx" "length (tx_win tx) = WINDOW_CHUNKS"
  shows "tx_inv m (tx_load_all m tx) \<and> same_image tx (tx_load_all m tx) \<and> tx_base (tx_load_all m tx) = tx_base tx"
proof -
  let ?a = "tx_load m 0 (tx_base tx) tx"
  let ?b = "tx_load m 1 (tx_base tx + 1) ?a"
  have e: "tx_load_all m tx = ?b" by (simp add: tx_load_all_def WINDOW_CHUNKS_def numeral_2_eq_2)
  have s1: "same_image tx ?a" and s2: "same_image tx ?b"
    using same_image_trans [OF tx_load_same tx_load_same] by (simp_all add: tx_load_same)
  have l: "length (tx_win ?a) = WINDOW_CHUNKS" using assms(3) by (simp add: tx_load_win)
  have "slot_holds m tx (tx_base tx) (tx_win ?a ! 0)"
    using tx_load_holds [OF assms(1,2), of 0] assms(3) slot_holds_same [OF s1] by (simp add: WINDOW_CHUNKS_def)
  then have "slot_holds m ?b (tx_base tx) (tx_win ?b ! 0)"
    using slot_holds_same [OF s2] tx_load_win(1) [of 0 1 m "tx_base tx + 1" ?a] by simp
  moreover have "slot_holds m ?b (tx_base tx + 1) (tx_win ?b ! 1)"
    using tx_load_holds [of ?a 1 m] l assms(1,2) same_image_eqs [OF s1] slot_holds_same [OF tx_load_same] by (simp add: WINDOW_CHUNKS_def)
  ultimately have "tx_inv m ?b"
    using assms l same_image_eqs [OF s2] by (auto simp: tx_inv_def less_window tx_load_win)
  then show ?thesis using s2 unfolding e by simp
qed

lemma tx_shift_inv:
  assumes "tx_inv m tx"
  shows "tx_inv m (tx_shift m tx) \<and> same_image tx (tx_shift m tx)"
proof -
  let ?t = "tx\<lparr> tx_win := (tx_win tx)[0 := tx_win tx ! 1], tx_base := tx_base tx + 1 \<rparr>"
  let ?b = "tx_load m 1 (tx_base tx + 1 + 1) ?t"
  have e: "tx_shift m tx = ?b" by (simp add: tx_shift_def Let_def WINDOW_CHUNKS_def)
  have s0: "same_image tx ?t" by (simp add: same_image_def)
  have s: "same_image tx ?b" by (rule same_image_trans [OF s0 tx_load_same])
  have l: "length (tx_win tx) = WINDOW_CHUNKS" and so: "source_ok tx" "chunks_ok tx"
    and h1: "slot_holds m tx (tx_base tx + 1) (tx_win tx ! 1)"
    using assms by (auto simp: tx_inv_def less_window)
  have lt: "length (tx_win ?t) = WINDOW_CHUNKS" using l by simp
  have "slot_holds m ?b (tx_base tx + 1) (tx_win ?b ! 0)"
    using h1 l slot_holds_same [OF s] tx_load_win(1) [of 0 1 m "tx_base tx + 1 + 1" ?t] by (simp add: WINDOW_CHUNKS_def)
  moreover have "slot_holds m ?b (tx_base tx + 1 + 1) (tx_win ?b ! 1)"
    using tx_load_holds [of ?t 1 m "tx_base tx + 1 + 1"] lt so same_image_eqs [OF s0] slot_holds_same [OF tx_load_same]
    by (simp add: WINDOW_CHUNKS_def)
  ultimately have "tx_inv m ?b"
    using so l same_image_eqs [OF s] by (auto simp: tx_inv_def less_window tx_load_win)
  then show ?thesis using s unfolding e by simp
qed

lemma tx_advance_inv:
  "tx_inv m tx \<Longrightarrow> tx_inv m (tx_advance m n tx) \<and> same_image tx (tx_advance m n tx) \<and>
     tx_base (tx_advance m n tx) = (if tx_base tx < n then n else tx_base tx)"
proof (induction m n tx rule: tx_advance.induct)
  case (1 m n tx)
  show ?case
  proof (cases "tx_base tx < n")
    case True
    have "tx_base tx + 1 < n \<or> tx_base tx + 1 = n" using inc_le [OF True] by auto
    with 1 True tx_shift_inv [OF "1.prems"] show ?thesis
      by (auto simp: tx_advance.simps [of m n tx] intro: same_image_trans)
  next
    case False
    with 1 show ?thesis by (simp add: tx_advance.simps [of m n tx])
  qed
qed

text \<open>The sender lands exactly on the frontier it is told, within its image.\<close>

lemma tx_seek_inv:
  assumes "tx_inv (ch_piece_max ch) (ch_tx ch)"
  shows "tx_inv (ch_piece_max ch) (ch_tx (tx_seek ch n)) \<and> same_image (ch_tx ch) (ch_tx (tx_seek ch n)) \<and>
    tx_base (ch_tx (tx_seek ch n)) = min n (tx_chunks (ch_tx ch)) \<and> ch_piece_max (tx_seek ch n) = ch_piece_max ch"
proof -
  let ?m = "ch_piece_max ch" and ?tx = "ch_tx ch"
  define k where "k = (if n > tx_chunks ?tx then tx_chunks ?tx else n)"
  define t where "t = (if k < tx_base ?tx then tx_load_all ?m (?tx\<lparr> tx_base := k \<rparr>) else ?tx)"
  have e: "ch_tx (tx_seek ch n) = tx_advance ?m k t" "ch_piece_max (tx_seek ch n) = ?m"
    by (simp_all add: tx_seek_def Let_def k_def t_def)
  have si: "same_image ?tx (?tx\<lparr> tx_base := k \<rparr>)" by (simp add: same_image_def)
  have "source_ok (?tx\<lparr> tx_base := k \<rparr>)" "chunks_ok (?tx\<lparr> tx_base := k \<rparr>)" "length (tx_win (?tx\<lparr> tx_base := k \<rparr>)) = WINDOW_CHUNKS"
    using assms same_image_eqs [OF si] by (simp_all add: tx_inv_def)
  note la = tx_load_all_inv [OF this, of ?m]
  have t: "tx_inv ?m t" "same_image ?tx t" "tx_base t = (if k < tx_base ?tx then k else tx_base ?tx)"
    using assms la same_image_trans [OF si] by (auto simp: t_def)
  note a = tx_advance_inv [OF t(1), of k]
  have "tx_base (tx_advance ?m k t) = k" using a t(3) by auto
  moreover have "k = min n (tx_chunks ?tx)" by (auto simp: k_def)
  ultimately show ?thesis using a same_image_trans [OF t(2)] unfolding e by auto
qed

lemma tx_load_active: "tx_active (tx_load m w i tx) = tx_active tx"
  by (simp add: tx_load_def Let_def)

lemma tx_advance_active: "tx_active (tx_advance m n tx) = tx_active tx"
  by (induction m n tx rule: tx_advance.induct)
    (subst tx_advance.simps, simp add: tx_shift_def Let_def tx_load_active)

lemma tx_seek_active: "tx_active (ch_tx (tx_seek ch n)) = tx_active (ch_tx ch)"
  by (simp add: tx_seek_def Let_def tx_advance_active tx_load_all_def WINDOW_CHUNKS_def numeral_2_eq_2 tx_load_active)

subsection \<open>Starting\<close>

lemma u64_chunks:
  "unat (((ucast n + ucast CHUNK_BYTES - 1) div ucast CHUNK_BYTES) :: u64) = (unat (n :: u32) + 16383) div 16384"
proof -
  have n: "unat n < 2 ^ 32" using unsigned_less [of n, where ?'a = nat] by simp
  have u: "unat (ucast n :: u64) = unat n" using n by (simp add: unsigned_ucast_eq take_bit_nat_eq_self)
  have e: "(ucast n + ucast CHUNK_BYTES - 1 :: u64) = ucast n + 16383" by (simp add: CHUNK_BYTES_eq)
  have "unat (ucast n + 16383 :: u64) = unat n + 16383" using n by (simp add: unat_word_ariths u)
  then show ?thesis unfolding e by (simp add: unat_div CHUNK_BYTES_eq)
qed

lemma start_send_inv:
  assumes s: "start_send ch conn pl blob len clock = (True, ch')" and b: "\<And>x. blob = Some x \<Longrightarrow> unat len \<le> length x"
  shows "tx_inv (ch_piece_max ch') (ch_tx ch') \<and> tx_base (ch_tx ch') = 0 \<and> tx_blob (ch_tx ch') = blob \<and>
    tx_src (ch_tx ch') = None \<and> tx_blob_len (ch_tx ch') = len \<and> ch_piece_max ch' = ch_piece_max ch"
proof -
  let ?chunks = "(ucast len + ucast CHUNK_BYTES - 1) div ucast CHUNK_BYTES :: u64"
  define t where "t = tx0\<lparr> tx_active := True, tx_conn := conn, tx_player := pl, tx_blob := blob, tx_blob_len := len,
      tx_chunks := ucast ?chunks, tx_base := 0, tx_last_progress_ms := clock \<rparr>"
  have c: "\<not> (?chunks = 0 \<or> ?chunks > 0x0fffffff)" and e: "ch_tx ch' = tx_load_all (ch_piece_max ch) t" "ch_piece_max ch' = ch_piece_max ch"
    using s by (auto simp: start_send_def Let_def t_def tx_load_all_def WINDOW_CHUNKS_def numeral_2_eq_2 split: if_splits)
  have u: "unat ?chunks = (unat len + 16383) div 16384" by (rule u64_chunks)
  have le: "unat ?chunks \<le> 0x0fffffff" using c by (simp add: word_less_nat_alt not_less)
  have "unat (ucast ?chunks :: u32) = unat ?chunks" using le by (simp add: unsigned_ucast_eq take_bit_nat_eq_self)
  then have "chunks_ok t" using u le by (simp add: chunks_ok_def t_def)
  moreover have "source_ok t" using b by (simp add: source_ok_def t_def tx0_def)
  moreover have "length (tx_win t) = WINDOW_CHUNKS" by (simp add: t_def tx0_def)
  ultimately show ?thesis using tx_load_all_inv [of t "ch_piece_max ch"] unfolding e by (auto simp: same_image_def t_def tx0_def)
qed

lemma start_send_src_inv:
  assumes s: "start_send_src ch conn pl src ctx len dc clock = (True, ch')" and b: "\<And>f off n. src = Some f \<Longrightarrow> length (f off n) = unat n"
  shows "tx_inv (ch_piece_max ch') (ch_tx ch') \<and> tx_base (ch_tx ch') = 0 \<and> tx_src (ch_tx ch') = src \<and> tx_blob_len (ch_tx ch') = len"
proof -
  obtain ch1 where 1: "start_send ch conn pl None len clock = (True, ch1)"
    and e: "ch_tx ch' = tx_load_all (ch_piece_max ch1) ((ch_tx ch1)\<lparr> tx_src := src, tx_src_ctx := ctx, tx_drop_cancels := dc \<rparr>)"
      "ch_piece_max ch' = ch_piece_max ch1"
    using s by (auto simp: start_send_src_def Let_def split: if_splits prod.splits bool.splits)
  let ?t = "(ch_tx ch1)\<lparr> tx_src := src, tx_src_ctx := ctx, tx_drop_cancels := dc \<rparr>"
  note i = start_send_inv [OF 1]
  have "source_ok ?t" "chunks_ok ?t" "length (tx_win ?t) = WINDOW_CHUNKS"
    using i b by (auto simp: source_ok_def tx_inv_def chunks_ok_def)
  from tx_load_all_inv [OF this, of "ch_piece_max ch1"] i show ?thesis unfolding e by (auto simp: same_image_def)
qed

subsection \<open>A piece out\<close>

lemma piece_for_take: "piece_for data n cid i sq sha m = piece_for (take (unat n) data) n cid i sq sha m"
proof (cases "unat i < unat (piece_count n m)")
  case False
  then have "unat (piece_count n m) \<le> unat i" by simp
  then show ?thesis using piece_for_none by metis
next
  case True
  then have ok: "stride_ok n m" and im: "unat i * m < unat n" by (simp_all add: piece_index_iff)
  then have m: "1 \<le> m" "m \<le> 1100" and n: "unat n \<le> 16384" by (simp_all add: stride_ok_def)
  let ?start = "ucast i * of_nat m :: u32"
  have um: "unat (of_nat m :: u32) = m" using m by (simp add: unat_of_nat_u32)
  have start: "unat ?start = unat i * m" using im n um by (simp add: unat_word_ariths unat_ucast_u16)
  then have left: "unat (n - ?start) = unat n - unat i * m" using im by (simp add: unat_sub word_le_nat_alt)
  define t where "t = (if unat (n - ?start) > m then of_nat m else n - ?start)"
  have "unat ?start + unat t \<le> unat n" using im left start um by (auto simp: t_def)
  then have "take (unat t) (drop (unat ?start) data) = take (unat t) (drop (unat ?start) (take (unat n) data))"
    by (simp add: drop_take min_def)
  then show ?thesis by (simp add: piece_for_def Let_def t_def)
qed

lemma emit_on_out: "ch_out (snd (emit_on ch conn pay)) = ch_out ch \<or> ch_out (snd (emit_on ch conn pay)) = ch_out ch @ [(conn, pay)]"
  by (simp add: emit_on_def split: option.split)

lemma emit_on_frame [simp]:
  "ch_tx (snd (emit_on ch conn pay)) = ch_tx ch" "ch_rx (snd (emit_on ch conn pay)) = ch_rx ch"
  "ch_piece_max (snd (emit_on ch conn pay)) = ch_piece_max ch"
  by (simp_all add: emit_on_def split: option.split)

text \<open>A payload that is a piece of the image of \<open>tx\<close>, from its window.\<close>

definition piece_of_image :: "nat \<Rightarrow> tx_state \<Rightarrow> bytes \<Rightarrow> bool" where
  "piece_of_image m tx pay \<longleftrightarrow> (\<exists>k i. k < tx_chunks tx \<and> (k = tx_base tx \<or> k = tx_base tx + 1) \<and>
     i < unat (piece_count (of_nat (length (image_chunk tx k))) m) \<and> pay = piece_payload m (image_chunk tx k) k i)"

text \<open>What the sending half may change in a step: the marks of the window, and the log.\<close>

definition sends :: "channel \<Rightarrow> emission list \<Rightarrow> channel \<Rightarrow> bool" where
  "sends ch new ch' \<longleftrightarrow> ch_out ch' = ch_out ch @ new \<and> ch_rx ch' = ch_rx ch \<and> ch_piece_max ch' = ch_piece_max ch \<and>
     tx_inv (ch_piece_max ch) (ch_tx ch') \<and> same_image (ch_tx ch) (ch_tx ch') \<and> tx_base (ch_tx ch') = tx_base (ch_tx ch) \<and>
     tx_conn (ch_tx ch') = tx_conn (ch_tx ch) \<and> tx_active (ch_tx ch') = tx_active (ch_tx ch) \<and>
     (\<forall>e\<in>set new. fst e = tx_conn (ch_tx ch) \<and> piece_of_image (ch_piece_max ch) (ch_tx ch) (snd e))"

lemma sends_refl: "tx_inv (ch_piece_max ch) (ch_tx ch) \<Longrightarrow> sends ch [] ch"
  by (simp add: sends_def)

lemma piece_of_image_same: "same_image tx tx' \<Longrightarrow> tx_base tx' = tx_base tx \<Longrightarrow> piece_of_image m tx' = piece_of_image m tx"
  by (simp add: fun_eq_iff piece_of_image_def same_image_eqs)

lemma sends_trans:
  assumes "sends a xs b" "sends b ys c"
  shows "sends a (xs @ ys) c"
proof -
  have "piece_of_image (ch_piece_max b) (ch_tx b) = piece_of_image (ch_piece_max a) (ch_tx a)"
    using assms(1) by (simp add: sends_def piece_of_image_same)
  then show ?thesis using assms same_image_trans by (auto simp: sends_def)
qed

lemma piece_of_image_slot:
  assumes inv: "tx_inv m tx" and w: "w < WINDOW_CHUNKS" and c: "c = tx_win tx ! w" "tc_valid c" "\<not> tc_total c \<le> pc"
    and p: "piece_for (tc_data c) (tc_len c) (tc_index c) pc (tc_index c * PIECES_PER_CHUNK + ucast pc) (tc_sha c) m = Some p"
  shows "piece_of_image m tx (piece_encode p (PIECE_HDR + PIECE_MAX))"
proof -
  let ?k = "tx_base tx + of_nat w" and ?i = "unat pc"
  have h: "slot_holds m tx ?k c" and so: "source_ok tx" "chunks_ok tx" using inv w c(1) by (simp_all add: tx_inv_def)
  then have f: "tc_index c = ?k" "?k < tx_chunks tx" "tc_len c = chunk_len_of tx ?k" "tc_total c = piece_count (tc_len c) m"
    "take (unat (tc_len c)) (tc_data c) = image_chunk tx ?k" "tc_sha c = sha256 (image_chunk tx ?k)"
    using c(2) unfolding slot_holds_def by blast+
  have len: "tc_len c = of_nat (length (image_chunk tx ?k))" using length_image_chunk [OF so f(2)] f(3) by simp
  have i: "?i < unat (piece_count (of_nat (length (image_chunk tx ?k))) m)"
    using c(3) f(4) len by (simp add: word_le_nat_alt)
  have "piece_for (image_chunk tx ?k) (tc_len c) ?k (of_nat ?i) (?k * PIECES_PER_CHUNK + of_nat ?i) (sha256 (image_chunk tx ?k)) m = Some p"
    using p piece_for_take [of "tc_data c"] f by (simp add: unsigned_ucast_eq)
  then have "piece_encode p (PIECE_HDR + PIECE_MAX) = piece_payload m (image_chunk tx ?k) ?k ?i"
    using len by (simp add: piece_payload_def)
  moreover have "?k = tx_base tx \<or> ?k = tx_base tx + 1" using w by (auto simp: less_window)
  ultimately show ?thesis using f(2) i by (auto simp: piece_of_image_def)
qed

lemma slot_marks:
  assumes "tx_inv m tx" "w < WINDOW_CHUNKS" "\<And>k. slot_holds m tx k c = slot_holds m tx k (tx_win tx ! w)"
  shows "tx_inv m (tx\<lparr> tx_win := (tx_win tx)[w := c] \<rparr>) \<and> same_image tx (tx\<lparr> tx_win := (tx_win tx)[w := c] \<rparr>)"
proof -
  let ?t = "tx\<lparr> tx_win := (tx_win tx)[w := c] \<rparr>"
  have s: "same_image tx ?t" by (simp add: same_image_def)
  show ?thesis using assms s same_image_eqs [OF s] slot_holds_same [OF s]
    by (auto simp: tx_inv_def nth_list_update)
qed

lemma send_piece_sends:
  assumes inv: "tx_inv (ch_piece_max ch) (ch_tx ch)" and w: "w < WINDOW_CHUNKS"
  shows "\<exists>new. length new \<le> 1 \<and> sends ch new (send_piece w pc now retx ch)"
proof -
  let ?m = "ch_piece_max ch" and ?tx = "ch_tx ch"
  define c where "c = tx_win ?tx ! w"
  show ?thesis
  proof (cases "tc_valid c \<and> \<not> tc_total c \<le> pc")
    case False
    then have "send_piece w pc now retx ch = ch" by (auto simp: send_piece_def c_def)
    with sends_refl [OF inv] show ?thesis by (intro exI [of _ "[]"]) simp
  next
    case True
    note pi = piece_of_image_slot [OF inv w c_def]
    show ?thesis
    proof (cases "piece_for (tc_data c) (tc_len c) (tc_index c) pc (tc_index c * PIECES_PER_CHUNK + ucast pc) (tc_sha c) ?m")
      case None
      then have "send_piece w pc now retx ch = ch" using True by (simp add: send_piece_def c_def)
      with sends_refl [OF inv] show ?thesis by (intro exI [of _ "[]"]) simp
    next
      case (Some p)
      let ?buf = "piece_encode p (PIECE_HDR + PIECE_MAX)"
      let ?e = "emit_on ch (tx_conn ?tx) ?buf"
      let ?c = "c\<lparr> tc_sent := (tc_sent c)[unat pc := stamp now] \<rparr>"
      have im: "piece_of_image ?m ?tx ?buf" using pi True Some by blast
      have "slot_holds ?m ?tx k ?c = slot_holds ?m ?tx k (tx_win ?tx ! w)" for k by (simp add: slot_holds_def c_def)
      note sm = slot_marks [OF inv w this]
      obtain ok ch1 where e: "?e = (ok, ch1)" by fastforce
      have f: "ch_tx ch1 = ?tx" "ch_rx ch1 = ch_rx ch" "ch_piece_max ch1 = ?m" using emit_on_frame [of ch "tx_conn ?tx" ?buf] e by simp_all
      obtain new where new: "ch_out ch1 = ch_out ch @ new" "length new \<le> 1" "set new \<subseteq> {(tx_conn ?tx, ?buf)}"
        using emit_on_out [of ch "tx_conn ?tx" ?buf] e by (cases "ch_out ch1 = ch_out ch") auto
      have s1: "sends ch new ch1" using inv f new im by (auto simp: sends_def)
      have "send_piece w pc now retx ch = ch \<or> send_piece w pc now retx ch = ch1 \<or>
          (\<exists>s. send_piece w pc now retx ch = ch1\<lparr> ch_tx := ?tx\<lparr> tx_win := (tx_win ?tx)[w := ?c] \<rparr>, ch_s := s \<rparr>)"
        using True Some e f by (cases ok) (auto simp: send_piece_def c_def Let_def)
      then show ?thesis
      proof (elim disjE exE)
        fix s assume "send_piece w pc now retx ch = ch1\<lparr> ch_tx := ?tx\<lparr> tx_win := (tx_win ?tx)[w := ?c] \<rparr>, ch_s := s \<rparr>"
        moreover have "sends ch new (ch1\<lparr> ch_tx := ?tx\<lparr> tx_win := (tx_win ?tx)[w := ?c] \<rparr>, ch_s := s \<rparr>)"
          using s1 sm by (simp add: sends_def)
        ultimately show ?thesis using new(2) by auto
      qed (use s1 new(2) sends_refl [OF inv] in \<open>auto intro: exI [of _ "[]"]\<close>)
    qed
  qed
qed

subsection \<open>A burst\<close>

text \<open>The budget counts what is emitted.\<close>

definition bursts :: "channel \<times> nat \<Rightarrow> channel \<times> nat \<Rightarrow> bool" where
  "bursts a b \<longleftrightarrow> (\<exists>new. sends (fst a) new (fst b) \<and> length new + snd b \<le> snd a)"

lemma bursts_refl: "tx_inv (ch_piece_max (fst a)) (ch_tx (fst a)) \<Longrightarrow> bursts a a"
  using sends_refl by (auto simp: bursts_def intro: exI [of _ "[]"])

lemma bursts_trans:
  assumes "bursts a b" "bursts b c"
  shows "bursts a c"
proof -
  obtain xs ys where "sends (fst a) xs (fst b)" "length xs + snd b \<le> snd a" "sends (fst b) ys (fst c)" "length ys + snd c \<le> snd b"
    using assms by (auto simp: bursts_def)
  then show ?thesis unfolding bursts_def using sends_trans by (intro exI [of _ "xs @ ys"]) fastforce
qed

lemma bursts_inv: "bursts a b \<Longrightarrow> tx_inv (ch_piece_max (fst b)) (ch_tx (fst b))"
  by (auto simp: bursts_def sends_def)

lemma fold_bursts:
  assumes "\<And>i b. i \<in> set xs \<Longrightarrow> tx_inv (ch_piece_max (fst b)) (ch_tx (fst b)) \<Longrightarrow> bursts b (f i b)"
    and "tx_inv (ch_piece_max (fst a)) (ch_tx (fst a))"
  shows "bursts a (fold f xs a)"
  using assms
proof (induction xs arbitrary: a)
  case (Cons i xs)
  from Cons.prems have "bursts a (f i a)" by simp
  with Cons bursts_inv bursts_trans show ?case by (metis (no_types, lifting) fold_simps(2) list.set_intros(1,2))
qed (simp add: bursts_refl)

lemma tick_piece_bursts:
  assumes "tx_inv (ch_piece_max (fst a)) (ch_tx (fst a))" "w < WINDOW_CHUNKS"
  shows "bursts a (tick_piece now rto fast w i a)"
proof -
  obtain ch budget where a: "a = (ch, budget)" by fastforce
  have "tick_piece now rto fast w i a = a \<or>
      (budget \<noteq> 0 \<and> (\<exists>retx. tick_piece now rto fast w i a = (send_piece w (of_nat i) now retx ch, budget - 1)))"
    unfolding tick_piece_def a Let_def by auto
  then show ?thesis
  proof (elim disjE exE conjE)
    fix retx assume b: "budget \<noteq> 0" and e: "tick_piece now rto fast w i a = (send_piece w (of_nat i) now retx ch, budget - 1)"
    obtain new where "length new \<le> 1" "sends ch new (send_piece w (of_nat i) now retx ch)"
      using send_piece_sends assms a by (metis fst_conv)
    then have "bursts a (send_piece w (of_nat i) now retx ch, budget - 1)" using b by (auto simp: bursts_def a)
    then show ?thesis by (simp only: e)
  qed (simp add: bursts_refl assms)
qed

lemma tick_send_sends:
  assumes "tx_inv (ch_piece_max ch) (ch_tx ch)"
  shows "\<exists>new. sends ch new (tick_send ch now) \<and> length new \<le> BULK_BURST"
proof -
  have slot: "bursts b (tick_slot now rto fast w b)"
    if "w \<in> set [0..<WINDOW_CHUNKS]" "tx_inv (ch_piece_max (fst b)) (ch_tx (fst b))" for rto fast w b
    using that fold_bursts [of _ "tick_piece now rto fast w" b] tick_piece_bursts bursts_refl
    by (auto simp: tick_slot_def Let_def split: prod.split)
  then have "bursts (ch, BULK_BURST) (fold (tick_slot now rto fast) [0..<WINDOW_CHUNKS] (ch, BULK_BURST))" for rto fast
    using assms by (intro fold_bursts) simp_all
  then show ?thesis unfolding tick_send_def Let_def bursts_def by (metis add_leE fst_conv snd_conv)
qed

end
