(* ===== verification/Bulk_Channel.thy ===== *)
theory Bulk_Channel
  imports Bulk_Image
begin

text \<open>
  Channel C as a whole (\<open>Channel::tick\<close> in \<open>udp_channel_c.cpp\<close>) and what its two halves promise each
  other: the sender puts only pieces of its own image on the wire, at most a burst per tick, and follows
  the receiver's frontier; an aborted transfer is over.
\<close>

text \<open>The send half of a tick: re-pinning the connection, then a burst on it.\<close>

definition tick_tx :: "channel \<Rightarrow> int \<Rightarrow> int \<Rightarrow> u32 \<Rightarrow> channel" where
  "tick_tx ch conn_idx player_id now =
     (let tx = ch_tx ch;
          ch = (if tx_active tx \<and> tx_player tx \<ge> 0 \<and> tx_player tx = player_id \<and> tx_conn tx \<noteq> conn_idx
                then ch\<lparr> ch_tx := tx\<lparr> tx_conn := conn_idx \<rparr>,
                        ch_s := (ch_s ch)\<lparr> st_tx_resumes := st_tx_resumes (ch_s ch) + 1 \<rparr> \<rparr>
                else ch)
      in if tx_active (ch_tx ch) \<and> tx_conn (ch_tx ch) = conn_idx then tick_send ch now else ch)"

definition channel_tick :: "channel \<Rightarrow> int \<Rightarrow> int \<Rightarrow> u32 \<Rightarrow> channel" where
  "channel_tick ch conn_idx player_id now =
     (let ch = tick_tx ch conn_idx player_id now; rx = ch_rx ch
      in if rx_conn rx = conn_idx \<and> rx_last_piece_ms rx \<noteq> 0 \<and> now - rx_last_piece_ms rx < 2000 \<and>
            now - rx_last_ack_ms rx \<ge> BULK_ACK_MS
         then send_ack ch now else ch)"

subsection \<open>A tick\<close>

lemma send_ack_out:
  "\<exists>acks. ch_out (send_ack ch now) = ch_out ch @ acks \<and> length acks \<le> 1 \<and>
     set acks \<subseteq> {(rx_conn (ch_rx ch), ack_payload (ch_rx ch))} \<and> ch_tx (send_ack ch now) = ch_tx ch \<and>
     ch_piece_max (send_ack ch now) = ch_piece_max ch"
  by (auto simp: send_ack_def emit_on_def Let_def split: option.split)

lemma channel_tick_split:
  "channel_tick ch c p now = tick_tx ch c p now \<or>
     (rx_conn (ch_rx (tick_tx ch c p now)) = c \<and> channel_tick ch c p now = send_ack (tick_tx ch c p now) now)"
  by (simp add: channel_tick_def Let_def)

lemma tick_tx_inactive: "\<not> tx_active (ch_tx ch) \<Longrightarrow> tick_tx ch c p now = ch"
  by (simp add: tick_tx_def Let_def)

lemma tx_inv_conn: "tx_inv m (tx\<lparr> tx_conn := c \<rparr>) = tx_inv m tx"
  by (simp add: tx_inv_def slot_holds_def source_ok_def chunks_ok_def chunk_len_of_def image_chunk_def Let_def
      cong: option.case_cong)

lemma tick_tx_spec:
  assumes inv: "tx_inv (ch_piece_max ch) (ch_tx ch)"
  shows "\<exists>new. ch_out (tick_tx ch c p now) = ch_out ch @ new \<and> length new \<le> BULK_BURST \<and>
    (\<forall>e\<in>set new. fst e = c \<and> piece_of_image (ch_piece_max ch) (ch_tx ch) (snd e)) \<and>
    ch_rx (tick_tx ch c p now) = ch_rx ch \<and> tx_inv (ch_piece_max ch) (ch_tx (tick_tx ch c p now)) \<and>
    ch_piece_max (tick_tx ch c p now) = ch_piece_max ch \<and> tx_active (ch_tx (tick_tx ch c p now)) = tx_active (ch_tx ch) \<and>
    tx_base (ch_tx (tick_tx ch c p now)) = tx_base (ch_tx ch) \<and> tx_chunks (ch_tx (tick_tx ch c p now)) = tx_chunks (ch_tx ch)"
proof -
  let ?tx = "ch_tx ch"
  define b where "b = (if tx_active ?tx \<and> tx_player ?tx \<ge> 0 \<and> tx_player ?tx = p \<and> tx_conn ?tx \<noteq> c
      then ch\<lparr> ch_tx := ?tx\<lparr> tx_conn := c \<rparr>, ch_s := (ch_s ch)\<lparr> st_tx_resumes := st_tx_resumes (ch_s ch) + 1 \<rparr> \<rparr>
      else ch)"
  have f: "ch_out b = ch_out ch" "ch_rx b = ch_rx ch" "ch_piece_max b = ch_piece_max ch" "tx_inv (ch_piece_max ch) (ch_tx b)"
    "same_image ?tx (ch_tx b)" "tx_base (ch_tx b) = tx_base ?tx" "tx_active (ch_tx b) = tx_active ?tx" "tx_chunks (ch_tx b) = tx_chunks ?tx"
    using inv by (simp_all add: b_def tx_inv_conn same_image_def)
  have e: "tick_tx ch c p now = (if tx_active (ch_tx b) \<and> tx_conn (ch_tx b) = c then tick_send b now else b)"
    by (simp only: tick_tx_def Let_def b_def)
  show ?thesis
  proof (cases "tx_active (ch_tx b) \<and> tx_conn (ch_tx b) = c")
    case False
    with e f show ?thesis by auto
  next
    case True
    obtain new where "sends b new (tick_send b now)" "length new \<le> BULK_BURST"
      using tick_send_sends [of b now] f(3,4) by auto
    with True e f piece_of_image_same [OF f(5,6)] show ?thesis by (auto simp: sends_def same_image_def)
  qed
qed

text \<open>A channel with a transfer of three bytes on connection 3, for the witnesses.\<close>

definition ex_channel :: channel where
  "ex_channel = snd (start_send channel0 3 1 (Some [1, 2, 3]) 3 9)"

lemma ex_started: "start_send channel0 3 1 (Some [1, 2, 3]) 3 9 = (True, ex_channel)"
proof -
  have "((ucast (3 :: u32) + ucast CHUNK_BYTES - 1) div ucast CHUNK_BYTES :: u64) = 1" by (simp add: CHUNK_BYTES_eq)
  then have "fst (start_send channel0 3 1 (Some [1, 2, 3]) 3 9)"
    by (simp add: start_send_def channel0_def tx0_def Let_def)
  then show ?thesis by (simp add: ex_channel_def prod_eq_iff)
qed

lemma start_send_live:
  assumes "start_send ch conn pl blob len clock = (True, ch')"
  shows "tx_active (ch_tx ch') \<and> tx_conn (ch_tx ch') = conn"
proof -
  have f: "tx_active (tx_load m w k tx) = tx_active tx" "tx_conn (tx_load m w k tx) = tx_conn tx" for m w k tx
    by (simp_all add: tx_load_def Let_def)
  have "tx_active (fold (\<lambda>w. tx_load m w (of_nat w)) ws tx) = tx_active tx \<and>
      tx_conn (fold (\<lambda>w. tx_load m w (of_nat w)) ws tx) = tx_conn tx" for m ws tx
    by (induction ws arbitrary: tx) (simp_all add: f)
  then show ?thesis using assms by (auto simp: start_send_def Let_def split: if_splits)
qed

lemma ex_live: "tx_inv (ch_piece_max ex_channel) (ch_tx ex_channel)" "tx_active (ch_tx ex_channel)" "tx_conn (ch_tx ex_channel) = 3"
  using start_send_inv [OF ex_started] start_send_live [OF ex_started] by auto

text \<open>A tick puts at most \<open>BULK_BURST\<close> pieces on the wire, all of them pieces of the sender's own
  image from its window, all on the connection of the tick, and then at most one acknowledgement, which
  is the receiver's frontier; without an active transfer it sends no piece.\<close>

theorem tick_sends_own_pieces:
  assumes "tx_inv (ch_piece_max ch) (ch_tx ch)"
  shows "\<exists>pieces acks. ch_out (channel_tick ch c p now) = ch_out ch @ pieces @ acks \<and>
    length pieces \<le> BULK_BURST \<and> length acks \<le> 1 \<and> (\<not> tx_active (ch_tx ch) \<longrightarrow> pieces = []) \<and>
    (\<forall>e\<in>set pieces. fst e = c \<and> piece_of_image (ch_piece_max ch) (ch_tx ch) (snd e)) \<and>
    (\<forall>e\<in>set acks. e = (c, ack_payload (ch_rx ch)))"
proof -
  obtain pieces where p: "ch_out (tick_tx ch c p now) = ch_out ch @ pieces" "length pieces \<le> BULK_BURST"
    "\<forall>e\<in>set pieces. fst e = c \<and> piece_of_image (ch_piece_max ch) (ch_tx ch) (snd e)" "ch_rx (tick_tx ch c p now) = ch_rx ch"
    using tick_tx_spec [OF assms] by blast
  have q: "\<not> tx_active (ch_tx ch) \<longrightarrow> pieces = []" using p(1) tick_tx_inactive [of ch c p now] by auto
  from channel_tick_split [of ch c p now] show ?thesis
  proof (elim disjE conjE)
    assume "channel_tick ch c p now = tick_tx ch c p now"
    with p q show ?thesis by (intro exI [of _ pieces] exI [of _ "[]"]) simp
  next
    assume r: "rx_conn (ch_rx (tick_tx ch c p now)) = c" "channel_tick ch c p now = send_ack (tick_tx ch c p now) now"
    obtain acks where "ch_out (channel_tick ch c p now) = ch_out (tick_tx ch c p now) @ acks" "length acks \<le> 1"
      "set acks \<subseteq> {(c, ack_payload (ch_rx ch))}"
      using send_ack_out [of "tick_tx ch c p now" now] r p(4) by auto
    with p q show ?thesis by (intro exI [of _ pieces] exI [of _ acks]) auto
  qed
qed

theorem tick_sends_own_pieces_witness:
  "\<exists>pieces acks. ch_out (channel_tick ex_channel 3 1 40) = ch_out ex_channel @ pieces @ acks \<and>
    length pieces \<le> BULK_BURST \<and> length acks \<le> 1"
  using tick_sends_own_pieces [OF ex_live(1), of 3 1 40] by blast

subsection \<open>An acknowledgement\<close>

lemma bit_fold_or:
  "bit (fold (\<lambda>i b. if P i then b OR push_bit (f i) 1 else b) [0..<n] b0) j \<longleftrightarrow>
     bit b0 j \<or> (\<exists>i<n. P i \<and> f i = j \<and> j < LENGTH('a))" for b0 :: "'a::len word"
  by (induction n) (auto simp: bit_simps less_Suc_eq)

lemma ucast_push_bit_u16: "ucast (push_bit i (1 :: u32)) = (push_bit i 1 :: u16)"
  by (rule bit_word_eqI) (auto simp: bit_simps)

lemma and_bit_u32: "x AND push_bit i 1 = 0 \<longleftrightarrow> i < 32 \<longrightarrow> \<not> bit x i" for x :: u32
proof
  assume "x AND push_bit i 1 = 0"
  then have "\<not> bit (x AND push_bit i 1) i" by simp
  then show "i < 32 \<longrightarrow> \<not> bit x i" by (auto simp: bit_simps)
next
  assume "i < 32 \<longrightarrow> \<not> bit x i"
  then show "x AND push_bit i 1 = 0" by (intro bit_word_eqI) (auto simp: bit_simps)
qed

lemma bit_ack_bitmap: "i < 16 \<Longrightarrow> bit (ack_bitmap h base) i \<longleftrightarrow> bit h (15 - i)"
proof -
  assume i: "i < 16"
  have "(0xffff0000 :: u32) = push_bit 16 0xffff" by simp
  then have hi: "\<not> bit (0xffff0000 :: u32) i" using i by (simp only: bit_push_bit_iff) simp
  have "bit (fold (\<lambda>i b. if h AND ucast (push_bit (15 - i) (1 :: u32)) \<noteq> 0 then b OR push_bit i 1 else b) [0..<16] (0 :: u32)) i
      \<longleftrightarrow> bit h (15 - i)"
    using i and_bit_u16 [of "15 - i" h] by (subst bit_fold_or) (auto simp del: push_bit_of_1)
  then show ?thesis using hi by (simp only: ack_bitmap_def Let_def split: if_splits) (auto simp: bit_simps)
qed

lemma bit_acked_by: "bit (acked_by w n a) j \<longleftrightarrow> bit a j \<or> (j < 16 \<and> bit w (15 - j) \<and> j < unat n)"
proof -
  have e: "acked_by w n a =
      fold (\<lambda>i a. if bit w i \<and> 15 - i < unat n then a OR push_bit (15 - i) 1 else a) [0..<16] a"
    unfolding acked_by_def
    by (intro fold_cong refl) (auto simp: and_bit_u32 ucast_push_bit_u16 fun_eq_iff simp del: push_bit_of_1)
  have "(\<exists>i<16. (bit w i \<and> 15 - i < unat n) \<and> 15 - i = j \<and> j < LENGTH(16)) \<longleftrightarrow> j < 16 \<and> bit w (15 - j) \<and> j < unat n"
    by (auto intro: exI [of _ "15 - j"])
  then show ?thesis unfolding e bit_fold_or by simp
qed

text \<open>What an acknowledgement does to a live transfer.\<close>

lemma on_ack_live:
  assumes "tx_active (ch_tx ch)" "tx_conn (ch_tx ch) = c" and b: "unat b < 2 ^ 28 - 1"
    and pay: "pay = [KIND_BULK_ACK] @ put_u32 ((b + 1) * PIECES_PER_CHUNK) @ put_u32 w"
  shows "on_ack ch c pay now = (True, follow_ack ch (min b (tx_chunks (ch_tx ch))) w now)"
proof -
  have u1: "unat (b + 1) = unat b + 1" using b by (simp add: unat_word_ariths)
  have u: "unat ((b + 1) * PIECES_PER_CHUNK) = (unat b + 1) * 16"
    using b u1 by (simp add: unat_word_ariths PIECES_PER_CHUNK_def)
  have m: "(b + 1) * PIECES_PER_CHUNK mod PIECES_PER_CHUNK = 0" "(b + 1) * PIECES_PER_CHUNK div PIECES_PER_CHUNK = b + 1"
    unfolding word_unat_eq_iff unat_mod unat_div u by (simp_all add: PIECES_PER_CHUNK_def u1)
  have ge: "\<not> (b + 1) * PIECES_PER_CHUNK < PIECES_PER_CHUNK"
    using u by (simp add: word_less_nat_alt) (simp add: PIECES_PER_CHUNK_def)
  have l: "length pay = BULK_ACK_LEN" "pay ! 0 = KIND_BULK_ACK" "get_u32 (drop 1 pay) = (b + 1) * PIECES_PER_CHUNK"
    "get_u32 (drop 5 pay) = w" unfolding pay by (simp_all add: BULK_ACK_LEN_def ACK_LEN_def)
  have k: "(if (b + 1 - 1) > tx_chunks (ch_tx ch) then tx_chunks (ch_tx ch) else (b + 1 - 1)) = min b (tx_chunks (ch_tx ch))"
    by (auto simp: min_def)
  show ?thesis unfolding on_ack_def Let_def l m k by (simp add: assms(1,2) ge)
qed

lemma tx_advance_stop: "\<not> tx_base tx < n \<Longrightarrow> tx_advance m n tx = tx"
  by (subst tx_advance.simps) simp

lemma tx_seek_here:
  assumes "tx_base (ch_tx ch) = min n (tx_chunks (ch_tx ch))"
  shows "ch_tx (tx_seek ch n) = ch_tx ch"
proof -
  have "(if n > tx_chunks (ch_tx ch) then tx_chunks (ch_tx ch) else n) = tx_base (ch_tx ch)" using assms by (auto simp: min_def)
  then show ?thesis by (simp add: tx_seek_def Let_def tx_advance_stop)
qed

lemma tx_seek_min: "tx_seek ch (min n (tx_chunks (ch_tx ch))) = tx_seek ch n"
proof -
  have "(if min n (tx_chunks (ch_tx ch)) > tx_chunks (ch_tx ch) then tx_chunks (ch_tx ch) else min n (tx_chunks (ch_tx ch))) =
      (if n > tx_chunks (ch_tx ch) then tx_chunks (ch_tx ch) else n)" by (auto simp: min_def)
  then show ?thesis by (simp only: tx_seek_def Let_def)
qed

lemma tx_inv_done: "tx_inv m (tx\<lparr> tx_active := False, tx_done := True \<rparr>) = tx_inv m tx"
  by (simp add: tx_inv_def slot_holds_def source_ok_def chunks_ok_def chunk_len_of_def image_chunk_def Let_def
      cong: option.case_cong)

text \<open>The transfer after an acknowledgement: sought to the frontier, slot 0 marked, over at the end.\<close>

definition mark_slot :: "u32 \<Rightarrow> u32 \<Rightarrow> tx_state \<Rightarrow> tx_state" where
  "mark_slot w now t =
     (let c = tx_win t ! 0 in
      if tc_valid c
      then t\<lparr> tx_win := (tx_win t)[0 := c\<lparr> tc_acked := acked_by w (tc_total c) (tc_acked c), tc_ack_ms := stamp now \<rparr>] \<rparr>
      else t)"

lemma follow_ack_tx:
  assumes inv: "tx_inv (ch_piece_max ch) (ch_tx ch)" and k: "k \<le> tx_chunks (ch_tx ch)"
  defines "t \<equiv> ch_tx (tx_seek ch k)"
  shows "ch_piece_max (follow_ack ch k w now) = ch_piece_max ch"
    "ch_tx (follow_ack ch k w now) = (if k < tx_chunks (ch_tx ch) then mark_slot w now t
       else (mark_slot w now t)\<lparr> tx_active := False, tx_done := True \<rparr>)"
proof -
  let ?m = "ch_piece_max ch" and ?n = "tx_chunks (ch_tx ch)"
  define ch1 where "ch1 = (if k \<noteq> tx_base (ch_tx ch) then tx_seek ch k else ch)"
  define ch2 where "ch2 = (let c = tx_win (ch_tx ch1) ! 0 in
           if tc_valid c \<and> tc_index c = k \<and> k = tx_base (ch_tx ch1)
           then ch1\<lparr> ch_tx := (ch_tx ch1)\<lparr> tx_win := (tx_win (ch_tx ch1))
                  [0 := c\<lparr> tc_acked := acked_by w (tc_total c) (tc_acked c), tc_ack_ms := stamp now \<rparr>] \<rparr> \<rparr>
           else ch1)"
  have 3: "follow_ack ch k w now =
      (if tx_base (ch_tx ch2) \<ge> tx_chunks (ch_tx ch2)
      then ch2\<lparr> ch_tx := (ch_tx ch2)\<lparr> tx_active := False, tx_done := True \<rparr>,
                ch_s := (ch_s ch2)\<lparr> st_tx_active := False, st_tx_done := True \<rparr> \<rparr>
      else ch2)"
    by (simp only: follow_ack_def Let_def ch2_def ch1_def)
  have kn: "min k ?n = k" using k by (simp add: min_def)
  have sk: "tx_inv ?m t" "same_image (ch_tx ch) t" "tx_base t = k"
    using tx_seek_inv [OF inv, of k] kn by (simp_all add: t_def)
  have t1: "ch_tx ch1 = t" "ch_piece_max ch1 = ?m"
    using tx_seek_here [of ch k] kn tx_seek_inv [OF inv, of k] by (auto simp: ch1_def t_def)
  have "tc_valid (tx_win t ! 0) \<Longrightarrow> tc_index (tx_win t ! 0) = k"
    using sk(1,3) by (auto simp: tx_inv_def slot_holds_def WINDOW_CHUNKS_def)
  then have t2: "ch_tx ch2 = mark_slot w now t" "ch_piece_max ch2 = ?m"
    using t1 sk(3) by (auto simp: ch2_def mark_slot_def Let_def)
  have "tx_base (mark_slot w now t) = k" "tx_chunks (mark_slot w now t) = ?n"
    using sk by (simp_all add: mark_slot_def Let_def same_image_def)
  with 3 t2 k show "ch_piece_max (follow_ack ch k w now) = ?m"
    "ch_tx (follow_ack ch k w now) = (if k < ?n then mark_slot w now t else (mark_slot w now t)\<lparr> tx_active := False, tx_done := True \<rparr>)"
    by auto
qed

lemma on_ack_tx:
  assumes inv: "tx_inv (ch_piece_max ch) (ch_tx ch)" and live: "tx_active (ch_tx ch)" "tx_conn (ch_tx ch) = c"
    and small: "unat b < 2 ^ 28 - 1" and pay: "pay = [KIND_BULK_ACK] @ put_u32 ((b + 1) * PIECES_PER_CHUNK) @ put_u32 w"
    and ch': "on_ack ch c pay now = (ok, ch')"
  defines "t \<equiv> ch_tx (tx_seek ch b)"
  shows "ok" "ch_piece_max ch' = ch_piece_max ch"
    "ch_tx ch' = (if b < tx_chunks (ch_tx ch) then mark_slot w now t
                  else (mark_slot w now t)\<lparr> tx_active := False, tx_done := True \<rparr>)"
proof -
  have e: "(min b (tx_chunks (ch_tx ch)) < tx_chunks (ch_tx ch)) = (b < tx_chunks (ch_tx ch))" by (auto simp: min_def)
  have "min b (tx_chunks (ch_tx ch)) \<le> tx_chunks (ch_tx ch)" by simp
  note f = follow_ack_tx [OF inv this, of w now, unfolded tx_seek_min e, folded t_def]
  from ch' show "ok" "ch_piece_max ch' = ch_piece_max ch" "ch_tx ch' = (if b < tx_chunks (ch_tx ch) then mark_slot w now t
                  else (mark_slot w now t)\<lparr> tx_active := False, tx_done := True \<rparr>)"
    unfolding on_ack_live [OF live small pay] prod.inject using f by blast+
qed

lemma mark_slot_inv:
  assumes "tx_inv m t"
  shows "tx_inv m (mark_slot w now t) \<and> same_image t (mark_slot w now t)" "tx_base (mark_slot w now t) = tx_base t"
    "tx_active (mark_slot w now t) = tx_active t"
proof -
  let ?c = "tx_win t ! 0"
  have "slot_holds m t k (?c\<lparr> tc_acked := acked_by w (tc_total ?c) (tc_acked ?c), tc_ack_ms := stamp now \<rparr>) =
      slot_holds m t k ?c" for k by (simp add: slot_holds_def)
  from slot_marks [OF assms _ this] assms
  show "tx_inv m (mark_slot w now t) \<and> same_image t (mark_slot w now t)" by (simp add: mark_slot_def Let_def WINDOW_CHUNKS_def)
qed (simp_all add: mark_slot_def Let_def)

lemma mark_slot_acked:
  assumes "tx_inv m t" "tc_valid (tx_win (mark_slot w now t) ! 0)"
  shows "bit (tc_acked (tx_win (mark_slot w now t) ! 0)) j \<longleftrightarrow> bit (tc_acked (tx_win t ! 0)) j \<or>
    j < 16 \<and> j < unat (tc_total (tx_win (mark_slot w now t) ! 0)) \<and> bit w (15 - j)"
  using assms by (auto simp: mark_slot_def Let_def bit_acked_by tx_inv_def WINDOW_CHUNKS_def split: if_splits)

text \<open>C15. The sender follows the receiver: the acknowledgement the receiver writes takes the sender to
  exactly the receiver's frontier (within its own image), with its window on the image again; the
  transfer is over exactly when that frontier is the end; and the pieces of the chunk at the frontier that
  the receiver has are exactly the ones that become acknowledged.\<close>

theorem sender_follows_receiver:
  assumes inv: "tx_inv (ch_piece_max ch) (ch_tx ch)" and live: "tx_active (ch_tx ch)" "tx_conn (ch_tx ch) = c"
    and small: "unat (rx_base rx) < 2 ^ 28 - 1"
    and ch': "on_ack ch c (ack_payload rx) now = (ok, ch')"
  shows "ok \<and> tx_inv (ch_piece_max ch') (ch_tx ch') \<and> same_image (ch_tx ch) (ch_tx ch') \<and>
    tx_base (ch_tx ch') = min (rx_base rx) (tx_chunks (ch_tx ch)) \<and>
    (tx_active (ch_tx ch') \<longleftrightarrow> rx_base rx < tx_chunks (ch_tx ch)) \<and>
    (tc_valid (tx_win (ch_tx ch') ! 0) \<longrightarrow> (\<forall>j. bit (tc_acked (tx_win (ch_tx ch') ! 0)) j \<longleftrightarrow>
       bit (tc_acked (tx_win (ch_tx (tx_seek ch (rx_base rx))) ! 0)) j \<or>
       j < 16 \<and> j < unat (tc_total (tx_win (ch_tx ch') ! 0)) \<and>
       rc_valid (rx_win rx ! 0) \<and> rc_index (rx_win rx ! 0) = rx_base rx \<and> bit (rc_have (rx_win rx ! 0)) j))"
proof -
  define h where "h = (if rc_valid (rx_win rx ! 0) \<and> rc_index (rx_win rx ! 0) = rx_base rx then rc_have (rx_win rx ! 0) else 0)"
  define w where "w = ack_bitmap h (rx_base rx)"
  define t where "t = ch_tx (tx_seek ch (rx_base rx))"
  have pay: "ack_payload rx = [KIND_BULK_ACK] @ put_u32 ((rx_base rx + 1) * PIECES_PER_CHUNK) @ put_u32 w"
    by (simp add: ack_payload_def Let_def w_def h_def)
  note a = on_ack_tx [OF inv live small pay ch', folded t_def]
  have sk: "tx_inv (ch_piece_max ch) t" "same_image (ch_tx ch) t" "tx_base t = min (rx_base rx) (tx_chunks (ch_tx ch))"
    "tx_active t" using tx_seek_inv [OF inv, of "rx_base rx"] tx_seek_active live(1) by (simp_all add: t_def)
  note i = mark_slot_inv [OF sk(1), of w now] and b = mark_slot_acked [OF sk(1), of w now]
  have "j < 16 \<and> bit w (15 - j) \<longleftrightarrow> j < 16 \<and> bit h j" for j
    using bit_ack_bitmap [of "15 - j" h "rx_base rx"] by (auto simp: w_def)
  moreover have "bit h j \<longleftrightarrow> rc_valid (rx_win rx ! 0) \<and> rc_index (rx_win rx ! 0) = rx_base rx \<and> bit (rc_have (rx_win rx ! 0)) j" for j
    by (auto simp: h_def)
  ultimately have bits: "tc_valid (tx_win (mark_slot w now t) ! 0) \<Longrightarrow>
      bit (tc_acked (tx_win (mark_slot w now t) ! 0)) j \<longleftrightarrow> bit (tc_acked (tx_win t ! 0)) j \<or>
       j < 16 \<and> j < unat (tc_total (tx_win (mark_slot w now t) ! 0)) \<and>
       rc_valid (rx_win rx ! 0) \<and> rc_index (rx_win rx ! 0) = rx_base rx \<and> bit (rc_have (rx_win rx ! 0)) j" for j
    using b by blast
  have "same_image (ch_tx ch) (mark_slot w now t)" using i(1) same_image_trans [OF sk(2)] by blast
  with a i sk bits show ?thesis by (auto simp: tx_inv_done same_image_def t_def [symmetric])
qed

theorem sender_follows_receiver_witness:
  "\<exists>ok ch'. on_ack ex_channel 3 (ack_payload rx0) 50 = (ok, ch') \<and> ok \<and> tx_base (ch_tx ch') = min 0 (tx_chunks (ch_tx ex_channel))"
proof -
  obtain ok ch' where e: "on_ack ex_channel 3 (ack_payload rx0) 50 = (ok, ch')" by fastforce
  have b: "rx_base rx0 = 0" by (simp add: rx0_def)
  then have "unat (rx_base rx0) < 2 ^ 28 - 1" by simp
  from sender_follows_receiver [OF ex_live this e] b e show ?thesis by auto
qed

subsection \<open>The life of a channel\<close>

text \<open>The receiving half leaves the sending half alone.\<close>

definition same_tx :: "channel \<Rightarrow> channel \<Rightarrow> bool" where
  "same_tx ch ch' \<longleftrightarrow> ch_tx ch' = ch_tx ch \<and> ch_piece_max ch' = ch_piece_max ch"

lemma same_tx_trans: "same_tx a b \<Longrightarrow> same_tx b c \<Longrightarrow> same_tx a c"
  by (simp add: same_tx_def)

lemma send_ack_same_tx: "same_tx ch (send_ack ch now)"
  using send_ack_out [of ch now] by (auto simp: same_tx_def)

lemma verify_drain_same_tx: "same_tx ch (verify_drain ch)"
proof (induction ch rule: verify_drain.induct)
  case (1 ch)
  have "same_tx ch (verify_head ch)" by (simp add: same_tx_def verify_head_def Let_def)
  with 1 show ?case by (subst verify_drain.simps) (auto simp: same_tx_def)
qed

lemma admit_step_same_tx: "same_tx ch (snd (admit_step ch))"
  using verify_drain_same_tx by (simp add: admit_step_def Let_def) (simp add: same_tx_def rx_shift_def Let_def)

lemma rx_try_admit_same_tx: "same_tx ch (rx_try_admit ch)"
proof -
  have "same_tx ch (admit_rounds n ch)" for n
  proof (induction n arbitrary: ch)
    case (Suc n)
    show ?case using Suc.IH admit_step_same_tx [of ch] by (auto split: prod.split intro: same_tx_trans)
  qed (simp add: same_tx_def)
  then show ?thesis by (simp only: rx_try_admit_def)
qed

lemma recv_chunk_same_tx: "same_tx ch (snd (recv_chunk ch cap clock))"
  using rx_try_admit_same_tx send_ack_same_tx by (simp add: recv_chunk_def Let_def) (simp add: same_tx_def)

lemma take_piece_same_tx: "same_tx ch (take_piece ch w p now)"
proof -
  have a: "same_tx ch (put_slot ch w c)" "same_tx ch (count_dup ch)" "same_tx ch (count_mismatch ch)"
    "same_tx ch (count_sha_fail (put_slot ch w c))" for c
    by (simp_all add: same_tx_def put_slot_def count_dup_def count_mismatch_def count_sha_fail_def)
  have "same_tx ch (send_ack (rx_try_admit (put_slot ch w c)) now)" for c
    using same_tx_trans [OF a(1)] same_tx_trans [OF rx_try_admit_same_tx send_ack_same_tx] by blast
  then show ?thesis using a by (simp add: take_piece_def Let_def) (simp add: same_tx_def)
qed

lemma on_piece_same_tx: "same_tx ch (snd (on_piece ch c pay now))"
proof -
  define c0 where "c0 = ch\<lparr> ch_rx := (ch_rx ch)\<lparr> rx_conn := c, rx_last_piece_ms := stamp now \<rparr>,
      ch_s := (ch_s ch)\<lparr> st_rx_pieces := st_rx_pieces (ch_s ch) + 1 \<rparr> \<rparr>"
  have a: "same_tx ch c0" "same_tx ch ch" "same_tx ch (count_mismatch c0)" "same_tx ch (count_out_of_window c0)"
    by (simp_all add: same_tx_def c0_def count_mismatch_def count_out_of_window_def)
  have "same_tx ch (count_dup c0)" by (simp add: same_tx_def c0_def count_dup_def)
  then have b: "same_tx ch (send_ack (count_dup c0) now)" using send_ack_same_tx same_tx_trans by blast
  have "same_tx ch (put_slot c0 w c)" for w c by (simp add: same_tx_def c0_def put_slot_def)
  then have d: "same_tx ch (take_piece c0 w p now)" "same_tx ch (take_piece (put_slot c0 w c) w p now)" for w c p
    using take_piece_same_tx same_tx_trans a(1) by blast+
  show ?thesis unfolding on_piece_def c0_def [symmetric] Let_def
    using a b d by (auto split: prod.split bool.split)
qed

text \<open>
  The steps of a channel: its operations, under the contracts of their callers (a buffer is as long as
  announced, a composer fills what it is asked for).
\<close>

inductive chan_step :: "channel \<Rightarrow> channel \<Rightarrow> bool" where
  cs_start: "(\<And>x. blob = Some x \<Longrightarrow> unat len \<le> length x) \<Longrightarrow> chan_step ch (snd (start_send ch conn pl blob len clock))"
| cs_start_src: "(\<And>f off n. src = Some f \<Longrightarrow> length (f off n) = unat n) \<Longrightarrow>
    chan_step ch (snd (start_send_src ch conn pl src ctx len dc clock))"
| cs_abort: "chan_step ch (abort_send ch)"
| cs_abort_src: "chan_step ch (snd (abort_src ch ctx))"
| cs_dropped: "chan_step ch (snd (on_conn_dropped ch conn))"
| cs_ack: "chan_step ch (snd (on_ack ch conn pay now))"
| cs_piece: "chan_step ch (snd (on_piece ch conn pay now))"
| cs_recv: "chan_step ch (snd (recv_chunk ch cap now))"
| cs_resume: "chan_step ch (rx_resume_at ch k now)"
| cs_tick: "chan_step ch (channel_tick ch conn pl now)"

definition tx_ok :: "channel \<Rightarrow> bool" where
  "tx_ok ch \<longleftrightarrow> tx_inv (ch_piece_max ch) (ch_tx ch) \<and> (tx_active (ch_tx ch) \<longrightarrow> tx_base (ch_tx ch) < tx_chunks (ch_tx ch))"

lemma tx_ok_same: "same_tx ch ch' \<Longrightarrow> tx_ok ch' = tx_ok ch"
  by (simp add: same_tx_def tx_ok_def)

lemma start_send_refused: "start_send ch conn pl blob len clock = (False, ch') \<Longrightarrow> ch' = ch"
  by (auto simp: start_send_def Let_def split: if_splits)

lemma start_send_pos: "start_send ch conn pl blob len clock = (True, ch') \<Longrightarrow> 0 < unat len"
  by (cases "len = 0") (simp_all add: start_send_def unat_gt_0 split: if_splits)

lemma start_send_ok:
  assumes "tx_ok ch" "\<And>x. blob = Some x \<Longrightarrow> unat len \<le> length x"
  shows "tx_ok (snd (start_send ch conn pl blob len clock))"
proof (cases "fst (start_send ch conn pl blob len clock)")
  case False
  then have "snd (start_send ch conn pl blob len clock) = ch" by (metis prod.collapse start_send_refused)
  with assms(1) show ?thesis by simp
next
  case True
  then obtain ch' where s: "start_send ch conn pl blob len clock = (True, ch')" by (metis prod.collapse)
  note i = start_send_inv [OF s assms(2)]
  with start_send_pos [OF s] have "0 < unat (tx_chunks (ch_tx ch'))" by (auto simp: tx_inv_def chunks_ok_def)
  with i s show ?thesis by (auto simp: tx_ok_def word_less_nat_alt)
qed

lemma start_send_src_refused: "start_send_src ch conn pl src ctx len dc clock = (False, ch') \<Longrightarrow> ch' = ch"
  using start_send_refused by (auto simp: start_send_src_def Let_def split: if_splits prod.splits bool.splits)

lemma start_send_src_ok:
  assumes "tx_ok ch" "\<And>f off n. src = Some f \<Longrightarrow> length (f off n) = unat n"
  shows "tx_ok (snd (start_send_src ch conn pl src ctx len dc clock))"
proof (cases "fst (start_send_src ch conn pl src ctx len dc clock)")
  case False
  then have "snd (start_send_src ch conn pl src ctx len dc clock) = ch" by (metis prod.collapse start_send_src_refused)
  with assms(1) show ?thesis by simp
next
  case True
  then obtain ch' where s: "start_send_src ch conn pl src ctx len dc clock = (True, ch')" by (metis prod.collapse)
  have i: "tx_inv (ch_piece_max ch') (ch_tx ch') \<and> tx_base (ch_tx ch') = 0 \<and> tx_src (ch_tx ch') = src \<and>
      tx_blob_len (ch_tx ch') = len" by (rule start_send_src_inv [OF s]) (rule assms(2))
  have "0 < unat len" using s start_send_pos
    by (auto simp: start_send_src_def split: if_splits prod.splits bool.splits)
  with i have "0 < unat (tx_chunks (ch_tx ch'))" by (auto simp: tx_inv_def chunks_ok_def)
  with i s show ?thesis by (auto simp: tx_ok_def word_less_nat_alt)
qed

lemma abort_send_ok: "tx_ok ch \<Longrightarrow> tx_ok (abort_send ch)"
  by (auto simp: tx_ok_def abort_send_def tx_inv_def source_ok_def chunks_ok_def slot_holds_def)

lemma abort_src_ok: "tx_ok ch \<Longrightarrow> tx_ok (snd (abort_src ch ctx))"
  using abort_send_ok [of ch] by (auto simp: abort_src_def Let_def count_cancelled_def tx_ok_def)

lemma on_conn_dropped_ok: "tx_ok ch \<Longrightarrow> tx_ok (snd (on_conn_dropped ch c))"
proof -
  assume a: "tx_ok ch"
  define c0 where "c0 = (if rx_conn (ch_rx ch) = c
      then ch\<lparr> ch_rx := (ch_rx ch)\<lparr> rx_conn := -1, rx_last_piece_ms := 0, rx_ack_due := False \<rparr> \<rparr> else ch)"
  have "same_tx ch c0" by (simp add: c0_def same_tx_def)
  then have k: "tx_ok c0" using a tx_ok_same by blast
  then have "tx_ok (count_cancelled (abort_send c0))"
    using abort_send_ok [OF k] by (simp add: count_cancelled_def tx_ok_def)
  with k show ?thesis by (simp add: on_conn_dropped_def Let_def c0_def [symmetric])
qed

lemma follow_ack_ok:
  assumes "tx_ok ch" "k \<le> tx_chunks (ch_tx ch)"
  shows "tx_ok (follow_ack ch k w now)"
proof -
  have inv: "tx_inv (ch_piece_max ch) (ch_tx ch)" using assms(1) by (simp add: tx_ok_def)
  note t = tx_seek_inv [OF inv, of k]
  then have i: "tx_inv (ch_piece_max ch) (ch_tx (tx_seek ch k))" by simp
  have "min k (tx_chunks (ch_tx ch)) = k" using assms(2) by (simp add: min_def)
  with t mark_slot_inv [OF i, of w now] follow_ack_tx [OF inv assms(2), of w now] assms(2)
  show ?thesis by (auto simp: tx_ok_def same_image_def tx_inv_done)
qed

lemma on_ack_ok: "tx_ok ch \<Longrightarrow> tx_ok (snd (on_ack ch c pay now))"
proof -
  assume a: "tx_ok ch"
  have "snd (on_ack ch c pay now) = ch \<or> snd (on_ack ch c pay now) =
      follow_ack ch (min (get_u32 (drop 1 pay) div PIECES_PER_CHUNK - 1) (tx_chunks (ch_tx ch))) (get_u32 (drop 5 pay)) now"
    by (auto simp: on_ack_def Let_def min_def)
  then show ?thesis using a follow_ack_ok [OF a min.cobounded2] by auto
qed

lemma channel_tick_ok: "tx_ok ch \<Longrightarrow> tx_ok (channel_tick ch c p now)"
proof -
  assume a: "tx_ok ch"
  have "tx_ok (tick_tx ch c p now)"
    using a tick_tx_spec [of ch c p now] by (auto simp: tx_ok_def)
  then show ?thesis using channel_tick_split [of ch c p now] send_ack_same_tx tx_ok_same by metis
qed

lemma channel0_ok: "tx_ok (set_piece_max (bind_edge channel0 e) n)"
proof -
  have "nth (replicate WINDOW_CHUNKS tx_chunk0) w = tx_chunk0" if "w < WINDOW_CHUNKS" for w using that by simp
  then show ?thesis
    by (simp add: tx_ok_def set_piece_max_def bind_edge_def channel0_def tx0_def tx_inv_def source_ok_def chunks_ok_def
        slot_holds_def tx_chunk0_def)
qed

lemma rx_resume_same_tx: "same_tx ch (rx_resume_at ch k now)"
proof -
  have a: "same_tx ch (ch\<lparr> ch_rx := r, ch_s := s \<rparr>)" for r s by (simp add: same_tx_def)
  then show ?thesis using same_tx_trans [OF a send_ack_same_tx] by (simp add: rx_resume_at_def Let_def)
qed

lemma chan_step_ok: "chan_step ch ch' \<Longrightarrow> tx_ok ch \<Longrightarrow> tx_ok ch'"
proof (induction rule: chan_step.induct)
  case (cs_start_src src ch conn pl ctx len dc clock)
  then show ?case by (intro start_send_src_ok) auto
qed (auto intro: start_send_ok abort_send_ok abort_src_ok on_conn_dropped_ok on_ack_ok channel_tick_ok
    simp: tx_ok_same [OF on_piece_same_tx] tx_ok_same [OF recv_chunk_same_tx] tx_ok_same [OF rx_resume_same_tx])

text \<open>C16. In every state that a channel can reach from its construction, by transfers started, aborted and
  dropped, acknowledgements and pieces that say anything at all, drains and ticks, the sender is well
  formed: its window has its two slots, each valid slot holds the chunk of the image that its place in
  the window says, with its length, piece count and hash; and a live transfer has a chunk left to send.\<close>

theorem sender_stays_on_its_image:
  assumes "chan_step\<^sup>*\<^sup>* (set_piece_max (bind_edge channel0 e) n) ch"
  shows "length (tx_win (ch_tx ch)) = WINDOW_CHUNKS \<and>
    (tx_active (ch_tx ch) \<longrightarrow> tx_base (ch_tx ch) < tx_chunks (ch_tx ch)) \<and>
    (\<forall>w < WINDOW_CHUNKS. let c = tx_win (ch_tx ch) ! w; k = tx_base (ch_tx ch) + of_nat w in tc_valid c \<longrightarrow>
       tc_index c = k \<and> k < tx_chunks (ch_tx ch) \<and> length (image_chunk (ch_tx ch) k) = unat (tc_len c) \<and>
       take (unat (tc_len c)) (tc_data c) = image_chunk (ch_tx ch) k \<and>
       tc_sha c = sha256 (image_chunk (ch_tx ch) k) \<and> tc_total c = piece_count (tc_len c) (ch_piece_max ch))"
proof -
  have "tx_ok ch" using assms by induction (auto simp: channel0_ok chan_step_ok)
  then show ?thesis using length_image_chunk by (auto simp: tx_ok_def tx_inv_def slot_holds_def Let_def)
qed

theorem sender_stays_on_its_image_witness:
  "\<exists>ch. ch = snd (start_send (set_piece_max (bind_edge channel0 None) 0) 3 1 (Some [1, 2, 3]) 3 9) \<and>
    length (tx_win (ch_tx ch)) = WINDOW_CHUNKS"
proof -
  let ?c = "snd (start_send (set_piece_max (bind_edge channel0 None) 0) 3 1 (Some [1, 2, 3]) 3 9)"
  have "chan_step (set_piece_max (bind_edge channel0 None) 0) ?c" by (rule cs_start) auto
  then have "chan_step\<^sup>*\<^sup>* (set_piece_max (bind_edge channel0 None) 0) ?c" ..
  from sender_stays_on_its_image [OF this] show ?thesis by blast
qed

text \<open>C17. An aborted transfer is over: it keeps no pointer to its source, no slot of its window is valid,
  and whatever acknowledgement arrives, whatever tick passes, the sending state stays as it is and no
  piece leaves.  A dropped connection aborts exactly the live transfer on it that asked for it.\<close>

theorem aborted_transfer_is_over:
  "let ch' = abort_send ch in
     \<not> tx_active (ch_tx ch') \<and> tx_src (ch_tx ch') = None \<and> tx_blob (ch_tx ch') = None \<and>
     (\<forall>c\<in>set (tx_win (ch_tx ch')). \<not> tc_valid c) \<and>
     ch_tx (snd (on_ack ch' conn pay now)) = ch_tx ch' \<and> ch_out (snd (on_ack ch' conn pay now)) = ch_out ch' \<and>
     ch_tx (channel_tick ch' conn pl now) = ch_tx ch' \<and>
     (\<forall>e\<in>set (drop (length (ch_out ch')) (ch_out (channel_tick ch' conn pl now))). e = (conn, ack_payload (ch_rx ch'))) \<and>
     (fst (on_conn_dropped ch c) \<longleftrightarrow> tx_active (ch_tx ch) \<and> tx_conn (ch_tx ch) = c \<and> tx_drop_cancels (ch_tx ch)) \<and>
     ch_tx (snd (on_conn_dropped ch c)) = (if fst (on_conn_dropped ch c) then ch_tx ch' else ch_tx ch)"
proof -
  let ?a = "abort_send ch"
  have i: "\<not> tx_active (ch_tx ?a)" by (simp add: abort_send_def)
  note t = tick_tx_inactive [OF i, of conn pl now]
  have o: "snd (on_ack ?a conn pay now) = ?a" using i by (simp add: on_ack_def Let_def)
  obtain acks where s: "ch_out (send_ack ?a now) = ch_out ?a @ acks" "set acks \<subseteq> {(rx_conn (ch_rx ?a), ack_payload (ch_rx ?a))}"
    "ch_tx (send_ack ?a now) = ch_tx ?a" using send_ack_out [of ?a now] by blast
  have c: "ch_tx (channel_tick ?a conn pl now) = ch_tx ?a \<and>
      (\<forall>e\<in>set (drop (length (ch_out ?a)) (ch_out (channel_tick ?a conn pl now))). e = (conn, ack_payload (ch_rx ?a)))"
    using channel_tick_split [of ?a conn pl now] t s by auto
  have d: "fst (on_conn_dropped ch c) \<longleftrightarrow> tx_active (ch_tx ch) \<and> tx_conn (ch_tx ch) = c \<and> tx_drop_cancels (ch_tx ch)"
    "ch_tx (snd (on_conn_dropped ch c)) = (if fst (on_conn_dropped ch c) then ch_tx ?a else ch_tx ch)"
    by (auto simp: on_conn_dropped_def Let_def abort_send_def count_cancelled_def)
  show ?thesis using i o c d by (simp only: Let_def) (simp add: abort_send_def)
qed

theorem aborted_transfer_is_over_witness:
  "tx_active (ch_tx ex_channel) \<and> \<not> tx_active (ch_tx (abort_send ex_channel)) \<and>
    ch_out (snd (on_ack (abort_send ex_channel) 3 [] 7)) = ch_out (abort_send ex_channel)"
  using aborted_transfer_is_over [of ex_channel 3 "[]" 7 3 0] ex_live(2) by (simp add: Let_def)


end
