(* ===== verification/Gameplay_Set.thy ===== *)
theory Gameplay_Set
  imports Byteio "HOL-Library.Multiset"
begin

text \<open>
  The gameplay settings that the host dictates at the start of a match
  (\<open>mh_net_proto/src/gameplay_set.cpp\<close>): the trailer of the start frame, its codec, the identity of a key
  and the digest of the key set that two builds compare.  A set is the list of its entries: \<open>n\<close> is its
  length, so the encoder's test for a negative \<open>n\<close> has no counterpart.
\<close>

definition GAMEPLAY_MAX_ENTRIES :: nat where "GAMEPLAY_MAX_ENTRIES = 64"
definition GAMEPLAY_FORMAT :: u8 where "GAMEPLAY_FORMAT = 1"
definition GAMEPLAY_T_INT :: u8 where "GAMEPLAY_T_INT = 1"
definition GAMEPLAY_T_F64 :: u8 where "GAMEPLAY_T_F64 = 2"
definition GAMEPLAY_T_STR :: u8 where "GAMEPLAY_T_STR = 3"
definition GAMEPLAY_HDR_BYTES :: nat where "GAMEPLAY_HDR_BYTES = 4"

lemmas gameplay_consts = GAMEPLAY_MAX_ENTRIES_def GAMEPLAY_FORMAT_def GAMEPLAY_T_INT_def GAMEPLAY_T_F64_def
  GAMEPLAY_HDR_BYTES_def

record gameplay_entry =
  ge_key_id :: u32
  ge_type :: u8
  ge_i :: u32
  ge_f_bits :: u64

datatype gameplay_err = GpOk | GpTruncated | GpBadMagic | GpBadFormat | GpUnknownType | GpTooMany

definition fold_case :: "u8 \<Rightarrow> u8" where
  "fold_case c = (if 0x41 \<le> c \<and> c \<le> 0x5a then c + 32 else c)"

definition fnv :: "u8 \<Rightarrow> u32 \<Rightarrow> u32" where
  "fnv b h = (h XOR ucast b) * 16777619"

definition gameplay_key_id :: "bytes \<Rightarrow> bytes \<Rightarrow> u32" where
  "gameplay_key_id sec key =
     (let h = fold (\<lambda>c. fnv (fold_case c)) (cstr sec) 2166136261;
          h = fnv 0x2e h;
          h = fold (\<lambda>c. fnv (fold_case c)) (cstr key) h
      in if h = 0 then 1 else h)"

definition entry_encode :: "gameplay_entry \<Rightarrow> bytes" where
  "entry_encode e =
     put_u32 (ge_key_id e) @ [ge_type e] @
     (if ge_type e = GAMEPLAY_T_INT then put_u32 (ge_i e)
      else put_u32 (ucast (ge_f_bits e AND 0xffffffff)) @ put_u32 (ucast (drop_bit 32 (ge_f_bits e))))"

text \<open>The bytes written; the empty list is the refusal \<open>0\<close>.\<close>

definition gameplay_set_encode :: "gameplay_entry list \<Rightarrow> bytes" where
  "gameplay_set_encode s =
     (if length s > GAMEPLAY_MAX_ENTRIES then []
      else if \<exists>e\<in>set s. ge_type e \<noteq> GAMEPLAY_T_INT \<and> ge_type e \<noteq> GAMEPLAY_T_F64 then []
      else [0x47, 0x50, GAMEPLAY_FORMAT, of_nat (length s)] @ concat (map entry_encode s))"

definition entry0 :: gameplay_entry where
  "entry0 = \<lparr> ge_key_id = 0, ge_type = 0, ge_i = 0, ge_f_bits = 0 \<rparr>"

text \<open>The body of the decoder's loop: the verdict, the entry and the bytes it took; and the loop.\<close>

definition entry_decode :: "bytes \<Rightarrow> gameplay_err \<times> gameplay_entry \<times> nat" where
  "entry_decode p =
     (if length p < 5 then (GpTruncated, entry0, 0)
      else
        let e = entry0\<lparr> ge_key_id := get_u32 p, ge_type := p ! 4 \<rparr>; p = drop 5 p in
        if ge_type e = GAMEPLAY_T_INT then
          if length p < 4 then (GpTruncated, e, 5)
          else (GpOk, e\<lparr> ge_i := get_u32 p \<rparr>, 9)
        else if ge_type e = GAMEPLAY_T_F64 then
          if length p < 8 then (GpTruncated, e, 5)
          else (GpOk, e\<lparr> ge_f_bits := ucast (get_u32 p) OR push_bit 32 (ucast (get_u32 (drop 4 p))) \<rparr>, 13)
        else (GpUnknownType, e, 5))"

fun entries_decode :: "nat \<Rightarrow> bytes \<Rightarrow> gameplay_err \<times> gameplay_entry list" where
  "entries_decode 0 p = (GpOk, [])"
| "entries_decode (Suc n) p =
     (case entry_decode p of (err, e, k) \<Rightarrow>
        if err \<noteq> GpOk then (err, [])
        else case entries_decode n (drop k p) of (err, es) \<Rightarrow> (err, e # es))"

definition gameplay_set_decode :: "bytes \<Rightarrow> gameplay_err \<times> gameplay_entry list" where
  "gameplay_set_decode inp =
     (if length inp < GAMEPLAY_HDR_BYTES then (GpTruncated, [])
      else if inp ! 0 \<noteq> 0x47 \<or> inp ! 1 \<noteq> 0x50 then (GpBadMagic, [])
      else if inp ! 2 \<noteq> GAMEPLAY_FORMAT then (GpBadFormat, [])
      else let n = unat (inp ! 3) in
        if n > GAMEPLAY_MAX_ENTRIES then (GpTooMany, [])
        else case entries_decode n (drop GAMEPLAY_HDR_BYTES inp) of
               (GpOk, es) \<Rightarrow> (GpOk, es)
             | (err, _) \<Rightarrow> (err, []))"

text \<open>A key and its type, ordered by the comparator of the digest.\<close>

datatype key_type = KT (kt_key: u32) (kt_type: u8)

lemma key_type_eq: "a = b \<longleftrightarrow> kt_key a = kt_key b \<and> kt_type a = kt_type b"
  by (cases a; cases b) simp

instantiation key_type :: linorder
begin

definition less_key_type :: "key_type \<Rightarrow> key_type \<Rightarrow> bool" where
  "less_key_type a b = (if kt_key a \<noteq> kt_key b then kt_key a < kt_key b else kt_type a < kt_type b)"

definition less_eq_key_type :: "key_type \<Rightarrow> key_type \<Rightarrow> bool" where
  "less_eq_key_type a b = (a < b \<or> a = b)"

instance
  by standard (auto simp: less_key_type_def less_eq_key_type_def key_type_eq split: if_splits)

end

definition gameplay_set_digest :: "gameplay_entry list \<Rightarrow> u32" where
  "gameplay_set_digest s =
     (let v = sort (map (\<lambda>e. KT (ge_key_id e) (ge_type e)) (take GAMEPLAY_MAX_ENTRIES s));
          h = fold (\<lambda>kt h. fnv (kt_type kt) (fold (\<lambda>b. fnv (ucast (drop_bit (8 * b) (kt_key kt)))) [0..<4] h)) v 2166136261
      in if h = 0 then 1 else h)"

subsection \<open>The codec\<close>

text \<open>An entry as the wire can carry it: a known type, and nothing in the field of the other type.\<close>

definition entry_ok :: "gameplay_entry \<Rightarrow> bool" where
  "entry_ok e \<longleftrightarrow> ge_type e = GAMEPLAY_T_INT \<and> ge_f_bits e = 0 \<or> ge_type e = GAMEPLAY_T_F64 \<and> ge_i e = 0"

lemma lo_u64: "f AND 0xffffffff = take_bit 32 f" for f :: u64
  by (simp add: take_bit_eq_mask mask_eq_exp_minus_1)

lemma halves_u64: "ucast (ucast (f AND 0xffffffff) :: u32) OR push_bit 32 (ucast (ucast (drop_bit 32 f) :: u32)) = (f :: u64)"
  by (intro bit_word_eqI) (auto simp: lo_u64 bit_simps)

lemma u64_halves:
  fixes a b :: u32
  defines "f \<equiv> ucast a OR push_bit 32 (ucast b) :: u64"
  shows "ucast (f AND 0xffffffff) = a" "ucast (drop_bit 32 f) = b"
  by (intro bit_word_eqI, auto simp: lo_u64 f_def bit_simps dest: bit_imp_le_length)+

lemma length_entry_encode: "length (entry_encode e) = (if ge_type e = GAMEPLAY_T_INT then 9 else 13)"
  by (simp add: entry_encode_def)

lemma entry_ok_cases:
  assumes "entry_ok e"
  obtains k i where "e = \<lparr> ge_key_id = k, ge_type = GAMEPLAY_T_INT, ge_i = i, ge_f_bits = 0 \<rparr>"
  | k f where "e = \<lparr> ge_key_id = k, ge_type = GAMEPLAY_T_F64, ge_i = 0, ge_f_bits = f \<rparr>"
  using assms by (cases e) (auto simp: entry_ok_def)

lemma entry_decode_encode: "entry_ok e \<Longrightarrow> entry_decode (entry_encode e @ r) = (GpOk, e, length (entry_encode e))"
  by (erule entry_ok_cases)
    (simp_all add: entry_decode_def entry_encode_def entry0_def nth_append Let_def halves_u64 gameplay_consts)

lemma entry_decode_ok:
  assumes "entry_decode p = (GpOk, e, k)"
  shows "entry_ok e \<and> length (entry_encode e) = k \<and> k \<le> length p \<and> take k p = entry_encode e"
proof -
  have l: "5 \<le> length p" using assms by (auto simp: entry_decode_def split: if_splits)
  then have t: "take 5 p = put_u32 (get_u32 p) @ [p ! 4]"
    using put_get(2) [of p] take_1_drop [of 4 p] take_take_chain [of 5 4 1 p] by simp
  consider (int) "p ! 4 = GAMEPLAY_T_INT" "9 \<le> length p" "k = 9"
      "e = \<lparr> ge_key_id = get_u32 p, ge_type = GAMEPLAY_T_INT, ge_i = get_u32 (drop 5 p), ge_f_bits = 0 \<rparr>"
    | (f64) "p ! 4 = GAMEPLAY_T_F64" "13 \<le> length p" "k = 13"
      "e = \<lparr> ge_key_id = get_u32 p, ge_type = GAMEPLAY_T_F64, ge_i = 0,
             ge_f_bits = ucast (get_u32 (drop 5 p)) OR push_bit 32 (ucast (get_u32 (drop 9 p))) \<rparr>"
    using assms by (auto simp: entry_decode_def Let_def entry0_def split: if_splits)
  then show ?thesis
  proof cases
    case int
    then show ?thesis using t put_get(2) [of "drop 5 p"] take_take_chain [of 9 5 4 p]
      by (simp add: entry_ok_def entry_encode_def)
  next
    case f64
    then have "take 13 p = take 5 p @ take 4 (drop 5 p) @ take 4 (drop 9 p)"
      using take_take_chain [of 9 5 4 p] take_take_chain [of 13 9 4 p] by (simp flip: append_assoc)
    with f64 t put_get(2) [of "drop 5 p"] put_get(2) [of "drop 9 p"] show ?thesis
      by (simp add: entry_ok_def entry_encode_def u64_halves gameplay_consts del: drop_bit_or)
  qed
qed

lemma entries_decode_encode:
  "\<forall>e\<in>set s. entry_ok e \<Longrightarrow> entries_decode (length s) (concat (map entry_encode s) @ r) = (GpOk, s)"
  by (induction s) (simp_all add: entry_decode_encode)

lemma entries_decode_ok:
  "entries_decode n p = (GpOk, s) \<Longrightarrow> length s = n \<and> (\<forall>e\<in>set s. entry_ok e) \<and>
     take (length (concat (map entry_encode s))) p = concat (map entry_encode s)"
proof (induction n p arbitrary: s rule: entries_decode.induct)
  case (2 n p)
  from "2.prems" obtain e k es where e: "entry_decode p = (GpOk, e, k)" and es: "entries_decode n (drop k p) = (GpOk, es)" "s = e # es"
    by (auto split: prod.splits if_splits)
  note a = entry_decode_ok [OF e]
  let ?c = "concat (map entry_encode es)"
  have b: "length es = n \<and> (\<forall>a\<in>set es. entry_ok a) \<and> take (length ?c) (drop k p) = ?c"
    by (rule "2.IH" [OF e [symmetric] refl _ es(1)]) simp
  have "take (length (entry_encode e @ ?c)) p = take k p @ take (length ?c) (drop k p)" using a by (simp only: take_add length_append)
  also have "\<dots> = entry_encode e @ ?c" using a b by (simp only: simp_thms)
  finally show ?case using a b es(2) by simp
qed simp

lemma entry_decode_short:
  assumes "entry_ok e" "n < length (entry_encode e)"
  shows "fst (entry_decode (take n (entry_encode e))) = GpTruncated"
  using assms(1)
proof (cases rule: entry_ok_cases)
  case (1 k i)
  with assms(2) show ?thesis
    by (cases "n < 5") (auto simp: entry_decode_def entry_encode_def entry0_def Let_def nth_append gameplay_consts)
next
  case (2 k f)
  with assms(2) show ?thesis
    by (cases "n < 5") (auto simp: entry_decode_def entry_encode_def entry0_def Let_def nth_append gameplay_consts)
qed

lemma entries_decode_short:
  "\<forall>e\<in>set s. entry_ok e \<Longrightarrow> n < length (concat (map entry_encode s)) \<Longrightarrow>
     fst (entries_decode (length s) (take n (concat (map entry_encode s)))) = GpTruncated"
proof (induction s arbitrary: n)
  case (Cons e s)
  show ?case
  proof (cases "n < length (entry_encode e)")
    case True
    with Cons.prems entry_decode_short [of e n] show ?thesis by (auto split: prod.split)
  next
    case False
    then have t: "take n (entry_encode e @ concat (map entry_encode s)) =
        entry_encode e @ take (n - length (entry_encode e)) (concat (map entry_encode s))" by simp
    show ?thesis
      using Cons.IH [of "n - length (entry_encode e)"] Cons.prems False
      by (auto simp: t entry_decode_encode split: prod.split)
  qed
qed simp

lemma set_encode_ok:
  assumes "\<forall>e\<in>set s. entry_ok e" "length s \<le> GAMEPLAY_MAX_ENTRIES"
  shows "gameplay_set_encode s = [0x47, 0x50, GAMEPLAY_FORMAT, of_nat (length s)] @ concat (map entry_encode s)"
proof -
  have "\<not> (\<exists>e\<in>set s. ge_type e \<noteq> GAMEPLAY_T_INT \<and> ge_type e \<noteq> GAMEPLAY_T_F64)"
    using assms(1) by (auto simp: entry_ok_def)
  with assms(2) show ?thesis by (simp only: gameplay_set_encode_def not_less [symmetric] if_False simp_thms)
qed

lemma unat_count: "n \<le> GAMEPLAY_MAX_ENTRIES \<Longrightarrow> unat (of_nat n :: u8) = n"
  by (rule unat_of_nat_u8) (simp add: GAMEPLAY_MAX_ENTRIES_def)

text \<open>The settings trailer round-trips: a set of at most 64 entries of the two known types decodes, whatever
  follows it, to itself, and every strict prefix of it is refused as truncated; and whatever decodes is the
  encoding of what it decoded to, followed by bytes that are ignored.\<close>

theorem gameplay_set_round_trip:
  assumes ok: "\<forall>e\<in>set s. entry_ok e" and len: "length s \<le> GAMEPLAY_MAX_ENTRIES"
  shows "gameplay_set_decode (gameplay_set_encode s @ r) = (GpOk, s) \<and>
    (n < length (gameplay_set_encode s) \<longrightarrow> gameplay_set_decode (take n (gameplay_set_encode s)) = (GpTruncated, [])) \<and>
    (gameplay_set_decode inp = (GpOk, t) \<longrightarrow> (\<forall>e\<in>set t. entry_ok e) \<and> length t \<le> GAMEPLAY_MAX_ENTRIES \<and>
       gameplay_set_encode t = take (length (gameplay_set_encode t)) inp)"
proof (intro conjI impI)
  note e = set_encode_ok [OF ok len]
  show "gameplay_set_decode (gameplay_set_encode s @ r) = (GpOk, s)"
    using len entries_decode_encode [OF ok, of r] unat_count [OF len]
    by (simp add: e gameplay_set_decode_def GAMEPLAY_HDR_BYTES_def Let_def)
  assume n: "n < length (gameplay_set_encode s)"
  show "gameplay_set_decode (take n (gameplay_set_encode s)) = (GpTruncated, [])"
  proof (cases "n < 4")
    case True
    with n show ?thesis by (simp add: gameplay_set_decode_def GAMEPLAY_HDR_BYTES_def)
  next
    case False
    let ?c = "concat (map entry_encode s)"
    have t: "take n (gameplay_set_encode s) = [0x47, 0x50, GAMEPLAY_FORMAT, of_nat (length s)] @ take (n - 4) ?c"
      unfolding e using False by (subst take_append) (simp add: take_Cons' eval_nat_numeral)
    have "fst (entries_decode (length s) (take (n - 4) ?c)) = GpTruncated"
      using entries_decode_short [OF ok] n False by (simp add: e)
    then show ?thesis unfolding t using len unat_count [OF len]
      by (auto simp: gameplay_set_decode_def GAMEPLAY_HDR_BYTES_def Let_def split: prod.split)
  qed
next
  assume d: "gameplay_set_decode inp = (GpOk, t)"
  then have h: "4 \<le> length inp" "inp ! 0 = 0x47" "inp ! 1 = 0x50" "inp ! 2 = GAMEPLAY_FORMAT" "unat (inp ! 3) \<le> GAMEPLAY_MAX_ENTRIES"
    and t: "entries_decode (unat (inp ! 3)) (drop 4 inp) = (GpOk, t)"
    by (auto simp: gameplay_set_decode_def GAMEPLAY_HDR_BYTES_def Let_def split: if_splits prod.splits gameplay_err.splits)
  note k = entries_decode_ok [OF t]
  show ok: "\<forall>e\<in>set t. entry_ok e" and len: "length t \<le> GAMEPLAY_MAX_ENTRIES" using k h(5) by auto
  have "take 4 inp = [0x47, 0x50, GAMEPLAY_FORMAT, inp ! 3]"
    using h take_2_nth [of inp] take_2_nth [of "drop 2 inp"] take_take_chain [of 4 2 2 inp] by simp
  moreover have "of_nat (length t) = inp ! 3" using k by simp
  moreover have "length (gameplay_set_encode t) = 4 + length (concat (map entry_encode t))" by (simp add: set_encode_ok [OF ok len])
  ultimately show "gameplay_set_encode t = take (length (gameplay_set_encode t)) inp"
    using k by (simp only: take_add) (simp add: set_encode_ok [OF ok len])
qed

theorem gameplay_set_round_trip_witness:
  "gameplay_set_decode (gameplay_set_encode [entry0\<lparr> ge_type := 1, ge_i := 7 \<rparr>] @ [9]) = (GpOk, [entry0\<lparr> ge_type := 1, ge_i := 7 \<rparr>])"
  using gameplay_set_round_trip [of "[entry0\<lparr> ge_type := 1, ge_i := 7 \<rparr>]" "[9]"]
  by (simp add: entry_ok_def entry0_def gameplay_consts)

subsection \<open>The digest\<close>

text \<open>The digest names which keys a build syncs and nothing else: two sets (within the limit) with the same keys
  and types, in any order and with any values, have the same digest; it is never the reserved 0, and neither is
  a key's identity, which does not see the case of the letters.\<close>

theorem gameplay_digest_names_the_keys:
  assumes "length s \<le> GAMEPLAY_MAX_ENTRIES" "length t \<le> GAMEPLAY_MAX_ENTRIES"
    and "image_mset (\<lambda>e. (ge_key_id e, ge_type e)) (mset s) = image_mset (\<lambda>e. (ge_key_id e, ge_type e)) (mset t)"
  shows "gameplay_set_digest s = gameplay_set_digest t \<and> gameplay_set_digest s \<noteq> 0 \<and> gameplay_key_id sec key \<noteq> 0 \<and>
    gameplay_key_id (map fold_case sec) (map fold_case key) = gameplay_key_id sec key"
proof -
  have e: "map (\<lambda>e. KT (ge_key_id e) (ge_type e)) x = map (\<lambda>(k, y). KT k y) (map (\<lambda>e. (ge_key_id e, ge_type e)) x)" for x
    by simp
  have "mset (map (\<lambda>e. (ge_key_id e, ge_type e)) s) = mset (map (\<lambda>e. (ge_key_id e, ge_type e)) t)" using assms(3) by simp
  then have "mset (map (\<lambda>e. KT (ge_key_id e) (ge_type e)) s) = mset (map (\<lambda>e. KT (ge_key_id e) (ge_type e)) t)"
    unfolding e by (simp only: mset_map)
  then have "sort (map (\<lambda>e. KT (ge_key_id e) (ge_type e)) s) = sort (map (\<lambda>e. KT (ge_key_id e) (ge_type e)) t)"
    by (intro properties_for_sort) simp_all
  moreover have z: "fold_case c = 0 \<longleftrightarrow> c = 0" "fold_case (fold_case c) = fold_case c" for c
    by (auto simp: fold_case_def word_le_nat_alt word_unat_eq_iff unat_word_ariths)
  have "cstr (map fold_case x) = map fold_case (cstr x)" for x by (induction x) (simp_all add: cstr_def z)
  then have "gameplay_key_id (map fold_case sec) (map fold_case key) = gameplay_key_id sec key"
    by (simp add: gameplay_key_id_def fold_map comp_def z)
  ultimately show ?thesis using assms(1,2) by (simp add: gameplay_set_digest_def Let_def gameplay_key_id_def)
qed

theorem gameplay_digest_names_the_keys_witness:
  "gameplay_set_digest [entry0, entry0\<lparr> ge_type := 1 \<rparr>] = gameplay_set_digest [entry0\<lparr> ge_type := 1, ge_i := 5 \<rparr>, entry0]"
  using gameplay_digest_names_the_keys [of "[entry0, entry0\<lparr> ge_type := 1 \<rparr>]" "[entry0\<lparr> ge_type := 1, ge_i := 5 \<rparr>, entry0]"]
  by (simp add: GAMEPLAY_MAX_ENTRIES_def)

end
