(* ===== verification/Session_Info.thy ===== *)
theory Session_Info
  imports Byteio Uuid7
begin

text \<open>
  The session descriptor that a host advertises (\<open>mh_net_proto/src/session_info.cpp\<close> and its header): its
  encoding, the decoder that still reads the four older formats, the identity of a lobby, and the sender
  number that stands for a relay room.  Character arrays keep their length; a text is read up to its NUL.
\<close>

definition SESSION_NAME_MAX :: nat where "SESSION_NAME_MAX = 31"
definition SESSION_MAP_MAX :: nat where "SESSION_MAP_MAX = 31"
definition PLAYER_NAME_MAX :: nat where "PLAYER_NAME_MAX = 31"
definition BUILD_MAX :: nat where "BUILD_MAX = 15"
definition MAP_HEADER_SIZE :: nat where "MAP_HEADER_SIZE = 0x17c"
definition MAP_HASH_BYTES :: nat where "MAP_HASH_BYTES = 8"
definition SESSION_INFO_FORMAT :: u8 where "SESSION_INFO_FORMAT = 5"

lemmas session_sizes = SESSION_NAME_MAX_def SESSION_MAP_MAX_def PLAYER_NAME_MAX_def BUILD_MAX_def MAP_HEADER_SIZE_def
  MAP_HASH_BYTES_def UUID7_BYTES_def

record session_info =
  si_tag :: u32
  si_host_version :: u16
  si_protocol :: u16
  si_cur_players :: u8
  si_max_players :: u8
  si_name :: bytes
  si_map :: bytes
  si_has_map_header :: bool
  si_map_header :: bytes
  si_match_id :: bytes
  si_codepage :: u16
  si_map_hash :: bytes
  si_map_size :: u32
  si_build :: bytes
  si_gameplay_digest :: u32

definition SESSION_INFO_MAX_ENCODED :: nat where
  "SESSION_INFO_MAX_ENCODED = 11 + (1 + SESSION_NAME_MAX) + (1 + SESSION_MAP_MAX) + MAP_HEADER_SIZE +
     UUID7_BYTES + 2 + MAP_HASH_BYTES + 4"

subsection \<open>Length-prefixed text\<close>

definition clamp_len :: "bytes \<Rightarrow> nat \<Rightarrow> nat" where
  "clamp_len s cap = length (takeWhile (\<lambda>c. c \<noteq> 0) (take cap s))"

definition put_field :: "bytes \<Rightarrow> nat \<Rightarrow> bytes" where
  "put_field s cap = (let n = clamp_len s cap in [of_nat n] @ take n s)"

text \<open>Into the array \<open>buf\<close>, with the bytes that follow.\<close>

definition get_field :: "nat \<Rightarrow> bytes \<Rightarrow> bytes \<Rightarrow> (bytes \<times> bytes) option" where
  "get_field limit buf p =
     (if p = [] then None
      else let n = unat (p ! 0); p = drop 1 p in
        if n > limit \<or> n > length p then None
        else Some (memcpy_at buf 0 (take n p @ [0]), drop n p))"

subsection \<open>The codec\<close>

definition session_info_encode :: "session_info \<Rightarrow> bytes" where
  "session_info_encode si =
     [SESSION_INFO_FORMAT] @ put_u32 (si_tag si) @ put_u16 (si_host_version si) @ put_u16 (si_protocol si) @
     [si_cur_players si, si_max_players si] @
     put_field (si_name si) SESSION_NAME_MAX @ put_field (si_map si) SESSION_MAP_MAX @
     take MAP_HEADER_SIZE (si_map_header si) @ take UUID7_BYTES (si_match_id si) @ put_u16 (si_codepage si) @
     take MAP_HASH_BYTES (si_map_hash si) @ put_u32 (si_map_size si)"

text \<open>The fields behind the map name, each read only when its format has it and its bytes are there.\<close>

definition take_map_header :: "u8 \<Rightarrow> session_info \<times> bytes \<Rightarrow> session_info \<times> bytes" where
  "take_map_header fmt = (\<lambda>(out, p).
     if fmt \<ge> 2 \<and> MAP_HEADER_SIZE \<le> length p
     then (out\<lparr> si_map_header := take MAP_HEADER_SIZE p, si_has_map_header := True \<rparr>, drop MAP_HEADER_SIZE p)
     else (out\<lparr> si_has_map_header := False \<rparr>, p))"

definition take_match_id :: "u8 \<Rightarrow> session_info \<times> bytes \<Rightarrow> session_info \<times> bytes" where
  "take_match_id fmt = (\<lambda>(out, p).
     if fmt \<ge> 3 \<and> UUID7_BYTES \<le> length p
     then (out\<lparr> si_match_id := take UUID7_BYTES p \<rparr>, drop UUID7_BYTES p)
     else (out\<lparr> si_match_id := replicate UUID7_BYTES 0 \<rparr>, p))"

definition take_codepage :: "u8 \<Rightarrow> session_info \<times> bytes \<Rightarrow> session_info \<times> bytes" where
  "take_codepage fmt = (\<lambda>(out, p).
     if fmt \<ge> 4 \<and> 2 \<le> length p then (out\<lparr> si_codepage := get_u16 p \<rparr>, drop 2 p)
     else (out\<lparr> si_codepage := 0 \<rparr>, p))"

definition take_map_hash :: "u8 \<Rightarrow> session_info \<times> bytes \<Rightarrow> session_info \<times> bytes" where
  "take_map_hash fmt = (\<lambda>(out, p).
     if fmt \<ge> 5 \<and> MAP_HASH_BYTES + 4 \<le> length p
     then (out\<lparr> si_map_hash := take MAP_HASH_BYTES p, si_map_size := get_u32 (drop MAP_HASH_BYTES p) \<rparr>,
           drop (MAP_HASH_BYTES + 4) p)
     else (out\<lparr> si_map_hash := replicate MAP_HASH_BYTES 0, si_map_size := 0 \<rparr>, p))"

definition session_info_decode :: "bytes \<Rightarrow> session_info \<Rightarrow> bool \<times> session_info" where
  "session_info_decode inp out =
     (if length inp < 11 then (False, out)
      else let fmt = inp ! 0 in
        if fmt < 1 \<or> fmt > SESSION_INFO_FORMAT then (False, out)
        else
          let out = out\<lparr> si_tag := get_u32 (drop 1 inp), si_host_version := get_u16 (drop 5 inp),
                         si_protocol := get_u16 (drop 7 inp), si_cur_players := inp ! 9, si_max_players := inp ! 10 \<rparr> in
          case get_field SESSION_NAME_MAX (si_name out) (drop 11 inp) of
            None \<Rightarrow> (False, out)
          | Some (name, p) \<Rightarrow>
              let out = out\<lparr> si_name := name \<rparr> in
              (case get_field SESSION_MAP_MAX (si_map out) p of
                 None \<Rightarrow> (False, out)
               | Some (m, p) \<Rightarrow>
                   (True, fst (take_map_hash fmt (take_codepage fmt (take_match_id fmt
                            (take_map_header fmt (out\<lparr> si_map := m \<rparr>, p))))))))"

definition session_same_lobby :: "session_info \<Rightarrow> session_info \<Rightarrow> bool" where
  "session_same_lobby a b \<longleftrightarrow> si_tag a = si_tag b \<and> cstr (si_name a) = cstr (si_name b)"

definition lobby_id_str :: "session_info \<Rightarrow> bytes \<Rightarrow> bytes" where
  "lobby_id_str si out =
     (if length out = 0 then out else snprintf out (cstr (si_name si) @ [0x23] @ hex8 (si_tag si)))"

definition SESSION_LOG_LINE_CAP :: nat where "SESSION_LOG_LINE_CAP = 64"

definition session_match_id_log_line :: "bytes \<Rightarrow> bytes \<Rightarrow> bytes" where
  "session_match_id_log_line match_id out =
     (if length out < SESSION_LOG_LINE_CAP then (if length out > 0 then out[0 := 0] else out)
      else let hex = uuid7_hex match_id (replicate UUID7_HEX_CAP 0)
           in snprintf out (ascii ''; [session] match_id='' @ cstr hex @ [0x0a]))"

subsection \<open>The sender of a record from a relay directory\<close>

definition SESSION_SENDER_RELAY_BASE :: int where "SESSION_SENDER_RELAY_BASE = 0x40000000"
definition SESSION_RELAY_ROOM_MAX :: u32 where "SESSION_RELAY_ROOM_MAX = 0x3FFFFFFF"
definition SESSION_SENDER_NONE :: int where "SESSION_SENDER_NONE = -1"

definition session_sender_for_relay_room :: "u32 \<Rightarrow> int" where
  "session_sender_for_relay_room room =
     (if room > SESSION_RELAY_ROOM_MAX then SESSION_SENDER_NONE else SESSION_SENDER_RELAY_BASE OR uint room)"

definition session_sender_is_relay :: "int \<Rightarrow> bool" where
  "session_sender_is_relay sender \<longleftrightarrow> sender \<ge> SESSION_SENDER_RELAY_BASE"

definition session_sender_relay_room :: "int \<Rightarrow> u32" where
  "session_sender_relay_room sender = word_of_int (sender AND uint SESSION_RELAY_ROOM_MAX)"

subsection \<open>Fields\<close>

lemma takeWhile_take: "takeWhile P (take n xs) = take n (takeWhile P xs)"
  by (induction xs arbitrary: n) (auto simp: take_Cons split: nat.split)

lemma clamp_len_eq: "clamp_len s cap = min cap (length (cstr s))"
  by (simp add: clamp_len_def takeWhile_take cstr_def)

lemma take_cstr: "n \<le> length (cstr s) \<Longrightarrow> take n s = take n (cstr s)"
proof -
  assume "n \<le> length (cstr s)"
  then have "take n (cstr s @ dropWhile (\<lambda>c. c \<noteq> 0) s) = take n (cstr s)" by simp
  then show ?thesis by (simp add: cstr_def)
qed

lemma take_min_length: "take (min n (length xs)) xs = take n xs"
  by (simp add: min_def)

lemma put_field_eq: "put_field s cap = of_nat (min cap (length (cstr s))) # take cap (cstr s)"
  using take_cstr [of "min cap (length (cstr s))" s] by (simp add: put_field_def Let_def clamp_len_eq take_min_length)

lemma length_put_field: "length (put_field s cap) = 1 + min cap (length (cstr s))"
  by (simp add: put_field_eq min.commute)

lemma get_put_field:
  assumes "cap < 256"
  shows "get_field cap buf (put_field s cap @ r) = Some (memcpy_at buf 0 (take cap (cstr s) @ [0]), r)"
proof -
  have "unat (of_nat (min cap (length (cstr s))) :: u8) = min cap (length (cstr s))"
    using assms by (intro unat_of_nat_u8) simp
  then show ?thesis by (simp add: get_field_def put_field_eq Let_def take_min_length)
qed

lemma small_fields: "SESSION_NAME_MAX < 256" "SESSION_MAP_MAX < 256" "PLAYER_NAME_MAX < 256" "BUILD_MAX < 256"
  by (simp_all add: session_sizes)

lemma get_field_short:
  assumes "cap < 256" "n < length (put_field s cap)"
  shows "get_field cap buf (take n (put_field s cap)) = None"
proof -
  have "unat (of_nat (min cap (length (cstr s))) :: u8) = min cap (length (cstr s))"
    using assms by (intro unat_of_nat_u8) simp
  then show ?thesis using assms(2) by (cases n) (auto simp: get_field_def put_field_eq Let_def)
qed

subsection \<open>Adverts\<close>

text \<open>A descriptor whose arrays have the sizes of the declaration and whose texts end within them.\<close>

definition si_ok :: "session_info \<Rightarrow> bool" where
  "si_ok si \<longleftrightarrow> length (si_name si) = SESSION_NAME_MAX + 1 \<and> 0 \<in> set (si_name si) \<and>
     length (si_map si) = SESSION_MAP_MAX + 1 \<and> 0 \<in> set (si_map si) \<and>
     length (si_map_header si) = MAP_HEADER_SIZE \<and> length (si_match_id si) = UUID7_BYTES \<and>
     length (si_map_hash si) = MAP_HASH_BYTES \<and> length (si_build si) = BUILD_MAX + 1 \<and> 0 \<in> set (si_build si)"

lemma length_cstr_less: "0 \<in> set s \<Longrightarrow> length (cstr s) < length s"
proof -
  assume "0 \<in> set s"
  then have "cstr s \<noteq> s" using cstr_no_nul by metis
  then show ?thesis using length_cstr_le [of s] takeWhile_eq_take [of "\<lambda>c. c \<noteq> 0" s] by (fastforce simp: cstr_def order.order_iff_strict)
qed

lemma take_cstr_all: "0 \<in> set s \<Longrightarrow> length s = n + 1 \<Longrightarrow> take n (cstr s) = cstr s"
  using length_cstr_less [of s] by simp

lemma encode_ok:
  assumes "si_ok si"
  shows "session_info_encode si =
    [SESSION_INFO_FORMAT] @ put_u32 (si_tag si) @ put_u16 (si_host_version si) @ put_u16 (si_protocol si) @
     [si_cur_players si, si_max_players si] @ put_field (si_name si) SESSION_NAME_MAX @ put_field (si_map si) SESSION_MAP_MAX @
     si_map_header si @ si_match_id si @ put_u16 (si_codepage si) @ si_map_hash si @ put_u32 (si_map_size si)"
  using assms by (simp add: session_info_encode_def si_ok_def)

text \<open>The head that every format has, then the two texts.\<close>

lemma decode_head:
  assumes "si_ok si" "si_ok out"
  shows "session_info_decode ([SESSION_INFO_FORMAT] @ put_u32 (si_tag si) @ put_u16 (si_host_version si) @ put_u16 (si_protocol si) @
      [si_cur_players si, si_max_players si] @ put_field (si_name si) SESSION_NAME_MAX @ put_field (si_map si) SESSION_MAP_MAX @ r) out =
    (True, fst (take_map_hash 5 (take_codepage 5 (take_match_id 5 (take_map_header 5
       (out\<lparr> si_tag := si_tag si, si_host_version := si_host_version si, si_protocol := si_protocol si,
             si_cur_players := si_cur_players si, si_max_players := si_max_players si,
             si_name := memcpy_at (si_name out) 0 (cstr (si_name si) @ [0]),
             si_map := memcpy_at (si_map out) 0 (cstr (si_map si) @ [0]) \<rparr>, r))))))"
proof -
  let ?h = "[SESSION_INFO_FORMAT] @ put_u32 (si_tag si) @ put_u16 (si_host_version si) @ put_u16 (si_protocol si) @
      [si_cur_players si, si_max_players si]"
  have h: "length ?h = 11" by simp
  have l: "\<not> length (?h @ x) < 11" for x using h by simp
  have f: "SESSION_INFO_FORMAT = 5" by (simp add: SESSION_INFO_FORMAT_def)
  have d: "drop 11 (?h @ x) = x" "get_u32 (drop 1 (?h @ x)) = si_tag si" "get_u16 (drop 5 (?h @ x)) = si_host_version si"
    "get_u16 (drop 7 (?h @ x)) = si_protocol si" "(?h @ x) ! 9 = si_cur_players si" "(?h @ x) ! 10 = si_max_players si"
    "(?h @ x) ! 0 = 5" for x
    by (simp_all add: nth_append f)
  have c: "take SESSION_NAME_MAX (cstr (si_name si)) = cstr (si_name si)" "take SESSION_MAP_MAX (cstr (si_map si)) = cstr (si_map si)"
    using assms(1) by (simp_all add: si_ok_def take_cstr_all)
  have g: "get_field SESSION_NAME_MAX b (put_field (si_name si) SESSION_NAME_MAX @ x) = Some (memcpy_at b 0 (cstr (si_name si) @ [0]), x)"
    "get_field SESSION_MAP_MAX b (put_field (si_map si) SESSION_MAP_MAX @ x) = Some (memcpy_at b 0 (cstr (si_map si) @ [0]), x)" for b x
    by (simp_all only: get_put_field [OF small_fields(1)] get_put_field [OF small_fields(2)] c)
  have "session_info_decode (?h @ (put_field (si_name si) SESSION_NAME_MAX @ put_field (si_map si) SESSION_MAP_MAX @ r)) out =
    (True, fst (take_map_hash 5 (take_codepage 5 (take_match_id 5 (take_map_header 5
       (out\<lparr> si_tag := si_tag si, si_host_version := si_host_version si, si_protocol := si_protocol si,
             si_cur_players := si_cur_players si, si_max_players := si_max_players si,
             si_name := memcpy_at (si_name out) 0 (cstr (si_name si) @ [0]),
             si_map := memcpy_at (si_map out) 0 (cstr (si_map si) @ [0]) \<rparr>, r))))))"
    unfolding session_info_decode_def d Let_def if_not_P [OF l] by (simp add: g f)
  then show ?thesis by (simp only: append_assoc)
qed

lemma array_ok:
  assumes "0 \<in> set s" "length s = n" "length b = n"
  shows "length (memcpy_at b 0 (cstr s @ [0])) = n" "0 \<in> set (memcpy_at b 0 (cstr s @ [0]))"
  using length_cstr_less [OF assms(1)] assms by (simp_all add: memcpy_at_def)

lemma advert_decoded:
  assumes "si_ok si" "si_ok out" "session_info_decode (session_info_encode si @ r) out = (ok, si')"
  shows "ok \<and> si_tag si' = si_tag si \<and> si_host_version si' = si_host_version si \<and> si_protocol si' = si_protocol si \<and>
    si_cur_players si' = si_cur_players si \<and> si_max_players si' = si_max_players si \<and>
    cstr (si_name si') = cstr (si_name si) \<and> cstr (si_map si') = cstr (si_map si) \<and>
    si_has_map_header si' \<and> si_map_header si' = si_map_header si \<and> si_match_id si' = si_match_id si \<and>
    si_codepage si' = si_codepage si \<and> si_map_hash si' = si_map_hash si \<and> si_map_size si' = si_map_size si \<and>
    si_build si' = si_build out \<and> si_gameplay_digest si' = si_gameplay_digest out \<and> si_ok si'"
proof -
  have l: "length (si_map_header si) = MAP_HEADER_SIZE" "length (si_match_id si) = UUID7_BYTES" "length (si_map_hash si) = MAP_HASH_BYTES"
    using assms(1) by (simp_all add: si_ok_def)
  have e: "si' = out\<lparr> si_tag := si_tag si, si_host_version := si_host_version si, si_protocol := si_protocol si,
             si_cur_players := si_cur_players si, si_max_players := si_max_players si,
             si_name := memcpy_at (si_name out) 0 (cstr (si_name si) @ [0]),
             si_map := memcpy_at (si_map out) 0 (cstr (si_map si) @ [0]),
             si_map_header := si_map_header si, si_has_map_header := True, si_match_id := si_match_id si,
             si_codepage := si_codepage si, si_map_hash := si_map_hash si, si_map_size := si_map_size si \<rparr>" "ok"
    using l assms(3) [unfolded encode_ok [OF assms(1)] append_assoc decode_head [OF assms(1,2)]]
    by (auto simp: take_map_header_def take_match_id_def take_codepage_def take_map_hash_def)
  have "si_ok si'" using assms(1,2) array_ok [of "si_name si" _ "si_name out"] array_ok [of "si_map si" _ "si_map out"]
    unfolding e(1) by (simp add: si_ok_def)
  then show ?thesis using e(2) by (simp add: e(1) cstr_memcpy_nul cstr_no_nul)
qed

text \<open>C20. An advert round-trips: whatever follows it, and into whatever descriptor, it decodes to the host's tag,
  versions, player counts, names, map header, match identity, codepage, map hash and size; the two host-local
  fields stay the receiver's own; and it takes at most \<open>SESSION_INFO_MAX_ENCODED\<close> bytes.\<close>

theorem advert_round_trip:
  assumes "si_ok si" "si_ok out" "session_info_decode (session_info_encode si @ r) out = (ok, si')"
  shows "ok \<and> si_tag si' = si_tag si \<and> si_host_version si' = si_host_version si \<and> si_protocol si' = si_protocol si \<and>
    si_cur_players si' = si_cur_players si \<and> si_max_players si' = si_max_players si \<and>
    cstr (si_name si') = cstr (si_name si) \<and> cstr (si_map si') = cstr (si_map si) \<and>
    si_has_map_header si' \<and> si_map_header si' = si_map_header si \<and> si_match_id si' = si_match_id si \<and>
    si_codepage si' = si_codepage si \<and> si_map_hash si' = si_map_hash si \<and> si_map_size si' = si_map_size si \<and>
    si_build si' = si_build out \<and> si_gameplay_digest si' = si_gameplay_digest out \<and>
    length (session_info_encode si) \<le> SESSION_INFO_MAX_ENCODED"
proof -
  have "length (session_info_encode si) \<le> SESSION_INFO_MAX_ENCODED"
    using assms(1) by (simp add: encode_ok [OF assms(1)] length_put_field SESSION_INFO_MAX_ENCODED_def si_ok_def)
  then show ?thesis using advert_decoded [OF assms] by blast
qed

definition ex_info :: session_info where
  "ex_info = \<lparr> si_tag = 7, si_host_version = 1, si_protocol = 2, si_cur_players = 1, si_max_players = 8,
     si_name = replicate 32 0, si_map = replicate 32 0, si_has_map_header = False, si_map_header = replicate MAP_HEADER_SIZE 9,
     si_match_id = replicate 16 3, si_codepage = 65001, si_map_hash = replicate 8 4, si_map_size = 100,
     si_build = replicate 16 0, si_gameplay_digest = 5 \<rparr>"

lemma ex_info_ok: "si_ok ex_info"
  by (simp add: si_ok_def ex_info_def session_sizes)

theorem advert_round_trip_witness:
  "\<exists>ok si'. session_info_decode (session_info_encode ex_info @ [1]) ex_info = (ok, si') \<and> ok \<and> si_tag si' = si_tag ex_info"
proof -
  obtain ok si' where e: "session_info_decode (session_info_encode ex_info @ [1]) ex_info = (ok, si')" by fastforce
  from advert_round_trip [OF ex_info_ok ex_info_ok e] e show ?thesis by blast
qed

lemma tail_frames:
  "si_match_id (fst (take_map_hash f x)) = si_match_id (fst x)" "si_match_id (fst (take_codepage f x)) = si_match_id (fst x)"
  "si_has_map_header (fst (take_map_hash f x)) = si_has_map_header (fst x)"
  "si_has_map_header (fst (take_codepage f x)) = si_has_map_header (fst x)"
  by (simp_all add: take_map_hash_def take_codepage_def split: prod.split)

lemma take_three: "take (length a + length b + length c + k) (a @ b @ c @ x) = a @ b @ c @ take k x"
  by simp

text \<open>The decoder does not notice every truncation: an advert cut anywhere inside its map header, after the
  sixteenth byte of it, is accepted; the descriptor then has no map header, and as its match identity it has
  the first sixteen bytes of the map header.\<close>

theorem truncated_advert_is_misread:
  assumes ok: "si_ok si" "si_ok out" and k: "UUID7_BYTES \<le> k" "k < MAP_HEADER_SIZE"
    and cut: "n = 11 + length (put_field (si_name si) SESSION_NAME_MAX) + length (put_field (si_map si) SESSION_MAP_MAX) + k"
    and dec: "session_info_decode (take n (session_info_encode si)) out = (good, si')"
  shows "good \<and> n < length (session_info_encode si) \<and> \<not> si_has_map_header si' \<and>
    si_match_id si' = take UUID7_BYTES (si_map_header si)"
proof -
  let ?h = "[SESSION_INFO_FORMAT] @ put_u32 (si_tag si) @ put_u16 (si_host_version si) @ put_u16 (si_protocol si) @
      [si_cur_players si, si_max_players si]"
  let ?f = "put_field (si_name si) SESSION_NAME_MAX" and ?g = "put_field (si_map si) SESSION_MAP_MAX"
  have h: "length ?h = 11" by simp
  have lm: "length (si_map_header si) = MAP_HEADER_SIZE" using ok(1) by (simp add: si_ok_def)
  have "session_info_encode si = ?h @ ?f @ ?g @ si_map_header si @ si_match_id si @ put_u16 (si_codepage si) @
      si_map_hash si @ put_u32 (si_map_size si)" by (simp only: encode_ok [OF ok(1)] append_assoc)
  moreover have "take (length ?h + length ?f + length ?g + k) (?h @ ?f @ ?g @ x) = ?h @ ?f @ ?g @ take k x" for x by (rule take_three)
  ultimately have "take n (session_info_encode si) = ?h @ ?f @ ?g @ take k (si_map_header si @ si_match_id si @
      put_u16 (si_codepage si) @ si_map_hash si @ put_u32 (si_map_size si))" unfolding cut h by simp
  then have t: "take n (session_info_encode si) = ?h @ ?f @ ?g @ take k (si_map_header si)" using k lm by simp
  have n: "n < length (session_info_encode si)" using k lm by (simp add: cut encode_ok [OF ok(1)])
  have k2: "length (take k (si_map_header si)) = k" using k lm by simp
  note e = dec [unfolded t append_assoc decode_head [OF ok]]
  have "take UUID7_BYTES (take k (si_map_header si)) = take UUID7_BYTES (si_map_header si)" using k(1) by (simp add: min_def)
  with e n k k2 lm show ?thesis by (auto simp: tail_frames take_map_header_def take_match_id_def)
qed

theorem truncated_advert_is_misread_witness:
  "\<exists>good si'. session_info_decode (take 33 (session_info_encode ex_info)) ex_info = (good, si') \<and> good \<and>
     si_match_id si' = replicate 16 9"
proof -
  obtain good si' where e: "session_info_decode (take 33 (session_info_encode ex_info)) ex_info = (good, si')" by fastforce
  have n: "33 = 11 + length (put_field (si_name ex_info) SESSION_NAME_MAX) + length (put_field (si_map ex_info) SESSION_MAP_MAX) + 20"
    by (simp add: length_put_field ex_info_def cstr_def)
  have "UUID7_BYTES \<le> 20" "20 < MAP_HEADER_SIZE" by (simp_all add: session_sizes)
  from truncated_advert_is_misread [OF ex_info_ok ex_info_ok this n e]
  have "good \<and> si_match_id si' = replicate 16 9" by (simp add: ex_info_def session_sizes)
  with e show ?thesis by blast
qed

subsection \<open>Lobbies\<close>

lemma upper_hex_nth_inj: "x < 16 \<Longrightarrow> y < 16 \<Longrightarrow> upper_hex_digits ! x = upper_hex_digits ! y \<Longrightarrow> x = y"
proof -
  assume "x < 16" "y < 16" and e: "upper_hex_digits ! x = upper_hex_digits ! y"
  have "distinct upper_hex_digits" "length upper_hex_digits = 16" by (simp_all add: upper_hex_digits_def ascii_def)
  with \<open>x < 16\<close> \<open>y < 16\<close> e show "x = y" by (simp add: nth_eq_iff_index_eq)
qed

lemma nibble_u32: "unat (x AND 0xf) < 16" "x AND 0xf = take_bit 4 x" for x :: u32
proof -
  show m: "x AND 0xf = take_bit 4 x" by (simp add: take_bit_eq_mask mask_eq_exp_minus_1)
  show "unat (x AND 0xf) < 16" unfolding m by (simp add: unsigned_take_bit_eq) (simp add: take_bit_eq_mod)
qed

lemma hex8_inj: "hex8 v = hex8 w \<Longrightarrow> v = w"
proof (rule bit_word_eqI)
  fix k assume e: "hex8 v = hex8 w" and k: "k < LENGTH(32)"
  let ?i = "7 - k div 4"
  have i: "?i < 8" "28 - 4 * ?i = 4 * (k div 4)" using k by auto
  have "hex8 u ! ?i = upper_hex_digits ! unat (drop_bit (4 * (k div 4)) u AND 0xf)" for u
    using i by (simp only: hex8_def nth_map length_upt nth_upt) simp
  then have "upper_hex_digits ! unat (drop_bit (4 * (k div 4)) v AND 0xf) = upper_hex_digits ! unat (drop_bit (4 * (k div 4)) w AND 0xf)"
    using e by metis
  then have "take_bit 4 (drop_bit (4 * (k div 4)) v) = take_bit 4 (drop_bit (4 * (k div 4)) w)"
    using upper_hex_nth_inj [OF nibble_u32(1) nibble_u32(1)] nibble_u32(2) by (metis word_unat_eq_iff)
  then have "bit (take_bit 4 (drop_bit (4 * (k div 4)) v)) (k mod 4) = bit (take_bit 4 (drop_bit (4 * (k div 4)) w)) (k mod 4)" by simp
  then show "bit v k = bit w k" by (simp add: bit_take_bit_iff bit_drop_bit_eq)
qed

lemma hex8_no_nul: "0 \<notin> set (hex8 v)"
proof -
  have "length upper_hex_digits = 16" "\<forall>c\<in>set upper_hex_digits. c \<noteq> 0" by (simp_all add: upper_hex_digits_def ascii_def)
  then show ?thesis using nibble_u32(1) by (auto simp: hex8_def)
qed

lemma cstr_lobby_id:
  assumes "si_ok si" "length out = 41"
  shows "cstr (lobby_id_str si out) = cstr (si_name si) @ [0x23] @ hex8 (si_tag si)"
proof -
  have "length (cstr (si_name si)) \<le> 31" using assms(1) length_cstr_less [of "si_name si"] by (simp add: si_ok_def session_sizes)
  moreover have "0 \<notin> set (cstr (si_name si) @ [0x23] @ hex8 (si_tag si))" using cstr_no_nul hex8_no_nul by simp
  ultimately show ?thesis
    using cstr_snprintf [of out "cstr (si_name si) @ [0x23] @ hex8 (si_tag si)"] assms(2) by (simp add: lobby_id_str_def)
qed

text \<open>The printed lobby identity is the lobby: two descriptors print the same \<open>name#TAG\<close> (in a buffer that
  holds every one) exactly when they denote the same lobby.\<close>

theorem lobby_id_names_the_lobby:
  assumes "si_ok a" "si_ok b" "length o1 = 41" "length o2 = 41"
  shows "cstr (lobby_id_str a o1) = cstr (lobby_id_str b o2) \<longleftrightarrow> session_same_lobby a b"
proof -
  have "cstr (si_name a) @ [0x23] @ hex8 (si_tag a) = cstr (si_name b) @ [0x23] @ hex8 (si_tag b) \<longleftrightarrow>
      cstr (si_name a) = cstr (si_name b) \<and> hex8 (si_tag a) = hex8 (si_tag b)"
  proof
    assume e: "cstr (si_name a) @ [0x23] @ hex8 (si_tag a) = cstr (si_name b) @ [0x23] @ hex8 (si_tag b)"
    then have "length (cstr (si_name a)) = length (cstr (si_name b))" by (metis add_right_cancel length_append length_hex8)
    with e show "cstr (si_name a) = cstr (si_name b) \<and> hex8 (si_tag a) = hex8 (si_tag b)" by simp
  qed simp
  then show ?thesis using hex8_inj unfolding cstr_lobby_id [OF assms(1,3)] cstr_lobby_id [OF assms(2,4)]
    by (auto simp: session_same_lobby_def)
qed

theorem lobby_id_names_the_lobby_witness:
  "cstr (lobby_id_str ex_info (replicate 41 0)) = cstr (lobby_id_str (ex_info\<lparr> si_tag := 8 \<rparr>) (replicate 41 0)) \<longleftrightarrow>
    session_same_lobby ex_info (ex_info\<lparr> si_tag := 8 \<rparr>)"
  by (rule lobby_id_names_the_lobby) (simp_all add: si_ok_def ex_info_def session_sizes)

text \<open>A relay room that fits its 30 bits goes into a sender and comes back.\<close>

lemma relay_room_round_trip:
  "room \<le> SESSION_RELAY_ROOM_MAX \<Longrightarrow> session_sender_is_relay (session_sender_for_relay_room room) \<and>
     session_sender_relay_room (session_sender_for_relay_room room) = room"
proof -
  assume r: "room \<le> SESSION_RELAY_ROOM_MAX"
  have base: "SESSION_SENDER_RELAY_BASE = push_bit 30 1" and m: "uint SESSION_RELAY_ROOM_MAX = mask 30"
    by (simp_all add: SESSION_SENDER_RELAY_BASE_def SESSION_RELAY_ROOM_MAX_def mask_eq_exp_minus_1)
  have u: "0 \<le> uint room" "uint room < 2 ^ 30" using r m by (simp_all add: word_le_def mask_eq_exp_minus_1)
  then have t: "take_bit 30 (uint room) = uint room" by (simp add: take_bit_int_eq_self)
  have "push_bit m 1 AND take_bit m x = 0" for m and x :: int by (rule bit_eqI) (auto simp: bit_simps)
  from this [of 30 "uint room"] have "push_bit 30 1 AND uint room = 0" by (simp only: t)
  then have s: "push_bit 30 1 OR uint room = push_bit 30 1 + uint room" by (metis disjunctive_add_eq_or)
  have "take_bit 30 (1073741824 + uint room) = uint room" using u by (simp add: take_bit_eq_mod)
  moreover have "session_sender_for_relay_room room = SESSION_SENDER_RELAY_BASE OR uint room"
    using leD [OF r] by (simp only: session_sender_for_relay_room_def if_False)
  ultimately show ?thesis using u s
    by (simp add: session_sender_is_relay_def session_sender_relay_room_def base m
        take_bit_eq_mask [symmetric] not_less)
qed

end
