(* ===== verification/Map_Name.thy ===== *)
theory Map_Name
  imports Session_Info
begin

text \<open>
  The identity of a map by content (\<open>mh_net_proto/src/session_info.cpp\<close>): eight bytes of the SHA-256 of its
  file, their text, the name under which a downloaded map is stored, and the recogniser of such names.  A name
  is a C string; \<open>None\<close> is the null pointer; \<open>out\<close> is as long as its capacity.
\<close>

definition MAP_HASH_HEX_CAP :: nat where "MAP_HASH_HEX_CAP = MAP_HASH_BYTES * 2 + 1"
definition MAP_STORED_NAME_CAP :: nat where "MAP_STORED_NAME_CAP = SESSION_MAP_MAX + 1 + MAP_HASH_BYTES * 2 + 1"

definition map_hash_from_sha256 :: "bytes \<Rightarrow> bytes" where
  "map_hash_from_sha256 sha = take MAP_HASH_BYTES sha"

definition map_hash_is_none :: "bytes \<Rightarrow> bool" where
  "map_hash_is_none h = list_all (\<lambda>i. h ! i = 0) [0..<MAP_HASH_BYTES]"

definition map_hash_equal :: "bytes \<Rightarrow> bytes \<Rightarrow> bool" where
  "map_hash_equal a b \<longleftrightarrow> take MAP_HASH_BYTES a = take MAP_HASH_BYTES b"

definition map_hash_hex :: "bytes \<Rightarrow> bytes \<Rightarrow> bytes" where
  "map_hash_hex h out =
     (if length out < MAP_HASH_HEX_CAP then (if length out > 0 then out[0 := 0] else out)
      else memcpy_at out 0 (concat (map (\<lambda>i. hex_pair (h ! i)) [0..<MAP_HASH_BYTES]) @ [0]))"

text \<open>The place of the last dot in the first \<open>n\<close> characters, \<open>n\<close> without one.\<close>

definition last_dot :: "bytes \<Rightarrow> nat \<Rightarrow> nat" where
  "last_dot s n = (case find (\<lambda>i. s ! i = 0x2e) (rev [0..<n]) of None \<Rightarrow> n | Some i \<Rightarrow> i)"

definition map_stored_name :: "bytes option \<Rightarrow> bytes \<Rightarrow> bytes \<Rightarrow> nat \<times> bytes" where
  "map_stored_name base hash out =
     (case base of None \<Rightarrow> (0, out)
      | Some base \<Rightarrow>
          if length out = 0 then (0, out)
          else let blen = clamp_len base MAP_STORED_NAME_CAP in
            if blen = 0 then (0, out)
            else
              let dot = last_dot base blen;
                  hex = map_hash_hex hash (replicate MAP_HASH_HEX_CAP 0);
                  need = blen + 1 + MAP_HASH_BYTES * 2
              in if need + 1 > length out then (0, out)
                 else let txt = take dot base @ [0x2e] @ take (MAP_HASH_BYTES * 2) hex @ drop dot (take blen base)
                      in (length txt, memcpy_at out 0 (txt @ [0])))"

definition is_lower_hex :: "u8 \<Rightarrow> bool" where
  "is_lower_hex c \<longleftrightarrow> 0x30 \<le> c \<and> c \<le> 0x39 \<or> 0x61 \<le> c \<and> c \<le> 0x66"

definition map_name_is_stored_form :: "bytes option \<Rightarrow> bytes option \<Rightarrow> bool" where
  "map_name_is_stored_form name base =
     (case (name, base) of
        (Some name, Some base) \<Rightarrow>
          (let s = cstr name; blen = clamp_len base MAP_STORED_NAME_CAP in
           if blen = 0 then False
           else let dot = last_dot base blen; w = dot + 1 + MAP_HASH_BYTES * 2 in
             list_all (\<lambda>i. char_at s i = base ! i) [0..<dot] \<and> char_at s dot = 0x2e \<and>
             list_all (\<lambda>i. is_lower_hex (char_at s (dot + 1 + i))) [0..<MAP_HASH_BYTES * 2] \<and>
             list_all (\<lambda>i. char_at s (w + (i - dot)) = base ! i) [dot..<blen] \<and>
             char_at s (w + (blen - dot)) = 0)
      | _ \<Rightarrow> False)"

subsection \<open>The text of a hash\<close>

lemma map_hash_hex_text:
  assumes "length h = MAP_HASH_BYTES"
  shows "take (MAP_HASH_BYTES * 2) (map_hash_hex h (replicate MAP_HASH_HEX_CAP 0)) = hex_text h"
proof -
  have "map (\<lambda>i. hex_pair (h ! i)) [0..<MAP_HASH_BYTES] = map hex_pair h" using assms by (intro nth_equalityI) simp_all
  then have "map_hash_hex h (replicate MAP_HASH_HEX_CAP 0) = hex_text h @ [0]"
    using length_hex_text [of h] assms by (simp add: map_hash_hex_def hex_text_def MAP_HASH_HEX_CAP_def memcpy_at_def)
  then show ?thesis using length_hex_text [of h] assms by simp
qed

lemma is_lower_hex_iff: "is_lower_hex c \<longleftrightarrow> (\<exists>x<16. c = hex_digits ! x)"
proof
  assume "is_lower_hex c"
  then obtain x where "hex_nib c = Some x" "lower c = c"
    by (auto simp: is_lower_hex_def hex_nib_def lower_def word_le_nat_alt split: if_splits)
  then show "\<exists>x<16. c = hex_digits ! x" by (auto simp: hex_nib_iff)
next
  assume "\<exists>x<16. c = hex_digits ! x"
  then obtain x where x: "x < 16" "c = hex_digits ! x" by blast
  then have "unat c = (if x < 10 then 48 + x else 87 + x)" by (simp add: unat_hex_digits)
  then show "is_lower_hex c" using x(1) by (auto simp: is_lower_hex_def word_le_nat_alt split: if_splits)
qed

lemma hex_digits_inj: "x < 16 \<Longrightarrow> y < 16 \<Longrightarrow> hex_digits ! x = hex_digits ! y \<Longrightarrow> x = y"
proof -
  assume x: "x < 16" and y: "y < 16" and e: "hex_digits ! x = hex_digits ! y"
  then have "(if x < 10 then 48 + x else 87 + x) = (if y < 10 then 48 + y else 87 + y)"
    by (simp only: unat_hex_digits [symmetric])
  then show "x = y" using x y by (auto split: if_splits)
qed

lemma hex_text_inj: "hex_text a = hex_text b \<Longrightarrow> a = b"
proof (induction a arbitrary: b)
  case Nil
  then show ?case by (cases b) (simp_all add: hex_text_def hex_pair_def)
next
  case (Cons x a)
  then obtain y c where b: "b = y # c" by (cases b) (simp_all add: hex_text_def hex_pair_def)
  then have "hex_pair x = hex_pair y" "hex_text a = hex_text c" using Cons.prems by (simp_all add: hex_text_def hex_pair_def)
  moreover have "x = y"
    using \<open>hex_pair x = hex_pair y\<close> hex_digits_inj nibble_lt byte_nibbles [OF nibble_lt, of x x x] byte_nibbles [OF nibble_lt, of y y y]
    by (simp add: hex_pair_eq) metis
  ultimately show ?case using Cons.IH b by blast
qed

lemma hex_text_surj: "length cs = 2 * n \<Longrightarrow> \<forall>c\<in>set cs. is_lower_hex c \<Longrightarrow> \<exists>h. length h = n \<and> hex_text h = cs"
proof (induction n arbitrary: cs)
  case (Suc n)
  then obtain a b ds where cs: "cs = a # b # ds" by (auto simp: length_Suc_conv)
  with Suc.prems obtain x y where xy: "x < 16" "y < 16" "a = hex_digits ! x" "b = hex_digits ! y" by (auto simp: is_lower_hex_iff)
  from Suc.IH [of ds] Suc.prems cs obtain h where h: "length h = n" "hex_text h = ds" by auto
  define v :: u8 where "v = of_nat (push_bit 4 x OR y)"
  have "x = unat (drop_bit 4 v)" "y = unat (v AND 0xf)" using byte_nibbles [OF xy(1,2), of v] v_def by auto
  then have "hex_pair v = [a, b]" using xy by (simp add: hex_pair_eq)
  then show ?case using h cs by (intro exI [of _ "v # h"]) (simp add: hex_text_def)
qed (simp add: hex_text_def)

subsection \<open>Stored names\<close>

lemma stored_name_text:
  assumes h: "length h = MAP_HASH_BYTES" and b: "cstr base \<noteq> []" and o: "2 * MAP_STORED_NAME_CAP \<le> length out"
  defines "n \<equiv> clamp_len base MAP_STORED_NAME_CAP"
  shows "map_stored_name (Some base) h out = (n + 17, memcpy_at out 0 ((take (last_dot base n) base @ [0x2e] @ hex_text h @
      drop (last_dot base n) (take n base)) @ [0]))"
    "cstr (snd (map_stored_name (Some base) h out)) = take (last_dot base n) base @ [0x2e] @ hex_text h @ drop (last_dot base n) (take n base)"
    "0 < n" "n \<le> length (cstr base)" "last_dot base n \<le> n" "take n base = take n (cstr base)"
proof -
  show n: "0 < n" "n \<le> length (cstr base)" using b by (simp_all add: n_def clamp_len_eq MAP_STORED_NAME_CAP_def)
  then show t: "take n base = take n (cstr base)" using take_cstr by blast
  show d: "last_dot base n \<le> n" by (auto simp: last_dot_def find_Some_iff rev_nth split: option.split)
  have le: "n \<le> MAP_STORED_NAME_CAP" by (simp add: n_def clamp_len_eq)
  let ?t = "take (last_dot base n) base @ [0x2e] @ hex_text h @ drop (last_dot base n) (take n base)"
  have "length base \<ge> n" using n(2) length_cstr_le [of base] by simp
  then have l: "length ?t = n + 17" using d h by (simp add: length_hex_text MAP_HASH_BYTES_def)
  have z: "\<not> n + 1 + MAP_HASH_BYTES * 2 + 1 > length out" "length out \<noteq> 0"
    using le o by (auto simp: MAP_STORED_NAME_CAP_def session_sizes)
  show e: "map_stored_name (Some base) h out = (n + 17, memcpy_at out 0 (?t @ [0]))"
    using n(1) z l unfolding map_stored_name_def option.case Let_def n_def [symmetric] map_hash_hex_text [OF h] by simp
  have "take (last_dot base n) base = take (last_dot base n) (take n base)" using d by (simp add: min_def)
  then have "0 \<notin> set ?t" using cstr_no_nul [of base] unfolding t by (auto dest: in_set_takeD in_set_dropD)
  then show "cstr (snd (map_stored_name (Some base) h out)) = ?t" unfolding e snd_conv by (rule cstr_memcpy_nul)
qed

lemma char_at_0: "0 \<notin> set s \<Longrightarrow> char_at s i = 0 \<longleftrightarrow> length s \<le> i"
  by (auto simp: char_at_def not_le) (metis nth_mem)

text \<open>The conditions of the recogniser on a text \<open>s\<close>, and the texts that meet them.\<close>

definition stored_form :: "bytes \<Rightarrow> bytes \<Rightarrow> nat \<Rightarrow> nat \<Rightarrow> bool" where
  "stored_form s base n dot \<longleftrightarrow> (\<forall>i<dot. char_at s i = base ! i) \<and> char_at s dot = 0x2e \<and>
     (\<forall>i<16. is_lower_hex (char_at s (dot + 1 + i))) \<and> (\<forall>i. dot \<le> i \<and> i < n \<longrightarrow> char_at s (i + 17) = base ! i) \<and>
     char_at s (n + 17) = 0"

lemma stored_form_text:
  assumes "0 \<notin> set (take n base)" "n \<le> length base" "dot \<le> n" "length h = 8"
    and "s = take dot base @ [0x2e] @ hex_text h @ drop dot (take n base)"
  shows "stored_form s base n dot"
proof -
  have l: "length s = n + 17" using assms by (simp add: length_hex_text)
  have "s ! i = base ! i" if "i < dot" for i using that assms by (simp add: nth_append)
  moreover have "s ! dot = 0x2e" using assms by (simp add: nth_append)
  moreover have "is_lower_hex (s ! (dot + 1 + i))" if "i < 16" for i
  proof -
    have "s ! (dot + 1 + i) = hex_text h ! i" using that assms by (simp add: nth_append length_hex_text)
    moreover have "hex_text h ! i \<in> set (hex_text h)" using that assms(4) by (simp add: length_hex_text)
    moreover have "\<forall>c\<in>set (hex_text h). is_lower_hex c" using nibble_lt by (auto simp: hex_text_def hex_pair_eq is_lower_hex_iff)
    ultimately show ?thesis by simp
  qed
  moreover have "s ! (i + 17) = base ! i" if "dot \<le> i" "i < n" for i
  proof -
    from that(1) obtain j where "i = dot + j" by (auto simp: le_iff_add)
    with that assms show ?thesis by (simp add: nth_append length_hex_text)
  qed
  ultimately show ?thesis using l assms(3) by (simp add: stored_form_def char_at_def)
qed

lemma stored_form_surj:
  assumes "0 \<notin> set (take n base)" "n \<le> length base" "dot \<le> n" "0 \<notin> set s" "stored_form s base n dot"
  shows "\<exists>h. length h = 8 \<and> s = take dot base @ [0x2e] @ hex_text h @ drop dot (take n base)"
proof -
  note f = assms(5) [unfolded stored_form_def]
  have z: "char_at s i = 0 \<longleftrightarrow> length s \<le> i" for i by (rule char_at_0 [OF assms(4)])
  have "char_at s (n + 16) \<noteq> 0"
  proof (cases "dot < n")
    case True
    then obtain m where m: "n = Suc m" by (cases n) auto
    then have "char_at s (m + 17) = base ! m" using f True by simp
    moreover have "base ! m \<in> set (take n base)" using m assms(2) by (auto simp: in_set_conv_nth)
    ultimately show ?thesis using assms(1) m by (auto simp: eval_nat_numeral)
  next
    case False
    have "(15 :: nat) < 16" by simp
    then have "is_lower_hex (char_at s (dot + 1 + 15))" using f by blast
    moreover have "dot + 1 + 15 = n + 16" using False assms(3) by simp
    ultimately show ?thesis by (simp only:) (auto simp: is_lower_hex_def)
  qed
  then have "\<not> length s \<le> n + 16" "length s \<le> n + 17" using f z by blast+
  then have l: "length s = n + 17" by simp
  let ?x = "take 16 (drop (dot + 1) s)"
  have "\<forall>c\<in>set ?x. is_lower_hex c"
  proof
    fix c assume "c \<in> set ?x"
    then obtain i where "i < 16" "c = s ! (dot + 1 + i)" using l assms(3) by (auto simp: in_set_conv_nth)
    then show "is_lower_hex c" using f l assms(3) by (auto simp: char_at_def)
  qed
  moreover have "length ?x = 2 * 8" using l assms(3) by simp
  ultimately obtain h where h: "length h = 8" "hex_text h = ?x" using hex_text_surj by blast
  have "s = take dot base @ [0x2e] @ ?x @ drop dot (take n base)"
  proof (rule nth_equalityI)
    show "length s = length (take dot base @ [0x2e] @ ?x @ drop dot (take n base))" using l assms(2,3) by simp
    fix i assume i: "i < length s"
    consider "i < dot" | "i = dot" | "dot < i" "i < dot + 17" | "dot + 17 \<le> i" by linarith
    then show "s ! i = (take dot base @ [0x2e] @ ?x @ drop dot (take n base)) ! i"
    proof cases
      case 4
      then have "dot \<le> i - 17 \<and> i - 17 < n" using i l by linarith
      then have "char_at s (i - 17 + 17) = base ! (i - 17)" using f by blast
      moreover obtain j where "i = dot + 17 + j" using 4 by (auto simp: le_iff_add)
      ultimately show ?thesis using i l assms(2,3) by (simp add: nth_append char_at_def ac_simps)
    next
      case 3
      then have "i - Suc dot < 16" by simp
      with 3 l assms(2,3) show ?thesis by (simp add: nth_append)
    qed (use f i l assms(2,3) in \<open>simp_all add: nth_append char_at_def\<close>)
  qed
  with h show ?thesis by metis
qed

text \<open>A stored name says which base name and which content it is for: the recogniser accepts exactly the names that
  \<open>map_stored_name\<close> builds from that base for some content hash, and names built for different contents are different.\<close>

theorem stored_names_are_recognised:
  assumes o: "2 * MAP_STORED_NAME_CAP \<le> length out"
  shows "(map_name_is_stored_form (Some name) (Some base) \<longleftrightarrow> cstr base \<noteq> [] \<and>
      (\<exists>h. length h = MAP_HASH_BYTES \<and> cstr (snd (map_stored_name (Some base) h out)) = cstr name)) \<and>
    (cstr base \<noteq> [] \<and> length h1 = MAP_HASH_BYTES \<and> length h2 = MAP_HASH_BYTES \<and>
      cstr (snd (map_stored_name (Some base) h1 out)) = cstr (snd (map_stored_name (Some base) h2 out)) \<longrightarrow> h1 = h2)"
proof (cases "cstr base = []")
  case True
  then show ?thesis by (simp add: map_name_is_stored_form_def clamp_len_eq)
next
  case False
  let ?n = "clamp_len base MAP_STORED_NAME_CAP" and ?s = "cstr name"
  let ?d = "last_dot base ?n"
  note t = stored_name_text [OF _ False o]
  obtain h0 :: bytes where "length h0 = MAP_HASH_BYTES" using Ex_list_of_length by blast
  note b = t(3-6) [OF this]
  have nz: "0 \<notin> set (take ?n base)" "?n \<le> length base" using b(2,4) cstr_no_nul [of base] length_cstr_le [of base] by (auto dest: in_set_takeD)
  have e: "?n - ?d + (?d + 17) = ?n + 17" using b(3) by simp
  have "map_name_is_stored_form (Some name) (Some base) \<longleftrightarrow> stored_form ?s base ?n ?d"
    using b(1) e by (auto simp: map_name_is_stored_form_def stored_form_def Let_def list_all_iff MAP_HASH_BYTES_def add.commute)
  also have "\<dots> \<longleftrightarrow> (\<exists>h. length h = 8 \<and> ?s = take ?d base @ [0x2e] @ hex_text h @ drop ?d (take ?n base))"
    using stored_form_text [OF nz b(3)] stored_form_surj [OF nz b(3) cstr_no_nul] by blast
  also have "\<dots> \<longleftrightarrow> (\<exists>h. length h = MAP_HASH_BYTES \<and> cstr (snd (map_stored_name (Some base) h out)) = ?s)"
    using t(2) by (auto simp: MAP_HASH_BYTES_def)
  finally have r: "map_name_is_stored_form (Some name) (Some base) \<longleftrightarrow>
      (\<exists>h. length h = MAP_HASH_BYTES \<and> cstr (snd (map_stored_name (Some base) h out)) = ?s)" .
  have "h1 = h2" if "length h1 = MAP_HASH_BYTES" "length h2 = MAP_HASH_BYTES"
    "cstr (snd (map_stored_name (Some base) h1 out)) = cstr (snd (map_stored_name (Some base) h2 out))"
    using that(3) length_hex_text [of h1] length_hex_text [of h2] that(1,2) hex_text_inj
    unfolding t(2) [OF that(1)] t(2) [OF that(2)] by simp
  with r False show ?thesis by blast
qed

theorem stored_names_are_recognised_witness:
  "map_name_is_stored_form (Some [0x61]) (Some [0x61]) \<longleftrightarrow> cstr [0x61] \<noteq> [] \<and>
      (\<exists>h. length h = MAP_HASH_BYTES \<and> cstr (snd (map_stored_name (Some [0x61]) h (replicate 98 0))) = cstr [0x61])"
  by (rule conjunct1 [OF stored_names_are_recognised]) (simp add: MAP_STORED_NAME_CAP_def session_sizes)

end
