(* ===== verification/Join_Request.thy ===== *)
theory Join_Request
  imports Session_Info
begin

text \<open>
  The request to join a lobby and the host's verdict on it (\<open>mh_net_proto/src/session_info.cpp\<close>): seven
  formats are parsed so that a refusal can say which one it refuses, and \<open>join_admit\<close> decides.  A decoder
  that fails leaves the output as far as it got.
\<close>

definition JOIN_REQUEST_FORMAT :: u8 where "JOIN_REQUEST_FORMAT = 7"
definition JOIN_REQUEST_MIN_FORMAT :: u8 where "JOIN_REQUEST_MIN_FORMAT = 7"

record join_request =
  jr_tag :: u32
  jr_name :: bytes
  jr_player_name :: bytes
  jr_match_id :: bytes
  jr_codepage :: u16
  jr_map_hash :: bytes
  jr_build :: bytes
  jr_gameplay_digest :: u32
  jr_format :: u8

definition join_request0 :: join_request where
  "join_request0 = \<lparr> jr_tag = 0, jr_name = replicate (SESSION_NAME_MAX + 1) 0, jr_player_name = replicate (PLAYER_NAME_MAX + 1) 0,
     jr_match_id = replicate UUID7_BYTES 0, jr_codepage = 0, jr_map_hash = replicate MAP_HASH_BYTES 0,
     jr_build = replicate (BUILD_MAX + 1) 0, jr_gameplay_digest = 0, jr_format = JOIN_REQUEST_FORMAT \<rparr>"

definition JOIN_REQUEST_MAX_ENCODED :: nat where
  "JOIN_REQUEST_MAX_ENCODED = 1 + 4 + (1 + SESSION_NAME_MAX) + (1 + PLAYER_NAME_MAX) + UUID7_BYTES + 2 + MAP_HASH_BYTES +
     (1 + BUILD_MAX) + 4"

datatype join_admit_verdict = Admit | RefusedMalformed | RefusedOldProtocol | RefusedNewerProtocol | RefusedWrongLobby
  | RefusedCodepage | RefusedBuild | RefusedGameplay

definition join_request_encode :: "join_request \<Rightarrow> bytes" where
  "join_request_encode jr =
     [JOIN_REQUEST_FORMAT] @ put_u32 (jr_tag jr) @ put_field (jr_name jr) SESSION_NAME_MAX @
     put_field (jr_player_name jr) PLAYER_NAME_MAX @ take UUID7_BYTES (jr_match_id jr) @ put_u16 (jr_codepage jr) @
     take MAP_HASH_BYTES (jr_map_hash jr) @ put_field (jr_build jr) BUILD_MAX @ put_u32 (jr_gameplay_digest jr)"

subsection \<open>The decoder\<close>

text \<open>One step of the decoder per field, on the request so far and the bytes that are left.\<close>

type_synonym jr_state = "join_request \<times> bytes"

definition and_then :: "bool \<times> jr_state \<Rightarrow> (jr_state \<Rightarrow> bool \<times> jr_state) \<Rightarrow> bool \<times> jr_state" where
  "and_then r f = (case r of (ok, s) \<Rightarrow> if ok then f s else (False, s))"

definition read_name :: "jr_state \<Rightarrow> bool \<times> jr_state" where
  "read_name = (\<lambda>(out, p).
     case get_field SESSION_NAME_MAX (jr_name out) p of None \<Rightarrow> (False, out, p)
     | Some (name, p) \<Rightarrow> (True, out\<lparr> jr_name := name \<rparr>, p))"

definition read_player :: "u8 \<Rightarrow> jr_state \<Rightarrow> bool \<times> jr_state" where
  "read_player fmt = (\<lambda>(out, p).
     let out = out\<lparr> jr_player_name := (jr_player_name out)[0 := 0], jr_match_id := replicate UUID7_BYTES 0 \<rparr> in
     if fmt \<ge> 2 \<and> p \<noteq> []
     then case get_field PLAYER_NAME_MAX (jr_player_name out) p of None \<Rightarrow> (False, out, p)
          | Some (name, p) \<Rightarrow> (True, out\<lparr> jr_player_name := name \<rparr>, p)
     else (True, out, p))"

definition read_match_id :: "u8 \<Rightarrow> jr_state \<Rightarrow> bool \<times> jr_state" where
  "read_match_id fmt = (\<lambda>(out, p).
     let out = out\<lparr> jr_codepage := 0 \<rparr> in
     if fmt \<ge> 3
     then if UUID7_BYTES > length p then (False, out, p)
          else (True, out\<lparr> jr_match_id := take UUID7_BYTES p \<rparr>, drop UUID7_BYTES p)
     else (True, out, p))"

definition read_codepage :: "u8 \<Rightarrow> jr_state \<Rightarrow> bool \<times> jr_state" where
  "read_codepage fmt = (\<lambda>(out, p).
     if fmt \<ge> 4
     then if 2 > length p then (False, out, p) else (True, out\<lparr> jr_codepage := get_u16 p \<rparr>, drop 2 p)
     else (True, out, p))"

definition read_map_hash :: "u8 \<Rightarrow> jr_state \<Rightarrow> bool \<times> jr_state" where
  "read_map_hash fmt = (\<lambda>(out, p).
     let out = out\<lparr> jr_map_hash := replicate MAP_HASH_BYTES 0 \<rparr> in
     if fmt \<ge> 5
     then if MAP_HASH_BYTES > length p then (False, out, p)
          else (True, out\<lparr> jr_map_hash := take MAP_HASH_BYTES p \<rparr>, drop MAP_HASH_BYTES p)
     else (True, out, p))"

definition read_build :: "u8 \<Rightarrow> jr_state \<Rightarrow> bool \<times> jr_state" where
  "read_build fmt = (\<lambda>(out, p).
     let out = out\<lparr> jr_build := (jr_build out)[0 := 0] \<rparr> in
     if fmt \<ge> 6
     then case get_field BUILD_MAX (jr_build out) p of None \<Rightarrow> (False, out, p)
          | Some (b, p) \<Rightarrow> (True, out\<lparr> jr_build := b \<rparr>, p)
     else (True, out, p))"

definition read_digest :: "u8 \<Rightarrow> jr_state \<Rightarrow> bool \<times> jr_state" where
  "read_digest fmt = (\<lambda>(out, p).
     let out = out\<lparr> jr_gameplay_digest := 0 \<rparr> in
     if fmt \<ge> 7
     then if 4 > length p then (False, out, p) else (True, out\<lparr> jr_gameplay_digest := get_u32 p \<rparr>, drop 4 p)
     else (True, out, p))"

definition join_request_decode :: "bytes \<Rightarrow> join_request \<Rightarrow> bool \<times> join_request" where
  "join_request_decode inp out =
     (if length inp < 5 then (False, out)
      else let fmt = inp ! 0 in
        if fmt < 1 \<or> fmt > JOIN_REQUEST_FORMAT then (False, out)
        else
          let out = out\<lparr> jr_format := fmt, jr_tag := get_u32 (drop 1 inp) \<rparr>;
              r = read_name (out, drop 5 inp);
              r = and_then r (read_player fmt);
              r = and_then r (read_match_id fmt);
              r = and_then r (read_codepage fmt);
              r = and_then r (read_map_hash fmt);
              r = and_then r (read_build fmt);
              r = and_then r (read_digest fmt)
          in (fst r, fst (snd r)))"

subsection \<open>Asking and deciding\<close>

text \<open>The joiner's request for an advert; its own codepage, map hash, release and digest.\<close>

definition join_request_for :: "session_info \<Rightarrow> u16 \<Rightarrow> bytes option \<Rightarrow> bytes option \<Rightarrow> u32 \<Rightarrow> join_request" where
  "join_request_for si my_codepage my_map_hash my_build my_gameplay_digest =
     (let jr = join_request0\<lparr> jr_gameplay_digest := my_gameplay_digest, jr_tag := si_tag si \<rparr>;
          n = clamp_len (si_name si) SESSION_NAME_MAX;
          jr = jr\<lparr> jr_name := memcpy_at (jr_name jr) 0 (take n (si_name si) @ [0]),
                  jr_match_id := take UUID7_BYTES (si_match_id si), jr_codepage := my_codepage \<rparr>;
          jr = (case my_map_hash of None \<Rightarrow> jr | Some h \<Rightarrow> jr\<lparr> jr_map_hash := take MAP_HASH_BYTES h \<rparr>)
      in case my_build of None \<Rightarrow> jr
         | Some b \<Rightarrow> jr\<lparr> jr_build := memcpy_at (jr_build jr) 0 (take (clamp_len b BUILD_MAX) b @ [0]) \<rparr>)"

definition join_matches_session :: "join_request \<Rightarrow> session_info \<Rightarrow> bool" where
  "join_matches_session jr si \<longleftrightarrow> jr_tag jr = si_tag si \<and> cstr (jr_name jr) = cstr (si_name si)"

definition join_admit :: "bytes \<Rightarrow> session_info \<Rightarrow> join_admit_verdict \<times> join_request" where
  "join_admit inp mine =
     (case join_request_decode inp join_request0 of
        (False, out) \<Rightarrow>
          (if length inp \<ge> 1 \<and> inp ! 0 > JOIN_REQUEST_FORMAT then (RefusedNewerProtocol, out\<lparr> jr_format := inp ! 0 \<rparr>)
           else (RefusedMalformed, out))
      | (True, out) \<Rightarrow>
          (if jr_format out < JOIN_REQUEST_MIN_FORMAT then (RefusedOldProtocol, out)
           else if \<not> join_matches_session out mine then (RefusedWrongLobby, out)
           else if si_codepage mine \<noteq> 0 \<and> jr_codepage out \<noteq> si_codepage mine then (RefusedCodepage, out)
           else if si_build mine ! 0 \<noteq> 0 \<and> cstr (jr_build out) \<noteq> cstr (si_build mine) then (RefusedBuild, out)
           else if si_gameplay_digest mine \<noteq> 0 \<and> jr_gameplay_digest out \<noteq> 0 \<and>
                   jr_gameplay_digest out \<noteq> si_gameplay_digest mine then (RefusedGameplay, out)
           else (Admit, out)))"

subsection \<open>The request as the host reads it\<close>

definition jr_ok :: "join_request \<Rightarrow> bool" where
  "jr_ok jr \<longleftrightarrow> length (jr_name jr) = SESSION_NAME_MAX + 1 \<and> 0 \<in> set (jr_name jr) \<and>
     length (jr_player_name jr) = PLAYER_NAME_MAX + 1 \<and> 0 \<in> set (jr_player_name jr) \<and>
     length (jr_match_id jr) = UUID7_BYTES \<and> length (jr_map_hash jr) = MAP_HASH_BYTES \<and>
     length (jr_build jr) = BUILD_MAX + 1 \<and> 0 \<in> set (jr_build jr)"

lemma jr_encode_ok:
  assumes "jr_ok jr"
  shows "join_request_encode jr = ([JOIN_REQUEST_FORMAT] @ put_u32 (jr_tag jr)) @ put_field (jr_name jr) SESSION_NAME_MAX @
     put_field (jr_player_name jr) PLAYER_NAME_MAX @ jr_match_id jr @ put_u16 (jr_codepage jr) @
     jr_map_hash jr @ put_field (jr_build jr) BUILD_MAX @ put_u32 (jr_gameplay_digest jr)"
  using assms by (simp add: join_request_encode_def jr_ok_def)

lemma put_field_nonempty: "put_field s cap \<noteq> []"
  by (simp add: put_field_eq)

lemma decode_fmt7:
  assumes "length h = 5" "h ! 0 = 7"
  shows "join_request_decode (h @ x) out =
    (let r = read_name (out\<lparr> jr_format := 7, jr_tag := get_u32 (drop 1 h) \<rparr>, x);
         r = and_then r (read_player 7); r = and_then r (read_match_id 7); r = and_then r (read_codepage 7);
         r = and_then r (read_map_hash 7); r = and_then r (read_build 7); r = and_then r (read_digest 7)
     in (fst r, fst (snd r)))"
proof -
  have g: "get_u32 (drop 1 (h @ x)) = get_u32 (drop 1 h)"
    using le32.dec_take [of "drop 1 (h @ x)"] le32.dec_take [of "drop 1 h"] assms(1) by simp
  have z: "(h @ x) ! 0 = 7" using assms by (simp add: nth_append)
  have f: "\<not> ((7 :: u8) < 1 \<or> JOIN_REQUEST_FORMAT < 7)" by (simp add: JOIN_REQUEST_FORMAT_def)
  have l: "\<not> length (h @ x) < 5" "drop 5 (h @ x) = x" using assms(1) by simp_all
  show ?thesis by (simp only: join_request_decode_def z g f l if_False Let_def)
qed

lemma read_steps:
  assumes "jr_ok jr"
  shows "read_name (out, put_field (jr_name jr) SESSION_NAME_MAX @ r) =
      (True, out\<lparr> jr_name := memcpy_at (jr_name out) 0 (cstr (jr_name jr) @ [0]) \<rparr>, r)"
    "read_player 7 (out, put_field (jr_player_name jr) PLAYER_NAME_MAX @ r) =
      (True, out\<lparr> jr_player_name := memcpy_at ((jr_player_name out)[0 := 0]) 0 (cstr (jr_player_name jr) @ [0]),
                 jr_match_id := replicate UUID7_BYTES 0 \<rparr>, r)"
    "read_match_id 7 (out, jr_match_id jr @ r) = (True, out\<lparr> jr_codepage := 0, jr_match_id := jr_match_id jr \<rparr>, r)"
    "read_codepage 7 (out, put_u16 (jr_codepage jr) @ r) = (True, out\<lparr> jr_codepage := jr_codepage jr \<rparr>, r)"
    "read_map_hash 7 (out, jr_map_hash jr @ r) = (True, out\<lparr> jr_map_hash := jr_map_hash jr \<rparr>, r)"
    "read_build 7 (out, put_field (jr_build jr) BUILD_MAX @ r) =
      (True, out\<lparr> jr_build := memcpy_at ((jr_build out)[0 := 0]) 0 (cstr (jr_build jr) @ [0]) \<rparr>, r)"
    "read_digest 7 (out, put_u32 (jr_gameplay_digest jr) @ r) = (True, out\<lparr> jr_gameplay_digest := jr_gameplay_digest jr \<rparr>, r)"
proof -
  have c: "take SESSION_NAME_MAX (cstr (jr_name jr)) = cstr (jr_name jr)" "take PLAYER_NAME_MAX (cstr (jr_player_name jr)) = cstr (jr_player_name jr)"
    "take BUILD_MAX (cstr (jr_build jr)) = cstr (jr_build jr)" using assms by (simp_all add: jr_ok_def take_cstr_all)
  note g = get_put_field [OF small_fields(1)] get_put_field [OF small_fields(3)] get_put_field [OF small_fields(4)]
  show "read_name (out, put_field (jr_name jr) SESSION_NAME_MAX @ r) =
      (True, out\<lparr> jr_name := memcpy_at (jr_name out) 0 (cstr (jr_name jr) @ [0]) \<rparr>, r)"
    "read_player 7 (out, put_field (jr_player_name jr) PLAYER_NAME_MAX @ r) =
      (True, out\<lparr> jr_player_name := memcpy_at ((jr_player_name out)[0 := 0]) 0 (cstr (jr_player_name jr) @ [0]),
                 jr_match_id := replicate UUID7_BYTES 0 \<rparr>, r)"
    "read_build 7 (out, put_field (jr_build jr) BUILD_MAX @ r) =
      (True, out\<lparr> jr_build := memcpy_at ((jr_build out)[0 := 0]) 0 (cstr (jr_build jr) @ [0]) \<rparr>, r)"
    using put_field_nonempty by (simp_all add: read_name_def read_player_def read_build_def Let_def g c)
  show "read_match_id 7 (out, jr_match_id jr @ r) = (True, out\<lparr> jr_codepage := 0, jr_match_id := jr_match_id jr \<rparr>, r)"
    "read_codepage 7 (out, put_u16 (jr_codepage jr) @ r) = (True, out\<lparr> jr_codepage := jr_codepage jr \<rparr>, r)"
    "read_map_hash 7 (out, jr_map_hash jr @ r) = (True, out\<lparr> jr_map_hash := jr_map_hash jr \<rparr>, r)"
    "read_digest 7 (out, put_u32 (jr_gameplay_digest jr) @ r) = (True, out\<lparr> jr_gameplay_digest := jr_gameplay_digest jr \<rparr>, r)"
    using assms by (simp_all add: jr_ok_def read_match_id_def read_codepage_def read_map_hash_def read_digest_def Let_def)
qed

lemma head7: "length ([JOIN_REQUEST_FORMAT] @ put_u32 t) = 5" "([JOIN_REQUEST_FORMAT] @ put_u32 t) ! 0 = 7"
  "get_u32 (drop 1 ([JOIN_REQUEST_FORMAT] @ put_u32 t)) = t"
  by (simp_all add: JOIN_REQUEST_FORMAT_def)

lemma and_then_ok: "and_then (True, s) f = f s"
  by (simp add: and_then_def)

lemma and_then_fail: "\<not> fst r \<Longrightarrow> \<not> fst (and_then r f)"
  by (auto simp: and_then_def split: prod.split)

lemma decode_encode:
  assumes ok: "jr_ok jr" and d: "join_request_decode (join_request_encode jr @ r) join_request0 = (good, out)"
  shows "good \<and> jr_format out = 7 \<and> jr_tag out = jr_tag jr \<and> cstr (jr_name out) = cstr (jr_name jr) \<and>
    cstr (jr_player_name out) = cstr (jr_player_name jr) \<and> jr_match_id out = jr_match_id jr \<and>
    jr_codepage out = jr_codepage jr \<and> jr_map_hash out = jr_map_hash jr \<and> cstr (jr_build out) = cstr (jr_build jr) \<and>
    jr_gameplay_digest out = jr_gameplay_digest jr"
proof -
  define h where "h = [JOIN_REQUEST_FORMAT] @ put_u32 (jr_tag jr)"
  note h = head7 [of "jr_tag jr", folded h_def]
  have "join_request_encode jr @ r = h @ put_field (jr_name jr) SESSION_NAME_MAX @
     put_field (jr_player_name jr) PLAYER_NAME_MAX @ jr_match_id jr @ put_u16 (jr_codepage jr) @
     jr_map_hash jr @ put_field (jr_build jr) BUILD_MAX @ put_u32 (jr_gameplay_digest jr) @ r"
    by (simp add: jr_encode_ok [OF ok] h_def)
  note e = d [unfolded this decode_fmt7 [OF h(1,2)] h(3) Let_def read_steps [OF ok] and_then_ok]
  then show ?thesis by (auto simp: cstr_memcpy_nul cstr_no_nul)
qed

text \<open>The verdict on a request that the host has read.\<close>

lemma join_admit_read:
  assumes "join_request_decode inp join_request0 = (True, out)" "jr_format out = 7"
  shows "join_admit inp mine =
    (if \<not> join_matches_session out mine then RefusedWrongLobby
     else if si_codepage mine \<noteq> 0 \<and> jr_codepage out \<noteq> si_codepage mine then RefusedCodepage
     else if si_build mine ! 0 \<noteq> 0 \<and> cstr (jr_build out) \<noteq> cstr (si_build mine) then RefusedBuild
     else if si_gameplay_digest mine \<noteq> 0 \<and> jr_gameplay_digest out \<noteq> 0 \<and> jr_gameplay_digest out \<noteq> si_gameplay_digest mine
       then RefusedGameplay
     else Admit, out)"
  using assms by (simp add: join_admit_def JOIN_REQUEST_MIN_FORMAT_def)

text \<open>What a joiner sends in answer to an advert.\<close>

definition build_text :: "bytes option \<Rightarrow> bytes" where
  "build_text b = (case b of None \<Rightarrow> [] | Some b \<Rightarrow> take BUILD_MAX (cstr b))"

lemma zero_array: "0 \<in> set (memcpy_at (replicate (n + 1) 0) 0 (take m (take n xs) @ [0]))" "cstr (replicate k 0) = []"
  "cstr (0 # xs) = []"
  by (simp add: memcpy_at_def, cases k, simp_all add: cstr_def)

lemma clamped_array:
  "length (memcpy_at (replicate (n + 1) 0) 0 (take (clamp_len s n) s @ [0])) = n + 1"
  "0 \<in> set (memcpy_at (replicate (n + 1) 0) 0 (take (clamp_len s n) s @ [0]))"
  "cstr (memcpy_at (replicate (n + 1) 0) 0 (take (clamp_len s n) s @ [0])) = take n (cstr s)"
proof -
  have t: "take (clamp_len s n) s = take n (cstr s)"
    using take_cstr [of "min n (length (cstr s))" s] by (simp add: clamp_len_eq take_min_length)
  show "length (memcpy_at (replicate (n + 1) 0) 0 (take (clamp_len s n) s @ [0])) = n + 1"
    unfolding t by (simp add: memcpy_at_def min_def)
  show "0 \<in> set (memcpy_at (replicate (n + 1) 0) 0 (take (clamp_len s n) s @ [0]))" by (simp add: memcpy_at_def)
  show "cstr (memcpy_at (replicate (n + 1) 0) 0 (take (clamp_len s n) s @ [0])) = take n (cstr s)"
    unfolding t by (rule cstr_memcpy_nul) (rule set_take_cstr)
qed

lemma join_request_for_fields:
  fixes cp :: u16 and build :: "bytes option" and digest :: u32
  assumes "si_ok si" "\<And>h. hash = Some h \<Longrightarrow> length h = MAP_HASH_BYTES"
    and "length pn = PLAYER_NAME_MAX + 1" "0 \<in> set pn"
  defines "jr \<equiv> (join_request_for si cp hash build digest)\<lparr> jr_player_name := pn \<rparr>"
  shows "jr_ok jr" "jr_tag jr = si_tag si" "cstr (jr_name jr) = cstr (si_name si)" "jr_player_name jr = pn"
    "jr_match_id jr = si_match_id si" "jr_codepage jr = cp" "cstr (jr_build jr) = build_text build"
    "jr_gameplay_digest jr = digest"
    "jr_map_hash jr = (case hash of None \<Rightarrow> replicate MAP_HASH_BYTES 0 | Some h \<Rightarrow> h)"
proof -
  have c: "take SESSION_NAME_MAX (cstr (si_name si)) = cstr (si_name si)" and m: "length (si_match_id si) = UUID7_BYTES"
    using assms(1) by (simp_all add: si_ok_def take_cstr_all)
  have h: "hash = Some h \<Longrightarrow> length h = MAP_HASH_BYTES" for h by (rule assms(2))
  show "jr_ok jr" "jr_tag jr = si_tag si" "cstr (jr_name jr) = cstr (si_name si)" "jr_player_name jr = pn"
    "jr_match_id jr = si_match_id si" "jr_codepage jr = cp" "cstr (jr_build jr) = build_text build"
    "jr_gameplay_digest jr = digest"
    "jr_map_hash jr = (case hash of None \<Rightarrow> replicate MAP_HASH_BYTES 0 | Some h \<Rightarrow> h)"
    using assms(3,4) h m clamped_array [of SESSION_NAME_MAX "si_name si"] clamped_array [of BUILD_MAX]
    by (auto simp: jr_def join_request_for_def join_request0_def Let_def jr_ok_def c build_text_def zero_array
        split: option.split)
qed

lemma admission:
  fixes cp :: u16 and build :: "bytes option" and digest :: u32
  assumes si: "si_ok si" and mine: "si_ok mine" and h: "\<And>h. hash = Some h \<Longrightarrow> length h = MAP_HASH_BYTES"
    and pn: "length pn = PLAYER_NAME_MAX + 1" "0 \<in> set pn"
    and jr: "jr = (join_request_for si cp hash build digest)\<lparr> jr_player_name := pn \<rparr>"
    and a: "join_admit (join_request_encode jr @ r) mine = (verdict, out)"
  shows "cstr (jr_player_name out) = cstr pn \<and> jr_match_id out = si_match_id si \<and>
    jr_map_hash out = (case hash of None \<Rightarrow> replicate MAP_HASH_BYTES 0 | Some h \<Rightarrow> h) \<and>
    verdict = (if \<not> session_same_lobby si mine then RefusedWrongLobby
      else if si_codepage mine \<noteq> 0 \<and> cp \<noteq> si_codepage mine then RefusedCodepage
      else if cstr (si_build mine) \<noteq> [] \<and> build_text build \<noteq> cstr (si_build mine) then RefusedBuild
      else if si_gameplay_digest mine \<noteq> 0 \<and> digest \<noteq> 0 \<and> digest \<noteq> si_gameplay_digest mine then RefusedGameplay
      else Admit)"
proof -
  note f = join_request_for_fields [where hash = hash and cp = cp and build = build and digest = digest, OF si h pn, folded jr]
  obtain good o1 where d: "join_request_decode (join_request_encode jr @ r) join_request0 = (good, o1)" by fastforce
  note e = decode_encode [OF f(1) d]
  have b: "(si_build mine ! 0 \<noteq> 0) = (cstr (si_build mine) \<noteq> [])"
    using mine by (cases "si_build mine") (auto simp: si_ok_def cstr_def)
  have m: "join_matches_session o1 mine = session_same_lobby si mine"
    using e f by (simp add: join_matches_session_def session_same_lobby_def)
  have "join_request_decode (join_request_encode jr @ r) join_request0 = (True, o1)" "jr_format o1 = 7"
    using d e by auto
  note v = join_admit_read [OF this, of mine]
  have "verdict = fst (join_admit (join_request_encode jr @ r) mine)" "out = snd (join_admit (join_request_encode jr @ r) mine)"
    by (simp_all only: a fst_conv snd_conv)
  then show ?thesis using e f by (simp only: v fst_conv snd_conv b m simp_thms)
qed

text \<open>C18. The admission of a joiner, from its request to the verdict: whatever follows the request in the
  frame, the host reads the joiner's name, the match identity it echoes and its map hash; it refuses a request for
  another lobby, then a codepage other than its own, then a release other than its own, then a different set of
  synced gameplay keys (each of the last three only if the host declares one, and the last only if the joiner states a
  digest too), and admits every other.\<close>

theorem join_admission:
  fixes cp :: u16 and build :: "bytes option" and digest :: u32
  assumes si: "si_ok si" and mine: "si_ok mine" and h: "\<And>h. hash = Some h \<Longrightarrow> length h = MAP_HASH_BYTES"
    and pn: "length pn = PLAYER_NAME_MAX + 1" "0 \<in> set pn"
    and jr: "jr = (join_request_for si cp hash build digest)\<lparr> jr_player_name := pn \<rparr>"
    and a: "join_admit (join_request_encode jr @ r) mine = (verdict, out)"
  shows "cstr (jr_player_name out) = cstr pn \<and> jr_match_id out = si_match_id si \<and>
    jr_map_hash out = (case hash of None \<Rightarrow> replicate MAP_HASH_BYTES 0 | Some h \<Rightarrow> h) \<and>
    verdict = (if \<not> session_same_lobby si mine then RefusedWrongLobby
      else if si_codepage mine \<noteq> 0 \<and> cp \<noteq> si_codepage mine then RefusedCodepage
      else if cstr (si_build mine) \<noteq> [] \<and> build_text build \<noteq> cstr (si_build mine) then RefusedBuild
      else if si_gameplay_digest mine \<noteq> 0 \<and> digest \<noteq> 0 \<and> digest \<noteq> si_gameplay_digest mine then RefusedGameplay
      else Admit)"
  using admission [OF assms] .

text \<open>Advert and request together: a joiner that decodes the advert of a host and answers it with the
  host's codepage, release and gameplay digest is admitted, under the match identity the host minted.\<close>

theorem answering_an_advert_admits:
  fixes cp :: u16 and build :: "bytes option" and digest :: u32
  assumes mine: "si_ok mine" and o: "si_ok o0" and h: "\<And>h. hash = Some h \<Longrightarrow> length h = MAP_HASH_BYTES"
    and pn: "length pn = PLAYER_NAME_MAX + 1" "0 \<in> set pn"
    and adv: "session_info_decode (session_info_encode mine @ r) o0 = (good, si)"
    and jr: "jr = (join_request_for si (si_codepage mine) hash (Some (si_build mine)) (si_gameplay_digest mine))
        \<lparr> jr_player_name := pn \<rparr>"
    and a: "join_admit (join_request_encode jr @ r') mine = (verdict, out)"
  shows "verdict = Admit \<and> jr_match_id out = si_match_id mine \<and> cstr (jr_player_name out) = cstr pn"
proof -
  note d = advert_decoded [OF mine o adv]
  have b: "build_text (Some (si_build mine)) = cstr (si_build mine)"
    using mine by (simp add: build_text_def si_ok_def take_cstr_all)
  from admission [OF _ mine h pn jr a] d b show ?thesis by (simp add: session_same_lobby_def)
qed

subsection \<open>What is refused\<close>

lemma and_then_assoc: "and_then (and_then r f) g = and_then r (\<lambda>s. and_then (f s) g)"
  by (simp add: and_then_def split: prod.split)

text \<open>A field \<open>F\<close> that is cut fails, or the fields behind it do.\<close>

lemma step_short:
  assumes "\<And>o' r. f (o', F @ r) = (True, g o', r)"
    and "\<And>o' n. n < length F \<Longrightarrow> \<not> fst (and_then (f (o', take n F)) k)"
    and "\<And>o' n. n < length R \<Longrightarrow> \<not> fst (k (o', take n R))" and "n < length (F @ R)"
  shows "\<not> fst (and_then (f (out, take n (F @ R))) k)"
  using assms(2) [of n out] assms(3) [of "n - length F" "g out"] assms(4) by (cases "n < length F") (simp_all add: assms(1) and_then_ok)

lemma short_fields:
  assumes "jr_ok jr"
  shows "n < length (put_field (jr_name jr) SESSION_NAME_MAX) \<Longrightarrow> \<not> fst (read_name (out, take n (put_field (jr_name jr) SESSION_NAME_MAX)))"
    "0 < n \<Longrightarrow> n < length (put_field (jr_player_name jr) PLAYER_NAME_MAX) \<Longrightarrow>
       \<not> fst (read_player 7 (out, take n (put_field (jr_player_name jr) PLAYER_NAME_MAX)))"
    "n < length (jr_match_id jr) \<Longrightarrow> \<not> fst (read_match_id 7 (out, take n (jr_match_id jr)))"
    "n < length (put_u16 (jr_codepage jr)) \<Longrightarrow> \<not> fst (read_codepage 7 (out, take n (put_u16 (jr_codepage jr))))"
    "n < length (jr_map_hash jr) \<Longrightarrow> \<not> fst (read_map_hash 7 (out, take n (jr_map_hash jr)))"
    "n < length (put_field (jr_build jr) BUILD_MAX) \<Longrightarrow> \<not> fst (read_build 7 (out, take n (put_field (jr_build jr) BUILD_MAX)))"
    "n < length (put_u32 (jr_gameplay_digest jr)) \<Longrightarrow> \<not> fst (read_digest 7 (out, take n (put_u32 (jr_gameplay_digest jr))))"
  using assms put_field_nonempty
  by (simp_all add: jr_ok_def read_name_def read_player_def read_match_id_def read_codepage_def read_map_hash_def read_build_def
      read_digest_def Let_def get_field_short small_fields)

lemma chain_short:
  assumes ok: "jr_ok jr" and n: "n < length (put_field (jr_name jr) SESSION_NAME_MAX @ put_field (jr_player_name jr) PLAYER_NAME_MAX @
      jr_match_id jr @ put_u16 (jr_codepage jr) @ jr_map_hash jr @ put_field (jr_build jr) BUILD_MAX @ put_u32 (jr_gameplay_digest jr))"
      (is "n < length (?F1 @ ?F2 @ ?F3 @ ?F4 @ ?F5 @ ?F6 @ ?F7)")
  shows "\<not> fst (and_then (read_name (out, take n (?F1 @ ?F2 @ ?F3 @ ?F4 @ ?F5 @ ?F6 @ ?F7)))
    (\<lambda>s. and_then (read_player 7 s) (\<lambda>s. and_then (read_match_id 7 s) (\<lambda>s. and_then (read_codepage 7 s)
      (\<lambda>s. and_then (read_map_hash 7 s) (\<lambda>s. and_then (read_build 7 s) (read_digest 7)))))))"
proof -
  note st = read_steps [OF ok] and sf = short_fields [OF ok]
  have 6: "\<not> fst (and_then (read_build 7 (o', take m (?F6 @ ?F7))) (read_digest 7))" if "m < length (?F6 @ ?F7)" for o' m
    by (rule step_short [where f = "read_build 7", OF st(6) _ _ that]) (use sf(6,7) and_then_fail in blast)+
  have 5: "\<not> fst (and_then (read_map_hash 7 (o', take m (?F5 @ ?F6 @ ?F7))) (\<lambda>s. and_then (read_build 7 s) (read_digest 7)))"
    if "m < length (?F5 @ ?F6 @ ?F7)" for o' m
    by (rule step_short [where f = "read_map_hash 7", OF st(5) _ _ that]) (use sf(5) 6 and_then_fail in blast)+
  have 4: "\<not> fst (and_then (read_codepage 7 (o', take m (?F4 @ ?F5 @ ?F6 @ ?F7)))
      (\<lambda>s. and_then (read_map_hash 7 s) (\<lambda>s. and_then (read_build 7 s) (read_digest 7))))"
    if "m < length (?F4 @ ?F5 @ ?F6 @ ?F7)" for o' m
    by (rule step_short [where f = "read_codepage 7", OF st(4) _ _ that]) (use sf(4) 5 and_then_fail in blast)+
  have 3: "\<not> fst (and_then (read_match_id 7 (o', take m (?F3 @ ?F4 @ ?F5 @ ?F6 @ ?F7)))
      (\<lambda>s. and_then (read_codepage 7 s) (\<lambda>s. and_then (read_map_hash 7 s) (\<lambda>s. and_then (read_build 7 s) (read_digest 7)))))"
    if "m < length (?F3 @ ?F4 @ ?F5 @ ?F6 @ ?F7)" for o' m
    by (rule step_short [where f = "read_match_id 7", OF st(3) _ _ that]) (use sf(3) 4 and_then_fail in blast)+
  have e: "\<not> fst (read_match_id 7 (o', []))" for o' by (simp add: read_match_id_def Let_def UUID7_BYTES_def)
  have "\<not> fst (and_then (read_player 7 (o', take m ?F2)) (\<lambda>s. and_then (read_match_id 7 s) k))" if "m < length ?F2" for o' m k
  proof (cases m)
    case 0
    then show ?thesis using and_then_fail [OF e] by (simp add: read_player_def Let_def and_then_ok)
  next
    case (Suc j)
    with that sf(2) and_then_fail show ?thesis by blast
  qed
  note p = this
  have 2: "\<not> fst (and_then (read_player 7 (o', take m (?F2 @ ?F3 @ ?F4 @ ?F5 @ ?F6 @ ?F7)))
      (\<lambda>s. and_then (read_match_id 7 s) (\<lambda>s. and_then (read_codepage 7 s)
         (\<lambda>s. and_then (read_map_hash 7 s) (\<lambda>s. and_then (read_build 7 s) (read_digest 7))))))"
    if "m < length (?F2 @ ?F3 @ ?F4 @ ?F5 @ ?F6 @ ?F7)" for o' m
    by (rule step_short [where f = "read_player 7", OF st(2) _ _ that]) (use p 3 in blast)+
  show ?thesis
    by (rule step_short [where f = read_name, OF st(1) _ _ n]) (use sf(1) 2 and_then_fail in blast)+
qed

lemma format_steps:
  "jr_format (fst (snd (read_name s))) = jr_format (fst s)" "jr_format (fst (snd (read_player f s))) = jr_format (fst s)"
  "jr_format (fst (snd (read_match_id f s))) = jr_format (fst s)" "jr_format (fst (snd (read_codepage f s))) = jr_format (fst s)"
  "jr_format (fst (snd (read_map_hash f s))) = jr_format (fst s)" "jr_format (fst (snd (read_build f s))) = jr_format (fst s)"
  "jr_format (fst (snd (read_digest f s))) = jr_format (fst s)"
  by (simp_all add: read_name_def read_player_def read_match_id_def read_codepage_def read_map_hash_def read_build_def
      read_digest_def Let_def split: prod.split option.split)

lemma and_then_format:
  "(\<And>s. jr_format (fst (snd (f s))) = jr_format (fst s)) \<Longrightarrow> jr_format (fst (snd (and_then r f))) = jr_format (fst (snd r))"
  by (simp add: and_then_def split: prod.split)

lemma decode_format:
  assumes "join_request_decode inp o' = (True, out)"
  shows "inp ! 0 \<le> JOIN_REQUEST_FORMAT \<and> jr_format out = inp ! 0"
proof -
  have g: "\<not> length inp < 5" "\<not> (inp ! 0 < 1 \<or> inp ! 0 > JOIN_REQUEST_FORMAT)"
    using assms by (auto simp: join_request_decode_def Let_def split: if_splits)
  then have "jr_format (snd (join_request_decode inp o')) = inp ! 0"
    unfolding join_request_decode_def Let_def if_not_P [OF g(1)] if_not_P [OF g(2)]
    by (simp add: and_then_format format_steps)
  with assms g(2) show ?thesis by (simp add: not_less)
qed

lemma refused_decode:
  assumes "\<not> fst (join_request_decode inp join_request0)"
  shows "fst (join_admit inp mine) =
    (if inp \<noteq> [] \<and> inp ! 0 > JOIN_REQUEST_FORMAT then RefusedNewerProtocol else RefusedMalformed)"
proof -
  obtain out where "join_request_decode inp join_request0 = (False, out)"
    using assms by (cases "join_request_decode inp join_request0") simp
  then show ?thesis by (simp add: join_admit_def Suc_le_eq)
qed

lemma not_newer: "x = [] \<or> x ! 0 = 7 \<or> x ! 0 = 0 \<Longrightarrow> \<not> (x \<noteq> [] \<and> x ! 0 > JOIN_REQUEST_FORMAT)"
  by (auto simp: JOIN_REQUEST_FORMAT_def)

lemma refused_formats:
  "inp = [] \<or> inp ! 0 = 0 \<or> inp ! 0 > JOIN_REQUEST_FORMAT \<Longrightarrow> \<not> fst (join_request_decode inp join_request0)"
  by (simp add: join_request_decode_def Let_def) (auto simp: JOIN_REQUEST_FORMAT_def)

text \<open>C19. What a host refuses for its form: every request that is cut short is malformed; a first byte above the
  known formats is a newer protocol, whatever else arrived; no byte or a format 0 is malformed; and only the
  current format is ever admitted.\<close>

theorem join_refusals:
  assumes "jr_ok jr" "n < length (join_request_encode jr)"
  shows "fst (join_admit (take n (join_request_encode jr)) mine) = RefusedMalformed \<and>
    (inp \<noteq> [] \<and> inp ! 0 > JOIN_REQUEST_FORMAT \<longrightarrow> fst (join_admit inp mine) = RefusedNewerProtocol) \<and>
    (inp = [] \<or> inp ! 0 = 0 \<longrightarrow> fst (join_admit inp mine) = RefusedMalformed) \<and>
    (fst (join_admit inp mine) = Admit \<longrightarrow> inp ! 0 = JOIN_REQUEST_FORMAT)"
proof (intro conjI impI)
  define h where "h = [JOIN_REQUEST_FORMAT] @ put_u32 (jr_tag jr)"
  note h = head7 [of "jr_tag jr", folded h_def]
  let ?x = "put_field (jr_name jr) SESSION_NAME_MAX @ put_field (jr_player_name jr) PLAYER_NAME_MAX @ jr_match_id jr @
     put_u16 (jr_codepage jr) @ jr_map_hash jr @ put_field (jr_build jr) BUILD_MAX @ put_u32 (jr_gameplay_digest jr)"
  have e: "join_request_encode jr = h @ ?x" by (simp add: jr_encode_ok [OF assms(1)] h_def)
  have "\<not> fst (join_request_decode (take n (h @ ?x)) join_request0)"
  proof (cases "n < 5")
    case True
    have "\<not> fst (join_request_decode q join_request0)" if "length q < 5" for q using that by (simp add: join_request_decode_def)
    then show ?thesis using True by (simp only: length_take min_less_iff_disj simp_thms)
  next
    case False
    then have "take n (h @ ?x) = h @ take (n - 5) ?x" "n - 5 < length ?x" using h(1) assms(2) e by simp_all
    then show ?thesis using chain_short [OF assms(1)] by (simp only: decode_fmt7 [OF h(1,2)] Let_def and_then_assoc fst_conv) blast
  qed
  moreover have "take n (h @ ?x) = [] \<or> take n (h @ ?x) ! 0 = 7" using h by (cases n) (simp_all add: nth_append)
  ultimately show "fst (join_admit (take n (join_request_encode jr)) mine) = RefusedMalformed"
    unfolding e using refused_decode [of "take n (h @ ?x)" mine]
      not_newer [of "take n (h @ ?x)"] by metis
  show "inp \<noteq> [] \<and> inp ! 0 > JOIN_REQUEST_FORMAT \<Longrightarrow> fst (join_admit inp mine) = RefusedNewerProtocol"
    using refused_decode [of inp mine] refused_formats [of inp] by simp
  show "inp = [] \<or> inp ! 0 = 0 \<Longrightarrow> fst (join_admit inp mine) = RefusedMalformed"
    using refused_decode [of inp mine] refused_formats [of inp] not_newer [of inp] by metis
  assume "fst (join_admit inp mine) = Admit"
  then obtain out where d: "join_request_decode inp join_request0 = (True, out)" "\<not> jr_format out < JOIN_REQUEST_MIN_FORMAT"
    by (auto simp: join_admit_def split: prod.splits if_splits bool.splits)
  then have f: "inp ! 0 \<le> JOIN_REQUEST_FORMAT" "jr_format out = inp ! 0" using decode_format by blast+
  with d(2) show "inp ! 0 = JOIN_REQUEST_FORMAT" by (simp add: JOIN_REQUEST_FORMAT_def JOIN_REQUEST_MIN_FORMAT_def not_less)
qed

definition ex_request :: join_request where
  "ex_request = (join_request_for ex_info 65001 None None 5)\<lparr> jr_player_name := replicate 32 0 \<rparr>"

lemma ex_request_ok: "jr_ok ex_request"
  unfolding ex_request_def by (rule join_request_for_fields(1) [OF ex_info_ok]) (simp_all add: session_sizes)

theorem join_admission_witness:
  "fst (join_admit (join_request_encode ex_request @ []) ex_info) =
    (if \<not> session_same_lobby ex_info ex_info then RefusedWrongLobby
      else if si_codepage ex_info \<noteq> 0 \<and> 65001 \<noteq> si_codepage ex_info then RefusedCodepage
      else if cstr (si_build ex_info) \<noteq> [] \<and> build_text None \<noteq> cstr (si_build ex_info) then RefusedBuild
      else if si_gameplay_digest ex_info \<noteq> 0 \<and> (5 :: u32) \<noteq> 0 \<and> 5 \<noteq> si_gameplay_digest ex_info then RefusedGameplay
      else Admit)"
proof -
  obtain v out where e: "join_admit (join_request_encode ex_request @ []) ex_info = (v, out)" by fastforce
  from join_admission [OF ex_info_ok ex_info_ok _ _ _ ex_request_def e] show ?thesis
    unfolding e by (simp add: session_sizes)
qed

theorem join_refusals_witness:
  "fst (join_admit (take 3 (join_request_encode ex_request)) ex_info) = RefusedMalformed"
  using join_refusals [OF ex_request_ok, of 3 ex_info "[]"] by (simp add: jr_encode_ok [OF ex_request_ok])

theorem answering_an_advert_admits_witness:
  "\<exists>si good. session_info_decode (session_info_encode ex_info @ []) ex_info = (good, si) \<and>
    fst (join_admit (join_request_encode ((join_request_for si (si_codepage ex_info) None (Some (si_build ex_info))
        (si_gameplay_digest ex_info))\<lparr> jr_player_name := replicate 32 0 \<rparr>) @ []) ex_info) = Admit"
proof -
  obtain good si where d: "session_info_decode (session_info_encode ex_info @ []) ex_info = (good, si)" by fastforce
  let ?j = "(join_request_for si (si_codepage ex_info) None (Some (si_build ex_info)) (si_gameplay_digest ex_info))
      \<lparr> jr_player_name := replicate 32 0 \<rparr>"
  obtain v out where e: "join_admit (join_request_encode ?j @ []) ex_info = (v, out)" by fastforce
  have "length (replicate 32 (0 :: u8)) = PLAYER_NAME_MAX + 1" "0 \<in> set (replicate 32 (0 :: u8))" by (simp_all add: session_sizes)
  from answering_an_advert_admits [OF ex_info_ok ex_info_ok _ this d refl e] d e show ?thesis by fastforce
qed

end
