(* ===== verification/Text_Utf8.thy ===== *)
theory Text_Utf8
  imports Text_Bytes
begin

text \<open>
  The two text rules of a session, \<open>mh_net_proto/include/mh_net_proto/text_utf8.h\<close>: chat is UTF-8 in the
  byte buffers of the game, cut and edited only at character boundaries; names are Latin letters and
  digits.  A buffer \<open>(s, n)\<close> is the list of its \<open>n\<close> bytes; the loops that walk it keep the rest of
  the list in place of the index, and the count \<open>w\<close> of what they have written.

  The lemmas relate every routine to the list of characters (scalar values) that the bytes encode.
\<close>

definition CHAT_ENCODING_UTF8 :: u16 where "CHAT_ENCODING_UTF8 = 65001"
definition UTF16_REPLACEMENT :: u32 where "UTF16_REPLACEMENT = 0xFFFD"

subsection \<open>One sequence\<close>

definition utf8_is_cont :: "u8 \<Rightarrow> bool" where
  "utf8_is_cont b = (b AND 0xC0 = 0x80)"

definition utf8_seq_len :: "u8 \<Rightarrow> nat" where
  "utf8_seq_len lead =
     (if lead < 0x80 then 1
      else if lead < 0xC2 then 0
      else if lead < 0xE0 then 2
      else if lead < 0xF0 then 3
      else if lead < 0xF5 then 4
      else 0)"

definition utf8_encode :: "u32 \<Rightarrow> bytes" where
  "utf8_encode cp =
     (if cp = 0 then []
      else if cp < 0x80 then [ucast cp]
      else if cp < 0x800 then [ucast (0xC0 OR drop_bit 6 cp), ucast (0x80 OR (cp AND 0x3F))]
      else if 0xD800 \<le> cp \<and> cp \<le> 0xDFFF then []
      else if cp < 0x10000 then
        [ucast (0xE0 OR drop_bit 12 cp), ucast (0x80 OR (drop_bit 6 cp AND 0x3F)), ucast (0x80 OR (cp AND 0x3F))]
      else if 0x10FFFF < cp then []
      else
        [ucast (0xF0 OR drop_bit 18 cp), ucast (0x80 OR (drop_bit 12 cp AND 0x3F)),
         ucast (0x80 OR (drop_bit 6 cp AND 0x3F)), ucast (0x80 OR (cp AND 0x3F))])"

text \<open>The payload bits of the lead byte, and the loop over the continuation bytes: it stops at a byte that
  is not one.\<close>

definition lead_bits :: "nat \<Rightarrow> u8 \<Rightarrow> u32" where
  "lead_bits k b0 =
     (if k = 2 then ucast b0 AND 0x1F else if k = 3 then ucast b0 AND 0x0F else ucast b0 AND 0x07)"

fun cont_bits :: "u32 \<Rightarrow> bytes \<Rightarrow> u32 option" where
  "cont_bits v [] = Some v"
| "cont_bits v (b # bs) =
     (if \<not> utf8_is_cont b then None else cont_bits (push_bit 6 v OR (ucast b AND 0x3F)) bs)"

text \<open>The value is out of place: an overlong form, an encoded surrogate, past the Unicode range.\<close>

definition out_of_place :: "nat \<Rightarrow> u32 \<Rightarrow> bool" where
  "out_of_place k v =
     (k = 3 \<and> v < 0x800 \<or> k = 4 \<and> (v < 0x10000 \<or> 0x10FFFF < v) \<or> 0xD800 \<le> v \<and> v \<le> 0xDFFF)"

definition utf8_decode_one :: "bytes \<Rightarrow> nat \<times> u32" where
  "utf8_decode_one s =
     (case s of [] \<Rightarrow> (0, 0)
      | b0 # r \<Rightarrow>
          (let k = utf8_seq_len b0 in
           if k = 1 then (1, ucast b0)
           else if k = 0 \<or> length s < k then (1, UTF16_REPLACEMENT)
           else (case cont_bits (lead_bits k b0) (take (k - 1) r) of
                   None \<Rightarrow> (1, UTF16_REPLACEMENT)
                 | Some v \<Rightarrow> if out_of_place k v then (1, UTF16_REPLACEMENT) else (k, v))))"

lemma decode_one_pos: "s \<noteq> [] \<Longrightarrow> 0 < fst (utf8_decode_one s)"
  by (auto simp: utf8_decode_one_def Let_def split: list.splits option.splits)

lemma decode_one_le: "fst (utf8_decode_one s) \<le> length s"
  by (auto simp: utf8_decode_one_def Let_def split: list.splits option.splits)

lemma length_drop_decode_one: "s \<noteq> [] \<Longrightarrow> length (drop (fst (utf8_decode_one s)) s) < length s"
  using decode_one_pos [of s] by simp

subsection \<open>Widening and narrowing\<close>

function (sequential) utf16_loop :: "bytes \<Rightarrow> nat \<Rightarrow> nat \<Rightarrow> u16 list" where
  "utf16_loop s w cap =
     (if s = [] \<or> hd s = 0 then []
      else
        (let cp = snd (utf8_decode_one s); s' = drop (fst (utf8_decode_one s)) s in
         if 0x10000 \<le> cp then
           (if cap \<le> w + 2 then []
            else let c = cp - 0x10000 in
              ucast (0xD800 OR drop_bit 10 c) # ucast (0xDC00 OR (c AND 0x3FF)) # utf16_loop s' (w + 2) cap)
         else if cap \<le> w + 1 then [] else ucast cp # utf16_loop s' (w + 1) cap))"
  by pat_completeness auto
termination
  by (relation "measure (\<lambda>(s, _, _). length s)") (use length_drop_decode_one in auto)

declare utf16_loop.simps [simp del]

text \<open>\<open>utf8_to_utf16 (src, n, dst, cap)\<close>: \<open>cap\<close> is the length of \<open>dst\<close>; the updated buffer and the units
  written.\<close>

definition utf8_to_utf16 :: "bytes \<Rightarrow> u16 list \<Rightarrow> u16 list \<times> nat" where
  "utf8_to_utf16 src dst =
     (if length dst = 0 then (dst, 0)
      else let u = utf16_loop src 0 (length dst) in (memcpy_at dst 0 (u @ [0]), length u))"

text \<open>The next character of a sequence of units, and the units after it.\<close>

definition next_scalar :: "u16 \<Rightarrow> u16 list \<Rightarrow> u32 \<times> u16 list" where
  "next_scalar u r =
     (let cp = ucast u :: u32 in
      if 0xD800 \<le> cp \<and> cp \<le> 0xDBFF \<and> r \<noteq> [] \<and> 0xDC00 \<le> hd r \<and> hd r \<le> 0xDFFF
      then (0x10000 + push_bit 10 (cp - 0xD800) + (ucast (hd r) - 0xDC00), tl r)
      else if 0xD800 \<le> cp \<and> cp \<le> 0xDFFF then (UTF16_REPLACEMENT, r)
      else (cp, r))"

lemma length_next_scalar: "length (snd (next_scalar u r)) < Suc (length r)"
  by (auto simp: next_scalar_def Let_def)

function (sequential) utf8_loop :: "u16 list \<Rightarrow> nat \<Rightarrow> nat \<Rightarrow> bytes" where
  "utf8_loop [] w cap = []"
| "utf8_loop (u # r) w cap =
     (if u = 0 then []
      else
        (let b = utf8_encode (fst (next_scalar u r)) in
         if length b = 0 \<or> cap < w + length b + 1 then []
         else b @ utf8_loop (snd (next_scalar u r)) (w + length b) cap))"
  by pat_completeness auto
termination
  by (relation "measure (\<lambda>(s, _, _). length s)") (use length_next_scalar in auto)

definition utf16_to_utf8 :: "u16 list \<Rightarrow> bytes \<Rightarrow> bytes \<times> nat" where
  "utf16_to_utf8 src dst =
     (if length dst = 0 then (dst, 0)
      else let b = utf8_loop src 0 (length dst) in (memcpy_at dst 0 (b @ [0]), length b))"

function (sequential) utf8_utf16_units :: "bytes \<Rightarrow> nat" where
  "utf8_utf16_units s =
     (if s = [] \<or> hd s = 0 then 0
      else (if 0x10000 \<le> snd (utf8_decode_one s) then 2 else 1)
        + utf8_utf16_units (drop (fst (utf8_decode_one s)) s))"
  by pat_completeness auto
termination
  by (relation "measure length") (use length_drop_decode_one in auto)

declare utf8_utf16_units.simps [simp del]

function (sequential) bytes_for_units :: "bytes \<Rightarrow> nat \<Rightarrow> nat \<Rightarrow> nat" where
  "bytes_for_units s u units =
     (if s = [] \<or> hd s = 0 then 0
      else
        (let w = (if 0x10000 \<le> snd (utf8_decode_one s) then 2 else 1) in
         if units < u + w then 0
         else fst (utf8_decode_one s) + bytes_for_units (drop (fst (utf8_decode_one s)) s) (u + w) units))"
  by pat_completeness auto
termination
  by (relation "measure (\<lambda>(s, _, _). length s)") (use length_drop_decode_one in auto)

declare bytes_for_units.simps [simp del]

definition utf8_bytes_for_units :: "bytes \<Rightarrow> nat \<Rightarrow> nat" where
  "utf8_bytes_for_units s units = bytes_for_units s 0 units"

subsection \<open>Boundaries\<close>

fun cut_back :: "bytes \<Rightarrow> nat \<Rightarrow> nat" where
  "cut_back s 0 = 0"
| "cut_back s (Suc n) = (if utf8_is_cont (s ! Suc n) then cut_back s n else Suc n)"

definition utf8_truncate :: "bytes \<Rightarrow> nat \<Rightarrow> nat" where
  "utf8_truncate s mx = (if length s \<le> mx then length s else cut_back s mx)"

fun prev_loop :: "bytes \<Rightarrow> nat \<Rightarrow> nat \<Rightarrow> nat \<times> nat" where
  "prev_loop s 0 back = (0, back)"
| "prev_loop s (Suc start) back =
     (if back < 4 \<and> utf8_is_cont (s ! Suc start) then prev_loop s start (back + 1) else (Suc start, back))"

definition utf8_prev_len :: "bytes \<Rightarrow> nat \<Rightarrow> nat" where
  "utf8_prev_len s pos =
     (if pos = 0 then 0
      else (case prev_loop s (pos - 1) 1 of (start, back) \<Rightarrow>
              if utf8_seq_len (s ! start) = back then back else 1))"

definition utf8_next_len :: "bytes \<Rightarrow> nat \<Rightarrow> nat \<Rightarrow> nat" where
  "utf8_next_len s pos len =
     (if len \<le> pos then 0
      else
        (let k = utf8_seq_len (s ! pos) in
         if k \<le> 1 \<or> len < pos + k then 1
         else if list_all (\<lambda>i. utf8_is_cont (s ! (pos + i))) [1..<k] then k else 1))"

subsection \<open>The edit line\<close>

text \<open>The byte buffer of a text field (its length is \<open>cap\<close>), the byte length and the byte cursor.\<close>

record edit_line =
  el_buf :: bytes
  el_len :: nat
  el_cur :: nat

definition shift_up :: "nat \<Rightarrow> nat \<Rightarrow> nat \<Rightarrow> bytes \<Rightarrow> bytes" where
  "shift_up cur len nb buf = fold (\<lambda>i b. b[i + nb := b ! i]) (rev [cur..<len + 1]) buf"

definition shift_down :: "nat \<Rightarrow> nat \<Rightarrow> nat \<Rightarrow> bytes \<Rightarrow> bytes" where
  "shift_down at len k buf = fold (\<lambda>i b. b[i := b ! (i + k)]) [at..<len + 1 - k] buf"

text \<open>A null \<open>buf\<close>, \<open>len\<close>, \<open>cur\<close> or \<open>bytes\<close> is \<open>None\<close>.\<close>

definition utf8_edit_insert :: "edit_line option \<Rightarrow> bytes option \<Rightarrow> bool \<times> edit_line option" where
  "utf8_edit_insert line bs =
     (case (line, bs) of
        (Some l, Some b) \<Rightarrow>
          (let nb = length b; cap = length (el_buf l) in
           if nb = 0 \<or> el_len l < el_cur l \<or> cap \<le> el_len l then (False, line)
           else if cap < el_len l + nb + 1 then (False, line)
           else
             (True, Some \<lparr>
                el_buf = memcpy_at (shift_up (el_cur l) (el_len l) nb (el_buf l)) (el_cur l) b,
                el_len = el_len l + nb,
                el_cur = el_cur l + nb\<rparr>))
      | _ \<Rightarrow> (False, line))"

definition utf8_edit_erase :: "edit_line option \<Rightarrow> bool \<Rightarrow> nat \<times> edit_line option" where
  "utf8_edit_erase line before =
     (case line of None \<Rightarrow> (0, line)
      | Some l \<Rightarrow>
          if el_len l < el_cur l then (0, line)
          else
            (let k = (if before then utf8_prev_len (el_buf l) (el_cur l)
                      else utf8_next_len (el_buf l) (el_cur l) (el_len l)) in
             if k = 0 then (0, line)
             else
               (let at = (if before then el_cur l - k else el_cur l) in
                (k, Some \<lparr>
                   el_buf = shift_down at (el_len l) k (el_buf l),
                   el_len = el_len l - k,
                   el_cur = at\<rparr>))))"

subsection \<open>Names\<close>

definition name_char_ok :: "u8 \<Rightarrow> bool" where
  "name_char_ok c =
     (0x41 \<le> c \<and> c \<le> 0x5A \<or> 0x61 \<le> c \<and> c \<le> 0x7A \<or> 0x30 \<le> c \<and> c \<le> 0x39)"

definition name_is_valid :: "bytes option \<Rightarrow> bool" where
  "name_is_valid s =
     (case s of None \<Rightarrow> False | Some t \<Rightarrow> char_at t 0 \<noteq> 0 \<and> list_all name_char_ok (cstr t))"

text \<open>The loop of \<open>name_normalize\<close>, in place: the buffer, the write index, the read index, \<open>changed\<close>.\<close>

function (sequential) name_scan :: "nat \<Rightarrow> bytes \<Rightarrow> nat \<Rightarrow> nat \<Rightarrow> bool \<Rightarrow> bytes \<times> nat \<times> nat \<times> bool" where
  "name_scan cap s w i changed =
     (if char_at s i = 0 then (s, w, i, changed)
      else if name_char_ok (char_at s i) \<and> w + 1 < cap then name_scan cap (s[w := char_at s i]) (w + 1) (i + 1) changed
      else name_scan cap s w (i + 1) True)"
  by pat_completeness auto
termination
  by (relation "measure (\<lambda>(_, s, _, i, _). length s - i)") (auto simp: char_at_def split: if_splits)

declare name_scan.simps [simp del]

definition name_normalize :: "bytes option \<Rightarrow> nat \<Rightarrow> bytes option \<Rightarrow> bool \<times> bytes option" where
  "name_normalize s0 cap fallback =
     (case s0 of None \<Rightarrow> (False, s0)
      | Some s \<Rightarrow>
          if cap = 0 then (False, s0)
          else
            (case name_scan cap s 0 0 False of (s1, w, i, ch) \<Rightarrow>
               (let changed = (ch \<or> w \<noteq> i); s2 = s1[w := 0] in
                case fallback of
                  None \<Rightarrow> (changed, Some s2)
                | Some fb \<Rightarrow>
                    if w = 0 \<and> char_at fb 0 \<noteq> 0 \<and> (changed \<or> i = 0)
                    then (True, Some (memcpy_at s2 0 (take (cap - 1) (cstr fb) @ [0])))
                    else (changed, Some s2))))"

definition NAME_FALLBACK :: bytes where "NAME_FALLBACK = ascii ''Player''"

subsection \<open>Encoding and decoding are inverse\<close>

text \<open>The scalar values a chat line can hold.\<close>

definition scalar :: "u32 \<Rightarrow> bool" where
  "scalar cp = (cp \<noteq> 0 \<and> (cp < 0xD800 \<or> 0xDFFF < cp) \<and> cp \<le> 0x10FFFF)"

lemma and_3f: "x AND 0x3F = take_bit 6 x" for x :: u32
  by (simp add: take_bit_eq_mask mask_eq_exp_minus_1)

lemma join6: "push_bit 6 (drop_bit 6 x) OR (x AND 0x3F) = x" for x :: u32
  unfolding and_3f by (rule bit_eqI) (auto simp: bit_simps)

lemma all_below: "n < m \<Longrightarrow> list_all P [0..<m] \<Longrightarrow> P n" for n :: nat
  by (simp add: list_all_iff)

lemma small_word:
  assumes "(x :: u32) < of_nat m" and "m < 2 ^ 32" and "list_all (\<lambda>n. P (of_nat n)) [0..<m]"
  shows "P x"
proof -
  have "unat x < m" using assms(1,2) by (simp add: word_less_nat_alt unat_of_nat)
  from all_below [OF this assms(3)] show ?thesis by simp
qed

lemma cont_byte: "x < 0x40 \<Longrightarrow> utf8_is_cont (ucast (0x80 OR x)) \<and> ucast (ucast (0x80 OR x) :: u8) AND 0x3F = x"
  for x :: u32
  by (rule small_word [where m = 64]) (simp_all add: utf8_is_cont_def upt_rec)

lemma lead_byte2_offset:
  "y < 0x1E \<Longrightarrow> utf8_seq_len (ucast (0xC0 OR (2 + y))) = 2 \<and> lead_bits 2 (ucast (0xC0 OR (2 + y))) = 2 + y"
  for y :: u32
  by (rule small_word [where m = 30]) (simp_all add: utf8_seq_len_def lead_bits_def upt_rec)

lemma lead_byte2: "x < 0x20 \<Longrightarrow> 2 \<le> x \<Longrightarrow> utf8_seq_len (ucast (0xC0 OR x)) = 2 \<and> lead_bits 2 (ucast (0xC0 OR x)) = x"
  for x :: u32
proof -
  assume "x < 0x20" and le: "2 \<le> x"
  then have "unat x < 32" "2 \<le> unat x" by (simp_all add: word_less_nat_alt word_le_nat_alt)
  moreover have "unat (x - 2) = unat x - 2" using le by (simp add: unat_sub)
  ultimately have "x - 2 < 0x1E" by (simp add: word_less_nat_alt)
  from lead_byte2_offset [OF this] show ?thesis by simp
qed

lemma lead_byte3: "x < 0x10 \<Longrightarrow> utf8_seq_len (ucast (0xE0 OR x)) = 3 \<and> lead_bits 3 (ucast (0xE0 OR x)) = x"
  for x :: u32
  by (rule small_word [where m = 16]) (simp_all add: utf8_seq_len_def lead_bits_def upt_rec)

lemma lead_byte4: "x < 5 \<Longrightarrow> utf8_seq_len (ucast (0xF0 OR x)) = 4 \<and> lead_bits 4 (ucast (0xF0 OR x)) = x"
  for x :: u32
  by (rule small_word [where m = 5]) (simp_all add: utf8_seq_len_def lead_bits_def upt_rec)

lemma and_3f_less: "x AND 0x3F < 0x40" for x :: u32
  unfolding and_3f by (simp add: word_less_nat_alt unsigned_take_bit_eq take_bit_eq_mod unat_mod)

lemma unat_drop_bit: "unat (drop_bit k x) = unat x div 2 ^ k" for x :: u32
proof -
  have "take_bit 32 (unat x) = unat x"
    by (rule take_bit_nat_eq_self) (use unsigned_less [of x, where ?'a = nat] in simp)
  then show ?thesis by (subst unsigned_drop_bit_eq) (simp add: drop_bit_eq_div)
qed

declare cont_bits.simps(2) [simp del]

lemma drop_bit_less: "x < of_nat (m * 2 ^ k) \<Longrightarrow> m * 2 ^ k < 2 ^ 32 \<Longrightarrow> drop_bit k x < of_nat m" for x :: u32
proof -
  assume a: "x < of_nat (m * 2 ^ k)" "m * 2 ^ k < 2 ^ 32"
  then have "unat x < m * 2 ^ k" by (simp only: word_less_nat_alt unat_of_nat_u32)
  moreover have "m \<le> m * 2 ^ k" by simp
  with a(2) have "m < 2 ^ 32" by linarith
  ultimately show ?thesis
    by (simp add: word_less_nat_alt unat_drop_bit unat_of_nat_u32 less_mult_imp_div_less)
qed

lemma drop_bit_ge: "of_nat (m * 2 ^ k) \<le> x \<Longrightarrow> m * 2 ^ k < 2 ^ 32 \<Longrightarrow> of_nat m \<le> drop_bit k x" for x :: u32
proof -
  assume a: "of_nat (m * 2 ^ k) \<le> x" "m * 2 ^ k < 2 ^ 32"
  then have "m * 2 ^ k \<le> unat x" by (simp only: word_le_nat_alt unat_of_nat_u32)
  moreover have "m \<le> m * 2 ^ k" by simp
  with a(2) have "m < 2 ^ 32" by linarith
  ultimately show ?thesis
    by (simp add: word_le_nat_alt unat_drop_bit unat_of_nat_u32 less_eq_div_iff_mult_less_eq)
qed

lemma cont_bits_step:
  "cont_bits v (ucast (0x80 OR (x AND 0x3F)) # bs) = cont_bits (push_bit 6 v OR (x AND 0x3F)) bs" for x :: u32
  using cont_byte [OF and_3f_less, of x] by (simp add: cont_bits.simps)

lemma join6_drop: "push_bit 6 (drop_bit (k + 6) x) OR (drop_bit k x AND 0x3F) = drop_bit k x" for x :: u32
  using join6 [of "drop_bit k x"] by (simp add: add.commute)

text \<open>The four shapes of an encoded scalar.\<close>

lemma encode_cases:
  assumes "scalar cp"
  obtains "cp < 0x80" "utf8_encode cp = [ucast cp]"
  | "0x80 \<le> cp" "cp < 0x800" "utf8_encode cp = [ucast (0xC0 OR drop_bit 6 cp), ucast (0x80 OR (cp AND 0x3F))]"
  | "0x800 \<le> cp" "cp < 0x10000" "utf8_encode cp =
       [ucast (0xE0 OR drop_bit 12 cp), ucast (0x80 OR (drop_bit 6 cp AND 0x3F)), ucast (0x80 OR (cp AND 0x3F))]"
  | "0x10000 \<le> cp" "cp \<le> 0x10FFFF" "utf8_encode cp =
       [ucast (0xF0 OR drop_bit 18 cp), ucast (0x80 OR (drop_bit 12 cp AND 0x3F)),
        ucast (0x80 OR (drop_bit 6 cp AND 0x3F)), ucast (0x80 OR (cp AND 0x3F))]"
proof -
  have s: "cp \<noteq> 0" "\<not> (0xD800 \<le> cp \<and> cp \<le> 0xDFFF)" "\<not> 0x10FFFF < cp"
    using assms by (auto simp: scalar_def)
  show thesis
  proof (cases "cp < 0x80")
    case True
    show thesis by (rule that(1)) (use True s in \<open>simp_all add: utf8_encode_def\<close>)
  next
    case a: False
    show thesis
    proof (cases "cp < 0x800")
      case True
      show thesis by (rule that(2)) (use True a s in \<open>simp_all add: utf8_encode_def\<close>)
    next
      case b: False
      show thesis
      proof (cases "cp < 0x10000")
        case True
        show thesis by (rule that(3)) (use True a b s in \<open>simp_all add: utf8_encode_def\<close>)
      next
        case False
        show thesis by (rule that(4)) (use False a b s in \<open>simp_all add: utf8_encode_def\<close>)
      qed
    qed
  qed
qed

lemma decode_one_lead:
  assumes "utf8_seq_len b0 = k" and "2 \<le> k" and "length bs = k - 1"
    and "cont_bits (lead_bits k b0) bs = Some v" and "\<not> out_of_place k v"
  shows "utf8_decode_one (b0 # bs @ r) = (k, v)"
proof -
  have "k \<noteq> 1" "k \<noteq> 0" "\<not> length (b0 # bs @ r) < k" "take (k - 1) (bs @ r) = bs"
    using assms(2,3) by simp_all
  with assms(1,4,5) show ?thesis by (simp add: utf8_decode_one_def Let_def)
qed

lemma scalar_decodes:
  assumes "scalar cp"
  shows "utf8_decode_one (utf8_encode cp @ r) = (length (utf8_encode cp), cp)"
  using assms
proof (cases rule: encode_cases)
  case 1
  have "(ucast cp :: u8) < 0x80 \<and> (ucast (ucast cp :: u8) :: u32) = cp"
    by (rule small_word [where m = 128]) (use 1(1) in \<open>simp_all add: upt_rec\<close>)
  then show ?thesis using 1(2) by (simp add: utf8_decode_one_def utf8_seq_len_def)
next
  case 2
  have "drop_bit 6 cp < 0x20" "2 \<le> drop_bit 6 cp"
    using drop_bit_less [of cp 32 6] drop_bit_ge [of 2 6 cp] 2(1,2) by simp_all
  then have lead: "utf8_seq_len (ucast (0xC0 OR drop_bit 6 cp)) = 2 \<and> lead_bits 2 (ucast (0xC0 OR drop_bit 6 cp)) = drop_bit 6 cp"
    using lead_byte2 by blast
  have "cont_bits (lead_bits 2 (ucast (0xC0 OR drop_bit 6 cp))) [ucast (0x80 OR (cp AND 0x3F))] = Some cp"
    using lead join6 [of cp] by (simp add: cont_bits_step)
  moreover have "\<not> out_of_place 2 cp"
    using assms 2(2) by (auto simp: out_of_place_def scalar_def word_less_nat_alt word_le_nat_alt)
  ultimately show ?thesis
    using decode_one_lead [of _ 2 "[ucast (0x80 OR (cp AND 0x3F))]"] lead 2(3) by simp
next
  case 3
  have "drop_bit 12 cp < 0x10" using drop_bit_less [of cp 16 12] 3(2) by simp
  note lead = lead_byte3 [OF this]
  let ?bs = "[ucast (0x80 OR (drop_bit 6 cp AND 0x3F)), ucast (0x80 OR (cp AND 0x3F))] :: bytes"
  have "cont_bits (lead_bits 3 (ucast (0xE0 OR drop_bit 12 cp))) ?bs = Some cp"
    using lead join6 [of cp] join6_drop [of 6 cp] by (simp add: cont_bits_step)
  moreover have "\<not> out_of_place 3 cp"
    using assms 3(1) by (auto simp: out_of_place_def scalar_def word_less_nat_alt word_le_nat_alt)
  ultimately show ?thesis
    using decode_one_lead [of _ 3 ?bs] lead 3(3) by simp
next
  case 4
  have "drop_bit 18 cp < 5" using drop_bit_less [of cp 5 18] 4(2) by (simp add: word_less_nat_alt word_le_nat_alt)
  note lead = lead_byte4 [OF this]
  let ?bs = "[ucast (0x80 OR (drop_bit 12 cp AND 0x3F)), ucast (0x80 OR (drop_bit 6 cp AND 0x3F)),
              ucast (0x80 OR (cp AND 0x3F))] :: bytes"
  have "cont_bits (lead_bits 4 (ucast (0xF0 OR drop_bit 18 cp))) ?bs = Some cp"
    using lead join6 [of cp] join6_drop [of 6 cp] join6_drop [of 12 cp] by (simp add: cont_bits_step)
  moreover have "\<not> out_of_place 4 cp"
    using assms 4 by (auto simp: out_of_place_def scalar_def word_less_nat_alt word_le_nat_alt)
  ultimately show ?thesis
    using decode_one_lead [of _ 4 ?bs] lead 4(3) by simp
qed

subsection \<open>Text as a list of characters\<close>

definition units_of :: "u32 \<Rightarrow> u16 list" where
  "units_of cp =
     (if 0x10000 \<le> cp
      then [ucast (0xD800 OR drop_bit 10 (cp - 0x10000)), ucast (0xDC00 OR (cp - 0x10000 AND 0x3FF))]
      else [ucast cp])"

definition chat_bytes :: "u32 list \<Rightarrow> bytes" where "chat_bytes cps = concat (map utf8_encode cps)"
definition chat_units :: "u32 list \<Rightarrow> u16 list" where "chat_units cps = concat (map units_of cps)"

text \<open>The characters that fit, whole, before the terminator: an output of \<open>cap\<close> cells of which \<open>w\<close> are
  used.\<close>

fun fit :: "(u32 \<Rightarrow> 'a list) \<Rightarrow> nat \<Rightarrow> nat \<Rightarrow> u32 list \<Rightarrow> u32 list" where
  "fit f cap w [] = []"
| "fit f cap w (c # cs) = (if w + length (f c) < cap then c # fit f cap (w + length (f c)) cs else [])"

lemma chat_simps [simp]:
  "chat_bytes [] = []" "chat_bytes (c # cs) = utf8_encode c @ chat_bytes cs"
  "chat_bytes (cs @ ds) = chat_bytes cs @ chat_bytes ds"
  "chat_units [] = []" "chat_units (c # cs) = units_of c @ chat_units cs"
  by (simp_all add: chat_bytes_def chat_units_def)

lemma fit_all: "w + length (concat (map f cs)) < cap \<Longrightarrow> fit f cap w cs = cs"
  by (induction cs arbitrary: w) auto

lemma fit_all_bytes: "length (chat_bytes cs) < cap \<Longrightarrow> fit utf8_encode cap 0 cs = cs"
  by (rule fit_all) (simp add: chat_bytes_def)

lemma fit_all_units: "length (chat_units cs) < cap \<Longrightarrow> fit units_of cap 0 cs = cs"
  by (rule fit_all) (simp add: chat_units_def)

lemma list_all_fit: "list_all P cs \<Longrightarrow> list_all P (fit f cap w cs)"
  by (induction cs arbitrary: w) auto

lemma length_fit: "0 < cap \<Longrightarrow> w < cap \<Longrightarrow> w + length (concat (map f (fit f cap w cs))) < cap"
  by (induction cs arbitrary: w) (auto simp: add.assoc [symmetric])

lemma fit_prefix: "\<exists>es. cs = fit f cap w cs @ es"
  by (induction cs arbitrary: w) auto

lemma fit_take:
  assumes "list_all (\<lambda>c. f c \<noteq> []) cs" and "k \<le> length cs"
  shows "fit f (Suc (w + length (concat (map f (take k cs))))) w cs = take k cs"
  using assms
proof (induction cs arbitrary: k w)
  case (Cons c cs)
  show ?case
  proof (cases k)
    case 0
    then show ?thesis using Cons.prems(1) by simp
  next
    case (Suc j)
    then show ?thesis using Cons.IH [of j "w + length (f c)"] Cons.prems by (simp add: add.assoc)
  qed
qed simp

lemma encode_nonempty: "scalar cp \<Longrightarrow> utf8_encode cp \<noteq> []"
  by (erule encode_cases) simp_all

lemma hd_encode: "scalar cp \<Longrightarrow> hd (utf8_encode cp) \<noteq> 0"
proof
  assume cp: "scalar cp" and "hd (utf8_encode cp) = 0"
  with encode_nonempty [OF cp] obtain b where e: "utf8_encode cp = 0 # b" by (cases "utf8_encode cp") auto
  from scalar_decodes [OF cp, of "[]"] have "snd (utf8_decode_one (0 # b)) = cp" by (simp add: e)
  then have "cp = 0" by (simp add: utf8_decode_one_def utf8_seq_len_def)
  with cp show False by (simp add: scalar_def)
qed

text \<open>What a loop sees at the start of an encoded character.\<close>

lemma at_encoded:
  assumes "scalar cp"
  shows "utf8_encode cp @ r \<noteq> []" "hd (utf8_encode cp @ r) \<noteq> 0"
    "snd (utf8_decode_one (utf8_encode cp @ r)) = cp"
    "fst (utf8_decode_one (utf8_encode cp @ r)) = length (utf8_encode cp)"
  using assms encode_nonempty [OF assms] hd_encode [OF assms] by (simp_all add: scalar_decodes)

lemma length_units_of: "length (units_of cp) = (if 0x10000 \<le> cp then 2 else 1)"
  by (simp add: units_of_def)

lemma utf16_loop_chat:
  assumes "list_all scalar cps" and "t = [] \<or> hd t = 0"
  shows "utf16_loop (chat_bytes cps @ t) w cap = chat_units (fit units_of cap w cps)"
  using assms(1)
proof (induction cps arbitrary: w)
  case Nil
  then show ?case using assms(2) by (simp add: utf16_loop.simps)
next
  case (Cons c cs)
  then have c: "scalar c" and IH: "\<And>w. utf16_loop (chat_bytes cs @ t) w cap = chat_units (fit units_of cap w cs)"
    by simp_all
  show ?case
    using c at_encoded [OF c, of "chat_bytes cs @ t"]
    by (subst chat_simps(2), subst append_assoc, subst utf16_loop.simps) (auto simp: units_of_def Let_def IH)
qed

lemma utf8_utf16_units_chat:
  assumes "list_all scalar cps" and "t = [] \<or> hd t = 0"
  shows "utf8_utf16_units (chat_bytes cps @ t) = length (chat_units cps)"
  using assms(1)
proof (induction cps)
  case Nil
  then show ?case using assms(2) by (simp add: utf8_utf16_units.simps)
next
  case (Cons c cs)
  then show ?case
    using at_encoded [of c "chat_bytes cs @ t"]
    by (subst chat_simps(2), subst append_assoc, subst utf8_utf16_units.simps) (auto simp: length_units_of)
qed

lemma bytes_for_units_chat:
  assumes "list_all scalar cps" and "t = [] \<or> hd t = 0"
  shows "bytes_for_units (chat_bytes cps @ t) u units = length (chat_bytes (fit units_of (Suc units) u cps))"
  using assms(1)
proof (induction cps arbitrary: u)
  case Nil
  then show ?case using assms(2) by (simp add: bytes_for_units.simps)
next
  case (Cons c cs)
  then show ?case
    using at_encoded [of c "chat_bytes cs @ t"]
    by (subst chat_simps(2), subst append_assoc, subst bytes_for_units.simps)
      (auto simp: length_units_of Let_def less_Suc_eq_le not_le)
qed

subsection \<open>Units\<close>

lemma or_base: "unat y < 2 ^ n \<Longrightarrow> push_bit n a OR y = push_bit n a + y" for y :: u32
proof -
  assume "unat y < 2 ^ n"
  then have "unat (take_bit n y) = unat y" by (simp add: unsigned_take_bit_eq take_bit_nat_eq_self)
  then have y: "y = take_bit n y" by (simp add: word_unat_eq_iff)
  have "push_bit n a AND take_bit n y = 0" by (rule bit_eqI) (auto simp: bit_simps)
  with y show ?thesis using disjunctive_add_eq_or by metis
qed

lemma or_surrogates:
  fixes y :: u32
  assumes "y < 0x400"
  shows "0xD800 OR y = 0xD800 + y" "0xDC00 OR y = 0xDC00 + y"
  using assms or_base [of y 10 54] or_base [of y 10 55] by (simp_all add: word_less_nat_alt)

lemma ucast_u16_u32: "v < 0x10000 \<Longrightarrow> (ucast (ucast v :: u16) :: u32) = v" for v :: u32
proof -
  assume "v < 0x10000"
  then have "unat v < 2 ^ 16" by (simp add: word_less_nat_alt)
  then have "unat (ucast v :: u16) = unat v"
    by (simp add: unsigned_ucast_eq unsigned_take_bit_eq take_bit_nat_eq_self)
  then show ?thesis by (simp add: word_unat_eq_iff unsigned_ucast_eq unsigned_take_bit_eq take_bit_nat_eq_self)
qed

lemma ucast_less_u16:
  "v < 0x10000 \<Longrightarrow> k < 65536 \<Longrightarrow> (of_nat k \<le> (ucast v :: u16)) = (of_nat k \<le> v)"
  "v < 0x10000 \<Longrightarrow> k < 65536 \<Longrightarrow> ((ucast v :: u16) \<le> of_nat k) = (v \<le> of_nat k)" for v :: u32
proof -
  assume "v < 0x10000" and k: "k < 65536"
  then have "unat (ucast v :: u16) = unat v"
    by (simp add: unsigned_ucast_eq take_bit_nat_eq_self word_less_nat_alt)
  then show "(of_nat k \<le> (ucast v :: u16)) = (of_nat k \<le> v)" "((ucast v :: u16) \<le> of_nat k) = (v \<le> of_nat k)"
    using k by (simp_all add: word_le_nat_alt unat_of_nat_u16 unat_of_nat_u32)
qed

lemma surrogate_parts:
  assumes "scalar cp" and "0x10000 \<le> cp" and "c = cp - 0x10000"
  shows "drop_bit 10 c < 0x400" "c AND 0x3FF < 0x400"
    "0x10000 + push_bit 10 (drop_bit 10 c) + (c AND 0x3FF) = cp"
proof -
  have m: "c AND 0x3FF = take_bit 10 c" by (simp add: take_bit_eq_mask mask_eq_exp_minus_1)
  have "unat c = unat cp - 0x10000" using assms(2,3) by (simp add: unat_sub)
  moreover have "unat cp \<le> 0x10FFFF" using assms(1) by (simp add: scalar_def word_le_nat_alt)
  ultimately have "unat c < 1024 * 1024" by simp
  then show "drop_bit 10 c < 0x400"
    by (simp add: word_less_nat_alt unat_drop_bit less_mult_imp_div_less)
  show "c AND 0x3FF < 0x400"
    unfolding m by (simp add: word_less_nat_alt unsigned_take_bit_eq take_bit_eq_mod unat_mod)
  have "push_bit 10 (drop_bit 10 c) + take_bit 10 c = c" by (rule bits_ident)
  then show "0x10000 + push_bit 10 (drop_bit 10 c) + (c AND 0x3FF) = cp"
    unfolding m using assms(3) by (simp only: add.assoc) simp
qed

lemma next_scalar_units:
  assumes "scalar cp"
  shows "units_of cp @ r \<noteq> []" "hd (units_of cp @ r) \<noteq> 0"
    "next_scalar (hd (units_of cp @ r)) (tl (units_of cp @ r)) = (cp, r)"
proof -
  have "units_of cp @ r \<noteq> [] \<and> hd (units_of cp @ r) \<noteq> 0 \<and>
      next_scalar (hd (units_of cp @ r)) (tl (units_of cp @ r)) = (cp, r)"
  proof (cases "0x10000 \<le> cp")
    case False
    then have lt: "cp < 0x10000" by simp
    then have u: "(ucast (ucast cp :: u16) :: u32) = cp" by (rule ucast_u16_u32)
    then have "(ucast cp :: u16) \<noteq> 0" using assms by (auto simp: scalar_def)
    moreover have "\<not> (0xD800 \<le> cp \<and> cp \<le> 0xDBFF)" "\<not> (0xD800 \<le> cp \<and> cp \<le> 0xDFFF)"
      using assms by (auto simp: scalar_def word_le_nat_alt word_less_nat_alt)
    ultimately show ?thesis using u False by (auto simp: units_of_def next_scalar_def Let_def)
  next
    case True
    define c where "c = cp - 0x10000"
    define y z where "y = drop_bit 10 c" and "z = (c AND 0x3FF)"
    note parts = surrogate_parts [OF assms True c_def, folded y_def z_def]
    have yz: "unat y < 1024" "unat z < 1024" using parts(1,2) by (simp_all add: word_less_nat_alt)
    then have un: "unat (0xD800 + y) = 0xD800 + unat y" "unat (0xDC00 + z) = 0xDC00 + unat z"
      by (simp_all add: unat_word_ariths)
    with yz have lt: "0xD800 + y < 0x10000" "0xDC00 + z < 0x10000" by (simp_all add: word_less_nat_alt)
    have w: "(ucast (ucast (0xD800 + y) :: u16) :: u32) = 0xD800 + y"
      "(ucast (ucast (0xDC00 + z) :: u16) :: u32) = 0xDC00 + z"
      using lt by (simp_all add: ucast_u16_u32)
    then have "(ucast (0xD800 + y) :: u16) \<noteq> 0" using un(1) by (metis add_is_0 unat_0 unsigned_0 zero_neq_numeral)
    moreover have "0xD800 \<le> 0xD800 + y" "0xD800 + y \<le> 0xDBFF" using un yz by (simp_all add: word_le_nat_alt)
    moreover have "0xDC00 \<le> (ucast (0xDC00 + z) :: u16)" "(ucast (0xDC00 + z) :: u16) \<le> 0xDFFF"
      using ucast_less_u16(1) [OF lt(2), where k = "0xDC00"] ucast_less_u16(2) [OF lt(2), where k = "0xDFFF"] un yz
      by (simp_all add: word_le_nat_alt)
    moreover have "units_of cp = [ucast (0xD800 + y), ucast (0xDC00 + z)]"
      using True parts(1,2) by (simp add: units_of_def or_surrogates y_def z_def c_def)
    ultimately show ?thesis using parts(3) by (simp add: next_scalar_def Let_def w)
  qed
  then show "units_of cp @ r \<noteq> []" "hd (units_of cp @ r) \<noteq> 0"
    "next_scalar (hd (units_of cp @ r)) (tl (units_of cp @ r)) = (cp, r)" by blast+
qed

lemma utf8_loop_chat:
  assumes "list_all scalar cps" and "t = [] \<or> hd t = 0"
  shows "utf8_loop (chat_units cps @ t) w cap = chat_bytes (fit utf8_encode cap w cps)"
  using assms(1)
proof (induction cps arbitrary: w)
  case Nil
  then show ?case using assms(2) by (cases t) simp_all
next
  case (Cons c cs)
  then have c: "scalar c" and IH: "\<And>w. utf8_loop (chat_units cs @ t) w cap = chat_bytes (fit utf8_encode cap w cs)"
    by simp_all
  obtain u r where ur: "units_of c @ chat_units cs @ t = u # r"
    using next_scalar_units(1) [OF c] by (meson list.exhaust)
  then have "u \<noteq> 0" "next_scalar u r = (c, chat_units cs @ t)"
    using next_scalar_units(2,3) [OF c, of "chat_units cs @ t"] by simp_all
  then show ?case
    using encode_nonempty [OF c] by (simp add: ur IH Let_def less_Suc_eq_le not_le Suc_le_eq)
qed

subsection \<open>Where characters begin and end\<close>

lemma lead_not_cont:
  "x < 0x80 \<Longrightarrow> (ucast x :: u8) < 0x80 \<and> \<not> utf8_is_cont (ucast x)"
  "y < 0x20 \<Longrightarrow> \<not> utf8_is_cont (ucast (0xC0 OR y))"
  "y < 0x20 \<Longrightarrow> \<not> utf8_is_cont (ucast (0xE0 OR y))"
  "y < 0x20 \<Longrightarrow> \<not> utf8_is_cont (ucast (0xF0 OR y))" for x y :: u32
  subgoal by (rule small_word [where m = 128]) (simp_all add: utf8_is_cont_def upt_rec)
  subgoal by (rule small_word [where m = 32]) (simp_all add: utf8_is_cont_def upt_rec)
  subgoal by (rule small_word [where m = 32]) (simp_all add: utf8_is_cont_def upt_rec)
  subgoal by (rule small_word [where m = 32]) (simp_all add: utf8_is_cont_def upt_rec)
  done

lemma encode_shape:
  assumes "scalar c"
  obtains b0 bs where "utf8_encode c = b0 # bs" "utf8_seq_len b0 = Suc (length bs)" "length bs < 4"
    "\<not> utf8_is_cont b0" "list_all utf8_is_cont bs"
proof -
  obtain b0 bs where e: "utf8_encode c = b0 # bs"
    using encode_nonempty [OF assms] by (cases "utf8_encode c") auto
  have cont: "utf8_is_cont (ucast (0x80 OR (x AND 0x3F)))" for x :: u32
    using cont_byte [OF and_3f_less] by blast
  have "length bs < 4 \<and> list_all utf8_is_cont bs"
    using assms by (rule encode_cases) (use e cont in auto)
  moreover have "utf8_seq_len b0 = Suc (length bs) \<and> \<not> utf8_is_cont b0"
    using assms
  proof (cases rule: encode_cases)
    case 1
    from lead_not_cont(1) [OF this(1)] show ?thesis using 1(2) e by (simp add: utf8_seq_len_def)
  next
    case 2
    have d: "drop_bit 6 c < 0x20" "2 \<le> drop_bit 6 c"
      using drop_bit_less [of c 32 6] drop_bit_ge [of 2 6 c] 2(1,2) by simp_all
    from lead_byte2 [OF d] lead_not_cont(2) [OF d(1)] show ?thesis using 2(3) e by simp
  next
    case 3
    have d: "drop_bit 12 c < 0x10" using drop_bit_less [of c 16 12] 3(2) by simp
    then have "drop_bit 12 c < 0x20" by (simp add: word_less_nat_alt)
    from lead_byte3 [OF d] lead_not_cont(3) [OF this] show ?thesis using 3(3) e by simp
  next
    case 4
    have d: "drop_bit 18 c < 5" using drop_bit_less [of c 5 18] 4(2) by (simp add: word_less_nat_alt word_le_nat_alt)
    then have "drop_bit 18 c < 0x20" by (simp add: word_less_nat_alt)
    from lead_byte4 [OF d] lead_not_cont(4) [OF this] show ?thesis using 4(3) e by simp
  qed
  ultimately show thesis using that e by blast
qed

lemma back_loops:
  assumes "\<not> utf8_is_cont (s ! a)" and "\<And>i. 0 < i \<Longrightarrow> i \<le> j \<Longrightarrow> utf8_is_cont (s ! (a + i))"
  shows "cut_back s (a + j) = a" and "m + j \<le> 4 \<Longrightarrow> prev_loop s (a + j) m = (a, m + j)"
proof -
  show "cut_back s (a + j) = a"
    using assms(2)
  proof (induction j)
    case 0
    show ?case using assms(1) by (cases a) simp_all
  next
    case (Suc j)
    then show ?case using Suc.prems [of "Suc j"] by simp
  qed
  show "m + j \<le> 4 \<Longrightarrow> prev_loop s (a + j) m = (a, m + j)"
    using assms(2)
  proof (induction j arbitrary: m)
    case 0
    show ?case using assms(1) by (cases a) simp_all
  next
    case (Suc j)
    then show ?case using Suc.prems(2) [of "Suc j"] by simp
  qed
qed

text \<open>The bytes of a character in the middle of a text.\<close>

lemma middle_bytes:
  assumes "s = A @ (b0 # bs) @ r" and "list_all utf8_is_cont bs" and "0 < i" and "i \<le> length bs"
  shows "utf8_is_cont (s ! (length A + i))"
proof -
  from assms(3) obtain k where i: "i = Suc k" by (cases i) auto
  have "s ! (length A + i) = bs ! k" using assms(1,4) by (simp add: i nth_append)
  then show ?thesis using assms(2,4) by (simp add: i list_all_length)
qed

lemma prev_len_char:
  assumes "scalar c" and "s = A @ utf8_encode c @ r"
  shows "utf8_prev_len s (length A + length (utf8_encode c)) = length (utf8_encode c)"
  using assms(1)
proof (rule encode_shape)
  fix b0 bs
  assume e: "utf8_encode c = b0 # bs" "utf8_seq_len b0 = Suc (length bs)" "length bs < 4" "\<not> utf8_is_cont b0"
    and c: "list_all utf8_is_cont bs"
  from assms(2) e(1) have s: "s = A @ (b0 # bs) @ r" by simp
  then have b0: "s ! length A = b0" by simp
  have "prev_loop s (length A + length bs) 1 = (length A, 1 + length bs)"
    by (rule back_loops(2)) (use b0 e(3,4) middle_bytes [OF s c] in auto)
  with b0 e(1,2) show ?thesis by (simp add: utf8_prev_len_def)
qed

lemma next_len_char:
  assumes "scalar c" and "s = A @ utf8_encode c @ r" and "length A + length (utf8_encode c) \<le> len"
  shows "utf8_next_len s (length A) len = length (utf8_encode c)"
  using assms(1)
proof (rule encode_shape)
  fix b0 bs
  assume e: "utf8_encode c = b0 # bs" "utf8_seq_len b0 = Suc (length bs)" "length bs < 4" "\<not> utf8_is_cont b0"
    and c: "list_all utf8_is_cont bs"
  from assms(2) e(1) have s: "s = A @ (b0 # bs) @ r" by simp
  then have "s ! length A = b0" by simp
  moreover have "list_all (\<lambda>i. utf8_is_cont (s ! (length A + i))) [1..<Suc (length bs)]"
    using middle_bytes [OF s c] by (auto simp: list_all_iff simp del: upt_Suc)
  ultimately show ?thesis using e(1,2) assms(3) by (simp add: utf8_next_len_def Let_def)
qed

text \<open>A cut inside a text lies in one character.\<close>

lemma cut_in_char:
  assumes "mx < w + length (chat_bytes cps)" and "w \<le> mx"
  obtains ds c es where "cps = ds @ c # es" "w + length (chat_bytes ds) \<le> mx"
    "mx < w + length (chat_bytes ds) + length (utf8_encode c)" "fit utf8_encode (Suc mx) w cps = ds"
  using assms
proof (induction cps arbitrary: w thesis)
  case Nil
  then show ?case by simp
next
  case (Cons c cs)
  show ?case
  proof (cases "mx < w + length (utf8_encode c)")
    case True
    then show ?thesis using Cons.prems(1) [of "[]" c cs] Cons.prems(3) by (simp add: less_Suc_eq_le)
  next
    case False
    show ?thesis
    proof (rule Cons.IH [where w = "w + length (utf8_encode c)"])
      show "mx < w + length (utf8_encode c) + length (chat_bytes cs)" using Cons.prems(2) by simp
      show "w + length (utf8_encode c) \<le> mx" using False by simp
      fix ds d es
      assume *: "cs = ds @ d # es" "w + length (utf8_encode c) + length (chat_bytes ds) \<le> mx"
        "mx < w + length (utf8_encode c) + length (chat_bytes ds) + length (utf8_encode d)"
        "fit utf8_encode (Suc mx) (w + length (utf8_encode c)) cs = ds"
      show ?thesis
        by (rule Cons.prems(1) [of "c # ds" d es]) (use * False in \<open>simp_all add: add.assoc less_Suc_eq_le\<close>)
    qed
  qed
qed

lemma truncate_chat:
  assumes "list_all scalar cps"
  shows "utf8_truncate (chat_bytes cps) mx = length (chat_bytes (fit utf8_encode (Suc mx) 0 cps))"
proof (cases "length (chat_bytes cps) \<le> mx")
  case True
  then show ?thesis by (simp add: utf8_truncate_def fit_all_bytes)
next
  case False
  then obtain ds c es where cps: "cps = ds @ c # es" and le: "length (chat_bytes ds) \<le> mx"
    and lt: "mx < length (chat_bytes ds) + length (utf8_encode c)" and f: "fit utf8_encode (Suc mx) 0 cps = ds"
    using cut_in_char [of mx 0 cps] by auto
  have "scalar c" using assms cps by simp
  then obtain b0 bs where e: "utf8_encode c = b0 # bs" "\<not> utf8_is_cont b0" and b: "list_all utf8_is_cont bs"
    by (rule encode_shape)
  have s: "chat_bytes cps = chat_bytes ds @ (b0 # bs) @ chat_bytes es" using cps e(1) by simp
  have "cut_back (chat_bytes cps) (length (chat_bytes ds) + (mx - length (chat_bytes ds))) = length (chat_bytes ds)"
  proof (rule back_loops(1))
    show "\<not> utf8_is_cont (chat_bytes cps ! length (chat_bytes ds))" using s e(2) by simp
    fix i
    assume "0 < i" "i \<le> mx - length (chat_bytes ds)"
    then show "utf8_is_cont (chat_bytes cps ! (length (chat_bytes ds) + i))"
      using middle_bytes [OF s b] lt e(1) by simp
  qed
  with False le f show ?thesis by (simp add: utf8_truncate_def)
qed

subsection \<open>Editing whole characters\<close>

lemma nth_shift_up:
  assumes "m + nb \<le> length buf" and "cur \<le> m" and "j < length buf"
  shows "fold (\<lambda>i b. b[i + nb := b ! i]) (rev [cur..<m]) buf ! j =
    (if cur + nb \<le> j \<and> j < m + nb then buf ! (j - nb) else buf ! j)"
  using assms
proof (induction m arbitrary: buf)
  case 0
  then show ?case by auto
next
  case (Suc m)
  show ?case
  proof (cases "cur \<le> m")
    case True
    let ?b = "buf[m + nb := buf ! m]"
    have "fold (\<lambda>i b. b[i + nb := b ! i]) (rev [cur..<m]) ?b ! j =
        (if cur + nb \<le> j \<and> j < m + nb then ?b ! (j - nb) else ?b ! j)"
      by (rule Suc.IH) (use Suc.prems True in simp_all)
    with True Suc.prems show ?thesis by (auto simp: nth_list_update)
  next
    case False
    with Suc.prems show ?thesis by auto
  qed
qed

lemma length_shift [simp]:
  "length (fold (\<lambda>i b. b[i + nb := b ! i]) xs buf) = length buf"
  "length (fold (\<lambda>i b. b[i := b ! (i + k)]) xs buf) = length buf"
  by (induction xs arbitrary: buf) simp_all

lemma nth_shift_down:
  assumes "n + k \<le> length buf" and "0 < k" and "j < length buf"
  shows "fold (\<lambda>i b. b[i := b ! (i + k)]) [at..<n] buf ! j = (if at \<le> j \<and> j < n then buf ! (j + k) else buf ! j)"
  using assms
proof (induction n arbitrary: j)
  case 0
  then show ?case by simp
next
  case (Suc n)
  show ?case
  proof (cases "at \<le> n")
    case True
    have "fold (\<lambda>i b. b[i := b ! (i + k)]) [at..<n] buf ! (n + k) = buf ! (n + k)"
      using Suc.IH [of "n + k"] Suc.prems by simp
    moreover have "fold (\<lambda>i b. b[i := b ! (i + k)]) [at..<n] buf ! j =
        (if at \<le> j \<and> j < n then buf ! (j + k) else buf ! j)"
      using Suc by simp
    ultimately show ?thesis using True Suc.prems by (auto simp: nth_list_update)
  next
    case False
    with Suc.prems show ?thesis by auto
  qed
qed

lemma shift_up_text:
  assumes "buf = A @ B @ 0 # R" and "length b \<le> length R"
  shows "memcpy_at (shift_up (length A) (length A + length B) (length b) buf) (length A) b
    = A @ b @ B @ 0 # drop (length b) R" (is "?l = ?r")
proof (rule nth_equalityI)
  have len: "length (shift_up (length A) (length A + length B) (length b) buf) = length buf"
    by (simp add: shift_up_def)
  then show "length ?l = length ?r" using assms by simp
  fix j assume "j < length ?l"
  with len assms have j: "j < length buf" by simp
  have mc: "?l ! j = (if length A \<le> j \<and> j < length A + length b then b ! (j - length A)
      else shift_up (length A) (length A + length B) (length b) buf ! j)"
    by (rule nth_memcpy_at) (use len j assms in simp_all)
  have su: "shift_up (length A) (length A + length B) (length b) buf ! j =
    (if length A + length b \<le> j \<and> j < length A + length B + 1 + length b then buf ! (j - length b) else buf ! j)"
    unfolding shift_up_def by (rule nth_shift_up) (use j assms in simp_all)
  consider "j < length A" | "length A \<le> j" "j < length A + length b"
    | "length A + length b \<le> j" "j < length A + length B + 1 + length b"
    | "length A + length B + 1 + length b \<le> j" by linarith
  then show "?l ! j = ?r ! j"
  proof cases
    case 1
    then have "?l ! j = buf ! j" by (simp add: mc su)
    also have "\<dots> = ?r ! j" using 1 by (simp add: assms(1) nth_append)
    finally show ?thesis .
  next
    case 2
    then have "?l ! j = b ! (j - length A)" by (simp add: mc)
    moreover obtain i where "j = length A + i" using 2 by (auto simp: le_iff_add)
    ultimately show ?thesis using 2 by (simp add: nth_append)
  next
    case 3
    then obtain i where i: "j = length A + length b + i" by (auto simp: le_iff_add)
    with 3 have "i < length (B @ [0])" by simp
    moreover have "j - length b = length A + i" using i by simp
    moreover have "(B @ 0 # drop (length b) R) ! i = (B @ [0]) ! i" "(B @ 0 # R) ! i = (B @ [0]) ! i"
      using \<open>i < length (B @ [0])\<close> by (auto simp: nth_append less_Suc_eq)
    moreover have "?l ! j = buf ! (j - length b)" using 3 by (simp add: mc su)
    ultimately show ?thesis using i by (simp add: assms(1) nth_append)
  next
    case 4
    then obtain i where i: "j = length A + length B + 1 + length b + i" by (auto simp: le_iff_add)
    have "buf ! j = R ! (length b + i)" using i by (simp add: assms(1) nth_append)
    moreover have "?r ! j = drop (length b) R ! i" using i by (simp add: nth_append)
    moreover have "drop (length b) R ! i = R ! (length b + i)" using assms(2) by simp
    ultimately show ?thesis using 4 by (simp add: mc su)
  qed
qed

lemma shift_down_text:
  assumes "buf = A @ C @ B @ 0 # R" and "0 < length C"
  shows "shift_down (length A) (length A + length C + length B) (length C) buf
    = A @ B @ 0 # drop (length A + length B + 1) buf" (is "?l = ?r")
proof (rule nth_equalityI)
  show "length ?l = length ?r" using assms(1) by (simp add: shift_down_def)
  fix j assume "j < length ?l"
  then have j: "j < length buf" by (simp add: shift_down_def)
  have "length A + length C + length B + 1 - length C = length A + length B + 1" by simp
  then have sd: "?l ! j = (if length A \<le> j \<and> j < length A + length B + 1 then buf ! (j + length C) else buf ! j)"
    unfolding shift_down_def by (simp only:) (rule nth_shift_down, use j assms in simp_all)
  consider "j < length A" | "length A \<le> j" "j < length A + length B + 1" | "length A + length B + 1 \<le> j" by linarith
  then show "?l ! j = ?r ! j"
  proof cases
    case 1
    then have "?l ! j = buf ! j" by (simp add: sd)
    also have "\<dots> = ?r ! j" using 1 by (simp add: assms(1) nth_append)
    finally show ?thesis .
  next
    case 2
    then obtain i where i: "j = length A + i" by (auto simp: le_iff_add)
    with 2 have "i < length (B @ [0])" by simp
    then have "(B @ 0 # drop (length A + length B + 1) buf) ! i = (B @ [0]) ! i" "(B @ 0 # R) ! i = (B @ [0]) ! i"
      by (auto simp: nth_append less_Suc_eq)
    moreover have "buf ! (j + length C) = (B @ 0 # R) ! i" using i by (simp add: assms(1) nth_append)
    moreover have "?l ! j = buf ! (j + length C)" using 2 by (simp add: sd)
    ultimately show ?thesis using i by (simp add: nth_append)
  next
    case 3
    then obtain i where i: "j = length A + length B + 1 + i" by (auto simp: le_iff_add)
    have "?r ! j = drop (length A + length B + 1) buf ! i" using i by (simp add: nth_append)
    also have "\<dots> = buf ! j" using i j by simp
    finally show ?thesis using 3 by (simp add: sd)
  qed
qed

text \<open>The line that shows \<open>cps\<close> with the cursor before character \<open>n\<close>; \<open>R\<close> is the rest of the buffer.\<close>

definition line_of :: "u32 list \<Rightarrow> nat \<Rightarrow> bytes \<Rightarrow> edit_line" where
  "line_of cps n R = \<lparr>el_buf = chat_bytes cps @ 0 # R, el_len = length (chat_bytes cps),
     el_cur = length (chat_bytes (take n cps))\<rparr>"

lemma chat_split: "chat_bytes cps = chat_bytes (take n cps) @ chat_bytes (drop n cps)"
  by (metis append_take_drop_id chat_simps(3))

lemma insert_char:
  assumes "scalar c" and "n \<le> length cps"
  shows "utf8_edit_insert (Some (line_of cps n R)) (Some (utf8_encode c)) =
    (if length (utf8_encode c) \<le> length R
     then (True, Some (line_of (take n cps @ c # drop n cps) (n + 1) (drop (length (utf8_encode c)) R)))
     else (False, Some (line_of cps n R)))"
proof -
  let ?A = "chat_bytes (take n cps)" and ?B = "chat_bytes (drop n cps)" and ?b = "utf8_encode c"
  have s: "chat_bytes cps = ?A @ ?B" by (rule chat_split)
  have len: "length (chat_bytes cps) = length ?A + length ?B" by (simp add: s)
  have ne: "0 < length ?b" using encode_nonempty [OF assms(1)] by simp
  have new: "chat_bytes (take n cps @ c # drop n cps) = ?A @ ?b @ ?B" by simp
  have cur: "chat_bytes (take (n + 1) (take n cps @ c # drop n cps)) = ?A @ ?b"
    using assms(2) by (simp add: min_absorb2)
  show ?thesis
  proof (cases "length ?b \<le> length R")
    case True
    have "memcpy_at (shift_up (length ?A) (length ?A + length ?B) (length ?b) (chat_bytes cps @ 0 # R)) (length ?A) ?b
        = ?A @ ?b @ ?B @ 0 # drop (length ?b) R"
      by (rule shift_up_text) (use s True in simp_all)
    with True ne show ?thesis
      by (simp add: utf8_edit_insert_def line_of_def Let_def new cur len min_absorb2 assms(2) del: chat_simps) (simp add: new)
  next
    case False
    with ne show ?thesis by (simp add: utf8_edit_insert_def line_of_def Let_def len)
  qed
qed

lemma erase_char:
  assumes "cps = ds @ c # es" and "scalar c"
  shows "\<exists>R'. length R' = length R + length (utf8_encode c) \<and>
    utf8_edit_erase (Some (line_of cps (if before then length ds + 1 else length ds) R)) before =
      (length (utf8_encode c), Some (line_of (ds @ es) (length ds) R'))"
proof -
  let ?A = "chat_bytes ds" and ?C = "utf8_encode c" and ?B = "chat_bytes es"
  let ?buf = "chat_bytes cps @ 0 # R"
  have buf: "?buf = ?A @ ?C @ ?B @ 0 # R" by (simp add: assms(1))
  have ne: "0 < length ?C" using encode_nonempty [OF assms(2)] by simp
  have len: "length (chat_bytes cps) = length ?A + length ?C + length ?B" by (simp add: assms(1))
  have k: "utf8_prev_len ?buf (length ?A + length ?C) = length ?C"
    by (rule prev_len_char [OF assms(2) buf])
  have k': "utf8_next_len ?buf (length ?A) (length ?A + length ?C + length ?B) = length ?C"
    by (rule next_len_char [OF assms(2) buf]) simp
  have sd: "shift_down (length ?A) (length ?A + length ?C + length ?B) (length ?C) ?buf
      = ?A @ ?B @ 0 # drop (length ?A + length ?B + 1) ?buf"
    by (rule shift_down_text [OF buf ne])
  define R' where "R' = drop (length ?A + length ?B + 1) ?buf"
  have "length R' = length R + length ?C" by (simp add: R'_def len)
  moreover have "utf8_edit_erase (Some (line_of cps (if before then length ds + 1 else length ds) R)) before =
      (length ?C, Some (line_of (ds @ es) (length ds) R'))"
  proof (cases before)
    case True
    have cur: "chat_bytes (take (length ds + 1) cps) = ?A @ ?C" by (simp add: assms(1))
    have "utf8_edit_erase (Some \<lparr>el_buf = ?buf, el_len = length ?A + length ?C + length ?B,
        el_cur = length ?A + length ?C\<rparr>) True =
      (length ?C, Some \<lparr>el_buf = ?A @ ?B @ 0 # R', el_len = length ?A + length ?B, el_cur = length ?A\<rparr>)"
      using ne by (simp add: utf8_edit_erase_def Let_def k sd [folded R'_def])
    with True show ?thesis by (simp only: line_of_def cur len length_append if_True) simp
  next
    case False
    have cur: "chat_bytes (take (length ds) cps) = ?A" by (simp add: assms(1))
    have "utf8_edit_erase (Some \<lparr>el_buf = ?buf, el_len = length ?A + length ?C + length ?B, el_cur = length ?A\<rparr>) False =
      (length ?C, Some \<lparr>el_buf = ?A @ ?B @ 0 # R', el_len = length ?A + length ?B, el_cur = length ?A\<rparr>)"
      using ne by (simp add: utf8_edit_erase_def Let_def k' sd [folded R'_def])
    with False show ?thesis by (simp only: line_of_def cur len if_False) simp
  qed
  ultimately show ?thesis by blast
qed

subsection \<open>Names\<close>

lemma cstr_drop:
  "cstr (drop i s) = (if char_at s i = 0 then [] else char_at s i # cstr (drop (i + 1) s))"
proof (cases "i < length s")
  case True
  then have "drop i s = s ! i # drop (i + 1) s" by (simp add: Cons_nth_drop_Suc)
  with True show ?thesis by (simp add: cstr_def char_at_def)
qed (simp add: cstr_def char_at_def)

text \<open>The scan keeps the letters and digits that fit, in order; \<open>i - w\<close> grows with every byte dropped.\<close>

lemma name_scan:
  assumes "w \<le> i" and "w < cap" and "i \<le> length s"
    and "kept = take (cap - 1 - w) (filter name_char_ok (cstr (drop i s)))"
    and "name_scan cap s w i ch = (s', w', i', ch')"
  shows "length s' = length s \<and> take w' s' = take w s @ kept \<and> w' = w + length kept
    \<and> i' = i + length (cstr (drop i s)) \<and> (ch' \<longleftrightarrow> ch \<or> length kept < length (cstr (drop i s)))"
  using assms
proof (induction cap s w i ch arbitrary: kept rule: name_scan.induct)
  case (1 cap s w i ch)
  show ?case
  proof (cases "char_at s i = 0")
    case True
    then have "cstr (drop i s) = []" by (subst cstr_drop) simp
    with True "1.prems" show ?thesis by (simp add: name_scan.simps [of cap s w i])
  next
    case nz: False
    then have i: "i < length s" by (simp add: char_at_def split: if_splits)
    let ?t = "cstr (drop (i + 1) s)"
    have t: "cstr (drop i s) = char_at s i # ?t" using nz by (subst cstr_drop) simp
    show ?thesis
    proof (cases "name_char_ok (char_at s i) \<and> w + 1 < cap")
      case True
      let ?s = "s[w := char_at s i]"
      define k where "k = take (cap - 1 - (w + 1)) (filter name_char_ok ?t)"
      have d: "drop (i + 1) ?s = drop (i + 1) s" using "1.prems"(1) by simp
      have tk: "take (Suc w) ?s = take w s @ [char_at s i]"
        using i "1.prems"(1) by (simp add: take_Suc_conv_app_nth)
      obtain m where m: "cap - 1 - w = Suc m" "cap - 1 - (w + 1) = m" using True by (cases "cap - 1 - w") auto
      then have kept: "kept = char_at s i # k" using True "1.prems"(4) t by (simp add: k_def)
      have "name_scan cap ?s (w + 1) (i + 1) ch = (s', w', i', ch')"
        using "1.prems"(5) nz True by (simp add: name_scan.simps [of cap s w i])
      then have "length s' = length ?s \<and> take w' s' = take (w + 1) ?s @ k \<and> w' = w + 1 + length k
        \<and> i' = i + 1 + length ?t \<and> (ch' \<longleftrightarrow> ch \<or> length k < length ?t)"
        by (intro "1.IH"(1) [OF nz True, of k, unfolded d]) (use "1.prems"(1) True i in \<open>simp_all add: k_def\<close>)
      then show ?thesis by (auto simp: kept t tk)
    next
      case False
      define k where "k = take (cap - 1 - w) (filter name_char_ok ?t)"
      have kept: "kept = k" using False "1.prems"(2,4) t by (cases "name_char_ok (char_at s i)") (auto simp: k_def)
      have "name_scan cap s w (i + 1) True = (s', w', i', ch')"
        using "1.prems"(5) nz False by (auto simp: name_scan.simps [of cap s w i])
      then have "length s' = length s \<and> take w' s' = take w s @ k \<and> w' = w + length k \<and> i' = i + 1 + length ?t
        \<and> (ch' \<longleftrightarrow> True \<or> length k < length ?t)"
        by (intro "1.IH"(2) [OF nz False, of k]) (use "1.prems"(1,2) i in \<open>simp_all add: k_def\<close>)
      moreover have "length k < Suc (length ?t)"
        unfolding k_def by (simp add: less_Suc_eq_le) (meson length_filter_le min.coboundedI1)
      ultimately show ?thesis by (auto simp: kept t)
    qed
  qed
qed

text \<open>The result as a C string: the letters and digits that fit, or the fallback when none is left.\<close>

lemma cstr_update_nul:
  assumes "w < length s" and "0 \<notin> set (take w s)"
  shows "cstr (s[w := 0]) = take w s"
proof -
  have "s[w := 0] = take w s @ 0 # drop (Suc w) s" using assms(1) by (simp add: upd_conv_take_nth_drop)
  then show ?thesis using assms(2) by simp
qed

lemma filter_name_no_nul: "0 \<notin> set (filter name_char_ok xs)"
  by (auto simp: name_char_ok_def)

definition name_letters :: "nat \<Rightarrow> bytes \<Rightarrow> bytes" where
  "name_letters cap s = take (cap - 1) (filter name_char_ok (cstr s))"

lemma name_normalize_result:
  assumes "0 < cap" and "cap \<le> length s"
  shows "\<exists>s'. name_normalize (Some s) cap fb = (fst (name_normalize (Some s) cap fb), Some s') \<and> length s' = length s \<and>
    cstr s' = (if name_letters cap s = [] then take (cap - 1) (case fb of None \<Rightarrow> [] | Some f \<Rightarrow> cstr f)
      else name_letters cap s)"
proof -
  obtain s1 w i ch where sc: "name_scan cap s 0 0 False = (s1, w, i, ch)" by (cases "name_scan cap s 0 0 False")
  let ?k = "name_letters cap s"
  have "?k = take (cap - 1 - 0) (filter name_char_ok (cstr (drop 0 s)))" by (simp add: name_letters_def)
  from name_scan [OF _ _ _ this sc]
  have r: "length s1 = length s \<and> take w s1 = ?k \<and> w = length ?k \<and> i = length (cstr s)
      \<and> (ch \<longleftrightarrow> length ?k < length (cstr s))"
    using assms(1) by (auto simp only: drop_0 take_0 append_Nil add_0)
  have w: "w < cap" using r assms(1) by (auto simp: name_letters_def)
  have c: "cstr (s1[w := 0]) = ?k"
    using cstr_update_nul [of w s1] r w assms(2) filter_name_no_nul
    by (metis in_set_takeD name_letters_def order_less_le_trans)
  show ?thesis
  proof (cases "\<exists>f. fb = Some f \<and> w = 0 \<and> char_at f 0 \<noteq> 0")
    case True
    then obtain f where f: "fb = Some f" "w = 0" "char_at f 0 \<noteq> 0" by blast
    have k: "?k = []" using r f(2) by simp
    have "ch \<or> w \<noteq> i \<or> i = 0" using r f(2) by auto
    then have "name_normalize (Some s) cap fb =
        (True, Some (memcpy_at (s1[w := 0]) 0 (take (cap - 1) (cstr f) @ [0])))"
      using sc f assms(1) by (auto simp: name_normalize_def Let_def)
    moreover have "cstr (memcpy_at (s1[w := 0]) 0 (take (cap - 1) (cstr f) @ [0])) = take (cap - 1) (cstr f)"
      by (rule cstr_memcpy_nul) (rule set_take_cstr)
    moreover have "length (memcpy_at (s1[w := 0]) 0 (take (cap - 1) (cstr f) @ [0])) = length s"
      using r assms by (subst length_memcpy_at) (auto simp: min_def)
    ultimately show ?thesis using k f(1) by simp
  next
    case False
    then have "name_normalize (Some s) cap fb = (ch \<or> w \<noteq> i, Some (s1[w := 0]))"
      using sc assms(1) by (auto simp: name_normalize_def Let_def split: option.splits)
    moreover have "take (cap - 1) (case fb of None \<Rightarrow> [] | Some f \<Rightarrow> cstr f) = []" if "?k = []"
      using False that r by (auto simp: cstr_drop [of 0, simplified] split: option.splits)
    ultimately show ?thesis using c r by auto
  qed
qed

subsection \<open>Properties\<close>

text \<open>Chat text survives the widgets: the UTF-8 line narrowed from any text into a buffer holds the
  characters that fit, whole, and widening that line gives back exactly those characters as far as the wide
  buffer has room; both results are terminated inside their buffers.\<close>

theorem chat_text_round_trip:
  fixes dst8 :: bytes and dst16 :: "u16 list"
  assumes "list_all scalar cps" and "0 < length dst8" and "0 < length dst16"
  defines "kept \<equiv> fit utf8_encode (length dst8) 0 cps"
  defines "shown \<equiv> fit units_of (length dst16) 0 kept"
  shows "utf16_to_utf8 (chat_units cps) dst8 =
      (memcpy_at dst8 0 (chat_bytes kept @ [0]), length (chat_bytes kept)) \<and>
    utf8_to_utf16 (fst (utf16_to_utf8 (chat_units cps) dst8)) dst16 =
      (memcpy_at dst16 0 (chat_units shown @ [0]), length (chat_units shown)) \<and>
    (length (chat_bytes cps) < length dst8 \<longrightarrow> length (chat_units cps) < length dst16 \<longrightarrow> shown = cps)"
proof (intro conjI)
  have "utf8_loop (chat_units cps) 0 (length dst8) = chat_bytes kept"
    using utf8_loop_chat [OF assms(1), of "[]"] by (simp add: kept_def)
  then show n: "utf16_to_utf8 (chat_units cps) dst8 =
      (memcpy_at dst8 0 (chat_bytes kept @ [0]), length (chat_bytes kept))"
    using assms(2) by (simp add: utf16_to_utf8_def Let_def)
  have "list_all scalar kept" unfolding kept_def by (rule list_all_fit) (rule assms(1))
  then have "utf16_loop (chat_bytes kept @ 0 # drop (length (chat_bytes kept) + 1) dst8) 0 (length dst16)
      = chat_units shown"
    by (simp add: utf16_loop_chat shown_def)
  then show "utf8_to_utf16 (fst (utf16_to_utf8 (chat_units cps) dst8)) dst16 =
      (memcpy_at dst16 0 (chat_units shown @ [0]), length (chat_units shown))"
    using assms(3) by (simp add: n utf8_to_utf16_def Let_def memcpy_at_def)
  show "length (chat_bytes cps) < length dst8 \<longrightarrow> length (chat_units cps) < length dst16 \<longrightarrow> shown = cps"
    by (simp add: shown_def kept_def fit_all_bytes fit_all_units)
qed

lemma chat_text_round_trip_witness:
  "utf8_to_utf16 (fst (utf16_to_utf8 (chat_units [0x48, 0x20AC, 0x1F600]) (replicate 20 7))) (replicate 6 7) =
     (memcpy_at (replicate 6 7) 0 (chat_units [0x48, 0x20AC, 0x1F600] @ [0]), 4)"
proof -
  have cps: "list_all scalar [0x48, 0x20AC, 0x1F600]" by (simp add: scalar_def)
  have "fit utf8_encode 20 0 [0x48, 0x20AC, 0x1F600] = [0x48, 0x20AC, 0x1F600]"
    "fit units_of 6 0 [0x48, 0x20AC, 0x1F600] = [0x48, 0x20AC, 0x1F600]"
    "length (chat_units [0x48, 0x20AC, 0x1F600]) = 4"
    by (simp_all add: utf8_encode_def units_of_def)
  with chat_text_round_trip [OF cps, of "replicate 20 7" "replicate 6 7", THEN conjunct2, THEN conjunct1] show ?thesis by simp
qed

text \<open>C21. Every edit of a chat line moves a whole character: on the line that shows \<open>cps\<close> with the cursor
  before character \<open>n\<close>, typing inserts the character there or, when it has no room, changes nothing; backspace
  removes the character before the cursor and delete the one at it, and the line is again text with the cursor
  at a boundary, in a buffer of the same size.\<close>

theorem line_edits_move_characters:
  assumes "list_all scalar cps" and "scalar c" and "n \<le> length cps"
  shows "utf8_edit_insert (Some (line_of cps n R)) (Some (utf8_encode c)) =
      (if length (utf8_encode c) \<le> length R
       then (True, Some (line_of (take n cps @ c # drop n cps) (n + 1) (drop (length (utf8_encode c)) R)))
       else (False, Some (line_of cps n R))) \<and>
    (0 < n \<longrightarrow> (\<exists>R'. length R' = length R + length (utf8_encode (cps ! (n - 1))) \<and>
      utf8_edit_erase (Some (line_of cps n R)) True =
        (length (utf8_encode (cps ! (n - 1))), Some (line_of (take (n - 1) cps @ drop n cps) (n - 1) R')))) \<and>
    (n < length cps \<longrightarrow> (\<exists>R'. length R' = length R + length (utf8_encode (cps ! n)) \<and>
      utf8_edit_erase (Some (line_of cps n R)) False =
        (length (utf8_encode (cps ! n)), Some (line_of (take n cps @ drop (n + 1) cps) n R'))))"
proof (intro conjI)
  show "utf8_edit_insert (Some (line_of cps n R)) (Some (utf8_encode c)) =
      (if length (utf8_encode c) \<le> length R
       then (True, Some (line_of (take n cps @ c # drop n cps) (n + 1) (drop (length (utf8_encode c)) R)))
       else (False, Some (line_of cps n R)))"
    by (rule insert_char) (use assms in simp_all)
  have sc: "scalar (cps ! i)" if "i < length cps" for i using assms(1) that by (simp add: list_all_length)
  show "0 < n \<longrightarrow> (\<exists>R'. length R' = length R + length (utf8_encode (cps ! (n - 1))) \<and>
      utf8_edit_erase (Some (line_of cps n R)) True =
        (length (utf8_encode (cps ! (n - 1))), Some (line_of (take (n - 1) cps @ drop n cps) (n - 1) R')))"
  proof
    assume n: "0 < n"
    then have "cps = take (n - 1) cps @ cps ! (n - 1) # drop n cps"
      using assms(3) id_take_nth_drop [of "n - 1" cps] by simp
    from erase_char [OF this sc, of R True] n assms(3) show "\<exists>R'. length R' = length R + length (utf8_encode (cps ! (n - 1))) \<and>
      utf8_edit_erase (Some (line_of cps n R)) True =
        (length (utf8_encode (cps ! (n - 1))), Some (line_of (take (n - 1) cps @ drop n cps) (n - 1) R'))"
      by (simp add: min_absorb2)
  qed
  show "n < length cps \<longrightarrow> (\<exists>R'. length R' = length R + length (utf8_encode (cps ! n)) \<and>
      utf8_edit_erase (Some (line_of cps n R)) False =
        (length (utf8_encode (cps ! n)), Some (line_of (take n cps @ drop (n + 1) cps) n R')))"
  proof
    assume n: "n < length cps"
    then have "cps = take n cps @ cps ! n # drop (n + 1) cps" using id_take_nth_drop [of n cps] by simp
    from erase_char [OF this sc [OF n], of R False] n show "\<exists>R'. length R' = length R + length (utf8_encode (cps ! n)) \<and>
      utf8_edit_erase (Some (line_of cps n R)) False =
        (length (utf8_encode (cps ! n)), Some (line_of (take n cps @ drop (n + 1) cps) n R'))"
      by (simp add: min_absorb2)
  qed
qed

lemma line_edits_move_characters_witness:
  "utf8_edit_insert (Some (line_of [0x48, 0x49] 1 [0, 0, 0])) (Some (utf8_encode 0x20AC)) =
     (True, Some (line_of [0x48, 0x20AC, 0x49] (Suc 1) []))"
  using line_edits_move_characters [where cps = "[0x48, 0x49]" and c = "0x20AC" and n = 1 and R = "[0, 0, 0]"]
  by (simp add: scalar_def utf8_encode_def)

text \<open>A text cut at a byte limit ends on a character boundary and keeps every character that fits; the
  caret of the first \<open>k\<close> characters, counted in UTF-16 units, comes back as their byte length.\<close>

theorem cuts_fall_between_characters:
  assumes "list_all scalar cps" and "k \<le> length cps"
  shows "take (utf8_truncate (chat_bytes cps) mx) (chat_bytes cps) = chat_bytes (fit utf8_encode (Suc mx) 0 cps)"
    and "utf8_truncate (chat_bytes cps) mx \<le> mx"
    and "utf8_bytes_for_units (chat_bytes cps) (utf8_utf16_units (chat_bytes (take k cps))) =
      length (chat_bytes (take k cps))"
proof -
  let ?f = "fit utf8_encode (Suc mx) 0 cps"
  obtain es where "cps = ?f @ es" using fit_prefix by blast
  then have "chat_bytes cps = chat_bytes ?f @ chat_bytes es" by (metis chat_simps(3))
  then show "take (utf8_truncate (chat_bytes cps) mx) (chat_bytes cps) = chat_bytes ?f"
    unfolding truncate_chat [OF assms(1)] by (metis append_eq_conv_conj)
  show "utf8_truncate (chat_bytes cps) mx \<le> mx"
    using length_fit [of "Suc mx" 0 utf8_encode cps]
    unfolding truncate_chat [OF assms(1)] unfolding chat_bytes_def by simp
  have "list_all scalar (take k cps)" using assms(1) by (auto simp: list_all_iff dest: in_set_takeD)
  then have u: "utf8_utf16_units (chat_bytes (take k cps)) = length (chat_units (take k cps))"
    using utf8_utf16_units_chat [of "take k cps" "[]"] by simp
  have "fit units_of (Suc (length (chat_units (take k cps)))) 0 cps = take k cps"
    using fit_take [of units_of cps k 0] assms(2) by (simp add: chat_units_def units_of_def list_all_iff)
  then show "utf8_bytes_for_units (chat_bytes cps) (utf8_utf16_units (chat_bytes (take k cps))) =
      length (chat_bytes (take k cps))"
    using bytes_for_units_chat [OF assms(1), of "[]"] by (simp add: utf8_bytes_for_units_def u)
qed

lemma cuts_fall_between_characters_witness:
  "utf8_truncate (chat_bytes [0x48, 0x20AC]) 3 \<le> 3 \<and> take (utf8_truncate (chat_bytes [0x48, 0x20AC]) 3) (chat_bytes [0x48, 0x20AC]) = [0x48]"
  using cuts_fall_between_characters(1,2) [of "[0x48, 0x20AC]" 1 3]
  by (simp add: scalar_def utf8_encode_def)

text \<open>Names normalize alike on every peer: whatever bytes arrive, the result is the letters and digits of
  the name that fit, or the fallback when there are none; so with the built-in fallback and room for more than
  the terminator it is always a valid name, and normalizing it again changes nothing.\<close>

theorem normalized_name_is_valid:
  assumes "1 < cap" and "cap \<le> length s"
  shows "\<exists>s'. snd (name_normalize (Some s) cap (Some NAME_FALLBACK)) = Some s' \<and> name_is_valid (Some s') \<and>
    length (cstr s') < cap \<and> (name_letters cap s \<noteq> [] \<longrightarrow> cstr s' = name_letters cap s) \<and>
    map_option cstr (snd (name_normalize (Some s') cap (Some NAME_FALLBACK))) = Some (cstr s')"
proof -
  have fb: "cstr NAME_FALLBACK = NAME_FALLBACK" "NAME_FALLBACK \<noteq> []" "list_all name_char_ok NAME_FALLBACK"
    by (simp_all add: NAME_FALLBACK_def ascii_def cstr_def name_char_ok_def)
  define r where "r = (if name_letters cap s = [] then take (cap - 1) NAME_FALLBACK else name_letters cap s)"
  have ok: "list_all name_char_ok r" "r \<noteq> []" "length r < cap"
    using assms(1) fb by (auto simp: r_def name_letters_def list_all_iff dest!: in_set_takeD)
  obtain s' where s': "snd (name_normalize (Some s) cap (Some NAME_FALLBACK)) = Some s'" "length s' = length s" "cstr s' = r"
    using name_normalize_result [of cap s "Some NAME_FALLBACK"] assms fb(1)
    unfolding r_def by (metis (no_types, lifting) One_nat_def less_imp_le_nat less_trans not_less option.simps(5) snd_conv zero_less_one)
  have "char_at s' 0 \<noteq> 0" using s'(3) ok(2) cstr_drop [of 0 s'] by (auto split: if_splits)
  then have valid: "name_is_valid (Some s')" using ok(1) s'(3) by (simp add: name_is_valid_def)
  have "name_letters cap s' = r" using ok s'(3) by (simp add: name_letters_def filter_id_conv list_all_iff)
  then obtain s2 where "snd (name_normalize (Some s') cap (Some NAME_FALLBACK)) = Some s2" "cstr s2 = r"
    using name_normalize_result [of cap s' "Some NAME_FALLBACK"] assms s'(2) ok(2)
    by (metis gr_zeroI not_less_zero snd_conv)
  then have "map_option cstr (snd (name_normalize (Some s') cap (Some NAME_FALLBACK))) = Some (cstr s')"
    using s'(3) by simp
  with s' valid ok(3) show ?thesis by (auto simp: r_def)
qed

lemma normalized_name_is_valid_witness:
  "\<exists>s'. snd (name_normalize (Some (ascii ''Z e!'' @ [0, 0])) 5 (Some NAME_FALLBACK)) = Some s' \<and> cstr s' = ascii ''Ze''"
proof -
  have k: "name_letters 5 (ascii ''Z e!'' @ [0, 0]) = ascii ''Ze''"
    by (simp add: name_letters_def ascii_def cstr_def name_char_ok_def)
  from normalized_name_is_valid [of 5 "ascii ''Z e!'' @ [0, 0]"] k show ?thesis
    by (auto simp: ascii_def)
qed

end
