(* ===== verification/Announce.thy ===== *)
theory Announce
  imports Join_Request Text_Utf8
begin

text \<open>
  The host's announcements to the lobby (\<open>mh_net_proto/src/session_info.cpp\<close>): a refused JOIN with its reason,
  the table of pings, and the texts of the reasons.
\<close>

definition ANNOUNCE_REFUSED :: u8 where "ANNOUNCE_REFUSED = 2"
definition ANNOUNCE_PING :: u8 where "ANNOUNCE_PING = 3"
definition ANNOUNCE_TEXT_CAP :: nat where "ANNOUNCE_TEXT_CAP = 96"
definition ANNOUNCE_PING_MAX_ENTRIES :: nat where "ANNOUNCE_PING_MAX_ENTRIES = 8"
definition ANNOUNCE_PING_SRTT_CLAMP :: u16 where "ANNOUNCE_PING_SRTT_CLAMP = 9999"
definition ANNOUNCE_PING_RELAY_UNKNOWN :: u8 where "ANNOUNCE_PING_RELAY_UNKNOWN = 2"
definition ANNOUNCE_PING_MAX_ENCODED :: nat where "ANNOUNCE_PING_MAX_ENCODED = 2 + ANNOUNCE_PING_MAX_ENTRIES * 4"
definition JOIN_REFUSAL_TEXT_MAX :: nat where "JOIN_REFUSAL_TEXT_MAX = 20"

record announce_ping_entry =
  ap_player_id :: u8
  ap_srtt_ms :: u16
  ap_relay :: u8

subsection \<open>A refusal\<close>

definition announce_refused_encode :: "u8 \<Rightarrow> bytes option \<Rightarrow> bytes" where
  "announce_refused_encode target reason =
     [ANNOUNCE_REFUSED, target] @
     (case reason of None \<Rightarrow> [] | Some s \<Rightarrow> take (ANNOUNCE_TEXT_CAP - 1) (cstr s)) @ [0]"

text \<open>The reason goes into a buffer that is as long as its capacity.\<close>

definition announce_refused_decode :: "bytes \<Rightarrow> u8 \<Rightarrow> bytes \<Rightarrow> bool \<times> u8 \<times> bytes" where
  "announce_refused_decode inp target reason =
     (if length inp < 3 \<or> inp ! 0 \<noteq> ANNOUNCE_REFUSED \<or> length reason = 0 then (False, target, reason)
      else let n = length (cstr (drop 2 inp)) in
        if 2 + n \<ge> length inp then (False, target, reason)
        else let w = (if n < length reason - 1 then n else length reason - 1)
             in (True, inp ! 1, memcpy_at reason 0 (take w (drop 2 inp) @ [0])))"

subsection \<open>The ping table\<close>

definition ping_entry_encode :: "announce_ping_entry \<Rightarrow> bytes" where
  "ping_entry_encode e =
     (let ms = (if ap_srtt_ms e > ANNOUNCE_PING_SRTT_CLAMP then ANNOUNCE_PING_SRTT_CLAMP else ap_srtt_ms e);
          r = (if ap_relay e > ANNOUNCE_PING_RELAY_UNKNOWN then ANNOUNCE_PING_RELAY_UNKNOWN else ap_relay e)
      in [ap_player_id e, ucast (ms AND 0xff), ucast (drop_bit 8 ms), r])"

definition announce_ping_encode :: "announce_ping_entry list \<Rightarrow> bytes" where
  "announce_ping_encode es =
     (let es = take ANNOUNCE_PING_MAX_ENTRIES es
      in [ANNOUNCE_PING, of_nat (length es)] @ concat (map ping_entry_encode es))"

definition ping_entry_decode :: "bytes \<Rightarrow> announce_ping_entry" where
  "ping_entry_decode p =
     \<lparr> ap_player_id = p ! 0, ap_srtt_ms = ucast (p ! 1) OR push_bit 8 (ucast (p ! 2)),
       ap_relay = (if p ! 3 > ANNOUNCE_PING_RELAY_UNKNOWN then ANNOUNCE_PING_RELAY_UNKNOWN else p ! 3) \<rparr>"

text \<open>The entries written to a table of \<open>cap\<close> places.\<close>

definition announce_ping_decode :: "bytes \<Rightarrow> nat \<Rightarrow> announce_ping_entry list option" where
  "announce_ping_decode inp cap =
     (if length inp < 2 \<or> inp ! 0 \<noteq> ANNOUNCE_PING then None
      else let n = unat (inp ! 1) in
        if n > ANNOUNCE_PING_MAX_ENTRIES then None
        else if length inp < 2 + n * 4 then None
        else Some (map (\<lambda>i. ping_entry_decode (drop (2 + i * 4) inp)) [0..<if n < cap then n else cap]))"

subsection \<open>Reasons\<close>

definition join_admit_reason :: "join_admit_verdict \<Rightarrow> bytes" where
  "join_admit_reason a =
     (case a of
        Admit \<Rightarrow> ascii ''ok''
      | RefusedMalformed \<Rightarrow> ascii ''malformed JOIN''
      | RefusedOldProtocol \<Rightarrow> ascii ''old protocol (no match_id)''
      | RefusedNewerProtocol \<Rightarrow> ascii ''newer protocol than this host''
      | RefusedWrongLobby \<Rightarrow> ascii ''not our lobby''
      | RefusedCodepage \<Rightarrow> ascii ''input codepage mismatch''
      | RefusedBuild \<Rightarrow> ascii ''build (release version) mismatch''
      | RefusedGameplay \<Rightarrow> ascii ''gameplay key set mismatch'')"

text \<open>What each branch prints.\<close>

definition refusal_text :: "join_admit_verdict \<Rightarrow> session_info \<Rightarrow> join_request \<Rightarrow> bytes" where
  "refusal_text a mine theirs =
     (case a of
        RefusedCodepage \<Rightarrow>
          (if si_codepage mine = CHAT_ENCODING_UTF8 \<and> jr_codepage theirs \<noteq> CHAT_ENCODING_UTF8
           then ascii ''old client cp '' @ dec_text (unat (jr_codepage theirs))
           else if jr_codepage theirs = CHAT_ENCODING_UTF8 \<and> si_codepage mine \<noteq> CHAT_ENCODING_UTF8
           then ascii ''old host cp '' @ dec_text (unat (si_codepage mine))
           else ascii ''codepage '' @ dec_text (unat (si_codepage mine)) @ ascii ''/'' @ dec_text (unat (jr_codepage theirs)))
      | RefusedBuild \<Rightarrow> ascii ''build '' @ cstr (si_build mine) @ ascii ''/'' @
          (if jr_build theirs ! 0 \<noteq> 0 then cstr (jr_build theirs) else ascii ''?'')
      | RefusedGameplay \<Rightarrow> ascii ''gameplay keys '' @ hex8 (si_gameplay_digest mine) @ ascii ''/'' @ hex8 (jr_gameplay_digest theirs)
      | RefusedNewerProtocol \<Rightarrow> ascii ''protocol '' @ dec_text (unat (jr_format theirs)) @ ascii '' > '' @ dec_text (unat JOIN_REQUEST_FORMAT)
      | RefusedOldProtocol \<Rightarrow> ascii ''protocol '' @ dec_text (unat (jr_format theirs)) @ ascii '' < '' @ dec_text (unat JOIN_REQUEST_MIN_FORMAT)
      | _ \<Rightarrow> join_admit_reason a)"

definition join_refusal_text :: "join_admit_verdict \<Rightarrow> session_info \<Rightarrow> join_request \<Rightarrow> bytes \<Rightarrow> bytes" where
  "join_refusal_text a mine theirs out =
     (if length out = 0 then out else (snprintf out (refusal_text a mine theirs))[length out - 1 := 0])"

subsection \<open>What arrives\<close>

lemma refused_round_trip:
  assumes "ANNOUNCE_TEXT_CAP \<le> length buf"
  shows "announce_refused_decode (announce_refused_encode t (Some s) @ r) t0 buf =
    (True, t, memcpy_at buf 0 (take 95 (cstr s) @ [0]))"
proof -
  define t' where "t' = take 95 (cstr s)"
  have z: "0 \<notin> set t'" and l: "length t' \<le> 95" using set_take_cstr by (simp_all add: t'_def)
  have e: "announce_refused_encode t (Some s) @ r = [ANNOUNCE_REFUSED, t] @ t' @ 0 # r"
    by (simp add: announce_refused_encode_def t'_def ANNOUNCE_TEXT_CAP_def)
  have b: "96 \<le> length buf" using assms by (simp add: ANNOUNCE_TEXT_CAP_def)
  then have w: "(if length t' < length buf - 1 then length t' else length buf - 1) = length t'" using l by auto
  have g: "\<not> (length ([ANNOUNCE_REFUSED, t] @ t' @ 0 # r) < 3 \<or> ([ANNOUNCE_REFUSED, t] @ t' @ 0 # r) ! 0 \<noteq> ANNOUNCE_REFUSED \<or> length buf = 0)"
    using b by auto
  have d: "drop 2 ([ANNOUNCE_REFUSED, t] @ t' @ 0 # r) = t' @ 0 # r" by simp
  show ?thesis unfolding e announce_refused_decode_def if_not_P [OF g] Let_def d cstr_append_nul [OF z] w
    by (simp flip: t'_def)
qed

lemma ping_entry_split:
  "ping_entry_decode (ping_entry_encode e @ r) =
     \<lparr> ap_player_id = ap_player_id e, ap_srtt_ms = min (ap_srtt_ms e) ANNOUNCE_PING_SRTT_CLAMP,
       ap_relay = min (ap_relay e) ANNOUNCE_PING_RELAY_UNKNOWN \<rparr>"
proof -
  have h: "ucast (ucast (ms AND 0xff) :: u8) OR push_bit 8 (ucast (ucast (drop_bit 8 ms) :: u8)) = ms" for ms :: u16
  proof (rule bit_word_eqI)
    fix k assume k: "k < LENGTH(16)"
    show "bit (ucast (ucast (ms AND 0xff) :: u8) OR push_bit 8 (ucast (ucast (drop_bit 8 ms) :: u8)) :: u16) k = bit ms k"
      using k by (auto simp: and_ff bit_simps)
  qed
  show ?thesis by (auto simp: ping_entry_decode_def ping_entry_encode_def Let_def h min_def)
qed

lemma length_ping_entry: "length (ping_entry_encode e) = 4"
  by (simp add: ping_entry_encode_def Let_def)

lemma nth_block:
  assumes "\<And>x. x \<in> set xs \<Longrightarrow> length (f x) = k" "i < length xs"
  shows "\<exists>r'. drop (i * k) (concat (map f xs) @ r) = f (xs ! i) @ r'"
  using assms
proof (induction xs arbitrary: i)
  case (Cons x xs)
  show ?case
  proof (cases i)
    case (Suc j)
    then show ?thesis using Cons.IH [of j] Cons.prems by (simp add: drop_append)
  qed simp
qed simp

text \<open>The lobby's announcements round-trip.  A refusal reaches the player it is for, with its reason cut to 95
  characters.  A ping table of at most eight entries arrives whole, in order, with every time at most 9999 ms and
  every relay class one of the three; a longer one arrives as its first eight; and a table that is cut short is
  refused as a whole.\<close>

theorem announcements_round_trip:
  assumes buf: "ANNOUNCE_TEXT_CAP \<le> length buf"
  shows "announce_refused_decode (announce_refused_encode t (Some s) @ r) t0 buf =
      (True, t, memcpy_at buf 0 (take 95 (cstr s) @ [0])) \<and>
    announce_ping_decode (announce_ping_encode es @ r) cap = Some (take cap (map (\<lambda>e.
      \<lparr> ap_player_id = ap_player_id e, ap_srtt_ms = min (ap_srtt_ms e) 9999, ap_relay = min (ap_relay e) 2 \<rparr>) (take 8 es))) \<and>
    length (announce_ping_encode es) \<le> ANNOUNCE_PING_MAX_ENCODED \<and>
    (n < length (announce_ping_encode es) \<longrightarrow> announce_ping_decode (take n (announce_ping_encode es)) cap = None)"
proof (intro conjI impI)
  define xs where "xs = take 8 es"
  define c where "c = concat (map ping_entry_encode xs)"
  have e: "announce_ping_encode es = [ANNOUNCE_PING, of_nat (length xs)] @ c"
    by (simp add: announce_ping_encode_def Let_def ANNOUNCE_PING_MAX_ENTRIES_def xs_def c_def)
  have lx: "length xs \<le> 8" by (simp add: xs_def)
  then have u: "unat (of_nat (length xs) :: u8) = length xs" by (intro unat_of_nat_u8) simp
  have lc: "length c = length xs * 4" by (simp add: c_def length_concat comp_def length_ping_entry sum_list_triv)
  show "length (announce_ping_encode es) \<le> ANNOUNCE_PING_MAX_ENCODED"
    using lx by (simp add: e lc ANNOUNCE_PING_MAX_ENCODED_def ANNOUNCE_PING_MAX_ENTRIES_def)
  have "map (\<lambda>i. ping_entry_decode (drop (2 + i * 4) (announce_ping_encode es @ r))) [0..<if length xs < cap then length xs else cap] =
      take cap (map (\<lambda>e. \<lparr> ap_player_id = ap_player_id e, ap_srtt_ms = min (ap_srtt_ms e) 9999, ap_relay = min (ap_relay e) 2 \<rparr>) xs)"
  proof (rule nth_equalityI)
    fix i assume "i < length (map (\<lambda>i. ping_entry_decode (drop (2 + i * 4) (announce_ping_encode es @ r)))
        [0..<if length xs < cap then length xs else cap])"
    then have i: "i < length xs" "i < cap" by (auto split: if_splits)
    obtain r' where "drop (i * 4) (c @ r) = ping_entry_encode (xs ! i) @ r'"
      using nth_block [of xs ping_entry_encode 4 i r] i length_ping_entry by (auto simp: c_def)
    then have "drop (2 + i * 4) (announce_ping_encode es @ r) = ping_entry_encode (xs ! i) @ r'" by (simp add: e)
    then show "map (\<lambda>i. ping_entry_decode (drop (2 + i * 4) (announce_ping_encode es @ r)))
        [0..<if length xs < cap then length xs else cap] ! i =
        take cap (map (\<lambda>e. \<lparr> ap_player_id = ap_player_id e, ap_srtt_ms = min (ap_srtt_ms e) 9999, ap_relay = min (ap_relay e) 2 \<rparr>) xs) ! i"
      using i by (auto simp: ping_entry_split ANNOUNCE_PING_SRTT_CLAMP_def ANNOUNCE_PING_RELAY_UNKNOWN_def)
  qed (auto simp: min_def)
  then show "announce_ping_decode (announce_ping_encode es @ r) cap = Some (take cap (map (\<lambda>e.
      \<lparr> ap_player_id = ap_player_id e, ap_srtt_ms = min (ap_srtt_ms e) 9999, ap_relay = min (ap_relay e) 2 \<rparr>) (take 8 es)))"
    using lx u lc by (simp add: announce_ping_decode_def e Let_def ANNOUNCE_PING_MAX_ENTRIES_def xs_def [symmetric])
  assume n: "n < length (announce_ping_encode es)"
  show "announce_ping_decode (take n (announce_ping_encode es)) cap = None"
  proof (cases "n < 2")
    case True
    then show ?thesis by (simp add: announce_ping_decode_def min_less_iff_disj)
  next
    case False
    then have "take n (announce_ping_encode es) = [ANNOUNCE_PING, of_nat (length xs)] @ take (n - 2) c"
      by (simp add: e take_Cons' eval_nat_numeral)
    moreover have "n - 2 < length xs * 4" using n lc False by (simp add: e)
    ultimately show ?thesis using lc u by (simp add: announce_ping_decode_def Let_def)
  qed
qed (rule refused_round_trip [OF buf])

theorem announcements_round_trip_witness:
  "announce_refused_decode (announce_refused_encode 3 (Some (ascii ''no'')) @ []) 0 (replicate 96 0) =
      (True, 3, memcpy_at (replicate 96 0) 0 (take 95 (cstr (ascii ''no'')) @ [0]))"
  by (rule conjunct1 [OF announcements_round_trip]) (simp add: ANNOUNCE_TEXT_CAP_def)

subsection \<open>The width of a reason\<close>

lemma length_dec_u16: "length (dec_text (unat (v :: u16))) \<le> 5"
  using unat_u16 [of v] by (intro length_dec_text) simp_all

lemma length_dec_u8: "length (dec_text (unat (v :: u8))) \<le> 3"
  using unat_u8 [of v] by (intro length_dec_text) simp_all

lemma length_ascii [simp]: "length (ascii s) = length s"
  by (simp add: ascii_def)

lemma refusal_text_length:
  assumes "si_ok mine" "length (cstr (jr_build theirs)) \<le> BUILD_MAX"
  shows "a \<notin> {RefusedBuild, RefusedGameplay} \<Longrightarrow> length (refusal_text a mine theirs) \<le> JOIN_REFUSAL_TEXT_MAX"
    "a = RefusedGameplay \<Longrightarrow> length (refusal_text a mine theirs) = 31"
    "length (refusal_text a mine theirs) \<le> 37"
proof -
  have b: "length (cstr (si_build mine)) \<le> 15" "length (cstr (jr_build theirs)) \<le> 15"
    using assms length_cstr_less [of "si_build mine"] by (simp_all add: si_ok_def BUILD_MAX_def)
  note d = length_dec_u16 [of "si_codepage mine"] length_dec_u16 [of "jr_codepage theirs"] length_dec_u8 [of "jr_format theirs"]
    length_dec_u8 [of JOIN_REQUEST_FORMAT] length_dec_u8 [of JOIN_REQUEST_MIN_FORMAT]
  have f: "length (dec_text (unat JOIN_REQUEST_FORMAT)) = 1" "length (dec_text (unat JOIN_REQUEST_MIN_FORMAT)) = 1"
    by (simp_all add: JOIN_REQUEST_FORMAT_def JOIN_REQUEST_MIN_FORMAT_def dec_text.simps)
  show "a \<notin> {RefusedBuild, RefusedGameplay} \<Longrightarrow> length (refusal_text a mine theirs) \<le> JOIN_REFUSAL_TEXT_MAX"
    using d f by (cases a) (auto simp: refusal_text_def join_admit_reason_def JOIN_REFUSAL_TEXT_MAX_def)
  show "a = RefusedGameplay \<Longrightarrow> length (refusal_text a mine theirs) = 31" by (simp add: refusal_text_def)
  show "length (refusal_text a mine theirs) \<le> 37"
    using b d by (cases a) (auto simp: refusal_text_def join_admit_reason_def)
qed

lemma refusal_text_no_nul: "0 \<notin> set (refusal_text a mine theirs)"
  using cstr_no_nul by (cases a) (auto simp: refusal_text_def join_admit_reason_def hex8_no_nul ascii_def)

text \<open>Every reason for a refusal is printed whole into the announcement's buffer, and every one but two fits the
  twenty characters of the status line: the release mismatch, which the header exempts, and the mismatch of the
  gameplay keys, which always takes 31.\<close>

theorem refusal_texts_fit:
  assumes "si_ok mine" "length (cstr (jr_build theirs)) \<le> BUILD_MAX" "length out = ANNOUNCE_TEXT_CAP"
  shows "cstr (join_refusal_text a mine theirs out) = refusal_text a mine theirs \<and>
    (a \<notin> {RefusedBuild, RefusedGameplay} \<longrightarrow> length (refusal_text a mine theirs) \<le> JOIN_REFUSAL_TEXT_MAX) \<and>
    length (refusal_text RefusedGameplay mine theirs) = 31"
proof -
  note l = refusal_text_length [OF assms(1,2)]
  let ?t = "refusal_text a mine theirs"
  have o: "length out = 96" using assms(3) by (simp add: ANNOUNCE_TEXT_CAP_def)
  have "snprintf out ?t = ?t @ [0] @ drop (length ?t + 1) out"
    using l(3) [of a] o by (auto simp: snprintf_def memcpy_at_def)
  moreover have "(?t @ [0] @ drop (length ?t + 1) out)[95 := 0] = ?t @ [0] @ (drop (length ?t + 1) out)[95 - (length ?t + 1) := 0]"
    using l(3) [of a] Suc_diff_le [of "length ?t" 94] by (simp add: list_update_append)
  ultimately have "join_refusal_text a mine theirs out = ?t @ [0] @ (drop (length ?t + 1) out)[95 - (length ?t + 1) := 0]"
    using o by (auto simp: join_refusal_text_def)
  then have "cstr (join_refusal_text a mine theirs out) = ?t" using refusal_text_no_nul by simp
  with l show ?thesis by blast
qed

theorem refusal_texts_fit_witness:
  "cstr (join_refusal_text RefusedCodepage ex_info ex_request (replicate 96 0)) = refusal_text RefusedCodepage ex_info ex_request"
proof -
  have "length (cstr (jr_build ex_request)) \<le> BUILD_MAX"
    using ex_request_ok length_cstr_less [of "jr_build ex_request"] by (simp add: jr_ok_def)
  from refusal_texts_fit [OF ex_info_ok this, of "replicate 96 0"] show ?thesis by (simp add: ANNOUNCE_TEXT_CAP_def)
qed

end
