(* ===== verification/Udp_Room.thy ===== *)
theory Udp_Room
  imports Session_Info
begin

text \<open>
  The relay room of a host, \<open>mh_dll/mh_net_udp/udp_room.h\<close>: minting a random code and answering
  \<open>room_busy\<close> with a fresh one.  The random source of the caller is a function on its context: the bytes
  it produces, or \<open>None\<close> when there is no randomness; a null function pointer is \<open>None\<close>.
\<close>

type_synonym 'c rand_fn = "'c \<Rightarrow> nat \<Rightarrow> 'c \<times> bytes option"

definition ROOM_MAX :: u32 where "ROOM_MAX = SESSION_RELAY_ROOM_MAX"
definition BUSY_RETRIES :: int where "BUSY_RETRIES = 4"
definition MINT_DRAWS :: nat where "MINT_DRAWS = 8"

text \<open>The loop over the draws that are left.\<close>

fun mint_loop :: "'c rand_fn \<Rightarrow> u32 \<Rightarrow> nat \<Rightarrow> 'c \<Rightarrow> 'c \<times> u32" where
  "mint_loop rnd avoid 0 ctx = (ctx, 0)"
| "mint_loop rnd avoid (Suc draws) ctx =
     (case rnd ctx 4 of
        (ctx', None) \<Rightarrow> (ctx', 0)
      | (ctx', Some b) \<Rightarrow>
          (let r = (ucast (b ! 0) OR push_bit 8 (ucast (b ! 1)) OR push_bit 16 (ucast (b ! 2))
                    OR push_bit 24 (ucast (b ! 3))) AND ROOM_MAX in
           if r \<noteq> 0 \<and> r \<noteq> avoid then (ctx', r) else mint_loop rnd avoid draws ctx'))"

definition mint :: "'c rand_fn option \<Rightarrow> 'c \<Rightarrow> u32 \<Rightarrow> 'c \<times> u32" where
  "mint rnd ctx avoid = (case rnd of None \<Rightarrow> (ctx, 0) | Some f \<Rightarrow> mint_loop f avoid MINT_DRAWS ctx)"

record 'c minter =
  mt_rnd :: "'c rand_fn option"
  mt_ctx :: 'c
  mt_room :: u32
  mt_busy :: int

definition minter_init :: "'c rand_fn option \<Rightarrow> 'c \<Rightarrow> u32 \<Rightarrow> bool \<times> 'c minter" where
  "minter_init rnd ctx avoid =
     (case mint rnd ctx avoid of
        (ctx', room) \<Rightarrow> (room \<noteq> 0, \<lparr>mt_rnd = rnd, mt_ctx = ctx', mt_room = room, mt_busy = 0\<rparr>))"

definition minter_on_busy :: "'c minter \<Rightarrow> bool \<times> 'c minter" where
  "minter_on_busy m =
     (if mt_busy m \<ge> BUSY_RETRIES then (False, m)
      else
        (case mint (mt_rnd m) (mt_ctx m) (mt_room m) of
           (ctx', fresh) \<Rightarrow>
             if fresh = 0 then (False, m\<lparr>mt_ctx := ctx'\<rparr>)
             else (True, m\<lparr>mt_ctx := ctx', mt_busy := mt_busy m + 1, mt_room := fresh\<rparr>)))"

subsection \<open>What a minted room is\<close>

lemma mint_loop_range: "snd (mint_loop rnd avoid n ctx) \<noteq> 0 \<Longrightarrow>
    snd (mint_loop rnd avoid n ctx) \<le> ROOM_MAX \<and> snd (mint_loop rnd avoid n ctx) \<noteq> avoid"
  by (induction n arbitrary: ctx) (auto simp: Let_def word_and_le1 split: prod.splits option.splits if_splits)

lemma mint_range:
  assumes "mint rnd ctx avoid = (ctx', r)" and "r \<noteq> 0"
  shows "r \<le> ROOM_MAX \<and> r \<noteq> avoid"
proof (cases rnd)
  case None
  with assms show ?thesis by (simp add: mint_def)
next
  case (Some f)
  with assms show ?thesis using mint_loop_range [of f avoid MINT_DRAWS ctx] by (simp add: mint_def)
qed

text \<open>Every answer to a run of \<open>n\<close> refusals, in order, and the minter after it.\<close>

fun answer_busy :: "nat \<Rightarrow> 'c minter \<Rightarrow> (bool \<times> u32) list \<times> 'c minter" where
  "answer_busy 0 m = ([], m)"
| "answer_busy (Suc n) m =
     (let (ok, m') = minter_on_busy m; (as, m'') = answer_busy n m' in ((ok, mt_room m') # as, m''))"

definition hosted :: "'c minter \<Rightarrow> bool" where
  "hosted m = (mt_room m \<noteq> 0 \<and> mt_room m \<le> ROOM_MAX \<and> 0 \<le> mt_busy m \<and> mt_busy m \<le> BUSY_RETRIES)"

lemma minter_init_hosted: "minter_init rnd ctx avoid = (True, m) \<Longrightarrow> hosted m \<and> mt_busy m = 0 \<and> mt_room m \<noteq> avoid"
  by (auto simp: minter_init_def hosted_def BUSY_RETRIES_def dest: mint_range split: prod.splits)

lemma minter_on_busy_step:
  assumes "hosted m" and "minter_on_busy m = (ok, m')"
  shows "hosted m'" and "ok \<Longrightarrow> mt_busy m' = mt_busy m + 1 \<and> mt_room m' \<noteq> mt_room m"
    and "\<not> ok \<Longrightarrow> mt_busy m' = mt_busy m \<and> mt_room m' = mt_room m"
    and "mt_busy m = BUSY_RETRIES \<Longrightarrow> \<not> ok"
  using assms
  by (auto simp: minter_on_busy_def hosted_def dest: mint_range split: if_splits prod.splits)

text \<open>
  The answers are chained from the room \<open>r\<close> that was refused first: a fresh room differs from the one the relay refused
  before it, and a refusal that stands leaves it.
\<close>

fun moves_on :: "u32 \<Rightarrow> (bool \<times> u32) list \<Rightarrow> bool" where
  "moves_on r [] = True"
| "moves_on r ((ok, r') # as) = ((if ok then r' \<noteq> r else r' = r) \<and> moves_on r' as)"

lemma answer_busy_bound:
  assumes "hosted m" and "answer_busy n m = (as, m')"
  shows "hosted m' \<and> mt_busy m' = mt_busy m + int (length (filter fst as)) \<and> length as = n \<and>
    (\<forall>a\<in>set as. snd a \<noteq> 0 \<and> snd a \<le> ROOM_MAX) \<and> moves_on (mt_room m) as \<and>
    mt_room m' = last (mt_room m # map snd as)"
  using assms
proof (induction n arbitrary: m as)
  case 0
  then show ?case by simp
next
  case (Suc n)
  obtain ok m1 where s: "minter_on_busy m = (ok, m1)" by (cases "minter_on_busy m")
  obtain bs m2 where r: "answer_busy n m1 = (bs, m2)" by (cases "answer_busy n m1")
  have as: "as = (ok, mt_room m1) # bs" and m2: "m2 = m'"
    using Suc.prems(2) s r by (simp_all add: eq_commute)
  note st = minter_on_busy_step [OF Suc.prems(1) s]
  from Suc.IH [OF st(1) r [unfolded m2]] show ?case
    using st as m2 by (auto simp: hosted_def)
qed

text \<open>C22. A host that minted a room draws at most four fresh ones: its first room is not the one it was told to avoid, and
  whatever the random source yields, a run of \<open>room_busy\<close> answers of any length is answered with at most four re-mints.
  Each re-mint names a room other than the one just refused, a refusal that stands leaves the room as it is, every
  room named is a code the browser can route and never the directory room 0, and once the four are spent every
  further refusal stands and changes nothing.  (The tunnel goes on asking for the last room; that is not the minter's.)\<close>

theorem room_busy_retries_end:
  assumes "minter_init rnd ctx avoid = (True, m)" and "answer_busy n m = (as, m')"
  shows "mt_room m \<noteq> avoid \<and> length (filter fst as) \<le> 4 \<and> moves_on (mt_room m) as \<and>
    (\<forall>a\<in>set as. snd a \<noteq> 0 \<and> session_sender_relay_room (session_sender_for_relay_room (snd a)) = snd a) \<and>
    mt_room m' = last (mt_room m # map snd as) \<and>
    (length (filter fst as) = 4 \<longrightarrow> minter_on_busy m' = (False, m'))"
proof (intro conjI)
  from minter_init_hosted [OF assms(1)] have h: "hosted m" "mt_busy m = 0" "mt_room m \<noteq> avoid" by auto
  note b = answer_busy_bound [OF h(1) assms(2)]
  show "mt_room m \<noteq> avoid" by (rule h(3))
  show "length (filter fst as) \<le> 4" "moves_on (mt_room m) as" "mt_room m' = last (mt_room m # map snd as)"
    using b h(2) by (auto simp: hosted_def BUSY_RETRIES_def)
  show "\<forall>a\<in>set as. snd a \<noteq> 0 \<and> session_sender_relay_room (session_sender_for_relay_room (snd a)) = snd a"
    using b relay_room_round_trip by (auto simp: ROOM_MAX_def)
  show "length (filter fst as) = 4 \<longrightarrow> minter_on_busy m' = (False, m')"
    using b h(2) by (simp add: minter_on_busy_def BUSY_RETRIES_def)
qed

text \<open>A source that counts: its context is the next byte value.\<close>

definition counting_rnd :: "nat rand_fn" where
  "counting_rnd c n = (c + 1, Some (of_nat (c mod 256) # replicate (n - 1) 0))"

lemma room_busy_retries_end_witness:
  "fst (minter_init (Some counting_rnd) 1 0)
   \<and> length (filter fst (fst (answer_busy 9 (snd (minter_init (Some counting_rnd) 1 0))))) \<le> 4
   \<and> moves_on 1 (fst (answer_busy 9 (snd (minter_init (Some counting_rnd) 1 0))))"
proof -
  have "mint_loop counting_rnd 0 (Suc 7) 1 = (2, 1)"
    by (simp only: mint_loop.simps(2)) (simp add: counting_rnd_def ROOM_MAX_def SESSION_RELAY_ROOM_MAX_def)
  then have "mint (Some counting_rnd) 1 0 = (2, 1)" by (simp add: mint_def MINT_DRAWS_def)
  then have i: "minter_init (Some counting_rnd) 1 0
      = (True, \<lparr>mt_rnd = Some counting_rnd, mt_ctx = 2, mt_room = 1, mt_busy = 0\<rparr>)"
    by (simp add: minter_init_def)
  from room_busy_retries_end [OF i surjective_pairing, of 9] show ?thesis
    unfolding i fst_conv snd_conv by simp
qed

end
