(* ===== verification/Order_Codec.thy ===== *)
theory Order_Codec
  imports Byteio
begin

text \<open>
  The encoding of a game order, shared by the wire and the save file
  (\<open>mh_dll/libmh/orders/order_codec.h\<close>), and the encoding of its unit index
  (\<open>mh_dll/libmh/orders/order_index_codec.h\<close>).  The clock value \<open>exec_time\<close> is only copied bit by bit,
  so the model keeps its 64 bits; the signed fields keep their bits too.  The helpers \<open>put16\<close>, \<open>put32\<close>,
  \<open>get16\<close>, \<open>get32\<close> of the file are those of \<open>byteio.h\<close>.
\<close>

definition RECORD_BYTES :: nat where "RECORD_BYTES = 68"

record order =
  exec_time :: u64
  unit_index :: u16
  owner_and_kind :: u16
  param0 :: u16
  order_code :: u16
  args :: "u32 list"

text \<open>The struct holds thirteen arguments.\<close>

definition order_wf :: "order \<Rightarrow> bool" where "order_wf x = (length (args x) = 13)"

definition order_encode :: "order \<Rightarrow> bytes" where
  "order_encode x =
     put_u32 (ucast (exec_time x AND 0xffffffff)) @ put_u32 (ucast (drop_bit 32 (exec_time x)))
     @ put_u16 (unit_index x) @ put_u16 (owner_and_kind x) @ put_u16 (param0 x) @ put_u16 (order_code x)
     @ concat (map (\<lambda>i. put_u32 (args x ! i)) [0..<13])"

definition order_decode :: "bytes \<Rightarrow> order" where
  "order_decode p =
     \<lparr>exec_time = ucast (get_u32 p) OR push_bit 32 (ucast (get_u32 (drop 4 p))),
      unit_index = get_u16 (drop 8 p),
      owner_and_kind = get_u16 (drop 10 p),
      param0 = get_u16 (drop 12 p),
      order_code = get_u16 (drop 14 p),
      args = map (\<lambda>i. get_u32 (drop (16 + i * 4) p)) [0..<13]\<rparr>"

subsection \<open>The unit index\<close>

definition dup_low_byte :: "u16 \<Rightarrow> u16" where
  "dup_low_byte v = (let b = v AND 0xff in b OR push_bit 8 b)"

definition encode_index :: "u16 \<Rightarrow> u16" where
  "encode_index v = (let lo = v AND 0xff; hi = lo XOR (drop_bit 8 v AND 0x0f) in push_bit 8 hi OR lo)"

definition decode_index :: "u16 \<Rightarrow> u16" where
  "decode_index w = (let lo = w AND 0xff in lo OR push_bit 8 ((drop_bit 8 w XOR lo) AND 0x0f))"

definition index_check_ok :: "u16 \<Rightarrow> bool" where
  "index_check_ok w = ((drop_bit 8 w XOR w) AND 0xf0 = 0)"

subsection \<open>Lemmas\<close>

lemma clock_halves: "ucast (ucast (v AND 0xffffffff) :: u32) OR push_bit 32 (ucast (ucast (drop_bit 32 v) :: u32)) = v"
  for v :: u64
proof -
  have "v AND 0xffffffff = take_bit 32 v" by (simp add: take_bit_eq_mask mask_eq_exp_minus_1)
  then show ?thesis by (simp only:) (rule bit_word_eqI, auto simp: bit_simps)
qed

lemma joined_u64:
  fixes a b :: u32
  defines "v \<equiv> (ucast a OR push_bit 32 (ucast b) :: u64)"
  shows "(ucast (v AND 0xffffffff) :: u32) = a" "(ucast (drop_bit 32 v) :: u32) = b"
proof -
  have "v AND 0xffffffff = take_bit 32 v" by (simp add: take_bit_eq_mask mask_eq_exp_minus_1)
  then show "(ucast (v AND 0xffffffff) :: u32) = a"
    by (simp only: v_def) (rule bit_word_eqI, auto simp: bit_simps)
  show "(ucast (drop_bit 32 v) :: u32) = b"
    unfolding v_def by (rule bit_word_eqI) (auto simp: bit_simps dest: bit_imp_le_length)
qed

lemma concat_put_u32 [simp]: "length (concat (map (\<lambda>i. put_u32 (f i)) xs)) = 4 * length xs"
  by (induction xs) simp_all

lemma length_order_encode [simp]: "length (order_encode x) = RECORD_BYTES"
  by (simp add: order_encode_def RECORD_BYTES_def)

lemma get_concat_put:
  "i < n \<Longrightarrow> get_u32 (drop (i * 4) (concat (map (\<lambda>i. put_u32 (f i)) [0..<n]) @ r)) = f i"
proof (induction n arbitrary: r)
  case (Suc n)
  let ?a = "concat (map (\<lambda>i. put_u32 (f i)) [0..<n])"
  have len: "length ?a = n * 4" by simp
  show ?case
  proof (cases "i < n")
    case True
    with Suc.IH [of "put_u32 (f n) @ r"] show ?thesis by simp
  next
    case False
    with Suc.prems have i: "i = n" by simp
    show ?thesis by (simp add: i len)
  qed
qed simp

lemma concat_put_get:
  "n * 4 \<le> length p \<Longrightarrow> concat (map (\<lambda>i. put_u32 (get_u32 (drop (i * 4) p))) [0..<n]) = take (n * 4) p"
proof (induction n)
  case (Suc n)
  then have "put_u32 (get_u32 (drop (n * 4) p)) = take 4 (drop (n * 4) p)" by (simp add: put_get)
  moreover have "take (Suc n * 4) p = take (n * 4) p @ take 4 (drop (n * 4) p)"
    by (simp only: mult_Suc add.commute [of 4] take_add)
  ultimately show ?case using Suc by simp
qed simp

lemma byte_masks:
  fixes v :: u16
  shows "v AND 0xff = take_bit 8 v" "v AND 0x0f = take_bit 4 v"
  by (simp_all add: take_bit_eq_mask mask_eq_exp_minus_1)

text \<open>The one record format of the wire and the save file is faithful in both directions: every order
  with its thirteen arguments decodes from its 68 bytes, whatever follows them, and any 68 bytes are the
  encoding of the order they decode to, so a saved order and a received order have one byte image.\<close>

theorem order_record_canonical:
  assumes "order_wf x" and "RECORD_BYTES \<le> length p"
  shows "order_decode (order_encode x @ r) = x \<and>
    order_wf (order_decode p) \<and>
    order_encode (order_decode p) = take RECORD_BYTES p"
proof (intro conjI)
  have "map (\<lambda>i. get_u32 (drop (16 + i * 4) (order_encode x @ r))) [0..<13] = args x"
  proof (rule nth_equalityI)
    show "length (map (\<lambda>i. get_u32 (drop (16 + i * 4) (order_encode x @ r))) [0..<13]) = length (args x)"
      using assms(1) by (simp add: order_wf_def)
    fix i assume "i < length (map (\<lambda>i. get_u32 (drop (16 + i * 4) (order_encode x @ r))) [0..<13])"
    then have i: "i < 13" by simp
    have "drop (16 + i * 4) (order_encode x @ r) = drop (i * 4) (drop 16 (order_encode x @ r))"
      by (simp only: drop_drop add.commute)
    also have "drop 16 (order_encode x @ r) = concat (map (\<lambda>i. put_u32 (args x ! i)) [0..<13]) @ r"
      by (simp add: order_encode_def del: upt_Suc)
    finally show "map (\<lambda>i. get_u32 (drop (16 + i * 4) (order_encode x @ r))) [0..<13] ! i = args x ! i"
      using i get_concat_put [OF i, of "\<lambda>i. args x ! i" r]
      by (simp del: drop_append upt_Suc)
  qed
  then show "order_decode (order_encode x @ r) = x"
    by (simp add: order_decode_def) (simp add: order_encode_def clock_halves)
  show "order_wf (order_decode p)" by (simp add: order_wf_def order_decode_def)
  show "order_encode (order_decode p) = take RECORD_BYTES p"
  proof -
    have len: "16 + 13 * 4 \<le> length p" using assms(2) by (simp add: RECORD_BYTES_def)
    have "concat (map (\<lambda>i. put_u32 (args (order_decode p) ! i)) [0..<13])
        = concat (map (\<lambda>i. put_u32 (get_u32 (drop (i * 4) (drop 16 p)))) [0..<13])"
      by (rule arg_cong [where f = concat], rule map_cong) (simp_all add: order_decode_def add.commute del: upt_Suc)
    also have "\<dots> = take (13 * 4) (drop 16 p)" by (rule concat_put_get) (use len in simp)
    finally have a: "concat (map (\<lambda>i. put_u32 (args (order_decode p) ! i)) [0..<13]) = take 52 (drop 16 p)" by simp
    have e: "(ucast (exec_time (order_decode p) AND 0xffffffff) :: u32) = get_u32 p"
      "(ucast (drop_bit 32 (exec_time (order_decode p))) :: u32) = get_u32 (drop 4 p)"
      by (simp_all only: order_decode_def order.simps joined_u64)
    have "order_encode (order_decode p) = take 4 p @ take 4 (drop 4 p) @ take 2 (drop 8 p) @ take 2 (drop 10 p)
        @ take 2 (drop 12 p) @ take 2 (drop 14 p) @ take 52 (drop 16 p)"
      unfolding order_encode_def a e using len by (simp add: order_decode_def put_get)
    also have "\<dots> = take 68 p" using take_add [of 4 64 p] take_add [of 4 60 "drop 4 p"] take_add [of 2 58 "drop 8 p"]
        take_add [of 2 56 "drop 10 p"] take_add [of 2 54 "drop 12 p"] take_add [of 2 52 "drop 14 p"]
      by simp
    finally show ?thesis by (simp add: RECORD_BYTES_def)
  qed
qed

lemma order_record_canonical_witness:
  "order_decode (order_encode \<lparr>exec_time = 1, unit_index = 2, owner_and_kind = 3, param0 = 4, order_code = 5,
      args = replicate 13 6\<rparr> @ [7]) =
    \<lparr>exec_time = 1, unit_index = 2, owner_and_kind = 3, param0 = 4, order_code = 5, args = replicate 13 6\<rparr>"
  by (rule order_record_canonical [where p = "replicate 68 0", THEN conjunct1])
    (simp_all add: order_wf_def RECORD_BYTES_def)

subsection \<open>The wide index\<close>

lemma bit_byte_dup:
  fixes v :: u16
  shows "bit (encode_index v) k = (k < 16 \<and> (if k < 8 then bit v k
    else if k < 12 then bit v (k - 8) \<noteq> bit v k else bit v (k - 8)))"
  unfolding encode_index_def Let_def byte_masks
  by (auto simp: bit_simps)

lemma bit_decode_index:
  fixes w :: u16
  shows "bit (decode_index w) k = (k < 12 \<and> (if k < 8 then bit w k else bit w k \<noteq> bit w (k - 8)))"
  unfolding decode_index_def Let_def byte_masks
  by (auto simp: bit_simps)

lemma index_check_bits:
  fixes w :: u16
  shows "index_check_ok w = (\<forall>n. 4 \<le> n \<and> n < 8 \<longrightarrow> bit w (8 + n) = bit w n)"
proof -
  have m: "(0xf0 :: int) = push_bit 4 (mask 4)" by (simp add: mask_eq_exp_minus_1 push_bit_eq_mult)
  have f0: "bit (0xf0 :: int) n = (4 \<le> n \<and> n < 8)" for n
    unfolding m by (auto simp: bit_push_bit_iff bit_mask_iff)
  show ?thesis
    unfolding index_check_ok_def bit_eq_iff
    by (rule arg_cong [where f = All], rule ext) (auto simp: bit_and_iff bit_xor_iff bit_drop_bit_eq f0)
qed

lemma small_index_bits: "unat v < 2 ^ n \<Longrightarrow> bit v k \<Longrightarrow> k < n" for v :: u16
proof -
  assume lt: "unat v < 2 ^ n" and b: "bit v k"
  from lt have "take_bit n (unat v) = unat v" by (rule take_bit_nat_eq_self)
  then have "take_bit n v = v" by (simp add: word_unat_eq_iff unsigned_take_bit_eq)
  with b show "k < n" by (metis bit_take_bit_iff)
qed

text \<open>C23. The wide unit index is a strict superset of the vanilla field: every index below 4096 is read back
  from its word, which passes the integrity check; below 256 the word is vanilla's duplicated byte; and the
  words that pass the check are exactly the encodings, so none is read as an index that would be written
  differently.\<close>

theorem wide_index_superset:
  fixes v w :: u16
  shows "(v < 0x1000 \<longrightarrow> decode_index (encode_index v) = v) \<and>
    (index_check_ok (encode_index v)) \<and>
    (v < 0x100 \<longrightarrow> encode_index v = dup_low_byte v) \<and>
    (index_check_ok w \<longrightarrow> encode_index (decode_index w) = w)"
proof (intro conjI impI)
  have cases: "P k" if "k < 8 \<Longrightarrow> P k" "8 \<le> k \<Longrightarrow> k < 12 \<Longrightarrow> P k" "12 \<le> k \<Longrightarrow> k < 16 \<Longrightarrow> P k" "k < 16"
    for P and k :: nat
    using that by linarith
  show "decode_index (encode_index v) = v" if "v < 0x1000"
  proof (rule bit_word_eqI)
    fix k assume "k < LENGTH(16)"
    then have k: "k < 16" by simp
    have h: "\<not> bit v k" if "12 \<le> k" for k
      using small_index_bits [of v 12 k] \<open>v < 0x1000\<close> that by (auto simp: word_less_nat_alt)
    show "bit (decode_index (encode_index v)) k = bit v k"
      by (rule cases) (use k h in \<open>auto simp: bit_decode_index bit_byte_dup\<close>)
  qed
  show "index_check_ok (encode_index v)"
    by (auto simp: index_check_bits bit_byte_dup)
  show "encode_index v = dup_low_byte v" if "v < 0x100"
  proof (rule bit_word_eqI)
    fix k assume "k < LENGTH(16)"
    then have k: "k < 16" by simp
    have h: "\<not> bit v k" if "8 \<le> k" for k
      using small_index_bits [of v 8 k] \<open>v < 0x100\<close> that by (auto simp: word_less_nat_alt)
    have h8: "k - 8 < 8" using k by linarith
    show "bit (encode_index v) k = bit (dup_low_byte v) k"
      by (rule cases)
        (use k h h8 in \<open>simp_all add: bit_byte_dup dup_low_byte_def Let_def byte_masks bit_or_iff bit_push_bit_iff
          bit_take_bit_iff\<close>)
  qed
  show "encode_index (decode_index w) = w" if "index_check_ok w"
  proof (rule bit_word_eqI)
    fix k assume "k < LENGTH(16)"
    then have k: "k < 16" by simp
    have h: "bit w k = bit w (k - 8)" if "12 \<le> k"
    proof -
      have "4 \<le> k - 8" "k - 8 < 8" "8 + (k - 8) = k" using k \<open>12 \<le> k\<close> by linarith+
      then show ?thesis using \<open>index_check_ok w\<close> unfolding index_check_bits by metis
    qed
    show "bit (encode_index (decode_index w)) k = bit w k"
      by (rule cases) (use k h in \<open>auto simp: bit_decode_index bit_byte_dup\<close>)
  qed
qed

lemma wide_index_superset_witness:
  "decode_index (encode_index 0x1F4) = 0x1F4 \<and> encode_index 7 = dup_low_byte 7 \<and> encode_index (decode_index 0x2C2C) = 0x2C2C"
  using wide_index_superset [where v = "0x1F4"] wide_index_superset [where v = 7]
    wide_index_superset [where w = "0x2C2C"]
  by (simp add: index_check_ok_def)

end
