(* ===== verification/Lane_Queue.thy ===== *)
theory Lane_Queue
  imports Bulk_Lane
begin

text \<open>
  The inbound queue of the game: two lanes merged by arrival sequence
  (\<open>mh_dll/mh_common/include/mh_net_queue_policy.h\<close>) and the two operations of the endpoint that keep the
  frames (\<open>Endpoint::enqueue\<close> and \<open>Endpoint::recv\<close> in \<open>mh_dll/mh_net_udp/udp_endpoint.cpp\<close>).  The template
  parameters of the queue are arguments; positions and counts, which the code never lets below zero, are
  \<open>nat\<close>; the arrival sequence keeps its 32 bits and wraps.  The log lines are left out; what they report is
  in the returned outcome.
\<close>

subsection \<open>The policy\<close>

definition MSG_ORDER :: u8 where "MSG_ORDER = 1"
definition MSG_HORIZON :: u8 where "MSG_HORIZON = 2"
definition BARE_HORIZON_LEN :: int where "BARE_HORIZON_LEN = 1 + 8"

definition is_evictable :: "bytes option \<Rightarrow> int \<Rightarrow> bool" where
  "is_evictable data len =
     (case data of None \<Rightarrow> False | Some d \<Rightarrow> len = BARE_HORIZON_LEN \<and> d ! 0 = MSG_HORIZON)"

datatype lane = Bulk | MustKeep | Supersedable

definition lane_of_game_frame :: "bytes option \<Rightarrow> int \<Rightarrow> lane" where
  "lane_of_game_frame data len = (if is_evictable data len then Supersedable else MustKeep)"

definition lane_of_bulk_chunk :: lane where "lane_of_bulk_chunk = Bulk"

definition lane_evictable :: "lane \<Rightarrow> bool" where "lane_evictable l = (l = Supersedable)"

record frame_view =
  fv_data :: "bytes option"
  fv_len :: int

text \<open>The scan of the single queue that the lanes replaced, kept by the code as the reference: the slots
  still to look at, oldest first.\<close>

fun victim_scan :: "(nat \<Rightarrow> frame_view) \<Rightarrow> nat list \<Rightarrow> int" where
  "victim_scan get [] = -1"
| "victim_scan get (slot # slots) =
     (if is_evictable (fv_data (get slot)) (fv_len (get slot)) then int slot else victim_scan get slots)"

definition choose_victim :: "int \<Rightarrow> int \<Rightarrow> int \<Rightarrow> (nat \<Rightarrow> frame_view) \<Rightarrow> int" where
  "choose_victim head count cap get =
     (if cap \<le> 0 \<or> count \<le> 0 then -1
      else victim_scan get (map (\<lambda>i. nat ((head + int i) mod cap)) [0..<nat count]))"

subsection \<open>The lane pair\<close>

record push_result =
  ps_accepted :: bool
  ps_which :: lane
  ps_pos :: int
  ps_evicted :: bool
  ps_evicted_pos :: int

definition push_result0 :: push_result where
  "push_result0 = \<lparr>ps_accepted = False, ps_which = MustKeep, ps_pos = -1, ps_evicted = False, ps_evicted_pos = -1\<rparr>"

record pop_result =
  pp_ok :: bool
  pp_which :: lane
  pp_pos :: int

definition pop_result0 :: pop_result where
  "pop_result0 = \<lparr>pp_ok = False, pp_which = MustKeep, pp_pos = -1\<rparr>"

definition seq_before :: "u32 \<Rightarrow> u32 \<Rightarrow> bool" where
  "seq_before a b = (sint (a - b) < 0)"

record lane_queue =
  lq_seq_h :: "u32 list"
  lq_seq_m :: "u32 list"
  lq_head_h :: nat
  lq_count_h :: nat
  lq_head_m :: nat
  lq_count_m :: nat
  lq_next_seq :: u32
  lq_high_water :: nat
  lq_high_h :: nat
  lq_high_m :: nat
  lq_evicted :: nat
  lq_refused :: nat
  lq_epoch :: u32

definition lane_queue0 :: "nat \<Rightarrow> nat \<Rightarrow> lane_queue" where
  "lane_queue0 cap_h cap_m =
     \<lparr>lq_seq_h = replicate cap_h 0, lq_seq_m = replicate cap_m 0, lq_head_h = 0, lq_count_h = 0, lq_head_m = 0,
      lq_count_m = 0, lq_next_seq = 0, lq_high_water = 0, lq_high_h = 0, lq_high_m = 0, lq_evicted = 0,
      lq_refused = 0, lq_epoch = 0\<rparr>"

definition lq_reset :: "lane_queue \<Rightarrow> lane_queue" where
  "lq_reset q = q\<lparr>lq_head_h := 0, lq_count_h := 0, lq_head_m := 0, lq_count_m := 0, lq_next_seq := 0,
     lq_high_water := 0, lq_high_h := 0, lq_high_m := 0, lq_evicted := 0, lq_refused := 0\<rparr>"

definition reset_counters :: "lane_queue \<Rightarrow> lane_queue" where
  "reset_counters q = q\<lparr>lq_high_h := lq_count_h q, lq_high_m := lq_count_m q,
     lq_high_water := lq_count_h q + lq_count_m q, lq_evicted := 0, lq_refused := 0, lq_epoch := lq_epoch q + 1\<rparr>"

definition lq_depth :: "lane_queue \<Rightarrow> nat" where "lq_depth q = lq_count_h q + lq_count_m q"

definition note_depth :: "lane_queue \<Rightarrow> lane_queue" where
  "note_depth q =
     (let d = lq_depth q;
          q = (if d > lq_high_water q then q\<lparr>lq_high_water := d\<rparr> else q);
          q = (if lq_count_h q > lq_high_h q then q\<lparr>lq_high_h := lq_count_h q\<rparr> else q)
      in if lq_count_m q > lq_high_m q then q\<lparr>lq_high_m := lq_count_m q\<rparr> else q)"

definition next_pos :: "nat \<Rightarrow> nat \<Rightarrow> nat" where "next_pos p cap = (p + 1) mod cap"

text \<open>Lane H makes room by giving up its head.\<close>

definition evict_head :: "nat \<Rightarrow> lane_queue \<Rightarrow> push_result \<Rightarrow> lane_queue \<times> push_result" where
  "evict_head cap_h q r =
     (if lq_count_h q \<ge> cap_h
      then (q\<lparr>lq_head_h := next_pos (lq_head_h q) cap_h, lq_count_h := lq_count_h q - 1, lq_evicted := lq_evicted q + 1\<rparr>,
            r\<lparr>ps_evicted := True, ps_evicted_pos := int (lq_head_h q)\<rparr>)
      else (q, r))"

definition lq_push :: "nat \<Rightarrow> nat \<Rightarrow> lane_queue \<Rightarrow> lane \<Rightarrow> push_result \<times> lane_queue" where
  "lq_push cap_h cap_m q l =
     (let r = push_result0 in
      if l = Supersedable then
        (let (q, r) = evict_head cap_h q r;
             pos = (lq_head_h q + lq_count_h q) mod cap_h;
             q = q\<lparr>lq_seq_h := (lq_seq_h q)[pos := lq_next_seq q], lq_next_seq := lq_next_seq q + 1,
                   lq_count_h := lq_count_h q + 1\<rparr>
         in (r\<lparr>ps_pos := int pos, ps_which := Supersedable, ps_accepted := True\<rparr>, note_depth q))
      else if lq_count_m q \<ge> cap_m then (r, q\<lparr>lq_refused := lq_refused q + 1\<rparr>)
      else
        (let pos = (lq_head_m q + lq_count_m q) mod cap_m;
             q = q\<lparr>lq_seq_m := (lq_seq_m q)[pos := lq_next_seq q], lq_next_seq := lq_next_seq q + 1,
                   lq_count_m := lq_count_m q + 1\<rparr>
         in (r\<lparr>ps_pos := int pos, ps_which := MustKeep, ps_accepted := True\<rparr>, note_depth q)))"

definition lq_pop :: "nat \<Rightarrow> nat \<Rightarrow> lane_queue \<Rightarrow> pop_result \<times> lane_queue" where
  "lq_pop cap_h cap_m q =
     (let have_h = lq_count_h q > 0; have_m = lq_count_m q > 0 in
      if \<not> have_h \<and> \<not> have_m then (pop_result0, q)
      else if have_h \<and> (\<not> have_m \<or> seq_before (lq_seq_h q ! lq_head_h q) (lq_seq_m q ! lq_head_m q))
      then (\<lparr>pp_ok = True, pp_which = Supersedable, pp_pos = int (lq_head_h q)\<rparr>,
            q\<lparr>lq_head_h := next_pos (lq_head_h q) cap_h, lq_count_h := lq_count_h q - 1\<rparr>)
      else (\<lparr>pp_ok = True, pp_which = MustKeep, pp_pos = int (lq_head_m q)\<rparr>,
            q\<lparr>lq_head_m := next_pos (lq_head_m q) cap_m, lq_count_m := lq_count_m q - 1\<rparr>))"

subsection \<open>The endpoint keeps the frames\<close>

definition MH_NET_MAX_PAYLOAD :: int where "MH_NET_MAX_PAYLOAD = 2048"
definition QUEUE_CAP_H :: nat where "QUEUE_CAP_H = 4096"
definition QUEUE_CAP_M :: nat where "QUEUE_CAP_M = 256"

record msg =
  mg_src :: int
  mg_len :: int
  mg_data :: bytes

record h_msg =
  hm_src :: int
  hm_data :: bytes

record inbox =
  ib_lanes :: lane_queue
  ib_qh :: "h_msg list"
  ib_qm :: "msg list"
  ib_dropped :: nat

text \<open>What an arrival did: stored; stored after the eviction of the frame of a sender, and the evictions so
  far; refused, and the refusals so far.\<close>

datatype arrival = Stored | Evicted int nat | Refused nat

definition clamp_payload :: "int \<Rightarrow> int" where
  "clamp_payload len = (let len = (if len < 0 then 0 else len) in
     if len > MH_NET_MAX_PAYLOAD then MH_NET_MAX_PAYLOAD else len)"

definition store_frame :: "push_result \<Rightarrow> int \<Rightarrow> bytes \<Rightarrow> int \<Rightarrow> inbox \<Rightarrow> inbox" where
  "store_frame r src data len ib =
     (if ps_which r = Supersedable then
        (let m = ib_qh ib ! nat (ps_pos r) in
         ib\<lparr>ib_qh := (ib_qh ib)[nat (ps_pos r) :=
              m\<lparr>hm_src := src, hm_data := memcpy_at (hm_data m) 0 (take (nat len) data)\<rparr>]\<rparr>)
      else
        (let m = ib_qm ib ! nat (ps_pos r) in
         ib\<lparr>ib_qm := (ib_qm ib)[nat (ps_pos r) :=
              m\<lparr>mg_src := src, mg_len := len, mg_data := memcpy_at (mg_data m) 0 (take (nat len) data)\<rparr>]\<rparr>))"

definition enqueue :: "int \<Rightarrow> bytes \<Rightarrow> int \<Rightarrow> inbox \<Rightarrow> arrival \<times> inbox" where
  "enqueue src data len0 ib =
     (let len = clamp_payload len0;
          l = lane_of_game_frame (Some data) len;
          (r, q) = lq_push QUEUE_CAP_H QUEUE_CAP_M (ib_lanes ib) l;
          ib = ib\<lparr>ib_lanes := q\<rparr> in
      if ps_accepted r then
        (let (out, ib) =
           (if ps_evicted r
            then (Evicted (hm_src (ib_qh ib ! nat (ps_evicted_pos r))) (ib_dropped ib + 1),
                  ib\<lparr>ib_dropped := ib_dropped ib + 1\<rparr>)
            else (Stored, ib))
         in (out, store_frame r src data len ib))
      else (Refused (lq_refused q), ib))"

text \<open>\<open>recv\<close> of a started endpoint, with the capacity of the caller's buffer: the sender, the length it
  reports and the bytes it copies.\<close>

definition recv :: "int \<Rightarrow> inbox \<Rightarrow> (int \<times> int \<times> bytes) option \<times> inbox" where
  "recv cap ib =
     (let (r, q) = lq_pop QUEUE_CAP_H QUEUE_CAP_M (ib_lanes ib); ib = ib\<lparr>ib_lanes := q\<rparr> in
      if pp_ok r then
        (let (src_bytes, src_len, src_from) =
           (if pp_which r = Supersedable
            then (hm_data (ib_qh ib ! nat (pp_pos r)), BARE_HORIZON_LEN, hm_src (ib_qh ib ! nat (pp_pos r)))
            else (mg_data (ib_qm ib ! nat (pp_pos r)), mg_len (ib_qm ib ! nat (pp_pos r)), mg_src (ib_qm ib ! nat (pp_pos r))));
             n = (if src_len < cap then src_len else cap)
         in (Some (src_from, n, take (nat n) src_bytes), ib))
      else (None, ib))"

text \<open>\<open>queue_match_boundary\<close>: the queued frames stay, the counters restart.\<close>

definition queue_match_boundary :: "inbox \<Rightarrow> inbox" where
  "queue_match_boundary ib = ib\<lparr>ib_lanes := reset_counters (ib_lanes ib)\<rparr>"

subsection \<open>The specification: one queue in arrival order\<close>

text \<open>An item is the number of its arrival, its sender and its bytes.  One queue with two quotas: a
  horizon advertisement over its quota displaces the oldest one, any other frame over its quota is lost.\<close>

type_synonym item = "nat \<times> int \<times> bytes"

datatype fifo_outcome = Kept | Shed int | Lost

definition horizon :: "item \<Rightarrow> bool" where
  "horizon x = is_evictable (Some (snd (snd x))) (int (length (snd (snd x))))"

fun drop_first :: "('a \<Rightarrow> bool) \<Rightarrow> 'a list \<Rightarrow> 'a list" where
  "drop_first P [] = []"
| "drop_first P (x # xs) = (if P x then xs else x # drop_first P xs)"

definition fifo_arrive :: "int \<Rightarrow> bytes \<Rightarrow> nat \<times> item list \<Rightarrow> fifo_outcome \<times> nat \<times> item list" where
  "fifo_arrive src b st =
     (case st of (n, its) \<Rightarrow>
        if horizon (n, src, b) then
          if QUEUE_CAP_H \<le> length (filter horizon its)
          then (Shed (fst (snd (hd (filter horizon its)))), n + 1, drop_first horizon its @ [(n, src, b)])
          else (Kept, n + 1, its @ [(n, src, b)])
        else if QUEUE_CAP_M \<le> length (filter (\<lambda>x. \<not> horizon x) its) then (Lost, n, its)
        else (Kept, n + 1, its @ [(n, src, b)]))"

definition fifo_read :: "int \<Rightarrow> nat \<times> item list \<Rightarrow> (int \<times> int \<times> bytes) option \<times> nat \<times> item list" where
  "fifo_read cap st =
     (case st of (n, []) \<Rightarrow> (None, n, []) | (n, x # its) \<Rightarrow>
        (Some (fst (snd x), min (int (length (snd (snd x)))) cap, take (nat cap) (snd (snd x))), n, its))"

subsection \<open>Rings\<close>

definition ring_holds :: "nat \<Rightarrow> nat \<Rightarrow> nat \<Rightarrow> (nat \<Rightarrow> 'a) \<Rightarrow> 'a list \<Rightarrow> bool" where
  "ring_holds cap head count get xs \<longleftrightarrow> head < cap \<and> count = length xs \<and> count \<le> cap \<and>
     (\<forall>i < length xs. get ((head + i) mod cap) = xs ! i)"

lemma ring_push:
  assumes "ring_holds cap head count get xs" and "count < cap"
    and "get' ((head + count) mod cap) = x"
    and "\<And>p. p < cap \<Longrightarrow> p \<noteq> (head + count) mod cap \<Longrightarrow> get' p = get p"
  shows "ring_holds cap head (count + 1) get' (xs @ [x])"
proof -
  have "get' ((head + i) mod cap) = (xs @ [x]) ! i" if i: "i < length xs + 1" for i
  proof (cases "i < length xs")
    case True
    have "(head + count) mod cap \<noteq> (head + i) mod cap"
      by (rule slot_distinct) (use assms(1,2) True in \<open>simp_all add: ring_holds_def\<close>)
    moreover have "(head + i) mod cap < cap" using assms(2) by simp
    ultimately have "get' ((head + i) mod cap) = get ((head + i) mod cap)" using assms(4) by metis
    with True assms(1) show ?thesis by (simp add: ring_holds_def nth_append)
  next
    case False
    with i have "i = length xs" by simp
    then show ?thesis using assms(1,3) by (simp add: ring_holds_def)
  qed
  then show ?thesis using assms(1,2) by (simp add: ring_holds_def)
qed

lemma ring_pop:
  assumes "ring_holds cap head count get xs" and "0 < count"
  shows "ring_holds cap (next_pos head cap) (count - 1) get (tl xs)" and "get head = hd xs" and "xs \<noteq> []"
proof -
  from assms obtain x ys where xs: "xs = x # ys" by (cases xs) (auto simp: ring_holds_def)
  have "get ((next_pos head cap + i) mod cap) = ys ! i" if "i < length ys" for i
  proof -
    have "(next_pos head cap + i) mod cap = (head + Suc i) mod cap" by (simp add: next_pos_def mod_simps)
    with that assms(1) xs show ?thesis by (auto simp: ring_holds_def)
  qed
  moreover have "next_pos head cap < cap" using assms(1) by (simp add: ring_holds_def next_pos_def)
  ultimately show "ring_holds cap (next_pos head cap) (count - 1) get (tl xs)"
    using assms(1) xs by (auto simp: ring_holds_def)
  show "get head = hd xs" using assms(1) xs by (auto simp: ring_holds_def)
  show "xs \<noteq> []" by (simp add: xs)
qed

lemma ring_cong:
  "ring_holds cap head count get xs \<Longrightarrow> (\<And>p. p < cap \<Longrightarrow> get' p = get p) \<Longrightarrow> ring_holds cap head count get' xs"
  by (auto simp: ring_holds_def)

subsection \<open>Arrival numbers\<close>

lemma seq_before_numbers:
  assumes "a < b" and "b - a < 2 ^ 31"
  shows "seq_before (of_nat a) (of_nat b)" and "\<not> seq_before (of_nat b) (of_nat a)"
proof -
  have d: "(of_nat b :: u32) - of_nat a = of_nat (b - a)" using assms(1) by (simp add: of_nat_diff)
  have "sint (of_nat (b - a) :: u32) = int (b - a)"
    using assms(2) by (simp add: signed_of_nat signed_take_bit_int_eq_self)
  then show "\<not> seq_before (of_nat b) (of_nat a)" by (simp add: seq_before_def d)
  have "(of_nat a :: u32) - of_nat b = word_of_int (- int (b - a))"
    using assms(1) by (simp add: of_nat_diff)
  then have "sint ((of_nat a :: u32) - of_nat b) = signed_take_bit 31 (- int (b - a))"
    by (simp only: signed_of_int) simp
  also have "\<dots> = - int (b - a)" by (rule signed_take_bit_int_eq_self) (use assms in simp_all)
  finally show "seq_before (of_nat a) (of_nat b)" using assms(1) by (simp add: seq_before_def)
qed

subsection \<open>The two lanes are the one queue\<close>

definition cell_h :: "inbox \<Rightarrow> nat \<Rightarrow> u32 \<times> int \<times> bytes" where
  "cell_h ib p = (lq_seq_h (ib_lanes ib) ! p, hm_src (ib_qh ib ! p), hm_data (ib_qh ib ! p))"

definition cell_m :: "inbox \<Rightarrow> nat \<Rightarrow> u32 \<times> int \<times> int \<times> bytes" where
  "cell_m ib p = (lq_seq_m (ib_lanes ib) ! p, mg_src (ib_qm ib ! p), mg_len (ib_qm ib ! p),
     take (nat (mg_len (ib_qm ib ! p))) (mg_data (ib_qm ib ! p)))"

definition as_h :: "item \<Rightarrow> u32 \<times> int \<times> bytes" where "as_h x = (of_nat (fst x), fst (snd x), snd (snd x))"
definition as_m :: "item \<Rightarrow> u32 \<times> int \<times> int \<times> bytes" where
  "as_m x = (of_nat (fst x), fst (snd x), int (length (snd (snd x))), snd (snd x))"

definition arrays_ok :: "inbox \<Rightarrow> bool" where
  "arrays_ok ib \<longleftrightarrow> length (lq_seq_h (ib_lanes ib)) = QUEUE_CAP_H \<and> length (lq_seq_m (ib_lanes ib)) = QUEUE_CAP_M \<and>
     length (ib_qh ib) = QUEUE_CAP_H \<and> length (ib_qm ib) = QUEUE_CAP_M \<and>
     (\<forall>m\<in>set (ib_qh ib). length (hm_data m) = nat BARE_HORIZON_LEN) \<and>
     (\<forall>m\<in>set (ib_qm ib). length (mg_data m) = nat MH_NET_MAX_PAYLOAD)"

definition inbox_is :: "inbox \<Rightarrow> nat \<times> item list \<Rightarrow> bool" where
  "inbox_is ib st \<longleftrightarrow> (case st of (n, its) \<Rightarrow>
     arrays_ok ib \<and> lq_next_seq (ib_lanes ib) = of_nat n \<and> sorted_wrt (<) (map fst its) \<and> (\<forall>x\<in>set its. fst x < n) \<and>
     ring_holds QUEUE_CAP_H (lq_head_h (ib_lanes ib)) (lq_count_h (ib_lanes ib)) (cell_h ib)
       (map as_h (filter horizon its)) \<and>
     ring_holds QUEUE_CAP_M (lq_head_m (ib_lanes ib)) (lq_count_m (ib_lanes ib)) (cell_m ib)
       (map as_m (filter (\<lambda>x. \<not> horizon x) its)))"

lemma note_depth_frame [simp]:
  "lq_seq_h (note_depth q) = lq_seq_h q" "lq_seq_m (note_depth q) = lq_seq_m q"
  "lq_head_h (note_depth q) = lq_head_h q" "lq_count_h (note_depth q) = lq_count_h q"
  "lq_head_m (note_depth q) = lq_head_m q" "lq_count_m (note_depth q) = lq_count_m q"
  "lq_next_seq (note_depth q) = lq_next_seq q"
  by (simp_all add: note_depth_def Let_def)

lemma filter_drop_first:
  "filter P (drop_first P xs) = tl (filter P xs)" "filter (\<lambda>x. \<not> P x) (drop_first P xs) = filter (\<lambda>x. \<not> P x) xs"
  by (induction xs) auto

lemma set_drop_first: "set (drop_first P xs) \<subseteq> set xs"
  by (induction xs) auto

lemma sorted_drop_first: "sorted_wrt R (map f xs) \<Longrightarrow> sorted_wrt R (map f (drop_first P xs))"
proof (induction xs)
  case (Cons x xs)
  moreover have "set (drop_first P xs) \<subseteq> set xs" by (rule set_drop_first)
  ultimately show ?case by auto
qed simp

lemma sorted_snoc: "sorted_wrt (<) (map fst its) \<Longrightarrow> \<forall>x\<in>set its. fst x < n \<Longrightarrow> sorted_wrt (<) (map fst its @ [n :: nat])"
  by (auto simp: sorted_wrt_append)

text \<open>The bytes an arrival brings.\<close>

definition payload_of :: "bytes \<Rightarrow> int \<Rightarrow> bytes" where "payload_of data len = take (nat (clamp_payload len)) data"

lemma clamp_range: "0 \<le> clamp_payload len" "clamp_payload len \<le> MH_NET_MAX_PAYLOAD"
  by (simp_all add: clamp_payload_def MH_NET_MAX_PAYLOAD_def)

lemma payload_facts:
  assumes "nat (clamp_payload len) \<le> length data"
  shows "int (length (payload_of data len)) = clamp_payload len" and "length (payload_of data len) \<le> nat MH_NET_MAX_PAYLOAD"
    and "horizon (n, src, payload_of data len) \<longleftrightarrow> lane_of_game_frame (Some data) (clamp_payload len) = Supersedable"
    and "horizon (n, src, payload_of data len) \<Longrightarrow> length (payload_of data len) = nat BARE_HORIZON_LEN"
proof -
  show l: "int (length (payload_of data len)) = clamp_payload len"
    using assms clamp_range(1) [of len] by (simp add: payload_of_def)
  with clamp_range(2) [of len] show "length (payload_of data len) \<le> nat MH_NET_MAX_PAYLOAD" by simp
  show "horizon (n, src, payload_of data len) \<Longrightarrow> length (payload_of data len) = nat BARE_HORIZON_LEN"
    by (auto simp: horizon_def is_evictable_def)
  show "horizon (n, src, payload_of data len) \<longleftrightarrow> lane_of_game_frame (Some data) (clamp_payload len) = Supersedable"
    unfolding horizon_def lane_of_game_frame_def is_evictable_def using l
    by (auto simp: payload_of_def BARE_HORIZON_LEN_def)
qed

lemma cap_pos: "0 < QUEUE_CAP_H" "0 < QUEUE_CAP_M"
  by (simp_all add: QUEUE_CAP_H_def QUEUE_CAP_M_def)

text \<open>A horizon: room is made, then the frame is written behind the last one of lane H.\<close>

definition after_evict :: "lane_queue \<Rightarrow> lane_queue" where
  "after_evict q = fst (evict_head QUEUE_CAP_H q push_result0)"

definition pos_h :: "lane_queue \<Rightarrow> nat" where
  "pos_h q = (lq_head_h (after_evict q) + lq_count_h (after_evict q)) mod QUEUE_CAP_H"

definition put_h :: "inbox \<Rightarrow> int \<Rightarrow> bytes \<Rightarrow> int \<Rightarrow> inbox" where
  "put_h ib src data len = ib\<lparr>
     ib_lanes := note_depth ((after_evict (ib_lanes ib))\<lparr>
       lq_seq_h := (lq_seq_h (ib_lanes ib))[pos_h (ib_lanes ib) := lq_next_seq (ib_lanes ib)],
       lq_next_seq := lq_next_seq (ib_lanes ib) + 1,
       lq_count_h := lq_count_h (after_evict (ib_lanes ib)) + 1\<rparr>),
     ib_qh := (ib_qh ib)[pos_h (ib_lanes ib) :=
       (ib_qh ib ! pos_h (ib_lanes ib))\<lparr>hm_src := src,
         hm_data := memcpy_at (hm_data (ib_qh ib ! pos_h (ib_lanes ib))) 0 (take (nat len) data)\<rparr>],
     ib_dropped := ib_dropped ib + (if QUEUE_CAP_H \<le> lq_count_h (ib_lanes ib) then 1 else 0)\<rparr>"

lemma after_evict_fields:
  "lq_seq_h (after_evict q) = lq_seq_h q" "lq_seq_m (after_evict q) = lq_seq_m q"
  "lq_next_seq (after_evict q) = lq_next_seq q" "lq_head_m (after_evict q) = lq_head_m q"
  "lq_count_m (after_evict q) = lq_count_m q"
  by (simp_all add: after_evict_def evict_head_def)

lemma enqueue_h:
  assumes "lane_of_game_frame (Some data) (clamp_payload len) = Supersedable"
  shows "enqueue src data len ib =
    (if QUEUE_CAP_H \<le> lq_count_h (ib_lanes ib)
     then Evicted (hm_src (ib_qh ib ! lq_head_h (ib_lanes ib))) (ib_dropped ib + 1) else Stored,
     put_h ib src data (clamp_payload len))"
proof (rule prod_eqI)
  note defs = enqueue_def Let_def assms lq_push_def push_result0_def evict_head_def put_h_def pos_h_def
    after_evict_def store_frame_def
  show "fst (enqueue src data len ib) = fst (if QUEUE_CAP_H \<le> lq_count_h (ib_lanes ib)
     then Evicted (hm_src (ib_qh ib ! lq_head_h (ib_lanes ib))) (ib_dropped ib + 1) else Stored,
     put_h ib src data (clamp_payload len))"
    by (simp add: defs)
  show "snd (enqueue src data len ib) = snd (if QUEUE_CAP_H \<le> lq_count_h (ib_lanes ib)
     then Evicted (hm_src (ib_qh ib ! lq_head_h (ib_lanes ib))) (ib_dropped ib + 1) else Stored,
     put_h ib src data (clamp_payload len))"
    by (rule inbox.equality) (simp_all add: defs)
qed

lemma after_evict_ring:
  assumes "ring_holds QUEUE_CAP_H (lq_head_h q) (lq_count_h q) get hs"
  shows "ring_holds QUEUE_CAP_H (lq_head_h (after_evict q)) (lq_count_h (after_evict q)) get
      (if QUEUE_CAP_H \<le> length hs then tl hs else hs)"
    and "lq_count_h (after_evict q) < QUEUE_CAP_H"
proof -
  have c: "lq_count_h q = length hs" "length hs \<le> QUEUE_CAP_H" using assms by (simp_all add: ring_holds_def)
  show "ring_holds QUEUE_CAP_H (lq_head_h (after_evict q)) (lq_count_h (after_evict q)) get
      (if QUEUE_CAP_H \<le> length hs then tl hs else hs)"
  proof (cases "QUEUE_CAP_H \<le> length hs")
    case True
    then have "QUEUE_CAP_H \<le> lq_count_h q" "0 < lq_count_h q" using c cap_pos by simp_all
    with ring_pop(1) [OF assms] True show ?thesis by (simp add: after_evict_def evict_head_def)
  next
    case False
    then have "\<not> QUEUE_CAP_H \<le> lq_count_h q" using c by simp
    with assms False show ?thesis by (simp add: after_evict_def evict_head_def)
  qed
  show "lq_count_h (after_evict q) < QUEUE_CAP_H"
    using c cap_pos by (simp add: after_evict_def evict_head_def)
qed

lemma memcpy_whole: "length src = length dst \<Longrightarrow> memcpy_at dst 0 src = src"
  by (simp add: memcpy_at_def)

lemma put_h_ring:
  assumes rel: "inbox_is ib (n, its)" and len: "nat (clamp_payload len) \<le> length data"
    and hz: "horizon (n, src, payload_of data len)"
  shows "inbox_is (put_h ib src data (clamp_payload len)) (snd (fifo_arrive src (payload_of data len) (n, its)))"
proof -
  let ?b = "payload_of data len" and ?q = "ib_lanes ib" and ?ib = "put_h ib src data (clamp_payload len)"
  let ?hs = "map as_h (filter horizon its)" and ?pos = "pos_h (ib_lanes ib)"
  note rel' = rel [unfolded inbox_is_def prod.case]
  have arr: "arrays_ok ib" and seq: "lq_next_seq ?q = of_nat n" and srt: "sorted_wrt (<) (map fst its)"
    and lt: "\<forall>x\<in>set its. fst x < n"
    and rh: "ring_holds QUEUE_CAP_H (lq_head_h ?q) (lq_count_h ?q) (cell_h ib) ?hs"
    and rm: "ring_holds QUEUE_CAP_M (lq_head_m ?q) (lq_count_m ?q) (cell_m ib) (map as_m (filter (\<lambda>x. \<not> horizon x) its))"
    using rel' by blast+
  define kept where "kept = (if QUEUE_CAP_H \<le> length (filter horizon its) then drop_first horizon its else its)"
  have hs: "(if QUEUE_CAP_H \<le> length ?hs then tl ?hs else ?hs) = map as_h (filter horizon kept)"
    by (simp add: kept_def filter_drop_first map_tl)
  note ev = after_evict_ring [OF rh, unfolded hs]
  have pos: "?pos < QUEUE_CAP_H" using cap_pos by (simp add: pos_h_def)
  have dl: "length (hm_data (ib_qh ib ! ?pos)) = nat BARE_HORIZON_LEN"
    using arr pos by (auto simp: arrays_ok_def)
  have bl: "length ?b = nat BARE_HORIZON_LEN" by (rule payload_facts(4) [OF len hz])
  have cell: "cell_h ?ib ?pos = as_h (n, src, ?b)"
    using arr pos dl bl seq
    by (simp add: cell_h_def put_h_def arrays_ok_def as_h_def memcpy_whole payload_of_def)
  have cells: "cell_h ?ib p = cell_h ib p" if "p < QUEUE_CAP_H" "p \<noteq> ?pos" for p
    using that by (simp add: cell_h_def put_h_def)
  have "ring_holds QUEUE_CAP_H (lq_head_h (after_evict ?q)) (lq_count_h (after_evict ?q) + 1) (cell_h ?ib)
      (map as_h (filter horizon kept) @ [as_h (n, src, ?b)])"
    by (rule ring_push [OF ev]) (use cell cells in \<open>simp_all add: pos_h_def\<close>)
  moreover have "ring_holds QUEUE_CAP_M (lq_head_m ?q) (lq_count_m ?q) (cell_m ?ib)
      (map as_m (filter (\<lambda>x. \<not> horizon x) kept))"
  proof -
    have "cell_m ?ib = cell_m ib" by (rule ext) (simp add: cell_m_def put_h_def after_evict_fields)
    with rm show ?thesis by (simp add: kept_def filter_drop_first)
  qed
  moreover have "arrays_ok ?ib"
    using arr dl bl by (auto simp: arrays_ok_def put_h_def after_evict_fields memcpy_whole payload_of_def [symmetric]
        dest!: set_update_subset_insert [THEN subsetD])
  moreover have "sorted_wrt (<) (map fst kept @ [n])" "\<forall>x\<in>set kept. fst x < n"
    using srt lt set_drop_first [of horizon its] sorted_drop_first [OF srt]
    by (auto simp: kept_def intro!: sorted_snoc)
  moreover have "snd (fifo_arrive src ?b (n, its)) = (n + 1, kept @ [(n, src, ?b)])"
    using hz by (simp add: fifo_arrive_def kept_def)
  ultimately show ?thesis
    using hz seq by (auto simp: inbox_is_def put_h_def after_evict_fields)
qed

text \<open>Any other frame: refused when lane M is full, else written behind its last one.\<close>

definition pos_m :: "lane_queue \<Rightarrow> nat" where
  "pos_m q = (lq_head_m q + lq_count_m q) mod QUEUE_CAP_M"

definition put_m :: "inbox \<Rightarrow> int \<Rightarrow> bytes \<Rightarrow> int \<Rightarrow> inbox" where
  "put_m ib src data len = ib\<lparr>
     ib_lanes := note_depth ((ib_lanes ib)\<lparr>
       lq_seq_m := (lq_seq_m (ib_lanes ib))[pos_m (ib_lanes ib) := lq_next_seq (ib_lanes ib)],
       lq_next_seq := lq_next_seq (ib_lanes ib) + 1,
       lq_count_m := lq_count_m (ib_lanes ib) + 1\<rparr>),
     ib_qm := (ib_qm ib)[pos_m (ib_lanes ib) :=
       (ib_qm ib ! pos_m (ib_lanes ib))\<lparr>mg_src := src, mg_len := len,
         mg_data := memcpy_at (mg_data (ib_qm ib ! pos_m (ib_lanes ib))) 0 (take (nat len) data)\<rparr>]\<rparr>"

lemma enqueue_m:
  assumes "lane_of_game_frame (Some data) (clamp_payload len) \<noteq> Supersedable"
  shows "enqueue src data len ib =
    (if QUEUE_CAP_M \<le> lq_count_m (ib_lanes ib)
     then (Refused (lq_refused (ib_lanes ib) + 1),
           ib\<lparr>ib_lanes := (ib_lanes ib)\<lparr>lq_refused := lq_refused (ib_lanes ib) + 1\<rparr>\<rparr>)
     else (Stored, put_m ib src data (clamp_payload len)))"
proof -
  have "lane_of_game_frame (Some data) (clamp_payload len) = MustKeep"
    using assms by (simp add: lane_of_game_frame_def split: if_splits)
  then show ?thesis
    by (simp add: enqueue_def Let_def lq_push_def push_result0_def put_m_def pos_m_def store_frame_def)
qed

lemma take_memcpy_prefix: "length src \<le> length dst \<Longrightarrow> take (length src) (memcpy_at dst 0 src) = src"
  by (simp add: memcpy_at_def)

lemma put_m_ring:
  assumes rel: "inbox_is ib (n, its)" and len: "nat (clamp_payload len) \<le> length data"
    and hz: "\<not> horizon (n, src, payload_of data len)"
    and room: "lq_count_m (ib_lanes ib) < QUEUE_CAP_M"
  shows "inbox_is (put_m ib src data (clamp_payload len)) (n + 1, its @ [(n, src, payload_of data len)])"
proof -
  let ?b = "payload_of data len" and ?q = "ib_lanes ib" and ?ib = "put_m ib src data (clamp_payload len)"
  let ?ms = "map as_m (filter (\<lambda>x. \<not> horizon x) its)" and ?pos = "pos_m (ib_lanes ib)"
  note rel' = rel [unfolded inbox_is_def prod.case]
  have arr: "arrays_ok ib" and seq: "lq_next_seq ?q = of_nat n" and srt: "sorted_wrt (<) (map fst its)"
    and lt: "\<forall>x\<in>set its. fst x < n"
    and rh: "ring_holds QUEUE_CAP_H (lq_head_h ?q) (lq_count_h ?q) (cell_h ib) (map as_h (filter horizon its))"
    and rm: "ring_holds QUEUE_CAP_M (lq_head_m ?q) (lq_count_m ?q) (cell_m ib) ?ms"
    using rel' by blast+
  have pos: "?pos < QUEUE_CAP_M" using cap_pos by (simp add: pos_m_def)
  have dl: "length (mg_data (ib_qm ib ! ?pos)) = nat MH_NET_MAX_PAYLOAD"
    using arr pos by (auto simp: arrays_ok_def)
  have bl: "int (length ?b) = clamp_payload len" "length ?b \<le> nat MH_NET_MAX_PAYLOAD"
    by (rule payload_facts [OF len])+
  have b: "take (nat (clamp_payload len)) data = ?b" by (simp add: payload_of_def)
  have "take (nat (clamp_payload len)) (memcpy_at (mg_data (ib_qm ib ! ?pos)) 0 ?b) = ?b"
    using take_memcpy_prefix [of ?b "mg_data (ib_qm ib ! ?pos)"] bl dl by (metis nat_int)
  then have cell: "cell_m ?ib ?pos = as_m (n, src, ?b)"
    using arr pos seq bl(1) by (simp add: cell_m_def put_m_def arrays_ok_def as_m_def b)
  have cells: "cell_m ?ib p = cell_m ib p" if "p < QUEUE_CAP_M" "p \<noteq> ?pos" for p
    using that by (simp add: cell_m_def put_m_def)
  have "ring_holds QUEUE_CAP_M (lq_head_m ?q) (lq_count_m ?q + 1) (cell_m ?ib) (?ms @ [as_m (n, src, ?b)])"
    by (rule ring_push [OF rm room]) (use cell cells in \<open>simp_all add: pos_m_def\<close>)
  moreover have "cell_h ?ib = cell_h ib" by (rule ext) (simp add: cell_h_def put_m_def)
  moreover have "arrays_ok ?ib"
    using arr dl bl by (auto simp: arrays_ok_def put_m_def b dest!: set_update_subset_insert [THEN subsetD])
  moreover have "sorted_wrt (<) (map fst its @ [n])" using srt lt by (rule sorted_snoc)
  ultimately show ?thesis
    using hz seq rh lt by (auto simp: inbox_is_def put_m_def)
qed

text \<open>What the specification says of an outcome.\<close>

fun outcome_is :: "arrival \<Rightarrow> fifo_outcome \<Rightarrow> bool" where
  "outcome_is Stored o1 = (o1 = Kept)"
| "outcome_is (Evicted s k) o1 = (o1 = Shed s)"
| "outcome_is (Refused k) o1 = (o1 = Lost)"

lemma enqueue_refines:
  assumes rel: "inbox_is ib st" and len: "nat (clamp_payload len) \<le> length data"
  shows "outcome_is (fst (enqueue src data len ib)) (fst (fifo_arrive src (payload_of data len) st)) \<and>
    inbox_is (snd (enqueue src data len ib)) (snd (fifo_arrive src (payload_of data len) st))"
proof -
  obtain n its where st: "st = (n, its)" by (cases st)
  let ?b = "payload_of data len" and ?q = "ib_lanes ib"
  have rel: "inbox_is ib (n, its)" using rel st by simp
  then have rh: "ring_holds QUEUE_CAP_H (lq_head_h ?q) (lq_count_h ?q) (cell_h ib) (map as_h (filter horizon its))"
    and rm: "ring_holds QUEUE_CAP_M (lq_head_m ?q) (lq_count_m ?q) (cell_m ib) (map as_m (filter (\<lambda>x. \<not> horizon x) its))"
    by (simp_all add: inbox_is_def)
  have ch: "lq_count_h ?q = length (filter horizon its)" and cm: "lq_count_m ?q = length (filter (\<lambda>x. \<not> horizon x) its)"
    using rh rm by (simp_all add: ring_holds_def)
  show ?thesis
  proof (cases "horizon (n, src, ?b)")
    case True
    then have l: "lane_of_game_frame (Some data) (clamp_payload len) = Supersedable"
      using payload_facts(3) [OF len] by blast
    have "hm_src (ib_qh ib ! lq_head_h ?q) = fst (snd (hd (filter horizon its)))"
      if "QUEUE_CAP_H \<le> lq_count_h ?q"
      using ring_pop(2,3) [OF rh] that cap_pos by (auto simp: cell_h_def as_h_def hd_map dest: arg_cong [where f = fst])
    with put_h_ring [OF rel len True] True show ?thesis
      by (simp add: enqueue_h [OF l] st ch) (simp add: fifo_arrive_def)
  next
    case False
    then have l: "lane_of_game_frame (Some data) (clamp_payload len) \<noteq> Supersedable"
      using payload_facts(3) [OF len] by blast
    show ?thesis
    proof (cases "QUEUE_CAP_M \<le> lq_count_m ?q")
      case True
      let ?ib = "ib\<lparr>ib_lanes := ?q\<lparr>lq_refused := lq_refused ?q + 1\<rparr>\<rparr>"
      have "cell_h ?ib = cell_h ib" "cell_m ?ib = cell_m ib" by (auto simp: cell_h_def cell_m_def)
      with rel have "inbox_is ?ib (n, its)" by (simp add: inbox_is_def arrays_ok_def)
      with True False show ?thesis by (simp add: enqueue_m [OF l] st fifo_arrive_def cm [symmetric])
    next
      case nf: False
      with put_m_ring [OF rel len False] False show ?thesis
        by (simp add: enqueue_m [OF l] st fifo_arrive_def cm [symmetric])
    qed
  qed
qed

text \<open>The head of the queue is the head of a lane, and the comparison of sequence numbers finds it as
  long as the oldest frame is less than \<open>2 ^ 31\<close> arrivals old.\<close>

definition fresh :: "nat \<times> item list \<Rightarrow> bool" where
  "fresh st = (case st of (n, its) \<Rightarrow> its = [] \<or> n - fst (hd its) \<le> 2 ^ 31)"

definition pop_h :: "inbox \<Rightarrow> inbox" where
  "pop_h ib = ib\<lparr>ib_lanes := (ib_lanes ib)\<lparr>lq_head_h := next_pos (lq_head_h (ib_lanes ib)) QUEUE_CAP_H,
     lq_count_h := lq_count_h (ib_lanes ib) - 1\<rparr>\<rparr>"

definition pop_m :: "inbox \<Rightarrow> inbox" where
  "pop_m ib = ib\<lparr>ib_lanes := (ib_lanes ib)\<lparr>lq_head_m := next_pos (lq_head_m (ib_lanes ib)) QUEUE_CAP_M,
     lq_count_m := lq_count_m (ib_lanes ib) - 1\<rparr>\<rparr>"

definition takes_h :: "lane_queue \<Rightarrow> bool" where
  "takes_h q = (lq_count_h q > 0 \<and>
     (\<not> lq_count_m q > 0 \<or> seq_before (lq_seq_h q ! lq_head_h q) (lq_seq_m q ! lq_head_m q)))"

lemma recv_eq:
  "recv cap ib =
     (if lq_count_h (ib_lanes ib) = 0 \<and> lq_count_m (ib_lanes ib) = 0 then (None, ib)
      else if takes_h (ib_lanes ib) then
        (let m = ib_qh ib ! lq_head_h (ib_lanes ib) in
         (Some (hm_src m, if BARE_HORIZON_LEN < cap then BARE_HORIZON_LEN else cap,
            take (nat (if BARE_HORIZON_LEN < cap then BARE_HORIZON_LEN else cap)) (hm_data m)), pop_h ib))
      else
        (let m = ib_qm ib ! lq_head_m (ib_lanes ib) in
         (Some (mg_src m, if mg_len m < cap then mg_len m else cap, take (nat (if mg_len m < cap then mg_len m else cap)) (mg_data m)), pop_m ib)))"
  by (simp add: recv_def lq_pop_def Let_def takes_h_def pop_result0_def pop_h_def pop_m_def)

lemma take_min_len: "take (nat (if int (length b) < cap then int (length b) else cap)) b = take (nat cap) b"
  by simp

lemma recv_refines:
  assumes rel: "inbox_is ib st" and fr: "fresh st"
  shows "fst (recv cap ib) = fst (fifo_read cap st) \<and> inbox_is (snd (recv cap ib)) (snd (fifo_read cap st))"
proof -
  obtain n its where st: "st = (n, its)" by (cases st)
  let ?q = "ib_lanes ib" and ?N = "\<lambda>x. \<not> horizon x"
  note rel' = rel [unfolded st inbox_is_def prod.case]
  have arr: "arrays_ok ib" and seq: "lq_next_seq ?q = of_nat n" and srt: "sorted_wrt (<) (map fst its)"
    and lt: "\<forall>x\<in>set its. fst x < n"
    and rh: "ring_holds QUEUE_CAP_H (lq_head_h ?q) (lq_count_h ?q) (cell_h ib) (map as_h (filter horizon its))"
    and rm: "ring_holds QUEUE_CAP_M (lq_head_m ?q) (lq_count_m ?q) (cell_m ib) (map as_m (filter ?N its))"
    using rel' by blast+
  have ch: "lq_count_h ?q = length (filter horizon its)" and cm: "lq_count_m ?q = length (filter ?N its)"
    using rh rm by (simp_all add: ring_holds_def)
  show ?thesis
  proof (cases its)
    case Nil
    with rel ch cm show ?thesis by (simp add: recv_eq st fifo_read_def)
  next
    case (Cons x xs)
    have age: "b - a < 2 ^ 31" if "a \<in> fst ` set its" "b \<in> fst ` set its" for a b
    proof -
      have "fst x \<le> a" using that(1) srt Cons by auto
      moreover have "n - fst x \<le> 2147483648" using fr by (simp add: fresh_def st Cons)
      moreover have "b < n" using that(2) lt by auto
      ultimately have "b - a < 2147483648" by linarith
      then show ?thesis by simp
    qed
    have cells: "cell_h (pop_h ib) = cell_h ib" "cell_m (pop_h ib) = cell_m ib"
      "cell_h (pop_m ib) = cell_h ib" "cell_m (pop_m ib) = cell_m ib"
      by (auto simp: cell_h_def cell_m_def pop_h_def pop_m_def)
    have arrs: "arrays_ok (pop_h ib)" "arrays_ok (pop_m ib)"
      using arr by (simp_all add: arrays_ok_def pop_h_def pop_m_def)
    show ?thesis
    proof (cases "horizon x")
      case True
      then have fh: "filter horizon its = x # filter horizon xs" and fm: "filter ?N its = filter ?N xs"
        by (simp_all add: Cons)
      have h: "lq_seq_h ?q ! lq_head_h ?q = of_nat (fst x)" "hm_src (ib_qh ib ! lq_head_h ?q) = fst (snd x)"
        "hm_data (ib_qh ib ! lq_head_h ?q) = snd (snd x)"
        using ring_pop(2) [OF rh] by (auto simp: ch fh cell_h_def as_h_def dest: arg_cong [where f = fst] arg_cong [where f = snd])
      have "takes_h ?q"
      proof (cases "filter ?N xs")
        case Nil
        then show ?thesis by (simp add: takes_h_def ch cm fh fm)
      next
        case (Cons y ys)
        then have y: "y \<in> set xs" by (auto dest: filter_eq_ConsD)
        then have "fst x < fst y" using srt \<open>its = x # xs\<close> by auto
        moreover have "fst y - fst x < 2 ^ 31" by (rule age) (use y \<open>its = x # xs\<close> in auto)
        ultimately have "seq_before (of_nat (fst x)) (of_nat (fst y))" by (rule seq_before_numbers)
        moreover have "lq_seq_m ?q ! lq_head_m ?q = of_nat (fst y)"
          using ring_pop(2) [OF rm] by (simp add: cm fm Cons cell_m_def as_m_def)
        ultimately show ?thesis by (simp add: takes_h_def ch cm fh fm h)
      qed
      moreover have "length (snd (snd x)) = nat BARE_HORIZON_LEN"
        using True by (auto simp: horizon_def is_evictable_def)
      then have "take (nat (if BARE_HORIZON_LEN < cap then BARE_HORIZON_LEN else cap)) (snd (snd x)) = take (nat cap) (snd (snd x))"
        "(if BARE_HORIZON_LEN < cap then BARE_HORIZON_LEN else cap) = min (int (length (snd (snd x)))) cap"
        by (auto simp: BARE_HORIZON_LEN_def)
      moreover have "inbox_is (pop_h ib) (n, xs)"
        using ring_pop(1) [OF rh] rm arrs(1) seq srt lt unfolding inbox_is_def prod.case cells
        by (auto simp: ch pop_h_def Cons True)
      ultimately show ?thesis
        by (simp add: recv_eq ch fh Let_def h st fifo_read_def Cons True)
    next
      case False
      then have fm: "filter ?N its = x # filter ?N xs" and fh: "filter horizon its = filter horizon xs"
        by (simp_all add: Cons)
      have m: "lq_seq_m ?q ! lq_head_m ?q = of_nat (fst x)" "mg_src (ib_qm ib ! lq_head_m ?q) = fst (snd x)"
        "mg_len (ib_qm ib ! lq_head_m ?q) = int (length (snd (snd x)))"
        "take (length (snd (snd x))) (mg_data (ib_qm ib ! lq_head_m ?q)) = snd (snd x)"
        using ring_pop(2) [OF rm] by (auto simp: cm fm cell_m_def as_m_def)
      have "\<not> takes_h ?q"
      proof (cases "filter horizon xs")
        case Nil
        then show ?thesis by (simp add: takes_h_def ch cm fh fm)
      next
        case (Cons y ys)
        then have y: "y \<in> set xs" by (auto dest: filter_eq_ConsD)
        then have "fst x < fst y" using srt \<open>its = x # xs\<close> by auto
        moreover have "fst y - fst x < 2 ^ 31" by (rule age) (use y \<open>its = x # xs\<close> in auto)
        ultimately have "\<not> seq_before (of_nat (fst y)) (of_nat (fst x))" by (rule seq_before_numbers)
        moreover have "lq_seq_h ?q ! lq_head_h ?q = of_nat (fst y)"
          using ring_pop(2) [OF rh] by (simp add: ch fh Cons cell_h_def as_h_def)
        ultimately show ?thesis by (simp add: takes_h_def ch cm fh fm m)
      qed
      moreover have "take (nat (if int (length (snd (snd x))) < cap then int (length (snd (snd x))) else cap))
          (mg_data (ib_qm ib ! lq_head_m ?q)) = take (nat cap) (snd (snd x))"
        using m(4) take_take [of "nat cap" "length (snd (snd x))" "mg_data (ib_qm ib ! lq_head_m ?q)"]
        by (auto simp: min_def not_less nat_le_iff split: if_splits)
      moreover have "inbox_is (pop_m ib) (n, xs)"
        using ring_pop(1) [OF rm] rh arrs(2) seq srt lt unfolding inbox_is_def prod.case cells
        by (auto simp: cm pop_m_def Cons False)
      ultimately show ?thesis
        by (auto simp: recv_eq cm fm Let_def m st fifo_read_def Cons False split: if_splits)
    qed
  qed
qed

subsection \<open>Runs\<close>

datatype queue_op = Arrive int bytes int | Read int

text \<open>What a step shows: the outcome of an arrival, or what was read.\<close>

fun inbox_step :: "queue_op \<Rightarrow> inbox \<Rightarrow> (arrival + (int \<times> int \<times> bytes) option) \<times> inbox" where
  "inbox_step (Arrive src data len) ib = (case enqueue src data len ib of (a, ib') \<Rightarrow> (Inl a, ib'))"
| "inbox_step (Read cap) ib = (case recv cap ib of (r, ib') \<Rightarrow> (Inr r, ib'))"

fun fifo_step :: "queue_op \<Rightarrow> nat \<times> item list \<Rightarrow> (fifo_outcome + (int \<times> int \<times> bytes) option) \<times> nat \<times> item list" where
  "fifo_step (Arrive src data len) st = (case fifo_arrive src (payload_of data len) st of (a, st') \<Rightarrow> (Inl a, st'))"
| "fifo_step (Read cap) st = (case fifo_read cap st of (r, st') \<Rightarrow> (Inr r, st'))"

fun inbox_run :: "queue_op list \<Rightarrow> inbox \<Rightarrow> (arrival + (int \<times> int \<times> bytes) option) list \<times> inbox" where
  "inbox_run [] ib = ([], ib)"
| "inbox_run (op # ops) ib =
     (let (o1, ib1) = inbox_step op ib; (os, ib2) = inbox_run ops ib1 in (o1 # os, ib2))"

fun fifo_run :: "queue_op list \<Rightarrow> nat \<times> item list \<Rightarrow> (fifo_outcome + (int \<times> int \<times> bytes) option) list \<times> nat \<times> item list" where
  "fifo_run [] st = ([], st)"
| "fifo_run (op # ops) st =
     (let (o1, st1) = fifo_step op st; (os, st2) = fifo_run ops st1 in (o1 # os, st2))"

text \<open>The callers' side: a frame has the bytes its length says, and no frame waits through \<open>2 ^ 31\<close>
  arrivals.\<close>

fun ops_ok :: "queue_op list \<Rightarrow> nat \<times> item list \<Rightarrow> bool" where
  "ops_ok [] st = True"
| "ops_ok (op # ops) st =
     ((case op of Arrive src data len \<Rightarrow> nat (clamp_payload len) \<le> length data | Read cap \<Rightarrow> fresh st)
      \<and> ops_ok ops (snd (fifo_step op st)))"

fun shows_same :: "arrival + (int \<times> int \<times> bytes) option \<Rightarrow> fifo_outcome + (int \<times> int \<times> bytes) option \<Rightarrow> bool" where
  "shows_same (Inl a) (Inl o1) = outcome_is a o1"
| "shows_same (Inr r) (Inr r') = (r = r')"
| "shows_same _ _ = False"

lemma step_refines:
  assumes "inbox_is ib st" and "ops_ok [op] st"
  shows "shows_same (fst (inbox_step op ib)) (fst (fifo_step op st)) \<and> inbox_is (snd (inbox_step op ib)) (snd (fifo_step op st))"
proof (cases op)
  case (Arrive src data len)
  with assms(2) have "nat (clamp_payload len) \<le> length data" by simp
  from enqueue_refines [OF assms(1) this, of src] show ?thesis by (simp add: Arrive case_prod_beta)
next
  case (Read cap)
  with assms(2) have "fresh st" by simp
  from recv_refines [OF assms(1) this, of cap] show ?thesis by (simp add: Read case_prod_beta)
qed

definition inbox0 :: inbox where
  "inbox0 = \<lparr>ib_lanes = lane_queue0 QUEUE_CAP_H QUEUE_CAP_M,
     ib_qh = replicate QUEUE_CAP_H \<lparr>hm_src = 0, hm_data = replicate (nat BARE_HORIZON_LEN) 0\<rparr>,
     ib_qm = replicate QUEUE_CAP_M \<lparr>mg_src = 0, mg_len = 0, mg_data = replicate (nat MH_NET_MAX_PAYLOAD) 0\<rparr>,
     ib_dropped = 0\<rparr>"

lemma inbox0_is: "inbox_is inbox0 (0, [])"
  using cap_pos by (simp add: inbox_is_def inbox0_def arrays_ok_def lane_queue0_def ring_holds_def)

text \<open>C24. The two lanes deliver exactly as one queue in arrival order: for every sequence of arrivals and
  reads, the endpoint's queue refines the single queue in which an arrival over the quota of horizon
  advertisements displaces the oldest of them and any other frame over its quota is refused; every outcome and
  every read agree, so no order is ever displaced and no delivery is reordered.  The arrival counter may wrap
  any number of times, as long as no frame waits through \<open>2 ^ 31\<close> arrivals before it is read.\<close>

theorem lanes_deliver_in_arrival_order:
  assumes "inbox_is ib st" and "ops_ok ops st"
  shows "list_all2 shows_same (fst (inbox_run ops ib)) (fst (fifo_run ops st)) \<and>
    inbox_is (snd (inbox_run ops ib)) (snd (fifo_run ops st))"
  using assms
proof (induction ops arbitrary: ib st)
  case (Cons op ops)
  have s: "shows_same (fst (inbox_step op ib)) (fst (fifo_step op st))"
    "inbox_is (snd (inbox_step op ib)) (snd (fifo_step op st))"
    using step_refines [OF Cons.prems(1), of op] Cons.prems(2) by simp_all
  from Cons.IH [OF s(2)] Cons.prems(2) s(1) show ?case by (simp add: case_prod_beta)
qed simp

lemma lanes_deliver_in_arrival_order_witness:
  "\<exists>a b. fst (inbox_run [Arrive 3 [2, 0, 0, 0, 0, 0, 0, 0, 0] 9, Arrive 4 [1, 7] 2, Read 100, Read 100] inbox0) =
     [a, b, Inr (Some (3, 9, [2, 0, 0, 0, 0, 0, 0, 0, 0])), Inr (Some (4, 2, [1, 7]))]"
proof -
  let ?ops = "[Arrive 3 [2, 0, 0, 0, 0, 0, 0, 0, 0] 9, Arrive 4 [1, 7] 2, Read 100, Read 100]"
  note defs = payload_of_def clamp_payload_def MH_NET_MAX_PAYLOAD_def fifo_arrive_def horizon_def is_evictable_def
    BARE_HORIZON_LEN_def MSG_HORIZON_def QUEUE_CAP_H_def QUEUE_CAP_M_def fifo_read_def fresh_def
  have ok: "ops_ok ?ops (0, [])" by (simp add: defs)
  have "fst (fifo_run ?ops (0, [])) = [Inl Kept, Inl Kept, Inr (Some (3, 9, [2, 0, 0, 0, 0, 0, 0, 0, 0])), Inr (Some (4, 2, [1, 7]))]"
    by (simp add: defs)
  with lanes_deliver_in_arrival_order [OF inbox0_is ok] obtain a b c d where
    r: "fst (inbox_run ?ops inbox0) = [a, b, c, d]" and c: "shows_same c (Inr (Some (3, 9, [2, 0, 0, 0, 0, 0, 0, 0, 0])))"
      "shows_same d (Inr (Some (4, 2, [1, 7])))"
    by (auto simp: list_all2_Cons2)
  from c have "c = Inr (Some (3, 9, [2, 0, 0, 0, 0, 0, 0, 0, 0]))" "d = Inr (Some (4, 2, [1, 7]))"
    by (cases c; simp) (use c in \<open>cases d; simp\<close>)
  with r show ?thesis by auto
qed

end
