(* ===== verification/Lzw_Decoder.thy ===== *)
theory Lzw_Decoder
  imports Byteio
begin

text \<open>
  The decompressor of save blocks, \<open>mh_dll/mh_common/lzw.cpp\<close> and \<open>mh_lzw.h\<close>: LZW with codes of 9 to 12 bits.
  Codes, sizes and bit counts stay below \<open>2 ^ 13\<close> and the loaded word below \<open>2 ^ 24\<close>, so their 32-bit
  arithmetic never wraps and they are \<open>nat\<close>; the counter of resets, the header fields and the reported size keep
  their 32 bits.  The input cursor is an index into the payload and the output cursor the list of what was
  written; a limit of 0 is no limit.  The main loop counts down a number of rounds, and \<open>decompress\<close>
  starts it with the offset of the payload's end: \<open>decompress_returns\<close> shows that this is always enough.
\<close>

definition MAGIC :: u32 where "MAGIC = 0x20575A4C"
definition DICT_NODES :: nat where "DICT_NODES = 4096"
definition CHAIN_SLOTS :: nat where "CHAIN_SLOTS = 4096"
definition CODE_RESET :: nat where "CODE_RESET = 0x100"
definition CODE_END :: nat where "CODE_END = 0x101"
definition CODE_FIRST :: nat where "CODE_FIRST = 0x102"
definition WIDEN_ENC :: "nat set" where "WIDEN_ENC = {0x0ff, 0x2ff, 0x6ff}"
definition WIDEN_DEC :: "nat set" where "WIDEN_DEC = {0x0fe, 0x2fe, 0x6fe}"
definition DICT_FULL :: nat where "DICT_FULL = 0xeff"
definition SIZE_NOT_LZW :: u32 where "SIZE_NOT_LZW = 0xFFFFFFFF"
definition PAYLOAD_HEADER :: nat where "PAYLOAD_HEADER = 12"

lemmas lzw_consts = DICT_NODES_def CHAIN_SLOTS_def CODE_RESET_def CODE_END_def CODE_FIRST_def DICT_FULL_def
  PAYLOAD_HEADER_def

subsection \<open>The decoder\<close>

record decoder_node =
  dn_prefix :: nat
  dn_ch :: nat

record decoder_state =
  dc_nodes :: "decoder_node list"
  dc_bit_count :: nat
  dc_mask :: nat
  dc_shift :: nat
  dc_dict_size :: nat

definition load_bits :: "bytes \<Rightarrow> nat \<Rightarrow> nat \<Rightarrow> nat" where
  "load_bits p pos fin =
     fold (\<lambda>i v. if pos + i < fin then v OR push_bit (8 * i) (unat (p ! (pos + i))) else v) [0..<3] 0"

datatype code_status = Code | Restart | EndOfStream | Exhausted

text \<open>The byte cursor advances by at most two, carrying the bit offset that is left.\<close>

definition advance :: "nat \<Rightarrow> nat \<Rightarrow> nat \<times> nat" where
  "advance pos bits =
     (if bits \<ge> 8 then
        (let pos = pos + 1; bits = bits - 8 in
         if bits \<ge> 8 then (pos + 1, bits - 8) else (pos, bits))
      else (pos, bits))"

definition read_code ::
    "decoder_state \<Rightarrow> bytes \<Rightarrow> nat \<Rightarrow> nat \<Rightarrow> u32 \<Rightarrow> code_status \<times> nat \<times> decoder_state \<times> nat \<times> u32" where
  "read_code st p pos fin counter =
     (if pos \<ge> fin then (Exhausted, 0, st, pos, counter)
      else
        (let out_code = drop_bit (dc_shift st) (load_bits p pos fin) AND dc_mask st;
             (pos, bits) = advance pos (dc_shift st + dc_bit_count st);
             st = st\<lparr>dc_shift := bits\<rparr> in
         if out_code = CODE_RESET then
           (let counter = counter - 1 in
            if counter = 0 then (Exhausted, out_code, st, pos, counter)
            else (Restart, out_code, st\<lparr>dc_dict_size := 0, dc_bit_count := 9, dc_mask := 0x1ff\<rparr>, pos, counter))
         else if out_code = CODE_END then (EndOfStream, out_code, st, pos, counter)
         else (Code, out_code, st, pos, counter)))"

text \<open>The two walks of \<open>handle_code\<close>: the length of the prefix chain with its cap, and the string written
  from its end.\<close>

function chain_len :: "decoder_node list \<Rightarrow> nat \<Rightarrow> nat \<Rightarrow> nat \<times> nat" where
  "chain_len nodes walk n =
     (let walk = dn_prefix (nodes ! (walk - CODE_FIRST)); n = n + 1 in
      if walk > CODE_END \<and> n \<le> DICT_NODES then chain_len nodes walk n else (walk, n))"
  by pat_completeness auto
termination
  by (relation "measure (\<lambda>(_, _, n). DICT_NODES + 1 - n)") auto

declare chain_len.simps [simp del]

fun write_chain :: "decoder_node list \<Rightarrow> nat \<Rightarrow> nat \<Rightarrow> bytes \<Rightarrow> nat \<times> bytes" where
  "write_chain nodes c 0 region = (c, region)"
| "write_chain nodes c (Suc i) region =
     (if c > CODE_END
      then write_chain nodes (dn_prefix (nodes ! (c - CODE_FIRST))) i
             (region[Suc i := of_nat (dn_ch (nodes ! (c - CODE_FIRST)))])
      else (c, region))"

definition handle_code :: "decoder_state \<Rightarrow> nat \<Rightarrow> bytes \<Rightarrow> nat \<Rightarrow> bool \<times> bytes" where
  "handle_code st code out limit =
     (if code < CODE_FIRST then
        (if limit \<noteq> 0 \<and> length out + 1 > limit then (False, out) else (True, out @ [of_nat code]))
      else
        (case chain_len (dc_nodes st) code 0 of (walk, n) \<Rightarrow>
           if walk > CODE_END then (False, out)
           else if limit \<noteq> 0 \<and> length out + n + 1 > limit then (False, out)
           else (case write_chain (dc_nodes st) code n (replicate (n + 1) 0) of
                   (c, region) \<Rightarrow> (True, out @ region[0 := of_nat c]))))"

function root_of :: "decoder_node list \<Rightarrow> nat \<Rightarrow> nat \<Rightarrow> nat \<Rightarrow> nat \<Rightarrow> nat option" where
  "root_of nodes new_code prev walk steps =
     (if walk < CODE_FIRST then Some walk
      else if steps > DICT_NODES then None
      else if walk = new_code then root_of nodes new_code prev prev (steps + 1)
      else root_of nodes new_code prev (dn_prefix (nodes ! (walk - CODE_FIRST))) (steps + 1))"
  by pat_completeness auto
termination
  by (relation "measure (\<lambda>(_, _, _, _, steps). DICT_NODES + 1 - steps)") auto

declare root_of.simps [simp del]

definition update_dict :: "decoder_state \<Rightarrow> nat \<Rightarrow> nat \<Rightarrow> decoder_state" where
  "update_dict st prev cur =
     (if dc_dict_size st \<ge> DICT_NODES then st
      else
        (case root_of (dc_nodes st) (dc_dict_size st + CODE_FIRST) prev cur 0 of
           None \<Rightarrow> st
         | Some walk \<Rightarrow>
             (let st = st\<lparr>dc_nodes := (dc_nodes st)[dc_dict_size st := \<lparr>dn_prefix = prev, dn_ch = walk\<rparr>],
                          dc_dict_size := dc_dict_size st + 1\<rparr> in
              if dc_dict_size st \<in> WIDEN_DEC
              then st\<lparr>dc_bit_count := dc_bit_count st + 1, dc_mask := push_bit 1 (dc_mask st) OR 1\<rparr>
              else st)))"

text \<open>The two-level loop: \<open>None\<close> is the outer entry, \<open>Some prev\<close> the inner loop.  The result is the reported
  size and what was written.\<close>

fun dec_loop :: "nat \<Rightarrow> nat option \<Rightarrow> decoder_state \<Rightarrow> bytes \<Rightarrow> nat \<Rightarrow> nat \<Rightarrow> u32 \<Rightarrow> bytes \<Rightarrow> nat
    \<Rightarrow> (u32 \<times> bytes \<times> decoder_state) option" where
  "dec_loop 0 prev st p pos fin counter out limit = None"
| "dec_loop (Suc rounds) prev st p pos fin counter out limit =
     (case read_code st p pos fin counter of
        (EndOfStream, _, st, _) \<Rightarrow> Some (of_nat (length out), out, st)
      | (Exhausted, _, st, _) \<Rightarrow> Some (0, out, st)
      | (Restart, _, st, pos, counter) \<Rightarrow> dec_loop rounds None st p pos fin counter out limit
      | (Code, cur, st, pos, counter) \<Rightarrow>
          (let st = (case prev of None \<Rightarrow> st | Some pv \<Rightarrow> update_dict st pv cur);
               (ok, out) = handle_code st cur out limit in
           if ok then dec_loop rounds (Some cur) st p pos fin counter out limit
           else Some (0, out, st)))"

definition decompress ::
    "decoder_state \<Rightarrow> bytes \<Rightarrow> u32 \<Rightarrow> nat \<Rightarrow> (u32 \<times> bytes \<times> decoder_state) option" where
  "decompress st p io_size limit =
     (let st = st\<lparr>dc_bit_count := 9, dc_mask := 0x1ff, dc_shift := 0, dc_dict_size := 0\<rparr> in
      if get_u32 p \<noteq> MAGIC then Some (SIZE_NOT_LZW, take (unat io_size) p, st)
      else
        (let compressed_len = get_u32 (drop 8 p);
             fin = (if unat compressed_len < PAYLOAD_HEADER then PAYLOAD_HEADER else unat compressed_len) in
         dec_loop fin None st p PAYLOAD_HEADER fin compressed_len [] limit))"

subsection \<open>Reading one code\<close>

definition le_nat :: "bytes \<Rightarrow> nat" where
  "le_nat p = foldr (\<lambda>b n. unat b + 256 * n) p 0"

lemma le_nat_simps [simp]: "le_nat [] = 0" "le_nat (b # p) = unat b + 256 * le_nat p"
  by (simp_all add: le_nat_def)

lemma le_nat_append: "le_nat (p @ q) = le_nat p + le_nat q * 2 ^ (8 * length p)"
  by (induction p) (simp_all add: algebra_simps power_add)

lemma le_nat_less: "le_nat p < 2 ^ (8 * length p)"
proof (induction p)
  case (Cons b p)
  have "unat b < 256" by (rule unat_u8)
  moreover have "le_nat p + 1 \<le> 2 ^ (8 * length p)" using Cons by simp
  ultimately show ?case by (simp add: power_add)
qed simp

lemma le_nat_drop: "drop_bit (8 * n) (le_nat p) = le_nat (drop n p)"
proof (cases "n \<le> length p")
  case True
  have "le_nat p = le_nat (take n p) + le_nat (drop n p) * 2 ^ (8 * n)"
    using le_nat_append [of "take n p" "drop n p"] True by simp
  moreover have "le_nat (take n p) < 2 ^ (8 * n)" using le_nat_less [of "take n p"] True by simp
  ultimately show ?thesis by (simp add: drop_bit_eq_div)
next
  case False
  have "le_nat p < 2 ^ (8 * n)"
    by (rule less_le_trans [OF le_nat_less]) (use False in \<open>simp add: power_increasing\<close>)
  then show ?thesis using False by (simp add: drop_bit_eq_div)
qed

lemma bit_le_nat: "bit (le_nat p) k = (k div 8 < length p \<and> bit (p ! (k div 8)) (k mod 8))"
proof (induction p arbitrary: k)
  case (Cons b p)
  have b: "unat b = take_bit 8 (unat b)" using unat_u8 [of b] by (simp add: take_bit_nat_eq_self)
  have z: "take_bit 8 (unat b) AND push_bit 8 (le_nat p) = 0"
    by (rule bit_eqI) (auto simp: bit_simps)
  have "le_nat (b # p) = take_bit 8 (unat b) OR push_bit 8 (le_nat p)"
    using disjunctive_add_eq_or [OF z] b by (simp add: push_bit_eq_mult)
  then have e: "bit (le_nat (b # p)) k = (if k < 8 then bit b k else bit (le_nat p) (k - 8))"
    by (simp add: bit_simps bit_unsigned_iff)
  show ?case
  proof (cases "k < 8")
    case False
    then obtain j where "k = j + 8" by (metis add.commute le_add_diff_inverse not_less)
    moreover from this have "k div 8 = Suc (j div 8)" by simp
    ultimately show ?thesis using e Cons [of j] by simp
  qed (use e in simp)
qed simp

lemma bit_load_bits:
  "bit (load_bits p pos fin) k = (k < 24 \<and> pos + k div 8 < fin \<and> bit (p ! (pos + k div 8)) (k mod 8))"
proof -
  have sh: "bit (push_bit (8 * m) (unat (b :: u8))) k = (k div 8 = m \<and> bit b (k mod 8))" for m b
  proof (cases "k < 8 * m")
    case True
    then have "k div 8 < m" by simp
    with True show ?thesis by (simp add: bit_push_bit_iff)
  next
    case False
    then obtain j where "k = 8 * m + j" by (metis le_add_diff_inverse not_less)
    then show ?thesis by (cases "j < 8") (auto simp: bit_simps dest: bit_imp_le_length)
  qed
  have "bit (fold (\<lambda>i v. if pos + i < fin then v OR push_bit (8 * i) (unat (p ! (pos + i))) else v) [0..<m] 0) k
     = (k div 8 < m \<and> pos + k div 8 < fin \<and> bit (p ! (pos + k div 8)) (k mod 8))" for m
  proof (induction m)
    case (Suc m)
    then show ?case by (auto simp: bit_or_iff sh less_Suc_eq)
  qed simp
  from this [of 3] show ?thesis unfolding load_bits_def by auto
qed

lemma load_bits_value: "load_bits p pos (length p) = take_bit 24 (drop_bit (8 * pos) (le_nat p))"
  by (rule bit_eqI) (auto simp: bit_load_bits bit_take_bit_iff bit_drop_bit_eq bit_le_nat add.commute)

text \<open>The width the decoder reads with once it holds \<open>n\<close> entries.\<close>

definition dec_width :: "nat \<Rightarrow> nat" where
  "dec_width n = 9 + of_bool (0x0fe \<le> n) + of_bool (0x2fe \<le> n) + of_bool (0x6fe \<le> n)"

lemma dec_width_bounds: "9 \<le> dec_width n" "dec_width n \<le> 12"
  by (simp_all add: dec_width_def)

definition dec_ok :: "decoder_state \<Rightarrow> bool" where
  "dec_ok st = (length (dc_nodes st) = DICT_NODES \<and> (\<forall>x \<in> set (dc_nodes st). dn_prefix x < DICT_NODES)
     \<and> dc_dict_size st \<le> DICT_NODES \<and> dc_shift st < 8
     \<and> dc_bit_count st = dec_width (dc_dict_size st) \<and> dc_mask st = mask (dc_bit_count st))"

lemma dec_okD:
  assumes "dec_ok st"
  shows "length (dc_nodes st) = DICT_NODES" "dc_shift st < 8" "9 \<le> dc_bit_count st" "dc_bit_count st \<le> 12"
    "dc_mask st = mask (dc_bit_count st)" "dc_dict_size st \<le> DICT_NODES"
  using assms dec_width_bounds by (simp_all add: dec_ok_def)

lemma dec_width_0: "dec_width 0 = 9"
  by (simp add: dec_width_def)

lemma mask_9: "(0x1ff :: nat) = mask 9"
  by (simp add: mask_eq_exp_minus_1)

lemma dec_ok_restart:
  "dec_ok st \<Longrightarrow> s < 8 \<Longrightarrow> dec_ok (st\<lparr>dc_shift := s, dc_dict_size := 0, dc_bit_count := 9, dc_mask := 0x1ff\<rparr>)"
  by (simp add: dec_ok_def dec_width_def mask_eq_exp_minus_1)

lemma dec_ok_shift: "dec_ok st \<Longrightarrow> s < 8 \<Longrightarrow> dec_ok (st\<lparr>dc_shift := s\<rparr>)"
  by (simp add: dec_ok_def)

lemma advance_spec:
  assumes "8 \<le> b" "b < 24"
  obtains pos' s where "advance pos b = (pos', s)" "s < 8" "pos < pos'" "8 * pos' + s = 8 * pos + b"
proof (cases "16 \<le> b")
  case True
  then have "advance pos b = (pos + 2, b - 16)" by (simp add: advance_def Let_def)
  then show ?thesis by (rule that) (use True assms in simp_all)
next
  case False
  then have "advance pos b = (pos + 1, b - 8)" using assms by (simp add: advance_def Let_def)
  then show ?thesis by (rule that) (use False assms in simp_all)
qed

text \<open>One call of \<open>read_code\<close>: it consumes at least a byte, and hands out a code of the current width.\<close>

lemma read_code_step:
  assumes ok: "dec_ok st" and "pos < fin"
  obtains pos' s where "s < 8" "pos < pos'" "8 * pos' + s = 8 * pos + dc_shift st + dc_bit_count st"
    "read_code st p pos fin counter =
       (let c = take_bit (dc_bit_count st) (drop_bit (dc_shift st) (load_bits p pos fin)) in
        if c = CODE_RESET then
          (if counter - 1 = 0 then (Exhausted, c, st\<lparr>dc_shift := s\<rparr>, pos', counter - 1)
           else (Restart, c, st\<lparr>dc_shift := s, dc_dict_size := 0, dc_bit_count := 9, dc_mask := 0x1ff\<rparr>, pos', counter - 1))
        else if c = CODE_END then (EndOfStream, c, st\<lparr>dc_shift := s\<rparr>, pos', counter)
        else (Code, c, st\<lparr>dc_shift := s\<rparr>, pos', counter))"
proof -
  note d = dec_okD [OF ok]
  obtain pos' s where a: "advance pos (dc_shift st + dc_bit_count st) = (pos', s)" "s < 8" "pos < pos'"
    "8 * pos' + s = 8 * pos + (dc_shift st + dc_bit_count st)"
    using d by (elim advance_spec [of "dc_shift st + dc_bit_count st" pos, rotated 2]) simp_all
  show ?thesis
    by (rule that [of s pos']) (use assms a d(5) in \<open>simp_all add: read_code_def Let_def take_bit_eq_mask add.assoc\<close>)
qed

subsection \<open>Writing one string\<close>

lemma length_write_chain: "length (snd (write_chain nodes c i region)) = length region"
  by (induction nodes c i region rule: write_chain.induct) simp_all

lemma handle_code_bounds:
  assumes "handle_code st c out limit = (ok, out')"
  shows "(ok \<longrightarrow> length out < length out') \<and> (\<not> ok \<longrightarrow> out' = out) \<and> (limit \<noteq> 0 \<longrightarrow> length out \<le> limit \<longrightarrow> length out' \<le> limit)"
proof (cases "c < CODE_FIRST")
  case True
  then show ?thesis using assms by (auto simp: handle_code_def split: if_splits)
next
  case False
  obtain walk n where cl: "chain_len (dc_nodes st) c 0 = (walk, n)" by (cases "chain_len (dc_nodes st) c 0")
  obtain r region where w: "write_chain (dc_nodes st) c n (replicate (Suc n) 0) = (r, region)"
    by (cases "write_chain (dc_nodes st) c n (replicate (Suc n) 0)")
  have "length region = n + 1" using length_write_chain [of "dc_nodes st" c n "replicate (Suc n) 0"] w by simp
  then show ?thesis using False assms by (auto simp: handle_code_def cl w simp del: replicate_Suc split: if_splits)
qed

lemma dec_ok_update:
  assumes ok: "dec_ok st" and prev: "prev < DICT_NODES"
  shows "dec_ok (update_dict st prev cur)" "dc_shift (update_dict st prev cur) = dc_shift st"
proof -
  consider "update_dict st prev cur = st"
    | walk where "dc_dict_size st < DICT_NODES" "root_of (dc_nodes st) (dc_dict_size st + CODE_FIRST) prev cur 0 = Some walk"
    by (cases "dc_dict_size st < DICT_NODES"; cases "root_of (dc_nodes st) (dc_dict_size st + CODE_FIRST) prev cur 0")
      (auto simp: update_dict_def)
  then have "dec_ok (update_dict st prev cur) \<and> dc_shift (update_dict st prev cur) = dc_shift st"
  proof cases
    case 1
    then show ?thesis using ok by simp
  next
    case (2 walk)
    define st' where "st' = st\<lparr>dc_nodes := (dc_nodes st)[dc_dict_size st := \<lparr>dn_prefix = prev, dn_ch = walk\<rparr>],
      dc_dict_size := dc_dict_size st + 1\<rparr>"
    have e: "update_dict st prev cur = (if dc_dict_size st + 1 \<in> WIDEN_DEC
       then st'\<lparr>dc_bit_count := dc_bit_count st + 1, dc_mask := push_bit 1 (dc_mask st) OR 1\<rparr> else st')"
      using 2 by (simp add: update_dict_def st'_def)
    have m: "push_bit 1 (mask k) OR 1 = (mask (k + 1) :: nat)" for k
      by (simp add: mask_Suc_double or.commute mult.commute)
    have w: "dec_width (n + 1) = (if n + 1 \<in> WIDEN_DEC then dec_width n + 1 else dec_width n)" for n
      by (auto simp: dec_width_def WIDEN_DEC_def)
    have n: "\<forall>x \<in> set (dc_nodes st'). dn_prefix x < DICT_NODES" "length (dc_nodes st') = DICT_NODES"
      using ok prev set_update_subset_insert [of "dc_nodes st" "dc_dict_size st" "\<lparr>dn_prefix = prev, dn_ch = walk\<rparr>"]
      by (auto simp: dec_ok_def st'_def)
    show ?thesis
      using ok 2(1) n w [of "dc_dict_size st"] m [of "dc_bit_count st"]
      by (simp add: dec_ok_def e) (simp add: st'_def)
  qed
  then show "dec_ok (update_dict st prev cur)" "dc_shift (update_dict st prev cur) = dc_shift st" by simp_all
qed

subsection \<open>The main loop\<close>

lemma take_bit_code: "take_bit (dc_bit_count st) x < DICT_NODES" if "dec_ok st" for x :: nat
proof -
  have "take_bit (dc_bit_count st) x < 2 ^ dc_bit_count st" by simp
  also have "\<dots> \<le> 2 ^ 12" using dec_okD(4) [OF that] by (intro power_increasing) simp_all
  finally show ?thesis by (simp add: DICT_NODES_def)
qed

lemma dec_loop_returns:
  assumes "dec_ok st" "fin - pos < rounds" "limit \<noteq> 0 \<longrightarrow> length out \<le> limit" "\<forall>pv. prev = Some pv \<longrightarrow> pv < DICT_NODES"
  shows "\<exists>size out' st'. dec_loop rounds prev st p pos fin counter out limit = Some (size, out', st') \<and>
    (limit \<noteq> 0 \<longrightarrow> length out' \<le> limit) \<and> (size = 0 \<or> size = of_nat (length out')) \<and> dec_ok st'"
  using assms
proof (induction rounds arbitrary: prev st pos counter out)
  case 0
  then show ?case by simp
next
  case (Suc rounds)
  show ?case
  proof (cases "pos < fin")
    case False
    then show ?thesis using Suc.prems by (simp add: read_code_def)
  next
    case True
    define c where "c = take_bit (dc_bit_count st) (drop_bit (dc_shift st) (load_bits p pos fin))"
    have c: "c < DICT_NODES" unfolding c_def by (rule take_bit_code [OF Suc.prems(1)])
    define k where "k = counter - 1"
    obtain pos' s where s: "s < 8" "pos < pos'" and r: "read_code st p pos fin counter =
       (if c = CODE_RESET then
          (if k = 0 then (Exhausted, c, st\<lparr>dc_shift := s\<rparr>, pos', k)
           else (Restart, c, st\<lparr>dc_shift := s, dc_dict_size := 0, dc_bit_count := 9, dc_mask := 0x1ff\<rparr>, pos', k))
        else if c = CODE_END then (EndOfStream, c, st\<lparr>dc_shift := s\<rparr>, pos', counter)
        else (Code, c, st\<lparr>dc_shift := s\<rparr>, pos', counter))"
      using read_code_step [OF Suc.prems(1) True, where counter = counter] unfolding c_def k_def Let_def by metis
    have f: "fin - pos' < rounds" using Suc.prems(2) s True by linarith
    note ok = dec_ok_shift [OF Suc.prems(1) s(1)]
    consider "c = CODE_RESET" "k = 0" | "c = CODE_RESET" "k \<noteq> 0" | "c = CODE_END" "c \<noteq> CODE_RESET"
      | "c \<noteq> CODE_RESET" "c \<noteq> CODE_END" by blast
    then show ?thesis
    proof cases
      case 2
      show ?thesis
        using Suc.IH [OF dec_ok_restart [OF Suc.prems(1) s(1)] f Suc.prems(3), of None] 2 by (simp add: r)
    next
      case 4
      define st' where "st' = (case prev of None \<Rightarrow> st\<lparr>dc_shift := s\<rparr> | Some pv \<Rightarrow> update_dict (st\<lparr>dc_shift := s\<rparr>) pv c)"
      have ok': "dec_ok st'" using ok Suc.prems(4) dec_ok_update(1) [OF ok] by (auto simp: st'_def split: option.split)
      obtain good out' where h: "handle_code st' c out limit = (good, out')" by (cases "handle_code st' c out limit")
      have l: "limit \<noteq> 0 \<longrightarrow> length out' \<le> limit" "\<not> good \<longrightarrow> out' = out"
        using handle_code_bounds [OF h] Suc.prems(3) by simp_all
      have "dec_loop (Suc rounds) prev st p pos fin counter out limit =
        (if good then dec_loop rounds (Some c) st' p pos' fin counter out' limit else Some (0, out', st'))"
        using 4 h by (simp add: r st'_def [symmetric])
      then show ?thesis using Suc.IH [OF ok' f l(1), of "Some c"] l c ok' Suc.prems(3) by simp
    qed (use Suc.prems ok in \<open>simp_all add: r\<close>)
  qed
qed

definition decoder_ready :: "decoder_state \<Rightarrow> bool" where
  "decoder_ready st = (length (dc_nodes st) = DICT_NODES \<and> (\<forall>x \<in> set (dc_nodes st). dn_prefix x < DICT_NODES))"

lemma decompress_total:
  assumes "decoder_ready st"
  shows "\<exists>size out st'. decompress st p io_size limit = Some (size, out, st') \<and> decoder_ready st' \<and>
    9 \<le> dc_bit_count st' \<and> dc_bit_count st' \<le> 12 \<and> dc_dict_size st' \<le> DICT_NODES \<and>
    (if get_u32 p = MAGIC then (limit = 0 \<or> length out \<le> limit) \<and> (size = 0 \<or> size = of_nat (length out))
     else size = SIZE_NOT_LZW \<and> out = take (unat io_size) p)"
proof -
  define st0 where "st0 = st\<lparr>dc_bit_count := 9, dc_mask := 0x1ff, dc_shift := 0, dc_dict_size := 0\<rparr>"
  define fin where "fin = (let n = unat (get_u32 (drop 8 p)) in if n < PAYLOAD_HEADER then PAYLOAD_HEADER else n)"
  have ok: "dec_ok st0"
    using assms unfolding dec_ok_def decoder_ready_def st0_def mask_9 by (simp add: dec_width_0)
  have "PAYLOAD_HEADER \<le> fin" unfolding fin_def Let_def by (simp only: not_less split: if_split) simp
  then have f: "fin - PAYLOAD_HEADER < fin" unfolding PAYLOAD_HEADER_def by linarith
  have fin: "dec_ok st' \<Longrightarrow> decoder_ready st' \<and> 9 \<le> dc_bit_count st' \<and> dc_bit_count st' \<le> 12 \<and> dc_dict_size st' \<le> DICT_NODES" for st'
    using dec_okD [of st'] unfolding decoder_ready_def dec_ok_def by blast
  have e: "decompress st p io_size limit = (if get_u32 p \<noteq> MAGIC then Some (SIZE_NOT_LZW, take (unat io_size) p, st0)
    else dec_loop fin None st0 p PAYLOAD_HEADER fin (get_u32 (drop 8 p)) [] limit)"
    unfolding decompress_def Let_def st0_def fin_def by (rule refl)
  show ?thesis
  proof (cases "get_u32 p = MAGIC")
    case True
    obtain size out st' where r: "dec_loop fin None st0 p PAYLOAD_HEADER fin (get_u32 (drop 8 p)) [] limit = Some (size, out, st')"
      "limit \<noteq> 0 \<longrightarrow> length out \<le> limit" "size = 0 \<or> size = of_nat (length out)" "dec_ok st'"
      using dec_loop_returns [OF ok f, of limit "[]" None p "get_u32 (drop 8 p)"] by fastforce
    have d: "decompress st p io_size limit = Some (size, out, st')" using e r(1) True by simp
    have l: "limit = 0 \<or> length out \<le> limit" using r(2) by blast
    show ?thesis using d fin [OF r(4)] True l r(3) by simp
  next
    case False
    then have "decompress st p io_size limit = Some (SIZE_NOT_LZW, take (unat io_size) p, st0)" using e by simp
    then show ?thesis using False fin [OF ok] by simp
  qed
qed

text \<open>C26. The decompressor ends on every byte string, whatever dictionary an earlier run left behind: the rounds of
  the model always suffice, and it leaves the decoder ready for the next block, its code width between 9 and 12 and its
  dictionary within the table.  For a payload of this format, a limit that is not 0 is never written past, and the size
  reported is 0 for a refused payload or the number of bytes written.  A payload in another format is not held to the
  limit: the raw copy is as long as the caller says the payload is, and is reported by its marker.\<close>

theorem decompress_returns:
  assumes "decoder_ready st"
  shows "\<exists>size out st'. decompress st p io_size limit = Some (size, out, st') \<and> decoder_ready st' \<and>
    9 \<le> dc_bit_count st' \<and> dc_bit_count st' \<le> 12 \<and> dc_dict_size st' \<le> DICT_NODES \<and>
    (if get_u32 p = MAGIC then (limit = 0 \<or> length out \<le> limit) \<and> (size = 0 \<or> size = of_nat (length out))
     else size = SIZE_NOT_LZW \<and> out = take (unat io_size) p)"
  by (rule decompress_total [OF assms])

theorem decompress_returns_witness:
  "\<exists>size out st'. decompress \<lparr>dc_nodes = replicate DICT_NODES \<lparr>dn_prefix = 7, dn_ch = 3\<rparr>, dc_bit_count = 0, dc_mask = 0,
      dc_shift = 0, dc_dict_size = 0\<rparr> (put_u32 MAGIC @ put_u32 5 @ put_u32 15 @ [0x41, 0x04, 0x06]) 15 1 = Some (size, out, st') \<and>
    length out \<le> 1 \<and> dc_bit_count st' \<le> 12"
proof -
  define d where "d = \<lparr>dc_nodes = replicate DICT_NODES \<lparr>dn_prefix = 7, dn_ch = 3\<rparr>, dc_bit_count = 0, dc_mask = 0,
    dc_shift = 0, dc_dict_size = 0\<rparr>"
  have "decoder_ready d" by (simp add: decoder_ready_def d_def DICT_NODES_def)
  from decompress_returns [OF this, of "put_u32 MAGIC @ put_u32 5 @ put_u32 15 @ [0x41, 0x04, 0x06]" 15 1]
  show ?thesis unfolding d_def [symmetric] by auto
qed

end
