(* ===== verification/Lzw_Encoder.thy ===== *)
theory Lzw_Encoder
  imports Lzw_Decoder "HOL-Library.Sublist"
begin

text \<open>
  The compressor of save blocks, the second half of \<open>mh_dll/mh_common/lzw.cpp\<close>: the bit packer, the hash chains
  of the dictionary, the insertion that widens the codes and resets a full dictionary, and the driver.  The packing
  accumulator stays below \<open>2 ^ 19\<close> and codes below \<open>2 ^ 12\<close>, so they are \<open>nat\<close>; the output cursor is the
  list of what was written.  The main theorem bounds the output: with \<open>compressed_bound\<close> bytes to write into
  the compressor never refuses an input.
\<close>

subsection \<open>The encoder\<close>

record encoder_node =
  en_prefix :: u16
  en_ch :: u16
  en_next :: nat

record encoder_state =
  ec_nodes :: "encoder_node list"
  ec_heads :: "nat list"
  ec_tails :: "nat list"
  ec_dict_size :: nat
  ec_width :: nat
  ec_pending_bits :: nat
  ec_pending_byte :: nat
  ec_input_counter :: nat
  ec_out :: bytes
  ec_limit :: nat
  ec_overflowed :: bool

text \<open>The loop of \<open>emit_code\<close> over the accumulator.\<close>

function emit_bytes :: "nat \<Rightarrow> nat \<Rightarrow> encoder_state \<Rightarrow> encoder_state" where
  "emit_bytes acc bits st =
     (if bits \<ge> 8 then
        if ec_limit st \<noteq> 0 \<and> length (ec_out st) \<ge> ec_limit st then st\<lparr>ec_overflowed := True\<rparr>
        else emit_bytes (drop_bit 8 acc) (bits - 8) (st\<lparr>ec_out := ec_out st @ [of_nat acc]\<rparr>)
      else st\<lparr>ec_pending_byte := acc AND 0xff, ec_pending_bits := bits\<rparr>)"
  by pat_completeness auto
termination
  by (relation "measure (\<lambda>(_, bits, _). bits)") auto

declare emit_bytes.simps [simp del]

definition emit_code :: "encoder_state \<Rightarrow> nat \<Rightarrow> encoder_state" where
  "emit_code st code =
     emit_bytes (push_bit (ec_pending_bits st) code OR ec_pending_byte st) (ec_pending_bits st + ec_width st) st"

text \<open>The walk along a chain; a chain has at most \<open>DICT_NODES\<close> links.\<close>

fun match_loop :: "encoder_node list \<Rightarrow> u16 \<Rightarrow> nat \<Rightarrow> nat \<Rightarrow> int" where
  "match_loop nodes ch ref 0 = -1"
| "match_loop nodes ch ref (Suc links) =
     (let idx = ref - 1 in
      if ch = en_ch (nodes ! idx) then int idx
      else if en_next (nodes ! idx) = 0 then -1
      else match_loop nodes ch (en_next (nodes ! idx)) links)"

definition find_match :: "encoder_state \<Rightarrow> nat \<Rightarrow> nat \<Rightarrow> int" where
  "find_match st cur nxt =
     (if ec_dict_size st = 0 then -1
      else if ec_heads st ! cur = 0 then -1
      else match_loop (ec_nodes st) (of_nat nxt) (ec_heads st ! cur) DICT_NODES)"

definition chain_append :: "encoder_state \<Rightarrow> nat \<Rightarrow> nat \<Rightarrow> encoder_state" where
  "chain_append st cur nxt =
     (let ref = ec_dict_size st + 1;
          st = (if ec_heads st ! cur = 0
                then st\<lparr>ec_heads := (ec_heads st)[cur := ref], ec_tails := (ec_tails st)[cur := ref]\<rparr>
                else
                  (let tl_idx = ec_tails st ! cur - 1 in
                   st\<lparr>ec_nodes := (ec_nodes st)[tl_idx := (ec_nodes st ! tl_idx)\<lparr>en_next := ref\<rparr>],
                      ec_tails := (ec_tails st)[cur := ref]\<rparr>)) in
      st\<lparr>ec_nodes := (ec_nodes st)[ec_dict_size st := \<lparr>en_prefix = of_nat cur, en_ch = of_nat nxt, en_next = 0\<rparr>]\<rparr>)"

definition lzw_insert :: "encoder_state \<Rightarrow> nat \<Rightarrow> nat \<Rightarrow> bool \<times> encoder_state" where
  "lzw_insert st cur nxt =
     (let st = chain_append st cur nxt; n = ec_dict_size st + 1 in
      if n \<in> WIDEN_ENC then (False, st\<lparr>ec_width := ec_width st + 1, ec_dict_size := n\<rparr>)
      else if n \<noteq> DICT_FULL then (False, st\<lparr>ec_dict_size := n\<rparr>)
      else
        (let st = emit_code (emit_code st nxt) CODE_RESET in
         (True, st\<lparr>ec_dict_size := 0, ec_width := 9, ec_heads := replicate CHAIN_SLOTS 0,
                   ec_tails := replicate CHAIN_SLOTS 0\<rparr>)))"

definition count_input :: "encoder_state \<Rightarrow> encoder_state" where
  "count_input st = st\<lparr>ec_input_counter := ec_input_counter st + 1\<rparr>"

text \<open>The main loop; \<open>None\<close> is \<open>cur_pending = false\<close>.\<close>

fun comp_loop :: "encoder_state \<Rightarrow> nat \<Rightarrow> bytes \<Rightarrow> encoder_state \<times> nat option" where
  "comp_loop st cur [] = (st, Some cur)"
| "comp_loop st cur (b # inp) =
     (let nxt = unat b; st = count_input st; m = find_match st cur nxt in
      if m \<ge> 0 then comp_loop st (nat m + CODE_FIRST) inp
      else
        (case lzw_insert (emit_code st cur) cur nxt of
           (False, st) \<Rightarrow> comp_loop st nxt inp
         | (True, st) \<Rightarrow>
             (let st = emit_code st CODE_RESET in
              case inp of [] \<Rightarrow> (st, None)
              | c # inp' \<Rightarrow> comp_loop (count_input st) (unat c) inp')))"

definition compress :: "encoder_state \<Rightarrow> bytes \<Rightarrow> nat \<Rightarrow> u32 \<times> encoder_state" where
  "compress st src limit =
     (case src of [] \<Rightarrow> (0, st)
      | b # inp \<Rightarrow>
          (let st = st\<lparr>ec_heads := replicate CHAIN_SLOTS 0, ec_tails := replicate CHAIN_SLOTS 0, ec_dict_size := 0,
                 ec_pending_bits := 0, ec_pending_byte := 0, ec_width := 9, ec_input_counter := 0, ec_out := [],
                 ec_limit := limit, ec_overflowed := False\<rparr> in
           if limit \<noteq> 0 \<and> PAYLOAD_HEADER > limit then (0, st\<lparr>ec_overflowed := True\<rparr>)
           else
             (let st = st\<lparr>ec_out := put_u32 MAGIC @ put_u32 (of_nat (length src)) @ put_u32 0\<rparr>;
                  st = count_input (emit_code st CODE_RESET);
                  (st, pending) = comp_loop st (unat b) inp;
                  st = (case pending of None \<Rightarrow> st | Some cur \<Rightarrow> emit_code st cur);
                  st = emit_code (emit_code st CODE_END) 0 in
              if ec_overflowed st then (0, st)
              else
                (let total = of_nat (length (ec_out st)) in
                 (total, st\<lparr>ec_out := memcpy_at (ec_out st) 8 (put_u32 total)\<rparr>)))))"

text \<open>The macro of \<open>mh_lzw.h\<close> that sizes the output buffer.\<close>

definition compressed_bound :: "u32 \<Rightarrow> u32" where
  "compressed_bound n = of_nat PAYLOAD_HEADER + (n * 3 + 1) div 2 + 8"

subsection \<open>What one code adds to the stream\<close>

text \<open>The stream so far is a number, least significant bit first, and its length in bits.\<close>

definition sval :: "encoder_state \<Rightarrow> nat" where
  "sval st = le_nat (ec_out st) + ec_pending_byte st * 2 ^ (8 * length (ec_out st))"

definition soff :: "encoder_state \<Rightarrow> nat" where
  "soff st = 8 * length (ec_out st) + ec_pending_bits st"

lemma emit_bytes_fields [simp]:
  "ec_nodes (emit_bytes acc bits st) = ec_nodes st" "ec_heads (emit_bytes acc bits st) = ec_heads st"
  "ec_tails (emit_bytes acc bits st) = ec_tails st" "ec_dict_size (emit_bytes acc bits st) = ec_dict_size st"
  "ec_width (emit_bytes acc bits st) = ec_width st" "ec_input_counter (emit_bytes acc bits st) = ec_input_counter st"
  "ec_limit (emit_bytes acc bits st) = ec_limit st"
  by (induction acc bits st rule: emit_bytes.induct; subst emit_bytes.simps; simp)+

lemma emit_code_fields [simp]:
  "ec_nodes (emit_code st c) = ec_nodes st" "ec_heads (emit_code st c) = ec_heads st"
  "ec_tails (emit_code st c) = ec_tails st" "ec_dict_size (emit_code st c) = ec_dict_size st"
  "ec_width (emit_code st c) = ec_width st" "ec_input_counter (emit_code st c) = ec_input_counter st"
  "ec_limit (emit_code st c) = ec_limit st"
  by (simp_all add: emit_code_def)

lemma emit_bytes_sticky: "ec_overflowed st \<Longrightarrow> ec_overflowed (emit_bytes acc bits st)"
  by (induction acc bits st rule: emit_bytes.induct; subst emit_bytes.simps; simp)

lemma emit_code_sticky: "ec_overflowed st \<Longrightarrow> ec_overflowed (emit_code st c)"
  by (simp add: emit_code_def emit_bytes_sticky)

lemma emit_bytes_fits:
  assumes "ec_limit st = 0 \<or> 8 * length (ec_out st) + bits < 8 * (ec_limit st + 1)" "\<not> ec_overflowed st"
  shows "\<not> ec_overflowed (emit_bytes acc bits st)"
  using assms
  by (induction acc bits st rule: emit_bytes.induct) (subst emit_bytes.simps, auto)

lemma emit_bytes_count:
  assumes "\<not> ec_overflowed (emit_bytes acc bits st)"
  shows "soff (emit_bytes acc bits st) = 8 * length (ec_out st) + bits" "ec_pending_bits (emit_bytes acc bits st) < 8"
proof -
  have "soff (emit_bytes acc bits st) = 8 * length (ec_out st) + bits \<and> ec_pending_bits (emit_bytes acc bits st) < 8"
    using assms
  proof (induction acc bits st rule: emit_bytes.induct)
    case (1 acc bits st)
    then show ?case by (subst (1 2) emit_bytes.simps) (auto simp: emit_bytes.simps [of acc bits st] soff_def split: if_splits)
  qed
  then show "soff (emit_bytes acc bits st) = 8 * length (ec_out st) + bits" "ec_pending_bits (emit_bytes acc bits st) < 8" by simp_all
qed

lemma emit_bytes_value:
  assumes "\<not> ec_overflowed (emit_bytes acc bits st)" "acc < 2 ^ bits"
  shows "sval (emit_bytes acc bits st) = le_nat (ec_out st) + acc * 2 ^ (8 * length (ec_out st))
    \<and> ec_pending_byte (emit_bytes acc bits st) < 2 ^ ec_pending_bits (emit_bytes acc bits st)
    \<and> (\<exists>xs. ec_out (emit_bytes acc bits st) = ec_out st @ xs)"
  using assms
proof (induction acc bits st rule: emit_bytes.induct)
  case (1 acc bits st)
  show ?case
  proof (cases "bits \<ge> 8")
    case False
    have "acc < 256" using 1(3) False by (intro less_le_trans [OF 1(3)]) (simp add: power_increasing [of bits 8 2, simplified])
    then have "acc AND 0xff = acc" using take_bit_nat_eq_self [of acc 8] by (simp add: take_bit_eq_mask mask_eq_exp_minus_1)
    then show ?thesis using False 1(3) by (simp add: emit_bytes.simps [of acc bits st] sval_def)
  next
    case True
    define st' where "st' = st\<lparr>ec_out := ec_out st @ [of_nat acc]\<rparr>"
    have f: "\<not> (ec_limit st \<noteq> 0 \<and> length (ec_out st) \<ge> ec_limit st)"
      using 1(2) True by (auto simp: emit_bytes.simps [of acc bits st] split: if_splits)
    then have e: "emit_bytes acc bits st = emit_bytes (drop_bit 8 acc) (bits - 8) st'"
      using True unfolding st'_def by (subst emit_bytes.simps) auto
    have "drop_bit 8 acc < 2 ^ (bits - 8)"
      using 1(3) power_add [of "2 :: nat" "bits - 8" 8] True by (simp add: drop_bit_eq_div div_less_iff_less_mult)
    then have ih: "sval (emit_bytes acc bits st) = le_nat (ec_out st') + drop_bit 8 acc * 2 ^ (8 * length (ec_out st'))
      \<and> ec_pending_byte (emit_bytes acc bits st) < 2 ^ ec_pending_bits (emit_bytes acc bits st)
      \<and> (\<exists>xs. ec_out (emit_bytes acc bits st) = ec_out st' @ xs)"
      using 1(1) [OF True f] 1(2) unfolding e st'_def by blast
    have "unat (of_nat acc :: u8) = take_bit 8 acc" by (simp add: unat_of_nat take_bit_eq_mod)
    then have "le_nat (ec_out st') + drop_bit 8 acc * 2 ^ (8 * length (ec_out st'))
       = le_nat (ec_out st) + (take_bit 8 acc + drop_bit 8 acc * 2 ^ 8) * 2 ^ (8 * length (ec_out st))"
      by (simp add: st'_def le_nat_append power_add algebra_simps)
    also have "take_bit 8 acc + drop_bit 8 acc * 2 ^ 8 = acc"
      by (simp add: take_bit_eq_mod drop_bit_eq_div)
    finally show ?thesis using ih by (auto simp: st'_def)
  qed
qed

text \<open>The writer's partial byte.\<close>

definition pend_ok :: "encoder_state \<Rightarrow> bool" where
  "pend_ok st = (ec_pending_bits st < 8 \<and> ec_pending_byte st < 2 ^ ec_pending_bits st)"

lemma emit_code_stream:
  assumes "pend_ok st" "c < 2 ^ ec_width st" "\<not> ec_overflowed (emit_code st c)"
  shows "pend_ok (emit_code st c)" "sval (emit_code st c) = sval st + c * 2 ^ soff st"
    "soff (emit_code st c) = soff st + ec_width st" "\<exists>xs. ec_out (emit_code st c) = ec_out st @ xs"
proof -
  define acc where "acc = push_bit (ec_pending_bits st) c OR ec_pending_byte st"
  have z: "push_bit (ec_pending_bits st) c AND ec_pending_byte st = 0"
  proof -
    have "take_bit (ec_pending_bits st) (ec_pending_byte st) = ec_pending_byte st"
      using assms(1) by (simp add: pend_ok_def take_bit_nat_eq_self)
    then show ?thesis by (metis (no_types, opaque_lifting) and.left_commute and_zero_eq push_bit_and take_bit_eq_mask
      take_bit_push_bit diff_self_eq_0 take_bit_0 push_bit_of_0 and.commute and.assoc)
  qed
  have a: "acc = c * 2 ^ ec_pending_bits st + ec_pending_byte st"
    unfolding acc_def disjunctive_add_eq_or [OF z, symmetric] by (simp add: push_bit_eq_mult)
  have "(c + 1) * 2 ^ ec_pending_bits st \<le> 2 ^ ec_width st * 2 ^ ec_pending_bits st"
    using assms(2) by (intro mult_right_mono) simp_all
  then have l: "acc < 2 ^ (ec_pending_bits st + ec_width st)"
    using assms(1) by (simp add: a pend_ok_def power_add mult.commute)
  have e: "emit_code st c = emit_bytes acc (ec_pending_bits st + ec_width st) st" by (simp add: emit_code_def acc_def)
  note v = emit_bytes_value [OF assms(3) [unfolded e] l] and n = emit_bytes_count [OF assms(3) [unfolded e]]
  show "pend_ok (emit_code st c)" using v n by (simp add: pend_ok_def e)
  show "sval (emit_code st c) = sval st + c * 2 ^ soff st"
    using v by (simp add: e a sval_def soff_def power_add algebra_simps)
  show "soff (emit_code st c) = soff st + ec_width st" using n by (simp add: e soff_def)
  show "\<exists>xs. ec_out (emit_code st c) = ec_out st @ xs" using v by (simp add: e)
qed

subsection \<open>The driver's steps\<close>

lemma count_input_fields [simp]:
  "ec_nodes (count_input st) = ec_nodes st" "ec_heads (count_input st) = ec_heads st"
  "ec_tails (count_input st) = ec_tails st" "ec_dict_size (count_input st) = ec_dict_size st"
  "ec_width (count_input st) = ec_width st" "ec_limit (count_input st) = ec_limit st"
  "ec_out (count_input st) = ec_out st" "ec_pending_bits (count_input st) = ec_pending_bits st"
  "ec_pending_byte (count_input st) = ec_pending_byte st" "ec_overflowed (count_input st) = ec_overflowed st"
  "soff (count_input st) = soff st" "sval (count_input st) = sval st" "pend_ok (count_input st) = pend_ok st"
  by (simp_all add: count_input_def soff_def sval_def pend_ok_def)

text \<open>An insertion that leaves room.\<close>

definition grow :: "encoder_state \<Rightarrow> nat \<Rightarrow> nat \<Rightarrow> encoder_state" where
  "grow st cur nxt = (chain_append st cur nxt)\<lparr>ec_dict_size := ec_dict_size st + 1,
     ec_width := (if ec_dict_size st + 1 \<in> WIDEN_ENC then ec_width st + 1 else ec_width st)\<rparr>"

text \<open>An insertion that fills the dictionary, with the second reset code that the driver adds.\<close>

definition restart :: "encoder_state \<Rightarrow> nat \<Rightarrow> nat \<Rightarrow> encoder_state" where
  "restart st cur nxt = emit_code ((emit_code (emit_code (chain_append st cur nxt) nxt) CODE_RESET)
     \<lparr>ec_dict_size := 0, ec_width := 9, ec_heads := replicate CHAIN_SLOTS 0, ec_tails := replicate CHAIN_SLOTS 0\<rparr>) CODE_RESET"

definition finish :: "encoder_state \<times> nat option \<Rightarrow> encoder_state" where
  "finish r = emit_code (emit_code (case snd r of None \<Rightarrow> fst r | Some cur \<Rightarrow> emit_code (fst r) cur) CODE_END) 0"

lemma chain_append_fields [simp]:
  "ec_dict_size (chain_append st cur nxt) = ec_dict_size st" "ec_width (chain_append st cur nxt) = ec_width st"
  "ec_limit (chain_append st cur nxt) = ec_limit st" "ec_out (chain_append st cur nxt) = ec_out st"
  "ec_pending_bits (chain_append st cur nxt) = ec_pending_bits st"
  "ec_pending_byte (chain_append st cur nxt) = ec_pending_byte st"
  "ec_overflowed (chain_append st cur nxt) = ec_overflowed st"
  by (simp_all add: chain_append_def Let_def)

lemma lzw_insert_grow: "ec_dict_size st + 1 \<noteq> DICT_FULL \<Longrightarrow> lzw_insert st cur nxt = (False, grow st cur nxt)"
  by (simp add: lzw_insert_def grow_def Let_def)

lemma lzw_insert_full:
  "ec_dict_size st + 1 = DICT_FULL \<Longrightarrow> lzw_insert st cur nxt =
    (True, (emit_code (emit_code (chain_append st cur nxt) nxt) CODE_RESET)
      \<lparr>ec_dict_size := 0, ec_width := 9, ec_heads := replicate CHAIN_SLOTS 0, ec_tails := replicate CHAIN_SLOTS 0\<rparr>)"
  by (simp add: lzw_insert_def Let_def WIDEN_ENC_def DICT_FULL_def)

lemma comp_loop_match:
  "find_match (count_input st) cur (unat b) = int m \<Longrightarrow> comp_loop st cur (b # inp) = comp_loop (count_input st) (m + CODE_FIRST) inp"
  by (simp add: Let_def)

lemma comp_loop_grow:
  "find_match (count_input st) cur (unat b) < 0 \<Longrightarrow> ec_dict_size st + 1 \<noteq> DICT_FULL \<Longrightarrow>
   comp_loop st cur (b # inp) = comp_loop (grow (emit_code (count_input st) cur) cur (unat b)) (unat b) inp"
  by (simp add: Let_def lzw_insert_grow)

lemma comp_loop_restart:
  "find_match (count_input st) cur (unat b) < 0 \<Longrightarrow> ec_dict_size st + 1 = DICT_FULL \<Longrightarrow>
   comp_loop st cur (b # inp) =
     (let st' = restart (emit_code (count_input st) cur) cur (unat b) in
      case inp of [] \<Rightarrow> (st', None) | c # inp' \<Rightarrow> comp_loop (count_input st') (unat c) inp')"
  by (simp add: Let_def lzw_insert_full restart_def)

declare comp_loop.simps(2) [simp del]

definition start :: "encoder_state \<Rightarrow> bytes \<Rightarrow> nat \<Rightarrow> encoder_state" where
  "start st src limit = st\<lparr>ec_heads := replicate CHAIN_SLOTS 0, ec_tails := replicate CHAIN_SLOTS 0, ec_dict_size := 0,
     ec_pending_bits := 0, ec_pending_byte := 0, ec_width := 9, ec_input_counter := 0, ec_out := [],
     ec_limit := limit, ec_overflowed := False\<rparr>
     \<lparr>ec_out := put_u32 MAGIC @ put_u32 (of_nat (length src)) @ put_u32 0\<rparr>"

text \<open>The state when the whole stream is written, before the length is stored in the header.\<close>

definition final :: "encoder_state \<Rightarrow> u8 \<Rightarrow> bytes \<Rightarrow> nat \<Rightarrow> encoder_state" where
  "final st b inp limit =
     finish (comp_loop (count_input (emit_code (start st (b # inp) limit) CODE_RESET)) (unat b) inp)"

lemma compress_eq:
  assumes "limit = 0 \<or> PAYLOAD_HEADER \<le> limit"
  shows "compress st (b # inp) limit =
    (let st' = final st b inp limit in
     if ec_overflowed st' then (0, st')
     else (of_nat (length (ec_out st')), st'\<lparr>ec_out := memcpy_at (ec_out st') 8 (put_u32 (of_nat (length (ec_out st'))))\<rparr>))"
proof -
  have l: "(limit \<noteq> 0 \<and> PAYLOAD_HEADER > limit) = False" using assms by auto
  show ?thesis
    unfolding final_def start_def finish_def compress_def list.case Let_def l if_False case_prod_beta by (rule refl)
qed

subsection \<open>The output only grows\<close>

text \<open>What was written stays, and a limit is never exceeded.\<close>

definition extends :: "encoder_state \<Rightarrow> encoder_state \<Rightarrow> bool" where
  "extends st st' = (prefix (ec_out st) (ec_out st') \<and> ec_limit st' = ec_limit st
     \<and> (ec_limit st = 0 \<or> length (ec_out st) \<le> ec_limit st \<longrightarrow> ec_limit st = 0 \<or> length (ec_out st') \<le> ec_limit st))"

lemma extends_same: "ec_out st' = ec_out st \<Longrightarrow> ec_limit st' = ec_limit st \<Longrightarrow> extends st st'"
  by (simp add: extends_def)

lemma extends_trans: "extends st s1 \<Longrightarrow> extends s1 s2 \<Longrightarrow> extends st s2"
  by (auto simp: extends_def intro: prefix_order.trans)

lemma emit_bytes_extends: "extends st (emit_bytes acc bits st)"
proof (induction acc bits st rule: emit_bytes.induct)
  case (1 acc bits st)
  show ?case
  proof (cases "bits \<ge> 8 \<and> \<not> (ec_limit st \<noteq> 0 \<and> length (ec_out st) \<ge> ec_limit st)")
    case True
    define s1 where "s1 = st\<lparr>ec_out := ec_out st @ [of_nat acc]\<rparr>"
    have "extends s1 (emit_bytes acc bits st)" using 1 True by (subst emit_bytes.simps) (auto simp: s1_def)
    moreover have "extends st s1" using True by (auto simp: extends_def s1_def)
    ultimately show ?thesis by (rule extends_trans [rotated])
  next
    case False
    then show ?thesis by (intro extends_same; subst emit_bytes.simps; auto)
  qed
qed

lemma emit_code_extends: "extends st (emit_code st c)"
  by (simp add: emit_code_def emit_bytes_extends)

lemma grow_extends: "extends st (grow st cur nxt)"
  by (rule extends_same) (simp_all add: grow_def)

lemma count_extends: "extends st (count_input st)"
  by (rule extends_same) simp_all

lemma restart_extends: "extends st (restart st cur nxt)"
proof -
  define s1 where "s1 = emit_code (emit_code (chain_append st cur nxt) nxt) CODE_RESET"
  have "extends st (chain_append st cur nxt)" by (rule extends_same) simp_all
  then have "extends st s1" unfolding s1_def by (intro extends_trans [OF _ emit_code_extends])
  then have "extends st (s1\<lparr>ec_dict_size := 0, ec_width := 9, ec_heads := replicate CHAIN_SLOTS 0, ec_tails := replicate CHAIN_SLOTS 0\<rparr>)"
    by (rule extends_trans) (rule extends_same; simp)
  then show ?thesis unfolding restart_def s1_def [symmetric] by (rule extends_trans [OF _ emit_code_extends])
qed

lemma finish_extends: "extends (fst r) (finish r)"
proof -
  have "extends (fst r) (case snd r of None \<Rightarrow> fst r | Some cur \<Rightarrow> emit_code (fst r) cur)"
    by (cases "snd r") (simp_all add: emit_code_extends extends_same)
  then show ?thesis unfolding finish_def by (intro extends_trans [OF _ emit_code_extends])
qed

lemma comp_loop_cases:
  obtains m where "find_match (count_input st) cur (unat b) = int m"
      "comp_loop st cur (b # inp) = comp_loop (count_input st) (m + CODE_FIRST) inp"
    | "find_match (count_input st) cur (unat b) < 0" "ec_dict_size st + 1 \<noteq> DICT_FULL"
      "comp_loop st cur (b # inp) = comp_loop (grow (emit_code (count_input st) cur) cur (unat b)) (unat b) inp"
    | "find_match (count_input st) cur (unat b) < 0" "ec_dict_size st + 1 = DICT_FULL" "inp = []"
      "comp_loop st cur (b # inp) = (restart (emit_code (count_input st) cur) cur (unat b), None)"
    | c inp' where "find_match (count_input st) cur (unat b) < 0" "ec_dict_size st + 1 = DICT_FULL" "inp = c # inp'"
      "comp_loop st cur (b # inp) = comp_loop (count_input (restart (emit_code (count_input st) cur) cur (unat b))) (unat c) inp'"
proof (cases "find_match (count_input st) cur (unat b) < 0")
  case True
  then show ?thesis
    using that(2-4) comp_loop_grow [OF True, of inp] comp_loop_restart [OF True, of inp]
    by (cases "ec_dict_size st + 1 = DICT_FULL"; cases inp) (simp_all add: Let_def)
next
  case False
  then obtain m where "find_match (count_input st) cur (unat b) = int m" by (metis nonneg_int_cases not_less)
  then show ?thesis using that(1) comp_loop_match by blast
qed

lemma comp_loop_extends: "extends st (finish (comp_loop st cur inp))"
proof (induction "length inp" arbitrary: st cur inp rule: less_induct)
  case less
  show ?case
  proof (cases inp)
    case Nil
    then show ?thesis using finish_extends [of "(st, Some cur)"] by simp
  next
    case (Cons b inp')
    define s1 where "s1 = emit_code (count_input st) cur"
    have s1: "extends st s1" unfolding s1_def by (rule extends_trans [OF count_extends emit_code_extends])
    note g = extends_trans [OF s1 grow_extends [of s1 cur "unat b"]]
      and r = extends_trans [OF s1 restart_extends [of s1 cur "unat b"]]
    show ?thesis
    proof (cases rule: comp_loop_cases [of st cur b inp'])
      case (1 m)
      then show ?thesis
        using extends_trans [OF count_extends less [of inp' "count_input st" "m + CODE_FIRST"]] by (simp add: Cons)
    next
      case 2
      then show ?thesis
        using extends_trans [OF g less [of inp' "grow s1 cur (unat b)" "unat b"]] by (simp add: Cons s1_def)
    next
      case 3
      then show ?thesis
        using extends_trans [OF r finish_extends [of "(restart s1 cur (unat b), None)", simplified]] by (simp add: Cons s1_def)
    next
      case (4 c inp'')
      then show ?thesis
        using extends_trans [OF r extends_trans [OF count_extends less [of inp'' "count_input (restart s1 cur (unat b))" "unat c"]]]
        by (simp add: Cons s1_def)
    qed
  qed
qed

subsection \<open>How much is written\<close>

definition enc_width :: "nat \<Rightarrow> nat" where
  "enc_width n = 9 + of_bool (0x0ff \<le> n) + of_bool (0x2ff \<le> n) + of_bool (0x6ff \<le> n)"

lemma enc_width_bounds: "9 \<le> enc_width n" "enc_width n \<le> 12" "n < 0x0ff \<Longrightarrow> enc_width n = 9"
  by (simp_all add: enc_width_def)

lemma enc_width_Suc: "enc_width (n + 1) = (if n + 1 \<in> WIDEN_ENC then enc_width n + 1 else enc_width n)"
  by (auto simp: enc_width_def WIDEN_ENC_def)

text \<open>The writer's counters, and room for \<open>bits\<close> bits in all.\<close>

definition count_ok :: "encoder_state \<Rightarrow> bool" where
  "count_ok st = (ec_pending_bits st < 8 \<and> \<not> ec_overflowed st)"

definition dict_ok :: "encoder_state \<Rightarrow> bool" where
  "dict_ok st = (ec_dict_size st < DICT_FULL \<and> ec_width st = enc_width (ec_dict_size st))"

definition room :: "encoder_state \<Rightarrow> nat \<Rightarrow> bool" where
  "room st bits = (ec_limit st = 0 \<or> bits < 8 * (ec_limit st + 1))"

lemma emit_code_count:
  assumes "count_ok st" "room st (soff st + ec_width st)"
  shows "count_ok (emit_code st c)" "soff (emit_code st c) = soff st + ec_width st"
proof -
  have "\<not> ec_overflowed (emit_code st c)"
    unfolding emit_code_def
    by (rule emit_bytes_fits) (use assms in \<open>auto simp: count_ok_def room_def soff_def\<close>)
  then show "count_ok (emit_code st c)" "soff (emit_code st c) = soff st + ec_width st"
    using emit_bytes_count [of "push_bit (ec_pending_bits st) c OR ec_pending_byte st" "ec_pending_bits st + ec_width st" st]
    by (simp_all add: count_ok_def emit_code_def soff_def)
qed

lemma room_mono: "room st n \<Longrightarrow> m \<le> n \<Longrightarrow> room st m"
  by (auto simp: room_def)

lemma room_simps [simp]: "room (emit_code st c) n = room st n" "room (count_input st) n = room st n"
  "room (grow st cur nxt) n = room st n" "room (chain_append st cur nxt) n = room st n"
  "room (restart st cur nxt) n = room st n"
  by (simp_all add: room_def grow_def restart_def)

lemma grow_count:
  assumes "count_ok st" "dict_ok st" "ec_dict_size st + 1 \<noteq> DICT_FULL"
  shows "count_ok (grow st cur nxt)" "dict_ok (grow st cur nxt)" "soff (grow st cur nxt) = soff st"
    "ec_dict_size (grow st cur nxt) = ec_dict_size st + 1"
  using assms enc_width_Suc [of "ec_dict_size st"] by (auto simp: count_ok_def dict_ok_def grow_def soff_def)

lemma restart_count:
  assumes "count_ok st" "room st (soff st + ec_width st + ec_width st + 9)"
  shows "count_ok (restart st cur nxt)" "dict_ok (restart st cur nxt)"
    "soff (restart st cur nxt) = soff st + ec_width st + ec_width st + 9" "ec_dict_size (restart st cur nxt) = 0"
proof -
  define s1 where "s1 = emit_code (emit_code (chain_append st cur nxt) nxt) CODE_RESET"
  define s2 where "s2 = s1\<lparr>ec_dict_size := 0, ec_width := 9, ec_heads := replicate CHAIN_SLOTS 0, ec_tails := replicate CHAIN_SLOTS 0\<rparr>"
  have c0: "count_ok (chain_append st cur nxt)" "soff (chain_append st cur nxt) = soff st"
    using assms(1) by (simp_all add: count_ok_def soff_def)
  have c1: "count_ok (emit_code (chain_append st cur nxt) nxt)"
    "soff (emit_code (chain_append st cur nxt) nxt) = soff st + ec_width st"
    using emit_code_count [OF c0(1), of nxt] room_mono [OF assms(2)] c0(2) by simp_all
  have c2: "count_ok s1" "soff s1 = soff st + ec_width st + ec_width st" "ec_limit s1 = ec_limit st"
    using emit_code_count [OF c1(1), of CODE_RESET] room_mono [OF assms(2)] c1(2) by (simp_all add: s1_def)
  have c3: "count_ok s2" "soff s2 = soff s1" "ec_width s2 = 9" "room s2 (soff s2 + 9)" "ec_dict_size s2 = 0"
    using c2 assms(2) by (simp_all add: count_ok_def s2_def soff_def room_def)
  have e: "restart st cur nxt = emit_code s2 CODE_RESET" by (simp add: restart_def s1_def s2_def)
  show "count_ok (restart st cur nxt)" "dict_ok (restart st cur nxt)"
    "soff (restart st cur nxt) = soff st + ec_width st + ec_width st + 9" "ec_dict_size (restart st cur nxt) = 0"
    using emit_code_count [OF c3(1), of CODE_RESET] c3 c2
    by (simp_all add: e dict_ok_def enc_width_def DICT_FULL_def)
qed

lemma finish_count:
  assumes "count_ok (fst r)" "room (fst r) (soff (fst r) + k * ec_width (fst r))" "k = (if snd r = None then 2 else 3)"
  shows "count_ok (finish r)" "soff (finish r) = soff (fst r) + k * ec_width (fst r)"
proof -
  define s1 where "s1 = (case snd r of None \<Rightarrow> fst r | Some cur \<Rightarrow> emit_code (fst r) cur)"
  have c1: "count_ok s1" "soff s1 = soff (fst r) + (k - 2) * ec_width (fst r)" "ec_width s1 = ec_width (fst r)"
    "\<And>n. room s1 n = room (fst r) n"
    using emit_code_count [OF assms(1)] room_mono [OF assms(2)] assms(1,3) by (auto simp: s1_def split: option.split)
  have k: "soff s1 + 2 * ec_width s1 = soff (fst r) + k * ec_width (fst r)" using assms(3) c1 by simp
  have r: "room s1 (soff s1 + 2 * ec_width s1)" using assms(2) unfolding k c1(4) .
  have c2: "count_ok (emit_code s1 CODE_END)" "soff (emit_code s1 CODE_END) = soff s1 + ec_width s1"
    using emit_code_count [OF c1(1), of CODE_END] room_mono [OF r] by simp_all
  have e: "finish r = emit_code (emit_code s1 CODE_END) 0" by (simp add: finish_def s1_def)
  show "count_ok (finish r)" "soff (finish r) = soff (fst r) + k * ec_width (fst r)"
    using emit_code_count [OF c2(1), of 0] room_mono [OF r] c2 k by (simp_all add: e)
qed

lemma ok_simps [simp]: "count_ok (count_input st) = count_ok st" "dict_ok (count_input st) = dict_ok st"
  "dict_ok (emit_code st c) = dict_ok st"
  by (simp_all add: count_ok_def dict_ok_def)

text \<open>The bits that are still to come: 12 for each input byte and three codes at the end.  A reset costs 21 bits more
  than its two input bytes, which the seven narrow codes after the previous one have saved.\<close>

definition to_come :: "nat \<Rightarrow> nat \<Rightarrow> nat" where
  "to_come n len = 12 * len + 36 + 3 * min n 7"

lemma comp_loop_bits:
  assumes "count_ok st" "dict_ok st" "room st (soff st + to_come (ec_dict_size st) (length inp))"
  shows "count_ok (finish (comp_loop st cur inp)) \<and>
    soff (finish (comp_loop st cur inp)) \<le> soff st + to_come (ec_dict_size st) (length inp)"
  using assms
proof (induction "length inp" arbitrary: st cur inp rule: less_induct)
  case less
  note p = less.prems
  have w: "ec_width st \<le> 12" using p(2) enc_width_bounds by (simp add: dict_ok_def)
  show ?case
  proof (cases inp)
    case Nil
    show ?thesis
      using finish_count [of "(st, Some cur)" 3] p room_mono [OF p(3)] w by (simp add: Nil to_come_def)
  next
    case (Cons b inp')
    define st1 where "st1 = emit_code (count_input st) cur"
    have s1: "count_ok st1" "soff st1 = soff st + ec_width st" "dict_ok st1" "ec_dict_size st1 = ec_dict_size st"
      "ec_width st1 = ec_width st" "\<And>n. room st1 n = room st n"
      using emit_code_count [of "count_input st" cur] p(1,2) room_mono [OF p(3)] w
      by (simp_all add: st1_def Cons to_come_def)
    define st2 where "st2 = restart st1 cur (unat b)"
    have st2: "count_ok st2" "dict_ok st2" "soff st2 = soff st1 + ec_width st1 + ec_width st1 + 9" "ec_dict_size st2 = 0"
      "ec_width st2 = 9" if n: "7 \<le> ec_dict_size st"
    proof -
      have "room st1 (soff st1 + ec_width st1 + ec_width st1 + 9)"
        using room_mono [OF p(3)] n w s1 by (simp add: to_come_def Cons)
      from restart_count [OF s1(1) this, of cur "unat b", folded st2_def]
      show "count_ok st2" "dict_ok st2" "soff st2 = soff st1 + ec_width st1 + ec_width st1 + 9" "ec_dict_size st2 = 0"
        "ec_width st2 = 9" by (simp_all add: dict_ok_def enc_width_def)
    qed
    show ?thesis
    proof (cases rule: comp_loop_cases [of st cur b inp'])
      case (1 m)
      show ?thesis
        using less.hyps [of inp' "count_input st" "m + CODE_FIRST"] p room_mono [OF p(3)]
        by (auto simp: Cons 1(2) to_come_def)
    next
      case 2
      define st3 where "st3 = grow st1 cur (unat b)"
      have g: "count_ok st3" "dict_ok st3" "soff st3 = soff st + ec_width st" "ec_dict_size st3 = ec_dict_size st + 1"
        using grow_count [OF s1(1,3)] 2(2) s1 by (simp_all add: st3_def)
      have n: "ec_dict_size st < 7 \<Longrightarrow> ec_width st = 9"
        using p(2) enc_width_bounds(3) by (simp add: dict_ok_def)
      have l: "soff st3 + to_come (ec_dict_size st3) (length inp') \<le> soff st + to_come (ec_dict_size st) (length inp)"
        using w n by (cases "ec_dict_size st < 7") (simp_all add: g to_come_def Cons min_def)
      have "room st3 (soff st3 + to_come (ec_dict_size st3) (length inp'))"
        using room_mono [OF p(3) l] s1(6) by (simp add: st3_def)
      then show ?thesis
        using less.hyps [of inp' st3 "unat b"] g l by (simp add: Cons 2(3) st3_def st1_def)
    next
      case 3
      have n: "7 \<le> ec_dict_size st" using 3(2) by (simp add: DICT_FULL_def)
      have l: "soff st2 + 2 * ec_width st2 \<le> soff st + to_come (ec_dict_size st) (length inp)"
        using n w st2 [OF n] s1(2,5) by (simp add: Cons 3(3) to_come_def)
      have "room st2 (soff st2 + 2 * ec_width st2)" using room_mono [OF p(3) l] s1(6) by (simp add: st2_def)
      then show ?thesis
        using finish_count [of "(st2, None)" 2] st2 [OF n] l by (simp add: Cons 3(3) 3(4) [unfolded 3(3)] st2_def st1_def)
    next
      case (4 c inp'')
      have n: "7 \<le> ec_dict_size st" using 4(2) by (simp add: DICT_FULL_def)
      have l: "soff st2 + to_come (ec_dict_size st2) (length inp'') \<le> soff st + to_come (ec_dict_size st) (length inp)"
        using n w st2 [OF n] s1 by (simp add: Cons 4(3) to_come_def)
      have "room st2 (soff st2 + to_come (ec_dict_size st2) (length inp''))"
        using room_mono [OF p(3) l] s1(6) by (simp add: st2_def)
      then show ?thesis
        using less.hyps [of inp'' "count_input st2" "unat c"] st2 [OF n] l
        by (simp add: Cons 4(3) 4(4) [unfolded 4(3)] st2_def st1_def)
    qed
  qed
qed

lemma unat_compressed_bound:
  assumes "3 * n + 1 < 2 ^ 32"
  shows "unat (compressed_bound (of_nat n)) = 12 + (3 * n + 1) div 2 + 8"
proof -
  have "(of_nat n * 3 + 1 :: u32) = of_nat (3 * n + 1)" by (simp add: mult.commute)
  moreover have "unat (of_nat (3 * n + 1) :: u32) = 3 * n + 1" using assms by (rule unat_of_nat_u32)
  ultimately have "unat (of_nat n * 3 + 1 :: u32) = 3 * n + 1" by (simp only:)
  then have d: "unat ((of_nat n * 3 + 1) div 2 :: u32) = (3 * n + 1) div 2" by (simp only: unat_div_distrib) simp
  then have "(of_nat n * 3 + 1) div 2 = (of_nat ((3 * n + 1) div 2) :: u32)"
    unfolding d [symmetric] of_nat_unat by (simp only: ucast_id)
  then have "compressed_bound (of_nat n) = of_nat (12 + (3 * n + 1) div 2 + 8)"
    by (simp add: compressed_bound_def PAYLOAD_HEADER_def)
  moreover have "unat (of_nat (12 + (3 * n + 1) div 2 + 8) :: u32) = 12 + (3 * n + 1) div 2 + 8"
    by (rule unat_of_nat_u32) (use assms in simp)
  ultimately show ?thesis by (simp only:)
qed

lemma final_count:
  assumes "limit = 0 \<or> 12 + (3 * length (b # inp) + 1) div 2 + 8 \<le> limit"
  shows "\<not> ec_overflowed (final st b inp limit)" "soff (final st b inp limit) \<le> 96 + 12 * length (b # inp) + 33"
    "12 < length (ec_out (final st b inp limit))"
proof -
  define s0 where "s0 = start st (b # inp) limit"
  define s1 where "s1 = count_input (emit_code s0 CODE_RESET)"
  have s0: "count_ok s0" "dict_ok s0" "soff s0 = 96" "ec_width s0 = 9" "ec_dict_size s0 = 0"
    by (simp_all add: s0_def start_def count_ok_def dict_ok_def soff_def enc_width_def DICT_FULL_def)
  have r: "room s0 (96 + 12 * length (b # inp) + 33)"
    using assms by (auto simp: room_def s0_def start_def)
  have s1: "count_ok s1" "soff s1 = 105" "dict_ok s1" "ec_dict_size s1 = 0" "\<And>n. room s1 n = room s0 n"
    using emit_code_count [OF s0(1), of CODE_RESET] s0 room_mono [OF r] by (simp_all add: s1_def)
  have l: "soff s1 + to_come (ec_dict_size s1) (length inp) = 96 + 12 * length (b # inp) + 33"
    using s1 by (simp add: to_come_def)
  have "count_ok (finish (comp_loop s1 (unat b) inp)) \<and>
    soff (finish (comp_loop s1 (unat b) inp)) \<le> 96 + 12 * length (b # inp) + 33"
    using comp_loop_bits [OF s1(1,3), of inp "unat b"] r s1(5) unfolding l by blast
  then show "\<not> ec_overflowed (final st b inp limit)" "soff (final st b inp limit) \<le> 96 + 12 * length (b # inp) + 33"
    by (simp_all add: count_ok_def final_def s0_def s1_def)
  have "12 < length (ec_out s1)" using s1(1,2) by (simp add: soff_def count_ok_def)
  then show "12 < length (ec_out (final st b inp limit))"
    using comp_loop_extends [of s1 "unat b" inp] prefix_length_le [of "ec_out s1"]
    by (fastforce simp: final_def s0_def s1_def extends_def)
qed

text \<open>C27. The output buffer that \<open>compressed_bound\<close> asks for is always enough, so the compressor never refuses a
  non-empty input that fits its 32-bit sizes: with that limit, or with none, it returns the number of bytes it wrote,
  and that number is within the bound.  The three reset codes of a full dictionary and the flush of the last byte are
  paid for by the narrow codes that follow each reset.\<close>

theorem compressed_bound_suffices:
  assumes "src \<noteq> []" "3 * length src + 1 < 2 ^ 32"
    "limit = 0 \<or> unat (compressed_bound (of_nat (length src))) \<le> limit"
  shows "\<exists>st'. compress st src limit = (of_nat (length (ec_out st')), st') \<and> PAYLOAD_HEADER < length (ec_out st') \<and>
    length (ec_out st') \<le> unat (compressed_bound (of_nat (length src)))"
proof -
  obtain b inp where src: "src = b # inp" using assms(1) by (cases src) auto
  note ub = unat_compressed_bound [OF assms(2)]
  have l: "limit = 0 \<or> 12 + (3 * length (b # inp) + 1) div 2 + 8 \<le> limit"
    using assms(3) unfolding ub unfolding src .
  define st1 where "st1 = final st b inp limit"
  note f = final_count [OF l, of st, folded st1_def]
  define st' where "st' = st1\<lparr>ec_out := memcpy_at (ec_out st1) 8 (put_u32 (of_nat (length (ec_out st1))))\<rparr>"
  have h: "12 < length (ec_out st1)" by (rule f(3))
  then have len: "length (ec_out st') = length (ec_out st1)" by (simp add: st'_def)
  have "compress st src limit = (of_nat (length (ec_out st')), st')"
    using compress_eq [of limit st b inp] l f(1) len
    by (auto simp: src Let_def st1_def [symmetric] st'_def [symmetric] PAYLOAD_HEADER_def)
  moreover have "8 * length (ec_out st1) \<le> 96 + 12 * length src + 33" using f(2) by (simp add: soff_def src)
  then have "length (ec_out st') \<le> 12 + (3 * length src + 1) div 2 + 8" unfolding len by linarith
  ultimately show ?thesis unfolding ub using h len by (auto simp: PAYLOAD_HEADER_def)
qed

theorem compressed_bound_suffices_witness:
  "\<exists>st'. compress \<lparr>ec_nodes = [], ec_heads = [], ec_tails = [], ec_dict_size = 3, ec_width = 11, ec_pending_bits = 5,
      ec_pending_byte = 1, ec_input_counter = 9, ec_out = [], ec_limit = 0, ec_overflowed = True\<rparr> [65, 66, 65, 66] 26 =
      (of_nat (length (ec_out st')), st') \<and> length (ec_out st') \<le> 26"
proof -
  have b: "unat (compressed_bound (of_nat (length [65, 66, 65, 66 :: u8]))) = 26"
    by (simp add: compressed_bound_def PAYLOAD_HEADER_def)
  show ?thesis using compressed_bound_suffices [of "[65, 66, 65, 66]" 26, unfolded b] by auto
qed

end
