(* ===== verification/Lzw.thy ===== *)
theory Lzw
  imports Lzw_Encoder
begin

text \<open>
  The two halves of \<open>mh_dll/mh_common/lzw.cpp\<close> against each other.  A dictionary is the list of its (prefix,
  character) entries, and a code stands for the string of its chain.  The decoder's dictionary is always the
  encoder's without its last entry, which the next code completes; the widths of the two halves differ by the same
  entry, so they read and write codes of the same length.  The main theorem is the round trip of a whole block.
\<close>

subsection \<open>Dictionaries and their strings\<close>

definition code_ok :: "nat \<Rightarrow> nat \<Rightarrow> bool" where
  "code_ok n c = (c < 256 \<or> CODE_FIRST \<le> c \<and> c < CODE_FIRST + n)"

definition dict_wf :: "(nat \<times> nat) list \<Rightarrow> bool" where
  "dict_wf D = (\<forall>i < length D. code_ok i (fst (D ! i)) \<and> snd (D ! i) < 256)"

function expand :: "(nat \<times> nat) list \<Rightarrow> nat \<Rightarrow> bytes" where
  "expand D c = (if c < CODE_FIRST \<or> c \<le> fst (D ! (c - CODE_FIRST)) then [of_nat c]
     else expand D (fst (D ! (c - CODE_FIRST))) @ [of_nat (snd (D ! (c - CODE_FIRST)))])"
  by pat_completeness auto
termination
  by (relation "measure (\<lambda>(_, c). c)") auto

declare expand.simps [simp del]

definition root :: "(nat \<times> nat) list \<Rightarrow> nat \<Rightarrow> nat" where
  "root D c = unat (hd (expand D c))"

lemma code_ok_mono: "code_ok n c \<Longrightarrow> n \<le> m \<Longrightarrow> code_ok m c"
  by (auto simp: code_ok_def)

lemma code_ok_lit [simp]: "c < 256 \<Longrightarrow> code_ok n c"
  by (simp add: code_ok_def)

lemma expand_lit [simp]: "c < 256 \<Longrightarrow> expand D c = [of_nat c]"
  by (simp add: expand.simps [of D c] CODE_FIRST_def)

lemma expand_nonempty [simp]: "expand D c \<noteq> []"
  by (subst expand.simps) simp

lemma root_lit [simp]: "c < 256 \<Longrightarrow> root D c = c"
  by (simp add: root_def unat_of_nat_u8)

lemma root_less: "root D c < 256"
  by (simp add: root_def unat_u8)

lemma dict_wfD:
  assumes "dict_wf D" "code_ok (length D) c" "\<not> c < 256"
  obtains i where "c = i + CODE_FIRST" "i < length D" "code_ok i (fst (D ! i))" "fst (D ! i) < c" "snd (D ! i) < 256"
proof -
  have i: "c = (c - CODE_FIRST) + CODE_FIRST" "c - CODE_FIRST < length D"
    using assms(2,3) by (auto simp: code_ok_def)
  with assms(1) have w: "code_ok (c - CODE_FIRST) (fst (D ! (c - CODE_FIRST)))" "snd (D ! (c - CODE_FIRST)) < 256"
    by (auto simp: dict_wf_def)
  have "fst (D ! (c - CODE_FIRST)) < c" using w(1) i by (auto simp: code_ok_def CODE_FIRST_def)
  then show ?thesis using that i w by blast
qed

lemma expand_entry:
  assumes "dict_wf D" "i < length D"
  shows "expand D (i + CODE_FIRST) = expand D (fst (D ! i)) @ [of_nat (snd (D ! i))]"
proof -
  have "fst (D ! i) < i + CODE_FIRST" using assms by (auto simp: dict_wf_def code_ok_def CODE_FIRST_def)
  then show ?thesis by (subst expand.simps) simp
qed

lemma root_entry:
  assumes "dict_wf D" "i < length D"
  shows "root D (i + CODE_FIRST) = root D (fst (D ! i))"
  by (simp add: root_def expand_entry [OF assms])

lemma dict_wf_snoc: "dict_wf (D @ [e]) = (dict_wf D \<and> code_ok (length D) (fst e) \<and> snd e < 256)"
  by (auto simp: dict_wf_def nth_append less_Suc_eq)

lemma expand_snoc: "dict_wf D \<Longrightarrow> code_ok (length D) c \<Longrightarrow> expand (D @ [e]) c = expand D c"
proof (induction c rule: less_induct)
  case (less c)
  show ?case
  proof (cases "c < 256")
    case False
    obtain i where i: "c = i + CODE_FIRST" "i < length D" "code_ok i (fst (D ! i))" "fst (D ! i) < c"
      using dict_wfD [OF less.prems False] by metis
    have n: "(D @ [e]) ! i = D ! i" using i(2) by (simp add: nth_append)
    have "expand (D @ [e]) c = expand (D @ [e]) (fst (D ! i)) @ [of_nat (snd (D ! i))]"
      using i(4) by (subst expand.simps) (simp add: i(1) n)
    also have "\<dots> = expand D c"
      using less.IH [OF i(4) less.prems(1)] code_ok_mono [OF i(3)] i(2) expand_entry [OF less.prems(1) i(2)] by (simp add: i(1))
    finally show ?thesis .
  qed simp
qed

lemma root_snoc: "dict_wf D \<Longrightarrow> code_ok (length D) c \<Longrightarrow> root (D @ [e]) c = root D c"
  by (simp add: root_def expand_snoc)

lemma length_expand: "dict_wf D \<Longrightarrow> n \<le> length D \<Longrightarrow> code_ok n c \<Longrightarrow> length (expand D c) \<le> n + 1"
proof (induction n arbitrary: c rule: less_induct)
  case (less n)
  show ?case
  proof (cases "c < 256")
    case False
    then have c: "c = (c - CODE_FIRST) + CODE_FIRST" "c - CODE_FIRST < n" using less.prems(3) by (auto simp: code_ok_def)
    then have i: "c - CODE_FIRST < length D" using less.prems(2) by simp
    then have "code_ok (c - CODE_FIRST) (fst (D ! (c - CODE_FIRST)))" using less.prems(1) by (simp add: dict_wf_def)
    from less.IH [OF c(2) less.prems(1) _ this] i
    show ?thesis using expand_entry [OF less.prems(1) i] c by simp
  qed simp
qed

subsection \<open>The decoder's walks\<close>

definition ddict :: "decoder_state \<Rightarrow> (nat \<times> nat) list" where
  "ddict d = map (\<lambda>x. (dn_prefix x, dn_ch x)) (take (dc_dict_size d) (dc_nodes d))"

definition holds :: "decoder_node list \<Rightarrow> (nat \<times> nat) list \<Rightarrow> bool" where
  "holds nodes D = (\<forall>i < length D. dn_prefix (nodes ! i) = fst (D ! i) \<and> dn_ch (nodes ! i) = snd (D ! i))"

lemma holds_ddict: "dec_ok d \<Longrightarrow> holds (dc_nodes d) (ddict d)"
  using dec_okD [of d] by (auto simp: holds_def ddict_def)

lemma length_ddict: "dec_ok d \<Longrightarrow> length (ddict d) = dc_dict_size d"
  using dec_okD [of d] by (auto simp: ddict_def)

lemma chain_len_spec:
  assumes "holds nodes D" "dict_wf D"
  shows "code_ok (length D) c \<Longrightarrow> \<not> c < 256 \<Longrightarrow> k + length (expand D c) \<le> DICT_NODES + 1 \<Longrightarrow>
    chain_len nodes c k = (root D c, k + length (expand D c) - 1)"
proof (induction c arbitrary: k rule: less_induct)
  case (less c)
  obtain i where i: "c = i + CODE_FIRST" "i < length D" "code_ok i (fst (D ! i))" "fst (D ! i) < c"
    using dict_wfD [OF assms(2) less.prems(1,2)] by metis
  have n: "dn_prefix (nodes ! i) = fst (D ! i)" using assms(1) i(2) by (simp add: holds_def)
  note e = expand_entry [OF assms(2) i(2)] root_entry [OF assms(2) i(2)]
  show ?case
  proof (cases "fst (D ! i) < 256")
    case True
    then have "\<not> fst (D ! i) > CODE_END" by (simp add: CODE_END_def)
    then show ?thesis using True i(1) e n by (subst chain_len.simps) (simp add: Let_def)
  next
    case False
    then have g: "fst (D ! i) > CODE_END" using i(3) by (auto simp: code_ok_def CODE_END_def CODE_FIRST_def)
    have k: "k + 1 \<le> DICT_NODES" "k + 1 + length (expand D (fst (D ! i))) \<le> DICT_NODES + 1"
      using less.prems(3) i(1) e(1) length_greater_0_conv [of "expand D (fst (D ! i))"]
      by (auto simp del: length_greater_0_conv)
    have "chain_len nodes c k = chain_len nodes (fst (D ! i)) (k + 1)"
      using g k(1) n i(1) by (subst chain_len.simps) (simp add: Let_def)
    also have "\<dots> = (root D (fst (D ! i)), k + 1 + length (expand D (fst (D ! i))) - 1)"
      using less.IH [OF i(4) code_ok_mono [OF i(3)] False k(2)] i(2) by simp
    finally show ?thesis using e i(1) by simp
  qed
qed

lemma write_chain_spec:
  assumes "holds nodes D" "dict_wf D"
  shows "code_ok (length D) c \<Longrightarrow> length (expand D c) = Suc i \<Longrightarrow> Suc i \<le> length region \<Longrightarrow>
    write_chain nodes c i region = (root D c, take 1 region @ tl (expand D c) @ drop (Suc i) region)"
proof (induction i arbitrary: c region)
  case 0
  have "c < 256"
  proof (rule ccontr)
    assume f: "\<not> c < 256"
    obtain i where "c = i + CODE_FIRST" "i < length D" using dict_wfD [OF assms(2) 0(1) f] by metis
    then show False using 0(2) expand_entry [OF assms(2), of i] by simp
  qed
  then show ?case using 0(3) by (cases region) simp_all
next
  case (Suc i)
  have f: "\<not> c < 256" using Suc.prems(2) by auto
  obtain j where j: "c = j + CODE_FIRST" "j < length D" "code_ok j (fst (D ! j))"
    using dict_wfD [OF assms(2) Suc.prems(1) f] by metis
  note e = expand_entry [OF assms(2) j(2)] root_entry [OF assms(2) j(2)]
  have n: "dn_prefix (nodes ! j) = fst (D ! j)" "dn_ch (nodes ! j) = snd (D ! j)" using assms(1) j(2) by (simp_all add: holds_def)
  have g: "c > CODE_END" by (simp add: j(1) CODE_END_def CODE_FIRST_def)
  have l: "length (expand D (fst (D ! j))) = Suc i" using Suc.prems(2) e(1) j(1) by simp
  define region' where "region' = region[Suc i := of_nat (snd (D ! j))]"
  have "write_chain nodes c (Suc i) region = write_chain nodes (fst (D ! j)) i region'"
    using g n j(1) by (simp add: region'_def)
  also have "\<dots> = (root D (fst (D ! j)), take 1 region' @ tl (expand D (fst (D ! j))) @ drop (Suc i) region')"
    using Suc.IH [OF code_ok_mono [OF j(3)] l, of region'] j(2) Suc.prems(3) by (simp add: region'_def)
  also have "drop (Suc i) region' = of_nat (snd (D ! j)) # drop (Suc (Suc i)) region"
    using Suc.prems(3) by (simp add: region'_def drop_update_swap Cons_nth_drop_Suc [symmetric])
  also have "take 1 region' = take 1 region" by (simp add: region'_def)
  finally show ?case using e j(1) by simp
qed

lemma root_of_spec:
  assumes "holds nodes D" "dict_wf D"
  shows "code_ok (length D) c \<Longrightarrow> k + length (expand D c) \<le> DICT_NODES + 2 \<Longrightarrow>
    root_of nodes (length D + CODE_FIRST) prev c k = Some (root D c)"
proof (induction c arbitrary: k rule: less_induct)
  case (less c)
  show ?case
  proof (cases "c < 256")
    case True
    then show ?thesis by (subst root_of.simps) (simp add: CODE_FIRST_def)
  next
    case False
    obtain i where i: "c = i + CODE_FIRST" "i < length D" "code_ok i (fst (D ! i))" "fst (D ! i) < c"
      using dict_wfD [OF assms(2) less.prems(1) False] by metis
    have n: "dn_prefix (nodes ! i) = fst (D ! i)" using assms(1) i(2) by (simp add: holds_def)
    note e = expand_entry [OF assms(2) i(2)] root_entry [OF assms(2) i(2)]
    have k: "k \<le> DICT_NODES" "k + 1 + length (expand D (fst (D ! i))) \<le> DICT_NODES + 2"
      using less.prems(2) i(1) e(1) by (cases "expand D (fst (D ! i))"; simp)+
    have "root_of nodes (length D + CODE_FIRST) prev c k = root_of nodes (length D + CODE_FIRST) prev (fst (D ! i)) (k + 1)"
      using k(1) i(1,2) n by (subst root_of.simps) simp
    then show ?thesis
      using less.IH [OF i(4) code_ok_mono [OF i(3)] k(2)] i(1,2) e(2) by simp
  qed
qed

text \<open>A code that the decoder has received: it may be the entry that it is about to learn.\<close>

lemma root_of_new:
  assumes h: "holds nodes D" "dict_wf D" and n: "length D < DICT_NODES" and p: "code_ok (length D) prev"
    and c: "code_ok (length D + 1) cur" and r: "ch = root (D @ [(prev, ch)]) cur"
  shows "root_of nodes (length D + CODE_FIRST) prev cur 0 = Some ch"
proof (cases "cur = length D + CODE_FIRST")
  case True
  have "ch < 256" by (subst r) (rule root_less)
  then have w: "dict_wf (D @ [(prev, ch)])" using h p by (simp add: dict_wf_snoc)
  have "root (D @ [(prev, ch)]) cur = root D prev"
    using root_entry [OF w, of "length D"] root_snoc [OF h(2) p, of "(prev, ch)"] by (simp add: True)
  with r have "ch = root D prev" by (rule trans)
  moreover have "root_of nodes (length D + CODE_FIRST) prev cur 0 = root_of nodes (length D + CODE_FIRST) prev prev 1"
    by (subst root_of.simps) (simp add: True)
  moreover have "root_of nodes (length D + CODE_FIRST) prev prev 1 = Some (root D prev)"
    using root_of_spec [OF h p, of 1 prev] length_expand [OF h(2) order_refl p] n by simp
  ultimately show ?thesis by simp
next
  case False
  then have c': "code_ok (length D) cur" using c by (auto simp: code_ok_def)
  have "ch = root D cur" by (rule trans [OF r root_snoc [OF h(2) c']])
  then show ?thesis
    using root_of_spec [OF h c', of 0 prev] length_expand [OF h(2) order_refl c'] n by simp
qed

lemma update_dict_spec:
  assumes ok: "dec_ok d" and w: "dict_wf (ddict d)" and n: "dc_dict_size d < DICT_NODES"
    and p: "code_ok (dc_dict_size d) prev" and c: "code_ok (dc_dict_size d + 1) cur"
    and r: "ch = root (ddict d @ [(prev, ch)]) cur"
  shows "ddict (update_dict d prev cur) = ddict d @ [(prev, ch)]" "dc_dict_size (update_dict d prev cur) = dc_dict_size d + 1"
proof -
  note l = length_ddict [OF ok]
  have ro: "root_of (dc_nodes d) (dc_dict_size d + CODE_FIRST) prev cur 0 = Some ch"
    using root_of_new [OF holds_ddict [OF ok] w _ _ _ r] n p c by (simp add: l)
  have t: "take (Suc m) (xs[m := x]) = take m xs @ [x]" if "m < length xs" for m x and xs :: "decoder_node list"
    using that by (simp add: take_Suc_conv_app_nth)
  show "ddict (update_dict d prev cur) = ddict d @ [(prev, ch)]" "dc_dict_size (update_dict d prev cur) = dc_dict_size d + 1"
    using n t [of "dc_dict_size d" "dc_nodes d"] dec_okD(1) [OF ok] by (simp_all add: update_dict_def ro Let_def ddict_def)
qed

lemma handle_code_spec:
  assumes ok: "dec_ok d" and w: "dict_wf (ddict d)" and n: "dc_dict_size d < DICT_NODES" and c: "code_ok (dc_dict_size d) c"
    and l: "limit = 0 \<or> length out + length (expand (ddict d) c) \<le> limit"
  shows "handle_code d c out limit = (True, out @ expand (ddict d) c)"
proof (cases "c < 256")
  case True
  then show ?thesis using l by (auto simp: handle_code_def CODE_FIRST_def)
next
  case False
  let ?D = "ddict d"
  note h = holds_ddict [OF ok] and len = length_ddict [OF ok]
  have c': "code_ok (length ?D) c" using c len by simp
  have g: "\<not> c < CODE_FIRST" using False c by (auto simp: code_ok_def)
  obtain m where m: "length (expand ?D c) = Suc m" by (cases "expand ?D c") auto
  have cl: "chain_len (dc_nodes d) c 0 = (root ?D c, m)"
    using chain_len_spec [OF h w c' False, of 0] length_expand [OF w order_refl c'] n len m by simp
  have "write_chain (dc_nodes d) c m (replicate (Suc m) 0) = (root ?D c, 0 # tl (expand ?D c))"
    using write_chain_spec [OF h w c' m, of "replicate (Suc m) 0"] by simp
  then have wc: "write_chain (dc_nodes d) c m (replicate (m + 1) 0) = (root ?D c, 0 # tl (expand ?D c))" by simp
  have r: "\<not> root ?D c > CODE_END" using root_less [of ?D c] by (simp add: CODE_END_def)
  have "of_nat (root ?D c) = hd (expand ?D c)" by (simp add: root_def)
  then have "(0 # tl (expand ?D c))[0 := of_nat (root ?D c)] = expand ?D c" by simp
  then show ?thesis using l r g unfolding handle_code_def cl prod.case wc by (auto simp: m)
qed

subsection \<open>One code, as the decoder sees it\<close>

text \<open>\<open>at d pos\<close> is the decoder's place in the stream, in bits; what lies behind it is a number too.\<close>

definition at :: "decoder_state \<Rightarrow> nat \<Rightarrow> nat" where
  "at d pos = 8 * pos + dc_shift d"

lemma read_code_value:
  assumes ok: "dec_ok d" and F: "drop_bit (at d pos) (le_nat p) = c + 2 ^ dc_bit_count d * K"
    and c: "c < 2 ^ dc_bit_count d" and nz: "0 < c + 2 ^ dc_bit_count d * K"
  obtains pos' s where "pos < length p" "s < 8" "pos < pos'" "8 * pos' + s = at d pos + dc_bit_count d"
    "drop_bit (8 * pos' + s) (le_nat p) = K"
    "read_code d p pos (length p) counter =
       (if c = CODE_RESET then
          (if counter - 1 = 0 then (Exhausted, c, d\<lparr>dc_shift := s\<rparr>, pos', counter - 1)
           else (Restart, c, d\<lparr>dc_shift := s, dc_dict_size := 0, dc_bit_count := 9, dc_mask := 0x1ff\<rparr>, pos', counter - 1))
        else if c = CODE_END then (EndOfStream, c, d\<lparr>dc_shift := s\<rparr>, pos', counter)
        else (Code, c, d\<lparr>dc_shift := s\<rparr>, pos', counter))"
proof -
  note k = dec_okD [OF ok]
  have pos: "pos < length p"
  proof (rule ccontr)
    assume "\<not> pos < length p"
    then have "le_nat p < 2 ^ at d pos"
      by (intro less_le_trans [OF le_nat_less]) (simp add: at_def power_increasing)
    then show False using F nz by (simp add: drop_bit_eq_div)
  qed
  have "take_bit (dc_bit_count d) (drop_bit (dc_shift d) (load_bits p pos (length p)))
     = take_bit (dc_bit_count d) (drop_bit (at d pos) (le_nat p))"
    by (rule bit_eqI) (use k in \<open>auto simp: load_bits_value bit_take_bit_iff bit_drop_bit_eq at_def ac_simps\<close>)
  also have "\<dots> = c" unfolding F using c by (simp add: take_bit_eq_mod)
  finally have t: "take_bit (dc_bit_count d) (drop_bit (dc_shift d) (load_bits p pos (length p))) = c" .
  obtain pos' s where r: "s < 8" "pos < pos'" "8 * pos' + s = 8 * pos + dc_shift d + dc_bit_count d"
    "read_code d p pos (length p) counter =
       (let c = take_bit (dc_bit_count d) (drop_bit (dc_shift d) (load_bits p pos (length p))) in
        if c = CODE_RESET then
          (if counter - 1 = 0 then (Exhausted, c, d\<lparr>dc_shift := s\<rparr>, pos', counter - 1)
           else (Restart, c, d\<lparr>dc_shift := s, dc_dict_size := 0, dc_bit_count := 9, dc_mask := 0x1ff\<rparr>, pos', counter - 1))
        else if c = CODE_END then (EndOfStream, c, d\<lparr>dc_shift := s\<rparr>, pos', counter)
        else (Code, c, d\<lparr>dc_shift := s\<rparr>, pos', counter))"
    by (rule read_code_step [OF ok pos])
  have e: "8 * pos' + s = at d pos + dc_bit_count d" using r(3) by (simp add: at_def)
  have "drop_bit (at d pos + dc_bit_count d) (le_nat p) = drop_bit (dc_bit_count d) (drop_bit (at d pos) (le_nat p))"
    by (simp add: add.commute)
  also have "\<dots> = K" unfolding F using c by (simp add: drop_bit_eq_div)
  finally have d: "drop_bit (8 * pos' + s) (le_nat p) = K" unfolding e .
  show ?thesis by (rule that [OF pos r(1,2) e d]) (use r(4) in \<open>simp only: t Let_def\<close>)
qed

text \<open>The decoder that is about to read \<open>cur\<close>, against the dictionary that the encoder holds when it writes it.\<close>

definition sync :: "(nat \<times> nat) list \<Rightarrow> nat \<Rightarrow> decoder_state \<Rightarrow> nat option \<Rightarrow> bool" where
  "sync D cur d prev = (dec_ok d \<and> dict_wf D \<and> code_ok (length D) cur \<and> length D \<le> DICT_FULL \<and> ddict d = butlast D
     \<and> dc_dict_size d = length D - 1
     \<and> (if D = [] then prev = None else prev = Some (fst (last D)) \<and> snd (last D) = root D cur))"

definition learn :: "decoder_state \<Rightarrow> nat option \<Rightarrow> nat \<Rightarrow> decoder_state" where
  "learn d prev cur = (case prev of None \<Rightarrow> d | Some pv \<Rightarrow> update_dict d pv cur)"

lemma ddict_shift [simp]: "ddict (d\<lparr>dc_shift := s\<rparr>) = ddict d"
  by (simp add: ddict_def)

lemma learn_sync:
  assumes "sync D cur d prev"
  shows "dec_ok (learn d prev cur)" "ddict (learn d prev cur) = D" "dc_dict_size (learn d prev cur) = length D"
    "dc_shift (learn d prev cur) = dc_shift d"
proof -
  have a: "dec_ok d" "dict_wf D" "code_ok (length D) cur" "length D \<le> DICT_FULL" "ddict d = butlast D"
    "dc_dict_size d = length D - 1" using assms by (simp_all add: sync_def)
  have "dec_ok (learn d prev cur) \<and> ddict (learn d prev cur) = D \<and> dc_dict_size (learn d prev cur) = length D \<and>
    dc_shift (learn d prev cur) = dc_shift d"
  proof (cases "D = []")
    case True
    then show ?thesis using assms a by (simp add: sync_def learn_def)
  next
    case False
    define D0 where "D0 = butlast D"
    obtain pv ch where l: "last D = (pv, ch)" by (cases "last D")
    have D: "D = D0 @ [(pv, ch)]" using False l by (metis D0_def append_butlast_last_id)
    have pr: "prev = Some pv" "ch = root (D0 @ [(pv, ch)]) cur" using assms False l unfolding D [symmetric] by (simp_all add: sync_def)
    have w: "dict_wf D0" "code_ok (length D0) pv" using a(2) unfolding D dict_wf_snoc by simp_all
    have n: "dc_dict_size d = length D0" "ddict d = D0" using a(5,6) by (simp_all add: D)
    have pv: "pv < DICT_NODES" using w(2) a(4) by (auto simp: D code_ok_def lzw_consts)
    have u: "ddict (update_dict d pv cur) = ddict d @ [(pv, ch)]" "dc_dict_size (update_dict d pv cur) = dc_dict_size d + 1"
      using update_dict_spec [OF a(1) _ _ _ _ pr(2) [folded n(2)]] w a(3,4) n(1) n(2) [symmetric] by (simp_all add: D lzw_consts)
    show ?thesis
      using dec_ok_update [OF a(1) pv, of cur] u n by (simp add: learn_def pr(1) D)
  qed
  then show "dec_ok (learn d prev cur)" "ddict (learn d prev cur) = D" "dc_dict_size (learn d prev cur) = length D"
    "dc_shift (learn d prev cur) = dc_shift d" by simp_all
qed

lemma decode_cur:
  assumes s: "sync D cur d prev" and F: "drop_bit (at d pos) (le_nat p) = cur + 2 ^ dc_bit_count d * K"
    and c: "cur < 2 ^ dc_bit_count d" and K: "0 < K" and rounds: "length p - pos < rounds"
    and l: "lim = 0 \<or> length out + length (expand D cur) \<le> lim"
  obtains d' pos' rounds' where "dec_ok d'" "ddict d' = D" "dc_dict_size d' = length D" "pos < pos'"
    "at d' pos' = at d pos + dc_bit_count d" "drop_bit (at d' pos') (le_nat p) = K" "length p - pos' < rounds'"
    "dec_loop rounds prev d p pos (length p) counter out lim =
     dec_loop rounds' (Some cur) d' p pos' (length p) counter (out @ expand D cur) lim"
proof -
  have ok: "dec_ok d" "code_ok (length D) cur" "dict_wf D" "length D < DICT_NODES" using s by (simp_all add: sync_def lzw_consts)
  have ne: "cur \<noteq> CODE_RESET" "cur \<noteq> CODE_END" using ok(2) by (auto simp: code_ok_def lzw_consts)
  have nz: "0 < cur + 2 ^ dc_bit_count d * K" using K by simp
  obtain pos' sh where r: "pos < length p" "sh < 8" "pos < pos'" "8 * pos' + sh = at d pos + dc_bit_count d"
    "drop_bit (8 * pos' + sh) (le_nat p) = K"
    "read_code d p pos (length p) counter = (Code, cur, d\<lparr>dc_shift := sh\<rparr>, pos', counter)"
    using read_code_value [OF ok(1) F c nz, where counter = counter] ne by metis
  obtain rs where rs: "rounds = Suc rs" using rounds by (cases rounds) auto
  define d' where "d' = learn (d\<lparr>dc_shift := sh\<rparr>) prev cur"
  have "sync D cur (d\<lparr>dc_shift := sh\<rparr>) prev" using s dec_ok_shift [OF ok(1) r(2)] by (simp add: sync_def)
  note d' = learn_sync [OF this, folded d'_def]
  have h: "handle_code d' cur out lim = (True, out @ expand D cur)"
    using handle_code_spec [OF d'(1), of cur lim out] d' ok(2-4) l by simp
  have "dec_loop rounds prev d p pos (length p) counter out lim =
     dec_loop rs (Some cur) d' p pos' (length p) counter (out @ expand D cur) lim"
    unfolding rs dec_loop.simps r(6) prod.case code_status.case learn_def [symmetric] d'_def [symmetric] Let_def h by simp
  moreover have "at d' pos' = 8 * pos' + sh" using d'(4) by (simp add: at_def)
  moreover have "length p - pos' < rs" using rounds r(1,3) rs by linarith
  ultimately show ?thesis using that d'(1-3) r(3-5) by simp
qed

lemma decode_reset:
  assumes ok: "dec_ok d" and F: "drop_bit (at d pos) (le_nat p) = CODE_RESET + 2 ^ dc_bit_count d * K"
    and rounds: "length p - pos < rounds" and counter: "length p - pos < unat counter"
  obtains d' pos' rounds' where "dec_ok d'" "dc_dict_size d' = 0" "pos < pos'"
    "at d' pos' = at d pos + dc_bit_count d" "drop_bit (at d' pos') (le_nat p) = K" "length p - pos' < rounds'"
    "length p - pos' < unat (counter - 1)"
    "dec_loop rounds prev d p pos (length p) counter out lim = dec_loop rounds' None d' p pos' (length p) (counter - 1) out lim"
proof -
  have "2 ^ 9 \<le> (2 :: nat) ^ dc_bit_count d" using dec_okD(3) [OF ok] by (intro power_increasing) simp_all
  then have c: "CODE_RESET < 2 ^ dc_bit_count d" by (simp add: CODE_RESET_def)
  have nz: "0 < CODE_RESET + 2 ^ dc_bit_count d * K" by (simp add: CODE_RESET_def)
  obtain pos' sh where r: "pos < length p" "sh < 8" "pos < pos'" "8 * pos' + sh = at d pos + dc_bit_count d"
    "drop_bit (8 * pos' + sh) (le_nat p) = K"
    "read_code d p pos (length p) counter = (if counter - 1 = 0 then (Exhausted, CODE_RESET, d\<lparr>dc_shift := sh\<rparr>, pos', counter - 1)
       else (Restart, CODE_RESET, d\<lparr>dc_shift := sh, dc_dict_size := 0, dc_bit_count := 9, dc_mask := 0x1ff\<rparr>, pos', counter - 1))"
    using read_code_value [OF ok F c nz, where counter = counter] by metis
  define d' where "d' = d\<lparr>dc_shift := sh, dc_dict_size := 0, dc_bit_count := 9, dc_mask := 0x1ff\<rparr>"
  have "counter \<noteq> 0" using counter by auto
  then have u: "unat (counter - 1) = unat counter - 1" by (simp add: unat_minus_one)
  have k: "length p - pos' < unat (counter - 1)" unfolding u using counter r(1,3) by linarith
  then have nz': "counter - 1 \<noteq> 0" by (metis unsigned_0 not_less_zero)
  obtain rs where rs: "rounds = Suc rs" using rounds by (cases rounds) auto
  have "dec_loop rounds prev d p pos (length p) counter out lim = dec_loop rs None d' p pos' (length p) (counter - 1) out lim"
    unfolding rs dec_loop.simps r(6) d'_def by (simp only: nz' if_False prod.case code_status.case)
  moreover have "at d' pos' = 8 * pos' + sh" by (simp add: at_def d'_def)
  moreover have "length p - pos' < rs" using rounds r(1,3) rs by linarith
  moreover have "dec_ok d'" "dc_dict_size d' = 0" using dec_ok_restart [OF ok r(2)] by (simp_all add: d'_def)
  ultimately show ?thesis using that r(3-5) k by simp
qed

lemma decode_end:
  assumes ok: "dec_ok d" and F: "drop_bit (at d pos) (le_nat p) = CODE_END" and rounds: "length p - pos < rounds"
  shows "\<exists>d'. dec_loop rounds prev d p pos (length p) counter out lim = Some (of_nat (length out), out, d')"
proof -
  have "2 ^ 9 \<le> (2 :: nat) ^ dc_bit_count d" using dec_okD(3) [OF ok] by (intro power_increasing) simp_all
  then have c: "CODE_END < 2 ^ dc_bit_count d" by (simp add: CODE_END_def)
  have nz: "0 < CODE_END + 2 ^ dc_bit_count d * 0" by (simp add: CODE_END_def)
  have ne: "CODE_END \<noteq> CODE_RESET" by (simp add: CODE_END_def CODE_RESET_def)
  have F': "drop_bit (at d pos) (le_nat p) = CODE_END + 2 ^ dc_bit_count d * 0" using F by simp
  obtain pos' sh where r: "read_code d p pos (length p) counter = (EndOfStream, CODE_END, d\<lparr>dc_shift := sh\<rparr>, pos', counter)"
    using read_code_value [OF ok F' c nz, where counter = counter] ne by metis
  obtain rs where rs: "rounds = Suc rs" using rounds by (cases rounds) auto
  show ?thesis unfolding rs dec_loop.simps r by simp
qed

subsection \<open>The encoder's dictionary and its chains\<close>

definition edict :: "encoder_state \<Rightarrow> (nat \<times> nat) list" where
  "edict st = map (\<lambda>x. (unat (en_prefix x), unat (en_ch x))) (take (ec_dict_size st) (ec_nodes st))"

definition node_prefix :: "encoder_state \<Rightarrow> nat \<Rightarrow> nat" where
  "node_prefix st i = unat (en_prefix (ec_nodes st ! i))"

text \<open>Every reference names an entry with the prefix of its chain, and a chain goes upwards.\<close>

definition chains_ok :: "encoder_state \<Rightarrow> bool" where
  "chains_ok st = (length (ec_nodes st) = DICT_NODES \<and> length (ec_heads st) = CHAIN_SLOTS \<and> length (ec_tails st) = CHAIN_SLOTS
     \<and> (\<forall>c < CHAIN_SLOTS. ec_heads st ! c \<noteq> 0 \<longrightarrow>
          ec_heads st ! c \<le> ec_dict_size st \<and> node_prefix st (ec_heads st ! c - 1) = c
          \<and> ec_tails st ! c \<noteq> 0 \<and> ec_tails st ! c \<le> ec_dict_size st \<and> node_prefix st (ec_tails st ! c - 1) = c)
     \<and> (\<forall>i < ec_dict_size st. en_next (ec_nodes st ! i) \<noteq> 0 \<longrightarrow>
          i + 1 < en_next (ec_nodes st ! i) \<and> en_next (ec_nodes st ! i) \<le> ec_dict_size st
          \<and> node_prefix st (en_next (ec_nodes st ! i) - 1) = node_prefix st i))"

lemma length_edict: "chains_ok st \<Longrightarrow> ec_dict_size st \<le> DICT_NODES \<Longrightarrow> length (edict st) = ec_dict_size st"
  by (simp add: edict_def chains_ok_def)

lemma nth_edict: "chains_ok st \<Longrightarrow> ec_dict_size st \<le> DICT_NODES \<Longrightarrow> i < ec_dict_size st \<Longrightarrow>
    edict st ! i = (node_prefix st i, unat (en_ch (ec_nodes st ! i)))"
  by (simp add: edict_def chains_ok_def node_prefix_def)

lemma chains_ok_cong:
  assumes "ec_nodes st' = ec_nodes st" "ec_heads st' = ec_heads st" "ec_tails st' = ec_tails st" "ec_dict_size st' = ec_dict_size st"
  shows "chains_ok st' = chains_ok st" "edict st' = edict st"
  using assms by (simp_all add: chains_ok_def edict_def node_prefix_def)

lemma chains_ok_simps [simp]:
  "chains_ok (emit_code st c) = chains_ok st" "edict (emit_code st c) = edict st"
  "chains_ok (count_input st) = chains_ok st" "edict (count_input st) = edict st"
  using chains_ok_cong [of "emit_code st c" st] chains_ok_cong [of "count_input st" st] by simp_all

text \<open>The walk of \<open>find_match\<close>: what it returns is an entry for the two codes, and \<open>DICT_NODES\<close> links are enough.\<close>

lemma match_loop_sound:
  assumes "chains_ok st"
  shows "0 < ref \<Longrightarrow> ref \<le> ec_dict_size st \<Longrightarrow> node_prefix st (ref - 1) = c \<Longrightarrow>
    match_loop (ec_nodes st) ch ref links = int m \<Longrightarrow>
    m < ec_dict_size st \<and> node_prefix st m = c \<and> en_ch (ec_nodes st ! m) = ch"
proof (induction links arbitrary: ref)
  case (Suc links)
  define i where "i = ref - 1"
  have i: "i < ec_dict_size st" "ref - 1 = i" using Suc.prems(1,2) by (auto simp: i_def)
  show ?case
  proof (cases "ch = en_ch (ec_nodes st ! i) \<or> en_next (ec_nodes st ! i) = 0")
    case True
    then show ?thesis using Suc.prems i by (auto simp: Let_def split: if_splits)
  next
    case False
    then have "en_next (ec_nodes st ! i) \<le> ec_dict_size st" "node_prefix st (en_next (ec_nodes st ! i) - 1) = c"
      using assms i Suc.prems(3) by (auto simp: chains_ok_def)
    then show ?thesis using Suc.IH [of "en_next (ec_nodes st ! i)"] Suc.prems(4) False i by (simp add: Let_def)
  qed
qed simp

lemma match_loop_links:
  assumes "chains_ok st"
  shows "0 < ref \<Longrightarrow> ref \<le> ec_dict_size st \<Longrightarrow> ec_dict_size st < ref + links \<Longrightarrow>
    match_loop (ec_nodes st) ch ref links = match_loop (ec_nodes st) ch ref (links + k)"
proof (induction links arbitrary: ref)
  case (Suc links)
  define i where "i = ref - 1"
  have i: "i < ec_dict_size st" "ref - 1 = i" "ref = i + 1" using Suc.prems(1,2) by (auto simp: i_def)
  show ?case
  proof (cases "en_next (ec_nodes st ! i) = 0")
    case False
    then have "i + 1 < en_next (ec_nodes st ! i)" "en_next (ec_nodes st ! i) \<le> ec_dict_size st"
      using assms i by (auto simp: chains_ok_def)
    then show ?thesis using Suc.IH [of "en_next (ec_nodes st ! i)"] Suc.prems(3) i by (simp add: Let_def)
  qed (simp add: Let_def i)
qed simp

lemma find_match_sound:
  fixes b :: u8
  assumes "chains_ok st" "ec_dict_size st \<le> DICT_NODES" "cur < CHAIN_SLOTS" "find_match st cur (unat b) = int m"
  shows "m < length (edict st)" "edict st ! m = (cur, unat b)"
proof -
  define hd_ref where "hd_ref = ec_heads st ! cur"
  have ml: "0 < hd_ref" "match_loop (ec_nodes st) (of_nat (unat b)) hd_ref DICT_NODES = int m"
    using assms(4) by (auto simp: find_match_def hd_ref_def split: if_splits)
  have h: "hd_ref \<le> ec_dict_size st" "node_prefix st (hd_ref - 1) = cur"
    using assms(1,3) ml(1) by (auto simp: chains_ok_def hd_ref_def)
  have u: "unat (of_nat (unat b) :: u16) = unat b" using unat_u8 [of b] by (intro unat_of_nat_u16) simp
  note r = match_loop_sound [OF assms(1) ml(1) h ml(2)]
  then show "m < length (edict st)" "edict st ! m = (cur, unat b)"
    using nth_edict [OF assms(1,2), of m] length_edict [OF assms(1,2)] u by simp_all
qed

lemma grow_chains:
  assumes ok: "chains_ok st" and n: "ec_dict_size st < DICT_NODES" and cur: "cur < CHAIN_SLOTS" and nxt: "nxt < 256"
  shows "chains_ok (grow st cur nxt)" "edict (grow st cur nxt) = edict st @ [(cur, nxt)]"
proof -
  define k where "k = ec_dict_size st"
  define nodes' where "nodes' = (if ec_heads st ! cur = 0 then ec_nodes st
    else (ec_nodes st)[ec_tails st ! cur - 1 := (ec_nodes st ! (ec_tails st ! cur - 1))\<lparr>en_next := k + 1\<rparr>])"
  define g where "g = grow st cur nxt"
  have g: "ec_nodes g = nodes'[k := \<lparr>en_prefix = of_nat cur, en_ch = of_nat nxt, en_next = 0\<rparr>]"
    "ec_heads g = (if ec_heads st ! cur = 0 then (ec_heads st)[cur := k + 1] else ec_heads st)"
    "ec_tails g = (ec_tails st)[cur := k + 1]" "ec_dict_size g = k + 1"
    by (auto simp: g_def grow_def chain_append_def Let_def nodes'_def k_def)
  have len: "length (ec_nodes st) = DICT_NODES" "length nodes' = DICT_NODES" "length (ec_heads st) = CHAIN_SLOTS"
    "length (ec_tails st) = CHAIN_SLOTS" using ok by (simp_all add: chains_ok_def nodes'_def)
  have u: "unat (of_nat cur :: u16) = cur" "unat (of_nat nxt :: u16) = nxt"
    using cur nxt by (simp_all add: unat_of_nat_u16 CHAIN_SLOTS_def)
  have pre: "en_prefix (nodes' ! i) = en_prefix (ec_nodes st ! i)" "en_ch (nodes' ! i) = en_ch (ec_nodes st ! i)" for i
    by (cases "ec_tails st ! cur - 1 < length (ec_nodes st)"; simp add: nodes'_def nth_list_update list_update_beyond)+
  have np: "node_prefix g i = (if i = k then cur else node_prefix st i)" for i
    using len n u by (simp add: node_prefix_def g nth_list_update pre k_def)
  have chg: "en_ch (ec_nodes g ! k) = of_nat nxt" using len n by (simp add: g k_def)
  have "edict g = map (\<lambda>x. (unat (en_prefix x), unat (en_ch x))) (take k nodes') @ [(cur, nxt)]"
    using len n u by (simp add: edict_def g take_Suc_conv_app_nth k_def)
  also have "map (\<lambda>x. (unat (en_prefix x), unat (en_ch x))) (take k nodes') = edict st"
    using len by (intro nth_equalityI) (simp_all add: edict_def pre k_def)
  finally show "edict (grow st cur nxt) = edict st @ [(cur, nxt)]" by (simp add: g_def)
  have hd: "ec_heads g ! c \<le> k + 1 \<and> node_prefix g (ec_heads g ! c - 1) = c \<and> ec_tails g ! c \<noteq> 0 \<and>
      ec_tails g ! c \<le> k + 1 \<and> node_prefix g (ec_tails g ! c - 1) = c"
    if c: "c < CHAIN_SLOTS" and nz: "ec_heads g ! c \<noteq> 0" for c
  proof (cases "c = cur")
    case True
    show ?thesis
    proof (cases "ec_heads st ! cur = 0")
      case False
      then have "ec_heads st ! cur \<le> k" "node_prefix st (ec_heads st ! cur - 1) = cur"
        using ok cur by (auto simp: chains_ok_def k_def)
      then show ?thesis using True False len cur by (auto simp: g np)
    qed (use True len cur in \<open>simp add: g np\<close>)
  next
    case c': False
    then have e: "ec_heads g ! c = ec_heads st ! c" "ec_tails g ! c = ec_tails st ! c" by (auto simp: g)
    then have "ec_heads st ! c \<le> k \<and> node_prefix st (ec_heads st ! c - 1) = c \<and> ec_tails st ! c \<noteq> 0 \<and>
      ec_tails st ! c \<le> k \<and> node_prefix st (ec_tails st ! c - 1) = c"
      using ok c nz by (auto simp: chains_ok_def k_def)
    then show ?thesis using nz e by (auto simp: np)
  qed
  have nx: "i + 1 < en_next (ec_nodes g ! i) \<and> en_next (ec_nodes g ! i) \<le> k + 1 \<and>
      node_prefix g (en_next (ec_nodes g ! i) - 1) = node_prefix g i"
    if i: "i < k + 1" and nz: "en_next (ec_nodes g ! i) \<noteq> 0" for i
  proof -
    have ik: "i < k" using i nz len n by (cases "i = k") (auto simp: g k_def)
    then have e: "ec_nodes g ! i = nodes' ! i" by (simp add: g)
    show ?thesis
    proof (cases "ec_heads st ! cur \<noteq> 0 \<and> i = ec_tails st ! cur - 1")
      case True
      then have "node_prefix st i = cur" using ok cur by (auto simp: chains_ok_def)
      moreover have "en_next (nodes' ! i) = k + 1" using True ik n len by (simp add: nodes'_def k_def)
      then have "en_next (ec_nodes g ! i) = k + 1" by (simp only: e)
      ultimately show ?thesis using ik by (simp add: np)
    next
      case False
      then have "nodes' ! i = ec_nodes st ! i" by (auto simp: nodes'_def)
      then have "en_next (ec_nodes st ! i) \<noteq> 0" "en_next (ec_nodes g ! i) = en_next (ec_nodes st ! i)" using nz e by simp_all
      moreover from this(1) have "i + 1 < en_next (ec_nodes st ! i)" "en_next (ec_nodes st ! i) \<le> k"
        "node_prefix st (en_next (ec_nodes st ! i) - 1) = node_prefix st i"
        using ok ik by (auto simp: chains_ok_def k_def)
      ultimately show ?thesis using ik by (auto simp: np)
    qed
  qed
  have "chains_ok g" unfolding chains_ok_def using hd nx len by (auto simp: g(1-4))
  then show "chains_ok (grow st cur nxt)" by (simp add: g_def)
qed

subsection \<open>The stream from one state of the encoder to a later one\<close>

lemma sval_less: "pend_ok st \<Longrightarrow> sval st < 2 ^ soff st"
proof -
  assume "pend_ok st"
  then have "ec_pending_byte st + 1 \<le> 2 ^ ec_pending_bits st" by (simp add: pend_ok_def)
  then have "(ec_pending_byte st + 1) * 2 ^ (8 * length (ec_out st)) \<le> 2 ^ ec_pending_bits st * 2 ^ (8 * length (ec_out st))"
    by (intro mult_right_mono) simp_all
  then show ?thesis using le_nat_less [of "ec_out st"] by (simp add: sval_def soff_def power_add algebra_simps)
qed

text \<open>Without an overflow, what is written later lies above what was written before; \<open>z\<close> says that it is not zero.\<close>

definition leads :: "bool \<Rightarrow> encoder_state \<Rightarrow> encoder_state \<Rightarrow> bool" where
  "leads z st st' = (\<not> ec_overflowed st' \<longrightarrow> \<not> ec_overflowed st \<and>
     (pend_ok st \<longrightarrow> pend_ok st' \<and> soff st \<le> soff st' \<and> (\<exists>k. sval st' = sval st + k * 2 ^ soff st \<and> (z \<longrightarrow> 0 < k))))"

lemma leads_trans:
  assumes a: "leads z st s1" and b: "leads z' s1 s2"
  shows "leads (z \<or> z') st s2"
proof (unfold leads_def, intro impI conjI)
  assume o: "\<not> ec_overflowed s2"
  with b have o1: "\<not> ec_overflowed s1" by (simp add: leads_def)
  with a show "\<not> ec_overflowed st" by (simp add: leads_def)
  assume p: "pend_ok st"
  obtain k where k: "pend_ok s1" "soff st \<le> soff s1" "sval s1 = sval st + k * 2 ^ soff st" "z \<longrightarrow> 0 < k"
    using a o1 p by (auto simp: leads_def)
  obtain k' where k': "pend_ok s2" "soff s1 \<le> soff s2" "sval s2 = sval s1 + k' * 2 ^ soff s1" "z' \<longrightarrow> 0 < k'"
    using b o k(1) by (auto simp: leads_def)
  show "pend_ok s2" "soff st \<le> soff s2" using k k' by simp_all
  have "(2 :: nat) ^ soff s1 = 2 ^ (soff s1 - soff st) * 2 ^ soff st" using k(2) by (simp flip: power_add)
  then have "sval s2 = sval st + (k + k' * 2 ^ (soff s1 - soff st)) * 2 ^ soff st"
    unfolding k' k by (simp add: algebra_simps)
  moreover have "z \<or> z' \<longrightarrow> 0 < k + k' * 2 ^ (soff s1 - soff st)" using k(4) k'(4) by auto
  ultimately show "\<exists>k. sval s2 = sval st + k * 2 ^ soff st \<and> (z \<or> z' \<longrightarrow> 0 < k)" by blast
qed

lemma leads_emit: "c < 2 ^ ec_width st \<Longrightarrow> leads (0 < c) st (emit_code st c)"
  using emit_code_stream [of st c] emit_code_sticky [of st c] by (auto simp: leads_def)

lemma leads_same:
  assumes "ec_out st' = ec_out st" "ec_pending_bits st' = ec_pending_bits st" "ec_pending_byte st' = ec_pending_byte st"
    "ec_overflowed st' = ec_overflowed st"
  shows "leads False st st'"
proof -
  have "sval st' = sval st" "soff st' = soff st" "pend_ok st' = pend_ok st" using assms by (simp_all add: sval_def soff_def pend_ok_def)
  then show ?thesis using assms(4) by (simp add: leads_def)
qed

lemma leads_grow: "leads False st (grow st cur nxt)"
  by (rule leads_same) (simp_all add: grow_def)

lemma leads_count: "leads False st (count_input st)"
  by (rule leads_same) simp_all

lemma reset_fits: "9 \<le> w \<Longrightarrow> CODE_RESET < 2 ^ w" "9 \<le> w \<Longrightarrow> CODE_END < 2 ^ w" "9 \<le> w \<Longrightarrow> c < 256 \<Longrightarrow> c < (2 :: nat) ^ w"
  using power_increasing [of 9 w "2 :: nat"] by (simp_all add: CODE_RESET_def CODE_END_def)

lemma leads_restart:
  assumes "9 \<le> ec_width st" "nxt < 256"
  shows "leads True st (restart st cur nxt)"
proof -
  define s1 where "s1 = chain_append st cur nxt"
  define s2 where "s2 = emit_code s1 nxt"
  define s3 where "s3 = emit_code s2 CODE_RESET"
  define s4 where "s4 = s3\<lparr>ec_dict_size := 0, ec_width := 9, ec_heads := replicate CHAIN_SLOTS 0, ec_tails := replicate CHAIN_SLOTS 0\<rparr>"
  have 1: "leads False st s1" by (rule leads_same) (simp_all add: s1_def)
  have 2: "leads (0 < nxt) s1 s2" unfolding s2_def by (rule leads_emit) (use assms reset_fits in \<open>simp add: s1_def\<close>)
  have 3: "leads (0 < CODE_RESET) s2 s3" unfolding s3_def
    by (rule leads_emit) (use assms reset_fits in \<open>simp add: s1_def s2_def\<close>)
  have 4: "leads False s3 s4" by (rule leads_same) (simp_all add: s4_def)
  have 5: "leads (0 < CODE_RESET) s4 (emit_code s4 CODE_RESET)"
    by (rule leads_emit) (simp add: s4_def CODE_RESET_def)
  have "restart st cur nxt = emit_code s4 CODE_RESET" by (simp add: restart_def s1_def s2_def s3_def s4_def)
  then show ?thesis
    using leads_trans [OF 1 leads_trans [OF 2 leads_trans [OF 3 leads_trans [OF 4 5]]]] by (simp add: CODE_RESET_def)
qed

text \<open>The state before the last, zero code.\<close>

definition ended :: "encoder_state \<times> nat option \<Rightarrow> encoder_state" where
  "ended r = emit_code (case snd r of None \<Rightarrow> fst r | Some cur \<Rightarrow> emit_code (fst r) cur) CODE_END"

lemma finish_ended: "finish r = emit_code (ended r) 0"
  by (simp add: finish_def ended_def)

lemma width_ended: "ec_width (ended r) = ec_width (fst r)"
  by (cases "snd r") (simp_all add: ended_def)

lemma leads_zero: "leads False st (emit_code st 0)"
  using leads_emit [of 0 st] by simp

lemma leads_ended:
  assumes "9 \<le> ec_width (fst r)" "\<forall>cur. snd r = Some cur \<longrightarrow> cur < 2 ^ ec_width (fst r)"
  shows "leads True (fst r) (ended r)"
proof -
  define s1 where "s1 = (case snd r of None \<Rightarrow> fst r | Some cur \<Rightarrow> emit_code (fst r) cur)"
  have "\<exists>z. leads z (fst r) s1" and w: "ec_width s1 = ec_width (fst r)"
    using leads_same [of "fst r" "fst r"] leads_emit [of _ "fst r"] assms(2)
    by (cases "snd r"; fastforce simp: s1_def)+
  then obtain z where 1: "leads z (fst r) s1" by blast
  have 2: "leads (0 < CODE_END) s1 (emit_code s1 CODE_END)" by (rule leads_emit) (use assms(1) w reset_fits in simp)
  show ?thesis using leads_trans [OF 1 2] by (simp add: CODE_END_def ended_def s1_def)
qed

text \<open>The encoder between two tokens.\<close>

definition enc_inv :: "encoder_state \<Rightarrow> nat \<Rightarrow> bool" where
  "enc_inv st cur = (chains_ok st \<and> dict_ok st \<and> dict_wf (edict st) \<and> code_ok (ec_dict_size st) cur)"

lemma enc_invD:
  assumes "enc_inv st cur"
  shows "chains_ok st" "dict_ok st" "dict_wf (edict st)" "code_ok (ec_dict_size st) cur"
    "length (edict st) = ec_dict_size st" "ec_dict_size st < DICT_FULL" "ec_width st = enc_width (ec_dict_size st)"
    "9 \<le> ec_width st" "cur < CHAIN_SLOTS" "cur < 2 ^ ec_width st"
proof -
  show *: "chains_ok st" "dict_ok st" "dict_wf (edict st)" "code_ok (ec_dict_size st) cur" "ec_dict_size st < DICT_FULL"
    "ec_width st = enc_width (ec_dict_size st)"
    using assms by (simp_all add: enc_inv_def dict_ok_def)
  show "length (edict st) = ec_dict_size st" using length_edict *(1,5) by (simp add: lzw_consts)
  show "9 \<le> ec_width st" using enc_width_bounds *(6) by simp
  show "cur < CHAIN_SLOTS" using *(4,5) by (auto simp: code_ok_def lzw_consts)
  have "cur < 258 + ec_dict_size st" using *(4) by (auto simp: code_ok_def CODE_FIRST_def)
  moreover have "258 + ec_dict_size st \<le> 2 ^ enc_width (ec_dict_size st)"
    using *(5) by (cases "0x0ff \<le> ec_dict_size st"; cases "0x2ff \<le> ec_dict_size st"; cases "0x6ff \<le> ec_dict_size st")
      (simp_all add: enc_width_def DICT_FULL_def)
  ultimately show "cur < 2 ^ ec_width st" unfolding *(6) by linarith
qed

lemma enc_inv_match:
  fixes b :: u8
  assumes "enc_inv st cur" "find_match (count_input st) cur (unat b) = int m"
  shows "enc_inv (count_input st) (m + CODE_FIRST)" "m < length (edict st)" "edict st ! m = (cur, unat b)"
proof -
  note e = enc_invD [OF assms(1)]
  show m: "m < length (edict st)" "edict st ! m = (cur, unat b)"
    using find_match_sound [of "count_input st" cur b m] e(1,5,6,9) assms(2) by (simp_all add: lzw_consts)
  show "enc_inv (count_input st) (m + CODE_FIRST)" using e(1-5) m(1) by (simp add: enc_inv_def code_ok_def)
qed

lemma enc_inv_grow:
  assumes "enc_inv st cur" "ec_dict_size st + 1 \<noteq> DICT_FULL" "nxt < 256"
  shows "enc_inv (grow st cur nxt) nxt" "edict (grow st cur nxt) = edict st @ [(cur, nxt)]"
proof -
  note e = enc_invD [OF assms(1)]
  note g = grow_chains [OF e(1) _ e(9) assms(3)]
  have n: "ec_dict_size st < DICT_NODES" using e(6) by (simp add: lzw_consts)
  show "edict (grow st cur nxt) = edict st @ [(cur, nxt)]" by (rule g(2) [OF n])
  have "dict_ok (grow st cur nxt)"
    using e(6,7) assms(2) enc_width_Suc [of "ec_dict_size st"] by (auto simp: dict_ok_def grow_def)
  then show "enc_inv (grow st cur nxt) nxt"
    using g [OF n] e(3-5) assms(3) by (simp add: enc_inv_def dict_wf_snoc)
qed

lemma enc_inv_emit [simp]: "enc_inv (emit_code st c) cur = enc_inv st cur" "enc_inv (count_input st) cur = enc_inv st cur"
  by (simp_all add: enc_inv_def)

lemma enc_inv_empty:
  assumes "length (ec_nodes st) = DICT_NODES" "ec_heads st = replicate CHAIN_SLOTS 0" "ec_tails st = replicate CHAIN_SLOTS 0"
    "ec_dict_size st = 0" "ec_width st = 9" "cur < 256"
  shows "enc_inv st cur" "edict st = []"
  using assms by (simp_all add: enc_inv_def chains_ok_def dict_ok_def enc_width_def edict_def dict_wf_def DICT_FULL_def)

lemma enc_inv_restart:
  assumes "enc_inv st cur" "c < 256"
  shows "enc_inv (count_input (restart st cur nxt)) c" "edict (restart st cur nxt) = []"
proof -
  have "length (ec_nodes (chain_append st cur nxt)) = DICT_NODES"
    using enc_invD(1) [OF assms(1)] by (simp add: chain_append_def Let_def chains_ok_def)
  then show "enc_inv (count_input (restart st cur nxt)) c" "edict (restart st cur nxt) = []"
    using enc_inv_empty [of "restart st cur nxt" c] assms(2) by (simp_all add: restart_def)
qed

lemma comp_loop_ended:
  "enc_inv st cur \<Longrightarrow> leads True st (ended (comp_loop st cur inp)) \<and> 9 \<le> ec_width (ended (comp_loop st cur inp))"
proof (induction "length inp" arbitrary: st cur inp rule: less_induct)
  case less
  note e = enc_invD [OF less.prems]
  show ?case
  proof (cases inp)
    case Nil
    then show ?thesis using leads_ended [of "(st, Some cur)"] e by (simp add: width_ended)
  next
    case (Cons b inp')
    define s1 where "s1 = emit_code (count_input st) cur"
    have i1: "enc_inv s1 cur" using less.prems by (simp add: s1_def)
    have "leads (0 < cur) (count_input st) s1" unfolding s1_def by (rule leads_emit) (use e(10) in simp)
    note l1 = leads_trans [OF leads_count this]
    have nb: "unat b < 256" by (rule unat_u8)
    show ?thesis
    proof (cases rule: comp_loop_cases [of st cur b inp'])
      case (1 m)
      then show ?thesis
        using less.hyps [of inp' "count_input st"] enc_inv_match(1) [OF less.prems 1(1)] leads_trans [OF leads_count]
        by (fastforce simp: Cons)
    next
      case 2
      define s2 where "s2 = grow s1 cur (unat b)"
      have i2: "enc_inv s2 (unat b)" using enc_inv_grow(1) [OF i1 _ nb] 2(2) by (simp add: s1_def s2_def)
      have s: "leads True s2 (ended (comp_loop s2 (unat b) inp'))" "9 \<le> ec_width (ended (comp_loop s2 (unat b) inp'))"
        using less.hyps [OF _ i2, of inp'] by (simp_all add: Cons)
      from leads_trans [OF l1 leads_trans [OF leads_grow s(1) [unfolded s2_def]]]
      show ?thesis using 2(3) s(2) by (simp add: Cons s1_def s2_def)
    next
      case 3
      define s2 where "s2 = restart s1 cur (unat b)"
      have r: "leads True s1 s2" unfolding s2_def by (rule leads_restart) (use enc_invD [OF i1] nb in simp_all)
      have w: "ec_width s2 = 9" by (simp add: s2_def restart_def)
      have "leads True s2 (ended (s2, None))" using leads_ended [of "(s2, None)"] w by simp
      from leads_trans [OF l1 leads_trans [OF r this]]
      show ?thesis using w width_ended [of "(s2, None)"] 3(3) 3(4) [unfolded 3(3)] by (simp add: Cons s1_def s2_def)
    next
      case (4 c inp'')
      define s2 where "s2 = restart s1 cur (unat b)"
      have r: "leads True s1 s2" unfolding s2_def by (rule leads_restart) (use enc_invD [OF i1] nb in simp_all)
      have i2: "enc_inv (count_input s2) (unat c)" using enc_inv_restart(1) [OF i1 unat_u8] by (simp add: s2_def)
      have s: "leads True (count_input s2) (ended (comp_loop (count_input s2) (unat c) inp''))"
        "9 \<le> ec_width (ended (comp_loop (count_input s2) (unat c) inp''))"
        using less.hyps [OF _ i2, of inp''] by (simp_all add: Cons 4(3))
      from leads_trans [OF l1 leads_trans [OF r leads_trans [OF leads_count s(1)]]]
      show ?thesis using s(2) 4(3) 4(4) [unfolded 4(3)] by (simp add: Cons s1_def s2_def)
    qed
  qed
qed

lemma comp_loop_leads: "enc_inv st cur \<Longrightarrow> leads True st (finish (comp_loop st cur inp))"
  using leads_trans [OF conjunct1 [OF comp_loop_ended] leads_zero] by (simp add: finish_ended)

text \<open>What a code looks like from the end of the stream.\<close>

lemma emit_view:
  assumes p: "pend_ok st" and c: "c < 2 ^ ec_width st" and l: "leads z (emit_code st c) fin" and o: "\<not> ec_overflowed fin"
  obtains k where "drop_bit (soff st) (sval fin) = c + 2 ^ ec_width st * k" "drop_bit (soff (emit_code st c)) (sval fin) = k"
    "z \<longrightarrow> 0 < k" "pend_ok (emit_code st c)" "soff (emit_code st c) = soff st + ec_width st"
proof -
  have o1: "\<not> ec_overflowed (emit_code st c)" using l o by (simp add: leads_def)
  note e = emit_code_stream [OF p c o1]
  obtain k where k: "sval fin = sval (emit_code st c) + k * 2 ^ soff (emit_code st c)" "z \<longrightarrow> 0 < k"
    using l o e(1) by (auto simp: leads_def)
  have "sval fin = sval st + (c + 2 ^ ec_width st * k) * 2 ^ soff st"
    unfolding k(1) e(2,3) by (simp add: power_add algebra_simps)
  then have "drop_bit (soff st) (sval fin) = c + 2 ^ ec_width st * k"
    using sval_less [OF p] by (simp add: drop_bit_eq_div)
  moreover have "drop_bit (soff (emit_code st c)) (sval fin) = k"
    unfolding k(1) using sval_less [OF e(1)] by (simp add: drop_bit_eq_div)
  ultimately show ?thesis using that k(2) e(1,3) by blast
qed

lemma widths_agree: "dec_width (n - 1) = enc_width n"
  by (auto simp: dec_width_def enc_width_def)

lemma sync_width: "sync D cur d prev \<Longrightarrow> dc_bit_count d = enc_width (length D)"
  using widths_agree [of "length D"] by (simp add: sync_def dec_ok_def)

lemma sync_snoc:
  assumes "dec_ok d" "ddict d = D" "dc_dict_size d = length D" "dict_wf D" "code_ok (length D) cur" "length D < DICT_FULL" "nxt < 256"
  shows "sync (D @ [(cur, nxt)]) nxt d (Some cur)"
  using assms by (simp add: sync_def dict_wf_snoc)

subsection \<open>The two halves in step\<close>

text \<open>The decoder's side conditions: rounds and reset counter outlast the payload, and the output has room.\<close>

definition enough :: "bytes \<Rightarrow> nat \<Rightarrow> nat \<Rightarrow> u32 \<Rightarrow> bool" where
  "enough p pos rounds counter = (length p - pos < rounds \<and> length p - pos < unat counter)"

definition fits_in :: "nat \<Rightarrow> nat \<Rightarrow> bool" where
  "fits_in lim n = (lim = 0 \<or> n \<le> lim)"

lemma fits_in_mono: "fits_in lim n \<Longrightarrow> m \<le> n \<Longrightarrow> fits_in lim m"
  by (auto simp: fits_in_def)

definition decodes_to :: "nat \<Rightarrow> nat option \<Rightarrow> decoder_state \<Rightarrow> bytes \<Rightarrow> nat \<Rightarrow> u32 \<Rightarrow> bytes \<Rightarrow> nat \<Rightarrow> bytes \<Rightarrow> bool" where
  "decodes_to rounds prev d p pos counter out lim res =
     (\<exists>d'. dec_loop rounds prev d p pos (length p) counter out lim = Some (of_nat (length res), res, d'))"

text \<open>One code of the stream: the encoder goes from \<open>st\<close> to \<open>emit_code st cur\<close>, the decoder follows.\<close>

lemma step_code:
  assumes s: "sync D cur d prev" and p: "pend_ok st" and w: "ec_width st = dc_bit_count d" and c: "cur < 2 ^ ec_width st"
    and l: "leads True (emit_code st cur) fin" and o: "\<not> ec_overflowed fin"
    and at: "at d pos = soff st" and F: "drop_bit (soff st) (le_nat p) = drop_bit (soff st) (sval fin)"
    and en: "enough p pos rounds counter" and lim: "fits_in lim (length out + length (expand D cur))"
  obtains d' pos' rounds' where "dec_ok d'" "ddict d' = D" "dc_dict_size d' = length D"
    "at d' pos' = soff (emit_code st cur)" "pend_ok (emit_code st cur)"
    "drop_bit (soff (emit_code st cur)) (le_nat p) = drop_bit (soff (emit_code st cur)) (sval fin)"
    "enough p pos' rounds' counter"
    "\<And>res. decodes_to rounds' (Some cur) d' p pos' counter (out @ expand D cur) lim res \<Longrightarrow>
      decodes_to rounds prev d p pos counter out lim res"
proof -
  obtain k where k: "drop_bit (soff st) (sval fin) = cur + 2 ^ ec_width st * k" "drop_bit (soff (emit_code st cur)) (sval fin) = k"
    "0 < k" "pend_ok (emit_code st cur)" "soff (emit_code st cur) = soff st + ec_width st"
    using emit_view [OF p c l o] by metis
  have F': "drop_bit (at d pos) (le_nat p) = cur + 2 ^ dc_bit_count d * k" using F k(1) at w by simp
  have r: "length p - pos < rounds" using en by (simp add: enough_def)
  have l': "lim = 0 \<or> length out + length (expand D cur) \<le> lim" using lim by (simp add: fits_in_def)
  obtain d' pos' rounds' where d': "dec_ok d'" "ddict d' = D" "dc_dict_size d' = length D" "pos < pos'"
    "at d' pos' = at d pos + dc_bit_count d" "drop_bit (at d' pos') (le_nat p) = k" "length p - pos' < rounds'"
    "dec_loop rounds prev d p pos (length p) counter out lim =
     dec_loop rounds' (Some cur) d' p pos' (length p) counter (out @ expand D cur) lim"
    using decode_cur [OF s F' c [unfolded w] k(3) r l', where counter = counter] by metis
  have a: "at d' pos' = soff (emit_code st cur)" using d'(5) at k(5) w by simp
  have "enough p pos' rounds' counter" using en d'(4,7) by (auto simp: enough_def)
  moreover have "drop_bit (soff (emit_code st cur)) (le_nat p) = drop_bit (soff (emit_code st cur)) (sval fin)"
    using d'(6) k(2) by (simp add: a)
  ultimately show ?thesis using that [OF d'(1-3) a k(4)] d'(8) by (simp add: decodes_to_def)
qed

lemma step_reset:
  assumes ok: "dec_ok d" and p: "pend_ok st" and w: "ec_width st = dc_bit_count d"
    and l: "leads z (emit_code st CODE_RESET) fin" and o: "\<not> ec_overflowed fin"
    and at: "at d pos = soff st" and F: "drop_bit (soff st) (le_nat p) = drop_bit (soff st) (sval fin)"
    and en: "enough p pos rounds counter"
  obtains d' pos' rounds' where "dec_ok d'" "dc_dict_size d' = 0" "dc_bit_count d' = 9"
    "at d' pos' = soff (emit_code st CODE_RESET)" "pend_ok (emit_code st CODE_RESET)"
    "drop_bit (soff (emit_code st CODE_RESET)) (le_nat p) = drop_bit (soff (emit_code st CODE_RESET)) (sval fin)"
    "enough p pos' rounds' (counter - 1)"
    "\<And>res. decodes_to rounds' None d' p pos' (counter - 1) out lim res \<Longrightarrow> decodes_to rounds prev d p pos counter out lim res"
proof -
  have c: "CODE_RESET < 2 ^ ec_width st" using dec_okD(3) [OF ok] reset_fits(1) w by simp
  obtain k where k: "drop_bit (soff st) (sval fin) = CODE_RESET + 2 ^ ec_width st * k"
    "drop_bit (soff (emit_code st CODE_RESET)) (sval fin) = k"
    "pend_ok (emit_code st CODE_RESET)" "soff (emit_code st CODE_RESET) = soff st + ec_width st"
    using emit_view [OF p c l o] by metis
  have F': "drop_bit (at d pos) (le_nat p) = CODE_RESET + 2 ^ dc_bit_count d * k" using F k(1) at w by simp
  have r: "length p - pos < rounds" "length p - pos < unat counter" using en by (simp_all add: enough_def)
  obtain d' pos' rounds' where d': "dec_ok d'" "dc_dict_size d' = 0" "pos < pos'"
    "at d' pos' = at d pos + dc_bit_count d" "drop_bit (at d' pos') (le_nat p) = k" "length p - pos' < rounds'"
    "length p - pos' < unat (counter - 1)"
    "dec_loop rounds prev d p pos (length p) counter out lim = dec_loop rounds' None d' p pos' (length p) (counter - 1) out lim"
    using decode_reset [OF ok F' r, where prev = prev and out = out and lim = lim] by metis
  have a: "at d' pos' = soff (emit_code st CODE_RESET)" using d'(4) at k(4) w by simp
  have "enough p pos' rounds' (counter - 1)" using d'(6,7) by (simp add: enough_def)
  moreover have "dc_bit_count d' = 9" using d'(1,2) dec_width_0 by (simp add: dec_ok_def)
  moreover have "drop_bit (soff (emit_code st CODE_RESET)) (le_nat p) = drop_bit (soff (emit_code st CODE_RESET)) (sval fin)"
    using d'(5) k(2) by (simp add: a)
  ultimately show ?thesis using that [OF d'(1,2) _ a k(3)] d'(8) by (simp add: decodes_to_def)
qed

lemma step_end:
  assumes ok: "dec_ok d" and p: "pend_ok st" and w: "9 \<le> ec_width st"
    and fin: "fin = emit_code (emit_code st CODE_END) 0" and o: "\<not> ec_overflowed fin"
    and at: "at d pos = soff st" and F: "drop_bit (soff st) (le_nat p) = drop_bit (soff st) (sval fin)"
    and en: "enough p pos rounds counter"
  shows "decodes_to rounds prev d p pos counter out lim out"
proof -
  have c: "CODE_END < 2 ^ ec_width st" using reset_fits(2) [OF w] .
  have l: "leads (0 < (0 :: nat)) (emit_code st CODE_END) fin" unfolding fin by (rule leads_emit) simp
  then have o1: "\<not> ec_overflowed (emit_code st CODE_END)" using o by (simp add: leads_def)
  note e = emit_code_stream [OF p c o1]
  have z: "0 < (2 :: nat) ^ ec_width (emit_code st CODE_END)" by simp
  have "sval fin = sval st + CODE_END * 2 ^ soff st"
    using emit_code_stream(2) [OF e(1) z] o e(2) by (simp add: fin)
  then have "drop_bit (soff st) (sval fin) = CODE_END" using sval_less [OF p] by (simp add: drop_bit_eq_div)
  then have F': "drop_bit (at d pos) (le_nat p) = CODE_END" using F at by simp
  have r: "length p - pos < rounds" using en by (simp add: enough_def)
  show ?thesis unfolding decodes_to_def by (rule decode_end [OF ok F' r])
qed

text \<open>The full dictionary: the pending character, and the reset code at the old and at the new width.\<close>

lemma step_restart:
  fixes b :: u8
  assumes d: "dec_ok d" "ddict d = D" "dc_dict_size d = length D" and D: "dict_wf D" "code_ok (length D) cur" "length D + 1 = DICT_FULL"
    and p: "pend_ok st" and w: "ec_width st = enc_width (length D)"
    and l: "leads True (restart st cur (unat b)) fin" and o: "\<not> ec_overflowed fin"
    and at: "at d pos = soff st" and F: "drop_bit (soff st) (le_nat p) = drop_bit (soff st) (sval fin)"
    and en: "enough p pos rounds counter" and lim: "fits_in lim (length out + 1)"
  obtains d' pos' rounds' counter' where "dec_ok d'" "dc_dict_size d' = 0" "dc_bit_count d' = 9"
    "at d' pos' = soff (restart st cur (unat b))" "pend_ok (restart st cur (unat b))"
    "drop_bit (soff (restart st cur (unat b))) (le_nat p) = drop_bit (soff (restart st cur (unat b))) (sval fin)"
    "enough p pos' rounds' counter'"
    "\<And>res. decodes_to rounds' None d' p pos' counter' (out @ [b]) lim res \<Longrightarrow>
      decodes_to rounds (Some cur) d p pos counter out lim res"
proof -
  define s1 where "s1 = chain_append st cur (unat b)"
  define s2 where "s2 = emit_code s1 (unat b)"
  define s3 where "s3 = emit_code s2 CODE_RESET"
  define s4 where "s4 = s3\<lparr>ec_dict_size := 0, ec_width := 9, ec_heads := replicate CHAIN_SLOTS 0, ec_tails := replicate CHAIN_SLOTS 0\<rparr>"
  have e: "restart st cur (unat b) = emit_code s4 CODE_RESET" by (simp add: restart_def s1_def s2_def s3_def s4_def)
  have nb: "unat b < 256" by (rule unat_u8)
  have W: "ec_width s1 = 12" "ec_width s2 = 12" "ec_width s4 = 9"
    using w D(3) by (simp_all add: s1_def s2_def s4_def enc_width_def DICT_FULL_def)
  have same1: "pend_ok s1 = pend_ok st" "soff s1 = soff st" "sval s1 = sval st" by (simp_all add: s1_def pend_ok_def soff_def sval_def)
  have same4: "pend_ok s4 = pend_ok s3" "soff s4 = soff s3" "sval s4 = sval s3" by (simp_all add: s4_def pend_ok_def soff_def sval_def)
  have 4: "leads (0 < CODE_RESET) s4 (emit_code s4 CODE_RESET)" by (rule leads_emit) (simp add: W CODE_RESET_def)
  have 3: "leads False s3 s4" by (rule leads_same) (simp_all add: s4_def)
  have 2: "leads (0 < CODE_RESET) s2 s3" unfolding s3_def by (rule leads_emit) (simp add: W CODE_RESET_def)
  have l4: "leads True (emit_code s4 CODE_RESET) fin" using l by (simp add: e)
  have l3: "leads True s3 fin" using leads_trans [OF 3 leads_trans [OF 4 l4]] by simp
  have l2: "leads True s2 fin" using leads_trans [OF 2 l3] by simp
  have sy: "sync (D @ [(cur, unat b)]) (unat b) d (Some cur)"
    by (rule sync_snoc) (use d D nb in \<open>simp_all add: DICT_FULL_def\<close>)
  have wd: "dc_bit_count d = 12" using d(1,3) D(3) by (simp add: dec_ok_def dec_width_def DICT_FULL_def)
  obtain d1 p1 r1 where r1: "dec_ok d1" "ddict d1 = D @ [(cur, unat b)]" "dc_dict_size d1 = length (D @ [(cur, unat b)])"
    "at d1 p1 = soff s2" "pend_ok s2" "drop_bit (soff s2) (le_nat p) = drop_bit (soff s2) (sval fin)" "enough p p1 r1 counter"
    "\<And>res. decodes_to r1 (Some (unat b)) d1 p p1 counter (out @ expand (D @ [(cur, unat b)]) (unat b)) lim res \<Longrightarrow>
      decodes_to rounds (Some cur) d p pos counter out lim res"
  proof (rule step_code [OF sy, of s1 fin pos p rounds counter lim out, folded s2_def])
    show "unat b < 2 ^ ec_width s1" unfolding W using nb by simp
  qed (use same1 p W wd l2 o at F en lim nb in simp_all)
  have wd1: "dc_bit_count d1 = 12" using r1(1,3) D(3) by (simp add: dec_ok_def dec_width_def DICT_FULL_def)
  obtain d2 p2 r2 where r2: "dec_ok d2" "dc_dict_size d2 = 0" "dc_bit_count d2 = 9" "at d2 p2 = soff s3" "pend_ok s3"
    "drop_bit (soff s3) (le_nat p) = drop_bit (soff s3) (sval fin)" "enough p p2 r2 (counter - 1)"
    "\<And>res. decodes_to r2 None d2 p p2 (counter - 1) (out @ [b]) lim res \<Longrightarrow>
      decodes_to r1 (Some (unat b)) d1 p p1 counter (out @ [b]) lim res"
    using step_reset [OF r1(1,5) _ l3 [unfolded s3_def] o r1(4,6,7), folded s3_def,
        where out = "out @ [b]" and lim = lim and prev = "Some (unat b)"] W(2) wd1 by metis
  obtain d3 p3 r3 where r3: "dec_ok d3" "dc_dict_size d3 = 0" "dc_bit_count d3 = 9" "at d3 p3 = soff (emit_code s4 CODE_RESET)"
    "pend_ok (emit_code s4 CODE_RESET)"
    "drop_bit (soff (emit_code s4 CODE_RESET)) (le_nat p) = drop_bit (soff (emit_code s4 CODE_RESET)) (sval fin)"
    "enough p p3 r3 (counter - 1 - 1)"
    "\<And>res. decodes_to r3 None d3 p p3 (counter - 1 - 1) (out @ [b]) lim res \<Longrightarrow>
      decodes_to r2 None d2 p p2 (counter - 1) (out @ [b]) lim res"
    using step_reset [OF r2(1) r2(5) [folded same4(1)] _ l4 o r2(4) [folded same4(2)] r2(6) [folded same4(2)] r2(7),
        where out = "out @ [b]" and lim = lim and prev = None] W(3) r2(3) by metis
  show ?thesis
    by (rule that [of d3 p3 r3 "counter - 1 - 1", unfolded e])
      (use r3 r2(8) r1(8) nb in simp_all)
qed

lemma decode_loop:
  assumes "enc_inv st cur" "pend_ok st" "sync (edict st) cur d prev" "fin = finish (comp_loop st cur inp)" "\<not> ec_overflowed fin"
    "at d pos = soff st" "drop_bit (soff st) (le_nat p) = drop_bit (soff st) (sval fin)"
    "enough p pos rounds counter" "fits_in lim (length out + length (expand (edict st) cur) + length inp)"
  shows "decodes_to rounds prev d p pos counter out lim (out @ expand (edict st) cur @ inp)"
  using assms
proof (induction "length inp" arbitrary: st cur inp d prev pos rounds counter out rule: less_induct)
  case less
  note a = less.prems and e = enc_invD [OF less.prems(1)]
  define D where "D = edict st"
  define s1 where "s1 = emit_code (count_input st) cur"
  have w: "dc_bit_count d = ec_width st" using sync_width [OF a(3)] e(5,7) by simp
  have i1: "enc_inv s1 cur" using a(1) by (simp add: s1_def)
  have S: "sync D cur d prev" using a(3) by (simp add: D_def)
  show ?case
  proof (cases inp)
    case Nil
    define t1 where "t1 = emit_code st cur"
    have f: "fin = emit_code (emit_code t1 CODE_END) 0" using a(4) by (simp add: Nil finish_def t1_def)
    have 1: "leads (0 < CODE_END) t1 (emit_code t1 CODE_END)" by (rule leads_emit) (use e(8) reset_fits(2) in \<open>simp add: t1_def\<close>)
    have 2: "leads (0 < (0 :: nat)) (emit_code t1 CODE_END) fin" unfolding f by (rule leads_emit) simp
    have l: "leads True t1 fin" using leads_trans [OF 1 2] by (simp add: CODE_END_def)
    obtain d' pos' rounds' where d': "dec_ok d'" "at d' pos' = soff t1" "pend_ok t1"
      "drop_bit (soff t1) (le_nat p) = drop_bit (soff t1) (sval fin)" "enough p pos' rounds' counter"
      "\<And>res. decodes_to rounds' (Some cur) d' p pos' counter (out @ expand D cur) lim res \<Longrightarrow>
        decodes_to rounds prev d p pos counter out lim res"
      using step_code [OF S a(2) w [symmetric] e(10) l [unfolded t1_def] a(5-8), folded t1_def, where out = out and lim = lim]
        fits_in_mono [OF a(9)] by (metis D_def le_add1)
    have "decodes_to rounds' (Some cur) d' p pos' counter (out @ expand D cur) lim (out @ expand D cur)"
      by (rule step_end [OF d'(1,3) _ f a(5) d'(2,4,5)]) (use e(8) in \<open>simp add: t1_def\<close>)
    then show ?thesis using d'(6) by (simp add: Nil D_def)
  next
    case (Cons b inp')
    have nb: "unat b < 256" by (rule unat_u8)
    have c1: "cur < 2 ^ ec_width (count_input st)" using e(10) by simp
    text \<open>The code that is written, in the three cases that write it.\<close>
    have code: "\<exists>d' pos' rounds'. dec_ok d' \<and> ddict d' = D \<and> dc_dict_size d' = length D \<and> at d' pos' = soff s1 \<and> pend_ok s1 \<and>
        drop_bit (soff s1) (le_nat p) = drop_bit (soff s1) (sval fin) \<and> enough p pos' rounds' counter \<and>
        (\<forall>res. decodes_to rounds' (Some cur) d' p pos' counter (out @ expand D cur) lim res \<longrightarrow>
          decodes_to rounds prev d p pos counter out lim res)"
      if l: "leads True s1 fin"
    proof -
      have lim: "fits_in lim (length out + length (expand D cur))" using fits_in_mono [OF a(9)] by (simp add: D_def)
      show ?thesis
        by (rule step_code [OF S _ _ c1 l [unfolded s1_def] a(5) _ _ a(8) lim, folded s1_def])
          (use a(2,6,7) w in \<open>simp_all, blast\<close>)
    qed
    define s5 where "s5 = restart s1 cur (unat b)"
    have full: "\<exists>d' pos' rounds' counter'. dec_ok d' \<and> dc_dict_size d' = 0 \<and> dc_bit_count d' = 9 \<and> at d' pos' = soff s5 \<and> pend_ok s5 \<and>
        drop_bit (soff s5) (le_nat p) = drop_bit (soff s5) (sval fin) \<and> enough p pos' rounds' counter' \<and>
        (\<forall>res. decodes_to rounds' None d' p pos' counter' (out @ expand D cur @ [b]) lim res \<longrightarrow>
          decodes_to rounds prev d p pos counter out lim res)"
      if n: "ec_dict_size st + 1 = DICT_FULL" and l: "leads True s5 fin"
    proof -
      have l1: "leads True s1 s5" unfolding s5_def by (rule leads_restart) (use e(8) nb in \<open>simp_all add: s1_def\<close>)
      obtain d1 p1 r1 where d1: "dec_ok d1" "ddict d1 = D" "dc_dict_size d1 = length D" "at d1 p1 = soff s1" "pend_ok s1"
        "drop_bit (soff s1) (le_nat p) = drop_bit (soff s1) (sval fin)" "enough p p1 r1 counter"
        "\<And>res. decodes_to r1 (Some cur) d1 p p1 counter (out @ expand D cur) lim res \<Longrightarrow>
          decodes_to rounds prev d p pos counter out lim res"
        using code leads_trans [OF l1 l] by auto
      have lim: "fits_in lim (length (out @ expand D cur) + 1)" using fits_in_mono [OF a(9)] by (simp add: Cons D_def)
      have D': "dict_wf D" "code_ok (length D) cur" "length D + 1 = DICT_FULL" "ec_width s1 = enc_width (length D)"
        using e n by (simp_all add: D_def s1_def)
      show ?thesis
        by (rule step_restart [OF d1(1-3) D'(1-3) d1(5) D'(4) l [unfolded s5_def] a(5) d1(4,6,7) lim, folded s5_def])
          (use d1(8) in \<open>simp, blast\<close>)
    qed
    show ?thesis
    proof (cases rule: comp_loop_cases [of st cur b inp'])
      case (1 m)
      note m = enc_inv_match [OF a(1) 1(1), folded D_def]
      have x: "expand D (m + CODE_FIRST) = expand D cur @ [b]"
        using expand_entry [OF e(3) [folded D_def] m(2)] by (simp add: m(3))
      have sy: "sync (edict (count_input st)) (m + CODE_FIRST) d prev"
        using S m e(5) root_entry [OF e(3) [folded D_def] m(2)] by (simp add: sync_def D_def [symmetric] code_ok_def)
      have "decodes_to rounds prev d p pos counter out lim (out @ expand D (m + CODE_FIRST) @ inp')"
        using less.hyps [OF _ m(1) _ sy _ a(5) _ _ a(8), of inp' out] a(2,4,6,7,9) x
        by (simp add: Cons 1(2) D_def [symmetric])
      then show ?thesis using x by (simp add: Cons D_def)
    next
      case 2
      define s2 where "s2 = grow s1 cur (unat b)"
      have g: "enc_inv s2 (unat b)" "edict s2 = D @ [(cur, unat b)]"
        using enc_inv_grow [OF i1 _ nb] 2(2) by (simp_all add: s1_def s2_def D_def)
      have f: "fin = finish (comp_loop s2 (unat b) inp')" using a(4) 2(3) by (simp add: Cons s1_def s2_def)
      have l: "leads True s1 fin"
        using leads_trans [OF leads_grow comp_loop_leads [OF g(1) [unfolded s2_def]]] unfolding f s2_def by simp
      obtain d' pos' rounds' where d': "dec_ok d'" "ddict d' = D" "dc_dict_size d' = length D" "at d' pos' = soff s1" "pend_ok s1"
        "drop_bit (soff s1) (le_nat p) = drop_bit (soff s1) (sval fin)" "enough p pos' rounds' counter"
        "\<And>res. decodes_to rounds' (Some cur) d' p pos' counter (out @ expand D cur) lim res \<Longrightarrow>
          decodes_to rounds prev d p pos counter out lim res"
        using code [OF l] by blast
      have same: "pend_ok s2 = pend_ok s1" "soff s2 = soff s1" by (simp_all add: s2_def grow_def pend_ok_def soff_def)
      have sy: "sync (edict s2) (unat b) d' (Some cur)" unfolding g(2)
        by (rule sync_snoc) (use d' e nb in \<open>simp_all add: D_def\<close>)
      have "decodes_to rounds' (Some cur) d' p pos' counter (out @ expand D cur) lim ((out @ expand D cur) @ expand (edict s2) (unat b) @ inp')"
        using less.hyps [OF _ g(1) _ sy f a(5) _ _ d'(7), of "out @ expand D cur"] d'(4-6) same fits_in_mono [OF a(9)] nb by (simp add: Cons D_def)
      then show ?thesis using d'(8) nb by (simp add: Cons D_def)
    next
      case 3
      have f: "fin = emit_code (emit_code s5 CODE_END) 0"
        using a(4) 3(3) 3(4) [unfolded 3(3)] by (simp add: Cons s5_def s1_def finish_def)
      have w5: "ec_width s5 = 9" by (simp add: s5_def restart_def)
      have l: "leads True s5 fin" using leads_trans [OF leads_ended leads_zero, of "(s5, None)"] w5 by (simp add: f ended_def)
      obtain d' pos' rounds' counter' where d': "dec_ok d'" "at d' pos' = soff s5" "pend_ok s5"
        "drop_bit (soff s5) (le_nat p) = drop_bit (soff s5) (sval fin)" "enough p pos' rounds' counter'"
        "\<And>res. decodes_to rounds' None d' p pos' counter' (out @ expand D cur @ [b]) lim res \<Longrightarrow>
          decodes_to rounds prev d p pos counter out lim res"
        using full [OF 3(2) l] by blast
      have "decodes_to rounds' None d' p pos' counter' (out @ expand D cur @ [b]) lim (out @ expand D cur @ [b])"
        by (rule step_end [OF d'(1,3) _ f a(5) d'(2,4,5)]) (simp add: w5)
      then show ?thesis using d'(6) by (simp add: Cons 3(3) D_def)
    next
      case (4 c inp'')
      define s6 where "s6 = count_input s5"
      have i6: "enc_inv s6 (unat c)" "edict s6 = []"
        using enc_inv_restart [OF i1 unat_u8] by (simp_all add: s6_def s5_def)
      have f: "fin = finish (comp_loop s6 (unat c) inp'')"
        using a(4) 4(3) 4(4) [unfolded 4(3)] by (simp add: Cons s6_def s5_def s1_def)
      have l: "leads True s5 fin"
        using leads_trans [OF leads_count comp_loop_leads [OF i6(1) [unfolded s6_def]]] unfolding f s6_def by simp
      obtain d' pos' rounds' counter' where d': "dec_ok d'" "dc_dict_size d' = 0" "at d' pos' = soff s5" "pend_ok s5"
        "drop_bit (soff s5) (le_nat p) = drop_bit (soff s5) (sval fin)" "enough p pos' rounds' counter'"
        "\<And>res. decodes_to rounds' None d' p pos' counter' (out @ expand D cur @ [b]) lim res \<Longrightarrow>
          decodes_to rounds prev d p pos counter out lim res"
        using full [OF 4(2) l] by blast
      have nc: "unat c < 256" by (rule unat_u8)
      have sy: "sync (edict s6) (unat c) d' None"
        using d'(1,2) nc by (simp add: i6(2) sync_def dict_wf_def ddict_def)
      have "decodes_to rounds' None d' p pos' counter' (out @ expand D cur @ [b]) lim
          ((out @ expand D cur @ [b]) @ expand (edict s6) (unat c) @ inp'')"
        using less.hyps [OF _ i6(1) _ sy f a(5) _ _ d'(6), of "out @ expand D cur @ [b]"] d'(3-5) fits_in_mono [OF a(9)] nc
        by (simp add: Cons 4(3) D_def s6_def)
      then show ?thesis using d'(7) nc by (simp add: Cons 4(3) D_def)
    qed
  qed
qed

subsection \<open>The whole block\<close>

lemma final_no_pending:
  assumes "pend_ok st" "9 \<le> ec_width st" "\<not> ec_overflowed (emit_code st 0)"
  shows "sval (emit_code st 0) = le_nat (ec_out (emit_code st 0))"
proof -
  define f where "f = emit_code st 0"
  have z: "0 < (2 :: nat) ^ ec_width st" by simp
  note e = emit_code_stream [OF assms(1) z assms(3), folded f_def]
  have "sval f < 2 ^ soff st" using e(2) sval_less [OF assms(1)] by simp
  also have "\<dots> \<le> 2 ^ (8 * length (ec_out f))"
  proof (rule power_increasing)
    have "8 * length (ec_out f) + ec_pending_bits f = soff st + ec_width st" using e(3) by (simp add: soff_def)
    moreover have "ec_pending_bits f < 8" using e(1) by (simp add: pend_ok_def)
    ultimately show "soff st \<le> 8 * length (ec_out f)" using assms(2) by linarith
  qed simp
  finally have l: "sval f < 2 ^ (8 * length (ec_out f))" .
  have "ec_pending_byte f = 0"
  proof (rule ccontr)
    assume "ec_pending_byte f \<noteq> 0"
    then have "1 * 2 ^ (8 * length (ec_out f)) \<le> ec_pending_byte f * 2 ^ (8 * length (ec_out f))"
      by (intro mult_right_mono) simp_all
    then show False using l unfolding sval_def by linarith
  qed
  then show ?thesis by (simp add: sval_def f_def)
qed

lemma final_extends: "extends (start st (b # inp) limit) (final st b inp limit)"
  unfolding final_def
  by (rule extends_trans [OF emit_code_extends extends_trans [OF count_extends comp_loop_extends]])

text \<open>The header in front of the stream, once the length is stored in it.\<close>

lemma final_header:
  assumes "p = memcpy_at (ec_out (final st b inp limit)) 8 (put_u32 v)"
  shows "get_u32 p = MAGIC" "get_u32 (drop 8 p) = v" "length p = length (ec_out (final st b inp limit))"
    "drop 12 p = drop 12 (ec_out (final st b inp limit))" "12 \<le> length p"
proof -
  obtain r where r: "ec_out (final st b inp limit) = put_u32 MAGIC @ put_u32 (of_nat (length (b # inp))) @ put_u32 0 @ r"
    using final_extends [of st b inp limit] by (auto simp: extends_def start_def prefix_def)
  have p: "p = put_u32 MAGIC @ put_u32 (of_nat (length (b # inp))) @ put_u32 v @ r"
    unfolding assms r memcpy_at_def by simp
  show "get_u32 p = MAGIC" unfolding p by simp
  show "get_u32 (drop 8 p) = v" unfolding p by simp
  show "length p = length (ec_out (final st b inp limit))" unfolding p r by simp
  show "drop 12 p = drop 12 (ec_out (final st b inp limit))" unfolding p r by simp
  show "12 \<le> length p" unfolding p by simp
qed

lemma final_length:
  assumes "limit = 0 \<or> PAYLOAD_HEADER \<le> limit" "3 * length (b # inp) + 1 < 2 ^ 32"
  shows "length (ec_out (final st b inp limit)) < 2 ^ 32"
proof (cases "limit = 0 \<or> 12 + (3 * length (b # inp) + 1) div 2 + 8 \<le> limit")
  case True
  then show ?thesis using final_count(2) [OF True, of st] assms(2) by (simp add: soff_def)
next
  case False
  then have "length (ec_out (final st b inp limit)) \<le> limit"
    using final_extends [of st b inp limit] assms(1) by (simp add: extends_def start_def PAYLOAD_HEADER_def)
  moreover have "limit < 12 + (3 * length (b # inp) + 1) div 2 + 8" using False by auto
  moreover have "(3 * length (b # inp) + 1) div 2 < 2 ^ 31" by (rule less_mult_imp_div_less) (use assms(2) in simp)
  ultimately show ?thesis by simp
qed

text \<open>The stream of a whole block, from its first code on.\<close>

lemma final_stream:
  assumes "length (ec_nodes st) = DICT_NODES" "\<not> ec_overflowed (final st b inp limit)"
  shows "leads True (emit_code (start st (b # inp) limit) CODE_RESET) (final st b inp limit)"
    "sval (final st b inp limit) = le_nat (ec_out (final st b inp limit))"
    "pend_ok (start st (b # inp) limit)" "soff (start st (b # inp) limit) = 96" "ec_width (start st (b # inp) limit) = 9"
    "enc_inv (count_input (emit_code (start st (b # inp) limit) CODE_RESET)) (unat b)"
    "edict (count_input (emit_code (start st (b # inp) limit) CODE_RESET)) = []"
proof -
  define s0 where "s0 = start st (b # inp) limit"
  define s2 where "s2 = count_input (emit_code s0 CODE_RESET)"
  define s3 where "s3 = ended (comp_loop s2 (unat b) inp)"
  have fin: "final st b inp limit = emit_code s3 0" by (simp add: final_def finish_ended s2_def s0_def s3_def)
  have s0: "pend_ok s0" "soff s0 = 96" "ec_width s0 = 9" by (simp_all add: s0_def start_def pend_ok_def soff_def)
  then show "pend_ok (start st (b # inp) limit)" "soff (start st (b # inp) limit) = 96" "ec_width (start st (b # inp) limit) = 9"
    by (simp_all add: s0_def)
  have i2: "enc_inv s2 (unat b)" "edict s2 = []"
    using enc_inv_empty [of s2 "unat b"] unat_u8 [of b] assms(1) by (simp_all add: s2_def s0_def start_def)
  then show "enc_inv (count_input (emit_code (start st (b # inp) limit) CODE_RESET)) (unat b)"
    "edict (count_input (emit_code (start st (b # inp) limit) CODE_RESET)) = []" by (simp_all add: s2_def s0_def)
  have l2: "leads True s2 s3" and w: "9 \<le> ec_width s3" using comp_loop_ended [OF i2(1)] by (simp_all add: s3_def)
  note l1 = leads_trans [OF leads_count [of "emit_code s0 CODE_RESET", folded s2_def] l2]
  show "leads True (emit_code (start st (b # inp) limit) CODE_RESET) (final st b inp limit)"
    using leads_trans [OF l1 leads_zero] by (simp add: fin s0_def)
  have "leads (0 < CODE_RESET) s0 (emit_code s0 CODE_RESET)" by (rule leads_emit) (simp add: s0 CODE_RESET_def)
  from leads_trans [OF this l1] have l0: "leads True s0 s3" by simp
  have o: "\<not> ec_overflowed (emit_code s3 0)" using assms(2) by (simp add: fin)
  then have "\<not> ec_overflowed s3" using leads_zero [of s3] by (simp add: leads_def)
  then have "pend_ok s3" using l0 s0(1) by (simp add: leads_def)
  then show "sval (final st b inp limit) = le_nat (ec_out (final st b inp limit))"
    unfolding fin by (rule final_no_pending [OF _ w o])
qed

lemma compress_nonzero:
  assumes "src \<noteq> []" "limit = 0 \<or> 12 + (3 * length src + 1) div 2 + 8 \<le> limit" "3 * length src + 1 < 2 ^ 32"
  shows "fst (compress st src limit) \<noteq> 0"
proof -
  obtain b inp where src: "src = b # inp" using assms(1) by (cases src) auto
  have lm: "limit = 0 \<or> PAYLOAD_HEADER \<le> limit" using assms(2) by (auto simp: PAYLOAD_HEADER_def)
  have f: "\<not> ec_overflowed (final st b inp limit)" "12 < length (ec_out (final st b inp limit))"
    "length (ec_out (final st b inp limit)) < 2 ^ 32"
    using final_count [OF assms(2) [unfolded src], of st] final_length [OF lm assms(3) [unfolded src], of st] by simp_all
  have "unat (fst (compress st src limit)) = length (ec_out (final st b inp limit))"
    using compress_eq [OF lm, of st b inp] unat_of_nat_u32 [OF f(3)] f(1) by (simp add: src Let_def)
  then show ?thesis using f(2) by auto
qed

lemma decompress_compress:
  assumes "length (ec_nodes st) = DICT_NODES" "decoder_ready d" "compress st src limit = (n, st')" "n \<noteq> 0"
    "length (ec_out st') < 2 ^ 32" "lim = 0 \<or> length src \<le> lim"
  shows "\<exists>d'. decompress d (ec_out st') io_size lim = Some (of_nat (length src), src, d')"
proof -
  obtain b inp where src: "src = b # inp" using assms(3,4) by (cases src) (auto simp: compress_def)
  have lm: "limit = 0 \<or> PAYLOAD_HEADER \<le> limit"
    using assms(3,4) by (auto simp: src compress_def Let_def split: if_splits)
  define fin where "fin = final st b inp limit"
  define p where "p = memcpy_at (ec_out fin) 8 (put_u32 (of_nat (length (ec_out fin))))"
  have o: "\<not> ec_overflowed fin" and st': "ec_out st' = p"
    using compress_eq [OF lm, of st b inp] assms(3,4)
    by (auto simp: src fin_def [symmetric] Let_def p_def split: if_splits)
  note h = final_header [OF p_def [unfolded fin_def], folded fin_def]
    and f = final_stream [OF assms(1) o [unfolded fin_def], folded fin_def]
  define s0 where "s0 = start st (b # inp) limit"
  have u: "unat (of_nat (length p) :: u32) = length p"
    by (rule unat_of_nat_u32) (use assms(5) st' in simp)
  define d0 where "d0 = d\<lparr>dc_bit_count := 9, dc_mask := 0x1ff, dc_shift := 0, dc_dict_size := 0\<rparr>"
  have d0: "dec_ok d0" "dc_bit_count d0 = 9" "at d0 12 = 96"
    using assms(2) unfolding dec_ok_def decoder_ready_def d0_def mask_9 by (simp_all add: dec_width_0 at_def)
  have F: "drop_bit (soff s0) (le_nat p) = drop_bit (soff s0) (sval fin)"
    using le_nat_drop [of 12 p] le_nat_drop [of 12 "ec_out fin"] h(4) f(2,4) by (simp add: s0_def)
  have en: "enough p 12 (length p) (of_nat (length p))" using h(5) u by (simp add: enough_def)
  obtain d1 pos1 r1 where d1: "dec_ok d1" "dc_dict_size d1 = 0" "dc_bit_count d1 = 9"
    "at d1 pos1 = soff (emit_code s0 CODE_RESET)" "pend_ok (emit_code s0 CODE_RESET)"
    "drop_bit (soff (emit_code s0 CODE_RESET)) (le_nat p) = drop_bit (soff (emit_code s0 CODE_RESET)) (sval fin)"
    "enough p pos1 r1 (of_nat (length p) - 1)"
    "\<And>res. decodes_to r1 None d1 p pos1 (of_nat (length p) - 1) [] lim res \<Longrightarrow>
      decodes_to (length p) None d0 p 12 (of_nat (length p)) [] lim res"
    using step_reset [OF d0(1) f(3) _ f(1) o _ F [unfolded s0_def] en, folded s0_def, where prev = None and out = "[]" and lim = lim]
      d0(2,3) f(4,5) by (metis s0_def)
  define s2 where "s2 = count_input (emit_code s0 CODE_RESET)"
  have sy: "sync (edict s2) (unat b) d1 None"
    using d1(1,2) f(7) unat_u8 [of b] by (simp add: sync_def dict_wf_def ddict_def s2_def s0_def)
  have e: "expand (edict s2) (unat b) = [b]" using unat_u8 [of b] by simp
  have "decodes_to r1 None d1 p pos1 (of_nat (length p) - 1) [] lim ([] @ expand (edict s2) (unat b) @ inp)"
    by (rule decode_loop [where st = s2 and fin = fin, OF f(6) [folded s0_def, folded s2_def] _ sy _ o _ _ d1(7)])
      (use d1(4-6) e assms(6) in \<open>simp_all add: s2_def s0_def fin_def final_def fits_in_def src\<close>)
  then have "decodes_to (length p) None d0 p 12 (of_nat (length p)) [] lim src" using d1(8) e src by simp
  moreover have "decompress d p io_size lim = dec_loop (length p) None d0 p 12 (length p) (of_nat (length p)) [] lim"
    using h(1,2,3,5) u by (simp add: decompress_def Let_def d0_def PAYLOAD_HEADER_def)
  ultimately show ?thesis by (simp add: decodes_to_def st')
qed

text \<open>C25. The round trip of a save block: whatever dictionaries the two states still hold from earlier calls, the bytes
  that the compressor returns decompress to exactly its input, and the decompressor reports its length.  This holds
  across dictionary resets, across the widening of the codes (the compressor widens one entry later than the
  decompressor, which is one entry behind), for a code whose entry the decompressor is only about to learn, and for
  a dictionary that fills on the last byte; an output limit of at least the input's length never stops it, and the
  reset counter that is seeded with the compressed length never runs out.\<close>

theorem lzw_round_trip:
  assumes "length (ec_nodes st) = DICT_NODES" "decoder_ready d" "compress st src limit = (n, st')" "n \<noteq> 0"
    "3 * length src + 1 < 2 ^ 32" "lim = 0 \<or> length src \<le> lim"
  shows "\<exists>d'. decompress d (ec_out st') io_size lim = Some (of_nat (length src), src, d')"
proof (rule decompress_compress [OF assms(1-4) _ assms(6)])
  obtain b inp where src: "src = b # inp" using assms(3,4) by (cases src) (auto simp: compress_def)
  have lm: "limit = 0 \<or> PAYLOAD_HEADER \<le> limit"
    using assms(3,4) by (auto simp: src compress_def Let_def split: if_splits)
  show "length (ec_out st') < 2 ^ 32"
    using compress_eq [OF lm, of st b inp] assms(3,4) final_length [OF lm assms(5) [unfolded src], of st]
      final_header(3) [OF refl, of st b inp limit]
    by (auto simp: src Let_def split: if_splits)
qed

theorem lzw_round_trip_witness:
  "\<exists>n st' d'. compress \<lparr>ec_nodes = replicate DICT_NODES \<lparr>en_prefix = 1, en_ch = 2, en_next = 3\<rparr>, ec_heads = [], ec_tails = [],
      ec_dict_size = 3, ec_width = 11, ec_pending_bits = 5, ec_pending_byte = 1, ec_input_counter = 9, ec_out = [],
      ec_limit = 0, ec_overflowed = True\<rparr> [77, 72, 77, 72, 77, 72] 0 = (n, st') \<and>
    decompress \<lparr>dc_nodes = replicate DICT_NODES \<lparr>dn_prefix = 7, dn_ch = 3\<rparr>, dc_bit_count = 0, dc_mask = 0, dc_shift = 0,
      dc_dict_size = 0\<rparr> (ec_out st') 0 6 = Some (6, [77, 72, 77, 72, 77, 72], d')"
proof -
  define e where "e = \<lparr>ec_nodes = replicate DICT_NODES \<lparr>en_prefix = 1, en_ch = 2, en_next = 3\<rparr>, ec_heads = [], ec_tails = [],
    ec_dict_size = 3, ec_width = 11, ec_pending_bits = 5, ec_pending_byte = 1, ec_input_counter = 9, ec_out = [],
    ec_limit = 0, ec_overflowed = True\<rparr>"
  define d where "d = \<lparr>dc_nodes = replicate DICT_NODES \<lparr>dn_prefix = 7, dn_ch = 3\<rparr>, dc_bit_count = 0, dc_mask = 0, dc_shift = 0,
    dc_dict_size = 0\<rparr>"
  define src :: bytes where "src = [77, 72, 77, 72, 77, 72]"
  obtain n st' where c: "compress e src 0 = (n, st')" by (cases "compress e src 0")
  then have n: "n \<noteq> 0" using compress_nonzero [of src 0 e] by (simp add: src_def)
  have r: "length (ec_nodes e) = DICT_NODES" "decoder_ready d"
    by (simp_all add: e_def d_def decoder_ready_def DICT_NODES_def)
  have "\<exists>d'. decompress d (ec_out st') 0 6 = Some (of_nat (length src), src, d')"
    by (rule lzw_round_trip [OF r c n]) (simp_all add: src_def)
  then show ?thesis using c unfolding e_def [symmetric] d_def [symmetric] by (simp add: src_def)
qed

end
