(* ===== verification/Save_Block.thy ===== *)
theory Save_Block
  imports Lzw
begin

text \<open>
  The block layer of save files, \<open>libmh/save/save_block.cpp\<close>, over the compressor of \<open>Lzw_Encoder\<close> and
  \<open>Lzw_Decoder\<close>, and the other block format it reads, the LZSS decoder at the end of
  \<open>mh_dll/mh_common/lzw.cpp\<close>.  The file handle is the source's \<open>block_io\<close>: two callbacks, here functions over
  a state of the file, of which the read callback returns its count and the bytes that it stored.  The staging
  buffer is a byte list, and a destination is overlaid with what was written to it, so an overrun is a longer
  list.  The LZSS decoder may copy from in front of its destination: \<open>before k\<close> is the byte \<open>k\<close> places in front.
\<close>

subsection \<open>The LZSS decoder\<close>

record lzss =
  lz_flags :: u16
  lz_have :: nat
  lz_in :: nat

definition next_bit :: "bytes \<Rightarrow> lzss \<Rightarrow> bool \<times> lzss" where
  "next_bit inp st =
     (let b = (lz_flags st AND 0x8000 \<noteq> 0);
          st = st\<lparr>lz_flags := push_bit 1 (lz_flags st), lz_have := lz_have st - 1\<rparr> in
      (b, if lz_have st = 0
          then st\<lparr>lz_flags := get_u16 (drop (lz_in st) inp), lz_in := lz_in st + 2, lz_have := 16\<rparr> else st))"

fun len_bits :: "bytes \<Rightarrow> nat \<Rightarrow> nat \<Rightarrow> lzss \<Rightarrow> nat \<times> lzss" where
  "len_bits inp 0 len st = (len, st)"
| "len_bits inp (Suc i) len st =
     (case next_bit inp st of (b, st) \<Rightarrow> len_bits inp i (push_bit 1 len OR of_bool b) st)"

definition dst_at :: "(nat \<Rightarrow> u8) \<Rightarrow> bytes \<Rightarrow> int \<Rightarrow> u8" where
  "dst_at before out i = (if i < 0 then before (nat (- i)) else out ! nat i)"

fun copy_run :: "(nat \<Rightarrow> u8) \<Rightarrow> bytes \<Rightarrow> int \<Rightarrow> nat \<Rightarrow> bytes" where
  "copy_run before out copy 0 = out"
| "copy_run before out copy (Suc n) = copy_run before (out @ [dst_at before out copy]) (copy + 1) n"

lemma length_copy_run [simp]: "length (copy_run before out copy n) = length out + n"
  by (induction before out copy n rule: copy_run.induct) simp_all

function lzss_loop :: "(nat \<Rightarrow> u8) \<Rightarrow> bytes \<Rightarrow> nat \<Rightarrow> lzss \<Rightarrow> bytes \<Rightarrow> bytes" where
  "lzss_loop before inp end st out =
     (if length out < end then
        (case next_bit inp st of
           (False, st) \<Rightarrow> lzss_loop before inp end (st\<lparr>lz_in := lz_in st + 1\<rparr>) (out @ [inp ! lz_in st])
         | (True, st) \<Rightarrow>
             (case len_bits inp 3 0 st of
                (len, st) \<Rightarrow>
                  (let offset = unat (inp ! lz_in st) in
                   lzss_loop before inp end (st\<lparr>lz_in := lz_in st + 1\<rparr>)
                     (copy_run before out (int (length out) + int offset - 256) (len + 2)))))
      else out)"
  by pat_completeness auto
termination
  by (relation "measure (\<lambda>(_, _, end, _, out). end - length out)") auto

declare lzss_loop.simps [simp del]

definition lzss_decompress_block :: "(nat \<Rightarrow> u8) \<Rightarrow> bytes \<Rightarrow> bytes" where
  "lzss_decompress_block before block =
     lzss_loop before block (unat (get_u32 (drop 4 block)))
       \<lparr>lz_flags = get_u16 (drop 8 block), lz_have = 16, lz_in = 10\<rparr> []"

subsection \<open>Blocks\<close>

definition BLOCK_HEADER :: nat where "BLOCK_HEADER = 8"
definition BLOCK_READ_CAP :: nat where "BLOCK_READ_CAP = 0x927c0"
definition STAGING_SLACK :: nat where "STAGING_SLACK = 8"
definition STAGING_BYTES :: nat where "STAGING_BYTES = BLOCK_READ_CAP + STAGING_SLACK"

record 'f block_io =
  io_write :: "'f \<Rightarrow> bytes \<Rightarrow> int \<times> 'f"
  io_read :: "'f \<Rightarrow> nat \<Rightarrow> int \<times> bytes \<times> 'f"

record block_workspace =
  ws_staging :: bytes
  ws_max_seen :: "u32 option"
  ws_encoder :: encoder_state
  ws_decoder :: decoder_state
  ws_strict :: bool

definition write_block :: "'f block_io \<Rightarrow> block_workspace \<Rightarrow> bytes \<Rightarrow> 'f \<Rightarrow> nat \<times> block_workspace \<times> 'f" where
  "write_block io ws src f =
     (let (len, enc) = compress (ws_encoder ws) src (STAGING_BYTES - BLOCK_HEADER);
          ws = ws\<lparr>ws_encoder := enc,
                  ws_staging := (if src = [] then ws_staging ws else memcpy_at (ws_staging ws) BLOCK_HEADER (ec_out enc))\<rparr> in
      if len = 0 then (1, ws, f)
      else
        (let ws = ws\<lparr>ws_staging := memcpy_at (ws_staging ws) 0 (put_u32 len @ put_u32 (of_nat (length src)))\<rparr>;
             (n, f) = io_write io f (take (unat len + BLOCK_HEADER) (ws_staging ws));
             ws = ws\<lparr>ws_max_seen := map_option (\<lambda>m. if m < len then len else m) (ws_max_seen ws)\<rparr> in
         (if n \<noteq> 1 then 1 else 0, ws, f)))"

text \<open>What the size that \<open>decompress\<close> reports means, by its sign.\<close>

definition size_status :: "u32 \<Rightarrow> int" where
  "size_status n =
     (if sint n < - 1 then 0 else if sint n = - 1 then - 1 else if n = 0 then 1 else 0)"

definition overlay :: "bytes \<Rightarrow> bytes \<Rightarrow> bytes" where
  "overlay out dst = out @ drop (length out) dst"

definition read_block :: "'f block_io \<Rightarrow> (nat \<Rightarrow> u8) \<Rightarrow> block_workspace \<Rightarrow> bytes \<Rightarrow> u32 \<Rightarrow> 'f
    \<Rightarrow> (int \<times> bytes \<times> block_workspace \<times> 'f) option" where
  "read_block io before ws dst dst_size f =
     (let (_, b, f) = io_read io f BLOCK_HEADER;
          ws = ws\<lparr>ws_staging := memcpy_at (ws_staging ws) 0 b\<rparr>;
          compressed_len = get_u32 (ws_staging ws);
          uncompressed_size = get_u32 (drop 4 (ws_staging ws)) in
      if uncompressed_size \<noteq> dst_size then Some (1, dst, ws, f)
      else if unat compressed_len > BLOCK_READ_CAP then Some (1, dst, ws, f)
      else
        (let (got, b, f) = io_read io f (unat compressed_len);
             ws = ws\<lparr>ws_staging := memcpy_at (ws_staging ws) BLOCK_HEADER b\<rparr> in
         if ws_strict ws \<and> of_int got \<noteq> compressed_len then Some (1, dst, ws, f)
         else
           (case decompress (ws_decoder ws) (drop BLOCK_HEADER (ws_staging ws)) compressed_len (unat dst_size) of
              None \<Rightarrow> None
            | Some (n, out, dec) \<Rightarrow>
                (let ws = ws\<lparr>ws_decoder := dec\<rparr>; dst = overlay out dst; status = size_status n in
                 if status = - 1
                 then Some (0, overlay (lzss_decompress_block before (ws_staging ws)) dst, ws, f)
                 else Some (status, dst, ws, f)))))"

subsection \<open>The LZSS decoder ends, a little past its end\<close>

lemma len_bits_less: "fst (len_bits inp i len st) < (len + 1) * 2 ^ i"
proof (induction i arbitrary: len st)
  case (Suc i)
  obtain b st' where n: "next_bit inp st = (b, st')" by (cases "next_bit inp st")
  have "push_bit 1 len OR of_bool b = 2 * len + of_bool b"
    by (cases b) (simp_all add: or_Suc_0_eq)
  then have l: "(push_bit 1 len OR of_bool b) + 1 \<le> 2 * (len + 1)" by simp
  have "fst (len_bits inp (Suc i) len st) < ((push_bit 1 len OR of_bool b) + 1) * 2 ^ i"
    using Suc [of "push_bit 1 len OR of_bool b" st'] by (simp add: n)
  also have "\<dots> \<le> 2 * (len + 1) * 2 ^ i" using l by (rule mult_right_mono) simp
  finally show ?case by simp
qed simp

lemma lzss_loop_bounds:
  "length out \<le> fin + 8 \<Longrightarrow> fin \<le> length (lzss_loop before inp fin st out) \<and> length (lzss_loop before inp fin st out) \<le> fin + 8"
proof (induction before inp fin st out rule: lzss_loop.induct)
  case (1 before inp fin st out)
  show ?case
  proof (cases "length out < fin")
    case True
    obtain b st' where n: "next_bit inp st = (b, st')" by (cases "next_bit inp st")
    show ?thesis
    proof (cases b)
      case False
      then show ?thesis using 1(2) [OF True n [symmetric]] True by (subst (1 2) lzss_loop.simps) (simp add: n)
    next
      case t: True
      obtain len st'' where l: "len_bits inp 3 0 st' = (len, st'')" by (cases "len_bits inp 3 0 st'")
      have "len < 8" using len_bits_less [of inp 3 0 st'] by (simp add: l)
      then have "length (copy_run before out (int (length out) + int (unat (inp ! lz_in st'')) - 256) (len + 2)) \<le> fin + 8"
        using True by simp
      then show ?thesis using 1(1) [OF True n [symmetric] _ l [symmetric] refl] t True
        by (subst (1 2) lzss_loop.simps) (simp add: n l)
    qed
  qed (use 1(3) in \<open>subst (1 2) lzss_loop.simps, simp\<close>)
qed

text \<open>The offset of a reference is one byte, so what it copies is already written or lies in front.\<close>

subsection \<open>The decoder reads its payload only\<close>

lemma load_bits_append: "fin \<le> length p \<Longrightarrow> load_bits (p @ q) pos fin = load_bits p pos fin"
  by (rule bit_eqI) (auto simp: bit_load_bits nth_append)

lemma read_code_append: "fin \<le> length p \<Longrightarrow> read_code st (p @ q) pos fin counter = read_code st p pos fin counter"
  by (simp add: read_code_def load_bits_append)

lemma dec_loop_append:
  "fin \<le> length p \<Longrightarrow> dec_loop rounds prev st (p @ q) pos fin counter out limit = dec_loop rounds prev st p pos fin counter out limit"
  by (induction rounds arbitrary: prev st pos counter out)
    (simp_all add: read_code_append Let_def split: prod.split code_status.split)

lemma get_u32_append: "4 \<le> length p \<Longrightarrow> get_u32 (p @ q) = get_u32 p"
  by (cases p) (auto simp: get_u32_def nth_append)

lemma decompress_append:
  assumes "PAYLOAD_HEADER \<le> length p" "unat (get_u32 (drop 8 p)) \<le> length p" "get_u32 p = MAGIC"
  shows "decompress st (p @ q) io_size limit = decompress st p io_size limit"
proof -
  have g: "get_u32 (p @ q) = get_u32 p" "get_u32 (drop 8 (p @ q)) = get_u32 (drop 8 p)"
    using assms(1) get_u32_append [of p q] get_u32_append [of "drop 8 p" q] by (simp_all add: PAYLOAD_HEADER_def)
  show ?thesis
    unfolding decompress_def g using assms
    by (auto simp: Let_def intro!: dec_loop_append)
qed

subsection \<open>What is on the file\<close>

lemma compress_result:
  assumes "compress st src limit = (n, st')" "n \<noteq> 0" "limit \<noteq> 0" "limit < 2 ^ 32"
  shows "src \<noteq> []" "unat n = length (ec_out st')" "length (ec_out st') \<le> limit" "PAYLOAD_HEADER \<le> length (ec_out st')"
    "get_u32 (ec_out st') = MAGIC" "get_u32 (drop 8 (ec_out st')) = n"
proof -
  obtain b inp where src: "src = b # inp" using assms(1,2) by (cases src) (auto simp: compress_def)
  then show "src \<noteq> []" by simp
  have lm: "limit = 0 \<or> PAYLOAD_HEADER \<le> limit"
    using assms(1,2) by (auto simp: src compress_def Let_def split: if_splits)
  have r: "n = of_nat (length (ec_out (final st b inp limit)))"
    "ec_out st' = memcpy_at (ec_out (final st b inp limit)) 8 (put_u32 n)"
    using compress_eq [OF lm, of st b inp] assms(1,2) by (auto simp: src Let_def split: if_splits)
  note h = final_header [OF r(2)]
  have l: "length (ec_out (final st b inp limit)) \<le> limit"
    using final_extends [of st b inp limit] lm assms(3) by (simp add: extends_def start_def PAYLOAD_HEADER_def)
  then show "length (ec_out st') \<le> limit" using h(3) by simp
  show "unat n = length (ec_out st')" unfolding r(1) h(3) by (rule unat_of_nat_u32) (use l assms(4) in simp)
  show "PAYLOAD_HEADER \<le> length (ec_out st')" "get_u32 (ec_out st') = MAGIC" "get_u32 (drop 8 (ec_out st')) = n"
    using h by (simp_all add: PAYLOAD_HEADER_def)
qed

text \<open>The bytes that \<open>write_block\<close> hands to the file.\<close>

definition block_of :: "block_workspace \<Rightarrow> bytes" where
  "block_of ws = take (unat (get_u32 (ws_staging ws)) + BLOCK_HEADER) (ws_staging ws)"

lemma write_block_written:
  assumes w: "write_block io ws src f = (0, ws', f')" and st: "length (ws_staging ws) = STAGING_BYTES"
  obtains len enc where "compress (ws_encoder ws) src BLOCK_READ_CAP = (len, enc)" "len \<noteq> 0"
    "block_of ws' = put_u32 len @ put_u32 (of_nat (length src)) @ ec_out enc" "fst (io_write io f (block_of ws')) = 1"
    "unat len = length (ec_out enc)" "length (ec_out enc) \<le> BLOCK_READ_CAP" "src \<noteq> []"
proof -
  obtain len enc where c: "compress (ws_encoder ws) src BLOCK_READ_CAP = (len, enc)"
    by (cases "compress (ws_encoder ws) src BLOCK_READ_CAP")
  have b: "STAGING_BYTES - BLOCK_HEADER = BLOCK_READ_CAP" by (simp add: STAGING_BYTES_def STAGING_SLACK_def BLOCK_HEADER_def)
  have nz: "len \<noteq> 0" using w by (auto simp: write_block_def b c Let_def)
  have cap: "BLOCK_READ_CAP \<noteq> 0" "BLOCK_READ_CAP < 2 ^ 32" by (simp_all add: BLOCK_READ_CAP_def)
  note r = compress_result [OF c nz cap]
  define s1 where "s1 = memcpy_at (memcpy_at (ws_staging ws) BLOCK_HEADER (ec_out enc)) 0 (put_u32 len @ put_u32 (of_nat (length src)))"
  have e: "s1 = put_u32 len @ put_u32 (of_nat (length src)) @ ec_out enc @ drop (BLOCK_HEADER + length (ec_out enc)) (ws_staging ws)"
    using st r(3) by (simp add: s1_def memcpy_at_def BLOCK_HEADER_def STAGING_BYTES_def STAGING_SLACK_def)
  obtain k f1 where k: "io_write io f (take (unat len + BLOCK_HEADER) s1) = (k, f1)"
    by (cases "io_write io f (take (unat len + BLOCK_HEADER) s1)")
  have ws': "ws_staging ws' = s1" "k = 1"
    using w nz r(1) k by (auto simp: write_block_def b c Let_def s1_def split: if_splits)
  have g: "get_u32 (ws_staging ws') = len" unfolding ws' e by simp
  have "block_of ws' = take (unat len + BLOCK_HEADER) s1"
    unfolding block_of_def g unfolding ws'(1) by (rule refl)
  moreover have "take (unat len + BLOCK_HEADER) s1 = put_u32 len @ put_u32 (of_nat (length src)) @ ec_out enc"
    using r(2) by (simp add: e BLOCK_HEADER_def)
  ultimately show ?thesis using that [OF c nz] k ws'(2) r(1,2,3) by simp
qed

lemma size_status_ok: "0 < n \<Longrightarrow> n < 2 ^ 31 \<Longrightarrow> size_status (of_nat n) = 0"
proof -
  assume n: "0 < n" "n < 2 ^ 31"
  have "uint (of_nat n :: u32) = int n" unfolding uint_nat using unat_of_nat_u32 [of n] n(2) by simp
  then have "sint (of_nat n :: u32) = int n" using n(2) by (simp add: sint_uint signed_take_bit_int_eq_self)
  moreover have "of_nat n \<noteq> (0 :: u32)" using n by (simp add: word_of_nat_eq_0_iff nat_dvd_not_less)
  ultimately show ?thesis using n by (simp add: size_status_def)
qed

text \<open>C28. A block that \<open>write_block\<close> reports as written is read back: from a file that returns the bytes it was handed,
  \<open>read_block\<close> into an array of the same size succeeds and leaves exactly the array that was written there, whatever the
  staging buffer, the codec states and the array held before, and in the strict mode too.  The block fits the reader's
  cap, because the writer's output limit is the same number.\<close>

theorem save_block_round_trip:
  assumes "write_block io ws src f = (0, ws', f')" "length (ws_staging ws) = STAGING_BYTES"
    "length (ec_nodes (ws_encoder ws)) = DICT_NODES" "length src < 2 ^ 31"
    "length (ws_staging rs) = STAGING_BYTES" "decoder_ready (ws_decoder rs)" "length dst = length src"
    "io_read io g 8 = (c, take 8 (block_of ws'), g1)"
    "io_read io g1 (length (block_of ws') - 8) = (int (length (block_of ws') - 8), drop 8 (block_of ws'), g2)"
  shows "\<exists>rs'. read_block io before rs dst (of_nat (length src)) g = Some (0, src, rs', g2)"
proof -
  obtain len enc where w: "compress (ws_encoder ws) src BLOCK_READ_CAP = (len, enc)" "len \<noteq> 0"
    "block_of ws' = put_u32 len @ put_u32 (of_nat (length src)) @ ec_out enc"
    "unat len = length (ec_out enc)" "length (ec_out enc) \<le> BLOCK_READ_CAP" "src \<noteq> []"
    by (rule write_block_written [OF assms(1,2)])
  have cap: "BLOCK_READ_CAP \<noteq> 0" "BLOCK_READ_CAP < 2 ^ 32" by (simp_all add: BLOCK_READ_CAP_def)
  note r = compress_result [OF w(1,2) cap]
  define hdr where "hdr = put_u32 len @ put_u32 (of_nat (length src))"
  define s1 where "s1 = memcpy_at (ws_staging rs) 0 hdr"
  define s2 where "s2 = memcpy_at s1 BLOCK_HEADER (ec_out enc)"
  have h8: "length hdr = 8" by (simp add: hdr_def)
  have rd1: "io_read io g BLOCK_HEADER = (c, hdr, g1)" using assms(8) by (simp add: w(3) hdr_def BLOCK_HEADER_def)
  have rd2: "io_read io g1 (unat len) = (int (unat len), ec_out enc, g2)" using assms(9) by (simp add: w(3,4))
  have e1: "s1 = hdr @ drop 8 (ws_staging rs)" by (simp add: s1_def memcpy_at_def h8)
  have g: "get_u32 s1 = len" "get_u32 (drop 4 s1) = of_nat (length src)" by (simp_all add: e1 hdr_def)
  have e2: "drop BLOCK_HEADER s2 = ec_out enc @ drop (8 + length (ec_out enc)) (ws_staging rs)"
    using h8 assms(5) w(5) by (simp add: s2_def e1 memcpy_at_def BLOCK_HEADER_def STAGING_BYTES_def STAGING_SLACK_def add.commute)
  have u: "unat (of_nat (length src) :: u32) = length src" by (rule unat_of_nat_u32) (use assms(4) in simp)
  have l32: "length (ec_out enc) < 2 ^ 32" using w(5) cap(2) by linarith
  obtain d where d: "decompress (ws_decoder rs) (ec_out enc) len (length src) = Some (of_nat (length src), src, d)"
    using decompress_compress [OF assms(3,6) w(1,2) l32, of "length src" len] by blast
  have "decompress (ws_decoder rs) (drop BLOCK_HEADER s2) len (length src) = Some (of_nat (length src), src, d)"
    unfolding e2 using decompress_append [OF r(4) _ r(5)] r(2,6) d by simp
  moreover have "size_status (of_nat (length src)) = 0" by (rule size_status_ok) (use w(6) assms(4) in simp_all)
  moreover have "overlay src dst = src" using assms(7) by (simp add: overlay_def)
  moreover have "\<not> unat len > BLOCK_READ_CAP" using w(4,5) by simp
  ultimately show ?thesis
    by (simp add: read_block_def rd1 rd2 s1_def [symmetric] s2_def [symmetric] g u)
qed

lemma size_status_cases: "size_status n = 0 \<or> size_status n = 1 \<or> size_status n = - 1"
  by (simp add: size_status_def)

lemma size_status_small: "n = 0 \<or> n = of_nat k \<Longrightarrow> k < 2 ^ 31 \<Longrightarrow> size_status n \<noteq> - 1"
  using size_status_ok [of k] by (cases "k = 0") (auto simp: size_status_def)

lemma length_overlay: "length (overlay out dst) = max (length out) (length dst)"
  by (simp add: overlay_def)

text \<open>C29. Whatever a save file contains, \<open>read_block\<close> returns, with 0 or 1, and keeps the decoder usable.  A payload that
  is LZW never writes outside the array it is read into, provided the array is not empty: the size of an empty one is the
  bound 0, which the decompressor takes for no bound.  A payload in the other format may write outside: the LZSS decoder up
  to eight bytes past the array, and before it the raw copy, which is as long as the block claims its payload to be
  however long the array is.  A block whose stated size is not the array's, or whose payload is beyond the cap, leaves
  the array as it was.\<close>

theorem read_block_contained:
  assumes "decoder_ready (ws_decoder rs)" "length dst = unat dst_size" "length dst < 2 ^ 31" "length (ws_staging rs) = STAGING_BYTES"
  shows "\<exists>status dst' rs' g'. read_block io before rs dst dst_size g = Some (status, dst', rs', g') \<and>
    (status = 0 \<or> status = 1) \<and> decoder_ready (ws_decoder rs') \<and> length dst \<le> length dst' \<and>
    (get_u32 (drop 8 (ws_staging rs')) = MAGIC \<and> dst \<noteq> [] \<longrightarrow> length dst' = length dst) \<and>
    (get_u32 (drop 8 (ws_staging rs')) \<noteq> MAGIC \<longrightarrow> length dst' \<le> max (length dst + 8) (unat (get_u32 (ws_staging rs')))) \<and>
    (get_u32 (drop 8 (ws_staging rs')) \<noteq> MAGIC \<and> status = 0 \<longrightarrow> unat (get_u32 (ws_staging rs')) \<le> length dst') \<and>
    (get_u32 (drop 4 (ws_staging rs')) \<noteq> dst_size \<or> BLOCK_READ_CAP < unat (get_u32 (ws_staging rs')) \<longrightarrow> status = 1 \<and> dst' = dst)"
proof -
  obtain c b g1 where rd1: "io_read io g BLOCK_HEADER = (c, b, g1)" by (cases "io_read io g BLOCK_HEADER")
  define s1 where "s1 = memcpy_at (ws_staging rs) 0 b"
  define n where "n = get_u32 s1"
  obtain got b2 g2 where rd2: "io_read io g1 (unat n) = (got, b2, g2)" by (cases "io_read io g1 (unat n)")
  define s2 where "s2 = memcpy_at s1 BLOCK_HEADER b2"
  have l1: "8 \<le> length s1" using assms(4) by (simp add: s1_def memcpy_at_def STAGING_BYTES_def BLOCK_READ_CAP_def STAGING_SLACK_def)
  have l2: "BLOCK_READ_CAP + 8 \<le> length s2"
    using assms(4) by (simp add: s2_def s1_def memcpy_at_def STAGING_BYTES_def STAGING_SLACK_def BLOCK_HEADER_def)
  have k: "get_u32 s2 = n" "get_u32 (drop 4 s2) = get_u32 (drop 4 s1)"
    using l1 by (simp_all add: s2_def n_def memcpy_at_def BLOCK_HEADER_def get_u32_def nth_append)
  obtain m out d where d: "decompress (ws_decoder rs) (drop BLOCK_HEADER s2) n (unat dst_size) = Some (m, out, d)" "decoder_ready d"
    "if get_u32 (drop BLOCK_HEADER s2) = MAGIC
     then (unat dst_size = 0 \<or> length out \<le> unat dst_size) \<and> (m = 0 \<or> m = of_nat (length out))
     else m = SIZE_NOT_LZW \<and> out = take (unat n) (drop BLOCK_HEADER s2)"
    using decompress_total [OF assms(1), of "drop BLOCK_HEADER s2" n "unat dst_size"] by blast
  consider "get_u32 (drop 4 s1) \<noteq> dst_size \<or> unat n > BLOCK_READ_CAP"
    | "get_u32 (drop 4 s1) = dst_size" "unat n \<le> BLOCK_READ_CAP" "ws_strict rs \<and> of_int got \<noteq> n"
    | "get_u32 (drop 4 s1) = dst_size" "unat n \<le> BLOCK_READ_CAP" "\<not> (ws_strict rs \<and> of_int got \<noteq> n)" by linarith
  then show ?thesis
  proof cases
    case 1
    then have "read_block io before rs dst dst_size g = Some (1, dst, rs\<lparr>ws_staging := s1\<rparr>, g1)"
      by (auto simp: read_block_def rd1 s1_def [symmetric] n_def [symmetric] Let_def)
    then show ?thesis using assms(1) by (simp add: le_max_iff_disj)
  next
    case 2
    then have "read_block io before rs dst dst_size g = Some (1, dst, rs\<lparr>ws_staging := s2\<rparr>, g2)"
      by (auto simp: read_block_def rd1 rd2 s1_def [symmetric] s2_def [symmetric] n_def [symmetric] Let_def)
    then show ?thesis using 2 assms(1) k by (simp add: le_max_iff_disj)
  next
    case 3
    define lz where "lz = lzss_decompress_block before s2"
    have lz: "length lz \<le> length dst + 8"
      using lzss_loop_bounds [of "[]"] by (simp add: lz_def lzss_decompress_block_def k 3(1) assms(2))
    have e: "read_block io before rs dst dst_size g = Some
      (if size_status m = - 1 then (0, overlay lz (overlay out dst), rs\<lparr>ws_staging := s2, ws_decoder := d\<rparr>, g2)
       else (size_status m, overlay out dst, rs\<lparr>ws_staging := s2, ws_decoder := d\<rparr>, g2))"
      using 3 d(1) by (auto simp: read_block_def rd1 rd2 s1_def [symmetric] s2_def [symmetric] n_def [symmetric] lz_def Let_def)
    have mg: "length out \<le> length dst" "size_status m \<noteq> - 1" if "get_u32 (drop 8 s2) = MAGIC" "dst \<noteq> []"
      using d(3) that assms(2,3) size_status_small [of m "length out"] by (auto simp: BLOCK_HEADER_def)
    have raw: "length out \<le> unat n" if "get_u32 (drop 8 s2) \<noteq> MAGIC" using d(3) that by (simp add: BLOCK_HEADER_def)
    have raw2: "length out = unat n" if "get_u32 (drop 8 s2) \<noteq> MAGIC"
      using d(3) that l2 3(2) by (simp add: BLOCK_HEADER_def)
    have sz: "\<not> (get_u32 (drop 4 s2) \<noteq> dst_size \<or> BLOCK_READ_CAP < unat (get_u32 s2))" using 3 k by simp
    show ?thesis
      using size_status_cases [of m] mg raw raw2 lz sz d(2) unfolding e
      by (auto simp: length_overlay k(1))
  qed
qed

definition demo_io :: "bytes block_io" where
  "demo_io = \<lparr>io_write = (\<lambda>f d. (1, f @ d)), io_read = (\<lambda>f n. (int (length (take n f)), take n f, drop n f))\<rparr>"

definition demo_ws :: block_workspace where
  "demo_ws = \<lparr>ws_staging = replicate STAGING_BYTES 7, ws_max_seen = Some 3,
     ws_encoder = \<lparr>ec_nodes = replicate DICT_NODES \<lparr>en_prefix = 1, en_ch = 2, en_next = 3\<rparr>, ec_heads = [], ec_tails = [],
       ec_dict_size = 3, ec_width = 11, ec_pending_bits = 5, ec_pending_byte = 1, ec_input_counter = 9, ec_out = [],
       ec_limit = 0, ec_overflowed = True\<rparr>,
     ws_decoder = \<lparr>dc_nodes = replicate DICT_NODES \<lparr>dn_prefix = 7, dn_ch = 3\<rparr>, dc_bit_count = 0, dc_mask = 0, dc_shift = 0,
       dc_dict_size = 0\<rparr>, ws_strict = True\<rparr>"

lemma demo_ok:
  "length (ws_staging demo_ws) = STAGING_BYTES" "length (ec_nodes (ws_encoder demo_ws)) = DICT_NODES"
  "decoder_ready (ws_decoder demo_ws)"
  by (simp_all add: demo_ws_def decoder_ready_def DICT_NODES_def)

theorem save_block_round_trip_witness:
  "\<exists>ws' f' rs'. write_block demo_io demo_ws [1, 2, 3] [] = (0, ws', f') \<and>
    read_block demo_io (\<lambda>_. 0) demo_ws [9, 9, 9] 3 (block_of ws') = Some (0, [1, 2, 3], rs', [])"
proof -
  obtain k ws' f' where w: "write_block demo_io demo_ws [1, 2, 3] [] = (k, ws', f')"
    by (cases "write_block demo_io demo_ws [1, 2, 3] []")
  have n: "fst (compress (ws_encoder demo_ws) [1, 2, 3] BLOCK_READ_CAP) \<noteq> 0"
    by (rule compress_nonzero) (simp_all add: BLOCK_READ_CAP_def)
  have b: "STAGING_BYTES - BLOCK_HEADER = BLOCK_READ_CAP" by (simp add: STAGING_BYTES_def STAGING_SLACK_def BLOCK_HEADER_def)
  have "k = 0" using w n by (auto simp: write_block_def b Let_def demo_io_def split: prod.splits if_splits)
  then have w0: "write_block demo_io demo_ws [1, 2, 3] [] = (0, ws', f')" using w by simp
  have "\<exists>len (enc :: encoder_state). block_of ws' = put_u32 len @ put_u32 (of_nat (length [1, 2, 3 :: u8])) @ ec_out enc"
    by (rule write_block_written [OF w0 demo_ok(1)]) (intro exI, assumption)
  then obtain len and enc :: encoder_state where bl: "block_of ws' = put_u32 len @ put_u32 (of_nat (length [1, 2, 3 :: u8])) @ ec_out enc"
    by (elim exE)
  have rd: "io_read demo_io (block_of ws') 8 = (int 8, take 8 (block_of ws'), drop 8 (block_of ws'))"
    "io_read demo_io (drop 8 (block_of ws')) (length (block_of ws') - 8) =
      (int (length (block_of ws') - 8), drop 8 (block_of ws'), [])"
    by (simp_all add: demo_io_def bl)
  have l: "length [1, 2, 3 :: u8] < 2 ^ 31" "length [9, 9, 9 :: u8] = length [1, 2, 3 :: u8]" by simp_all
  have "\<exists>rs'. read_block demo_io (\<lambda>_. 0) demo_ws [9, 9, 9] (of_nat (length [1, 2, 3 :: u8])) (block_of ws') = Some (0, [1, 2, 3], rs', [])"
    by (rule save_block_round_trip [OF w0 demo_ok(1,2) l(1) demo_ok(1,3) l(2) rd])
  then show ?thesis using w0 by auto
qed

theorem read_block_contained_witness:
  "\<exists>status dst' rs' g'. read_block demo_io (\<lambda>_. 0) demo_ws [9, 9, 9] 3 [1, 0, 0, 0, 4, 0, 0, 0, 5] = Some (status, dst', rs', g') \<and>
    (status = 0 \<or> status = 1) \<and> 3 \<le> length dst'"
proof -
  have h: "length [9, 9, 9 :: u8] = unat (3 :: u32)" "length [9, 9, 9 :: u8] < 2 ^ 31" by simp_all
  obtain status dst' rs' g' where
    "read_block demo_io (\<lambda>_. 0) demo_ws [9, 9, 9] 3 [1, 0, 0, 0, 4, 0, 0, 0, 5] = Some (status, dst', rs', g')"
    "status = 0 \<or> status = 1" "length [9, 9, 9 :: u8] \<le> length dst'"
    using read_block_contained [OF demo_ok(3) h demo_ok(1), of demo_io "\<lambda>_. 0" "[1, 0, 0, 0, 4, 0, 0, 0, 5]"] by blast
  then show ?thesis by auto
qed

end
