(* ===== verification/Mesh_Elect.thy ===== *)
theory Mesh_Elect
  imports Byteio "HOL-Library.Product_Lexorder" "HOL-Library.Multiset"
begin

text \<open>
  The pure rules of host migration, \<open>mh_net_udp/mesh.h\<close>: the matrix of measured round trips, the election of a
  successor, the digest of what the election reads, the quorum that may play on after a crash, and when a new
  election is published.  Player numbers are \<open>nat\<close> below \<open>MAXP\<close>, sets of players the source's masks.  Round trips
  keep their 16 bits; a sum of at most seven of them cannot wrap in 32 bits and is \<open>nat\<close>.
\<close>

definition MAXP :: nat where "MAXP = 8"
definition NONE :: u16 where "NONE = 0xFFFF"

record matrix =
  mx_rtt :: "u16 list list"
  mx_leg :: "u16 list"
  mx_relay_ok :: u8

definition matrix_clear :: matrix where
  "matrix_clear = \<lparr>mx_rtt = replicate MAXP (replicate MAXP NONE), mx_leg = replicate MAXP NONE, mx_relay_ok = 0\<rparr>"

function popcnt :: "u32 \<Rightarrow> nat" where
  "popcnt m = (if m \<noteq> 0 then unat (m AND 1) + popcnt (drop_bit 1 m) else 0)"
  by pat_completeness auto
termination
proof (relation "measure unat")
  fix m :: u32
  assume "m \<noteq> 0"
  then have "0 < unat m" by (simp add: unat_gt_0)
  then show "(drop_bit 1 m, m) \<in> measure unat"
    by (simp add: drop_bit_eq_div unat_div_distrib)
qed simp

declare popcnt.simps [simp del]

definition edge :: "matrix \<Rightarrow> nat \<Rightarrow> nat \<Rightarrow> u16" where
  "edge M i j =
     (if i = j then 0
      else
        (let a = mx_rtt M ! i ! j; b = mx_rtt M ! j ! i in
         if a \<noteq> NONE \<and> b \<noteq> NONE then ucast ((ucast a + ucast b + 1 :: u32) div 2)
         else if a \<noteq> NONE then a else b))"

definition pair_rtt :: "matrix \<Rightarrow> nat \<Rightarrow> nat \<Rightarrow> u16" where
  "pair_rtt M i j =
     (let e = edge M i j in
      if e \<noteq> NONE then e
      else if mx_relay_ok M \<noteq> 0 \<and> mx_leg M ! i \<noteq> NONE \<and> mx_leg M ! j \<noteq> NONE then
        (let s = (ucast (mx_leg M ! i) + ucast (mx_leg M ! j) :: u32) in
         if s \<ge> ucast NONE then NONE - 1 else ucast s)
      else NONE)"

definition members :: "u32 \<Rightarrow> nat list" where
  "members S = filter (bit S) [0..<MAXP]"

text \<open>How many of the pairs have an entry, and how many there are.\<close>

definition coverage :: "matrix \<Rightarrow> u32 \<Rightarrow> nat \<times> nat" where
  "coverage M S =
     fold (\<lambda>i. fold (\<lambda>j (h, t). if bit S i \<and> bit S j then (if pair_rtt M i j \<noteq> NONE then h + 1 else h, t + 1) else (h, t))
       [i + 1..<MAXP]) [0..<MAXP] (0, 0)"

definition mix :: "u32 \<Rightarrow> u32 \<Rightarrow> u32" where
  "mix b h = (h XOR (b AND 0xff)) * 16777619"

definition digest :: "matrix \<Rightarrow> u32 \<Rightarrow> u32" where
  "digest M S =
     fold (\<lambda>i h.
         if bit S i
         then fold (\<lambda>j h. if bit S j then mix (drop_bit 8 (ucast (mx_rtt M ! i ! j))) (mix (ucast (mx_rtt M ! i ! j)) h) else h)
                [0..<MAXP] (mix (drop_bit 8 (ucast (mx_leg M ! i))) (mix (ucast (mx_leg M ! i)) h))
         else h)
       [0..<MAXP] (mix (ucast (mx_relay_ok M)) (mix S 2166136261))"

subsection \<open>The election\<close>

datatype tier = TIER_NONE | TIER_DIRECT | TIER_RELAY | TIER_ID

record election =
  el_n :: nat
  el_rank :: "nat list"
  el_cost :: "nat list"
  el_sum :: "nat list"
  el_tier :: tier
  el_winner :: int

text \<open>The two largest edges of a candidate and the sum of all; \<open>None\<close> when an edge is not measured.\<close>

fun scan_edges :: "matrix \<Rightarrow> nat \<Rightarrow> nat list \<Rightarrow> nat \<Rightarrow> nat \<Rightarrow> nat \<Rightarrow> (nat \<times> nat) option" where
  "scan_edges M c [] t1 t2 s = Some (t1 + t2, s)"
| "scan_edges M c (k # ks) t1 t2 s =
     (if k = c then scan_edges M c ks t1 t2 s
      else
        (let d = edge M c k in
         if d = NONE then None
         else if unat d \<ge> t1 then scan_edges M c ks (unat d) t1 (s + unat d)
         else if unat d > t2 then scan_edges M c ks t1 (unat d) (s + unat d)
         else scan_edges M c ks t1 t2 (s + unat d)))"

text \<open>The comparator: \<open>r\<close> rates a candidate by cost and sum.\<close>

definition leg_known :: "matrix \<Rightarrow> nat \<Rightarrow> bool" where
  "leg_known M c = (mx_relay_ok M \<noteq> 0 \<and> mx_leg M ! c \<noteq> NONE)"

definition before :: "matrix \<Rightarrow> (nat \<Rightarrow> (nat \<times> nat) option) \<Rightarrow> bool \<Rightarrow> bool \<Rightarrow> nat \<Rightarrow> nat \<Rightarrow> bool" where
  "before M r any_direct all_legs x y =
     (if any_direct then
        (case (r x, r y) of
           (Some (cx, sx), Some (cy, sy)) \<Rightarrow> if cx \<noteq> cy then cx < cy else if sx \<noteq> sy then sx < sy else x < y
         | (Some _, None) \<Rightarrow> True
         | (None, Some _) \<Rightarrow> False
         | (None, None) \<Rightarrow>
             (let lx = leg_known M x; ly = leg_known M y in
              if lx \<noteq> ly then lx
              else if lx \<and> mx_leg M ! x \<noteq> mx_leg M ! y then mx_leg M ! x < mx_leg M ! y
              else x < y))
      else if all_legs then (if mx_leg M ! x \<noteq> mx_leg M ! y then mx_leg M ! x < mx_leg M ! y else x < y)
      else x < y)"

text \<open>The insertion sort over the array; the position \<open>b\<close> is the source's \<open>b + 1\<close>.\<close>

fun shift_in :: "(nat \<Rightarrow> nat \<Rightarrow> bool) \<Rightarrow> nat \<Rightarrow> nat \<Rightarrow> nat list \<Rightarrow> nat list" where
  "shift_in bf v 0 ids = ids[0 := v]"
| "shift_in bf v (Suc b) ids =
     (if bf v (ids ! b) then shift_in bf v b (ids[Suc b := ids ! b]) else ids[Suc b := v])"

definition order_ids :: "(nat \<Rightarrow> nat \<Rightarrow> bool) \<Rightarrow> nat list \<Rightarrow> nat list" where
  "order_ids bf ids = fold (\<lambda>a ids. shift_in bf (ids ! a) a ids) [1..<length ids] ids"

definition NO_COST :: nat where "NO_COST = 0xFFFFFFFF"

definition padded :: "nat list \<Rightarrow> nat list" where
  "padded xs = xs @ replicate (MAXP - length xs) 0"

definition elect :: "matrix \<Rightarrow> u32 \<Rightarrow> election" where
  "elect M S =
     (let ids = members S; n = length ids in
      if n = 0 then \<lparr>el_n = 0, el_rank = padded [], el_cost = padded [], el_sum = padded [], el_tier = TIER_NONE, el_winner = - 1\<rparr>
      else
        (let r = (\<lambda>c. scan_edges M c ids 0 0 0);
             any_direct = list_ex (\<lambda>c. r c \<noteq> None) ids;
             all_legs = (mx_relay_ok M \<noteq> 0 \<and> list_all (\<lambda>c. mx_leg M ! c \<noteq> NONE) ids);
             ids = order_ids (before M r any_direct all_legs) ids in
         \<lparr>el_n = n, el_rank = padded ids,
          el_cost = padded (map (\<lambda>c. case r c of None \<Rightarrow> NO_COST | Some (cost, _) \<Rightarrow> cost) ids),
          el_sum = padded (map (\<lambda>c. case r c of None \<Rightarrow> NO_COST | Some (_, sm) \<Rightarrow> sm) ids),
          el_tier = (if any_direct then TIER_DIRECT else if all_legs then TIER_RELAY else TIER_ID),
          el_winner = int (ids ! 0)\<rparr>))"

subsection \<open>Quorum, failover order, hysteresis\<close>

text \<open>Of an epoch the quorum reads the set of clients and the hub.\<close>

definition quorum_members :: "u8 \<Rightarrow> u8 \<Rightarrow> u32 \<Rightarrow> u32" where
  "quorum_members eS hub spectators = (ucast eS OR push_bit (unat (hub AND 7)) 1) AND NOT spectators"

definition quorum_ok :: "u32 \<Rightarrow> u32 \<Rightarrow> bool" where
  "quorum_ok ms grp =
     (let total = popcnt ms; have_n = popcnt (ms AND grp) in total > 0 \<and> have_n * 2 > total)"

fun fo_next_candidate :: "u8 list \<Rightarrow> u32 \<Rightarrow> int" where
  "fo_next_candidate [] skip = - 1"
| "fo_next_candidate (c # rank) skip =
     (if \<not> bit skip (unat (c AND 7)) then int (unat c) else fo_next_candidate rank skip)"

definition beats_incumbent :: "u32 \<Rightarrow> u32 \<Rightarrow> bool" where
  "beats_incumbent cur_cost new_cost =
     (if cur_cost = 0xFFFFFFFF then new_cost \<noteq> 0xFFFFFFFF
      else if new_cost \<ge> cur_cost then False
      else
        (let gain = cur_cost - new_cost in
         gain > 100 \<and> (ucast gain * 5 :: u64) > ucast cur_cost))"

definition successor_first_epoch :: "u32 \<Rightarrow> u32" where
  "successor_first_epoch held_epoch = held_epoch + 2"

subsection \<open>Counting bits\<close>

lemma popcnt_card: "popcnt m = card {i. bit m i}"
proof (induction m rule: popcnt.induct)
  case (1 m)
  show ?case
  proof (cases "m = 0")
    case False
    have fin: "finite {i. bit m i}" by (rule finite_subset [of _ "{..<LENGTH(32)}"]) (auto dest: bit_imp_le_length)
    have s: "{i. bit m i} = {i :: nat. i = 0 \<and> bit m 0} \<union> Suc ` {i. bit (drop_bit 1 m) i}"
    proof (rule set_eqI)
      fix i
      show "i \<in> {i. bit m i} \<longleftrightarrow> i \<in> {i :: nat. i = 0 \<and> bit m 0} \<union> Suc ` {i. bit (drop_bit 1 m) i}"
        by (cases i) (auto simp: bit_drop_bit_eq image_iff)
    qed
    have "finite (Suc ` {i. bit (drop_bit 1 m) i})" using fin unfolding s by simp
    then have "card ({i :: nat. i = 0 \<and> bit m 0} \<union> Suc ` {i. bit (drop_bit 1 m) i}) =
      card {i :: nat. i = 0 \<and> bit m 0} + card (Suc ` {i. bit (drop_bit 1 m) i})"
      by (intro card_Un_disjoint) auto
    then have "card {i. bit m i} = card {i :: nat. i = 0 \<and> bit m 0} + card (Suc ` {i. bit (drop_bit 1 m) i})"
      by (simp only: s)
    moreover have "card {i :: nat. i = 0 \<and> bit m 0} = unat (m AND 1)"
      by (cases "bit m 0") (simp_all add: bit_0 and_one_eq odd_iff_mod_2_eq_one)
    moreover have "popcnt m = unat (m AND 1) + popcnt (drop_bit 1 m)" using False by (simp add: popcnt.simps [of m])
    ultimately show ?thesis using 1 [OF False] by (simp add: card_image)
  qed (simp add: popcnt.simps)
qed

lemma quorum_overlap:
  assumes "quorum_ok ms g" "quorum_ok ms g'"
  shows "ms AND g AND g' \<noteq> 0"
proof
  assume z: "ms AND g AND g' = 0"
  have d: "\<not> (bit ms i \<and> bit g i \<and> bit g' i)" for i
    using arg_cong [OF z, of "\<lambda>w. bit w i"] by (auto simp: bit_and_iff)
  have f: "finite {i. bit (w :: u32) i}" for w by (rule finite_subset [of _ "{..<LENGTH(32)}"]) (auto dest: bit_imp_le_length)
  have "card {i. bit (ms AND g) i} + card {i. bit (ms AND g') i} = card ({i. bit (ms AND g) i} \<union> {i. bit (ms AND g') i})"
    by (rule card_Un_disjoint [symmetric]) (use f d in \<open>auto simp: bit_and_iff\<close>)
  also have "\<dots> \<le> card {i. bit ms i}" by (rule card_mono) (use f in \<open>auto simp: bit_and_iff\<close>)
  finally show False using assms by (simp add: quorum_ok_def Let_def popcnt_card)
qed

subsection \<open>The sort\<close>

text \<open>What one round of the insertion sort does to the sorted part, nearest element first.\<close>

fun ins_rev :: "(nat \<Rightarrow> nat \<Rightarrow> bool) \<Rightarrow> nat \<Rightarrow> nat list \<Rightarrow> nat list" where
  "ins_rev bf v [] = [v]"
| "ins_rev bf v (y # ys) = (if bf v y then y # ins_rev bf v ys else v # y # ys)"

definition ins_right :: "(nat \<Rightarrow> nat \<Rightarrow> bool) \<Rightarrow> nat \<Rightarrow> nat list \<Rightarrow> nat list" where
  "ins_right bf v xs = rev (ins_rev bf v (rev xs))"

lemma shift_in_spec: "b < length ids \<Longrightarrow> shift_in bf v b ids = ins_right bf v (take b ids) @ drop (Suc b) ids"
proof (induction bf v b ids rule: shift_in.induct)
  case (1 bf v ids)
  then show ?case by (cases ids) (simp_all add: ins_right_def)
next
  case (2 bf v b ids)
  have t: "take (Suc b) ids = take b ids @ [ids ! b]" using 2(2) by (simp add: take_Suc_conv_app_nth)
  show ?case
  proof (cases "bf v (ids ! b)")
    case True
    have "shift_in bf v (Suc b) ids = ins_right bf v (take b (ids[Suc b := ids ! b])) @ drop (Suc b) (ids[Suc b := ids ! b])"
      using 2 True by simp
    moreover have "drop (Suc b) (ids[Suc b := ids ! b]) = ids ! b # drop (Suc (Suc b)) ids"
      using 2(2) by (simp add: drop_update_swap Cons_nth_drop_Suc [symmetric])
    ultimately show ?thesis using True by (simp add: t ins_right_def)
  next
    case False
    then show ?thesis using 2(2) by (simp add: t ins_right_def upd_conv_take_nth_drop)
  qed
qed

lemma order_ids_fold: "order_ids bf ids = fold (ins_right bf) ids []"
proof -
  have l: "length (fold (ins_right bf) xs ys) = length xs + length ys" for xs ys
  proof (induction xs arbitrary: ys)
    case (Cons x xs)
    have "length (ins_rev bf x zs) = Suc (length zs)" for zs by (induction zs) simp_all
    then show ?case using Cons by (simp add: ins_right_def)
  qed simp
  have "fold (\<lambda>a ids. shift_in bf (ids ! a) a ids) [1..<Suc a] ids = fold (ins_right bf) (take (Suc a) ids) [] @ drop (Suc a) ids"
    if "a < length ids" for a
    using that
  proof (induction a)
    case 0
    then show ?case by (cases ids) (simp_all add: ins_right_def)
  next
    case (Suc a)
    define P where "P = fold (ins_right bf) (take (Suc a) ids) []"
    have lP: "length P = Suc a" using Suc.prems by (simp add: P_def l)
    have ih: "fold (\<lambda>a ids. shift_in bf (ids ! a) a ids) [1..<Suc a] ids = P @ drop (Suc a) ids" using Suc by (simp add: P_def)
    have n: "(P @ drop (Suc a) ids) ! Suc a = ids ! Suc a" using Suc.prems lP by (simp add: nth_append)
    have "fold (\<lambda>a ids. shift_in bf (ids ! a) a ids) [1..<Suc (Suc a)] ids = shift_in bf (ids ! Suc a) (Suc a) (P @ drop (Suc a) ids)"
      using ih n by simp
    also have "\<dots> = ins_right bf (ids ! Suc a) P @ drop (Suc (Suc a)) ids"
      using Suc.prems lP by (subst shift_in_spec) simp_all
    also have "ins_right bf (ids ! Suc a) P = fold (ins_right bf) (take (Suc (Suc a)) ids) []"
      using Suc.prems by (simp add: P_def take_Suc_conv_app_nth [of "Suc a"])
    finally show ?case .
  qed
  from this [of "length ids - 1"] show ?thesis by (cases ids) (simp_all add: order_ids_def)
qed

lemma order_ids_sorts:
  fixes f :: "nat \<Rightarrow> 'k :: linorder"
  assumes "\<And>x y. bf x y = (f x < f y)" "inj f"
  shows "order_ids bf ids = sort_key f ids"
proof -
  have m: "mset (ins_rev bf v ys) = add_mset v (mset ys)" for v ys by (induction ys) simp_all
  have s: "sorted_wrt (\<lambda>a b. f b \<le> f a) ys \<Longrightarrow> sorted_wrt (\<lambda>a b. f b \<le> f a) (ins_rev bf v ys)" for v ys
  proof (induction ys)
    case (Cons y ys)
    have "set (ins_rev bf v ys) = insert v (set ys)" using m [of v ys] by (metis set_mset_mset set_mset_add_mset_insert)
    then show ?case using Cons assms(1) [of v y] by (auto simp: less_imp_le)
  qed simp
  have r: "mset (ins_right bf v xs) = add_mset v (mset xs)"
    "sorted (map f xs) \<Longrightarrow> sorted (map f (ins_right bf v xs))" for v xs
    using m [of v "rev xs"] s [of "rev xs" v]
    by (simp_all add: ins_right_def sorted_map rev_swap sorted_wrt_rev)
  have "mset (fold (ins_right bf) ids ys) = mset ids + mset ys \<and> (sorted (map f ys) \<longrightarrow> sorted (map f (fold (ins_right bf) ids ys)))" for ys
    by (induction ids arbitrary: ys) (simp_all add: r)
  from this [of "[]"] have o: "mset (order_ids bf ids) = mset ids" "sorted (map f (order_ids bf ids))"
    by (simp_all add: order_ids_fold)
  have e: "filter (\<lambda>x. f k = f x) xs = replicate (count (mset xs) k) k" for k xs
    using injD [OF assms(2)] by (induction xs) auto
  show ?thesis
    by (rule properties_for_sort_key [symmetric]) (use o in \<open>simp_all add: e\<close>)
qed

subsection \<open>What the election prefers\<close>

text \<open>The cost of a candidate: the worst sum of two of its distances, where a missing one counts as 0.\<close>

definition worst_pair :: "nat list \<Rightarrow> nat" where
  "worst_pair ds = Max {x + y | x y. {#x, y#} \<subseteq># {#0, 0#} + mset ds}"

definition measured :: "matrix \<Rightarrow> nat list \<Rightarrow> nat \<Rightarrow> bool" where
  "measured M ids c = (\<forall>k \<in> set ids. k \<noteq> c \<longrightarrow> edge M c k \<noteq> NONE)"

definition distances :: "matrix \<Rightarrow> nat list \<Rightarrow> nat \<Rightarrow> nat list" where
  "distances M ids c = map (\<lambda>k. unat (edge M c k)) (filter (\<lambda>k. k \<noteq> c) ids)"

text \<open>Where a candidate stands, the better the smaller: measured ones by cost and sum, then those with a relay leg;
  when nobody is measured, by the relay legs if all are known.\<close>

definition standing :: "matrix \<Rightarrow> nat list \<Rightarrow> nat \<Rightarrow> nat \<times> nat \<times> nat" where
  "standing M ids c =
     (if \<exists>x \<in> set ids. measured M ids x then
        (if measured M ids c then (0, worst_pair (distances M ids c), sum_list (distances M ids c))
         else if leg_known M c then (1, unat (mx_leg M ! c), 0) else (2, 0, 0))
      else if \<forall>x \<in> set ids. leg_known M x then (0, unat (mx_leg M ! c), 0)
      else (0, 0, 0))"

text \<open>The two largest of what was seen, and the rest.\<close>

definition top_two :: "nat multiset \<Rightarrow> nat \<Rightarrow> nat \<Rightarrow> bool" where
  "top_two A t1 t2 = (t2 \<le> t1 \<and> (\<exists>R. A = {#t1, t2#} + R \<and> (\<forall>x \<in># R. x \<le> t2)))"

lemma top_two_pair:
  assumes "top_two A t1 t2" "{#x, y#} \<subseteq># A"
  shows "x + y \<le> t1 + t2"
proof -
  obtain R where R: "A = {#t1, t2#} + R" "\<forall>x \<in># R. x \<le> t2" and le: "t2 \<le> t1" using assms(1) by (auto simp: top_two_def)
  have z: "filter_mset (\<lambda>z. t2 < z) R = {#}" using R(2) by (induction R) auto
  have one: "size (filter_mset (\<lambda>z. t2 < z) A) \<le> 1" by (simp add: R(1) z)
  have "size (filter_mset (\<lambda>z. t2 < z) {#x, y#}) \<le> size (filter_mset (\<lambda>z. t2 < z) A)"
    by (intro size_mset_mono multiset_filter_mono assms(2))
  also note one
  finally have "x \<le> t2 \<or> y \<le> t2" by (auto split: if_splits)
  moreover have "z \<in># A \<Longrightarrow> z \<le> t1" for z using R le by auto
  then have "x \<le> t1" "y \<le> t1" using mset_subset_eqD [OF assms(2)] by auto
  ultimately show ?thesis by auto
qed

lemma worst_pair_top_two:
  assumes "top_two ({#0, 0#} + mset ds) t1 t2"
  shows "worst_pair ds = t1 + t2"
  unfolding worst_pair_def
proof (rule Max_eqI)
  show "finite {x + y |x y. {#x, y#} \<subseteq># {#0, 0#} + mset ds}"
    by (rule finite_subset [of _ "{..t1 + t2}"]) (use top_two_pair [OF assms] in auto)
  show "z \<le> t1 + t2" if "z \<in> {x + y |x y. {#x, y#} \<subseteq># {#0, 0#} + mset ds}" for z
    using that top_two_pair [OF assms] by auto
  obtain R where "{#0, 0#} + mset ds = {#t1, t2#} + R" using assms by (auto simp: top_two_def)
  then have "{#t1, t2#} \<subseteq># {#0, 0#} + mset ds" by (metis mset_subset_eq_add_left)
  then show "t1 + t2 \<in> {x + y |x y. {#x, y#} \<subseteq># {#0, 0#} + mset ds}" by blast
qed

lemma top_two_step:
  assumes "top_two A t1 t2"
  shows "top_two (add_mset d A) (if t1 \<le> d then d else t1) (if t1 \<le> d then t1 else if t2 < d then d else t2)"
proof -
  obtain R where R: "A = {#t1, t2#} + R" "\<forall>x \<in># R. x \<le> t2" and le: "t2 \<le> t1" using assms by (auto simp: top_two_def)
  consider "t1 \<le> d" | "d < t1" "t2 < d" | "d < t1" "d \<le> t2" by linarith
  then show ?thesis
  proof cases
    case 1
    have "add_mset d A = {#d, t1#} + add_mset t2 R" by (simp add: R(1))
    then show ?thesis unfolding top_two_def using 1 le R(2) by (auto intro!: exI [of _ "add_mset t2 R"])
  next
    case 2
    have "add_mset d A = {#t1, d#} + add_mset t2 R" by (simp add: R(1))
    then show ?thesis unfolding top_two_def using 2 R(2) by (auto intro!: exI [of _ "add_mset t2 R"])
  next
    case 3
    have "add_mset d A = {#t1, t2#} + add_mset d R" by (simp add: R(1))
    then show ?thesis unfolding top_two_def using 3 le R(2) by (auto intro!: exI [of _ "add_mset d R"])
  qed
qed

lemma scan_edges_spec:
  assumes "top_two ({#0, 0#} + mset ds) t1 t2" "s = sum_list ds"
  shows "scan_edges M c ids t1 t2 s =
    (if measured M ids c then Some (worst_pair (ds @ distances M ids c), sum_list (ds @ distances M ids c)) else None)"
  using assms
proof (induction ids arbitrary: ds t1 t2 s)
  case Nil
  then show ?case using worst_pair_top_two [OF Nil(1)] by (simp add: measured_def distances_def)
next
  case (Cons k ids)
  show ?case
  proof (cases "k = c \<or> edge M c k = NONE")
    case True
    then show ?thesis using Cons.IH [OF Cons.prems] by (auto simp: measured_def distances_def Let_def)
  next
    case False
    define d where "d = unat (edge M c k)"
    have t: "top_two ({#0, 0#} + mset (ds @ [d])) (if t1 \<le> d then d else t1) (if t1 \<le> d then t1 else if t2 < d then d else t2)"
      using top_two_step [OF Cons.prems(1), of d] by simp
    have e: "measured M (k # ids) c = measured M ids c" "ds @ distances M (k # ids) c = (ds @ [d]) @ distances M ids c"
      using False by (auto simp: measured_def distances_def d_def)
    have "scan_edges M c (k # ids) t1 t2 s =
      scan_edges M c ids (if t1 \<le> d then d else t1) (if t1 \<le> d then t1 else if t2 < d then d else t2) (s + d)"
      using False by (simp add: d_def Let_def)
    then show ?thesis using Cons.IH [OF t, of "s + d"] Cons.prems(2) unfolding e by simp
  qed
qed

lemma rating:
  "scan_edges M c ids 0 0 0 =
    (if measured M ids c then Some (worst_pair (distances M ids c), sum_list (distances M ids c)) else None)"
proof -
  have "top_two ({#0, 0#} + mset []) 0 0" by (simp add: top_two_def)
  from scan_edges_spec [OF this, of 0 M c ids] show ?thesis by simp
qed

lemma before_standing:
  "before M (\<lambda>c. scan_edges M c ids 0 0 0) (list_ex (\<lambda>c. scan_edges M c ids 0 0 0 \<noteq> None) ids)
     (mx_relay_ok M \<noteq> 0 \<and> list_all (\<lambda>c. mx_leg M ! c \<noteq> NONE) ids) x y
   = ((standing M ids x, x) < (standing M ids y, y))" if "ids \<noteq> []"
proof -
  have any: "list_ex (\<lambda>c. scan_edges M c ids 0 0 0 \<noteq> None) ids = (\<exists>x \<in> set ids. measured M ids x)"
    by (auto simp: list_ex_iff rating)
  have legs: "(mx_relay_ok M \<noteq> 0 \<and> list_all (\<lambda>c. mx_leg M ! c \<noteq> NONE) ids) = (\<forall>x \<in> set ids. leg_known M x)"
    using that by (auto simp: list_all_iff leg_known_def neq_Nil_conv)
  have w: "(a < b) = (unat a < unat b)" "(a \<noteq> b) = (unat a \<noteq> unat b)" for a b :: u16
    by (simp_all add: word_less_nat_alt word_unat_eq_iff)
  define m where "m = measured M ids"
  define cost where "cost c = worst_pair (distances M ids c)" for c
  define sm where "sm c = sum_list (distances M ids c)" for c
  define anyd where "anyd = (\<exists>x \<in> set ids. m x)"
  define alll where "alll = (\<forall>x \<in> set ids. leg_known M x)"
  have st: "standing M ids c = (if anyd then if m c then (0, cost c, sm c) else if leg_known M c then (1, unat (mx_leg M ! c), 0) else (2, 0, 0)
    else if alll then (0, unat (mx_leg M ! c), 0) else (0, 0, 0))" for c
    by (simp add: standing_def m_def anyd_def alll_def cost_def sm_def)
  have r: "scan_edges M c ids 0 0 0 = (if m c then Some (cost c, sm c) else None)" for c
    by (simp add: rating m_def cost_def sm_def)
  show ?thesis
    unfolding any legs unfolding m_def [symmetric] unfolding anyd_def [symmetric] alll_def [symmetric] before_def st r
    by (cases anyd; cases alll; cases "m x"; cases "m y"; cases "leg_known M x"; cases "leg_known M y"; simp add: w; linarith?)
qed

subsection \<open>The election is a sort\<close>

definition elect_by_sorting :: "matrix \<Rightarrow> u32 \<Rightarrow> election" where
  "elect_by_sorting M S =
     (let ids = members S; rank = sort_key (\<lambda>c. (standing M ids c, c)) ids in
      \<lparr>el_n = length ids, el_rank = padded rank,
       el_cost = padded (map (\<lambda>c. if measured M ids c then worst_pair (distances M ids c) else NO_COST) rank),
       el_sum = padded (map (\<lambda>c. if measured M ids c then sum_list (distances M ids c) else NO_COST) rank),
       el_tier = (if ids = [] then TIER_NONE else if \<exists>x \<in> set ids. measured M ids x then TIER_DIRECT
                  else if \<forall>x \<in> set ids. leg_known M x then TIER_RELAY else TIER_ID),
       el_winner = (case rank of [] \<Rightarrow> - 1 | w # _ \<Rightarrow> int w)\<rparr>)"

lemma elect_sorts: "elect M S = elect_by_sorting M S"
proof (cases "members S = []")
  case True
  then show ?thesis by (simp add: elect_def elect_by_sorting_def)
next
  case False
  define ids where "ids = members S"
  have ne: "ids \<noteq> []" using False by (simp add: ids_def)
  define bf where "bf = before M (\<lambda>c. scan_edges M c ids 0 0 0) (list_ex (\<lambda>c. scan_edges M c ids 0 0 0 \<noteq> None) ids)
     (mx_relay_ok M \<noteq> 0 \<and> list_all (\<lambda>c. mx_leg M ! c \<noteq> NONE) ids)"
  define rank where "rank = sort_key (\<lambda>c. (standing M ids c, c)) ids"
  have o: "order_ids bf ids = rank"
    unfolding rank_def by (rule order_ids_sorts) (use before_standing [OF ne] in \<open>auto simp: bf_def inj_def\<close>)
  have any: "list_ex (\<lambda>c. scan_edges M c ids 0 0 0 \<noteq> None) ids = (\<exists>x \<in> set ids. measured M ids x)"
    by (auto simp: list_ex_iff rating)
  have legs: "(mx_relay_ok M \<noteq> 0 \<and> list_all (\<lambda>c. mx_leg M ! c \<noteq> NONE) ids) = (\<forall>x \<in> set ids. leg_known M x)"
    using ne by (auto simp: list_all_iff leg_known_def neq_Nil_conv)
  have "rank \<noteq> []" using ne unfolding rank_def by (metis length_0_conv length_sort)
  then have w: "(case rank of [] \<Rightarrow> - 1 | w # _ \<Rightarrow> int w) = int (rank ! 0)" by (cases rank) simp_all
  have rm: "map (\<lambda>c. case scan_edges M c ids 0 0 0 of None \<Rightarrow> NO_COST | Some (cost, _) \<Rightarrow> cost) rank =
      map (\<lambda>c. if measured M ids c then worst_pair (distances M ids c) else NO_COST) rank"
    "map (\<lambda>c. case scan_edges M c ids 0 0 0 of None \<Rightarrow> NO_COST | Some (_, sm) \<Rightarrow> sm) rank =
      map (\<lambda>c. if measured M ids c then sum_list (distances M ids c) else NO_COST) rank"
    by (simp_all add: rating)
  have "elect M S = \<lparr>el_n = length ids, el_rank = padded rank,
      el_cost = padded (map (\<lambda>c. case scan_edges M c ids 0 0 0 of None \<Rightarrow> NO_COST | Some (cost, _) \<Rightarrow> cost) rank),
      el_sum = padded (map (\<lambda>c. case scan_edges M c ids 0 0 0 of None \<Rightarrow> NO_COST | Some (_, sm) \<Rightarrow> sm) rank),
      el_tier = (if \<exists>x \<in> set ids. measured M ids x then TIER_DIRECT else if \<forall>x \<in> set ids. leg_known M x then TIER_RELAY else TIER_ID),
      el_winner = int (rank ! 0)\<rparr>"
    using ne unfolding elect_def Let_def ids_def [symmetric] unfolding bf_def [symmetric] unfolding o unfolding any legs by simp
  then show ?thesis
    unfolding rm elect_by_sorting_def Let_def ids_def [symmetric] rank_def [symmetric] w using ne by simp
qed

lemma standing_measured: "measured M ids c \<Longrightarrow> c \<in> set ids \<Longrightarrow> standing M ids c = (0, worst_pair (distances M ids c), sum_list (distances M ids c))"
  by (auto simp: standing_def)

lemma standing_not_measured: "\<exists>x \<in> set ids. measured M ids x \<Longrightarrow> \<not> measured M ids c \<Longrightarrow> fst (standing M ids c) \<noteq> 0"
  by (auto simp: standing_def)

text \<open>C38. The election ranks the set of players by their standing: its result is the one that sorting the members by
  standing, and by number where that is equal, gives, so the ranking is all of the set, each once.  The winner stands at
  least as well as every candidate; if some candidate has a measured round trip to every other one, the winner has too,
  and its worst relayed pair is no slower than that candidate's.\<close>

theorem election_picks_the_best:
  assumes "c \<in> set (members S)"
  shows "elect M S = elect_by_sorting M S \<and>
    (\<exists>w. el_winner (elect M S) = int w \<and> w \<in> set (members S) \<and>
       (standing M (members S) w, w) \<le> (standing M (members S) c, c) \<and>
       (measured M (members S) c \<longrightarrow> measured M (members S) w \<and>
          worst_pair (distances M (members S) w) \<le> worst_pair (distances M (members S) c)))"
proof
  show "elect M S = elect_by_sorting M S" by (rule elect_sorts)
  let ?ids = "members S" and ?f = "\<lambda>c. (standing M (members S) c, c)"
  define rank where "rank = sort_key ?f ?ids"
  have r: "set rank = set ?ids" "sorted (map ?f rank)" by (simp_all add: rank_def)
  then obtain w ws where ws: "rank = w # ws" using assms by (cases rank) auto
  have w: "el_winner (elect M S) = int w" "w \<in> set ?ids"
    using r(1) unfolding elect_sorts elect_by_sorting_def Let_def rank_def [symmetric] by (auto simp: ws)
  have le: "?f w \<le> ?f c" using r assms by (auto simp: ws)
  have "measured M ?ids w \<and> worst_pair (distances M ?ids w) \<le> worst_pair (distances M ?ids c)" if m: "measured M ?ids c"
  proof -
    have "measured M ?ids w"
    proof (rule ccontr)
      assume "\<not> measured M ?ids w"
      then have "fst (standing M ?ids w) \<noteq> 0" using m assms by (intro standing_not_measured) auto
      then show False using le standing_measured [OF m assms] by (cases "standing M ?ids w") auto
    qed
    then show ?thesis using le standing_measured [OF m assms] standing_measured [OF _ w(2)] by auto
  qed
  then show "\<exists>w. el_winner (elect M S) = int w \<and> w \<in> set ?ids \<and> ?f w \<le> ?f c \<and>
    (measured M ?ids c \<longrightarrow> measured M ?ids w \<and> worst_pair (distances M ?ids w) \<le> worst_pair (distances M ?ids c))"
    using w le by blast
qed

theorem election_picks_the_best_witness:
  "\<exists>w. el_winner (elect \<lparr>mx_rtt = replicate 8 (replicate 8 30), mx_leg = replicate 8 9, mx_relay_ok = 1\<rparr> 0x16) = int w \<and>
    w \<in> {1, 2, 4} \<and>
    elect \<lparr>mx_rtt = replicate 8 (replicate 8 30), mx_leg = replicate 8 9, mx_relay_ok = 1\<rparr> 0x16 =
    elect_by_sorting \<lparr>mx_rtt = replicate 8 (replicate 8 30), mx_leg = replicate 8 9, mx_relay_ok = 1\<rparr> 0x16"
proof -
  have m: "members 0x16 = [1, 2, 4]" by (simp add: members_def MAXP_def upt_rec)
  have "4 \<in> set (members 0x16)" by (simp add: m)
  from election_picks_the_best [OF this, of "\<lparr>mx_rtt = replicate 8 (replicate 8 30), mx_leg = replicate 8 9, mx_relay_ok = 1\<rparr>"]
  obtain w where "elect \<lparr>mx_rtt = replicate 8 (replicate 8 30), mx_leg = replicate 8 9, mx_relay_ok = 1\<rparr> 0x16 =
      elect_by_sorting \<lparr>mx_rtt = replicate 8 (replicate 8 30), mx_leg = replicate 8 9, mx_relay_ok = 1\<rparr> 0x16"
    "el_winner (elect \<lparr>mx_rtt = replicate 8 (replicate 8 30), mx_leg = replicate 8 9, mx_relay_ok = 1\<rparr> 0x16) = int w"
    "w \<in> set (members 0x16)" by blast
  then show ?thesis unfolding m by auto
qed

subsection \<open>What the digest covers\<close>

text \<open>The bytes that go through the hash.\<close>

definition digest_bytes :: "matrix \<Rightarrow> u32 \<Rightarrow> u8 list" where
  "digest_bytes M S = [ucast S, mx_relay_ok M] @
     concat (map (\<lambda>i. put_u16 (mx_leg M ! i) @ concat (map (\<lambda>j. put_u16 (mx_rtt M ! i ! j)) (members S))) (members S))"

definition fnv_bytes :: "u8 list \<Rightarrow> u32 \<Rightarrow> u32" where
  "fnv_bytes bs h = fold (\<lambda>b h. (h XOR ucast b) * 16777619) bs h"

lemma fnv_append: "fnv_bytes (xs @ ys) h = fnv_bytes ys (fnv_bytes xs h)"
  by (simp add: fnv_bytes_def)

lemma mix_fnv: "mix (ucast (b :: u8)) h = fnv_bytes [b] h" "mix (drop_bit 8 (ucast (w :: u16))) (mix (ucast w) h) = fnv_bytes (put_u16 w) h"
  "mix S h = fnv_bytes [ucast S] h"
proof -
  have m: "S AND 0xff = (ucast (ucast S :: u8) :: u32)" for S :: u32
  proof -
    have "(0xff :: u32) = mask 8" by (simp add: mask_eq_exp_minus_1)
    then have "S AND 0xff = take_bit 8 S" by (simp only: take_bit_eq_mask)
    then show ?thesis by (simp only:) (rule bit_word_eqI, auto simp: bit_simps)
  qed
  have "mix b h = fnv_bytes [ucast b] h" for b h by (simp add: mix_def fnv_bytes_def m)
  moreover have "(ucast (ucast w :: u32) :: u8) = ucast w" "(ucast (drop_bit 8 (ucast w :: u32)) :: u8) = ucast (drop_bit 8 w)"
    "ucast (ucast b :: u32) = b"
    by (rule bit_word_eqI; auto simp: bit_simps)+
  ultimately show "mix (ucast (b :: u8)) h = fnv_bytes [b] h"
    "mix (drop_bit 8 (ucast (w :: u16))) (mix (ucast w) h) = fnv_bytes (put_u16 w) h" "mix S h = fnv_bytes [ucast S] h"
    by (simp_all add: put_u16_def fnv_append [of "[_]" "[_]", simplified])
qed

lemma fold_if_filter: "fold (\<lambda>i h. if P i then f i h else h) xs h = fold f (filter P xs) h"
  by (induction xs arbitrary: h) simp_all

lemma fold_fnv_concat: "fold (\<lambda>i. fnv_bytes (g i)) xs h = fnv_bytes (concat (map g xs)) h"
  by (induction xs arbitrary: h) (simp_all add: fnv_append, simp add: fnv_bytes_def)

lemma digest_hashes: "digest M S = fnv_bytes (digest_bytes M S) 2166136261"
proof -
  have "digest M S = fold (\<lambda>i h. fnv_bytes (concat (map (\<lambda>j. put_u16 (mx_rtt M ! i ! j)) (members S))) (fnv_bytes (put_u16 (mx_leg M ! i)) h))
      (members S) (fnv_bytes [mx_relay_ok M] (fnv_bytes [ucast S] 2166136261))"
    unfolding digest_def fold_if_filter members_def [symmetric] unfolding mix_fnv(2) unfolding mix_fnv(1) unfolding mix_fnv(3)
    by (simp add: fold_fnv_concat)
  also have "\<dots> = fold (\<lambda>i h. fnv_bytes (put_u16 (mx_leg M ! i) @ concat (map (\<lambda>j. put_u16 (mx_rtt M ! i ! j)) (members S))) h)
      (members S) (fnv_bytes [ucast S, mx_relay_ok M] 2166136261)"
    by (simp add: fnv_append) (simp add: fnv_bytes_def)
  also have "\<dots> = fnv_bytes (concat (map (\<lambda>i. put_u16 (mx_leg M ! i) @ concat (map (\<lambda>j. put_u16 (mx_rtt M ! i ! j)) (members S))) (members S)))
      (fnv_bytes [ucast S, mx_relay_ok M] 2166136261)"
    by (rule fold_fnv_concat)
  finally show ?thesis by (simp only: digest_bytes_def fnv_append)
qed

lemma digest_bytes_agree:
  assumes "digest_bytes M S = digest_bytes M' S"
  shows "mx_relay_ok M = mx_relay_ok M'" "i \<in> set (members S) \<Longrightarrow> mx_leg M ! i = mx_leg M' ! i"
    "i \<in> set (members S) \<Longrightarrow> j \<in> set (members S) \<Longrightarrow> mx_rtt M ! i ! j = mx_rtt M' ! i ! j"
proof -
  have same: "concat (map f xs) = concat (map g xs) \<Longrightarrow> (\<And>x. length (f x) = k) \<Longrightarrow> (\<And>x. length (g x) = k) \<Longrightarrow>
      x \<in> set xs \<Longrightarrow> f x = g x" for f g :: "nat \<Rightarrow> u8 list" and xs k x
    by (subst (asm) concat_eq_concat_iff) (auto simp: zip_map_map zip_same_conv_map)
  have inj: "put_u16 a = put_u16 b \<Longrightarrow> a = b" for a b by (rule le16.enc_inj)
  let ?row = "\<lambda>M i. concat (map (\<lambda>j. put_u16 (mx_rtt M ! i ! j)) (members S))"
  have len: "length (?row M i) = 2 * length (members S)" for M i by (simp add: length_concat comp_def sum_list_triv)
  show "mx_relay_ok M = mx_relay_ok M'" using assms by (simp add: digest_bytes_def)
  have blk: "put_u16 (mx_leg M ! i) @ ?row M i = put_u16 (mx_leg M' ! i) @ ?row M' i" if "i \<in> set (members S)" for i
  proof -
    have c: "concat (map (\<lambda>i. put_u16 (mx_leg M ! i) @ ?row M i) (members S)) =
        concat (map (\<lambda>i. put_u16 (mx_leg M' ! i) @ ?row M' i) (members S))"
      using assms by (simp add: digest_bytes_def)
    show ?thesis by (rule same [OF c, where k = "2 + 2 * length (members S)"]) (use len that in simp_all)
  qed
  then show "i \<in> set (members S) \<Longrightarrow> mx_leg M ! i = mx_leg M' ! i" using inj by (metis append_eq_append_conv length_put(1))
  show "mx_rtt M ! i ! j = mx_rtt M' ! i ! j" if "i \<in> set (members S)" "j \<in> set (members S)"
  proof -
    have "?row M i = ?row M' i" using blk [OF that(1)] by (simp add: append_eq_append_conv)
    from same [OF this, of 2 j] show ?thesis using that(2) inj by simp
  qed
qed

lemma sort_key_same: "(\<And>x. x \<in> set xs \<Longrightarrow> f x = g x) \<Longrightarrow> sort_key f xs = sort_key g xs"
proof (induction xs)
  case (Cons x xs)
  have "insort_key f x ys = insort_key g x ys" if "set ys \<subseteq> set (x # xs)" for ys
    using that Cons.prems by (induction ys) auto
  then show ?case using Cons by (simp add: subset_insertI2)
qed simp

lemma same_edges:
  assumes "digest_bytes M S = digest_bytes M' S"
  shows "i \<in> set (members S) \<Longrightarrow> j \<in> set (members S) \<Longrightarrow> edge M i j = edge M' i j"
    "i \<in> set (members S) \<Longrightarrow> leg_known M i = leg_known M' i"
    "i \<in> set (members S) \<Longrightarrow> j \<in> set (members S) \<Longrightarrow> pair_rtt M i j = pair_rtt M' i j"
proof -
  note a = digest_bytes_agree [OF assms]
  show e: "edge M i j = edge M' i j" if "i \<in> set (members S)" "j \<in> set (members S)" for i j
    using a(3) that by (simp add: edge_def)
  show "i \<in> set (members S) \<Longrightarrow> leg_known M i = leg_known M' i" using a by (simp add: leg_known_def)
  show "i \<in> set (members S) \<Longrightarrow> j \<in> set (members S) \<Longrightarrow> pair_rtt M i j = pair_rtt M' i j"
    using a e by (simp add: pair_rtt_def Let_def)
qed

lemma same_standing:
  assumes "digest_bytes M S = digest_bytes M' S" and c: "c \<in> set (members S)"
  shows "measured M (members S) c = measured M' (members S) c" "distances M (members S) c = distances M' (members S) c"
    "standing M (members S) c = standing M' (members S) c"
proof -
  note e = same_edges [OF assms(1)] and a = digest_bytes_agree [OF assms(1)]
  have m: "measured M (members S) c = measured M' (members S) c" if "c \<in> set (members S)" for c
    using e(1) that by (simp add: measured_def)
  then show "measured M (members S) c = measured M' (members S) c" using c .
  show d: "distances M (members S) c = distances M' (members S) c" using e(1) c by (simp add: distances_def)
  show "standing M (members S) c = standing M' (members S) c"
    using m e(2) a(2) c d by (simp add: standing_def)
qed

lemma coverage_same:
  assumes "digest_bytes M S = digest_bytes M' S"
  shows "coverage M S = coverage M' S"
proof -
  have p: "bit S i \<and> bit S j \<Longrightarrow> i < MAXP \<Longrightarrow> j < MAXP \<Longrightarrow> pair_rtt M i j = pair_rtt M' i j" for i j
    using same_edges(3) [OF assms] by (simp add: members_def)
  show ?thesis
    unfolding coverage_def
    by (intro fold_cong refl) (auto intro!: fold_cong ext simp: p split: prod.split)
qed

text \<open>C39. The digest is the FNV-1a hash of the bytes \<open>digest_bytes\<close>, and those bytes are all that an election reads:
  two peers whose matrices give the same bytes for the same set of players elect the same winner, with the same
  ranking, costs and tier, and see the same coverage, whatever their matrices hold for anyone else.\<close>

theorem same_digest_same_election:
  assumes "digest_bytes M S = digest_bytes M' S"
  shows "digest M S = fnv_bytes (digest_bytes M S) 2166136261 \<and> digest M' S = digest M S \<and> elect M' S = elect M S \<and>
    coverage M' S = coverage M S"
proof (intro conjI)
  show "digest M S = fnv_bytes (digest_bytes M S) 2166136261" by (rule digest_hashes)
  show "digest M' S = digest M S" by (simp add: digest_hashes assms)
  show "coverage M' S = coverage M S" by (rule coverage_same [OF assms, symmetric])
  have s: "sort_key (\<lambda>c. (standing M (members S) c, c)) (members S) = sort_key (\<lambda>c. (standing M' (members S) c, c)) (members S)"
    by (rule sort_key_same) (simp add: same_standing [OF assms])
  define rank where "rank = sort_key (\<lambda>c. (standing M' (members S) c, c)) (members S)"
  have r: "x \<in> set rank \<Longrightarrow> x \<in> set (members S)" for x by (simp add: rank_def)
  have m: "map (\<lambda>c. if measured M' (members S) c then worst_pair (distances M' (members S) c) else NO_COST) rank =
      map (\<lambda>c. if measured M (members S) c then worst_pair (distances M (members S) c) else NO_COST) rank"
    "map (\<lambda>c. if measured M' (members S) c then sum_list (distances M' (members S) c) else NO_COST) rank =
      map (\<lambda>c. if measured M (members S) c then sum_list (distances M (members S) c) else NO_COST) rank"
    using same_standing [OF assms] r by simp_all
  have q: "(\<exists>x \<in> set (members S). measured M' (members S) x) = (\<exists>x \<in> set (members S). measured M (members S) x)"
    "(\<forall>x \<in> set (members S). leg_known M' x) = (\<forall>x \<in> set (members S). leg_known M x)"
    using same_standing(1) [OF assms] same_edges(2) [OF assms] by simp_all
  show "elect M' S = elect M S"
    unfolding elect_sorts elect_by_sorting_def Let_def s unfolding rank_def [symmetric] unfolding m q by (rule refl)
qed

theorem same_digest_same_election_witness:
  "elect \<lparr>mx_rtt = replicate 7 (replicate 8 30) @ [replicate 8 5], mx_leg = replicate 8 9, mx_relay_ok = 1\<rparr> 0x16 =
   elect \<lparr>mx_rtt = replicate 8 (replicate 8 30), mx_leg = replicate 8 9, mx_relay_ok = 1\<rparr> 0x16"
proof -
  have "members 0x16 = [1, 2, 4]" by (simp add: members_def MAXP_def upt_rec)
  then have "digest_bytes \<lparr>mx_rtt = replicate 8 (replicate 8 30), mx_leg = replicate 8 9, mx_relay_ok = 1\<rparr> 0x16 =
    digest_bytes \<lparr>mx_rtt = replicate 7 (replicate 8 30) @ [replicate 8 5], mx_leg = replicate 8 9, mx_relay_ok = 1\<rparr> 0x16"
    by (simp add: digest_bytes_def nth_append)
  from same_digest_same_election [OF this] show ?thesis by blast
qed

subsection \<open>Who plays on\<close>

text \<open>C40. The majority rule of a failover cannot be met twice: two groups that hold a quorum of the same epoch, counted
  against the same clients, hub and spectators, have a member in common, and that member is one the quorum counts, a client
  of the epoch or its hub and not a spectator.  So of groups that share nobody, the halves of an even split among them, at
  most one meets the rule.  (Only the side that fails over to a new hub asks the rule; the old hub goes on without it.)\<close>

theorem quorums_overlap:
  assumes "quorum_ok (quorum_members eS hub spectators) g" "quorum_ok (quorum_members eS hub spectators) g'"
  shows "\<exists>i. bit g i \<and> bit g' i \<and> \<not> bit spectators i \<and> (bit eS i \<or> i = unat (hub AND 7))"
proof -
  have "quorum_members eS hub spectators AND g AND g' \<noteq> 0" using quorum_overlap [OF assms] by (simp add: and.assoc)
  then obtain i where "bit (quorum_members eS hub spectators AND g AND g') i" by (auto simp: bit_eq_iff)
  then show ?thesis by (intro exI [of _ i]) (auto simp: quorum_members_def bit_simps)
qed

theorem quorums_overlap_witness: "\<exists>i. bit (0x0b :: u32) i \<and> bit (0x07 :: u32) i \<and> \<not> bit (0x10 :: u32) i"
proof -
  have "quorum_ok (quorum_members 0x0e 0 0x10) 0x0b" "quorum_ok (quorum_members 0x0e 0 0x10) 0x07"
    by (simp_all add: quorum_ok_def quorum_members_def popcnt.simps Let_def drop_bit_eq_div)
  from quorums_overlap [OF this] show ?thesis by blast
qed

text \<open>Failover order and hysteresis.\<close>

lemma fo_next_candidate_first:
  "fo_next_candidate rank skip = (case find (\<lambda>c. \<not> bit skip (unat (c AND 7))) rank of None \<Rightarrow> - 1 | Some c \<Rightarrow> int (unat c))"
  by (induction rank) simp_all

lemma beats_incumbent_value:
  assumes "cur \<noteq> 0xFFFFFFFF"
  shows "beats_incumbent cur new = (unat new + 100 < unat cur \<and> 5 * unat new < 4 * unat cur)"
proof (cases "new < cur")
  case True
  then have g: "unat (cur - new) = unat cur - unat new" by (simp add: unat_sub)
  have u: "unat (ucast w :: u64) = unat w" for w :: u32
    by (simp add: unsigned_ucast_eq take_bit_nat_eq_self_iff) (rule order.strict_trans, rule unsigned_less, simp)
  have lt: "unat w < 4294967296" for w :: u32 by (rule order.strict_trans2, rule unsigned_less) simp
  have "unat (ucast (cur - new) * 5 :: u64) = unat (cur - new) * 5"
    by (subst unat_mult_lem [THEN iffD1]) (use lt [of "cur - new"] in \<open>simp_all add: u\<close>)
  then show ?thesis
    using True assms by (simp add: beats_incumbent_def Let_def not_le word_less_nat_alt u g)
      (auto simp: word_le_nat_alt)
next
  case False
  then show ?thesis using assms by (auto simp: beats_incumbent_def not_less word_le_nat_alt)
qed

end
