(* ===== verification/Snapshot_Image.thy ===== *)
theory Snapshot_Image
  imports Bulk_Channel Text_Bytes
begin

text \<open>
  The format and the sender of the snapshot pipeline over the bulk channel, \<open>mh_net_udp/udp_snapshot.cpp\<close>: a blob
  with a manifest of hashes in front, composed on demand.  Lengths and chunk counts are bounded by the code
  (\<open>MAX_BODY_BYTES\<close>) before it computes with them and are \<open>nat\<close>; a null pointer is \<open>None\<close>.  The manifest buffer
  is a byte list of \<open>MANIFEST_BYTES_MAX\<close> bytes.
\<close>

subsection \<open>The format\<close>

definition CHUNK :: nat where "CHUNK = unat CHUNK_BYTES"
definition SNAP_MAGIC :: bytes where "SNAP_MAGIC = [0x4D, 0x48, 0x53, 0x4E, 0x41, 0x50, 0, 1]"
definition SNAP_FORMAT :: u32 where "SNAP_FORMAT = 1"
definition HDR_BYTES :: nat where "HDR_BYTES = 8 + 4 + 4 + 4 + 4 + 32 + 32"
definition MAX_BODY_CHUNKS :: nat where "MAX_BODY_CHUNKS = 2048"
definition MAX_BODY_BYTES :: nat where "MAX_BODY_BYTES = MAX_BODY_CHUNKS * CHUNK"
definition MANIFEST_CHUNKS_MAX :: nat where
  "MANIFEST_CHUNKS_MAX = (HDR_BYTES + 32 * MAX_BODY_CHUNKS + CHUNK - 1) div CHUNK"
definition MANIFEST_BYTES_MAX :: nat where "MANIFEST_BYTES_MAX = MANIFEST_CHUNKS_MAX * CHUNK"

definition OFF_FORMAT :: nat where "OFF_FORMAT = 8"
definition OFF_BODY_LEN :: nat where "OFF_BODY_LEN = 12"
definition OFF_CHUNKS :: nat where "OFF_CHUNKS = 16"
definition OFF_MAN_CHNKS :: nat where "OFF_MAN_CHNKS = 20"
definition OFF_BODY_SHA :: nat where "OFF_BODY_SHA = 24"
definition OFF_ROOT :: nat where "OFF_ROOT = 56"
definition OFF_VECTOR :: nat where "OFF_VECTOR = HDR_BYTES"

datatype snap_err =
  SNAP_OK | ERR_ARG | ERR_MAGIC | ERR_FORMAT | ERR_ROOT | ERR_SHAPE | ERR_CAPACITY | ERR_CHUNK_HASH | ERR_NO_MANIFEST
  | ERR_BODY_HASH | ERR_INCOMPLETE

definition chunks_of :: "nat \<Rightarrow> nat" where
  "chunks_of len = (len + CHUNK - 1) div CHUNK"

text \<open>The hash of the manifest with its root field zeroed; the source puts the field back.\<close>

definition root_over :: "bytes \<Rightarrow> nat \<Rightarrow> bytes" where
  "root_over man man_len = sha256 (take man_len (memcpy_at man OFF_ROOT (replicate 32 0)))"

definition chunk_at :: "bytes \<Rightarrow> nat \<Rightarrow> bytes" where
  "chunk_at body i = take (min CHUNK (length body - i * CHUNK)) (drop (i * CHUNK) body)"

definition hex32 :: "bytes \<Rightarrow> bytes" where
  "hex32 h = concat (map (\<lambda>i. [hex_digits ! unat (drop_bit 4 (h ! i) AND 0xf), hex_digits ! unat (h ! i AND 0xf)]) [0..<32]) @ [0]"

subsection \<open>The sender\<close>

record snap_sender =
  sn_armed :: bool
  sn_body :: "bytes option"
  sn_body_len :: nat
  sn_body_chunks :: nat
  sn_man_chunks :: nat
  sn_man_len :: nat
  sn_root :: bytes
  sn_man :: bytes

definition sender_reset :: "snap_sender \<Rightarrow> snap_sender" where
  "sender_reset s = s\<lparr>sn_armed := False, sn_body := None, sn_body_len := 0, sn_body_chunks := 0, sn_man_chunks := 0,
     sn_man_len := 0, sn_root := replicate 32 0\<rparr>"

definition put_vector :: "bytes \<Rightarrow> nat \<Rightarrow> bytes \<Rightarrow> bytes" where
  "put_vector body n man = fold (\<lambda>i man. memcpy_at man (OFF_VECTOR + 32 * i) (sha256 (chunk_at body i))) [0..<n] man"

definition sender_begin :: "snap_sender \<Rightarrow> bytes option \<Rightarrow> snap_err \<times> snap_sender" where
  "sender_begin s blob =
     (let s = sender_reset s in
      case blob of None \<Rightarrow> (ERR_ARG, s)
      | Some body \<Rightarrow>
          if length body = 0 then (ERR_ARG, s)
          else if length body > MAX_BODY_BYTES then (ERR_ARG, s)
          else
            (let n = chunks_of (length body);
                 man_len = HDR_BYTES + 32 * n;
                 mc = chunks_of man_len;
                 man = memcpy_at (sn_man s) 0 (replicate (mc * CHUNK) 0);
                 man = memcpy_at man 0 SNAP_MAGIC;
                 man = memcpy_at man OFF_FORMAT (put_u32 SNAP_FORMAT);
                 man = memcpy_at man OFF_BODY_LEN (put_u32 (of_nat (length body)));
                 man = memcpy_at man OFF_CHUNKS (put_u32 (of_nat n));
                 man = memcpy_at man OFF_MAN_CHNKS (put_u32 (of_nat mc));
                 man = memcpy_at man OFF_BODY_SHA (sha256 body);
                 man = put_vector body n man;
                 root = root_over man man_len;
                 man = memcpy_at man OFF_ROOT root in
             (SNAP_OK, s\<lparr>sn_armed := True, sn_body := Some body, sn_body_len := length body, sn_body_chunks := n,
                sn_man_chunks := mc, sn_man_len := man_len, sn_root := root, sn_man := man\<rparr>)))"

definition image_len :: "snap_sender \<Rightarrow> nat" where
  "image_len s = sn_man_chunks s * CHUNK + sn_body_len s"

text \<open>The composed image: what the loop writes from the place \<open>done\<close> on.\<close>

function fill_from :: "snap_sender \<Rightarrow> u32 \<Rightarrow> nat \<Rightarrow> nat \<Rightarrow> bytes" where
  "fill_from s off len done =
     (if done < len then
        (let man_bytes = sn_man_chunks s * CHUNK; at = unat (off + of_nat done) in
         if at < man_bytes then
           (let n = min (man_bytes - at) (len - done) in take n (drop at (sn_man s)) @ fill_from s off len (done + n))
         else
           (let boff = at - man_bytes in
            if boff \<ge> sn_body_len s then replicate (len - done) 0
            else
              (let n = min (sn_body_len s - boff) (len - done) in
               take n (drop boff (the (sn_body s))) @ fill_from s off len (done + n))))
      else [])"
  by pat_completeness auto
termination
  by (relation "measure (\<lambda>(s, off, len, done). len - done)") (auto simp: Let_def)

declare fill_from.simps [simp del]

definition sender_source :: "snap_sender \<Rightarrow> byte_source" where
  "sender_source s off len = (if \<not> sn_armed s then replicate (unat len) 0 else fill_from s off (unat len) 0)"

subsection \<open>The manifest\<close>

lemma CHUNK_eq [simp]: "CHUNK = 16384"
  by (simp add: CHUNK_def CHUNK_BYTES_eq)

lemmas snap_sizes = HDR_BYTES_def MAX_BODY_CHUNKS_def MAX_BODY_BYTES_def MANIFEST_CHUNKS_MAX_def MANIFEST_BYTES_MAX_def
  OFF_FORMAT_def OFF_BODY_LEN_def OFF_CHUNKS_def OFF_MAN_CHNKS_def OFF_BODY_SHA_def OFF_ROOT_def OFF_VECTOR_def

definition man_head :: "bytes \<Rightarrow> bytes" where
  "man_head body = SNAP_MAGIC @ put_u32 SNAP_FORMAT @ put_u32 (of_nat (length body)) @ put_u32 (of_nat (chunks_of (length body))) @
     put_u32 (of_nat (chunks_of (HDR_BYTES + 32 * chunks_of (length body)))) @ sha256 body"

definition man_vector :: "bytes \<Rightarrow> nat \<Rightarrow> bytes" where
  "man_vector body n = concat (map (\<lambda>i. sha256 (chunk_at body i)) [0..<n])"

definition man_root :: "bytes \<Rightarrow> bytes" where
  "man_root body = sha256 (man_head body @ replicate 32 0 @ man_vector body (chunks_of (length body)))"

definition manifest_of :: "bytes \<Rightarrow> bytes" where
  "manifest_of body = man_head body @ man_root body @ man_vector body (chunks_of (length body))"

lemma length_man [simp]:
  "length (man_head body) = 56" "length (man_vector body n) = 32 * n" "length (man_root body) = 32"
  "length (manifest_of body) = HDR_BYTES + 32 * chunks_of (length body)"
proof -
  show h: "length (man_head body) = 56" by (simp add: man_head_def SNAP_MAGIC_def)
  show v: "length (man_vector body n) = 32 * n" for n by (induction n) (simp_all add: man_vector_def)
  show r: "length (man_root body) = 32" by (simp add: man_root_def)
  show "length (manifest_of body) = HDR_BYTES + 32 * chunks_of (length body)" by (simp add: manifest_of_def h v r HDR_BYTES_def)
qed

lemma memcpy_next:
  assumes "length a = off"
  shows "memcpy_at (a @ drop off X) off src = (a @ src) @ drop (off + length src) X"
  using assms by (simp add: memcpy_at_def add.commute)

lemma put_vector_spec:
  assumes "length a = OFF_VECTOR"
  shows "put_vector body n (a @ drop OFF_VECTOR X) = (a @ man_vector body n) @ drop (OFF_VECTOR + 32 * n) X"
proof (induction n)
  case (Suc n)
  have "put_vector body (Suc n) (a @ drop OFF_VECTOR X) =
      memcpy_at ((a @ man_vector body n) @ drop (OFF_VECTOR + 32 * n) X) (OFF_VECTOR + 32 * n) (sha256 (chunk_at body n))"
    using Suc by (simp add: put_vector_def)
  also have "\<dots> = ((a @ man_vector body n) @ sha256 (chunk_at body n)) @ drop (OFF_VECTOR + 32 * n + length (sha256 (chunk_at body n))) X"
    by (rule memcpy_next) (simp add: assms)
  finally show ?case by (simp add: man_vector_def add.assoc add.commute [of 32])
qed (simp add: put_vector_def man_vector_def)

lemma root_over_gap:
  assumes "length a = OFF_ROOT" "length g = 32" "n = HDR_BYTES + length v"
  shows "root_over (a @ g @ v @ R) n = sha256 (a @ replicate 32 0 @ v)"
proof -
  have "memcpy_at (a @ g @ v @ R) OFF_ROOT (replicate 32 0) = (a @ replicate 32 0 @ v) @ R"
    using assms(1,2) by (simp add: memcpy_at_def)
  moreover have "n = length (a @ replicate 32 (0 :: u8) @ v)" using assms by (simp add: HDR_BYTES_def OFF_ROOT_def)
  ultimately show ?thesis unfolding root_over_def by (metis append_eq_conv_conj)
qed

lemma vector_at:
  assumes "i < n"
  shows "take 32 (drop (32 * i) (man_vector body n @ R)) = sha256 (chunk_at body i)"
proof -
  have "[0..<n] = [0..<i] @ i # [Suc i..<n]" using assms by (metis upt_conv_Cons upt_add_eq_append le_add_diff_inverse less_imp_le le0)
  then have "man_vector body n = man_vector body i @ sha256 (chunk_at body i) @ concat (map (\<lambda>i. sha256 (chunk_at body i)) [Suc i..<n])"
    by (simp add: man_vector_def)
  then show ?thesis by simp
qed

lemma chunks_of_eq: "chunks_of len = (len + 16383) div 16384"
  by (simp add: chunks_of_def)

lemma chunks_of_mono: "a \<le> b \<Longrightarrow> chunks_of a \<le> chunks_of b"
  by (simp add: chunks_of_eq div_le_mono)

lemma chunks_of_pos: "0 < len \<Longrightarrow> 0 < chunks_of len"
  by (simp add: chunks_of_eq div_greater_zero_iff)

lemma chunks_of_bounds:
  assumes "0 < len" "len \<le> MAX_BODY_BYTES"
  shows "0 < chunks_of len \<and> chunks_of len \<le> MAX_BODY_CHUNKS"
proof -
  have "chunks_of MAX_BODY_BYTES = MAX_BODY_CHUNKS" by (simp add: chunks_of_eq snap_sizes)
  then show ?thesis using chunks_of_mono [OF assms(2)] chunks_of_pos [OF assms(1)] by simp
qed

lemma man_chunks_bounds:
  assumes "n \<le> MAX_BODY_CHUNKS"
  shows "0 < chunks_of (HDR_BYTES + 32 * n) \<and> chunks_of (HDR_BYTES + 32 * n) \<le> MANIFEST_CHUNKS_MAX"
proof -
  have "chunks_of (HDR_BYTES + 32 * MAX_BODY_CHUNKS) = MANIFEST_CHUNKS_MAX" by (simp add: chunks_of_eq snap_sizes)
  moreover have "HDR_BYTES + 32 * n \<le> HDR_BYTES + 32 * MAX_BODY_CHUNKS" using assms by simp
  moreover have "0 < HDR_BYTES + 32 * n" by (simp add: HDR_BYTES_def)
  ultimately show ?thesis using chunks_of_mono chunks_of_pos by metis
qed

lemma manifest_fields:
  assumes m: "m = manifest_of body @ R" and b: "length body \<le> MAX_BODY_BYTES"
  shows "take 8 m = SNAP_MAGIC" "get_u32 (drop OFF_FORMAT m) = SNAP_FORMAT"
    "unat (get_u32 (drop OFF_BODY_LEN m)) = length body" "unat (get_u32 (drop OFF_CHUNKS m)) = chunks_of (length body)"
    "unat (get_u32 (drop OFF_MAN_CHNKS m)) = chunks_of (HDR_BYTES + 32 * chunks_of (length body))"
    "take 32 (drop OFF_BODY_SHA m) = sha256 body" "take 32 (drop OFF_ROOT m) = man_root body"
    "root_over m (HDR_BYTES + 32 * chunks_of (length body)) = man_root body"
    "i < chunks_of (length body) \<Longrightarrow> take 32 (drop (OFF_VECTOR + 32 * i) m) = sha256 (chunk_at body i)"
proof -
  define n where "n = chunks_of (length body)"
  define c where "c = chunks_of (HDR_BYTES + 32 * n)"
  have bl: "length body \<le> 33554432" using b by (simp add: snap_sizes)
  then have nl: "n \<le> 2048" by (simp add: n_def chunks_of_def)
  then have cl: "c \<le> 5" by (simp add: c_def chunks_of_def HDR_BYTES_def)
  have M: "length SNAP_MAGIC = 8" by (simp add: SNAP_MAGIC_def)
  have e: "m = SNAP_MAGIC @ put_u32 SNAP_FORMAT @ put_u32 (of_nat (length body)) @ put_u32 (of_nat n) @ put_u32 (of_nat c) @
      sha256 body @ man_root body @ man_vector body n @ R"
    unfolding m by (simp add: manifest_of_def man_head_def n_def c_def)
  show "take 8 m = SNAP_MAGIC" "get_u32 (drop OFF_FORMAT m) = SNAP_FORMAT" using M by (simp_all add: e OFF_FORMAT_def le32.dec_enc)
  have "drop OFF_BODY_LEN m = put_u32 (of_nat (length body)) @ put_u32 (of_nat n) @ put_u32 (of_nat c) @
      sha256 body @ man_root body @ man_vector body n @ R" "drop OFF_CHUNKS m = put_u32 (of_nat n) @ put_u32 (of_nat c) @
      sha256 body @ man_root body @ man_vector body n @ R" "drop OFF_MAN_CHNKS m = put_u32 (of_nat c) @
      sha256 body @ man_root body @ man_vector body n @ R"
    and s: "drop OFF_BODY_SHA m = sha256 body @ man_root body @ man_vector body n @ R" "drop OFF_ROOT m = man_root body @ man_vector body n @ R"
    and v: "drop OFF_VECTOR m = man_vector body n @ R"
    using M by (simp_all add: e OFF_BODY_LEN_def OFF_CHUNKS_def OFF_MAN_CHNKS_def OFF_BODY_SHA_def OFF_ROOT_def OFF_VECTOR_def HDR_BYTES_def)
  then have "get_u32 (drop OFF_BODY_LEN m) = of_nat (length body)" "get_u32 (drop OFF_CHUNKS m) = of_nat n"
    "get_u32 (drop OFF_MAN_CHNKS m) = of_nat c" by (simp_all add: le32.dec_enc)
  then have "unat (get_u32 (drop OFF_BODY_LEN m)) = length body" "unat (get_u32 (drop OFF_CHUNKS m)) = n"
    "unat (get_u32 (drop OFF_MAN_CHNKS m)) = c" using bl nl cl by (simp_all add: unat_of_nat_u32)
  then show "unat (get_u32 (drop OFF_BODY_LEN m)) = length body" "unat (get_u32 (drop OFF_CHUNKS m)) = chunks_of (length body)"
    "unat (get_u32 (drop OFF_MAN_CHNKS m)) = chunks_of (HDR_BYTES + 32 * chunks_of (length body))" by (simp_all add: n_def c_def)
  show "take 32 (drop OFF_BODY_SHA m) = sha256 body" "take 32 (drop OFF_ROOT m) = man_root body" by (simp_all add: s)
  have "m = man_head body @ man_root body @ man_vector body n @ R" unfolding m by (simp add: manifest_of_def n_def)
  then show "root_over m (HDR_BYTES + 32 * chunks_of (length body)) = man_root body"
    using root_over_gap [of "man_head body" "man_root body" "HDR_BYTES + 32 * n" "man_vector body n" R]
    by (simp add: OFF_ROOT_def n_def man_root_def [symmetric])
  show "take 32 (drop (OFF_VECTOR + 32 * i) m) = sha256 (chunk_at body i)" if "i < chunks_of (length body)"
    using vector_at [of i n body R] that v by (simp add: n_def drop_drop [symmetric] add.commute [of OFF_VECTOR] del: drop_drop)
qed

text \<open>What \<open>begin\<close> leaves in the manifest buffer.\<close>

lemma sender_begin_ok:
  assumes "length (sn_man s) = MANIFEST_BYTES_MAX" "0 < length body" "length body \<le> MAX_BODY_BYTES"
  shows "\<exists>s' R. sender_begin s (Some body) = (SNAP_OK, s') \<and> sn_armed s' \<and> sn_body s' = Some body \<and> sn_body_len s' = length body \<and>
    sn_man_chunks s' = chunks_of (HDR_BYTES + 32 * chunks_of (length body)) \<and> sn_man s' = manifest_of body @ R \<and>
    sn_root s' = man_root body \<and> length (sn_man s') = MANIFEST_BYTES_MAX"
proof -
  define n where "n = chunks_of (length body)"
  define mc where "mc = chunks_of (HDR_BYTES + 32 * n)"
  have n: "n \<le> MAX_BODY_CHUNKS" using chunks_of_bounds [OF assms(2,3)] by (simp add: n_def)
  have mc: "mc \<le> MANIFEST_CHUNKS_MAX" using man_chunks_bounds [OF n] by (simp add: mc_def)
  define X where "X = memcpy_at (sn_man s) 0 (replicate (mc * 16384) (0 :: u8))"
  have lX: "length X = MANIFEST_BYTES_MAX" using mc assms(1) by (simp add: X_def MANIFEST_BYTES_MAX_def)
  have fits: "OFF_VECTOR + 32 * n \<le> MANIFEST_BYTES_MAX" using n by (simp add: snap_sizes)
  have M: "length SNAP_MAGIC = 8" by (simp add: SNAP_MAGIC_def)
  have 1: "memcpy_at X 0 SNAP_MAGIC = SNAP_MAGIC @ drop 8 X" by (simp add: memcpy_at_def M)
  define a2 where "a2 = SNAP_MAGIC @ put_u32 SNAP_FORMAT"
  have 2: "memcpy_at (SNAP_MAGIC @ drop 8 X) OFF_FORMAT (put_u32 SNAP_FORMAT) = a2 @ drop 12 X"
    using memcpy_next [of SNAP_MAGIC 8 X "put_u32 SNAP_FORMAT"] by (simp add: M OFF_FORMAT_def a2_def)
  define a3 where "a3 = a2 @ put_u32 (of_nat (length body))"
  have 3: "memcpy_at (a2 @ drop 12 X) OFF_BODY_LEN (put_u32 (of_nat (length body))) = a3 @ drop 16 X"
    using memcpy_next [of a2 12 X] by (simp add: M a2_def a3_def OFF_BODY_LEN_def)
  define a4 where "a4 = a3 @ put_u32 (of_nat n)"
  have 4: "memcpy_at (a3 @ drop 16 X) OFF_CHUNKS (put_u32 (of_nat n)) = a4 @ drop 20 X"
    using memcpy_next [of a3 16 X] by (simp add: M a2_def a3_def a4_def OFF_CHUNKS_def)
  define a5 where "a5 = a4 @ put_u32 (of_nat mc)"
  have 5: "memcpy_at (a4 @ drop 20 X) OFF_MAN_CHNKS (put_u32 (of_nat mc)) = a5 @ drop 24 X"
    using memcpy_next [of a4 20 X] by (simp add: M a2_def a3_def a4_def a5_def OFF_MAN_CHNKS_def)
  have h: "man_head body = a5 @ sha256 body" by (simp add: man_head_def n_def mc_def a2_def a3_def a4_def a5_def)
  have 6: "memcpy_at (a5 @ drop 24 X) OFF_BODY_SHA (sha256 body) = man_head body @ drop 56 X"
    using memcpy_next [of a5 24 X "sha256 body"] by (simp add: M OFF_BODY_SHA_def h a2_def a3_def a4_def a5_def)
  define g where "g = take 32 (drop 56 X)"
  define R where "R = drop (OFF_VECTOR + 32 * n) X"
  have g: "length g = 32" using lX by (simp add: g_def snap_sizes)
  have x: "drop 56 X = g @ drop OFF_VECTOR X" by (simp add: g_def OFF_VECTOR_def HDR_BYTES_def take_drop_chain)
  have 7: "put_vector body n (man_head body @ drop 56 X) = man_head body @ g @ man_vector body n @ R"
    using put_vector_spec [of "man_head body @ g" body n X] g by (simp add: x R_def OFF_VECTOR_def HDR_BYTES_def)
  have 8: "root_over (man_head body @ g @ man_vector body n @ R) (HDR_BYTES + 32 * n) = man_root body"
    by (subst root_over_gap) (simp_all add: OFF_ROOT_def g man_root_def n_def)
  have 9: "memcpy_at (man_head body @ g @ man_vector body n @ R) OFF_ROOT (man_root body) = manifest_of body @ R"
    using g by (simp add: memcpy_at_def OFF_ROOT_def manifest_of_def n_def)
  have "length (manifest_of body @ R) = MANIFEST_BYTES_MAX" using fits lX by (simp add: R_def OFF_VECTOR_def n_def [symmetric])
  then show ?thesis using assms(2,3)
    by (simp add: sender_begin_def Let_def sender_reset_def n_def [symmetric] mc_def [symmetric] X_def [symmetric] 1 2 3 4 5 6 7 8 9)
qed

lemma head_man_chunks:
  assumes "length body \<le> MAX_BODY_BYTES"
  shows "unat (get_u32 (drop OFF_MAN_CHNKS (man_head body @ R))) = chunks_of (HDR_BYTES + 32 * chunks_of (length body))"
proof -
  have "chunks_of (length body) \<le> MAX_BODY_CHUNKS"
    using chunks_of_mono [OF assms] by (simp add: chunks_of_eq snap_sizes)
  from man_chunks_bounds [OF this] have "chunks_of (HDR_BYTES + 32 * chunks_of (length body)) < 2 ^ 32"
    by (simp add: snap_sizes)
  moreover have "drop OFF_MAN_CHNKS (man_head body @ R) =
      put_u32 (of_nat (chunks_of (HDR_BYTES + 32 * chunks_of (length body)))) @ sha256 body @ R"
    by (simp add: man_head_def OFF_MAN_CHNKS_def SNAP_MAGIC_def)
  ultimately show ?thesis by (simp add: le32.dec_enc unat_of_nat_u32)
qed

subsection \<open>The image\<close>

definition ready_sender :: "snap_sender \<Rightarrow> bytes \<Rightarrow> bytes \<Rightarrow> bool" where
  "ready_sender s body R \<longleftrightarrow> sn_armed s \<and> sn_body s = Some body \<and> sn_body_len s = length body \<and>
     sn_man_chunks s = chunks_of (HDR_BYTES + 32 * chunks_of (length body)) \<and> sn_man s = manifest_of body @ R \<and>
     length (sn_man s) = MANIFEST_BYTES_MAX \<and> 0 < length body \<and> length body \<le> MAX_BODY_BYTES"

definition image_of :: "snap_sender \<Rightarrow> bytes" where
  "image_of s = take (sn_man_chunks s * 16384) (sn_man s) @ the (sn_body s)"

lemma ready_sizes:
  assumes "ready_sender s body R"
  shows "sn_man_chunks s * 16384 \<le> length (sn_man s)" "length (image_of s) = image_len s" "image_len s < 2 ^ 32"
    "0 < sn_man_chunks s" "sn_man_chunks s \<le> 5" "chunks_of (length body) \<le> 2048"
proof -
  have n: "chunks_of (length body) \<le> MAX_BODY_CHUNKS" using assms chunks_of_bounds [of "length body"] by (simp add: ready_sender_def)
  then show "chunks_of (length body) \<le> 2048" by (simp add: MAX_BODY_CHUNKS_def)
  show m: "0 < sn_man_chunks s" "sn_man_chunks s \<le> 5"
    using assms man_chunks_bounds [OF n] by (simp_all add: ready_sender_def snap_sizes)
  have "MANIFEST_BYTES_MAX = 81920" by (simp add: snap_sizes)
  with assms have "length (sn_man s) = 81920" unfolding ready_sender_def by metis
  with m show a: "sn_man_chunks s * 16384 \<le> length (sn_man s)" by linarith
  show "length (image_of s) = image_len s" using assms a by (simp add: image_of_def image_len_def ready_sender_def)
  show "image_len s < 2 ^ 32" using assms m by (simp add: image_len_def ready_sender_def snap_sizes)
qed

lemma fill_from_spec:
  assumes "ready_sender s body R" "unat off + len \<le> image_len s" "done \<le> len"
  shows "fill_from s off len done = take (len - done) (drop (unat off + done) (image_of s))"
  using assms
proof (induction s off len "done" rule: fill_from.induct)
  case (1 s off len dn)
  note sz = ready_sizes [OF 1(3)]
  define mb where "mb = sn_man_chunks s * 16384"
  show ?case
  proof (cases "dn < len")
    case True
    have at: "unat (off + of_nat dn) = unat off + dn"
      using 1(4) True sz(3) by (simp add: unat_word_ariths unat_of_nat_u32)
    have img: "image_of s = take mb (sn_man s) @ body" "length (take mb (sn_man s)) = mb" "sn_body_len s = length body" "sn_body s = Some body"
      using 1(3) sz(1) by (simp_all add: image_of_def ready_sender_def mb_def)
    have il: "image_len s = mb + length body" using img by (simp add: image_len_def mb_def)
    have split: "take k (drop p xs) @ take (len - (dn + k)) (drop (p + k) xs) = take (len - dn) (drop p xs)"
      if "k \<le> len - dn" for k p and xs :: bytes
    proof -
      have "len - dn = k + (len - (dn + k))" using that by simp
      then show ?thesis using take_add [of k "len - (dn + k)" "drop p xs"] by (simp add: add.commute [of p])
    qed
    show ?thesis
    proof (cases "unat off + dn < mb")
      case m: True
      define k where "k = min (mb - (unat off + dn)) (len - dn)"
      have "take k (drop (unat off + dn) (sn_man s)) = take k (drop (unat off + dn) (image_of s))"
      proof -
        have "k \<le> length (drop (unat off + dn) (take mb (sn_man s)))" using m img(2) by (simp add: k_def)
        then have "take k (drop (unat off + dn) (image_of s)) = take k (drop (unat off + dn) (take mb (sn_man s)))"
          using m img(2) by (simp add: img(1))
        also have "\<dots> = take k (drop (unat off + dn) (sn_man s))" by (simp add: drop_take k_def)
        finally show ?thesis by simp
      qed
      moreover have "fill_from s off len (dn + k) = take (len - (dn + k)) (drop (unat off + (dn + k)) (image_of s))"
        using 1(1) [OF True refl refl] at m 1(3,4) True by (simp add: mb_def k_def)
      ultimately show ?thesis using True m at split [of k "unat off + dn" "image_of s"]
        by (simp add: fill_from.simps [of s off len dn] Let_def mb_def [symmetric] k_def [symmetric] add.assoc) (simp add: k_def)
    next
      case m: False
      define k where "k = min (length body - (unat off + dn - mb)) (len - dn)"
      have lt: "unat off + dn - mb < length body" using 1(4) True m il by linarith
      have "take k (drop (unat off + dn - mb) body) = take k (drop (unat off + dn) (image_of s))"
        using m img(2) by (simp add: img(1))
      moreover have "fill_from s off len (dn + k) = take (len - (dn + k)) (drop (unat off + (dn + k)) (image_of s))"
      proof -
        have "k = min (sn_body_len s - (unat (off + of_nat dn) - sn_man_chunks s * CHUNK)) (len - dn)" by (simp add: k_def at mb_def img(3))
        moreover have "\<not> unat (off + of_nat dn) < sn_man_chunks s * CHUNK" using m by (simp add: at mb_def)
        moreover have "\<not> sn_body_len s \<le> unat (off + of_nat dn) - sn_man_chunks s * CHUNK" using lt by (simp add: at mb_def img(3))
        moreover have "dn + k \<le> len" using True by (simp add: k_def)
        ultimately show ?thesis using 1(2) [OF True refl refl _ refl _ refl 1(3,4)] by blast
      qed
      moreover have "fill_from s off len dn = take k (drop (unat off + dn - mb) body) @ fill_from s off len (dn + k)"
        using True m lt by (simp add: fill_from.simps [of s off len dn] Let_def at mb_def k_def img(3,4) not_le)
      moreover have "k \<le> len - dn" by (simp add: k_def)
      ultimately show ?thesis using split [of k "unat off + dn" "image_of s"] by (simp add: add.assoc)
    qed
  qed (use 1 in \<open>simp add: fill_from.simps\<close>)
qed

lemma length_fill_from:
  assumes "ready_sender s body R" "done \<le> len"
  shows "length (fill_from s off len done) = len - done"
  using assms
proof (induction s off len "done" rule: fill_from.induct)
  case (1 s off len dn)
  define mb where "mb = sn_man_chunks s * CHUNK"
  define at where "at = unat (off + of_nat dn)"
  have w: "mb \<le> length (sn_man s)" "sn_body s = Some body" "sn_body_len s = length body"
    using ready_sizes(1) [OF 1(3)] 1(3) by (simp_all add: ready_sender_def mb_def)
  have l: "length (take k (drop p xs)) = k" if "p + k \<le> length xs" for k p and xs :: bytes using that by simp
  show ?case
  proof (cases "dn < len")
    case True
    consider "at < mb" | "mb \<le> at" "length body \<le> at - mb" | "mb \<le> at" "at - mb < length body" by linarith
    then show ?thesis
    proof cases
      case 1
      define k where "k = min (mb - at) (len - dn)"
      have k: "k \<le> mb - at" "k \<le> len - dn" by (simp_all add: k_def)
      with True have pk: "dn + k \<le> len" by linarith
      have "length (fill_from s off len (dn + k)) = len - (dn + k)"
        using "1.IH"(1) [OF True refl refl] 1 \<open>ready_sender s body R\<close> pk by (simp add: mb_def at_def k_def)
      moreover have "length (take k (drop at (sn_man s))) = k" by (rule l) (use k 1 w(1) in linarith)
      ultimately show ?thesis using True 1 k
        by (subst fill_from.simps) (simp add: Let_def mb_def [symmetric] at_def [symmetric] k_def [symmetric] del: length_take CHUNK_eq)
    next
      case 2
      then show ?thesis using True w(3) by (subst fill_from.simps) (simp add: Let_def mb_def [symmetric] at_def [symmetric] del: CHUNK_eq)
    next
      case 3
      define k where "k = min (length body - (at - mb)) (len - dn)"
      have k: "k \<le> length body - (at - mb)" "k \<le> len - dn" by (simp_all add: k_def)
      with True have pk: "dn + k \<le> len" by linarith
      have "length (fill_from s off len (dn + k)) = len - (dn + k)"
        using "1.IH"(2) [OF True refl refl] 3 w \<open>ready_sender s body R\<close> pk by (simp add: mb_def at_def k_def not_less)
      moreover have "length (take k (drop (at - mb) body)) = k" by (rule l) (use k 3 in linarith)
      ultimately show ?thesis using True 3 k w
        by (subst fill_from.simps) (simp add: Let_def mb_def [symmetric] at_def [symmetric] k_def [symmetric] not_le
          del: length_take CHUNK_eq diff_diff_right)
    qed
  qed (simp add: fill_from.simps)
qed

text \<open>A channel that is not busy takes a source.\<close>

lemma start_send_src_takes:
  assumes "\<not> tx_active (ch_tx ch)" "len \<noteq> 0"
  shows "\<exists>ch'. start_send_src ch conn pl (Some src) ctx len dc clk = (True, ch')"
proof -
  define c where "c = ((ucast len + ucast CHUNK_BYTES - 1) div ucast CHUNK_BYTES :: u64)"
  have u: "unat c = (unat len + 16383) div 16384" by (simp only: c_def u64_chunks)
  have p: "0 < unat len" using assms(2) by (simp add: unat_gt_0)
  have "unat len < 2 ^ 32" using unsigned_less [of len, where ?'a = nat] by simp
  then have "(unat len + 16383) div 16384 \<le> (2 ^ 32 + 16383) div 16384" by (intro div_le_mono) simp
  then have "unat c \<le> 0x0fffffff" unfolding u by simp
  then have "\<not> c > 0x0fffffff" by (simp add: word_less_nat_alt)
  moreover have "0 < unat c" unfolding u using p by (simp add: div_greater_zero_iff)
  then have "c \<noteq> 0" by (simp add: unat_gt_0)
  ultimately obtain ch1 where "start_send ch conn pl None len clk = (True, ch1)"
    using assms by (simp add: start_send_def Let_def c_def [symmetric])
  then show ?thesis by (simp add: start_send_src_def Let_def)
qed

end
