(* ===== verification/Snapshot_Receiver.thy ===== *)
theory Snapshot_Receiver
  imports Snapshot_Image
begin

text \<open>
  The receiver of the snapshot pipeline, \<open>mh_net_udp/udp_snapshot.cpp\<close>: it collects the manifest, checks it against
  its root, admits body chunks in any order against the hashes the manifest carries, and gives the blob out only
  when it is whole.  The destination is a byte list of the caller's capacity.
\<close>

subsection \<open>The receiver\<close>

record rcv_stats =
  rs_chunks_manifest :: nat
  rs_chunks_ok :: nat
  rs_hash_refused :: nat
  rs_dup :: nat
  rs_refused_other :: nat
  rs_manifest_refused :: nat
  rs_verified_prefix :: nat
  rs_body_chunks :: nat
  rs_manifest_ready :: bool
  rs_complete :: bool

record receiver =
  rv_body :: "bytes option"
  rv_body_cap :: nat
  rv_man_ready :: bool
  rv_complete :: bool
  rv_man_chunks :: nat
  rv_man_have :: nat
  rv_body_len :: nat
  rv_body_chunks :: nat
  rv_prefix :: nat
  rv_root :: bytes
  rv_body_sha :: bytes
  rv_held :: "u32 list"
  rv_man :: bytes
  rv_s :: rcv_stats

definition rcv_stats0 :: rcv_stats where
  "rcv_stats0 = \<lparr>rs_chunks_manifest = 0, rs_chunks_ok = 0, rs_hash_refused = 0, rs_dup = 0, rs_refused_other = 0,
     rs_manifest_refused = 0, rs_verified_prefix = 0, rs_body_chunks = 0, rs_manifest_ready = False, rs_complete = False\<rparr>"

definition receiver_reset :: "bytes option \<Rightarrow> nat \<Rightarrow> receiver" where
  "receiver_reset body_buf cap =
     \<lparr>rv_body = body_buf, rv_body_cap = cap, rv_man_ready = False, rv_complete = False, rv_man_chunks = 1, rv_man_have = 0,
      rv_body_len = 0, rv_body_chunks = 0, rv_prefix = 0, rv_root = replicate 32 0, rv_body_sha = replicate 32 0,
      rv_held = replicate (MAX_BODY_CHUNKS div 32) 0, rv_man = replicate MANIFEST_BYTES_MAX 0, rv_s = rcv_stats0\<rparr>"

definition chunk_held :: "u32 list \<Rightarrow> nat \<Rightarrow> bool" where
  "chunk_held m i = (m ! (i div 32) AND push_bit (i mod 32) 1 \<noteq> 0)"

definition set_held :: "u32 list \<Rightarrow> nat \<Rightarrow> u32 list" where
  "set_held m i = m[i div 32 := m ! (i div 32) OR push_bit (i mod 32) 1]"

definition resume_chunk :: "receiver \<Rightarrow> nat" where
  "resume_chunk r = (if \<not> rv_man_ready r then rv_man_have r else rv_man_chunks r + rv_prefix r)"

definition parse_manifest :: "receiver \<Rightarrow> snap_err \<times> receiver" where
  "parse_manifest r =
     (let man = rv_man r in
      if take 8 man \<noteq> SNAP_MAGIC then (ERR_MAGIC, r)
      else if get_u32 (drop OFF_FORMAT man) \<noteq> SNAP_FORMAT then (ERR_FORMAT, r)
      else
        (let body_len = unat (get_u32 (drop OFF_BODY_LEN man));
             chunks = unat (get_u32 (drop OFF_CHUNKS man));
             manch = unat (get_u32 (drop OFF_MAN_CHNKS man)) in
         if body_len = 0 \<or> body_len > MAX_BODY_BYTES then (ERR_SHAPE, r)
         else if chunks = 0 \<or> chunks > MAX_BODY_CHUNKS then (ERR_SHAPE, r)
         else if chunks \<noteq> chunks_of body_len then (ERR_SHAPE, r)
         else
           (let man_len = HDR_BYTES + 32 * chunks in
            if manch \<noteq> chunks_of man_len \<or> manch = 0 \<or> manch > MANIFEST_CHUNKS_MAX then (ERR_SHAPE, r)
            else if manch \<noteq> rv_man_chunks r then (ERR_SHAPE, r)
            else if root_over man man_len \<noteq> take 32 (drop OFF_ROOT man) then (ERR_ROOT, r)
            else if rv_body r = None \<or> body_len > rv_body_cap r then (ERR_CAPACITY, r)
            else (SNAP_OK, r\<lparr>rv_body_len := body_len, rv_body_chunks := chunks,
                   rv_body_sha := take 32 (drop OFF_BODY_SHA man), rv_root := take 32 (drop OFF_ROOT man),
                   rv_man_ready := True\<rparr>))))"

definition manifest_put :: "bytes \<Rightarrow> nat \<Rightarrow> bytes \<Rightarrow> bytes" where
  "manifest_put man k p =
     (let man = memcpy_at man (k * CHUNK) p in
      if length p < CHUNK then memcpy_at man (k * CHUNK + length p) (replicate (CHUNK - length p) 0) else man)"

definition on_manifest_chunk :: "receiver \<Rightarrow> nat \<Rightarrow> bytes \<Rightarrow> snap_err \<times> receiver" where
  "on_manifest_chunk r k p =
     (if k < rv_man_have r then (SNAP_OK, r\<lparr>rv_s := (rv_s r)\<lparr>rs_dup := rs_dup (rv_s r) + 1\<rparr>\<rparr>)
      else if k \<noteq> rv_man_have r then (ERR_SHAPE, r\<lparr>rv_s := (rv_s r)\<lparr>rs_refused_other := rs_refused_other (rv_s r) + 1\<rparr>\<rparr>)
      else
        (let man = manifest_put (rv_man r) k p;
             r = r\<lparr>rv_man := man, rv_man_have := rv_man_have r + 1,
                   rv_s := (rv_s r)\<lparr>rs_chunks_manifest := rs_chunks_manifest (rv_s r) + 1\<rparr>\<rparr>;
             manch = unat (get_u32 (drop OFF_MAN_CHNKS man)) in
         if k = 0 \<and> (manch = 0 \<or> manch > MANIFEST_CHUNKS_MAX)
         then (ERR_SHAPE, r\<lparr>rv_s := (rv_s r)\<lparr>rs_manifest_refused := rs_manifest_refused (rv_s r) + 1\<rparr>\<rparr>)
         else
           (let r = (if k = 0 then r\<lparr>rv_man_chunks := manch\<rparr> else r) in
            if rv_man_have r = rv_man_chunks r then
              (case parse_manifest r of (rc, r) \<Rightarrow>
                 if rc \<noteq> SNAP_OK
                 then (rc, r\<lparr>rv_s := (rv_s r)\<lparr>rs_manifest_refused := rs_manifest_refused (rv_s r) + 1\<rparr>, rv_man_have := 0\<rparr>)
                 else (SNAP_OK, r\<lparr>rv_s := (rv_s r)\<lparr>rs_body_chunks := rv_body_chunks r, rs_manifest_ready := True\<rparr>\<rparr>))
            else (SNAP_OK, r))))"

function advance_prefix :: "u32 list \<Rightarrow> nat \<Rightarrow> nat \<Rightarrow> nat" where
  "advance_prefix m n i = (if i < n \<and> chunk_held m i then advance_prefix m n (i + 1) else i)"
  by pat_completeness auto
termination by (relation "measure (\<lambda>(m, n, i). n - i)") auto

declare advance_prefix.simps [simp del]

definition on_body_chunk :: "receiver \<Rightarrow> nat \<Rightarrow> bytes \<Rightarrow> snap_err \<times> receiver" where
  "on_body_chunk r i p =
     (let off = i * CHUNK;
          want = (if rv_body_len r - off > CHUNK then CHUNK else rv_body_len r - off) in
      if length p \<noteq> want then (ERR_SHAPE, r\<lparr>rv_s := (rv_s r)\<lparr>rs_refused_other := rs_refused_other (rv_s r) + 1\<rparr>\<rparr>)
      else if chunk_held (rv_held r) i then (SNAP_OK, r\<lparr>rv_s := (rv_s r)\<lparr>rs_dup := rs_dup (rv_s r) + 1\<rparr>\<rparr>)
      else if sha256 p \<noteq> take 32 (drop (OFF_VECTOR + 32 * i) (rv_man r))
      then (ERR_CHUNK_HASH, r\<lparr>rv_s := (rv_s r)\<lparr>rs_hash_refused := rs_hash_refused (rv_s r) + 1\<rparr>\<rparr>)
      else
        (let body = memcpy_at (the (rv_body r)) off p;
             m = set_held (rv_held r) i;
             prefix = advance_prefix m (rv_body_chunks r) (rv_prefix r);
             r = r\<lparr>rv_body := Some body, rv_held := m, rv_prefix := prefix,
                   rv_s := (rv_s r)\<lparr>rs_chunks_ok := rs_chunks_ok (rv_s r) + 1, rs_verified_prefix := prefix\<rparr>\<rparr>;
             ok = (sha256 (take (rv_body_len r) body) = rv_body_sha r) in
         (SNAP_OK, if prefix = rv_body_chunks r \<and> \<not> rv_complete r
                   then r\<lparr>rv_complete := ok, rv_s := (rv_s r)\<lparr>rs_complete := ok\<rparr>\<rparr> else r)))"

definition snap_on_chunk :: "receiver \<Rightarrow> u32 \<Rightarrow> bytes option \<Rightarrow> snap_err \<times> receiver" where
  "snap_on_chunk r chunk_id data =
     (let other = r\<lparr>rv_s := (rv_s r)\<lparr>rs_refused_other := rs_refused_other (rv_s r) + 1\<rparr>\<rparr>; k = unat chunk_id in
      case data of None \<Rightarrow> (ERR_ARG, other)
      | Some p \<Rightarrow>
          if length p = 0 \<or> length p > CHUNK then (ERR_ARG, other)
          else if k < rv_man_chunks r then on_manifest_chunk r k p
          else if \<not> rv_man_ready r then (ERR_NO_MANIFEST, other)
          else if k - rv_man_chunks r \<ge> rv_body_chunks r then (ERR_SHAPE, other)
          else on_body_chunk r (k - rv_man_chunks r) p)"

definition snap_body :: "receiver \<Rightarrow> bytes option" where
  "snap_body r = (if rv_complete r then rv_body r else None)"

definition finish_status :: "receiver \<Rightarrow> snap_err" where
  "finish_status r =
     (if \<not> rv_man_ready r then ERR_NO_MANIFEST
      else if rv_prefix r \<noteq> rv_body_chunks r then ERR_INCOMPLETE
      else if \<not> rv_complete r then ERR_BODY_HASH else SNAP_OK)"

definition rcv_stats_of :: "receiver \<Rightarrow> rcv_stats" where
  "rcv_stats_of r = (rv_s r)\<lparr>rs_verified_prefix := rv_prefix r, rs_body_chunks := rv_body_chunks r,
     rs_manifest_ready := rv_man_ready r, rs_complete := rv_complete r\<rparr>"

text \<open>The receiver over a sequence of deliveries.\<close>

definition snap_run :: "(u32 \<times> bytes option) list \<Rightarrow> receiver \<Rightarrow> receiver" where
  "snap_run cs r = fold (\<lambda>(k, d) r. snd (snap_on_chunk r k d)) cs r"

subsection \<open>The chunks of the image\<close>

lemma length_sender_source: "ready_sender s body R \<Longrightarrow> length (sender_source s off n) = unat n"
  by (simp add: sender_source_def length_fill_from)

lemma ready_begin:
  assumes "sender_begin s (Some body) = (SNAP_OK, s')" "length (sn_man s) = MANIFEST_BYTES_MAX"
  shows "\<exists>R. ready_sender s' body R" "sn_root s' = man_root body"
proof -
  have b: "0 < length body" "length body \<le> MAX_BODY_BYTES"
    using assms(1) by (auto simp: sender_begin_def Let_def split: if_splits)
  from sender_begin_ok [OF assms(2) b] assms(1) b
  show "\<exists>R. ready_sender s' body R" "sn_root s' = man_root body" by (auto simp: ready_sender_def)
qed

lemma image_chunks:
  assumes r: "ready_sender s body R"
    and st: "start_send_src ch conn pl (Some (sender_source s)) me (of_nat (image_len s)) dc clk = (True, ch')"
  shows "unat (tx_chunks (ch_tx ch')) = sn_man_chunks s + chunks_of (length body)"
    and "k < tx_chunks (ch_tx ch') \<Longrightarrow> image_chunk (ch_tx ch') k = take 16384 (drop (unat k * 16384) (image_of s))"
proof -
  note sz = ready_sizes [OF r]
  have l: "sn_body_len s = length body" using r by (simp add: ready_sender_def)
  have u: "unat (of_nat (image_len s) :: u32) = image_len s" using sz(3) by (rule unat_of_nat_u32)
  have i: "tx_inv (ch_piece_max ch') (ch_tx ch') \<and> tx_base (ch_tx ch') = 0 \<and> tx_src (ch_tx ch') = Some (sender_source s) \<and>
      tx_blob_len (ch_tx ch') = of_nat (image_len s)"
    by (rule start_send_src_inv [OF st]) (use length_sender_source [OF r] in auto)
  then have c: "chunks_ok (ch_tx ch')" by (simp add: tx_inv_def)
  have "(image_len s + 16383) div 16384 = sn_man_chunks s + chunks_of (length body)"
    by (simp add: image_len_def l chunks_of_eq add.assoc)
  then show "unat (tx_chunks (ch_tx ch')) = sn_man_chunks s + chunks_of (length body)"
    using c i u by (simp add: chunks_ok_def)
  show "image_chunk (ch_tx ch') k = take 16384 (drop (unat k * 16384) (image_of s))" if k: "k < tx_chunks (ch_tx ch')"
  proof -
    note cs = chunk_start [OF c k]
    have ln: "unat (chunk_len_of (ch_tx ch') k) = min 16384 (image_len s - unat k * 16384)" using chunk_len [OF c k] i u by simp
    have "image_chunk (ch_tx ch') k = fill_from s (k * CHUNK_BYTES) (unat (chunk_len_of (ch_tx ch') k)) 0"
      using i r by (simp add: image_chunk_def Let_def sender_source_def ready_sender_def)
    also have "\<dots> = take (unat (chunk_len_of (ch_tx ch') k)) (drop (unat k * 16384) (image_of s))"
      using cs i u by (subst fill_from_spec [OF r]) (simp_all add: ln)
    finally show ?thesis using sz(2) by (simp add: ln min_def)
  qed
qed

lemma slice_of_manifest:
  assumes "ready_sender s body R" "k < sn_man_chunks s"
  shows "take 16384 (drop (k * 16384) (image_of s)) = take 16384 (drop (k * 16384) (take (sn_man_chunks s * 16384) (sn_man s)))"
    "length (take 16384 (drop (k * 16384) (image_of s))) = 16384"
proof -
  have "length (take (sn_man_chunks s * 16384) (sn_man s)) = sn_man_chunks s * 16384" using ready_sizes(1) [OF assms(1)] by simp
  moreover have "k * 16384 + 16384 \<le> sn_man_chunks s * 16384" using assms(2) by linarith
  ultimately show "take 16384 (drop (k * 16384) (image_of s)) = take 16384 (drop (k * 16384) (take (sn_man_chunks s * 16384) (sn_man s)))"
    by (simp add: image_of_def)
  show "length (take 16384 (drop (k * 16384) (image_of s))) = 16384"
    using \<open>k * 16384 + 16384 \<le> sn_man_chunks s * 16384\<close> ready_sizes(2) [OF assms(1)] by (simp add: image_len_def)
qed

lemma slice_of_body:
  assumes "ready_sender s body R"
  shows "take 16384 (drop ((sn_man_chunks s + i) * 16384) (image_of s)) = chunk_at body i"
proof -
  have "length (take (sn_man_chunks s * 16384) (sn_man s)) = sn_man_chunks s * 16384" using ready_sizes(1) [OF assms] by simp
  then have "drop ((sn_man_chunks s + i) * 16384) (image_of s) = drop (i * 16384) (the (sn_body s))"
    by (simp add: image_of_def add_mult_distrib)
  then have "drop ((sn_man_chunks s + i) * 16384) (image_of s) = drop (i * 16384) body"
    using assms by (simp add: ready_sender_def)
  then show ?thesis by (simp add: chunk_at_def min_def)
qed

lemma length_chunk_at: "length (chunk_at body i) = min CHUNK (length body - i * CHUNK)"
  by (simp add: chunk_at_def)

lemma chunk_at_index: "i < chunks_of len \<longleftrightarrow> i * 16384 < len"
proof -
  have "i < (len + 16383) div 16384 \<longleftrightarrow> Suc i * 16384 \<le> len + 16383" by (simp only: Suc_le_eq [symmetric] less_eq_div_iff_mult_less_eq)
  then show ?thesis by (simp add: chunks_of_eq Suc_le_eq)
qed

subsection \<open>The held chunks\<close>

lemma held_bit: "chunk_held m i = bit (m ! (i div 32)) (i mod 32)"
  by (simp add: chunk_held_def bit_iff_and_push_bit_not_eq_0)

lemma held_set_held:
  assumes "i < 32 * length m" "j < 32 * length m"
  shows "chunk_held (set_held m i) j = (chunk_held m j \<or> i = j)"
proof -
  have "i div 32 < length m" "j div 32 < length m" using assms by (simp_all add: less_mult_imp_div_less mult.commute)
  moreover have "i mod 32 < 32" by simp
  moreover have "i = j \<longleftrightarrow> i div 32 = j div 32 \<and> i mod 32 = j mod 32" by (metis div_mult_mod_eq)
  moreover have "bit (push_bit (i mod 32) 1 :: u32) (j mod 32) = (i mod 32 = j mod 32)"
    by (auto simp: bit_exp_iff possible_bit_word)
  ultimately show ?thesis by (auto simp: held_bit set_held_def nth_list_update bit_or_iff simp del: push_bit_of_1)
qed

lemma length_set_held [simp]: "length (set_held m i) = length m"
  by (simp add: set_held_def)

lemma advance_prefix_spec:
  assumes "i \<le> n"
  shows "i \<le> advance_prefix m n i \<and> advance_prefix m n i \<le> n \<and> (\<forall>j. i \<le> j \<and> j < advance_prefix m n i \<longrightarrow> chunk_held m j) \<and>
    (advance_prefix m n i < n \<longrightarrow> \<not> chunk_held m (advance_prefix m n i))"
  using assms
proof (induction m n i rule: advance_prefix.induct)
  case (1 m n i)
  show ?case
  proof (cases "i < n \<and> chunk_held m i")
    case True
    then have e: "advance_prefix m n i = advance_prefix m n (i + 1)" by (simp add: advance_prefix.simps [of m n i])
    have "chunk_held m j" if "i \<le> j" "j < advance_prefix m n (i + 1)" for j using 1 True that by (cases "j = i") auto
    then show ?thesis using 1 True unfolding e by auto
  next
    case False
    then have "advance_prefix m n i = i" by (subst advance_prefix.simps) (rule if_not_P)
    then show ?thesis using 1(2) False by auto
  qed
qed

subsection \<open>The invariant\<close>

text \<open>\<open>P\<close> is what is known of the bytes of a held chunk, given the manifest.\<close>

definition man_ok :: "receiver \<Rightarrow> bool" where
  "man_ok r \<longleftrightarrow> (let man = rv_man r; chunks = rv_body_chunks r in
     take 8 man = SNAP_MAGIC \<and> unat (get_u32 (drop OFF_BODY_LEN man)) = rv_body_len r \<and> chunks = chunks_of (rv_body_len r) \<and>
     chunks \<le> MAX_BODY_CHUNKS \<and> rv_man_have r = rv_man_chunks r \<and>
     root_over man (HDR_BYTES + 32 * chunks) = rv_root r \<and> rv_body_sha r = take 32 (drop OFF_BODY_SHA man) \<and>
     0 < rv_body_len r \<and> rv_body_len r \<le> rv_body_cap r)"

definition body_ok :: "(bytes \<Rightarrow> nat \<Rightarrow> bytes \<Rightarrow> bool) \<Rightarrow> receiver \<Rightarrow> bool" where
  "body_ok P r \<longleftrightarrow> (let b = take (rv_body_len r) (the (rv_body r)) in
     (\<forall>i < rv_body_chunks r. chunk_held (rv_held r) i \<longrightarrow> P (rv_man r) i (chunk_at b i)) \<and>
     rv_prefix r \<le> rv_body_chunks r \<and> (\<forall>i < rv_prefix r. chunk_held (rv_held r) i) \<and>
     (rv_prefix r < rv_body_chunks r \<longrightarrow> \<not> chunk_held (rv_held r) (rv_prefix r)) \<and>
     (rv_complete r \<longrightarrow> rv_prefix r = rv_body_chunks r \<and> sha256 b = rv_body_sha r))"

definition rcv_inv :: "(bytes \<Rightarrow> nat \<Rightarrow> bytes \<Rightarrow> bool) \<Rightarrow> bytes \<Rightarrow> receiver \<Rightarrow> bool" where
  "rcv_inv P buf r \<longleftrightarrow> (\<exists>b. rv_body r = Some b \<and> length b = length buf \<and> rv_body_cap r = length buf \<and>
     length (rv_man r) = MANIFEST_BYTES_MAX \<and> length (rv_held r) = 64 \<and>
     0 < rv_man_chunks r \<and> rv_man_chunks r \<le> MANIFEST_CHUNKS_MAX \<and> rv_man_have r \<le> rv_man_chunks r \<and>
     (if rv_man_ready r then man_ok r \<and> body_ok P r \<and> drop (rv_body_len r) b = drop (rv_body_len r) buf
      else b = buf \<and> \<not> rv_complete r \<and> rv_prefix r = 0 \<and> rv_held r = replicate 64 0))"

lemma receiver_reset_inv: "length buf = cap \<Longrightarrow> rcv_inv P buf (receiver_reset (Some buf) cap)"
  by (simp add: rcv_inv_def receiver_reset_def MAX_BODY_CHUNKS_def snap_sizes)

lemma rcv_inv_stats [simp]: "rcv_inv P buf (r\<lparr>rv_s := st\<rparr>) = rcv_inv P buf r"
  by (simp add: rcv_inv_def man_ok_def body_ok_def)

lemma chunk_at_memcpy:
  assumes "L \<le> length b" "i * CHUNK < L" "length p = min CHUNK (L - i * CHUNK)"
  shows "chunk_at (take L (memcpy_at b (i * CHUNK) p)) j = (if j = i then p else chunk_at (take L b) j)"
proof -
  define M where "M = memcpy_at b (i * 16384) p"
  have fit: "i * 16384 + length p \<le> length b" using assms by simp
  then have lM: "length M = length b" by (simp add: M_def)
  have n: "M ! q = (if i * 16384 \<le> q \<and> q < i * 16384 + length p then p ! (q - i * 16384) else b ! q)" if "q < length b" for q
    using nth_memcpy_at [OF fit that] by (simp add: M_def)
  have c: "length (chunk_at (take L X) j) = min 16384 (L - j * 16384)"
    "q < min 16384 (L - j * 16384) \<Longrightarrow> chunk_at (take L X) j ! q = X ! (j * 16384 + q)" if "L \<le> length X" for X q
  proof -
    show "length (chunk_at (take L X) j) = min 16384 (L - j * 16384)" using that by (simp add: chunk_at_def)
    assume q: "q < min 16384 (L - j * 16384)"
    then have "drop (j * 16384) (take L X) ! q = take L X ! (j * 16384 + q)" using that by (intro nth_drop) (cases "j * 16384 \<le> L", simp_all)
    moreover have "chunk_at (take L X) j ! q = drop (j * 16384) (take L X) ! q" using that q by (simp add: chunk_at_def)
    moreover have "take L X ! (j * 16384 + q) = X ! (j * 16384 + q)" by (rule nth_take) (use q in linarith)
    ultimately show "chunk_at (take L X) j ! q = X ! (j * 16384 + q)" by metis
  qed
  have "chunk_at (take L M) j = (if j = i then p else chunk_at (take L b) j)"
  proof (rule nth_equalityI)
    show le: "length (chunk_at (take L M) j) = length (if j = i then p else chunk_at (take L b) j)"
      using assms c(1) [of M] c(1) [of b] lM by simp
    fix q assume "q < length (chunk_at (take L M) j)"
    then have q: "q < min 16384 (L - j * 16384)" using c(1) [of M] assms(1) lM by simp
    then have lt: "j * 16384 + q < length b" using assms(1) by linarith
    have "chunk_at (take L M) j ! q = M ! (j * 16384 + q)" using c(2) [of M q] q assms(1) lM by simp
    also have "\<dots> = (if j = i then p ! q else b ! (j * 16384 + q))"
    proof (cases "j = i")
      case True
      then show ?thesis using n [OF lt] q assms(3) by simp
    next
      case False
      then have "j * 16384 + q < i * 16384 \<or> i * 16384 + length p \<le> j * 16384 + q"
        using q assms(3) by (cases "j < i") auto
      then show ?thesis using n [OF lt] False by auto
    qed
    also have "\<dots> = (if j = i then p else chunk_at (take L b) j) ! q" using c(2) [of b q] q assms(1) by simp
    finally show "chunk_at (take L M) j ! q = (if j = i then p else chunk_at (take L b) j) ! q" .
  qed
  then show ?thesis by (simp add: M_def)
qed

text \<open>A body chunk.\<close>

lemma body_step:
  assumes inv: "rcv_inv P buf r" "rv_man_ready r" and i: "i < rv_body_chunks r"
    and p: "length p = min CHUNK (rv_body_len r - i * CHUNK) \<Longrightarrow> sha256 p = take 32 (drop (OFF_VECTOR + 32 * i) (rv_man r)) \<Longrightarrow> P (rv_man r) i p"
  shows "rcv_inv P buf (snd (on_body_chunk r i p))"
proof -
  obtain b where b: "rv_body r = Some b" "length b = length buf" "length (rv_held r) = 64" "rv_body_cap r = length buf"
    and m: "man_ok r" and bo: "body_ok P r" and dr: "drop (rv_body_len r) b = drop (rv_body_len r) buf"
    using inv by (auto simp: rcv_inv_def)
  define L where "L = rv_body_len r"
  have bl: "L \<le> length b" "i * 16384 < L" "rv_body_chunks r = chunks_of L" "rv_body_chunks r \<le> 2048"
    using m b i chunk_at_index [of i L] by (auto simp: man_ok_def Let_def L_def MAX_BODY_CHUNKS_def)
  define refused where "refused = (length p \<noteq> min 16384 (L - i * 16384) \<or> chunk_held (rv_held r) i \<or>
    sha256 p \<noteq> take 32 (drop (OFF_VECTOR + 32 * i) (rv_man r)))"
  have w: "(if L - i * 16384 > 16384 then 16384 else L - i * 16384) = min 16384 (L - i * 16384)" by simp
  show ?thesis
  proof (cases refused)
    case True
    then have "\<exists>st. snd (on_body_chunk r i p) = r\<lparr>rv_s := st\<rparr>"
      unfolding on_body_chunk_def Let_def refused_def CHUNK_eq L_def [symmetric] w by auto
    then show ?thesis using inv(1) by auto
  next
    case False
    then have f: "length p = min 16384 (L - i * 16384)" "\<not> chunk_held (rv_held r) i" "sha256 p = take 32 (drop (OFF_VECTOR + 32 * i) (rv_man r))"
      by (simp_all add: refused_def)
    define b' where "b' = memcpy_at b (i * 16384) p"
    define h' where "h' = set_held (rv_held r) i"
    define pr where "pr = advance_prefix h' (rv_body_chunks r) (rv_prefix r)"
    have hs: "chunk_held h' j = (chunk_held (rv_held r) j \<or> i = j)" if "j < chunks_of L" for j
      unfolding h'_def by (rule held_set_held) (use that i b(3) bl in simp_all)
    have lb: "length b' = length buf" using f(1) bl b(2) by (simp add: b'_def)
    have ch: "chunk_at (take L b') j = (if j = i then p else chunk_at (take L b) j)" for j
      using chunk_at_memcpy [of L b i p j] bl f(1) by (simp add: b'_def)
    have dr': "drop L b' = drop L b" using f(1) bl by (simp add: b'_def memcpy_at_def)
    have prs: "rv_prefix r \<le> chunks_of L" "\<And>j. j < rv_prefix r \<Longrightarrow> chunk_held (rv_held r) j"
      using bo bl(3) by (auto simp: body_ok_def Let_def)
    note ad = advance_prefix_spec [OF prs(1), of h']
    have chunk_held: "chunk_held h' j" if "j < pr" for j
      using that ad prs hs [of j] bl(3) by (cases "j < rv_prefix r") (auto simp: pr_def)
    have Pi: "P (rv_man r) i p" using p f by (simp add: L_def)
    have bd: "\<And>j. j < chunks_of L \<Longrightarrow> chunk_held (rv_held r) j \<Longrightarrow> P (rv_man r) j (chunk_at (take L b) j)"
      using bo bl(3) b(1) by (auto simp: body_ok_def Let_def L_def)
    have co: "rv_complete r \<Longrightarrow> False"
      using bo f(2) i prs by (auto simp: body_ok_def Let_def)
    have e: "snd (on_body_chunk r i p) = (let r = r\<lparr>rv_body := Some b', rv_held := h', rv_prefix := pr,
          rv_s := (rv_s r)\<lparr>rs_chunks_ok := rs_chunks_ok (rv_s r) + 1, rs_verified_prefix := pr\<rparr>\<rparr>;
        ok = (sha256 (take L b') = rv_body_sha r) in
        if pr = chunks_of L then r\<lparr>rv_complete := ok, rv_s := (rv_s r)\<lparr>rs_complete := ok\<rparr>\<rparr> else r)"
      using False co bl(3) b(1) unfolding on_body_chunk_def Let_def refused_def CHUNK_eq L_def [symmetric] w b'_def h'_def pr_def by (auto simp: L_def)
    have P': "P (rv_man r) j (chunk_at (take L b') j)" if "j < chunks_of L" "chunk_held h' j" for j
      using that hs [OF that(1)] ch [of j] Pi bd by auto
    have mo: "man_ok (r\<lparr>rv_body := x, rv_held := y, rv_prefix := z, rv_complete := c, rv_s := st\<rparr>)" for x y z c st
      using m by (auto simp: man_ok_def Let_def)
    have bo': "body_ok P (r\<lparr>rv_body := Some b', rv_held := h', rv_prefix := pr, rv_complete := c, rv_s := st\<rparr>)"
      if "c \<longrightarrow> pr = chunks_of L \<and> sha256 (take L b') = rv_body_sha r" for c st
      using that P' chunk_held ad bl(3) by (auto simp: body_ok_def Let_def L_def [symmetric] pr_def)
    have inv': "rcv_inv P buf (r\<lparr>rv_body := Some b', rv_held := h', rv_prefix := pr, rv_complete := c, rv_s := st\<rparr>)"
      if "c \<longrightarrow> pr = chunks_of L \<and> sha256 (take L b') = rv_body_sha r" for c st
      using inv mo bo' [OF that] dr' dr lb b by (auto simp: rcv_inv_def h'_def L_def)
    have "\<exists>c st. snd (on_body_chunk r i p) = r\<lparr>rv_body := Some b', rv_held := h', rv_prefix := pr, rv_complete := c, rv_s := st\<rparr> \<and>
        (c \<longrightarrow> pr = chunks_of L \<and> sha256 (take L b') = rv_body_sha r)"
    proof (cases "pr = chunks_of L")
      case True
      then show ?thesis unfolding e by (simp add: Let_def) metis
    next
      case False
      have "r\<lparr>rv_body := Some b', rv_held := h', rv_prefix := pr, rv_s := st\<rparr> =
          r\<lparr>rv_body := Some b', rv_held := h', rv_prefix := pr, rv_complete := False, rv_s := st\<rparr>" for st
        using co by (cases r) auto
      then show ?thesis using False unfolding e by (simp add: Let_def) metis
    qed
    then show ?thesis using inv' by auto
  qed
qed

text \<open>A manifest chunk.\<close>

lemma parse_cases:
  assumes "parse_manifest r = (rc, r')"
  obtains "rc \<noteq> SNAP_OK" "r' = r"
  | L n where "rc = SNAP_OK" "n = chunks_of L" "0 < L" "L \<le> MAX_BODY_BYTES" "n \<le> MAX_BODY_CHUNKS" "L \<le> rv_body_cap r" "take 8 (rv_man r) = SNAP_MAGIC"
    "unat (get_u32 (drop OFF_BODY_LEN (rv_man r))) = L"
    "root_over (rv_man r) (HDR_BYTES + 32 * n) = take 32 (drop OFF_ROOT (rv_man r))"
    "r' = r\<lparr>rv_body_len := L, rv_body_chunks := n, rv_body_sha := take 32 (drop OFF_BODY_SHA (rv_man r)),
       rv_root := take 32 (drop OFF_ROOT (rv_man r)), rv_man_ready := True\<rparr>"
proof -
  define L where "L = unat (get_u32 (drop OFF_BODY_LEN (rv_man r)))"
  define n where "n = unat (get_u32 (drop OFF_CHUNKS (rv_man r)))"
  define manch where "manch = unat (get_u32 (drop OFF_MAN_CHNKS (rv_man r)))"
  define bad where "bad = (manch \<noteq> chunks_of (HDR_BYTES + 32 * n) \<or> manch = 0 \<or> manch > MANIFEST_CHUNKS_MAX)"
  define root where "root = take 32 (drop OFF_ROOT (rv_man r))"
  define sha where "sha = take 32 (drop OFF_BODY_SHA (rv_man r))"
  define magic where "magic \<longleftrightarrow> take 8 (rv_man r) = SNAP_MAGIC"
  define ro where "ro = root_over (rv_man r) (HDR_BYTES + 32 * n)"
  note u = parse_manifest_def Let_def L_def [symmetric] n_def [symmetric] manch_def [symmetric] bad_def [symmetric]
    root_def [symmetric] sha_def [symmetric] magic_def [symmetric] ro_def [symmetric]
  show ?thesis
  proof (cases "rc = SNAP_OK")
    case False
    then have "r' = r" using assms unfolding u by (auto split: if_split_asm)
    with False that(1) show ?thesis by blast
  next
    case True
    then have "magic" "n = chunks_of L" "0 < L" "L \<le> MAX_BODY_BYTES" "n \<le> MAX_BODY_CHUNKS" "L \<le> rv_body_cap r" "ro = root"
      "r' = r\<lparr>rv_body_len := L, rv_body_chunks := n, rv_body_sha := sha, rv_root := root, rv_man_ready := True\<rparr>"
      using assms unfolding u by (auto split: if_split_asm)
    with True that(2) show ?thesis unfolding u(3-) by (metis L_def magic_def ro_def root_def sha_def)
  qed
qed

lemma parse_inv:
  assumes "rcv_inv P buf r" "\<not> rv_man_ready r" "rv_man_have r = rv_man_chunks r" "parse_manifest r = (rc, r')"
  shows "rcv_inv P buf r' \<and> (rc \<noteq> SNAP_OK \<longrightarrow> r' = r)"
  using assms(4)
proof (cases rule: parse_cases)
  case (2 L n)
  obtain b where b: "rv_body r = Some b" "b = buf" "length (rv_man r) = MANIFEST_BYTES_MAX" "rv_prefix r = 0" "\<not> rv_complete r"
    "rv_held r = replicate 64 0" "0 < rv_man_chunks r" "rv_man_chunks r \<le> MANIFEST_CHUNKS_MAX" "rv_body_cap r = length buf"
    using assms(1,2) by (auto simp: rcv_inv_def)
  have "n \<le> 2048" using 2 by (simp add: MAX_BODY_CHUNKS_def)
  then have h: "\<not> chunk_held (replicate 64 0) i" if "i < n" for i
    using that by (simp add: held_bit less_mult_imp_div_less)
  have "0 < n" using chunks_of_pos [OF \<open>0 < L\<close>] 2 by simp
  then have "body_ok P r'" "man_ok r'"
    using 2 b h assms(3) by (auto simp: body_ok_def man_ok_def Let_def)
  then show ?thesis using 2(1,10) b assms(3) by (auto simp: rcv_inv_def)
qed (use assms in auto)

lemma collect_inv:
  assumes "rcv_inv P buf r" "\<not> rv_man_ready r" "length m = MANIFEST_BYTES_MAX" "0 < c" "c \<le> MANIFEST_CHUNKS_MAX" "h \<le> c"
  shows "rcv_inv P buf (r\<lparr>rv_man := m, rv_man_have := h, rv_man_chunks := c, rv_s := st\<rparr>)"
  using assms by (auto simp: rcv_inv_def)

lemma length_manifest_put:
  assumes "k < c" "c \<le> MANIFEST_CHUNKS_MAX" "length p \<le> CHUNK" "length man = MANIFEST_BYTES_MAX"
  shows "length (manifest_put man k p) = MANIFEST_BYTES_MAX"
proof -
  have "k * CHUNK + CHUNK \<le> MANIFEST_BYTES_MAX"
  proof -
    have "Suc k * CHUNK \<le> MANIFEST_CHUNKS_MAX * CHUNK" by (rule mult_le_mono1) (use assms in linarith)
    then show ?thesis by (simp add: MANIFEST_BYTES_MAX_def)
  qed
  then show ?thesis using assms(3,4) by (simp add: manifest_put_def Let_def)
qed

lemma manifest_step:
  assumes inv: "rcv_inv P buf r" and k: "k < rv_man_chunks r" "length p \<le> CHUNK"
  shows "rcv_inv P buf (snd (on_manifest_chunk r k p))"
proof (cases "k = rv_man_have r")
  case False
  then have "\<exists>st. snd (on_manifest_chunk r k p) = r\<lparr>rv_s := st\<rparr>" by (auto simp: on_manifest_chunk_def)
  then show ?thesis using inv by auto
next
  case True
  have nr: "\<not> rv_man_ready r" using inv k True by (auto simp: rcv_inv_def man_ok_def Let_def)
  define m where "m = manifest_put (rv_man r) k p"
  define manch where "manch = unat (get_u32 (drop OFF_MAN_CHNKS m))"
  define st where "st = (rv_s r)\<lparr>rs_chunks_manifest := rs_chunks_manifest (rv_s r) + 1\<rparr>"
  define c where "c = (if k = 0 then manch else rv_man_chunks r)"
  define r1 where "r1 = r\<lparr>rv_man := m, rv_man_have := k + 1, rv_man_chunks := c, rv_s := st\<rparr>"
  have cb: "0 < rv_man_chunks r" "rv_man_chunks r \<le> MANIFEST_CHUNKS_MAX" "length (rv_man r) = MANIFEST_BYTES_MAX"
    using inv by (auto simp: rcv_inv_def)
  have lm: "length m = MANIFEST_BYTES_MAX" unfolding m_def by (rule length_manifest_put) (use k cb in auto)
  show ?thesis
  proof (cases "k = 0 \<and> (manch = 0 \<or> manch > MANIFEST_CHUNKS_MAX)")
    case bad: True
    have "snd (on_manifest_chunk r k p) = r\<lparr>rv_man := m, rv_man_have := k + 1, rv_s := st\<lparr>rs_manifest_refused := rs_manifest_refused st + 1\<rparr>\<rparr>"
      using bad unfolding on_manifest_chunk_def Let_def m_def [symmetric] manch_def [symmetric] st_def [symmetric]
      by (simp add: True)
    also have "\<dots> = r\<lparr>rv_man := m, rv_man_have := k + 1, rv_man_chunks := rv_man_chunks r, rv_s := st\<lparr>rs_manifest_refused := rs_manifest_refused st + 1\<rparr>\<rparr>"
      by (cases r) simp
    finally have "\<exists>st. snd (on_manifest_chunk r k p) = r\<lparr>rv_man := m, rv_man_have := k + 1, rv_man_chunks := rv_man_chunks r, rv_s := st\<rparr>" by blast
    moreover have "k + 1 \<le> rv_man_chunks r" using k by simp
    ultimately show ?thesis using collect_inv [OF inv nr lm cb(1,2)] by auto
  next
    case good: False
    have i1: "rcv_inv P buf r1" unfolding r1_def
      by (rule collect_inv [OF inv nr lm]) (use good k cb in \<open>auto simp: c_def\<close>)
    have nr1: "\<not> rv_man_ready r1" using nr by (simp add: r1_def)
    have lens: "length (rv_man r1) = MANIFEST_BYTES_MAX" "0 < rv_man_chunks r1" "rv_man_chunks r1 \<le> MANIFEST_CHUNKS_MAX"
      using i1 by (auto simp: rcv_inv_def)
    obtain rc r2 where pm: "parse_manifest r1 = (rc, r2)" by fastforce
    have e: "snd (on_manifest_chunk r k p) = (if rv_man_have r1 = rv_man_chunks r1 then
        (if rc \<noteq> SNAP_OK then r2\<lparr>rv_s := (rv_s r2)\<lparr>rs_manifest_refused := rs_manifest_refused (rv_s r2) + 1\<rparr>, rv_man_have := 0\<rparr>
         else r2\<lparr>rv_s := (rv_s r2)\<lparr>rs_body_chunks := rv_body_chunks r2, rs_manifest_ready := True\<rparr>\<rparr>) else r1)"
    proof -
      have a: "(if k = 0 then r\<lparr>rv_man := m, rv_man_have := rv_man_have r + 1, rv_s := st\<rparr>\<lparr>rv_man_chunks := manch\<rparr>
          else r\<lparr>rv_man := m, rv_man_have := rv_man_have r + 1, rv_s := st\<rparr>) = r1"
        using True by (cases r) (simp add: r1_def c_def)
      show ?thesis using good pm
        unfolding on_manifest_chunk_def Let_def m_def [symmetric] manch_def [symmetric] st_def [symmetric] a if_not_P [OF good]
        by (simp add: True [symmetric] split: prod.split)
    qed
    show ?thesis
    proof (cases "rv_man_have r1 = rv_man_chunks r1")
      case full: True
      have i2: "rcv_inv P buf r2" "rc \<noteq> SNAP_OK \<Longrightarrow> r2 = r1" using parse_inv [OF i1 nr1 full pm] by auto
      have "rcv_inv P buf (r1\<lparr>rv_s := s', rv_man_have := 0\<rparr>)" for s'
        using i1 nr1 by (auto simp: rcv_inv_def)
      with i2 e full show ?thesis by (cases "rc = SNAP_OK") simp_all
    qed (use i1 e in simp)
  qed
qed

lemma chunk_inv:
  assumes "rcv_inv P buf r" and "\<And>man i p. d = Some p \<Longrightarrow> i < rv_body_chunks r \<Longrightarrow> man = rv_man r \<Longrightarrow> unat k = rv_man_chunks r + i \<Longrightarrow>
      length p = min CHUNK (rv_body_len r - i * CHUNK) \<Longrightarrow> sha256 p = take 32 (drop (OFF_VECTOR + 32 * i) man) \<Longrightarrow> P man i p"
  shows "rcv_inv P buf (snd (snap_on_chunk r k d))"
proof (cases d)
  case (Some p)
  let ?other = "r\<lparr>rv_s := (rv_s r)\<lparr>rs_refused_other := rs_refused_other (rv_s r) + 1\<rparr>\<rparr>"
  have o: "rcv_inv P buf ?other" using assms(1) by simp
  have "rcv_inv P buf (snd (on_manifest_chunk r (unat k) p))" if "unat k < rv_man_chunks r" "length p \<le> CHUNK"
    using manifest_step [OF assms(1)] that by blast
  moreover have "rcv_inv P buf (snd (on_body_chunk r (unat k - rv_man_chunks r) p))"
    if "\<not> unat k < rv_man_chunks r" "rv_man_ready r" "unat k - rv_man_chunks r < rv_body_chunks r"
    by (rule body_step [OF assms(1) that(2,3)]) (rule assms(2), use Some that in auto)
  ultimately show ?thesis using o Some by (auto simp: snap_on_chunk_def Let_def not_le not_less)
qed (use assms(1) in \<open>simp add: snap_on_chunk_def\<close>)

lemma run_inv:
  assumes "rcv_inv P buf r" "\<And>man i p. sha256 p = take 32 (drop (OFF_VECTOR + 32 * i) man) \<Longrightarrow> P man i p"
  shows "rcv_inv P buf (snap_run cs r)"
  using assms(1)
proof (induction cs arbitrary: r)
  case (Cons c cs)
  have "rcv_inv P buf (snd (snap_on_chunk r (fst c) (snd c)))" by (rule chunk_inv [OF Cons(2)]) (use assms(2) in blast)
  from Cons(1) [OF this] show ?case by (simp add: snap_run_def split_def)
qed (simp add: snap_run_def)

subsection \<open>All or nothing\<close>

text \<open>What it means that a manifest under \<open>root\<close> speaks for a body.\<close>

definition vouches_for :: "bytes \<Rightarrow> bytes \<Rightarrow> bytes \<Rightarrow> bool" where
  "vouches_for man root body \<longleftrightarrow> take 8 man = SNAP_MAGIC \<and> unat (get_u32 (drop OFF_BODY_LEN man)) = length body \<and>
     root_over man (HDR_BYTES + 32 * chunks_of (length body)) = root \<and> take 32 (drop OFF_BODY_SHA man) = sha256 body \<and>
     (\<forall>i < chunks_of (length body). take 32 (drop (OFF_VECTOR + 32 * i) man) = sha256 (chunk_at body i))"

text \<open>C31. The blob comes out whole or not at all.  Whatever chunks are delivered, in whatever order, repeated, forged or
  damaged, the destination and the manifest buffer keep their sizes, so nothing is written outside them, and the status
  is good exactly when the receiver gives the blob out; then the manifest it holds hashes to the root it reports, and
  that manifest has the length of the blob, its hash and the hash of every chunk of it, and the destination beyond the
  blob is untouched.\<close>

theorem snapshot_all_or_nothing:
  "let r = snap_run cs (receiver_reset (Some buf) (length buf)) in
     (\<exists>b. rv_body r = Some b \<and> length b = length buf) \<and> length (rv_man r) = MANIFEST_BYTES_MAX \<and>
     (finish_status r = SNAP_OK) = (snap_body r \<noteq> None) \<and>
     (snap_body r = None \<or>
       (\<exists>b. snap_body r = Some b \<and> rv_body_len r \<le> length buf \<and> drop (rv_body_len r) b = drop (rv_body_len r) buf \<and>
          vouches_for (rv_man r) (rv_root r) (take (rv_body_len r) b)))"
proof -
  define r where "r = snap_run cs (receiver_reset (Some buf) (length buf))"
  define P where "P = (\<lambda>man i c. sha256 c = take 32 (drop (OFF_VECTOR + 32 * i) man))"
  have inv: "rcv_inv P buf r" unfolding r_def by (rule run_inv [OF receiver_reset_inv]) (simp_all add: P_def)
  then obtain b where b: "rv_body r = Some b" "length b = length buf" "length (rv_man r) = MANIFEST_BYTES_MAX" "rv_body_cap r = length buf"
    by (auto simp: rcv_inv_def)
  have ready: "rv_man_ready r \<and> man_ok r \<and> body_ok P r \<and> drop (rv_body_len r) b = drop (rv_body_len r) buf" if "rv_complete r"
    using inv that b(1) by (auto simp: rcv_inv_def split: if_splits)
  have st: "(finish_status r = SNAP_OK) = (snap_body r \<noteq> None)"
    using ready b(1) by (auto simp: finish_status_def snap_body_def body_ok_def Let_def)
  have "vouches_for (rv_man r) (rv_root r) (take (rv_body_len r) b)" "rv_body_len r \<le> length buf"
    "drop (rv_body_len r) b = drop (rv_body_len r) buf" if "rv_complete r"
  proof -
    have m: "take 8 (rv_man r) = SNAP_MAGIC" "unat (get_u32 (drop OFF_BODY_LEN (rv_man r))) = rv_body_len r"
      "rv_body_chunks r = chunks_of (rv_body_len r)" "root_over (rv_man r) (HDR_BYTES + 32 * rv_body_chunks r) = rv_root r"
      "rv_body_sha r = take 32 (drop OFF_BODY_SHA (rv_man r))" "rv_body_len r \<le> length buf"
      using ready [OF that] b(4) by (auto simp: man_ok_def Let_def)
    have o: "\<forall>i < rv_body_chunks r. chunk_held (rv_held r) i" "sha256 (take (rv_body_len r) b) = rv_body_sha r"
      "\<forall>i < rv_body_chunks r. chunk_held (rv_held r) i \<longrightarrow> P (rv_man r) i (chunk_at (take (rv_body_len r) b) i)"
      using ready [OF that] that b(1) by (auto simp: body_ok_def Let_def)
    have l: "length (take (rv_body_len r) b) = rv_body_len r" using m(6) b(2) by simp
    show "vouches_for (rv_man r) (rv_root r) (take (rv_body_len r) b)"
      unfolding vouches_for_def l using m o by (simp add: P_def)
    show "rv_body_len r \<le> length buf" by (rule m(6))
    show "drop (rv_body_len r) b = drop (rv_body_len r) buf" using ready [OF that] by simp
  qed
  then have "snap_body r = None \<or> (\<exists>b. snap_body r = Some b \<and> rv_body_len r \<le> length buf \<and>
      drop (rv_body_len r) b = drop (rv_body_len r) buf \<and> vouches_for (rv_man r) (rv_root r) (take (rv_body_len r) b))"
    using b(1) by (auto simp: snap_body_def)
  with b st show ?thesis unfolding r_def [symmetric] by (simp add: Let_def)
qed

subsection \<open>A refused first chunk\<close>

lemma get_man_chunks:
  assumes "24 \<le> length p" "length p \<le> CHUNK" "length man = MANIFEST_BYTES_MAX"
  shows "get_u32 (drop OFF_MAN_CHNKS (manifest_put man 0 p)) = get_u32 (drop OFF_MAN_CHNKS p)"
proof -
  have "\<exists>R. manifest_put man 0 p = p @ R" by (simp add: manifest_put_def memcpy_at_def Let_def)
  then obtain R where "manifest_put man 0 p = p @ R" by blast
  then show ?thesis using assms(1) by (intro le32.dec_cong) (simp_all add: OFF_MAN_CHNKS_def)
qed

definition stuck :: "receiver \<Rightarrow> bool" where
  "stuck r \<longleftrightarrow> \<not> rv_man_ready r \<and> rv_man_chunks r = 1 \<and> rv_man_have r = 1"

lemma stuck_chunk: "stuck r \<Longrightarrow> stuck (snd (snap_on_chunk r k d))"
  by (auto simp: stuck_def snap_on_chunk_def Let_def on_manifest_chunk_def split: option.split)

lemma stuck_run: "stuck r \<Longrightarrow> stuck (snap_run cs r)"
proof (induction cs arbitrary: r)
  case (Cons c cs)
  from Cons(1) [OF stuck_chunk [OF Cons(2)]] show ?case by (simp add: snap_run_def split_def)
qed (simp add: snap_run_def)

text \<open>C33. A first chunk that claims an absurd manifest length is refused, but the receiver counts it as held: from then on no
  sequence of chunks makes the receiver ready, and the good first chunk, sent again, is answered as a duplicate and
  dropped, until the receiver is reset.\<close>

theorem bad_first_chunk_wedges:
  assumes "24 \<le> length p" "length p \<le> CHUNK" "get_u32 (drop OFF_MAN_CHNKS p) = 0 \<or> unat (get_u32 (drop OFF_MAN_CHNKS p)) > MANIFEST_CHUNKS_MAX"
    "0 < length q" "length q \<le> CHUNK"
  shows "\<exists>r. snap_on_chunk (receiver_reset buf cap) 0 (Some p) = (ERR_SHAPE, r) \<and>
    (\<forall>cs. \<not> rv_man_ready (snap_run cs r) \<and> fst (snap_on_chunk (snap_run cs r) 0 (Some q)) = SNAP_OK)"
proof -
  let ?r = "receiver_reset buf cap"
  have l: "length (rv_man ?r) = MANIFEST_BYTES_MAX" by (simp add: receiver_reset_def)
  have b: "unat (get_u32 (drop OFF_MAN_CHNKS (manifest_put (rv_man ?r) 0 p))) = 0 \<or>
      unat (get_u32 (drop OFF_MAN_CHNKS (manifest_put (rv_man ?r) 0 p))) > MANIFEST_CHUNKS_MAX"
    using assms(3) get_man_chunks [OF assms(1,2) l] by auto
  have p: "\<not> (length p = 0 \<or> CHUNK < length p)" using assms(1,2) by linarith
  have c: "rv_man_chunks ?r = 1" "rv_man_have ?r = 0" "\<not> rv_man_ready ?r" by (simp_all add: receiver_reset_def)
  obtain rc r where s: "snap_on_chunk ?r 0 (Some p) = (rc, r)" by fastforce
  have m: "snap_on_chunk ?r 0 (Some p) = on_manifest_chunk ?r 0 p"
    using p c by (simp add: snap_on_chunk_def Let_def)
  have o: "fst (on_manifest_chunk ?r 0 p) = ERR_SHAPE \<and> stuck (snd (on_manifest_chunk ?r 0 p))"
    using b c by (simp add: on_manifest_chunk_def Let_def stuck_def)
  then have "rc = ERR_SHAPE" "stuck r" using s m by simp_all
  moreover have "fst (snap_on_chunk r' 0 (Some q)) = SNAP_OK" if "stuck r'" for r'
    using that assms(4,5) by (simp add: snap_on_chunk_def Let_def stuck_def on_manifest_chunk_def)
  ultimately show ?thesis using s stuck_run unfolding stuck_def by blast
qed

theorem bad_first_chunk_wedges_witness:
  "\<exists>r. snap_on_chunk (receiver_reset (Some []) 0) 0 (Some (replicate 24 0)) = (ERR_SHAPE, r) \<and> \<not> rv_man_ready (snap_run [] r)"
proof -
  have "get_u32 (drop OFF_MAN_CHNKS (replicate 24 0)) = 0" by (simp add: OFF_MAN_CHNKS_def get_u32_def)
  then show ?thesis using bad_first_chunk_wedges [of "replicate 24 0" "[0]" "Some []" 0] by auto
qed

end
