(* ===== verification/Snapshot_Arrives.thy ===== *)
theory Snapshot_Arrives
  imports Snapshot_Receiver
begin

text \<open>
  The two halves of the snapshot pipeline over the bulk channel: the chunks of a transfer whose source is the sender
  make the receiver give out the blob.
\<close>

subsection \<open>A snapshot arrives\<close>

text \<open>The receiver with the first \<open>k\<close> chunks of the manifest \<open>mm\<close>.\<close>

definition collecting :: "bytes \<Rightarrow> nat \<Rightarrow> bytes \<Rightarrow> nat \<Rightarrow> receiver \<Rightarrow> bool" where
  "collecting mm mc buf k r \<longleftrightarrow> rcv_inv (\<lambda>_ _ _. True) buf r \<and> \<not> rv_man_ready r \<and> rv_man_have r = k \<and>
     (0 < k \<longrightarrow> rv_man_chunks r = mc) \<and> take (k * 16384) (rv_man r) = take (k * 16384) mm"

lemma collect_step:
  assumes c: "collecting mm mc buf k r" and k: "k < mc" "mc \<le> MANIFEST_CHUNKS_MAX" and mm: "length mm = mc * 16384"
    and f: "unat (get_u32 (drop OFF_MAN_CHNKS mm)) = mc" and p: "p = take 16384 (drop (k * 16384) mm)"
  defines "m \<equiv> manifest_put (rv_man r) k p"
  defines "r1 \<equiv> r\<lparr>rv_man := m, rv_man_have := k + 1, rv_man_chunks := mc,
     rv_s := (rv_s r)\<lparr>rs_chunks_manifest := rs_chunks_manifest (rv_s r) + 1\<rparr>\<rparr>"
  shows "collecting mm mc buf (k + 1) r1" "k + 1 < mc \<Longrightarrow> on_manifest_chunk r k p = (SNAP_OK, r1)"
    "k + 1 = mc \<Longrightarrow> parse_manifest r1 = (SNAP_OK, r2) \<Longrightarrow>
      \<exists>st. on_manifest_chunk r k p = (SNAP_OK, r2\<lparr>rv_s := st\<rparr>)"
proof -
  have inv: "rcv_inv (\<lambda>_ _ _. True) buf r" "\<not> rv_man_ready r" "rv_man_have r = k" using c by (simp_all add: collecting_def)
  have lm: "length (rv_man r) = MANIFEST_BYTES_MAX" using inv(1) by (auto simp: rcv_inv_def)
  have fit: "k * 16384 + 16384 \<le> length mm" using k(1) mm by linarith
  have lp: "length p = 16384" using fit p by simp
  have mx: "length mm \<le> MANIFEST_BYTES_MAX" using k(2) mm by (simp add: MANIFEST_BYTES_MAX_def)
  have put: "m = memcpy_at (rv_man r) (k * 16384) p" using lp by (simp add: m_def manifest_put_def)
  have "take ((k + 1) * 16384) m = take (k * 16384) (rv_man r) @ p"
    unfolding put by (rule take_memcpy_at) (use fit mx lm lp in simp_all)
  also have "\<dots> = take (k * 16384) mm @ take 16384 (drop (k * 16384) mm)" using c p by (simp add: collecting_def)
  also have "\<dots> = take ((k + 1) * 16384) mm" by (rule take_take_chain) simp
  finally have tk: "take ((k + 1) * 16384) m = take ((k + 1) * 16384) mm" .
  have lm': "length m = MANIFEST_BYTES_MAX" unfolding m_def by (rule length_manifest_put [OF k]) (use lp lm in simp_all)
  have "take 4 (drop OFF_MAN_CHNKS m) = take 4 (drop OFF_MAN_CHNKS mm)" if "k = 0"
  proof -
    have "take 24 (take 16384 m) = take 24 (take 16384 mm)" using tk that by simp
    then have "take 24 m = take 24 mm" by (simp add: min_def)
    then have "drop 20 (take 24 m) = drop 20 (take 24 mm)" by simp
    then show ?thesis by (simp add: drop_take OFF_MAN_CHNKS_def)
  qed
  then have fm: "unat (get_u32 (drop OFF_MAN_CHNKS m)) = mc" if "k = 0"
    using le32.dec_cong [of "drop OFF_MAN_CHNKS m" "drop OFF_MAN_CHNKS mm"] f that fit lm'
    by (simp add: OFF_MAN_CHNKS_def MANIFEST_BYTES_MAX_def MANIFEST_CHUNKS_MAX_def HDR_BYTES_def)
  have i1: "rcv_inv (\<lambda>_ _ _. True) buf r1" unfolding r1_def
    by (rule collect_inv [OF inv(1,2) lm']) (use k in simp_all)
  then show c1: "collecting mm mc buf (k + 1) r1" using inv(2) tk by (simp add: collecting_def r1_def)
  have mcs: "0 < k \<Longrightarrow> rv_man_chunks r = mc" using c by (simp add: collecting_def)
  define ra where "ra = r\<lparr>rv_man := m, rv_man_have := k + 1, rv_s := (rv_s r)\<lparr>rs_chunks_manifest := rs_chunks_manifest (rv_s r) + 1\<rparr>\<rparr>"
  have "(if k = 0 then ra\<lparr>rv_man_chunks := mc\<rparr> else ra) = r1"
    using mcs by (cases r) (simp add: ra_def r1_def)
  moreover have "\<not> (k = 0 \<and> (mc = 0 \<or> MANIFEST_CHUNKS_MAX < mc))" using k by simp
  ultimately have e: "on_manifest_chunk r k p = (if k + 1 = mc then
      (case parse_manifest r1 of (rc, r) \<Rightarrow>
         if rc \<noteq> SNAP_OK then (rc, r\<lparr>rv_s := (rv_s r)\<lparr>rs_manifest_refused := rs_manifest_refused (rv_s r) + 1\<rparr>, rv_man_have := 0\<rparr>)
         else (SNAP_OK, r\<lparr>rv_s := (rv_s r)\<lparr>rs_body_chunks := rv_body_chunks r, rs_manifest_ready := True\<rparr>\<rparr>))
      else (SNAP_OK, r1))"
    unfolding on_manifest_chunk_def inv(3) m_def [symmetric] Let_def ra_def [symmetric]
    by (cases "k = 0") (simp_all add: fm r1_def [symmetric], simp_all add: r1_def)
  then show "k + 1 < mc \<Longrightarrow> on_manifest_chunk r k p = (SNAP_OK, r1)" by simp
  show "\<exists>st. on_manifest_chunk r k p = (SNAP_OK, r2\<lparr>rv_s := st\<rparr>)" if "k + 1 = mc" "parse_manifest r1 = (SNAP_OK, r2)"
    using e that by auto
qed

text \<open>The receiver that has the manifest of \<open>body\<close>.\<close>

definition receiving :: "bytes \<Rightarrow> bytes \<Rightarrow> receiver \<Rightarrow> bool" where
  "receiving body buf r \<longleftrightarrow> rcv_inv (\<lambda>_ i c. c = chunk_at body i) buf r \<and> rv_man_ready r \<and>
     rv_man_chunks r = chunks_of (HDR_BYTES + 32 * chunks_of (length body)) \<and> rv_body_len r = length body \<and>
     rv_root r = man_root body \<and> (\<exists>R. rv_man r = manifest_of body @ R) \<and> length body \<le> MAX_BODY_BYTES \<and> body \<noteq> [] \<and>
     (rv_prefix r = rv_body_chunks r \<longrightarrow> rv_complete r)"

lemma parse_ok:
  assumes c: "collecting mm mc buf mc r" and mc: "mc = chunks_of (HDR_BYTES + 32 * chunks_of (length body))"
    and mm: "mm = take (mc * 16384) (manifest_of body @ R)" and b: "body \<noteq> []" "length body \<le> MAX_BODY_BYTES" "length body \<le> length buf"
  shows "\<exists>r2. parse_manifest r = (SNAP_OK, r2) \<and> receiving body buf r2 \<and> rv_held r2 = replicate 64 0"
proof -
  have n: "0 < chunks_of (length body)" "chunks_of (length body) \<le> MAX_BODY_CHUNKS" using chunks_of_bounds [of "length body"] b by simp_all
  note mcb = man_chunks_bounds [OF n(2)]
  have inv: "rcv_inv (\<lambda>_ i c. c = chunk_at body i) buf r" "\<not> rv_man_ready r" "rv_man_have r = rv_man_chunks r" "rv_man_chunks r = mc"
    using c mc mcb by (auto simp: collecting_def rcv_inv_def)
  obtain bb where bb: "rv_body r = Some bb" "rv_body_cap r = length buf" "rv_held r = replicate 64 0" "rv_prefix r = 0"
    using inv by (auto simp: rcv_inv_def)
  have "HDR_BYTES + 32 * chunks_of (length body) \<le> mc * 16384" unfolding mc by (simp add: chunks_of_eq [of "HDR_BYTES + _"])
  then have "mm = manifest_of body @ take (mc * 16384 - length (manifest_of body)) R" by (simp add: mm)
  moreover have "rv_man r = mm @ drop (mc * 16384) (rv_man r)"
  proof -
    have "take (mc * 16384) mm = mm" unfolding mm by (simp only: take_take min.idem)
    then have "take (mc * 16384) (rv_man r) = mm" using c by (simp only: collecting_def)
    then show ?thesis by (metis append_take_drop_id)
  qed
  ultimately have "rv_man r = (manifest_of body @ take (mc * 16384 - length (manifest_of body)) R) @ drop (mc * 16384) (rv_man r)"
    by (rule subst)
  then obtain R' where R': "rv_man r = manifest_of body @ R'" by (metis append.assoc)
  note f = manifest_fields [OF R' b(2)]
  define r2 where "r2 = r\<lparr>rv_body_len := length body, rv_body_chunks := chunks_of (length body), rv_body_sha := sha256 body,
      rv_root := man_root body, rv_man_ready := True\<rparr>"
  have p: "parse_manifest r = (SNAP_OK, r2)"
    unfolding parse_manifest_def Let_def f(1-8) r2_def using n mcb b bb inv(4) by (simp add: mc)
  have "rcv_inv (\<lambda>_ i c. c = chunk_at body i) buf r2" using parse_inv [OF inv(1-3) p] by simp
  moreover have "rv_prefix r2 \<noteq> rv_body_chunks r2" using n(1) bb(4) by (simp add: r2_def)
  moreover have "rv_man_ready r2" "rv_man_chunks r2 = mc" "rv_body_len r2 = length body" "rv_root r2 = man_root body"
    "rv_man r2 = manifest_of body @ R'" "rv_held r2 = replicate 64 0" using inv(4) R' bb(3) by (simp_all add: r2_def)
  ultimately have "receiving body buf r2" "rv_held r2 = replicate 64 0" using b mc by (simp_all add: receiving_def)
  with p show ?thesis by blast
qed

lemma chunks_determine:
  assumes "length a = length b" "\<And>j. j < chunks_of (length a) \<Longrightarrow> chunk_at a j = chunk_at b j"
  shows "a = b"
proof (rule nth_equalityI [OF assms(1)])
  fix q assume q: "q < length a"
  define j where "j = q div 16384"
  have j: "j * 16384 + q mod 16384 = q" by (simp add: j_def)
  have "j < chunks_of (length a)" using q j by (subst chunk_at_index) linarith
  then have "chunk_at a j ! (q mod 16384) = chunk_at b j ! (q mod 16384)" using assms(2) by simp
  moreover have "chunk_at x j ! (q mod 16384) = x ! q" if "length x = length a" for x
  proof -
    have "q mod 16384 < min 16384 (length x - j * 16384)" using q j that by simp
    then show ?thesis using j that q by (simp add: chunk_at_def)
  qed
  ultimately show "a ! q = b ! q" using assms(1) by simp
qed

lemma body_chunk_arrives:
  assumes r: "receiving body buf r" and i: "i < chunks_of (length body)"
  shows "\<exists>r'. on_body_chunk r i (chunk_at body i) = (SNAP_OK, r') \<and> receiving body buf r' \<and>
    (\<forall>j < chunks_of (length body). chunk_held (rv_held r') j = (chunk_held (rv_held r) j \<or> i = j))"
proof -
  have inv: "rcv_inv (\<lambda>_ i c. c = chunk_at body i) buf r" "rv_man_ready r" "rv_body_len r = length body"
    "rv_prefix r = rv_body_chunks r \<longrightarrow> rv_complete r" using r by (auto simp: receiving_def)
  have m: "man_ok r" using inv by (auto simp: rcv_inv_def)
  then have ch: "rv_body_chunks r = chunks_of (length body)" "chunks_of (length body) \<le> 2048"
    using inv by (auto simp: man_ok_def Let_def MAX_BODY_CHUNKS_def)
  obtain R where "rv_man r = manifest_of body @ R" using r by (auto simp: receiving_def)
  from manifest_fields [OF this] have f: "take 32 (drop (OFF_VECTOR + 32 * i) (rv_man r)) = sha256 (chunk_at body i)"
    "take 32 (drop OFF_BODY_SHA (rv_man r)) = sha256 body"
    using r i by (auto simp: receiving_def)
  obtain rc r' where s: "on_body_chunk r i (chunk_at body i) = (rc, r')" by fastforce
  have inv': "rcv_inv (\<lambda>_ i c. c = chunk_at body i) buf r'"
    using body_step [OF inv(1,2), of i "chunk_at body i"] i ch s by simp
  obtain b where b: "rv_body r = Some b" "length (rv_held r) = 64" using inv(1) by (auto simp: rcv_inv_def)
  have want: "length (chunk_at body i) = (if length body - i * CHUNK > CHUNK then CHUNK else length body - i * CHUNK)"
    by (simp add: length_chunk_at)
  show ?thesis
  proof (cases "chunk_held (rv_held r) i")
    case True
    then have "on_body_chunk r i (chunk_at body i) = (SNAP_OK, r\<lparr>rv_s := (rv_s r)\<lparr>rs_dup := rs_dup (rv_s r) + 1\<rparr>\<rparr>)"
      unfolding on_body_chunk_def Let_def inv(3) want by simp
    then show ?thesis using r True by (auto simp: receiving_def)
  next
    case False
    have hs: "chunk_held (set_held (rv_held r) i) j = (chunk_held (rv_held r) j \<or> i = j)" if "j < chunks_of (length body)" for j
      by (rule held_set_held) (use that i b(2) ch in simp_all)
    define b' where "b' = memcpy_at b (i * CHUNK) (chunk_at body i)"
    define pr where "pr = advance_prefix (set_held (rv_held r) i) (chunks_of (length body)) (rv_prefix r)"
    define ok where "ok \<longleftrightarrow> sha256 (take (length body) b') = rv_body_sha r"
    define rA where "rA = r\<lparr>rv_body := Some b', rv_held := set_held (rv_held r) i, rv_prefix := pr,
      rv_s := (rv_s r)\<lparr>rs_chunks_ok := rs_chunks_ok (rv_s r) + 1, rs_verified_prefix := pr\<rparr>\<rparr>"
    define opens where "opens \<longleftrightarrow> pr = chunks_of (length body) \<and> \<not> rv_complete r"
    have A: "rv_body_len rA = length body" "rv_body_sha rA = rv_body_sha r" "rv_complete rA = rv_complete r" "rv_body_chunks rA = chunks_of (length body)"
      using inv(3) ch(1) by (simp_all add: rA_def)
    have e: "on_body_chunk r i (chunk_at body i) = (SNAP_OK, if opens then rA\<lparr>rv_complete := ok, rv_s := (rv_s rA)\<lparr>rs_complete := ok\<rparr>\<rparr> else rA)"
      unfolding on_body_chunk_def Let_def inv(3) ch(1) f(1) want [symmetric] b(1) option.sel b'_def [symmetric] pr_def [symmetric]
        rA_def [symmetric] A ok_def [symmetric] opens_def
      using False by simp
    have r'eq: "rc = SNAP_OK" "r' = (if opens then rA\<lparr>rv_complete := ok, rv_s := (rv_s rA)\<lparr>rs_complete := ok\<rparr>\<rparr> else rA)"
      using s unfolding e by simp_all
    have r': "rv_body r' = Some b'" "rv_held r' = set_held (rv_held r) i" "rv_prefix r' = pr" "rv_man r' = rv_man r" "rv_man_ready r'"
      "rv_man_chunks r' = rv_man_chunks r" "rv_body_len r' = length body" "rv_body_chunks r' = chunks_of (length body)" "rv_root r' = rv_root r"
      "rv_body_sha r' = rv_body_sha r" "rv_complete r' = (if pr = chunks_of (length body) \<and> \<not> rv_complete r then ok else rv_complete r)" "rc = SNAP_OK"
      unfolding r'eq opens_def [symmetric] by (cases opens, simp_all add: rA_def inv(2,3) ch(1))+
    have "rv_complete r'" if "pr = chunks_of (length body)"
    proof -
      have o: "body_ok (\<lambda>_ i c. c = chunk_at body i) r'" "man_ok r'" "length b' = length buf" "rv_body_cap r' = length buf"
        using inv' r'(1,5) by (auto simp: rcv_inv_def)
      have "\<forall>j < pr. chunk_held (rv_held r') j"
        "\<forall>j < chunks_of (length body). chunk_held (rv_held r') j \<longrightarrow> chunk_at (take (length body) b') j = chunk_at body j"
        using o(1) unfolding body_ok_def Let_def r'(1,3,7,8) option.sel by blast+
      then have ch': "\<And>j. j < chunks_of (length body) \<Longrightarrow> chunk_at (take (length body) b') j = chunk_at body j" using that by blast
      have "length body \<le> length buf" using o(2,4) r'(7) by (simp add: man_ok_def Let_def)
      then have l: "length (take (length body) b') = length body" using o(3) by simp
      have "take (length body) b' = body" by (rule chunks_determine [OF l]) (unfold l, rule ch')
      moreover have "rv_body_sha r = sha256 body" using m f(2) by (simp add: man_ok_def Let_def)
      ultimately have ok by (simp add: ok_def)
      then show ?thesis using that r'(11) by simp
    qed
    then have "receiving body buf r'" using r inv' unfolding receiving_def by (simp add: r'(3-9))
    then show ?thesis using s r'(2,12) hs by simp
  qed
qed

lemma snap_run_append: "snap_run (xs @ ys) r = snap_run ys (snap_run xs r)"
  by (simp add: snap_run_def)

lemma snap_run_Cons: "snap_run ((k, d) # cs) r = snap_run cs (snd (snap_on_chunk r k d))"
  by (simp add: snap_run_def)

lemma chunk_arrives:
  assumes r: "receiving body buf r" and s: "ready_sender s body R" and k: "unat k < sn_man_chunks s + chunks_of (length body)"
  defines "c \<equiv> take 16384 (drop (unat k * 16384) (image_of s))"
  shows "\<exists>r'. snap_on_chunk r k (Some c) = (SNAP_OK, r') \<and> receiving body buf r' \<and>
    (\<forall>j < chunks_of (length body). chunk_held (rv_held r') j = (chunk_held (rv_held r) j \<or> unat k = sn_man_chunks s + j))"
proof -
  have mc: "rv_man_chunks r = sn_man_chunks s" "sn_body_len s = length body" using r s by (simp_all add: receiving_def ready_sender_def)
  have m: "man_ok r" "rv_man_ready r" using r by (auto simp: receiving_def rcv_inv_def)
  then have n: "rv_body_chunks r = chunks_of (length body)" "rv_man_have r = rv_man_chunks r"
    using r by (auto simp: receiving_def man_ok_def Let_def)
  have "unat k * 16384 < image_len s"
  proof (cases "unat k < sn_man_chunks s")
    case True
    then show ?thesis by (simp add: image_len_def)
  next
    case False
    then have "unat k - sn_man_chunks s < chunks_of (length body)" using k by linarith
    then have "(unat k - sn_man_chunks s) * 16384 < length body" by (simp only: chunk_at_index)
    then show ?thesis using False mc(2) by (simp add: image_len_def)
  qed
  then have lc: "c \<noteq> []" "length c \<le> 16384" using ready_sizes(2) [OF s] by (simp_all add: c_def)
  show ?thesis
  proof (cases "unat k < sn_man_chunks s")
    case True
    then have "snap_on_chunk r k (Some c) = (SNAP_OK, r\<lparr>rv_s := (rv_s r)\<lparr>rs_dup := rs_dup (rv_s r) + 1\<rparr>\<rparr>)"
      using lc mc n(2) by (simp add: snap_on_chunk_def Let_def on_manifest_chunk_def)
    then show ?thesis using r True by (auto simp: receiving_def)
  next
    case False
    define i where "i = unat k - sn_man_chunks s"
    have ki: "unat k = sn_man_chunks s + i" "i < chunks_of (length body)" using False k by (simp_all add: i_def)
    have "c = chunk_at body i" unfolding c_def ki(1) by (rule slice_of_body [OF s])
    moreover have "snap_on_chunk r k (Some c) = on_body_chunk r i c"
      using lc mc n ki m(2) by (simp add: snap_on_chunk_def Let_def)
    ultimately show ?thesis using body_chunk_arrives [OF r ki(2)] ki(1) by auto
  qed
qed

lemma chunks_arrive:
  assumes "receiving body buf r" "ready_sender s body R" "\<And>k. k \<in> set js \<Longrightarrow> unat k < sn_man_chunks s + chunks_of (length body)"
  defines "img \<equiv> \<lambda>k. Some (take 16384 (drop (unat k * 16384) (image_of s)))"
  shows "receiving body buf (snap_run (map (\<lambda>k. (k, img k)) js) r) \<and>
    (\<forall>j < chunks_of (length body). chunk_held (rv_held (snap_run (map (\<lambda>k. (k, img k)) js) r)) j =
       (chunk_held (rv_held r) j \<or> (\<exists>k \<in> set js. unat k = sn_man_chunks s + j)))"
  using assms(1,3)
proof (induction js arbitrary: r)
  case (Cons k js)
  obtain r' where r': "snap_on_chunk r k (img k) = (SNAP_OK, r')" "receiving body buf r'"
    "\<forall>j < chunks_of (length body). chunk_held (rv_held r') j = (chunk_held (rv_held r) j \<or> unat k = sn_man_chunks s + j)"
    using chunk_arrives [OF Cons.prems(1) assms(2), of k] Cons.prems(2) by (auto simp: img_def)
  have "receiving body buf (snap_run (map (\<lambda>k. (k, img k)) js) r') \<and>
    (\<forall>j < chunks_of (length body). chunk_held (rv_held (snap_run (map (\<lambda>k. (k, img k)) js) r')) j =
       (chunk_held (rv_held r') j \<or> (\<exists>k \<in> set js. unat k = sn_man_chunks s + j)))"
    by (rule Cons.IH [OF r'(2)]) (use Cons.prems(2) in auto)
  then show ?case using r' by (auto simp: snap_run_Cons)
qed (simp add: snap_run_def)

lemma manifest_arrives:
  assumes s: "ready_sender s body R" and b: "length body \<le> length buf"
  defines "img \<equiv> \<lambda>k :: u32. Some (take 16384 (drop (unat k * 16384) (image_of s)))"
  shows "let r = snap_run (map (\<lambda>k. (of_nat k, img (of_nat k))) [0..<sn_man_chunks s]) (receiver_reset (Some buf) (length buf)) in
    receiving body buf r \<and> rv_held r = replicate 64 0"
proof -
  define mc where "mc = sn_man_chunks s"
  define mm where "mm = take (mc * 16384) (sn_man s)"
  note sz = ready_sizes [OF s, folded mc_def]
  have sd: "mc = chunks_of (HDR_BYTES + 32 * chunks_of (length body))" "sn_man s = manifest_of body @ R" "0 < length body"
    "length body \<le> MAX_BODY_BYTES" "body \<noteq> []"
    using s by (auto simp: ready_sender_def mc_def)
  have mx: "mc \<le> MANIFEST_CHUNKS_MAX" using sz(5) by (simp add: snap_sizes)
  have lm: "length mm = mc * 16384" using sz(1) by (simp add: mm_def)
  have "length (manifest_of body) \<le> mc * 16384" unfolding sd(1) by (simp add: chunks_of_eq [of "HDR_BYTES + _"])
  then have "mm = manifest_of body @ take (mc * 16384 - length (manifest_of body)) R" by (simp add: mm_def sd(2))
  from manifest_fields(5) [OF this sd(4)] have f: "unat (get_u32 (drop OFF_MAN_CHNKS mm)) = mc" using sd(1) by simp
  define run where "run = (\<lambda>k. snap_run (map (\<lambda>k. (of_nat k, img (of_nat k))) [0..<k]) (receiver_reset (Some buf) (length buf)))"
  have step: "snd (snap_on_chunk r (of_nat k) (img (of_nat k))) = snd (on_manifest_chunk r k (take 16384 (drop (k * 16384) mm)))"
    if "collecting mm mc buf k r" "k < mc" for r k
  proof -
    have u: "unat (of_nat k :: u32) = k" using that(2) sz(5) by (intro unat_of_nat_u32) simp
    have "k < rv_man_chunks r" using that by (cases k) (auto simp: collecting_def rcv_inv_def)
    moreover have "take 16384 (drop (k * 16384) (image_of s)) = take 16384 (drop (k * 16384) mm)"
      "length (take 16384 (drop (k * 16384) (image_of s))) = 16384"
      using slice_of_manifest [OF s, of k] that(2) by (simp_all add: mm_def mc_def)
    ultimately show ?thesis by (auto simp: img_def u snap_on_chunk_def Let_def)
  qed
  have "collecting mm mc buf k (run k)" if "k < mc" for k
    using that
  proof (induction k)
    case 0
    have "rcv_inv (\<lambda>_ _ _. True) buf (receiver_reset (Some buf) (length buf))" by (rule receiver_reset_inv) simp
    then show ?case by (simp add: run_def snap_run_def collecting_def receiver_reset_def)
  next
    case (Suc k)
    then have c: "collecting mm mc buf k (run k)" and k: "k < mc" by simp_all
    have "run (Suc k) = snd (on_manifest_chunk (run k) k (take 16384 (drop (k * 16384) mm)))"
      using step [OF c k] by (simp add: run_def snap_run_append snap_run_Cons) (simp add: snap_run_def)
    then show ?case using collect_step(1,2) [OF c k mx lm f refl] Suc.prems by simp
  qed
  then have c: "collecting mm mc buf (mc - 1) (run (mc - 1))" and k: "mc - 1 < mc" using sz(4) by simp_all
  note cs = collect_step [OF c k mx lm f refl]
  have e: "mc - 1 + 1 = mc" using sz(4) by simp
  define rr where "rr = (run (mc - 1))\<lparr>rv_man := manifest_put (rv_man (run (mc - 1))) (mc - 1) (take 16384 (drop ((mc - 1) * 16384) mm)),
      rv_man_have := mc - 1 + 1, rv_man_chunks := mc,
      rv_s := (rv_s (run (mc - 1)))\<lparr>rs_chunks_manifest := rs_chunks_manifest (rv_s (run (mc - 1))) + 1\<rparr>\<rparr>"
  note cs = cs [folded rr_def]
  have "mm = take (mc * 16384) (manifest_of body @ R)" by (simp only: mm_def sd(2))
  from parse_ok [OF cs(1) [unfolded e] sd(1) this sd(5,4) b]
  obtain r2 where r2: "parse_manifest rr = (SNAP_OK, r2)" "receiving body buf r2" "rv_held r2 = replicate 64 0" by blast
  obtain st where "on_manifest_chunk (run (mc - 1)) (mc - 1) (take 16384 (drop ((mc - 1) * 16384) mm)) = (SNAP_OK, r2\<lparr>rv_s := st\<rparr>)"
    using cs(3) [OF e r2(1)] by blast
  moreover have "run mc = snd (on_manifest_chunk (run (mc - 1)) (mc - 1) (take 16384 (drop ((mc - 1) * 16384) mm)))"
  proof -
    have "run (Suc (mc - 1)) = snd (snap_on_chunk (run (mc - 1)) (of_nat (mc - 1)) (img (of_nat (mc - 1))))"
      by (simp add: run_def snap_run_append snap_run_Cons) (simp add: snap_run_def)
    then show ?thesis using step [OF c k] e by simp
  qed
  ultimately have "run mc = r2\<lparr>rv_s := st\<rparr>" by simp
  then have "receiving body buf (run mc) \<and> rv_held (run mc) = replicate 64 0" using r2 by (simp add: receiving_def)
  then show ?thesis by (simp add: run_def mc_def)
qed

text \<open>C30. A snapshot arrives.  When the sender has built the manifest of a blob and the bulk channel has taken the sender
  as the source of a transfer, a receiver with room for the blob that is handed the chunks of that transfer, the
  manifest in order and then the rest in any order and with any repeats, ends with a good status, reports the sender's
  root, and gives out a destination that starts with the blob and is untouched behind it.\<close>

theorem snapshot_arrives:
  assumes "sender_begin s (Some body) = (SNAP_OK, s')" "length (sn_man s) = MANIFEST_BYTES_MAX"
    "start_send_src ch conn pl (Some (sender_source s')) me (of_nat (image_len s')) dc clk = (True, ch')"
    "length body \<le> length buf" "\<And>k. k \<in> set js \<Longrightarrow> k < tx_chunks (ch_tx ch')"
    "\<And>k. of_nat (sn_man_chunks s') \<le> k \<Longrightarrow> k < tx_chunks (ch_tx ch') \<Longrightarrow> k \<in> set js"
  shows "let r = snap_run (map (\<lambda>k. (k, Some (image_chunk (ch_tx ch') k))) (map of_nat [0..<sn_man_chunks s'] @ js))
      (receiver_reset (Some buf) (length buf)) in
    finish_status r = SNAP_OK \<and> snap_body r = Some (body @ drop (length body) buf) \<and> rv_body_len r = length body \<and> rv_root r = sn_root s'"
proof -
  obtain R where s: "ready_sender s' body R" and root: "sn_root s' = man_root body" using ready_begin [OF assms(1,2)] by blast
  note sz = ready_sizes [OF s] and ic = image_chunks [OF s assms(3)]
  define img where "img = (\<lambda>k :: u32. Some (take 16384 (drop (unat k * 16384) (image_of s'))))"
  have n: "unat (tx_chunks (ch_tx ch')) = sn_man_chunks s' + chunks_of (length body)" by (rule ic(1))
  have um: "unat (of_nat k :: u32) = k" if "k \<le> 5000" for k using that by (intro unat_of_nat_u32) simp
  have img: "Some (image_chunk (ch_tx ch') k) = img k" if "k < tx_chunks (ch_tx ch')" for k using ic(2) [OF that] by (simp add: img_def)
  define r1 where "r1 = snap_run (map (\<lambda>k. (of_nat k, img (of_nat k))) [0..<sn_man_chunks s']) (receiver_reset (Some buf) (length buf))"
  have r1: "receiving body buf r1" "rv_held r1 = replicate 64 0"
    using manifest_arrives [OF s assms(4)] by (simp_all add: r1_def img_def Let_def)
  define r where "r = snap_run (map (\<lambda>k. (k, img k)) js) r1"
  have "unat k < sn_man_chunks s' + chunks_of (length body)" if "k \<in> set js" for k using assms(5) [OF that] n by (simp add: word_less_nat_alt)
  from chunks_arrive [OF r1(1) s this] have r: "receiving body buf r"
    "\<And>j. j < chunks_of (length body) \<Longrightarrow> chunk_held (rv_held r) j = (chunk_held (rv_held r1) j \<or> (\<exists>k \<in> set js. unat k = sn_man_chunks s' + j))"
    unfolding r_def img_def by blast+
  have all: "chunk_held (rv_held r) j" if "j < chunks_of (length body)" for j
  proof -
    have u: "unat (of_nat (sn_man_chunks s' + j) :: u32) = sn_man_chunks s' + j" using that sz by (intro um) linarith
    have "of_nat (sn_man_chunks s' + j) \<in> set js"
      by (rule assms(6)) (use u n that um [of "sn_man_chunks s'"] sz in \<open>simp_all add: word_le_nat_alt word_less_nat_alt del: of_nat_add\<close>)
    then show ?thesis using r(2) [OF that] u by blast
  qed
  have e: "snap_run (map (\<lambda>k. (k, Some (image_chunk (ch_tx ch') k))) (map of_nat [0..<sn_man_chunks s'] @ js))
      (receiver_reset (Some buf) (length buf)) = r"
  proof -
    have "map (\<lambda>k. (k, Some (image_chunk (ch_tx ch') k))) js = map (\<lambda>k. (k, img k)) js" using img assms(5) by simp
    moreover have "map (\<lambda>k. (k, Some (image_chunk (ch_tx ch') k))) (map of_nat [0..<sn_man_chunks s']) =
        map (\<lambda>k. (of_nat k, img (of_nat k))) [0..<sn_man_chunks s']"
      using img um sz(5) n by (auto simp: word_less_nat_alt)
    ultimately show ?thesis by (simp only: map_append snap_run_append r_def r1_def)
  qed
  obtain b where b: "rv_body r = Some b" "length b = length buf" "man_ok r" "body_ok (\<lambda>_ i c. c = chunk_at body i) r"
    "drop (rv_body_len r) b = drop (rv_body_len r) buf" "rv_man_ready r" "rv_body_len r = length body"
    using r(1) by (auto simp: receiving_def rcv_inv_def)
  then have ch: "rv_body_chunks r = chunks_of (length body)" by (simp add: man_ok_def Let_def)
  have pre: "rv_prefix r = rv_body_chunks r" using b(4) all by (auto simp: body_ok_def Let_def ch le_less)
  then have comp: "rv_complete r" using r(1) by (simp add: receiving_def)
  have "take (length body) b = body"
    by (rule chunks_determine) (use b assms(4) all ch in \<open>auto simp: body_ok_def Let_def\<close>)
  then have "b = body @ drop (length body) buf" using b(5,7) by (metis append_take_drop_id)
  moreover have "rv_root r = man_root body" using r(1) by (simp add: receiving_def)
  ultimately show ?thesis unfolding e Let_def using b pre comp root by (simp add: finish_status_def snap_body_def)
qed

theorem snapshot_arrives_witness:
  "\<exists>ch' :: channel. let r = snap_run (map (\<lambda>k. (k, Some (image_chunk (ch_tx ch') k))) [0, 1, 1]) (receiver_reset (Some [0, 0, 0, 0]) 4) in
     finish_status r = SNAP_OK \<and> snap_body r = Some [7, 8, 9, 0]"
proof -
  let ?s = "\<lparr>sn_armed = False, sn_body = None, sn_body_len = 0, sn_body_chunks = 0, sn_man_chunks = 0, sn_man_len = 0,
    sn_root = [], sn_man = replicate MANIFEST_BYTES_MAX 0\<rparr>"
  have l: "length (sn_man ?s) = MANIFEST_BYTES_MAX" by simp
  have b: "length [7, 8, 9 :: u8] \<le> MAX_BODY_BYTES" by (simp add: snap_sizes)
  obtain s' where s': "sender_begin ?s (Some [7, 8, 9]) = (SNAP_OK, s')" using sender_begin_ok [OF l _ b] by auto
  obtain R where r: "ready_sender s' [7, 8, 9] R" using ready_begin [OF s' l] by blast
  have mc: "sn_man_chunks s' = 1" using r by (simp add: ready_sender_def chunks_of_eq HDR_BYTES_def)
  have "image_len s' = 16387" using r mc by (simp add: image_len_def ready_sender_def)
  then have "(of_nat (image_len s') :: u32) \<noteq> 0" by simp
  moreover have "\<not> tx_active (ch_tx channel0)" by (simp add: channel0_def tx0_def)
  ultimately obtain ch' where c: "start_send_src channel0 0 1 (Some (sender_source s')) 5 (of_nat (image_len s')) True 0 = (True, ch')"
    using start_send_src_takes by blast
  have "unat (tx_chunks (ch_tx ch')) = 2" using image_chunks(1) [OF r c] mc by (simp add: chunks_of_eq)
  then have n: "tx_chunks (ch_tx ch') = 2" by (simp add: word_unat_eq_iff)
  have k: "k < 2 \<Longrightarrow> 1 \<le> k \<Longrightarrow> k = 1" for k :: u32 by (simp add: word_less_nat_alt word_le_nat_alt word_unat_eq_iff)
  have "let r = snap_run (map (\<lambda>k. (k, Some (image_chunk (ch_tx ch') k))) (map of_nat [0..<sn_man_chunks s'] @ [1, 1]))
      (receiver_reset (Some [0, 0, 0, 0]) (length [0, 0, 0, 0 :: u8])) in
    finish_status r = SNAP_OK \<and> snap_body r = Some ([7, 8, 9] @ drop (length [7, 8, 9 :: u8]) [0, 0, 0, 0]) \<and>
    rv_body_len r = length [7, 8, 9 :: u8] \<and> rv_root r = sn_root s'"
    by (rule snapshot_arrives [OF s' l c]) (use n mc k in auto)
  then show ?thesis using mc by (intro exI [of _ ch']) (simp add: Let_def numeral_eq_Suc)
qed

end
