(* ===== verification/Snapshot_Outbox.thy ===== *)
theory Snapshot_Outbox
  imports Snapshot_Image
begin

text \<open>
  The outbox of the snapshot pipeline, \<open>mh_net_udp/udp_snapshot.cpp\<close>: it owns a sender and a copy of the blob that the
  sender reads, and detaches the bulk channel from the sender before the copy goes away.
\<close>

subsection \<open>The outbox\<close>

text \<open>The endpoint's two calls look up the connection of a player (\<open>active\<close>, \<open>player_id\<close>) and go to the channel.\<close>

fun conn_of :: "(bool \<times> int) list \<Rightarrow> int \<Rightarrow> nat \<Rightarrow> int option" where
  "conn_of [] dst i = None"
| "conn_of ((active, pl) # cs) dst i = (if active \<and> pl = dst then Some (int i) else conn_of cs dst (i + 1))"

definition bulk_send_src ::
    "bool \<Rightarrow> (bool \<times> int) list \<Rightarrow> channel \<Rightarrow> int \<Rightarrow> byte_source \<Rightarrow> nat \<Rightarrow> u32 \<Rightarrow> bool \<Rightarrow> u32 \<Rightarrow> bool \<times> channel" where
  "bulk_send_src started conns ch dst src ctx len drop_cancels clock =
     (if \<not> started then (False, ch)
      else case conn_of conns dst 0 of
          None \<Rightarrow> (False, ch)
        | Some i \<Rightarrow> start_send_src ch i dst (Some src) ctx len drop_cancels clock)"

record outbox =
  ob_tx :: snap_sender
  ob_copy :: "bytes option"
  ob_len :: nat
  ob_on :: bool
  ob_dst :: int
  ob_superseded :: int

definition outbox_new :: "bytes \<Rightarrow> outbox" where
  "outbox_new man =
     \<lparr>ob_tx = sender_reset \<lparr>sn_armed = False, sn_body = None, sn_body_len = 0, sn_body_chunks = 0, sn_man_chunks = 0,
        sn_man_len = 0, sn_root = [], sn_man = man\<rparr>,
      ob_copy = None, ob_len = 0, ob_on = False, ob_dst = - 1, ob_superseded = - 1\<rparr>"

text \<open>
  The outbox runs on one thread, the channel on others, and only single calls of the channel are under the endpoint's lock.
  So a call of the outbox is the list of the steps it still has to do, each atomic, and anything may happen on the channel
  between two of them.  \<open>ob_copy\<close> is the memory of the copy, \<open>None\<close> once it is freed; \<open>Sender::m_body\<close> is not changed by
  the freeing, only by the reset.  The locals are what the call has learnt so far and will return.
\<close>

datatype ob_op =
  Detach | FreeCopy | Forget | ResetTx
| Supersede int | Alloc bool bytes | Begin | Attach bool "(bool \<times> int) list" int u32 | Publish int

record ob_locals =
  lo_was :: bool
  lo_ret :: nat
  lo_err :: snap_err

type_synonym ob_state = "channel \<times> outbox \<times> ob_locals \<times> ob_op list"

text \<open>\<open>Outbox::release\<close>: detach, then free.\<close>

definition release_ops :: "ob_op list" where
  "release_ops = [Detach, FreeCopy, Forget, ResetTx]"

text \<open>\<open>room\<close> says whether the allocation of the copy succeeds.\<close>

definition arm_call :: "bool \<Rightarrow> (bool \<times> int) list \<Rightarrow> bool \<Rightarrow> u32 \<Rightarrow> outbox \<Rightarrow> int \<Rightarrow> bytes option \<Rightarrow> ob_locals \<times> ob_op list" where
  "arm_call started conns room clock ob dst blob =
     (case blob of None \<Rightarrow> (\<lparr>lo_was = False, lo_ret = 0, lo_err = ERR_ARG\<rparr>, [])
      | Some b \<Rightarrow>
          if length b = 0 \<or> length b > MAX_BODY_BYTES then (\<lparr>lo_was = False, lo_ret = 0, lo_err = ERR_ARG\<rparr>, [])
          else (\<lparr>lo_was = False, lo_ret = 0, lo_err = SNAP_OK\<rparr>,
                release_ops @ [Supersede (ob_dst ob), Alloc room b, Begin, Attach started conns dst clock, Publish dst]))"

definition cancel_call :: "outbox \<Rightarrow> int \<Rightarrow> ob_op list" where
  "cancel_call ob dst =
     (if \<not> ob_on ob then []
      else if dst \<ge> 0 \<and> ob_dst ob \<noteq> dst then []
      else release_ops)"

text \<open>One step of the outbox; \<open>me\<close> is the address of its sender, \<open>ops\<close> what the call would do next.\<close>

fun exec_op :: "nat \<Rightarrow> ob_op \<Rightarrow> ob_op list \<Rightarrow> channel \<Rightarrow> outbox \<Rightarrow> ob_locals \<Rightarrow> ob_state" where
  "exec_op me Detach ops ch ob lo = (case abort_src ch me of (was, ch) \<Rightarrow> (ch, ob, lo\<lparr>lo_was := was\<rparr>, ops))"
| "exec_op me FreeCopy ops ch ob lo = (ch, ob\<lparr>ob_copy := None\<rparr>, lo, ops)"
| "exec_op me Forget ops ch ob lo = (ch, ob\<lparr>ob_len := 0, ob_on := False, ob_dst := - 1\<rparr>, lo, ops)"
| "exec_op me ResetTx ops ch ob lo = (ch, ob\<lparr>ob_tx := sender_reset (ob_tx ob)\<rparr>, lo, ops)"
| "exec_op me (Supersede prev) ops ch ob lo = (ch, ob\<lparr>ob_superseded := if lo_was lo then prev else - 1\<rparr>, lo, ops)"
| "exec_op me (Alloc room b) ops ch ob lo =
     (if \<not> room then (ch, ob, lo\<lparr>lo_err := ERR_CAPACITY\<rparr>, [])
      else (ch, ob\<lparr>ob_copy := Some b, ob_len := length b\<rparr>, lo, ops))"
| "exec_op me Begin ops ch ob lo =
     (case sender_begin (ob_tx ob) (ob_copy ob) of (rc, tx) \<Rightarrow>
        (let ob = ob\<lparr>ob_tx := tx\<rparr> in
         if rc \<noteq> SNAP_OK then (ch, ob, lo\<lparr>lo_err := rc\<rparr>, release_ops) else (ch, ob, lo, ops)))"
| "exec_op me (Attach started conns dst clock) ops ch ob lo =
     (case bulk_send_src started conns ch dst (sender_source (ob_tx ob)) me (of_nat (image_len (ob_tx ob))) True clock of (ok, ch) \<Rightarrow>
        if \<not> ok then (ch, ob, lo, release_ops) else (ch, ob, lo, ops))"
| "exec_op me (Publish dst) ops ch ob lo = (ch, ob\<lparr>ob_on := True, ob_dst := dst\<rparr>, lo\<lparr>lo_ret := 1\<rparr>, ops)"

subsection \<open>What the channel pulls from\<close>

definition src_of :: "channel \<Rightarrow> byte_source option \<times> nat" where
  "src_of ch = (tx_src (ch_tx ch), tx_src_ctx (ch_tx ch))"

lemma load_src: "tx_src (tx_load m w i tx) = tx_src tx" "tx_src_ctx (tx_load m w i tx) = tx_src_ctx tx"
  by (simp_all add: tx_load_def Let_def)

lemma load_all_src: "tx_src (tx_load_all m tx) = tx_src tx" "tx_src_ctx (tx_load_all m tx) = tx_src_ctx tx"
  by (simp_all add: tx_load_all_def WINDOW_CHUNKS_def numeral_2_eq_2 load_src)

lemma advance_src: "tx_src (tx_advance m n tx) = tx_src tx \<and> tx_src_ctx (tx_advance m n tx) = tx_src_ctx tx"
  by (induction m n tx rule: tx_advance.induct) (subst (1 2) tx_advance.simps, simp add: tx_shift_def Let_def load_src)

lemma seek_src: "src_of (tx_seek ch n) = src_of ch"
  by (simp add: src_of_def tx_seek_def Let_def advance_src load_all_src)

lemma on_ack_src: "src_of (snd (on_ack ch c pay now)) = src_of ch"
proof -
  have "src_of (follow_ack ch b w now) = src_of ch" for b w
    using seek_src [of ch b] by (simp add: follow_ack_def Let_def src_of_def)
  then show ?thesis by (simp add: on_ack_def Let_def)
qed

lemma fold_src:
  assumes "\<And>x p. x \<in> set xs \<Longrightarrow> src_of (fst (f x p)) = src_of (fst p)"
  shows "src_of (fst (fold f xs p)) = src_of (fst p)"
  using assms by (induction xs arbitrary: p) simp_all

lemma send_piece_src: "src_of (send_piece w pc now retx ch) = src_of ch"
  by (auto simp: send_piece_def Let_def src_of_def emit_on_def split: option.split bool.split)

lemma tick_src: "src_of (channel_tick ch c p now) = src_of ch"
proof -
  have "src_of (fst (tick_piece a b d w i q)) = src_of (fst q)" for a b d w i q
    by (simp add: tick_piece_def Let_def send_piece_src split: prod.split)
  then have "src_of (fst (tick_slot a b d w q)) = src_of (fst q)" for a b d w q
    using fold_src [of _ "tick_piece a b d w"] by (cases q) (simp add: tick_slot_def Let_def)
  then have "src_of (tick_send ch now) = src_of ch" for ch
    by (simp add: tick_send_def Let_def fold_src)
  then have "src_of (tick_tx ch c p now) = src_of ch" by (simp add: tick_tx_def Let_def) (simp add: src_of_def)
  moreover have "src_of (send_ack ch now) = src_of ch" for ch using send_ack_out [of ch now] by (auto simp: src_of_def)
  ultimately show ?thesis using channel_tick_split [of ch c p now] by auto
qed

lemma same_tx_src: "same_tx ch ch' \<Longrightarrow> src_of ch' = src_of ch"
  by (simp add: same_tx_def src_of_def)

lemma start_src: "src_of (snd (start_send ch conn pl blob len clock)) = (if fst (start_send ch conn pl blob len clock) then (None, 0) else src_of ch)"
  by (auto simp: start_send_def Let_def src_of_def load_src WINDOW_CHUNKS_def numeral_2_eq_2 tx0_def)

lemma start_src_src:
  "src_of (snd (start_send_src ch conn pl src ctx len dc clock)) = (if fst (start_send_src ch conn pl src ctx len dc clock) then (src, ctx) else src_of ch)"
  using start_send_refused [of ch conn pl None len clock]
  by (auto simp: start_send_src_def Let_def src_of_def load_all_src split: prod.split bool.split)

lemma abort_src_src: "src_of (abort_send ch) = (None, 0)"
  by (simp add: abort_send_def src_of_def)

lemma dropped_src: "src_of (snd (on_conn_dropped ch c)) \<in> {src_of ch, (None, 0)}"
  by (auto simp: on_conn_dropped_def Let_def src_of_def count_cancelled_def abort_send_def)

lemma cancel_src: "src_of (snd (abort_src ch ctx)) = (if ctx = 0 \<or> tx_src_ctx (ch_tx ch) \<noteq> ctx then src_of ch else (None, 0))"
  by (auto simp: abort_src_def Let_def count_cancelled_def src_of_def abort_send_def)

subsection \<open>The outbox and its channel\<close>

text \<open>
  The steps: the calls of the outbox - one at a time, from its one thread - and their steps, and whatever happens on the
  channel under the contracts of \<open>chan_step\<close> meanwhile, where another starter of a transfer is not at the outbox's address.
\<close>

inductive chan_moves :: "nat \<Rightarrow> channel \<Rightarrow> channel \<Rightarrow> bool" for me where
  cm_start: "chan_moves me ch (snd (start_send ch conn pl blob len clock))"
| cm_start_src: "ctx \<noteq> me \<Longrightarrow> chan_moves me ch (snd (start_send_src ch conn pl src ctx len dc clock))"
| cm_abort: "chan_moves me ch (abort_send ch)"
| cm_abort_src: "chan_moves me ch (snd (abort_src ch ctx))"
| cm_dropped: "chan_moves me ch (snd (on_conn_dropped ch conn))"
| cm_ack: "chan_moves me ch (snd (on_ack ch conn pay now))"
| cm_piece: "chan_moves me ch (snd (on_piece ch conn pay now))"
| cm_recv: "chan_moves me ch (snd (recv_chunk ch cap now))"
| cm_resume: "chan_moves me ch (rx_resume_at ch k now)"
| cm_tick: "chan_moves me ch (channel_tick ch conn pl now)"

inductive ob_step :: "nat \<Rightarrow> ob_state \<Rightarrow> ob_state \<Rightarrow> bool" for me where
  os_arm: "arm_call started conns room clock ob dst blob = (lo', ops) \<Longrightarrow> ob_step me (ch, ob, lo, []) (ch, ob, lo', ops)"
| os_release: "ob_step me (ch, ob, lo, []) (ch, ob, lo, release_ops)"
| os_cancel: "cancel_call ob dst = ops \<Longrightarrow> ob_step me (ch, ob, lo, []) (ch, ob, lo, ops)"
| os_exec: "exec_op me op ops ch ob lo = s' \<Longrightarrow> ob_step me (ch, ob, lo, op # ops) s'"
| os_chan: "chan_moves me ch ch' \<Longrightarrow> ob_step me (ch, ob, lo, ops) (ch', ob, lo, ops)"

lemma chan_moves_src:
  assumes "chan_moves me ch ch'"
  shows "src_of ch' \<in> {src_of ch, (None, 0)} \<or> snd (src_of ch') \<noteq> me"
  using assms
proof cases
  case (cm_start conn pl blob len clock)
  then show ?thesis by (simp add: start_src)
next
  case (cm_start_src ctx conn pl src len dc clock)
  then show ?thesis using start_src_src [of ch conn pl src ctx len dc clock] by simp
next
  case (cm_dropped conn)
  then show ?thesis using dropped_src by simp
qed (simp_all add: abort_src_src cancel_src on_ack_src tick_src same_tx_src [OF on_piece_same_tx]
    same_tx_src [OF recv_chunk_same_tx] same_tx_src [OF rx_resume_same_tx])

definition attached_ok :: "nat \<Rightarrow> channel \<Rightarrow> outbox \<Rightarrow> bool" where
  "attached_ok me ch ob \<longleftrightarrow> (snd (src_of ch) = me \<longrightarrow>
     (\<exists>b. ob_copy ob = Some b \<and> sn_armed (ob_tx ob) \<and> sn_body (ob_tx ob) = Some b \<and> fst (src_of ch) = Some (sender_source (ob_tx ob))))"

text \<open>What a call still has to do, and what holds before it: only a call that has detached frees, resets and arms.\<close>

fun sound_ops :: "nat \<Rightarrow> ob_op list \<Rightarrow> channel \<Rightarrow> outbox \<Rightarrow> bool" where
  "sound_ops me [] ch ob = attached_ok me ch ob"
| "sound_ops me (Publish dst # ops) ch ob = (attached_ok me ch ob \<and> ops = [])"
| "sound_ops me (Detach # ops) ch ob = (attached_ok me ch ob \<and>
     (\<forall>ch' ob'. snd (src_of ch') \<noteq> me \<longrightarrow> sound_ops me ops ch' ob'))"
| "sound_ops me (Attach started conns dst clock # ops) ch ob = (snd (src_of ch) \<noteq> me \<and> ops = [Publish dst] \<and>
     (\<exists>b. ob_copy ob = Some b \<and> sn_armed (ob_tx ob) \<and> sn_body (ob_tx ob) = Some b))"
| "sound_ops me (Begin # ops) ch ob = (snd (src_of ch) \<noteq> me \<and> (\<exists>started conns dst clock. ops = [Attach started conns dst clock, Publish dst]))"
| "sound_ops me (op # ops) ch ob = (snd (src_of ch) \<noteq> me \<and>
     (\<forall>ch' ob'. snd (src_of ch') \<noteq> me \<longrightarrow> sound_ops me ops ch' ob'))"

lemma release_sound:
  assumes "attached_ok me ch ob" "\<And>ch' ob'. snd (src_of ch') \<noteq> me \<Longrightarrow> sound_ops me ops ch' ob'"
  shows "sound_ops me (release_ops @ ops) ch ob"
  using assms by (simp add: release_ops_def)

lemma release_sound_nil: "attached_ok me ch ob \<Longrightarrow> sound_ops me release_ops ch ob"
  using release_sound [of me ch ob "[]"] by (simp add: attached_ok_def)

lemma detached_ok: "snd (src_of ch) \<noteq> me \<Longrightarrow> attached_ok me ch ob"
  by (simp add: attached_ok_def)

lemma arm_sound:
  assumes "attached_ok me ch ob" "arm_call started conns room clock ob dst blob = (lo, ops)"
  shows "sound_ops me ops ch ob"
proof -
  have "ops = [] \<or> (\<exists>b. ops = release_ops @ [Supersede (ob_dst ob), Alloc room b, Begin, Attach started conns dst clock, Publish dst])"
    using assms(2) by (auto simp: arm_call_def split: option.splits if_splits)
  then show ?thesis using assms(1) release_sound [of me ch ob] by auto
qed

lemma begin_copy: "sender_begin s c = (SNAP_OK, tx) \<Longrightarrow> sn_armed tx \<and> sn_body tx = c \<and> c \<noteq> None"
  by (auto simp: sender_begin_def Let_def split: option.splits if_splits)

lemma exec_sound:
  assumes me: "me \<noteq> 0" and ok: "sound_ops me (op # ops) ch ob" and ex: "exec_op me op ops ch ob lo = (ch', ob', lo', ops')"
  shows "sound_ops me ops' ch' ob'"
proof (cases op)
  case Detach
  obtain was ch1 where a: "abort_src ch me = (was, ch1)" by fastforce
  then have "snd (src_of ch1) \<noteq> me" using cancel_src [of ch me] me by (auto simp: src_of_def split: if_splits)
  then show ?thesis using Detach ok ex a by simp
next
  case (Alloc room b)
  then show ?thesis using ok ex by (auto simp: detached_ok split: if_splits)
next
  case Begin
  obtain rc tx where bg: "sender_begin (ob_tx ob) (ob_copy ob) = (rc, tx)" by fastforce
  show ?thesis
  proof (cases "rc = SNAP_OK")
    case True
    then show ?thesis using Begin ok ex bg begin_copy [of "ob_tx ob" "ob_copy ob" tx] by auto
  next
    case False
    then have "ops' = release_ops" "ch' = ch" using Begin ex bg by auto
    then show ?thesis using Begin ok by (simp add: release_sound_nil detached_ok)
  qed
next
  case (Attach started conns dst clock)
  obtain r ch1 where st: "bulk_send_src started conns ch dst (sender_source (ob_tx ob)) me (of_nat (image_len (ob_tx ob))) True clock = (r, ch1)"
    by fastforce
  have src: "src_of ch1 = (if r then (Some (sender_source (ob_tx ob)), me) else src_of ch)"
    using st start_src_src [of ch _ dst "Some (sender_source (ob_tx ob))" me "of_nat (image_len (ob_tx ob))" True clock]
    by (auto simp: bulk_send_src_def split: if_splits option.splits) (metis fst_conv snd_conv)+
  show ?thesis
  proof (cases r)
    case True
    then have "ops' = [Publish dst]" "ch' = ch1" "ob' = ob" using Attach ok ex st by auto
    then show ?thesis using Attach ok src True by (simp add: attached_ok_def)
  next
    case False
    then have "ops' = release_ops" "ch' = ch1" using Attach ex st by auto
    then show ?thesis using Attach ok src False by (simp add: release_sound_nil detached_ok)
  qed
next
  case (Publish dst)
  then show ?thesis using ok ex by (auto simp: attached_ok_def)
qed (use ok ex in auto)

lemma chan_sound:
  assumes me: "me \<noteq> 0" and ok: "sound_ops me ops ch ob" and mv: "chan_moves me ch ch'"
  shows "sound_ops me ops ch' ob"
proof -
  have off: "snd (src_of ch) \<noteq> me \<Longrightarrow> snd (src_of ch') \<noteq> me" using chan_moves_src [OF mv] me by auto
  have att: "attached_ok me ch ob \<Longrightarrow> attached_ok me ch' ob" using chan_moves_src [OF mv] me by (auto simp: attached_ok_def)
  from ok off att show ?thesis by (cases "(me, ops, ch, ob)" rule: sound_ops.cases) simp_all
qed

definition ob_sound :: "nat \<Rightarrow> ob_state \<Rightarrow> bool" where
  "ob_sound me s = (case s of (ch, ob, lo, ops) \<Rightarrow> sound_ops me ops ch ob)"

lemma ob_step_sound: "ob_step me s s' \<Longrightarrow> me \<noteq> 0 \<Longrightarrow> ob_sound me s \<Longrightarrow> ob_sound me s'"
proof (induction rule: ob_step.induct)
  case (os_arm started conns room clock ob dst blob lo' ops ch lo)
  then show ?case using arm_sound by (simp add: ob_sound_def)
next
  case (os_release ch ob lo)
  then show ?case by (simp add: ob_sound_def release_sound_nil)
next
  case (os_cancel ob dst ops ch lo)
  then show ?case using release_sound_nil by (auto simp: ob_sound_def cancel_call_def split: if_splits)
next
  case (os_exec op ops ch ob lo s')
  then show ?case using exec_sound by (cases s') (simp add: ob_sound_def)
next
  case (os_chan ch ch' ob lo ops)
  then show ?case using chan_sound by (simp add: ob_sound_def)
qed

text \<open>An outbox that holds nothing, over a new channel.\<close>

definition ob_start :: "(emission list \<Rightarrow> int \<Rightarrow> bytes \<Rightarrow> bool) option \<Rightarrow> nat \<Rightarrow> bytes \<Rightarrow> ob_state" where
  "ob_start e n man = (set_piece_max (bind_edge channel0 e) n, outbox_new man, \<lparr>lo_was = False, lo_ret = 0, lo_err = SNAP_OK\<rparr>, [])"

lemma sound_attached: "sound_ops me ops ch ob \<Longrightarrow> attached_ok me ch ob"
  by (cases "(me, ops, ch, ob)" rule: sound_ops.cases) (simp_all add: detached_ok)

text \<open>C32. The channel never pulls from released memory, whatever its threads do between the steps of the outbox.  Through any
  interleaving of the outbox's calls of \<open>arm\<close>, \<open>release\<close> and \<open>cancel_to\<close>, step by step, with anything that happens on the
  channel - acknowledgements, pieces, ticks, dropped connections, other transfers - as long as the channel's source is the
  outbox's sender the copy of the blob is still held, the sender is armed over that copy, and what the channel pulls is
  what the sender composes from it; and when a call is about to free the copy or to reset the sender, the channel is
  detached from it.\<close>

theorem outbox_detaches_before_free:
  assumes "me \<noteq> 0" "(ob_step me)\<^sup>*\<^sup>* (ob_start e n man) (ch, ob, lo, ops)"
  shows "(tx_src_ctx (ch_tx ch) = me \<longrightarrow> (\<exists>b. ob_copy ob = Some b \<and> sn_armed (ob_tx ob) \<and> sn_body (ob_tx ob) = Some b \<and>
      tx_src (ch_tx ch) = Some (sender_source (ob_tx ob)))) \<and>
    (ops \<noteq> [] \<and> hd ops \<in> {FreeCopy, ResetTx, Begin} \<longrightarrow> tx_src_ctx (ch_tx ch) \<noteq> me)"
proof -
  have "ob_sound me s" if "(ob_step me)\<^sup>*\<^sup>* (ob_start e n man) s" for s
    using that
  proof (induction rule: rtranclp_induct)
    case base
    then show ?case using assms(1)
      by (simp add: ob_sound_def ob_start_def attached_ok_def src_of_def set_piece_max_def bind_edge_def channel0_def tx0_def)
  qed (use assms(1) ob_step_sound in blast)
  from this [OF assms(2)] have ok: "sound_ops me ops ch ob" by (simp add: ob_sound_def)
  have "snd (src_of ch) \<noteq> me" if "ops \<noteq> []" "hd ops \<in> {FreeCopy, ResetTx, Begin}"
    using ok that by (cases ops) auto
  with sound_attached [OF ok] show ?thesis by (simp add: attached_ok_def src_of_def)
qed

lemma ob_run_exec:
  "(ob_step me)\<^sup>*\<^sup>* s (ch, ob, lo, op # ops) \<Longrightarrow> (ob_step me)\<^sup>*\<^sup>* s (exec_op me op ops ch ob lo)"
  by (rule rtranclp.rtrancl_into_rtrancl) (auto intro: os_exec)

text \<open>A transfer that was armed to its end.\<close>

lemma armed_run:
  fixes man :: bytes
  assumes man: "length man = MANIFEST_BYTES_MAX" and body: "0 < length b" "length b \<le> CHUNK"
  obtains ch ob lo where "(ob_step 5)\<^sup>*\<^sup>* (ob_start None 1100 man) (ch, ob, lo, [])" "snd (src_of ch) = 5" "ob_copy ob = Some b"
proof -
  let ?c0 = "set_piece_max (bind_edge channel0 None) 1100" and ?lo = "\<lparr>lo_was = False, lo_ret = 0, lo_err = SNAP_OK\<rparr>"
  let ?rest = "[Supersede (- 1), Alloc True b, Begin, Attach True [(True, 7)] 7 0, Publish 7]"
  let ?s = "ob_start None 1100 man"
  have c0: "\<not> tx_active (ch_tx ?c0)" "abort_src ?c0 5 = (False, ?c0)"
    by (simp_all add: set_piece_max_def bind_edge_def channel0_def tx0_def abort_src_def)
  have small: "length b \<le> MAX_BODY_BYTES" using body(2) by (simp add: snap_sizes)
  have call: "arm_call True [(True, 7)] True 0 (outbox_new man) 7 (Some b) = (?lo, release_ops @ ?rest)"
    using body small by (simp add: arm_call_def outbox_new_def)
  have "(ob_step 5)\<^sup>*\<^sup>* ?s (?c0, outbox_new man, ?lo, release_ops @ ?rest)"
    unfolding ob_start_def by (rule r_into_rtranclp, rule os_arm [OF call])
  note r = this [unfolded release_ops_def append.simps]
  note r = ob_run_exec [OF r, unfolded exec_op.simps c0(2) prod.case]
  note r = ob_run_exec [OF r, unfolded exec_op.simps]
  note r = ob_run_exec [OF r, unfolded exec_op.simps]
  note r = ob_run_exec [OF r, unfolded exec_op.simps]
  note r = ob_run_exec [OF r, unfolded exec_op.simps]
  note r = ob_run_exec [OF r, unfolded exec_op.simps, simplified]
  obtain ob lo where r: "(ob_step 5)\<^sup>*\<^sup>* ?s (?c0, ob, lo, [Begin, Attach True [(True, 7)] 7 0, Publish 7])"
      and ob: "ob_copy ob = Some b" "length (sn_man (ob_tx ob)) = MANIFEST_BYTES_MAX"
    using r man by (auto simp: outbox_new_def sender_reset_def)
  obtain tx where tx: "sender_begin (ob_tx ob) (Some b) = (SNAP_OK, tx)" "sn_body_len tx = length b"
      "sn_man_chunks tx = chunks_of (HDR_BYTES + 32 * chunks_of (length b))"
    using sender_begin_ok [OF ob(2) body(1) small] by auto
  have "length b + 16383 = 16384 + (length b - 1)" "length b - 1 < 16384" using body by simp_all
  then have "chunks_of (length b) = 1" by (simp add: chunks_of_eq)
  then have "image_len tx \<noteq> 0" "image_len tx < 2 ^ 32"
    using tx body by (simp_all add: image_len_def chunks_of_eq HDR_BYTES_def)
  then have "(of_nat (image_len tx) :: u32) \<noteq> 0" by (simp add: word_of_nat_eq_0_iff nat_dvd_not_less)
  then obtain c2 where c2: "start_send_src ?c0 0 7 (Some (sender_source tx)) 5 (of_nat (image_len tx)) True 0 = (True, c2)"
    using start_send_src_takes [OF c0(1)] by blast
  note r = ob_run_exec [OF r, unfolded exec_op.simps ob(1) tx(1) prod.case Let_def, simplified]
  note r = ob_run_exec [OF r]
  have r: "(ob_step 5)\<^sup>*\<^sup>* ?s (c2, ob\<lparr>ob_tx := tx\<rparr>, lo, [Publish 7])"
    using r c2 by (simp add: bulk_send_src_def)
  have on: "snd (src_of c2) = 5"
    using start_src_src [of ?c0 0 7 "Some (sender_source tx)" 5 "of_nat (image_len tx)" True 0] c2 by simp
  show ?thesis by (rule that [OF ob_run_exec [OF r, unfolded exec_op.simps] on]) (simp add: ob(1))
qed

lemma outbox_detaches_before_free_witness:
  "\<exists>(ch :: channel) (ch' :: channel) (ob :: outbox) lo lo'.
     (ob_step 5)\<^sup>*\<^sup>* (ob_start None 1100 (replicate MANIFEST_BYTES_MAX 0)) (ch, ob, lo, release_ops) \<and>
     tx_src_ctx (ch_tx ch) = 5 \<and> tx_src (ch_tx ch) = Some (sender_source (ob_tx ob)) \<and>
     (ob_step 5)\<^sup>*\<^sup>* (ob_start None 1100 (replicate MANIFEST_BYTES_MAX 0)) (ch', ob, lo', [FreeCopy, Forget, ResetTx]) \<and>
     ob_copy ob = Some [1, 2, 3] \<and> tx_src_ctx (ch_tx ch') \<noteq> 5"
proof -
  let ?s = "ob_start None 1100 (replicate MANIFEST_BYTES_MAX 0)"
  obtain ch ob lo where r: "(ob_step 5)\<^sup>*\<^sup>* ?s (ch, ob, lo, [])" and on: "snd (src_of ch) = 5" and copy: "ob_copy ob = Some [1, 2, 3]"
    using armed_run [of "replicate MANIFEST_BYTES_MAX 0" "[1, 2, 3]"] by auto
  have rel: "(ob_step 5)\<^sup>*\<^sup>* ?s (ch, ob, lo, release_ops)"
    using r os_release by (rule rtranclp.rtrancl_into_rtrancl)
  obtain was ch' where a: "abort_src ch 5 = (was, ch')" by fastforce
  have det: "(ob_step 5)\<^sup>*\<^sup>* ?s (ch', ob, lo\<lparr>lo_was := was\<rparr>, [FreeCopy, Forget, ResetTx])"
    using ob_run_exec [OF rel [unfolded release_ops_def], unfolded exec_op.simps a prod.case] .
  from outbox_detaches_before_free [OF _ rel] on have "tx_src (ch_tx ch) = Some (sender_source (ob_tx ob))"
    by (auto simp: src_of_def)
  moreover from outbox_detaches_before_free [OF _ det] have "tx_src_ctx (ch_tx ch') \<noteq> 5" by simp
  ultimately show ?thesis using rel det on copy by (auto simp: src_of_def)
qed

end
