(* ===== verification/Punch_Cands.thy ===== *)
theory Punch_Cands
  imports Byteio
begin

text \<open>
  The addresses two peers exchange to punch a hole, and their list on the wire: \<open>Cand\<close>, \<open>cands_encode\<close> and
  \<open>cands_decode\<close> of \<open>mh_net_udp/udp_punch.cpp\<close>.  A decoder that refuses returns \<open>None\<close>; what it had written before it
  refused is not modelled, and an absent buffer is \<open>None\<close>.
\<close>

subsection \<open>Candidates\<close>

definition MAX_CANDS :: nat where "MAX_CANDS = 8"
definition FAM_V4 :: u8 where "FAM_V4 = 4"
definition FAM_V6 :: u8 where "FAM_V6 = 6"

record cand =
  cd_fam :: u8
  cd_flags :: u8
  cd_port :: u16
  cd_addr :: bytes

definition addr_len :: "u8 \<Rightarrow> nat" where
  "addr_len fam = (if fam = FAM_V6 then 16 else 4)"

definition fam_ok :: "u8 \<Rightarrow> bool" where
  "fam_ok fam = (fam = FAM_V4 \<or> fam = FAM_V6)"

definition cand_eq :: "cand \<Rightarrow> cand \<Rightarrow> bool" where
  "cand_eq a b =
     (if cd_fam a \<noteq> cd_fam b \<or> cd_port a \<noteq> cd_port b then False
      else take (addr_len (cd_fam a)) (cd_addr a) = take (addr_len (cd_fam a)) (cd_addr b))"

definition cand_bytes :: "cand \<Rightarrow> bytes" where
  "cand_bytes c = [cd_fam c, cd_flags c] @ put_u16 (cd_port c) @ take (addr_len (cd_fam c)) (cd_addr c)"

definition cands_encode :: "cand list option \<Rightarrow> nat \<Rightarrow> bytes" where
  "cands_encode cs cap =
     (case cs of None \<Rightarrow> []
      | Some cs \<Rightarrow>
          if cap < 1 then []
          else
            (let cs = take MAX_CANDS cs; need = 1 + sum_list (map (\<lambda>c. 4 + addr_len (cd_fam c)) cs) in
             if need > cap then [] else of_nat (length cs) # concat (map cand_bytes cs)))"

text \<open>\<open>n\<close> entries from the place \<open>pos\<close> on; the place behind them.\<close>

fun cands_loop :: "bytes \<Rightarrow> nat \<Rightarrow> nat \<Rightarrow> (cand list \<times> nat) option" where
  "cands_loop p 0 pos = Some ([], pos)"
| "cands_loop p (Suc n) pos =
     (if pos + 4 > length p then None
      else
        (let fam = p ! pos in
         if \<not> fam_ok fam then None
         else if pos + 4 + addr_len fam > length p then None
         else
           (case cands_loop p n (pos + 4 + addr_len fam) of None \<Rightarrow> None
            | Some (cs, fin) \<Rightarrow>
                Some (\<lparr>cd_fam = fam, cd_flags = p ! (pos + 1), cd_port = get_u16 (drop (pos + 2) p),
                       cd_addr = memcpy_at (replicate 16 0) 0 (take (addr_len fam) (drop (pos + 4) p))\<rparr> # cs, fin))))"

definition cands_decode :: "bytes option \<Rightarrow> nat \<Rightarrow> cand list option" where
  "cands_decode p cap =
     (case p of None \<Rightarrow> None
      | Some p \<Rightarrow>
          if length p < 1 then None
          else
            (let n = unat (p ! 0) in
             if n > MAX_CANDS \<or> n > cap then None
             else (case cands_loop p n 1 of None \<Rightarrow> None | Some (cs, fin) \<Rightarrow> if fin \<noteq> length p then None else Some cs)))"

definition cand_key :: "cand \<Rightarrow> u8 \<times> u16 \<times> bytes" where
  "cand_key c = (cd_fam c, cd_port c, take (addr_len (cd_fam c)) (cd_addr c))"

lemma cand_eq_key: "cand_eq a b = (cand_key a = cand_key b)"
  by (auto simp: cand_eq_def cand_key_def)

lemma cand_key_flags [simp]: "cand_key (c\<lparr>cd_flags := f\<rparr>) = cand_key c"
  by (simp add: cand_key_def)

subsection \<open>The list on the wire\<close>

definition cand_ok :: "cand \<Rightarrow> bool" where
  "cand_ok c =
     (fam_ok (cd_fam c) \<and> length (cd_addr c) = 16
      \<and> drop (addr_len (cd_fam c)) (cd_addr c) = replicate (16 - addr_len (cd_fam c)) 0)"

definition cand_read :: "bytes \<Rightarrow> cand" where
  "cand_read r =
     \<lparr>cd_fam = r ! 0, cd_flags = r ! 1, cd_port = get_u16 (drop 2 r),
      cd_addr = memcpy_at (replicate 16 0) 0 (take (addr_len (r ! 0)) (drop 4 r))\<rparr>"

lemma addr_len_le: "addr_len f \<le> 16"
  by (simp add: addr_len_def)

lemma length_cand_bytes: "cand_ok c \<Longrightarrow> length (cand_bytes c) = 4 + addr_len (cd_fam c)"
  using addr_len_le [of "cd_fam c"] by (simp add: cand_bytes_def cand_ok_def)

lemma cand_read_bytes:
  assumes "cand_ok c"
  shows "cand_read (cand_bytes c @ r) = c"
proof -
  let ?n = "addr_len (cd_fam c)"
  have "take ?n (cd_addr c) @ replicate (16 - ?n) 0 = cd_addr c"
    using assms by (metis append_take_drop_id cand_ok_def)
  moreover have "length (take ?n (cd_addr c)) = ?n"
    using assms addr_len_le [of "cd_fam c"] by (simp add: cand_ok_def)
  ultimately show ?thesis
    using addr_len_le [of "cd_fam c"] by (simp add: cand_read_def cand_bytes_def memcpy_at_def)
qed

lemma cand_read_ok:
  assumes "fam_ok (r ! 0)" "4 + addr_len (r ! 0) \<le> length r"
  shows "cand_ok (cand_read r)" "cand_bytes (cand_read r) = take (4 + addr_len (r ! 0)) r"
proof -
  show "cand_ok (cand_read r)"
    using assms addr_len_le [of "r ! 0"] by (simp add: cand_ok_def cand_read_def memcpy_at_def)
  let ?n = "addr_len (r ! 0)"
  have "take ?n (memcpy_at (replicate 16 0) 0 (take ?n (drop 4 r))) = take ?n (drop 4 r)"
    using assms(2) addr_len_le [of "r ! 0"] by (simp add: memcpy_at_def)
  moreover have "put_u16 (get_u16 (drop 2 r)) = take 2 (drop 2 r)"
    using assms(2) by (intro put_get) simp
  moreover have "[r ! 0, r ! 1] = take 2 r"
    using assms(2) by (intro take_2_nth [symmetric]) simp
  ultimately have "cand_bytes (cand_read r) = take 2 r @ take 2 (drop 2 r) @ take ?n (drop 4 r)"
    by (simp add: cand_bytes_def cand_read_def)
  also have "\<dots> = take (4 + ?n) r"
    using take_take_chain [of 4 2 2 r] by (simp add: take_add)
  finally show "cand_bytes (cand_read r) = take (4 + ?n) r" .
qed

lemma cands_loop_step:
  "cands_loop p (Suc n) pos =
     (if pos + 4 > length p then None
      else if \<not> fam_ok (p ! pos) then None
      else if pos + 4 + addr_len (p ! pos) > length p then None
      else map_option (\<lambda>(cs, fin). (cand_read (drop pos p) # cs, fin)) (cands_loop p n (pos + 4 + addr_len (p ! pos))))"
  by (auto simp: cand_read_def Let_def add.commute split: option.split)

declare cands_loop.simps(2) [simp del]

text \<open>The loop reads \<open>n\<close> entries exactly when their bytes lie at \<open>pos\<close>.\<close>

lemma cands_loop_reads:
  "pos \<le> length p \<Longrightarrow> cands_loop p n pos = Some (cs, fin) \<Longrightarrow>
     length cs = n \<and> (\<forall>c \<in> set cs. cand_ok c) \<and> fin \<le> length p
     \<and> drop pos p = concat (map cand_bytes cs) @ drop fin p"
proof (induction n arbitrary: pos cs)
  case (Suc n)
  let ?r = "drop pos p" and ?m = "4 + addr_len (p ! pos)"
  from Suc.prems(2) obtain cs' where here: "pos + ?m \<le> length p" "fam_ok (p ! pos)" and cs: "cs = cand_read ?r # cs'"
    and rest: "cands_loop p n (pos + ?m) = Some (cs', fin)"
    by (auto simp: cands_loop_step add.assoc split: if_splits)
  have r0: "?r ! 0 = p ! pos" using here by simp
  have "cand_ok (cand_read ?r)" "cand_bytes (cand_read ?r) = take ?m ?r"
    using cand_read_ok [of ?r] here unfolding r0 by simp_all
  moreover from Suc.IH [OF here(1) rest] have "length cs' = n \<and> (\<forall>c \<in> set cs'. cand_ok c) \<and> fin \<le> length p
      \<and> drop (pos + ?m) p = concat (map cand_bytes cs') @ drop fin p" .
  moreover have "?r = take ?m ?r @ drop (pos + ?m) p" by (metis append_take_drop_id drop_drop add.commute)
  ultimately show ?case unfolding cs by (metis append.assoc concat.simps(2) length_Cons list.simps(9) set_ConsD)
qed simp

lemma cands_loop_finds:
  "\<forall>c \<in> set cs. cand_ok c \<Longrightarrow>
     cands_loop (pre @ concat (map cand_bytes cs) @ post) (length cs) (length pre)
       = Some (cs, length pre + length (concat (map cand_bytes cs)))"
proof (induction cs arbitrary: pre)
  case (Cons c cs)
  let ?p = "pre @ cand_bytes c @ concat (map cand_bytes cs) @ post"
  have c: "cand_ok c" using Cons.prems by simp
  have fam: "?p ! length pre = cd_fam c" by (simp add: nth_append cand_bytes_def)
  have "cands_loop ?p (length cs) (length pre + 4 + addr_len (cd_fam c))
      = Some (cs, length pre + length (cand_bytes c) + length (concat (map cand_bytes cs)))"
    using Cons.IH [of "pre @ cand_bytes c"] Cons.prems length_cand_bytes [OF c] by (simp add: add.assoc)
  then show ?case
    using c length_cand_bytes [OF c] cand_read_bytes [OF c] fam by (simp add: cands_loop_step cand_ok_def)
qed simp

text \<open>C37. The candidate decoder accepts exactly what the encoder writes, and returns what it wrote: a datagram decodes to a
  list if and only if the list is one the decoder may return - at most \<open>MAX_CANDS\<close> entries and at most the caller's room, of
  known families, the unused address bytes zero - and the datagram is its encoding.  A cut-off list, one with trailing bytes
  or one of an unknown family is refused, never read as a shorter list.\<close>

theorem cands_decode_iff:
  "cands_decode (Some b) cap = Some cs \<longleftrightarrow>
     length cs \<le> MAX_CANDS \<and> length cs \<le> cap \<and> list_all cand_ok cs \<and> b \<noteq> []
     \<and> cands_encode (Some cs) (length b) = b"
  unfolding list_all_iff
proof
  assume dec: "cands_decode (Some b) cap = Some cs"
  then obtain k b' where b: "b = k # b'" by (cases b) (simp_all add: cands_decode_def)
  with dec have loop: "cands_loop b (unat k) 1 = Some (cs, length b)" and k: "unat k \<le> MAX_CANDS" "unat k \<le> cap"
    by (auto simp: cands_decode_def Let_def split: if_splits option.splits)
  have cs: "length cs = unat k" "\<forall>c \<in> set cs. cand_ok c" "b' = concat (map cand_bytes cs)"
    using cands_loop_reads [OF _ loop] b by simp_all
  have "sum_list (map (\<lambda>c. 4 + addr_len (cd_fam c)) cs) = length (concat (map cand_bytes cs))"
    using cs(2) by (induction cs) (simp_all add: length_cand_bytes)
  then have "cands_encode (Some cs) (length b) = b"
    using cs k(1) b by (simp add: cands_encode_def)
  with cs k b show "length cs \<le> MAX_CANDS \<and> length cs \<le> cap \<and> (\<forall>c \<in> set cs. cand_ok c) \<and> b \<noteq> []
     \<and> cands_encode (Some cs) (length b) = b" by simp
next
  assume "length cs \<le> MAX_CANDS \<and> length cs \<le> cap \<and> (\<forall>c \<in> set cs. cand_ok c) \<and> b \<noteq> []
     \<and> cands_encode (Some cs) (length b) = b"
  then have len: "length cs \<le> MAX_CANDS" "length cs \<le> cap" and ok: "\<forall>c \<in> set cs. cand_ok c"
    and b: "b = [of_nat (length cs)] @ concat (map cand_bytes cs) @ []"
    by (auto simp: cands_encode_def Let_def split: if_splits)
  have "unat (of_nat (length cs) :: u8) = length cs"
    using len(1) by (intro unat_of_nat_u8) (simp add: MAX_CANDS_def)
  then show "cands_decode (Some b) cap = Some cs"
    using cands_loop_finds [OF ok, of "[of_nat (length cs)]" "[]"] len unfolding b
    by (simp add: cands_decode_def Let_def)
qed

end
