(* ===== verification/Udp_Punch.thy ===== *)
theory Udp_Punch
  imports Punch_Cands
begin

text \<open>
  The decision half of UDP hole punching, \<open>mh_net_udp/udp_punch.cpp\<close>: the state machine that says whether the traffic of a
  pair goes straight to the peer or through the relay.  Every function gets the time as an argument, a 32-bit millisecond
  count that wraps.  The table is the source's array of \<open>MAX_CANDS\<close> paths with a count; the counters are \<open>nat\<close>.
\<close>

subsection \<open>The state machine\<close>

definition elapsed :: "u32 \<Rightarrow> u32 \<Rightarrow> u32 \<Rightarrow> bool" where
  "elapsed now since ms = (now - since \<ge> ms)"

definition FAST_MS :: u32 where "FAST_MS = 250"
definition FAST_WINDOW_MS :: u32 where "FAST_WINDOW_MS = 10000"
definition SLOW_MS :: u32 where "SLOW_MS = 2000"
definition KEEP_MS :: u32 where "KEEP_MS = 1000"
definition DEAD_MS :: u32 where "DEAD_MS = 3000"

datatype punch_state = ST_IDLE | ST_PROBING | ST_DIRECT
datatype punch_event = EV_NONE | EV_PROMOTED | EV_DEMOTED

record path =
  pa_cand :: cand
  pa_token :: u64
  pa_sent_ms :: u32
  pa_acked :: bool
  pa_heard :: bool

record punch =
  pn_state :: punch_state
  pn_path :: "path list"
  pn_n :: nat
  pn_chosen :: int
  pn_started_ms :: u32
  pn_last_probe_ms :: u32
  pn_last_ack_ms :: u32
  pn_promoted_ms :: u32
  pn_promotions :: nat
  pn_demotions :: nat
  pn_next_token :: u64
  pn_forced :: bool

definition cand0 :: cand where
  "cand0 = \<lparr>cd_fam = 0, cd_flags = 0, cd_port = 0, cd_addr = replicate 16 0\<rparr>"

definition path0 :: path where
  "path0 = \<lparr>pa_cand = cand0, pa_token = 0, pa_sent_ms = 0, pa_acked = False, pa_heard = False\<rparr>"

definition punch_reset :: "u64 \<Rightarrow> punch" where
  "punch_reset seed =
     \<lparr>pn_state = ST_IDLE, pn_path = replicate MAX_CANDS path0, pn_n = 0, pn_chosen = - 1, pn_started_ms = 0,
      pn_last_probe_ms = 0, pn_last_ack_ms = 0, pn_promoted_ms = 0, pn_promotions = 0, pn_demotions = 0,
      pn_next_token = seed OR 1, pn_forced = False\<rparr>"

text \<open>
  Two writes the operations share: path \<open>i\<close> gets the value \<open>t\<close>, and a path \<open>t\<close> goes into the first free slot (which the
  source clears before it fills it).
\<close>

definition set_path :: "punch \<Rightarrow> nat \<Rightarrow> path \<Rightarrow> punch" where
  "set_path p i t = p\<lparr>pn_path := (pn_path p)[i := t]\<rparr>"

definition push_path :: "punch \<Rightarrow> path \<Rightarrow> punch" where
  "push_path p t = p\<lparr>pn_path := (pn_path p)[pn_n p := t], pn_n := pn_n p + 1\<rparr>"

text \<open>The first path with an equal address.\<close>

definition find_cand :: "punch \<Rightarrow> cand \<Rightarrow> nat option" where
  "find_cand p c = find (\<lambda>j. cand_eq (pa_cand (pn_path p ! j)) c) [0..<pn_n p]"

definition start_probing :: "punch \<Rightarrow> u32 \<Rightarrow> punch" where
  "start_probing p now = p\<lparr>pn_state := ST_PROBING, pn_started_ms := now, pn_last_probe_ms := now - FAST_MS\<rparr>"

fun add_loop :: "cand list \<Rightarrow> punch \<Rightarrow> nat \<Rightarrow> punch \<times> nat" where
  "add_loop [] p added = (p, added)"
| "add_loop (c # cs) p added =
     (if \<not> pn_n p < MAX_CANDS then (p, added)
      else if \<not> fam_ok (cd_fam c) then add_loop cs p added
      else
        (case find_cand p c of
           Some j \<Rightarrow>
             (let t = pn_path p ! j; a = pa_cand t in
              add_loop cs (set_path p j (t\<lparr>pa_cand := a\<lparr>cd_flags := cd_flags a OR cd_flags c\<rparr>\<rparr>)) added)
         | None \<Rightarrow> add_loop cs (push_path p (path0\<lparr>pa_cand := c\<rparr>)) (added + 1)))"

definition add_cands :: "punch \<Rightarrow> cand list option \<Rightarrow> u32 \<Rightarrow> nat \<times> punch" where
  "add_cands p cs now =
     (case cs of None \<Rightarrow> (0, p)
      | Some cs \<Rightarrow>
          if length cs = 0 \<or> pn_forced p then (0, p)
          else
            (case add_loop cs p 0 of (p, added) \<Rightarrow>
               (added, if added > 0 \<and> pn_state p = ST_IDLE then start_probing p now else p)))"

definition fresh_token :: "u64 \<Rightarrow> u64 \<times> u64" where
  "fresh_token next = (if next = 0 then (next + 1, next + 2) else (next, next + 1))"

definition probe_path :: "punch \<Rightarrow> nat \<Rightarrow> u32 \<Rightarrow> u64 \<times> punch" where
  "probe_path p i now =
     (case fresh_token (pn_next_token p) of (t, next) \<Rightarrow>
        (t, set_path (p\<lparr>pn_next_token := next\<rparr>) i ((pn_path p ! i)\<lparr>pa_token := t, pa_sent_ms := now\<rparr>)))"

fun probe_loop :: "nat list \<Rightarrow> punch \<Rightarrow> u32 \<Rightarrow> (nat \<times> u64) list \<times> punch" where
  "probe_loop [] p now = ([], p)"
| "probe_loop (i # is) p now =
     (case probe_path p i now of (t, p) \<Rightarrow> (case probe_loop is p now of (out, p) \<Rightarrow> ((i, t) # out, p)))"

text \<open>\<open>cap\<close> bounds the probes; the null test on the two output arrays is not modelled.\<close>

definition due_probes :: "punch \<Rightarrow> u32 \<Rightarrow> nat \<Rightarrow> (nat \<times> u64) list \<times> punch" where
  "due_probes p now cap =
     (if pn_forced p \<or> pn_n p = 0 \<or> cap = 0 then ([], p)
      else if pn_state p = ST_DIRECT then
        (if pn_chosen p < 0 \<or> \<not> elapsed now (pn_last_probe_ms p) KEEP_MS then ([], p)
         else probe_loop [nat (pn_chosen p)] (p\<lparr>pn_last_probe_ms := now\<rparr>) now)
      else
        (let every = (if elapsed now (pn_started_ms p) FAST_WINDOW_MS then SLOW_MS else FAST_MS) in
         if \<not> elapsed now (pn_last_probe_ms p) every then ([], p)
         else probe_loop [0..<min (pn_n p) cap] (p\<lparr>pn_last_probe_ms := now\<rparr>) now))"

definition punch_on_ack :: "punch \<Rightarrow> u64 \<Rightarrow> u32 \<Rightarrow> bool \<times> punch" where
  "punch_on_ack p token now =
     (if token = 0 then (False, p)
      else
        (case find (\<lambda>i. pa_token (pn_path p ! i) = token) [0..<pn_n p] of None \<Rightarrow> (False, p)
         | Some i \<Rightarrow>
             (let p = set_path p i ((pn_path p ! i)\<lparr>pa_acked := True, pa_token := 0\<rparr>) in
              (True, if pn_state p = ST_DIRECT \<and> int i = pn_chosen p then p\<lparr>pn_last_ack_ms := now\<rparr> else p))))"

definition on_peer_probe :: "punch \<Rightarrow> cand \<Rightarrow> u32 \<Rightarrow> int \<times> punch" where
  "on_peer_probe p from_addr now =
     (if \<not> fam_ok (cd_fam from_addr) then (- 1, p)
      else
        (case find_cand p from_addr of
           Some i \<Rightarrow> (int i, set_path p i ((pn_path p ! i)\<lparr>pa_heard := True\<rparr>))
         | None \<Rightarrow>
             if pn_n p \<ge> MAX_CANDS then (- 1, p)
             else
               (let p = push_path p (path0\<lparr>pa_cand := from_addr, pa_heard := True\<rparr>);
                    p = (if pn_state p = ST_IDLE then start_probing p now else p) in
                (int (pn_n p) - 1, p))))"

definition forget_paths :: "punch \<Rightarrow> path list" where
  "forget_paths p =
     map (\<lambda>t. t\<lparr>pa_acked := False, pa_heard := False, pa_token := 0\<rparr>) (take (pn_n p) (pn_path p)) @ drop (pn_n p) (pn_path p)"

definition punch_tick :: "punch \<Rightarrow> u32 \<Rightarrow> punch_event \<times> punch" where
  "punch_tick p now =
     (if pn_forced p then (EV_NONE, p)
      else if pn_state p = ST_DIRECT then
        (if pn_chosen p \<ge> 0 \<and> \<not> elapsed now (pn_last_ack_ms p) DEAD_MS then (EV_NONE, p)
         else (EV_DEMOTED, p\<lparr>pn_state := ST_PROBING, pn_chosen := - 1, pn_path := forget_paths p, pn_started_ms := now,
                             pn_last_probe_ms := now - FAST_MS, pn_demotions := pn_demotions p + 1\<rparr>))
      else if pn_state p \<noteq> ST_PROBING then (EV_NONE, p)
      else
        (case find (\<lambda>i. pa_acked (pn_path p ! i) \<and> pa_heard (pn_path p ! i)) [0..<pn_n p] of
           None \<Rightarrow> (EV_NONE, p)
         | Some i \<Rightarrow> (EV_PROMOTED, p\<lparr>pn_state := ST_DIRECT, pn_chosen := int i, pn_last_ack_ms := now, pn_promoted_ms := now,
                                     pn_promotions := pn_promotions p + 1\<rparr>)))"

definition direct_target :: "punch \<Rightarrow> cand option" where
  "direct_target p =
     (if pn_state p \<noteq> ST_DIRECT \<or> pn_chosen p < 0 \<or> pn_chosen p \<ge> int (pn_n p) then None
      else Some (pa_cand (pn_path p ! nat (pn_chosen p))))"

definition set_forced :: "punch \<Rightarrow> bool \<Rightarrow> u32 \<Rightarrow> punch" where
  "set_forced p forced_on now =
     (if pn_forced p = forced_on then p
      else
        (let p = p\<lparr>pn_forced := forced_on\<rparr> in
         if \<not> forced_on then p
         else p\<lparr>pn_demotions := (if pn_state p = ST_DIRECT then pn_demotions p + 1 else pn_demotions p), pn_state := ST_IDLE,
                pn_chosen := - 1, pn_n := 0, pn_last_probe_ms := now\<rparr>))"

text \<open>
  What happens to a pair, and the trace of a run: every input with the probes it made the pair send, each as the address
  it went to and its token.
\<close>

datatype punch_input =
  Learn "cand list option" u32 | Pump u32 nat | Echo u64 u32 | Peer cand u32 | Tick u32 | Force bool u32

type_synonym sends = "(cand \<times> u64) list"

fun punch_step :: "punch_input \<Rightarrow> punch \<Rightarrow> sends \<times> punch" where
  "punch_step (Learn cs now) p = ([], snd (add_cands p cs now))"
| "punch_step (Pump now cap) p =
     (case due_probes p now cap of (out, q) \<Rightarrow> (map (\<lambda>(i, t). (pa_cand (pn_path q ! i), t)) out, q))"
| "punch_step (Echo t now) p = ([], snd (punch_on_ack p t now))"
| "punch_step (Peer c now) p = ([], snd (on_peer_probe p c now))"
| "punch_step (Tick now) p = ([], snd (punch_tick p now))"
| "punch_step (Force b now) p = ([], set_forced p b now)"

fun punch_run :: "punch_input list \<Rightarrow> punch \<Rightarrow> (punch_input \<times> sends) list \<times> punch" where
  "punch_run [] p = ([], p)"
| "punch_run (e # es) p =
     (case punch_step e p of (out, q) \<Rightarrow> (case punch_run es q of (tr, r) \<Rightarrow> ((e, out) # tr, r)))"

subsection \<open>First hits\<close>

lemma find_upt_Some: "find P [0..<n] = Some i \<Longrightarrow> i < n \<and> P i"
  by (auto simp: find_Some_iff)

lemma find_upt_None: "find P [0..<n] = None \<Longrightarrow> i < n \<Longrightarrow> \<not> P i"
  by (auto simp: find_None_iff)

lemma find_upt_unique: "i < n \<Longrightarrow> P i \<Longrightarrow> (\<And>j. j < n \<Longrightarrow> P j \<Longrightarrow> j = i) \<Longrightarrow> find P [0..<n] = Some i"
  by (cases "find P [0..<n]") (metis find_upt_None, metis find_upt_Some)

subsection \<open>The table\<close>

text \<open>
  The invariant of the table, over a predicate \<open>R\<close> of single paths: the addresses differ pairwise, the chosen path exists
  and is proven both ways, a pinned pair is not direct, and every path in use satisfies \<open>R\<close>.
\<close>

definition table_ok :: "(path \<Rightarrow> bool) \<Rightarrow> punch \<Rightarrow> bool" where
  "table_ok R p =
     (length (pn_path p) = MAX_CANDS \<and> pn_n p \<le> MAX_CANDS
      \<and> (\<forall>i < pn_n p. \<forall>j < pn_n p. cand_key (pa_cand (pn_path p ! i)) = cand_key (pa_cand (pn_path p ! j)) \<longrightarrow> i = j)
      \<and> (pn_state p = ST_DIRECT \<longrightarrow> \<not> pn_forced p \<and> 0 \<le> pn_chosen p \<and> pn_chosen p < int (pn_n p)
           \<and> pa_acked (pn_path p ! nat (pn_chosen p)) \<and> pa_heard (pn_path p ! nat (pn_chosen p)))
      \<and> (\<forall>i < pn_n p. R (pn_path p ! i)))"

lemma table_ok_mono: "table_ok R p \<Longrightarrow> (\<And>t. R t \<Longrightarrow> R' t) \<Longrightarrow> table_ok R' p"
  by (simp add: table_ok_def)

lemma table_okD:
  assumes "table_ok R p"
  shows "length (pn_path p) = MAX_CANDS" "pn_n p \<le> MAX_CANDS" "i < pn_n p \<Longrightarrow> R (pn_path p ! i)"
  using assms by (simp_all add: table_ok_def)

lemma push_path_ok:
  assumes "table_ok R p" "pn_n p < MAX_CANDS" "\<And>j. j < pn_n p \<Longrightarrow> cand_key (pa_cand (pn_path p ! j)) \<noteq> cand_key (pa_cand t)" "R t"
  shows "table_ok R (push_path p t)"
proof -
  have n: "pn_n p < length (pn_path p)" using assms(1,2) by (simp add: table_ok_def)
  have at: "(pn_path p)[pn_n p := t] ! j = (if j = pn_n p then t else pn_path p ! j)" for j
    using n by (simp add: nth_list_update)
  have "nat (pn_chosen p) \<noteq> pn_n p" if "0 \<le> pn_chosen p" "pn_chosen p < int (pn_n p)" using that by simp
  moreover have "cand_key (pa_cand t) \<noteq> cand_key (pa_cand (pn_path p ! j))" if "j < pn_n p" for j
    using assms(3) [OF that] by simp
  ultimately show ?thesis
    using assms unfolding table_ok_def push_path_def by (simp add: at less_Suc_eq all_conj_distrib) auto
qed

lemma set_path_ok:
  assumes "table_ok R p" "i < pn_n p" "cand_key (pa_cand t) = cand_key (pa_cand (pn_path p ! i))"
    "pa_acked (pn_path p ! i) \<Longrightarrow> pa_acked t" "pa_heard (pn_path p ! i) \<Longrightarrow> pa_heard t" "R t"
  shows "table_ok R (set_path p i t)"
proof -
  have "i < length (pn_path p)" using assms(1,2) by (simp add: table_ok_def)
  then have at: "(pn_path p)[i := t] ! j = (if j = i then t else pn_path p ! j)" for j
    by (simp add: nth_list_update)
  have key: "cand_key (pa_cand ((pn_path p)[i := t] ! j)) = cand_key (pa_cand (pn_path p ! j))" for j
    using assms(3) by (simp add: at)
  have flag: "pa_acked (pn_path p ! j) \<Longrightarrow> pa_acked ((pn_path p)[i := t] ! j)"
    "pa_heard (pn_path p ! j) \<Longrightarrow> pa_heard ((pn_path p)[i := t] ! j)" for j
    using assms(4,5) by (auto simp: at)
  have R: "R (pn_path p ! j) \<Longrightarrow> R ((pn_path p)[i := t] ! j)" for j
    using assms(6) by (simp add: at)
  show ?thesis
    using assms(1) flag R unfolding table_ok_def set_path_def by (simp add: key)
qed

lemma table_ok_frame [simp]:
  "table_ok R (p\<lparr>pn_last_probe_ms := a\<rparr>) = table_ok R p" "table_ok R (p\<lparr>pn_next_token := t\<rparr>) = table_ok R p"
  "table_ok R (p\<lparr>pn_last_ack_ms := a\<rparr>) = table_ok R p" "table_ok R (p\<lparr>pn_started_ms := a\<rparr>) = table_ok R p"
  by (simp_all add: table_ok_def)

lemma set_path_frame [simp]:
  "pn_state (set_path p i t) = pn_state p" "pn_n (set_path p i t) = pn_n p" "pn_forced (set_path p i t) = pn_forced p"
  "pn_last_ack_ms (set_path p i t) = pn_last_ack_ms p" "pn_chosen (set_path p i t) = pn_chosen p"
  "pn_path (set_path p i t) = (pn_path p)[i := t]" "pn_next_token (set_path p i t) = pn_next_token p"
  by (simp_all add: set_path_def)

lemma push_path_frame [simp]:
  "pn_state (push_path p t) = pn_state p" "pn_n (push_path p t) = pn_n p + 1" "pn_forced (push_path p t) = pn_forced p"
  "pn_last_ack_ms (push_path p t) = pn_last_ack_ms p" "pn_path (push_path p t) = (pn_path p)[pn_n p := t]"
  by (simp_all add: push_path_def)

lemma start_probing_ok: "table_ok R p \<Longrightarrow> table_ok R (start_probing p now)"
  by (simp add: table_ok_def start_probing_def)

lemma find_cand_Some: "find_cand p c = Some j \<Longrightarrow> j < pn_n p \<and> cand_key (pa_cand (pn_path p ! j)) = cand_key c"
  unfolding find_cand_def by (auto dest: find_upt_Some simp: cand_eq_key)

lemma find_cand_None: "find_cand p c = None \<Longrightarrow> j < pn_n p \<Longrightarrow> cand_key (pa_cand (pn_path p ! j)) \<noteq> cand_key c"
  unfolding find_cand_def by (auto dest: find_upt_None simp: cand_eq_key)

lemma find_cand_the:
  assumes "table_ok R p" "i < pn_n p" "cand_key (pa_cand (pn_path p ! i)) = cand_key c"
  shows "find_cand p c = Some i"
  unfolding find_cand_def using assms by (intro find_upt_unique) (auto simp: cand_eq_key table_ok_def)

subsection \<open>Every operation keeps the table\<close>

lemma add_loop_ok:
  assumes "table_ok R p" "\<And>x f. R x \<Longrightarrow> R (x\<lparr>pa_cand := (pa_cand x)\<lparr>cd_flags := f\<rparr>\<rparr>)" "\<And>c. R (path0\<lparr>pa_cand := c\<rparr>)"
  shows "table_ok R (fst (add_loop cs p k))"
  using assms
proof (induction cs p k rule: add_loop.induct)
  case (2 c cs p k)
  note ok = \<open>table_ok R p\<close>
  have merge: "table_ok R (set_path p j ((pn_path p ! j)\<lparr>pa_cand := (pa_cand (pn_path p ! j))\<lparr>cd_flags := f\<rparr>\<rparr>))"
    if "find_cand p c = Some j" for j f
    using ok find_cand_Some [OF that] 2(5) by (intro set_path_ok) (simp_all add: table_okD)
  have new: "table_ok R (push_path p (path0\<lparr>pa_cand := c\<rparr>))" if "find_cand p c = None" "pn_n p < MAX_CANDS"
    using ok that find_cand_None [OF that(1)] 2(6) by (intro push_path_ok) simp_all
  show ?case using 2(1-3) merge new ok 2(5,6)
    by (auto simp: Let_def split: option.split)
qed simp

lemma add_loop_frame: "pn_state (fst (add_loop cs p k)) = pn_state p \<and> pn_forced (fst (add_loop cs p k)) = pn_forced p
    \<and> pn_last_ack_ms (fst (add_loop cs p k)) = pn_last_ack_ms p"
  by (induction cs p k rule: add_loop.induct) (auto simp: Let_def split: option.split)

lemma add_cands_ok:
  assumes "table_ok R p" "\<And>x f. R x \<Longrightarrow> R (x\<lparr>pa_cand := (pa_cand x)\<lparr>cd_flags := f\<rparr>\<rparr>)" "\<And>c. R (path0\<lparr>pa_cand := c\<rparr>)"
  shows "table_ok R (snd (add_cands p cs now))"
  using assms(1) add_loop_ok [OF assms]
  by (auto simp: add_cands_def start_probing_ok split: option.split prod.split) (metis fst_conv start_probing_ok)+

text \<open>Sending the probes \<open>out\<close> keeps \<open>R\<close>: a path with the address of the probed one satisfies it with the new token too.\<close>

definition probes_keep :: "(path \<Rightarrow> bool) \<Rightarrow> punch \<Rightarrow> u32 \<Rightarrow> (nat \<times> u64) list \<Rightarrow> bool" where
  "probes_keep R p now out =
     (\<forall>i tok x. (i, tok) \<in> set out \<longrightarrow> pa_cand x = pa_cand (pn_path p ! i) \<longrightarrow> R x
        \<longrightarrow> R (x\<lparr>pa_token := tok, pa_sent_ms := now\<rparr>))"

definition same_but_probed :: "punch \<Rightarrow> punch \<Rightarrow> bool" where
  "same_but_probed p q =
     (pn_n q = pn_n p \<and> pn_state q = pn_state p \<and> pn_forced q = pn_forced p \<and> pn_last_ack_ms q = pn_last_ack_ms p
      \<and> (\<forall>i. pa_cand (pn_path q ! i) = pa_cand (pn_path p ! i)))"

lemma probe_path_same:
  assumes "probe_path p i now = (t, q)" "i < length (pn_path p)"
  shows "same_but_probed p q"
proof -
  have "pa_cand (pn_path q ! j) = pa_cand (pn_path p ! j)" for j
    using assms by (auto simp: probe_path_def nth_list_update split: prod.splits)
  then show ?thesis using assms(1) by (auto simp: probe_path_def same_but_probed_def split: prod.splits)
qed

lemma probe_path_ok:
  assumes "probe_path p i now = (t, q)" "table_ok R p" "i < pn_n p" "probes_keep R p now [(i, t)]"
  shows "table_ok R q"
proof -
  from assms(1) obtain n where q: "q = set_path (p\<lparr>pn_next_token := n\<rparr>) i ((pn_path p ! i)\<lparr>pa_token := t, pa_sent_ms := now\<rparr>)"
    by (auto simp: probe_path_def split: prod.splits)
  have "R ((pn_path p ! i)\<lparr>pa_token := t, pa_sent_ms := now\<rparr>)"
    using assms(4) table_okD(3) [OF assms(2,3)] by (simp add: probes_keep_def)
  then show ?thesis unfolding q using assms(2,3) by (intro set_path_ok) simp_all
qed

lemma probe_loop_ok:
  assumes "probe_loop is p now = (out, q)" "table_ok R p" "set is \<subseteq> {..< pn_n p}" "probes_keep R p now out"
  shows "table_ok R q \<and> map fst out = is \<and> same_but_probed p q"
  using assms
proof (induction "is" arbitrary: p out)
  case (Cons i "is")
  obtain t p1 where one: "probe_path p i now = (t, p1)" by fastforce
  obtain out' where rest: "probe_loop is p1 now = (out', q)" and out: "out = (i, t) # out'"
    using Cons.prems(1) one by (auto split: prod.splits)
  have i: "i < pn_n p" "i < length (pn_path p)"
    using Cons.prems(3) table_okD(1,2) [OF Cons.prems(2)] by simp_all
  note same = probe_path_same [OF one i(2)]
  have "table_ok R p1"
    using Cons.prems(4) by (intro probe_path_ok [OF one Cons.prems(2) i(1)]) (simp add: out probes_keep_def)
  moreover have "probes_keep R p1 now out'"
    using Cons.prems(4) same unfolding probes_keep_def same_but_probed_def out by simp
  ultimately have "table_ok R q \<and> map fst out' = is \<and> same_but_probed p1 q"
    using Cons.prems(3) same by (intro Cons.IH [OF rest]) (simp_all add: same_but_probed_def)
  with same show ?case by (simp add: out same_but_probed_def)
qed (simp add: same_but_probed_def)

lemma due_probes_ok:
  assumes "due_probes p now cap = (out, q)" "table_ok R p" "probes_keep R p now out"
  shows "table_ok R q \<and> same_but_probed p q"
proof -
  have loop: ?thesis if "probe_loop is (p\<lparr>pn_last_probe_ms := now\<rparr>) now = (out, q)" "set is \<subseteq> {..< pn_n p}" for "is"
    using probe_loop_ok [OF that(1), of R] assms(2,3) that(2) by (simp add: probes_keep_def same_but_probed_def)
  have stay: ?thesis if "(out, q) = ([], p)"
    using that assms(2) by (simp add: same_but_probed_def)
  show ?thesis
  proof (cases "pn_forced p \<or> pn_n p = 0 \<or> cap = 0")
    case True
    then show ?thesis using assms(1) stay by (simp add: due_probes_def)
  next
    case working: False
    show ?thesis
    proof (cases "pn_state p = ST_DIRECT")
      case True
      then have "0 \<le> pn_chosen p" "nat (pn_chosen p) < pn_n p"
        using assms(2) by (auto simp: table_ok_def nat_less_iff)
      then show ?thesis
        using working True assms(1) stay loop [of "[nat (pn_chosen p)]"]
        by (simp add: due_probes_def del: probe_loop.simps split: if_splits)
    next
      case False
      have "set [0..<min (pn_n p) cap] \<subseteq> {..< pn_n p}" by auto
      then show ?thesis
        using False working assms(1) stay loop [of "[0..<min (pn_n p) cap]"]
        by (simp add: due_probes_def Let_def del: probe_loop.simps split: if_splits)
    qed
  qed
qed

lemma punch_on_ack_ok:
  assumes "table_ok R p" "\<And>x. pa_token x = tok \<Longrightarrow> tok \<noteq> 0 \<Longrightarrow> R x \<Longrightarrow> R (x\<lparr>pa_acked := True, pa_token := 0\<rparr>)"
  shows "table_ok R (snd (punch_on_ack p tok now))"
proof (cases "tok = 0 \<or> find (\<lambda>i. pa_token (pn_path p ! i) = tok) [0..<pn_n p] = None")
  case True
  then show ?thesis using assms(1) by (auto simp: punch_on_ack_def)
next
  case False
  then obtain i where i: "find (\<lambda>i. pa_token (pn_path p ! i) = tok) [0..<pn_n p] = Some i" by auto
  from find_upt_Some [OF this] have "i < pn_n p" "pa_token (pn_path p ! i) = tok" by auto
  then have "table_ok R (set_path p i ((pn_path p ! i)\<lparr>pa_acked := True, pa_token := 0\<rparr>))"
    using assms False table_okD(3) [OF assms(1)] by (intro set_path_ok) simp_all
  then show ?thesis using False i by (simp add: punch_on_ack_def Let_def)
qed

lemma on_peer_probe_ok:
  assumes "table_ok R p" "\<And>x. cand_key (pa_cand x) = cand_key c \<Longrightarrow> R x \<Longrightarrow> R (x\<lparr>pa_heard := True\<rparr>)"
    "R (path0\<lparr>pa_cand := c, pa_heard := True\<rparr>)"
  shows "table_ok R (snd (on_peer_probe p c now))"
proof (cases "find_cand p c")
  case None
  have "table_ok R (push_path p (path0\<lparr>pa_cand := c, pa_heard := True\<rparr>))" if "pn_n p < MAX_CANDS"
    using assms(1,3) that find_cand_None [OF None] by (intro push_path_ok) simp_all
  then show ?thesis using None assms(1) by (simp add: on_peer_probe_def Let_def start_probing_ok)
next
  case (Some i)
  note at = find_cand_Some [OF this]
  then have "table_ok R (set_path p i ((pn_path p ! i)\<lparr>pa_heard := True\<rparr>))"
    using assms(1,2) table_okD(3) [OF assms(1)] by (intro set_path_ok) simp_all
  then show ?thesis using Some assms(1) by (simp add: on_peer_probe_def)
qed

lemma forget_paths_ok:
  assumes "table_ok R p" "\<And>x. R x \<Longrightarrow> R' (x\<lparr>pa_acked := False, pa_heard := False, pa_token := 0\<rparr>)" "s \<noteq> ST_DIRECT"
  shows "table_ok R' (p\<lparr>pn_state := s, pn_chosen := c, pn_path := forget_paths p, pn_started_ms := a, pn_last_probe_ms := b, pn_demotions := d\<rparr>)"
proof -
  have "forget_paths p ! i = (pn_path p ! i)\<lparr>pa_acked := False, pa_heard := False, pa_token := 0\<rparr>" if "i < pn_n p" for i
    using that table_okD(1,2) [OF assms(1)] by (simp add: forget_paths_def nth_append)
  moreover have "length (forget_paths p) = length (pn_path p)"
    by (simp add: forget_paths_def)
  ultimately show ?thesis
    using assms unfolding table_ok_def by (auto simp del: One_nat_def)
qed

lemma punch_tick_ok:
  assumes "table_ok R p" "\<And>x. R x \<Longrightarrow> R (x\<lparr>pa_acked := False, pa_heard := False, pa_token := 0\<rparr>)"
  shows "table_ok R (snd (punch_tick p now))"
proof (cases "find (\<lambda>i. pa_acked (pn_path p ! i) \<and> pa_heard (pn_path p ! i)) [0..<pn_n p]")
  case None
  then show ?thesis using assms(1) forget_paths_ok [of R p R, OF assms] by (simp add: punch_tick_def)
next
  case (Some i)
  from find_upt_Some [OF this] assms(1)
  have "\<not> pn_forced p \<Longrightarrow> table_ok R (p\<lparr>pn_state := ST_DIRECT, pn_chosen := int i, pn_last_ack_ms := now, pn_promoted_ms := now,
      pn_promotions := pn_promotions p + 1\<rparr>)"
    by (simp add: table_ok_def)
  then show ?thesis using Some assms(1) forget_paths_ok [of R p R, OF assms] by (simp add: punch_tick_def)
qed

lemma set_forced_ok: "table_ok R p \<Longrightarrow> table_ok R (set_forced p b now)"
  by (auto simp: table_ok_def set_forced_def Let_def)

lemma punch_reset_ok: "table_ok R (punch_reset seed)"
  by (simp add: table_ok_def punch_reset_def)

text \<open>Only \<open>punch_tick\<close> and \<open>set_forced\<close> change whether a pair is direct, and only an echo or a promotion its last sign of life.\<close>

lemma punch_frame:
  "pn_state (snd (add_cands p cs now)) = ST_DIRECT \<longleftrightarrow> pn_state p = ST_DIRECT"
  "pn_last_ack_ms (snd (add_cands p cs now)) = pn_last_ack_ms p"
  "pn_state (snd (punch_on_ack p t now)) = pn_state p"
  "pn_state (snd (on_peer_probe p c now)) = ST_DIRECT \<longleftrightarrow> pn_state p = ST_DIRECT"
  "pn_last_ack_ms (snd (on_peer_probe p c now)) = pn_last_ack_ms p"
  using add_loop_frame [of "the cs" p 0]
  by (auto simp: add_cands_def punch_on_ack_def on_peer_probe_def start_probing_def Let_def split: option.split prod.split)

subsection \<open>A direct path is proven\<close>

text \<open>
  What a trace shows of an address: a probe with that token went to it; the echo of such a probe came back after it was
  sent; a probe of the peer's own came from it.
\<close>

definition sent_to :: "(punch_input \<times> sends) list \<Rightarrow> cand \<Rightarrow> u64 \<Rightarrow> bool" where
  "sent_to tr c t = (\<exists>e out c'. (e, out) \<in> set tr \<and> (c', t) \<in> set out \<and> cand_eq c' c)"

definition answered :: "(punch_input \<times> sends) list \<Rightarrow> cand \<Rightarrow> bool" where
  "answered tr c = (\<exists>before t now out after. tr = before @ (Echo t now, out) # after \<and> sent_to before c t)"

definition heard_from :: "(punch_input \<times> sends) list \<Rightarrow> cand \<Rightarrow> bool" where
  "heard_from tr c = (\<exists>c' now out. (Peer c' now, out) \<in> set tr \<and> cand_eq c' c)"

text \<open>A pair that searches: it is not direct, and no path has a credit or a probe in flight.  So it is after a reset and after a demotion.\<close>

definition searching :: "punch \<Rightarrow> bool" where
  "searching p = (pn_state p \<noteq> ST_DIRECT \<and> table_ok (\<lambda>t. \<not> pa_acked t \<and> \<not> pa_heard t \<and> pa_token t = 0) p)"

definition backed :: "(punch_input \<times> sends) list \<Rightarrow> path \<Rightarrow> bool" where
  "backed tr t =
     ((pa_token t \<noteq> 0 \<longrightarrow> sent_to tr (pa_cand t) (pa_token t)) \<and> (pa_acked t \<longrightarrow> answered tr (pa_cand t))
      \<and> (pa_heard t \<longrightarrow> heard_from tr (pa_cand t)))"

lemma sent_to_append: "sent_to (tr @ tr') c t = (sent_to tr c t \<or> sent_to tr' c t)"
  by (auto simp: sent_to_def)

lemma heard_from_append: "heard_from (tr @ tr') c = (heard_from tr c \<or> heard_from tr' c)"
  unfolding heard_from_def set_append Un_iff by blast

lemma answered_append: "answered tr c \<Longrightarrow> answered (tr @ tr') c"
  unfolding answered_def by (metis append_Cons append_assoc)

lemma answered_echo: "sent_to tr c t \<Longrightarrow> answered (tr @ [(Echo t now, out)]) c"
  unfolding answered_def by blast

lemma backed_append: "backed tr t \<Longrightarrow> backed (tr @ tr') t"
  by (auto simp: backed_def sent_to_append heard_from_append answered_append)

lemma key_cong:
  assumes "cand_key c = cand_key d"
  shows "sent_to tr c t = sent_to tr d t" "answered tr c = answered tr d" "heard_from tr c = heard_from tr d"
  using assms by (simp_all add: sent_to_def answered_def heard_from_def cand_eq_key)

lemma backed_flags: "backed tr x \<Longrightarrow> backed tr (x\<lparr>pa_cand := (pa_cand x)\<lparr>cd_flags := f\<rparr>\<rparr>)"
  using key_cong [of "(pa_cand x)\<lparr>cd_flags := f\<rparr>" "pa_cand x"] by (simp add: backed_def)

lemma backed_push: "heard_from tr c \<or> \<not> h \<Longrightarrow> backed tr (path0\<lparr>pa_cand := c, pa_heard := h\<rparr>)"
  by (auto simp: backed_def path0_def)

lemma backed_new: "backed tr (path0\<lparr>pa_cand := c\<rparr>)"
  by (simp add: backed_def path0_def)

lemma backed_heard:
  assumes "backed tr x" "heard_from tr c" "cand_key (pa_cand x) = cand_key c"
  shows "backed tr (x\<lparr>pa_heard := True\<rparr>)"
  using assms key_cong(3) [OF assms(3)] by (simp add: backed_def)

lemma backed_acked:
  assumes "backed (tr @ [(Echo t now, [])]) x" "pa_token x = t" "t \<noteq> 0"
  shows "backed (tr @ [(Echo t now, [])]) (x\<lparr>pa_acked := True, pa_token := 0\<rparr>)"
proof -
  have "sent_to tr (pa_cand x) t" using assms by (auto simp: backed_def sent_to_append sent_to_def)
  then show ?thesis using assms(1) answered_echo by (simp add: backed_def)
qed

lemma backed_probed:
  assumes "due_probes p now cap = (ps, q)" "table_ok R p"
  shows "probes_keep (backed (tr @ [(e, map (\<lambda>(i, t). (pa_cand (pn_path q ! i), t)) ps)])) p now ps"
proof -
  have "same_but_probed p q"
    using due_probes_ok [OF assms(1), of "\<lambda>_. True"] table_ok_mono [OF assms(2), of "\<lambda>_. True"] by (simp add: probes_keep_def)
  then have cand: "pa_cand (pn_path q ! i) = pa_cand (pn_path p ! i)" for i by (simp add: same_but_probed_def)
  have "sent_to (tr @ [(e, map (\<lambda>(i, t). (pa_cand (pn_path q ! i), t)) ps)]) (pa_cand (pn_path p ! i)) tok"
    if "(i, tok) \<in> set ps" for i tok
  proof -
    have "(pa_cand (pn_path p ! i), tok) \<in> set (map (\<lambda>(i, t). (pa_cand (pn_path q ! i), t)) ps)"
      using that by (force simp: cand)
    moreover have "(e, out) \<in> set (tr @ [(e, out)])" for out :: sends by simp
    ultimately show ?thesis unfolding sent_to_def cand_eq_key by blast
  qed
  then show ?thesis by (simp add: probes_keep_def backed_def)
qed

lemma punch_step_backed:
  assumes "table_ok (backed tr) p" "punch_step e p = (out, q)"
  shows "table_ok (backed (tr @ [(e, out)])) q"
proof -
  let ?R = "backed (tr @ [(e, out)])"
  have ok: "table_ok ?R p" using assms(1) by (rule table_ok_mono) (rule backed_append)
  show ?thesis
  proof (cases e)
    case (Learn cs now)
    have "table_ok ?R (snd (add_cands p cs now))" using ok by (rule add_cands_ok) (fact backed_flags, fact backed_new)
    then show ?thesis using assms(2) Learn by simp
  next
    case (Pump now cap)
    then obtain ps where due: "due_probes p now cap = (ps, q)" and out: "out = map (\<lambda>(i, t). (pa_cand (pn_path q ! i), t)) ps"
      using assms(2) by (auto split: prod.splits)
    show ?thesis using due_probes_ok [OF due ok] backed_probed [OF due ok, of tr e] by (simp add: out)
  next
    case (Echo t now)
    with assms(2) have out: "out = []" and q: "q = snd (punch_on_ack p t now)" by simp_all
    show ?thesis unfolding q using ok by (rule punch_on_ack_ok) (simp add: out Echo backed_acked)
  next
    case (Peer c now)
    with assms(2) have q: "q = snd (on_peer_probe p c now)" by simp
    have heard: "heard_from (tr @ [(e, out)]) c" by (auto simp: heard_from_append heard_from_def Peer cand_eq_key)
    show ?thesis unfolding q using ok
      by (rule on_peer_probe_ok) (use heard in \<open>simp_all add: backed_heard backed_push\<close>)
  next
    case (Tick now)
    with assms(2) have q: "q = snd (punch_tick p now)" by simp
    show ?thesis unfolding q using ok by (rule punch_tick_ok) (simp add: backed_def)
  next
    case (Force b now)
    with assms(2) have q: "q = set_forced p b now" by simp
    show ?thesis unfolding q using ok by (rule set_forced_ok)
  qed
qed

lemma punch_run_backed:
  "table_ok (backed tr) p \<Longrightarrow> punch_run es p = (tr', q) \<Longrightarrow> table_ok (backed (tr @ tr')) q"
proof (induction es arbitrary: tr p tr')
  case (Cons e es)
  obtain out p1 where one: "punch_step e p = (out, p1)" by fastforce
  obtain tr1 where rest: "punch_run es p1 = (tr1, q)" and tr': "tr' = (e, out) # tr1"
    using Cons.prems(2) one by (auto split: prod.splits)
  from Cons.IH [OF punch_step_backed [OF Cons.prems(1) one] rest] show ?case by (simp add: tr')
qed simp

lemma reset_searches: "searching (punch_reset seed)"
  by (simp add: searching_def punch_reset_ok) (simp add: punch_reset_def)

lemma demotion_searches:
  assumes "table_ok R p" "punch_tick p now = (EV_DEMOTED, q)"
  shows "searching q"
  using assms(2) forget_paths_ok [of R p "\<lambda>t. \<not> pa_acked t \<and> \<not> pa_heard t \<and> pa_token t = 0", OF assms(1)]
  by (auto simp: punch_tick_def searching_def split: if_splits option.splits)

text \<open>C34. A pair that searches - as it does after \<open>reset\<close> (\<open>reset_searches\<close>) and after every demotion (\<open>demotion_searches\<close>) -
  goes direct only to a proven address: whatever the pair learns, sends and receives from there on, if \<open>direct_target\<close> then
  names an address, a probe went to it and the echo of that very probe's token came back after it was sent, a probe of the
  peer's own came from it, and the pair is not pinned to the relay.\<close>

theorem direct_path_is_proven:
  assumes "searching p" "punch_run es p = (tr, q)" "direct_target q = Some c"
  shows "answered tr c \<and> heard_from tr c \<and> \<not> pn_forced q"
proof -
  have "table_ok (backed []) p"
    using assms(1) unfolding searching_def by (auto intro: table_ok_mono simp: backed_def)
  from punch_run_backed [OF this assms(2)] have ok: "table_ok (backed tr) q" by simp
  from assms(3) have "pn_state q = ST_DIRECT" "c = pa_cand (pn_path q ! nat (pn_chosen q))"
    by (auto simp: direct_target_def split: if_splits)
  moreover from this ok have "nat (pn_chosen q) < pn_n q" by (auto simp: table_ok_def nat_less_iff)
  ultimately show ?thesis using ok table_okD(3) [OF ok] by (auto simp: table_ok_def backed_def)
qed

definition a_cand :: cand where
  "a_cand = \<lparr>cd_fam = FAM_V4, cd_flags = 1, cd_port = 6114, cd_addr = [192, 0, 2, 7] @ replicate 12 0\<rparr>"

definition a_punch :: "punch_input list" where
  "a_punch = [Learn (Some [a_cand]) 5, Pump 5 8, Peer a_cand 20, Echo 9 40, Tick 41]"

lemma direct_path_is_proven_witness:
  "searching (punch_reset 9) \<and> direct_target (snd (punch_run a_punch (punch_reset 9))) = Some a_cand
   \<and> answered (fst (punch_run a_punch (punch_reset 9))) a_cand"
proof -
  have "direct_target (snd (punch_run a_punch (punch_reset 9))) = Some a_cand" by code_simp
  with direct_path_is_proven [OF reset_searches prod.collapse [symmetric] this] show ?thesis by (simp add: reset_searches)
qed

subsection \<open>Only an echo keeps a path\<close>

text \<open>The last sign of life is \<open>a\<close>, or the pair is not direct and no path is acknowledged.\<close>

definition fading :: "u32 \<Rightarrow> punch \<Rightarrow> bool" where
  "fading a p =
     (if pn_state p = ST_DIRECT then table_ok (\<lambda>_. True) p \<and> pn_last_ack_ms p = a else table_ok (\<lambda>t. \<not> pa_acked t) p)"

lemma fading_cases:
  "fading a p \<longleftrightarrow> table_ok (\<lambda>t. pn_state p = ST_DIRECT \<or> \<not> pa_acked t) p \<and> (pn_state p = ST_DIRECT \<longrightarrow> pn_last_ack_ms p = a)"
  by (simp add: fading_def)

lemma not_acked_not_promoted:
  assumes "table_ok (\<lambda>t. \<not> pa_acked t) p" "pn_state p \<noteq> ST_DIRECT"
  shows "punch_tick p now = (EV_NONE, p)"
proof -
  have "find (\<lambda>i. pa_acked (pn_path p ! i) \<and> pa_heard (pn_path p ! i)) [0..<pn_n p] = None"
    using table_okD(3) [OF assms(1)] by (auto simp: find_None_iff)
  then show ?thesis using assms(2) by (simp add: punch_tick_def)
qed

lemma tick_fading:
  assumes "fading a p"
  shows "fading a (snd (punch_tick p now))"
proof (cases "pn_state p = ST_DIRECT")
  case True
  with assms have "table_ok (\<lambda>_. True) p" by (simp add: fading_def)
  note forget_paths_ok [of "\<lambda>_. True" p "\<lambda>t. \<not> pa_acked t", OF this]
  with True assms show ?thesis by (simp add: punch_tick_def fading_def)
next
  case False
  with assms not_acked_not_promoted show ?thesis by (simp add: fading_def)
qed

lemma punch_step_fading:
  assumes "fading a p" "\<And>t now. e \<noteq> Echo t now"
  shows "fading a (snd (punch_step e p))"
proof (cases e)
  case (Learn cs now)
  with assms(1) show ?thesis by (auto simp: fading_cases punch_frame path0_def intro!: add_cands_ok)
next
  case (Pump now cap)
  obtain ps q where due: "due_probes p now cap = (ps, q)" by fastforce
  show ?thesis
    using due_probes_ok [OF due, of "\<lambda>t. pn_state p = ST_DIRECT \<or> \<not> pa_acked t"] assms(1)
    by (simp add: Pump due fading_cases probes_keep_def same_but_probed_def)
next
  case (Peer c now)
  with assms(1) show ?thesis by (auto simp: fading_cases punch_frame path0_def intro!: on_peer_probe_ok)
next
  case (Tick now)
  with assms(1) show ?thesis by (simp add: tick_fading)
next
  case (Force b now)
  show ?thesis
  proof (cases "pn_forced p = b \<or> \<not> b")
    case True
    then show ?thesis using assms(1) by (auto simp: Force set_forced_def fading_def table_ok_def)
  next
    case False
    then show ?thesis using assms(1) by (simp add: Force set_forced_def Let_def fading_def table_ok_def split: if_splits)
  qed
qed (use assms(2) in blast)

lemma punch_run_fading:
  "fading a p \<Longrightarrow> (\<And>t now. Echo t now \<notin> set es) \<Longrightarrow> fading a (snd (punch_run es p))"
proof (induction es arbitrary: p)
  case (Cons e es)
  then have "fading a (snd (punch_run es (snd (punch_step e p))))"
    by (intro Cons.IH punch_step_fading) auto
  then show ?case by (simp split: prod.split) (metis snd_conv)
qed simp

text \<open>C35. While a pair is direct, the echo of its own probe is the only thing that renews the path: from a pair that is direct,
  whatever it learns, sends and receives without an echo - the peer's probes from the chosen address included - the next
  \<open>tick\<close> that comes \<open>DEAD_MS\<close> or more after \<open>last_ack_ms\<close> leaves it on the relay.  (\<open>last_ack_ms\<close> is the time of the
  last echo on the chosen path, or of the promotion if none came since, however old the echo was that promoted it.)\<close>

theorem only_echoes_keep_a_path:
  assumes "punch_run es0 (punch_reset seed) = (tr, p)" "pn_state p = ST_DIRECT" "\<forall>t a. Echo t a \<notin> set es"
    "elapsed now (pn_last_ack_ms p) DEAD_MS"
  shows "direct_target (snd (punch_tick (snd (punch_run es p)) now)) = None"
proof -
  have "table_ok (backed []) (punch_reset seed)" by (rule punch_reset_ok)
  from punch_run_backed [OF this assms(1)] have "table_ok (\<lambda>_. True) p" by (auto intro: table_ok_mono)
  with assms(2) have "fading (pn_last_ack_ms p) p" by (simp add: fading_def)
  with assms(3) have fade: "fading (pn_last_ack_ms p) (snd (punch_run es p))" by (intro punch_run_fading) auto
  show ?thesis
  proof (cases "pn_state (snd (punch_run es p)) = ST_DIRECT")
    case True
    with fade assms(4) show ?thesis by (simp add: fading_def punch_tick_def direct_target_def table_ok_def)
  next
    case False
    with fade not_acked_not_promoted show ?thesis by (simp add: fading_def direct_target_def)
  qed
qed

lemma only_echoes_keep_a_path_witness:
  "direct_target (snd (punch_run a_punch (punch_reset 9))) = Some a_cand
   \<and> direct_target (snd (punch_tick (snd (punch_run [Peer a_cand 3000, Pump 3000 8, Learn (Some [a_cand]) 3020]
        (snd (punch_run a_punch (punch_reset 9))))) 3041)) = None"
proof -
  have "direct_target (snd (punch_run a_punch (punch_reset 9))) = Some a_cand" by code_simp
  moreover have "pn_state (snd (punch_run a_punch (punch_reset 9))) = ST_DIRECT" by code_simp
  moreover have "elapsed 3041 (pn_last_ack_ms (snd (punch_run a_punch (punch_reset 9)))) DEAD_MS" by code_simp
  ultimately show ?thesis
    using only_echoes_keep_a_path [OF prod.collapse [symmetric], where es = "[Peer a_cand 3000, Pump 3000 8, Learn (Some [a_cand]) 3020]"]
    by simp
qed

subsection \<open>An answered probe promotes\<close>

lemma fresh_token_step:
  assumes "fresh_token n = (t, n')"
  obtains d where "t = n + of_nat d" "n' = n + of_nat (d + 1)" "d < 2" "t \<noteq> 0"
  using assms that [of 0] that [of 1] by (auto simp: fresh_token_def split: if_splits)

lemma probe_loop_offsets:
  "probe_loop is p now = (out, q) \<Longrightarrow>
     \<exists>offs. map snd out = map (\<lambda>k. pn_next_token p + of_nat k) offs \<and> sorted_wrt (<) offs
       \<and> (\<forall>k \<in> set offs. k < 2 * length is) \<and> 0 \<notin> snd ` set out"
proof (induction "is" arbitrary: p out)
  case (Cons i "is")
  obtain t n where f: "fresh_token (pn_next_token p) = (t, n)" by fastforce
  then obtain d where d: "t = pn_next_token p + of_nat d" "n = pn_next_token p + of_nat (d + 1)" "d < 2" "t \<noteq> 0"
    by (rule fresh_token_step)
  obtain p1 where one: "probe_path p i now = (t, p1)" and p1: "pn_next_token p1 = n"
    using f by (simp add: probe_path_def)
  obtain out' where rest: "probe_loop is p1 now = (out', q)" and out: "out = (i, t) # out'"
    using Cons.prems one by (auto split: prod.splits)
  from Cons.IH [OF rest] obtain offs where offs: "map snd out' = map (\<lambda>k. n + of_nat k) offs" "sorted_wrt (<) offs"
    "\<forall>k \<in> set offs. k < 2 * length is" "0 \<notin> snd ` set out'"
    unfolding p1 by blast
  have "map snd out = map (\<lambda>k. pn_next_token p + of_nat k) (d # map (\<lambda>k. d + 1 + k) offs)"
    using offs(1) by (simp add: out d(1,2) algebra_simps)
  moreover have "sorted_wrt (<) (d # map (\<lambda>k. d + 1 + k) offs)"
    using offs(2) by (simp add: sorted_wrt_map)
  moreover have "\<forall>k \<in> set (d # map (\<lambda>k. d + 1 + k) offs). k < 2 * length (i # is)"
    using offs(3) d(3) by auto
  moreover have "0 \<notin> snd ` set out" using offs(4) d(4) by (simp add: out)
  ultimately show ?case by blast
qed simp

lemma word_u64_inj:
  assumes "(of_nat a :: u64) = of_nat b" "a < 16" "b < 16"
  shows "a = b"
proof -
  have "unat (of_nat k :: u64) = k" if "k < 16" for k :: nat
    using that by (simp add: unat_of_nat)
  then show ?thesis using assms by metis
qed

lemma probe_loop_distinct:
  assumes "probe_loop is p now = (out, q)" "length is \<le> MAX_CANDS"
  shows "distinct (map snd out)"
proof -
  from probe_loop_offsets [OF assms(1)] obtain offs where offs: "map snd out = map (\<lambda>k. pn_next_token p + of_nat k) offs"
    "sorted_wrt (<) offs" "\<forall>k \<in> set offs. k < 2 * length is" by blast
  have small: "k < 16" if "k \<in> set offs" for k
  proof -
    have "k < 2 * length is" using offs(3) that by blast
    with assms(2) show ?thesis by (simp add: MAX_CANDS_def)
  qed
  have "inj_on (\<lambda>k. pn_next_token p + of_nat k) (set offs)"
  proof (rule inj_onI)
    fix a b assume ab: "a \<in> set offs" "b \<in> set offs" and eq: "pn_next_token p + of_nat a = pn_next_token p + of_nat b"
    from eq have "(of_nat a :: u64) = of_nat b" by (rule add_left_imp_eq)
    then show "a = b" using small [OF ab(1)] small [OF ab(2)] by (rule word_u64_inj)
  qed
  then show ?thesis using offs(2) [unfolded strict_sorted_iff] by (simp add: offs(1) distinct_map)
qed

lemma probe_loop_tokens:
  "probe_loop is p now = (out, q) \<Longrightarrow> distinct is \<Longrightarrow> set is \<subseteq> {..< length (pn_path p)} \<Longrightarrow>
     map fst out = is \<and> (\<forall>i t. (i, t) \<in> set out \<longrightarrow> pa_token (pn_path q ! i) = t)
     \<and> (\<forall>j. j \<notin> set is \<longrightarrow> pn_path q ! j = pn_path p ! j)"
proof (induction "is" arbitrary: p out)
  case (Cons i "is")
  obtain t p1 where one: "probe_path p i now = (t, p1)" by fastforce
  obtain out' where rest: "probe_loop is p1 now = (out', q)" and out: "out = (i, t) # out'"
    using Cons.prems(1) one by (auto split: prod.splits)
  have p1: "length (pn_path p1) = length (pn_path p)" "pa_token (pn_path p1 ! i) = t" "j \<noteq> i \<Longrightarrow> pn_path p1 ! j = pn_path p ! j" for j
    using one Cons.prems(3) by (auto simp: probe_path_def split: prod.splits)
  have ih: "map fst out' = is" "(j, u) \<in> set out' \<Longrightarrow> pa_token (pn_path q ! j) = u" "j \<notin> set is \<Longrightarrow> pn_path q ! j = pn_path p1 ! j" for j u
    using Cons.IH [OF rest] Cons.prems(2,3) p1(1) by auto
  have "pa_token (pn_path q ! i) = t" using ih(3) [of i] Cons.prems(2) p1(2) by simp
  then show ?case using ih p1(3) by (auto simp: out)
qed simp

text \<open>A probe of path \<open>i\<close> with the token \<open>t\<close> is in flight and alone has that token, or the path is already acknowledged.\<close>

definition awaits :: "nat \<Rightarrow> u64 \<Rightarrow> punch \<Rightarrow> bool" where
  "awaits i t p =
     (table_ok (\<lambda>_. True) p \<and> pn_state p = ST_PROBING \<and> \<not> pn_forced p \<and> i < pn_n p
      \<and> (pa_acked (pn_path p ! i) \<or> pa_token (pn_path p ! i) = t \<and> (\<forall>j < pn_n p. pa_token (pn_path p ! j) = t \<longrightarrow> j = i)))"

definition grows :: "punch \<Rightarrow> punch \<Rightarrow> bool" where
  "grows p q =
     (pn_n p \<le> pn_n q \<and> (pn_state p = ST_PROBING \<longrightarrow> pn_state q = ST_PROBING) \<and> pn_forced q = pn_forced p
      \<and> (\<forall>j < pn_n p. cand_key (pa_cand (pn_path q ! j)) = cand_key (pa_cand (pn_path p ! j))
           \<and> pa_token (pn_path q ! j) = pa_token (pn_path p ! j) \<and> pa_acked (pn_path q ! j) = pa_acked (pn_path p ! j)
           \<and> (pa_heard (pn_path p ! j) \<longrightarrow> pa_heard (pn_path q ! j)))
      \<and> (\<forall>j < pn_n q. pn_n p \<le> j \<longrightarrow> pa_token (pn_path q ! j) = 0))"

lemma grows_refl: "grows p p"
  by (simp add: grows_def)

lemma grows_trans:
  assumes "grows p q" "grows q r"
  shows "grows p r"
proof -
  have "j < pn_n q" if "j < pn_n p" for j using that assms(1) by (simp add: grows_def)
  moreover have "pa_token (pn_path r ! j) = 0" if "pn_n p \<le> j" "j < pn_n r" for j
  proof (cases "j < pn_n q")
    case True
    with that assms show ?thesis by (simp add: grows_def)
  next
    case False
    with that assms(2) show ?thesis by (simp add: grows_def)
  qed
  ultimately show ?thesis using assms by (simp add: grows_def)
qed

lemma grows_set:
  assumes "i < pn_n p" "i < length (pn_path p)" "cand_key (pa_cand t) = cand_key (pa_cand (pn_path p ! i))"
    "pa_token t = pa_token (pn_path p ! i)" "pa_acked t = pa_acked (pn_path p ! i)" "pa_heard (pn_path p ! i) \<longrightarrow> pa_heard t"
  shows "grows p (set_path p i t)"
  using assms by (simp add: grows_def nth_list_update)

lemma grows_push: "pn_n p < length (pn_path p) \<Longrightarrow> pa_token t = 0 \<Longrightarrow> grows p (push_path p t)"
  by (auto simp: grows_def nth_list_update less_Suc_eq)

lemma grows_start: "grows p q \<Longrightarrow> grows p (start_probing q now)"
  by (simp add: grows_def start_probing_def)

lemma add_loop_grows: "table_ok (\<lambda>_. True) p \<Longrightarrow> grows p (fst (add_loop cs p k))"
proof (induction cs p k rule: add_loop.induct)
  case (2 c cs p k)
  note ok = \<open>table_ok (\<lambda>_. True) p\<close>
  have full: ?case if "\<not> pn_n p < MAX_CANDS" using that by (simp add: grows_refl)
  have foreign: ?case if "pn_n p < MAX_CANDS" "\<not> fam_ok (cd_fam c)" using that 2(1) ok by simp
  have known: ?case if *: "pn_n p < MAX_CANDS" "fam_ok (cd_fam c)" "find_cand p c = Some j" for j
  proof -
    let ?t = "(pn_path p ! j)\<lparr>pa_cand := (pa_cand (pn_path p ! j))\<lparr>cd_flags := cd_flags (pa_cand (pn_path p ! j)) OR cd_flags c\<rparr>\<rparr>"
    have j: "j < pn_n p" "j < length (pn_path p)" using find_cand_Some [OF *(3)] table_okD(1,2) [OF ok] by simp_all
    have "grows p (set_path p j ?t)" using j by (intro grows_set) simp_all
    moreover have "table_ok (\<lambda>_. True) (set_path p j ?t)" using ok j by (intro set_path_ok) simp_all
    ultimately show ?thesis using * 2(3) grows_trans by (auto simp: Let_def)
  qed
  have new: ?case if *: "pn_n p < MAX_CANDS" "fam_ok (cd_fam c)" "find_cand p c = None"
  proof -
    let ?q = "push_path p (path0\<lparr>pa_cand := c\<rparr>)"
    have "grows p ?q" using *(1) table_okD(1) [OF ok] by (intro grows_push) (simp_all add: path0_def)
    moreover have "table_ok (\<lambda>_. True) ?q" using ok *(1) find_cand_None [OF *(3)] by (intro push_path_ok) simp_all
    ultimately show ?thesis using * 2(2) grows_trans by auto
  qed
  show ?case using full foreign known new by blast
qed (simp add: grows_refl)

lemma add_cands_grows:
  assumes "table_ok (\<lambda>_. True) p"
  shows "grows p (snd (add_cands p cs now))"
proof (cases cs)
  case (Some l)
  obtain q k where loop: "add_loop l p 0 = (q, k)" by fastforce
  with add_loop_grows [OF assms, of l 0] have "grows p q" by simp
  then show ?thesis by (simp add: add_cands_def Some loop grows_refl grows_start)
qed (simp add: add_cands_def grows_refl)

lemma on_peer_probe_grows:
  assumes "table_ok (\<lambda>_. True) p"
  shows "grows p (snd (on_peer_probe p c now))"
proof (cases "find_cand p c")
  case None
  have "grows p (push_path p (path0\<lparr>pa_cand := c, pa_heard := True\<rparr>))" if "pn_n p < MAX_CANDS"
    using that table_okD(1) [OF assms] by (intro grows_push) (simp_all add: path0_def)
  then show ?thesis using None by (simp add: on_peer_probe_def Let_def grows_refl grows_start)
next
  case (Some i)
  have "i < pn_n p" "i < length (pn_path p)" using find_cand_Some [OF Some] table_okD(1,2) [OF assms] by simp_all
  then have "grows p (set_path p i ((pn_path p ! i)\<lparr>pa_heard := True\<rparr>))" by (intro grows_set) simp_all
  then show ?thesis using Some by (simp add: on_peer_probe_def grows_refl)
qed

lemma awaits_grows:
  assumes "awaits i t p" "t \<noteq> 0" "grows p q" "table_ok (\<lambda>_. True) q"
  shows "awaits i t q"
proof -
  have i: "i < pn_n p" "i < pn_n q" using assms(1,3) by (auto simp: awaits_def grows_def)
  have same: "pa_token (pn_path q ! j) = pa_token (pn_path p ! j)" "pa_acked (pn_path q ! j) = pa_acked (pn_path p ! j)"
    if "j < pn_n p" for j using that assms(3) by (simp_all add: grows_def)
  have "j = i" if "\<not> pa_acked (pn_path p ! i)" "j < pn_n q" "pa_token (pn_path q ! j) = t" for j
  proof (cases "j < pn_n p")
    case True
    with that same assms(1) show ?thesis by (simp add: awaits_def)
  next
    case False
    with that(2,3) assms(2,3) show ?thesis by (simp add: grows_def)
  qed
  then show ?thesis using assms i same [OF i(1)] by (simp add: awaits_def grows_def) blast
qed

lemma awaits_ack:
  assumes "awaits i t p" "t \<noteq> 0"
  shows "awaits i t (snd (punch_on_ack p u now)) \<and> (u = t \<longrightarrow> pa_acked (pn_path (snd (punch_on_ack p u now)) ! i))
    \<and> (\<forall>j < pn_n p. pa_heard (pn_path (snd (punch_on_ack p u now)) ! j) = pa_heard (pn_path p ! j)
         \<and> (pa_acked (pn_path p ! j) \<longrightarrow> pa_acked (pn_path (snd (punch_on_ack p u now)) ! j))
         \<and> pa_cand (pn_path (snd (punch_on_ack p u now)) ! j) = pa_cand (pn_path p ! j))"
proof (cases "u = 0 \<or> find (\<lambda>j. pa_token (pn_path p ! j) = u) [0..<pn_n p] = None")
  case True
  then have "punch_on_ack p u now = (False, p)" by (auto simp: punch_on_ack_def)
  moreover have "pa_acked (pn_path p ! i)" if "u = t"
    using that True assms by (auto simp: awaits_def dest: find_upt_None)
  ultimately show ?thesis using assms(1) by auto
next
  case False
  then obtain k where k: "find (\<lambda>j. pa_token (pn_path p ! j) = u) [0..<pn_n p] = Some k" by auto
  note at = find_upt_Some [OF this]
  have n: "pn_n p \<le> length (pn_path p)" using assms(1) by (simp add: awaits_def table_ok_def)
  let ?q = "set_path p k ((pn_path p ! k)\<lparr>pa_acked := True, pa_token := 0\<rparr>)"
  have q: "snd (punch_on_ack p u now) = ?q"
    using False k assms(1) by (simp add: punch_on_ack_def Let_def awaits_def)
  have path: "pn_path ?q ! j = (if j = k then (pn_path p ! k)\<lparr>pa_acked := True, pa_token := 0\<rparr> else pn_path p ! j)" for j
    using at n by (simp add: nth_list_update)
  have "table_ok (\<lambda>_. True) ?q" using assms(1) at by (intro set_path_ok) (simp_all add: awaits_def)
  moreover have "pa_acked (pn_path ?q ! i)" if "u = t"
    using that at assms by (auto simp: awaits_def path simp del: set_path_frame(6))
  ultimately show ?thesis unfolding q using assms by (auto simp: awaits_def path simp del: set_path_frame(6))
qed

text \<open>Inputs that neither probe again, nor advance the machine, nor pin it.\<close>

fun just_arrives :: "punch_input \<Rightarrow> bool" where
  "just_arrives (Learn cs now) = True"
| "just_arrives (Echo t now) = True"
| "just_arrives (Peer c now) = True"
| "just_arrives _ = False"

text \<open>One of them loses neither the probe in flight nor a credit of its path, and earns the one it brings.\<close>

definition credits :: "nat \<Rightarrow> u64 \<Rightarrow> punch_input \<Rightarrow> punch \<Rightarrow> punch \<Rightarrow> bool" where
  "credits i t e p q =
     (cand_key (pa_cand (pn_path q ! i)) = cand_key (pa_cand (pn_path p ! i))
      \<and> (pa_acked (pn_path p ! i) \<or> (\<exists>a. e = Echo t a) \<longrightarrow> pa_acked (pn_path q ! i))
      \<and> (pa_heard (pn_path p ! i) \<or> (\<exists>c a. e = Peer c a \<and> fam_ok (cd_fam c) \<and> cand_eq c (pa_cand (pn_path p ! i)))
           \<longrightarrow> pa_heard (pn_path q ! i)))"

lemma grows_credits: "grows p q \<Longrightarrow> i < pn_n p \<Longrightarrow> (\<And>t a. e \<noteq> Echo t a) \<Longrightarrow> (\<And>c a. e \<noteq> Peer c a) \<Longrightarrow> credits i t e p q"
  by (simp add: grows_def credits_def)

lemma arrival_credits:
  assumes "awaits i t p" "t \<noteq> 0" "just_arrives e"
  shows "awaits i t (snd (punch_step e p)) \<and> credits i t e p (snd (punch_step e p))"
proof -
  have ok: "table_ok (\<lambda>_. True) p" and i: "i < pn_n p" using assms(1) by (simp_all add: awaits_def)
  show ?thesis
  proof (cases e)
    case (Learn cs now)
    note g = add_cands_grows [OF ok, of cs now]
    have "awaits i t (snd (add_cands p cs now))" using ok by (intro awaits_grows [OF assms(1,2) g] add_cands_ok) simp_all
    with grows_credits [OF g i] show ?thesis by (simp add: Learn)
  next
    case (Echo u now)
    from awaits_ack [OF assms(1,2), of u now] i show ?thesis by (auto simp: Echo credits_def)
  next
    case (Peer c now)
    note g = on_peer_probe_grows [OF ok, of c now]
    have "pa_heard (pn_path (snd (on_peer_probe p c now)) ! i)" if "fam_ok (cd_fam c)" "cand_eq c (pa_cand (pn_path p ! i))"
      using that find_cand_the [OF ok i, of c] i table_okD(1,2) [OF ok] by (simp add: on_peer_probe_def cand_eq_key)
    moreover have "awaits i t (snd (on_peer_probe p c now))"
      using ok by (intro awaits_grows [OF assms(1,2) g] on_peer_probe_ok) simp_all
    ultimately show ?thesis using g i by (simp add: Peer credits_def grows_def)
  qed (use assms(3) in simp_all)
qed

lemma arrivals_credit:
  "awaits i t p \<Longrightarrow> t \<noteq> 0 \<Longrightarrow> \<forall>e \<in> set es. just_arrives e \<Longrightarrow>
     awaits i t (snd (punch_run es p))
     \<and> (pa_acked (pn_path p ! i) \<or> (\<exists>a. Echo t a \<in> set es) \<longrightarrow> pa_acked (pn_path (snd (punch_run es p)) ! i))
     \<and> (pa_heard (pn_path p ! i)
         \<or> (\<exists>c a. Peer c a \<in> set es \<and> fam_ok (cd_fam c) \<and> cand_eq c (pa_cand (pn_path p ! i)))
         \<longrightarrow> pa_heard (pn_path (snd (punch_run es p)) ! i))"
proof (induction es arbitrary: p)
  case (Cons e es)
  let ?q = "snd (punch_step e p)"
  have step: "awaits i t ?q" "credits i t e p ?q" using arrival_credits [of i t p e] Cons.prems by auto
  have run: "snd (punch_run (e # es) p) = snd (punch_run es ?q)" by (simp split: prod.split)
  have "cand_eq c (pa_cand (pn_path ?q ! i)) = cand_eq c (pa_cand (pn_path p ! i))" for c
    using step(2) by (simp add: credits_def cand_eq_key)
  with Cons.IH [OF step(1) Cons.prems(2)] Cons.prems(3) step(2) show ?case
    unfolding run credits_def by auto
qed simp

lemma due_probes_awaits:
  assumes "table_ok (\<lambda>_. True) p" "pn_state p = ST_PROBING" "pn_n p \<le> cap" "due_probes p now cap = (out, q)" "(i, t) \<in> set out"
  shows "awaits i t q \<and> t \<noteq> 0"
proof -
  let ?p = "p\<lparr>pn_last_probe_ms := now\<rparr>"
  have n: "pn_n p \<le> MAX_CANDS" "length (pn_path p) = MAX_CANDS" using assms(1) by (simp_all add: table_ok_def)
  have loop: "probe_loop [0..<pn_n p] ?p now = (out, q)" and free: "\<not> pn_forced p"
    using assms(2-5) by (auto simp: due_probes_def Let_def min_absorb1 split: if_splits)
  have inside: "set [0..<pn_n p] \<subseteq> {..< length (pn_path ?p)}" using n by auto
  have tok: "map fst out = [0..<pn_n p]" "(j, u) \<in> set out \<Longrightarrow> pa_token (pn_path q ! j) = u" for j u
    using probe_loop_tokens [OF loop distinct_upt inside] by simp_all
  have "0 \<notin> snd ` set out" using probe_loop_offsets [OF loop] by blast
  moreover have "t \<in> snd ` set out" using imageI [OF assms(5), of snd] by simp
  ultimately have t: "t \<noteq> 0" by metis
  have dist: "distinct (map snd out)" using probe_loop_distinct [OF loop] n by simp
  have own: "j = i" if j: "j < pn_n p" "pa_token (pn_path q ! j) = t" for j
  proof -
    have "j \<in> fst ` set out" using j(1) unfolding set_map [symmetric] tok(1) by simp
    then obtain x where x: "j = fst x" "x \<in> set out" by (rule imageE)
    then have u: "(j, snd x) \<in> set out" by simp
    from u tok(2) [OF u] j(2) have jt: "(j, t) \<in> set out" by simp
    from dist have "inj_on snd (set out)" by (simp add: distinct_map)
    from inj_onD [OF this _ jt assms(5)] show ?thesis by simp
  qed
  have "i \<in> set (map fst out)" using imageI [OF assms(5), of fst] by simp
  then have i: "i < pn_n p" using tok(1) by simp
  have q: "table_ok (\<lambda>_. True) q" "same_but_probed p q"
    using due_probes_ok [OF assms(4), of "\<lambda>_. True"] assms(1) by (simp_all add: probes_keep_def)
  then have "pn_n q = pn_n p" "pn_state q = ST_PROBING" "\<not> pn_forced q"
    using assms(2) free by (simp_all add: same_but_probed_def)
  with q(1) i own tok(2) [OF assms(5)] have "awaits i t q" unfolding awaits_def by metis
  with t show ?thesis by simp
qed

text \<open>C36. Hole punching succeeds when the network lets it: once a pair that is probing has probed all its paths, the echo of
  the probe of one path and a probe of the peer's own from that address - in any order, before or after any number of other
  candidate lists, echoes and probes - make the next \<open>tick\<close> promote the pair to a direct path.\<close>

theorem answered_probe_promotes:
  assumes "punch_run es0 (punch_reset seed) = (tr, p)" "pn_state p = ST_PROBING" "pn_n p \<le> cap"
    "due_probes p now cap = (out, q)" "(i, t) \<in> set out" "\<forall>e \<in> set es. just_arrives e"
    "Echo t a \<in> set es" "Peer c b \<in> set es" "fam_ok (cd_fam c)" "cand_eq c (pa_cand (pn_path q ! i))"
  shows "fst (punch_tick (snd (punch_run es q)) z) = EV_PROMOTED
    \<and> direct_target (snd (punch_tick (snd (punch_run es q)) z)) \<noteq> None"
proof -
  have "table_ok (backed []) (punch_reset seed)" by (rule punch_reset_ok)
  from punch_run_backed [OF this assms(1)] have "table_ok (\<lambda>_. True) p" by (auto intro: table_ok_mono)
  from due_probes_awaits [OF this assms(2-5)] have "awaits i t q" "t \<noteq> 0" by auto
  note run = arrivals_credit [OF this assms(6)]
  let ?r = "snd (punch_run es q)"
  have r: "awaits i t ?r" "pa_acked (pn_path ?r ! i)" "pa_heard (pn_path ?r ! i)" using run assms(7-10) by blast+
  obtain k where k: "find (\<lambda>i. pa_acked (pn_path ?r ! i) \<and> pa_heard (pn_path ?r ! i)) [0..<pn_n ?r] = Some k"
    using r find_upt_None unfolding awaits_def by (metis (mono_tags, lifting) option.exhaust)
  from find_upt_Some [OF this] r(1) k show ?thesis by (simp add: punch_tick_def awaits_def direct_target_def)
qed

lemma answered_probe_promotes_witness:
  "pn_state (snd (punch_run [Learn (Some [a_cand]) 5] (punch_reset 9))) = ST_PROBING
   \<and> fst (punch_tick (snd (punch_run [Peer a_cand 20, Learn (Some [cand0]) 30, Echo 9 40]
        (snd (due_probes (snd (punch_run [Learn (Some [a_cand]) 5] (punch_reset 9))) 5 8)))) 41) = EV_PROMOTED"
proof -
  let ?p = "snd (punch_run [Learn (Some [a_cand]) 5] (punch_reset 9))"
  let ?es = "[Peer a_cand 20, Learn (Some [cand0]) 30, Echo 9 40]"
  have 1: "pn_state ?p = ST_PROBING" by code_simp
  have 2: "pn_n ?p \<le> 8" by code_simp
  have 3: "(0, 9) \<in> set (fst (due_probes ?p 5 8))" by code_simp
  have 4: "fam_ok (cd_fam a_cand)" by code_simp
  have 5: "cand_eq a_cand (pa_cand (pn_path (snd (due_probes ?p 5 8)) ! 0))" by code_simp
  have 6: "\<forall>e \<in> set ?es. just_arrives e" by simp
  have 7: "Echo 9 40 \<in> set ?es" "Peer a_cand 20 \<in> set ?es" by simp_all
  from answered_probe_promotes [OF prod.collapse [symmetric] 1 2 prod.collapse [symmetric] 3 6 7 4 5] 1
  show ?thesis by blast
qed

end
