(* ===== verification/Spec2Isabelle.thy ===== *)
theory Spec2Isabelle
  imports Net_Wire Udp_Frames Udp_Input Udp_Records Udp_Bulk Udp_Token Origin_Layer Bulk_Channel
    Gameplay_Set Map_Name Announce Text_Utf8 Udp_Room Order_Codec Lane_Queue Save_Block Mesh_Elect
    Snapshot_Arrives Snapshot_Outbox Udp_Punch
begin

text \<open>
  A verification development of the multiplayer protocol of the \<open>mission_humanity_re\<close> repository, the
  C++ re-implementation of the game.  Modelled is the part that owns its own rules: what two peers put on
  the wire, what they accept from it, and the state machines that decide what is delivered.  All paths are
  under \<open>src/src/\<close>.

  \<^bold>\<open>Parts and theories.\<close>
  \<^item> \<open>Mh_Prelude\<close>, \<open>Byteio\<close>, \<open>Text_Bytes\<close>: word types, buffers, C strings, \<open>memcpy\<close>; the byte order helpers
    (\<open>mh_net_proto/src/byteio.h\<close>) behind the locale \<open>fixed_field\<close>; characters, hexadecimal and printing.
  \<^item> \<open>Net_Wire\<close>: the header of the stream transport (\<open>net_wire.cpp\<close>).
  \<^item> \<open>Sha256\<close>, \<open>Chacha20\<close>, \<open>Handshake\<close>: \<open>net_crypto.cpp\<close>, with the pre-shared-key handshake and the sealed
    records.  What is shown is what the code computes; no hardness is assumed.
  \<^item> \<open>Replay_Window\<close>, \<open>Udp_Packet\<close>, \<open>Udp_Token\<close>: the UDP datagram, its verdicts in the code's order, the 64-entry
    replay window, the connect token (\<open>net_udp.cpp\<close>).
  \<^item> \<open>Delimited\<close> (a locale for length-delimited bodies), \<open>Udp_Frames\<close>, \<open>Udp_Input\<close>, \<open>Udp_Records\<close>, \<open>Udp_Bulk\<close>: the channel
    codecs inside the sealed body.
  \<^item> \<open>Origin_Ring\<close>, \<open>Origin_Plan\<close>, \<open>Origin_Layer\<close>: the exactly-once layer (\<open>mh_net_udp/origin_seq.h\<close>): what a peer
    retains of each origin's frames, the reconcile planner, and the per-origin delivery machine.
  \<^item> \<open>Bulk_State\<close>, \<open>Bulk_Sender\<close>, \<open>Bulk_Receiver\<close>, \<open>Bulk_Lane\<close>, \<open>Bulk_Delivery\<close>, \<open>Bulk_Image\<close>, \<open>Bulk_Channel\<close>: the bulk channel
    (\<open>udp_channel_c.cpp\<close>): the sender's window over its source image, the receiver's reassembly and its lane of
    finished chunks (the locale \<open>bounded_fifo\<close>), acknowledgements, and the step relation \<open>chan_step\<close> of the whole
    channel.
  \<^item> \<open>Uuid7\<close>, \<open>Gameplay_Set\<close>, \<open>Session_Info\<close>, \<open>Join_Request\<close>, \<open>Map_Name\<close>, \<open>Announce\<close>: match identifiers, the gameplay key
    set, the lobby advert, the join request and its admission, map identities, announcements (\<open>uuid7.cpp\<close>,
    \<open>gameplay_set.cpp\<close>, \<open>session_info.cpp\<close>).
  \<^item> \<open>Text_Utf8\<close>: chat text, the edit line and player names (\<open>text_utf8.h\<close>).
  \<^item> \<open>Udp_Room\<close>: the relay room a host mints (\<open>udp_room.h\<close>).
  \<^item> \<open>Order_Codec\<close>: the record of a game order on the wire and in a save (\<open>libmh/orders/order_codec.h\<close>,
    \<open>order_index_codec.h\<close>).
  \<^item> \<open>Lane_Queue\<close>: the inbound queue of the endpoint with its two lanes (\<open>mh_common/include/mh_net_queue_policy.h\<close>,
    \<open>Endpoint::enqueue\<close> and \<open>recv\<close> in \<open>udp_endpoint.cpp\<close>).
  \<^item> \<open>Snapshot_Image\<close>, \<open>Snapshot_Receiver\<close>, \<open>Snapshot_Arrives\<close>, \<open>Snapshot_Outbox\<close>: the snapshot pipeline over the bulk channel
    (\<open>mh_net_udp/udp_snapshot.cpp\<close>): the manifest and the composed image, the receiver that checks every chunk,
    the two together over a transfer of \<open>Bulk_Sender\<close>, and the owner of the sender's copy, whose calls are lists of
    steps that the channel's threads interleave with.
  \<^item> \<open>Mesh_Elect\<close>: the pure rules of host migration (\<open>mh_net_udp/mesh.h\<close>): matrix, election, digest, quorum.
  \<^item> \<open>Punch_Cands\<close>, \<open>Udp_Punch\<close>: the decision half of hole punching (\<open>mh_net_udp/udp_punch.cpp\<close>): the candidate list on the
    wire, and the state machine that probes, promotes and gives up direct paths.
  \<^item> \<open>Lzw_Decoder\<close>, \<open>Lzw_Encoder\<close>, \<open>Lzw\<close>: the compressor of save blocks (\<open>mh_common/lzw.cpp\<close>); \<open>Save_Block\<close>: the block layer
    (\<open>libmh/save/save_block.cpp\<close>) and the LZSS decoder of the other block format.

  \<^bold>\<open>How state and operations correspond.\<close>  A struct is a record with the source's fields, an enum a
  datatype; integers keep their width as words, lengths and counters that the code bounds are \<open>nat\<close>.  A method
  is a function from the state to the updated state and what it returns; a callback is the list of the calls
  made, in order.  A null pointer is \<open>None\<close>.  A handler keeps the order of the code's guards, and a long one
  is split at its blocks; the map of the manifest names the lines of each.  Loops are recursions over what
  they walk, and every function terminates on every input.  Fuel is used in the save compressor only: the main
  loop of the LZW decoder counts down rounds, as many as the payload has bytes, and \<open>decompress_returns\<close> shows that
  they suffice; the encoder's walk along a chain counts its links, and \<open>match_loop_links\<close> shows that a chain has
  fewer than it is given.

  \<^bold>\<open>What the lemmas show.\<close>  For every codec: the reader returns what the writer wrote, whatever follows, and
  what it accepts is what the writer makes.  For the packet layer: a datagram is accepted exactly when it is
  sealed under the keys of its connection and its number is new; the window refines the set of accepted
  numbers; nothing refused changes the state.  For the exactly-once layer: each origin's frames are handed up
  once and in order through losses, reordering and resends, and what a plan asks for can be served, both as long
  as no hole is skipped.  For the
  bulk channel: the chunks delivered are the verified prefix of the source, a sender never leaves its image,
  and the sender's window follows the receiver's.  For the lobby: who is admitted and who is refused with which
  reason.  For text: edits move whole characters, names normalize alike everywhere.  For snapshots: a blob
  arrives whole under the root its sender announced or not at all, and the channel never pulls from a copy that
  was released.  For host migration: the election is a sort by cost, equal digests elect alike, and two groups
  that share nobody never both hold the majority a failover asks for (the old hub does not ask).
  For hole punching: a direct path was proven in both directions, only the echo of its own probe renews it, and an
  answered probe promotes.  For saves: what the compressor writes the decompressor reads back, whatever dictionaries the
  two still hold, and a corrupt block cannot make the LZW reader leave its array, unless that is empty.

  \<^bold>\<open>Not modelled.\<close>  Sockets, threads, timers and locks of the endpoint, the relay tunnel, the mesh and the stream
  transport; the control frames and timeouts of host migration; the sockets of hole punching; link statistics and look-ahead,
  which compute with doubles; the game itself (simulation, AI, tactics, rendering), which re-implements a binary function by
  function over its memory image; the tables of save files and desync recording; vendored libraries, tests, generated
  tables, and the programs in other languages.  SHA-256 and ChaCha20 are modelled as code; their security is
  not a theorem.
\<close>

end
